(* ===== verification/Prelude.thy ===== *)
theory Prelude
  imports
    Main
    "HOL-Library.List_Lexorder"
    "HOL-Library.Char_ord"
    "HOL-Library.Product_Lexorder"
    "HOL-Library.Option_ord"
    "HOL-Library.Multiset"
begin

text \<open>
  Shared vocabulary of the development.  A Rust \<open>String\<close> or \<open>Vec<u8>\<close> is a \<open>string\<close>: a list of
  8-bit characters, that is, of UTF-8 bytes, so \<open>length\<close> is Rust's \<open>len()\<close> and the order of
  \<open>List_Lexorder\<close> over \<open>Char_ord\<close> is Rust's byte-wise \<open>Ord\<close>.  A \<open>BTreeMap\<close> is an association list
  with strictly increasing keys (\<open>bt_ok\<close>), a \<open>BTreeSet\<close> a strictly increasing list (\<open>bs_ok\<close>); both
  are read through \<open>map_of\<close> and \<open>set\<close>.  Below: byte-string helpers of \<open>str\<close>, the containers, decimal
  and hexadecimal printing, and the contract of the routines that allocate fresh names.
\<close>

named_theorems str_simps \<open>unfolding rules of the byte-string helpers\<close>
named_theorems bt_simps \<open>lookup and invariant rules of the ordered containers\<close>

type_synonym bytes = string
type_synonym ('k, 'v) btree = "('k \<times> 'v) list"

abbreviation ok_or :: "'e \<Rightarrow> 'a option \<Rightarrow> 'e + 'a" where
  "ok_or e x \<equiv> (case x of None \<Rightarrow> Inl e | Some y \<Rightarrow> Inr y)"

fun bind_res :: "'e + 'a \<Rightarrow> ('a \<Rightarrow> 'e + 'b) \<Rightarrow> 'e + 'b" where
  "bind_res (Inl e) f = Inl e"
| "bind_res (Inr x) f = f x"

lemma bind_res_Inr [simp]: "bind_res r f = Inr y \<longleftrightarrow> (\<exists>x. r = Inr x \<and> f x = Inr y)"
  by (cases r) auto

lemma bind_res_Inl: "bind_res r f = Inl e \<longleftrightarrow> r = Inl e \<or> (\<exists>x. r = Inr x \<and> f x = Inl e)"
  by (cases r) auto

section \<open>Byte strings\<close>

definition starts_with :: "'a list \<Rightarrow> 'a list \<Rightarrow> bool" where
  "starts_with s p \<longleftrightarrow> take (length p) s = p"

definition ends_with :: "'a list \<Rightarrow> 'a list \<Rightarrow> bool" where
  "ends_with s p \<longleftrightarrow> length p \<le> length s \<and> drop (length s - length p) s = p"

definition strip_prefix :: "'a list \<Rightarrow> 'a list \<Rightarrow> 'a list option" where
  "strip_prefix s p = (if starts_with s p then Some (drop (length p) s) else None)"

lemma starts_with_append [simp]: "starts_with (p @ s) p"
  by (simp add: starts_with_def)

lemma starts_with_iff: "starts_with s p \<longleftrightarrow> (\<exists>r. s = p @ r)"
proof
  assume "starts_with s p"
  then have "s = p @ drop (length p) s"
    using append_take_drop_id [of "length p" s] by (simp add: starts_with_def)
  then show "\<exists>r. s = p @ r" ..
qed auto

lemma ends_with_iff: "ends_with s p \<longleftrightarrow> (\<exists>r. s = r @ p)"
proof
  assume "ends_with s p"
  then have "s = take (length s - length p) s @ p"
    using append_take_drop_id [of "length s - length p" s] by (simp add: ends_with_def)
  then show "\<exists>r. s = r @ p" ..
qed (auto simp: ends_with_def)

lemma strip_prefix_Some: "strip_prefix s p = Some r \<longleftrightarrow> s = p @ r"
  by (auto simp: strip_prefix_def starts_with_iff)

lemma strip_prefix_None: "strip_prefix s p = None \<longleftrightarrow> \<not> starts_with s p"
  by (auto simp: strip_prefix_def)

text \<open>\<open>str::find\<close>: the first index at which the pattern occurs.\<close>

fun str_find :: "'a list \<Rightarrow> 'a list \<Rightarrow> nat option" where
  "str_find p [] = (if p = [] then Some 0 else None)"
| "str_find p (c # s) =
     (if starts_with (c # s) p then Some 0 else map_option Suc (str_find p s))"

definition str_contains :: "'a list \<Rightarrow> 'a list \<Rightarrow> bool" where
  "str_contains s p \<longleftrightarrow> str_find p s \<noteq> None"

lemma str_find_Some:
  "str_find p s = Some i \<Longrightarrow> \<exists>r. s = take i s @ p @ r \<and> i + length p \<le> length s"
proof (induction s arbitrary: i)
  case Nil
  then show ?case by (auto split: if_splits)
next
  case (Cons c s)
  show ?case
  proof (cases "starts_with (c # s) p")
    case True
    with Cons.prems have "i = 0" by simp
    moreover from True obtain r where "c # s = p @ r" by (auto simp: starts_with_iff)
    moreover from this have "length p \<le> length (c # s)"
      by (metis length_append le_add1)
    ultimately show ?thesis by auto
  next
    case False
    with Cons.prems obtain j where j: "str_find p s = Some j" "i = Suc j" by auto
    from Cons.IH [OF j(1)] obtain r where "s = take j s @ p @ r" "j + length p \<le> length s"
      by auto
    with j show ?thesis by auto
  qed
qed

lemma str_find_Some_drop:
  assumes "str_find p s = Some i"
  shows "s = take i s @ p @ drop (i + length p) s" and "i + length p \<le> length s"
proof -
  obtain r where r: "s = take i s @ p @ r" and le: "i + length p \<le> length s"
    using str_find_Some [OF assms] by auto
  from le have "length (take i s) = i" by simp
  with r have "drop (i + length p) s = r"
    by (metis append_eq_conv_conj drop_drop add.commute)
  with r show "s = take i s @ p @ drop (i + length p) s" by simp
  from le show "i + length p \<le> length s" .
qed

lemma str_find_skip:
  assumes "\<forall>i < length s. \<not> starts_with (drop i (s @ p @ r)) p"
  shows "str_find p (s @ p @ r) = Some (length s)"
  using assms
proof (induction s)
  case Nil
  show ?case by (cases "p @ r") (simp_all, metis starts_with_append)
next
  case (Cons c s)
  have "\<not> starts_with ((c # s) @ p @ r) p" using Cons.prems by fastforce
  moreover have "\<forall>i < length s. \<not> starts_with (drop i (s @ p @ r)) p"
    using Cons.prems by fastforce
  ultimately show ?case using Cons.IH by simp
qed

text \<open>A pattern whose first character occurs nowhere in \<open>s\<close> is found right after \<open>s\<close>.\<close>

lemma str_find_fresh:
  assumes "p \<noteq> []" "hd p \<notin> set s"
  shows "str_find p (s @ p @ r) = Some (length s)"
proof (rule str_find_skip, intro allI impI notI)
  fix i assume i: "i < length s" and st: "starts_with (drop i (s @ p @ r)) p"
  from i have "hd (drop i (s @ p @ r)) \<in> set s"
    by (simp add: hd_drop_conv_nth nth_append)
  moreover have "hd (drop i (s @ p @ r)) = hd p"
    using st assms(1) unfolding starts_with_iff by (metis hd_append2)
  ultimately show False using assms(2) by simp
qed

lemma str_find_None_notin:
  "p \<noteq> [] \<Longrightarrow> hd p \<notin> set s \<Longrightarrow> str_find p s = None"
  by (induction s) (auto simp: starts_with_iff Cons_eq_append_conv)

text \<open>
  \<open>split\<close> on one of several ASCII characters, \<open>split\<close> on a pattern, \<open>join\<close>: the segments between the
  separators, at least one of them.
\<close>

fun split_on :: "('a \<Rightarrow> bool) \<Rightarrow> 'a list \<Rightarrow> 'a list list" where
  "split_on P [] = [[]]"
| "split_on P (c # s) =
     (if P c then [] # split_on P s
      else (case split_on P s of [] \<Rightarrow> [[c]] | x # xs \<Rightarrow> (c # x) # xs))"

lemma split_on_nonempty [simp]: "split_on P s \<noteq> []"
  by (induction s) (auto split: list.splits)

lemma split_on_no_sep: "\<forall>c \<in> set s. \<not> P c \<Longrightarrow> split_on P s = [s]"
  by (induction s) auto

lemma split_on_append_sep:
  "\<forall>c \<in> set s. \<not> P c \<Longrightarrow> P d \<Longrightarrow> split_on P (s @ d # t) = s # split_on P t"
  by (induction s) auto

lemma hd_split_on: "hd (split_on P s) = takeWhile (\<lambda>c. \<not> P c) s"
  by (induction s) (auto split: list.splits)

text \<open>\<open>rsplit\<close> on one of several characters, its first item: what follows the last separator.\<close>

definition rsplit_first :: "('a \<Rightarrow> bool) \<Rightarrow> 'a list \<Rightarrow> 'a list" where
  "rsplit_first P s = rev (takeWhile (\<lambda>c. \<not> P c) (rev s))"

lemma rsplit_first_no_sep: "\<forall>c \<in> set s. \<not> P c \<Longrightarrow> rsplit_first P s = s"
  by (simp add: rsplit_first_def takeWhile_eq_all_conv [THEN iffD2])

lemma rsplit_first_append_sep:
  "\<forall>c \<in> set t. \<not> P c \<Longrightarrow> P d \<Longrightarrow> rsplit_first P (s @ d # t) = t"
  using takeWhile_append2 [of "rev t" "\<lambda>c. \<not> P c" "d # rev s"]
  by (simp add: rsplit_first_def)

lemma rsplit_first_no_sepD: "c \<in> set (rsplit_first P s) \<Longrightarrow> \<not> P c"
  by (auto simp: rsplit_first_def dest: set_takeWhileD)

lemma rsplit_first_suffix: "\<exists>r. s = r @ rsplit_first P s \<and> (r = [] \<or> P (last r))"
proof -
  let ?t = "takeWhile (\<lambda>c. \<not> P c) (rev s)" and ?d = "dropWhile (\<lambda>c. \<not> P c) (rev s)"
  have 1: "s = rev ?d @ rsplit_first P s"
    unfolding rsplit_first_def by (metis rev_append rev_rev_ident takeWhile_dropWhile_id)
  have 2: "rev ?d = [] \<or> P (last (rev ?d))"
  proof (cases ?d)
    case (Cons a l)
    then show ?thesis using hd_dropWhile [of "\<lambda>c. \<not> P c" "rev s"] by simp
  qed simp
  from 1 2 show ?thesis by blast
qed

fun join_with :: "'a list \<Rightarrow> 'a list list \<Rightarrow> 'a list" where
  "join_with d [] = []"
| "join_with d [x] = x"
| "join_with d (x # y # xs) = x @ d @ join_with d (y # xs)"

lemma split_on_join_with:
  "xs \<noteq> [] \<Longrightarrow> \<forall>x \<in> set xs. \<forall>c \<in> set x. \<not> P c \<Longrightarrow> P d \<Longrightarrow>
   split_on P (join_with [d] xs) = xs"
proof (induction xs rule: induct_list012)
  case (2 x)
  then show ?case by (simp add: split_on_no_sep)
next
  case (3 x y zs)
  then show ?case using split_on_append_sep [of x P d "join_with [d] (y # zs)"] by simp
qed simp

lemma join_with_inj:
  assumes "join_with [d] xs = join_with [d] ys" "xs \<noteq> []" "ys \<noteq> []"
    and "\<forall>x \<in> set xs. d \<notin> set x" "\<forall>y \<in> set ys. d \<notin> set y"
  shows "xs = ys"
  using split_on_join_with [of xs "\<lambda>c. c = d" d] split_on_join_with [of ys "\<lambda>c. c = d" d] assms
  by metis


text \<open>
  \<open>str::chars\<close>: the characters of a valid UTF-8 string, each as its bytes; a byte
  \<open>10xxxxxx\<close> continues the character before it.
\<close>

definition is_cont :: "char \<Rightarrow> bool" where
  "is_cont c \<longleftrightarrow> 128 \<le> (of_char c :: nat) \<and> (of_char c :: nat) < 192"

definition is_ascii :: "char \<Rightarrow> bool" where
  "is_ascii c \<longleftrightarrow> (of_char c :: nat) < 128"

function utf8_chars :: "string \<Rightarrow> string list" where
  "utf8_chars [] = []"
| "utf8_chars (b # s) = (b # takeWhile is_cont s) # utf8_chars (dropWhile is_cont s)"
  by pat_completeness auto
termination
  by (relation "measure length") (auto simp: length_dropWhile_le less_Suc_eq_le)

lemma concat_utf8_chars [simp]: "concat (utf8_chars s) = s"
  by (induction s rule: utf8_chars.induct) auto

lemma utf8_chars_nonempty: "u \<in> set (utf8_chars s) \<Longrightarrow> u \<noteq> []"
  by (induction s rule: utf8_chars.induct) auto

lemma is_ascii_not_cont: "is_ascii c \<Longrightarrow> \<not> is_cont c"
  by (simp add: is_ascii_def is_cont_def)

lemma utf8_chars_ascii: "\<forall>c \<in> set s. is_ascii c \<Longrightarrow> utf8_chars s = map (\<lambda>c. [c]) s"
proof (induction s)
  case (Cons c s)
  then have "takeWhile is_cont s = []" "dropWhile is_cont s = s"
    by (cases s; simp add: is_ascii_not_cont)+
  with Cons show ?case by simp
qed simp

definition upper_letters :: string where "upper_letters = ''ABCDEFGHIJKLMNOPQRSTUVWXYZ''"
definition lower_letters :: string where "lower_letters = ''abcdefghijklmnopqrstuvwxyz''"
definition digit_chars :: string where "digit_chars = ''0123456789''"

definition is_ascii_digit :: "char \<Rightarrow> bool" where "is_ascii_digit c \<longleftrightarrow> c \<in> set digit_chars"
definition is_ascii_uppercase :: "char \<Rightarrow> bool" where
  "is_ascii_uppercase c \<longleftrightarrow> c \<in> set upper_letters"
definition is_ascii_lowercase :: "char \<Rightarrow> bool" where
  "is_ascii_lowercase c \<longleftrightarrow> c \<in> set lower_letters"
definition is_ascii_alphanumeric :: "char \<Rightarrow> bool" where
  "is_ascii_alphanumeric c \<longleftrightarrow>
     is_ascii_uppercase c \<or> is_ascii_lowercase c \<or> is_ascii_digit c"

lemmas char_class_defs [str_simps] =
  upper_letters_def lower_letters_def digit_chars_def is_ascii_digit_def
  is_ascii_uppercase_def is_ascii_lowercase_def is_ascii_alphanumeric_def

definition ascii_lower :: "char \<Rightarrow> char" where
  "ascii_lower c = (case map_of (zip upper_letters lower_letters) c of None \<Rightarrow> c | Some l \<Rightarrow> l)"

definition to_ascii_lowercase :: "string \<Rightarrow> string" where
  "to_ascii_lowercase s = map ascii_lower s"

lemma ascii_lower_not_upper: "\<not> is_ascii_uppercase c \<Longrightarrow> ascii_lower c = c"
  by (auto simp: ascii_lower_def is_ascii_uppercase_def split: option.split
      dest!: map_of_SomeD set_zip_leftD)

lemma ascii_lower_upper: "is_ascii_uppercase c \<Longrightarrow> is_ascii_lowercase (ascii_lower c)"
proof -
  have "\<forall>c \<in> set upper_letters. ascii_lower c \<in> set lower_letters" by code_simp
  then show "is_ascii_uppercase c \<Longrightarrow> ?thesis"
    by (simp add: is_ascii_uppercase_def is_ascii_lowercase_def)
qed

lemma lower_not_upper: "is_ascii_lowercase c \<Longrightarrow> \<not> is_ascii_uppercase c"
proof -
  have "\<forall>c \<in> set lower_letters. c \<notin> set upper_letters" by code_simp
  then show "is_ascii_lowercase c \<Longrightarrow> ?thesis"
    by (simp add: is_ascii_uppercase_def is_ascii_lowercase_def)
qed

lemma ascii_lower_result: "\<not> is_ascii_uppercase (ascii_lower c)"
proof (cases "is_ascii_uppercase c")
  case True
  then have "is_ascii_lowercase (ascii_lower c)" by (rule ascii_lower_upper)
  then show ?thesis by (rule lower_not_upper)
qed (simp add: ascii_lower_not_upper)

lemma to_ascii_lowercase_idem [simp]:
  "to_ascii_lowercase (to_ascii_lowercase s) = to_ascii_lowercase s"
  by (simp add: to_ascii_lowercase_def ascii_lower_not_upper ascii_lower_result)

lemma to_ascii_lowercase_append [simp]:
  "to_ascii_lowercase (s @ t) = to_ascii_lowercase s @ to_ascii_lowercase t"
  by (simp add: to_ascii_lowercase_def)

section \<open>Decimal and hexadecimal printing\<close>

fun dec :: "nat \<Rightarrow> string" where
  "dec n = (if n < 10 then [digit_chars ! n] else dec (n div 10) @ [digit_chars ! (n mod 10)])"

declare dec.simps [simp del]

definition digit_val :: "char \<Rightarrow> nat" where
  "digit_val c = length (takeWhile (\<lambda>d. d \<noteq> c) digit_chars)"

definition dec_val :: "string \<Rightarrow> nat" where
  "dec_val s = foldl (\<lambda>a c. 10 * a + digit_val c) 0 s"

lemma nat_lt_10_cases: "(n::nat) < 10 \<Longrightarrow> n \<in> {0,1,2,3,4,5,6,7,8,9}"
  by auto

lemma digit_val_nth: "n < 10 \<Longrightarrow> digit_val (digit_chars ! n) = n"
  by (drule nat_lt_10_cases) (auto simp: digit_val_def digit_chars_def)

lemma digit_nth_mem: "n < 10 \<Longrightarrow> digit_chars ! n \<in> set digit_chars"
  by (rule nth_mem) (simp add: digit_chars_def)

lemma dec_val_dec [simp]: "dec_val (dec n) = n"
proof (induction n rule: dec.induct)
  case (1 n)
  show ?case
  proof (cases "n < 10")
    case True
    then show ?thesis by (subst dec.simps) (simp add: dec_val_def digit_val_nth)
  next
    case False
    then have "dec_val (dec n) = 10 * dec_val (dec (n div 10)) + n mod 10"
      by (subst dec.simps) (simp add: dec_val_def digit_val_nth)
    with "1.IH" False show ?thesis by simp
  qed
qed

lemma dec_inj [simp]: "dec m = dec n \<longleftrightarrow> m = n"
  by (metis dec_val_dec)

lemma inj_dec: "inj dec"
  by (rule injI) simp

lemma dec_digits: "c \<in> set (dec n) \<Longrightarrow> is_ascii_digit c"
proof (induction n rule: dec.induct)
  case (1 n)
  then show ?case
    by (subst (asm) dec.simps) (auto simp: is_ascii_digit_def digit_nth_mem split: if_splits)
qed

lemma dec_nonempty [simp]: "dec n \<noteq> []"
  by (subst dec.simps) simp

lemma dec_no [simp]: "\<not> is_ascii_digit c \<Longrightarrow> c \<notin> set (dec n)"
  using dec_digits by blast

lemma length_dec: "n < 10 ^ k \<Longrightarrow> 0 < k \<Longrightarrow> length (dec n) \<le> k"
proof (induction n arbitrary: k rule: dec.induct)
  case (1 n)
  show ?case
  proof (cases "n < 10")
    case True
    with "1.prems" show ?thesis by (subst dec.simps) simp
  next
    case False
    with "1.prems" obtain j where j: "k = Suc j" "0 < j" by (cases k; cases "k = 1") auto
    with "1.prems" have "n div 10 < 10 ^ j" by (simp add: less_mult_imp_div_less mult.commute)
    with "1.IH" [OF False this j(2)] j False show ?thesis by (subst dec.simps) simp
  qed
qed

definition lower_hex :: string where "lower_hex = ''0123456789abcdef''"
definition upper_hex :: string where "upper_hex = ''0123456789ABCDEF''"

definition hex2 :: "string \<Rightarrow> char \<Rightarrow> string" where
  "hex2 ds b = [ds ! ((of_char b :: nat) div 16), ds ! ((of_char b :: nat) mod 16)]"

lemma of_char_lt_256 [simp]: "(of_char c :: nat) < 256"
  by simp

lemma distinct_hex: "distinct lower_hex" "distinct upper_hex"
  "length lower_hex = 16" "length upper_hex = 16"
  by (simp_all add: lower_hex_def upper_hex_def)

lemma hex2_inj:
  assumes "distinct ds" "length ds = 16" "hex2 ds a = hex2 ds b"
  shows "a = b"
proof -
  have r: "(of_char c :: nat) div 16 < 16" "(of_char c :: nat) mod 16 < 16" for c :: char
    using of_char_lt_256 [of c] by linarith+
  from assms have "(of_char a :: nat) div 16 = of_char b div 16"
      "(of_char a :: nat) mod 16 = of_char b mod 16"
    using r by (auto simp: hex2_def nth_eq_iff_index_eq)
  then have "(of_char a :: nat) = of_char b" by (metis div_mult_mod_eq)
  then show ?thesis by simp
qed

lemma hex2_set:
  assumes "length ds = 16" shows "set (hex2 ds b) \<subseteq> set ds"
proof -
  have "(of_char b :: nat) div 16 < 16" "(of_char b :: nat) mod 16 < 16"
    using of_char_lt_256 [of b] by linarith+
  then show ?thesis using assms by (auto simp: hex2_def)
qed

lemma length_hex2 [simp]: "length (hex2 ds b) = 2"
  by (simp add: hex2_def)

section \<open>Ordered containers\<close>

abbreviation bt_ok :: "('k::linorder, 'v) btree \<Rightarrow> bool" where
  "bt_ok m \<equiv> sorted_wrt (<) (map fst m)"

abbreviation bs_ok :: "'k::linorder list \<Rightarrow> bool" where
  "bs_ok s \<equiv> sorted_wrt (<) s"

definition bt_insert :: "'k::linorder \<Rightarrow> 'v \<Rightarrow> ('k, 'v) btree \<Rightarrow> ('k, 'v) btree" where
  "bt_insert k v m = [p \<leftarrow> m. fst p < k] @ (k, v) # [p \<leftarrow> m. k < fst p]"

definition bt_insert_new :: "'k::linorder \<Rightarrow> 'v \<Rightarrow> ('k, 'v) btree \<Rightarrow> ('k, 'v) btree" where
  \<comment> \<open>\<open>entry(k).or_insert(v)\<close>\<close>
  "bt_insert_new k v m = (case map_of m k of None \<Rightarrow> bt_insert k v m | Some _ \<Rightarrow> m)"

definition bt_remove :: "'k \<Rightarrow> ('k, 'v) btree \<Rightarrow> ('k, 'v) btree" where
  "bt_remove k m = [p \<leftarrow> m. fst p \<noteq> k]"

definition bs_insert :: "'k::linorder \<Rightarrow> 'k list \<Rightarrow> 'k list" where
  "bs_insert k s = [x \<leftarrow> s. x < k] @ k # [x \<leftarrow> s. k < x]"

lemma map_of_filter_key: "map_of [p \<leftarrow> m. P (fst p)] k = (if P k then map_of m k else None)"
  by (induction m) auto

lemma map_of_bt_insert [bt_simps, simp]: "map_of (bt_insert k v m) = (map_of m)(k \<mapsto> v)"
proof
  fix x
  show "map_of (bt_insert k v m) x = ((map_of m)(k \<mapsto> v)) x"
    by (cases "x < k"; cases "k < x")
       (auto simp: bt_insert_def map_add_def map_of_filter_key [of "\<lambda>x. x < k"]
          map_of_filter_key [of "\<lambda>x. k < x"] split: option.split)
qed

lemma map_of_bt_insert_new [bt_simps, simp]:
  "map_of (bt_insert_new k v m) = (if k \<in> dom (map_of m) then map_of m else (map_of m)(k \<mapsto> v))"
  by (auto simp: bt_insert_new_def split: option.split)

lemma map_of_bt_remove [bt_simps, simp]: "map_of (bt_remove k m) = (map_of m)(k := None)"
  by (rule ext) (simp add: bt_remove_def map_of_filter_key [of "\<lambda>x. x \<noteq> k"])

lemma sorted_wrt_filter_ok: "sorted_wrt R (map f m) \<Longrightarrow> sorted_wrt R (map f (filter P m))"
  by (induction m) auto

lemma bt_ok_insert [bt_simps, simp]: "bt_ok m \<Longrightarrow> bt_ok (bt_insert k v m)"
  by (auto simp: bt_insert_def sorted_wrt_append sorted_wrt_filter_ok)

lemma bt_ok_insert_new [bt_simps, simp]: "bt_ok m \<Longrightarrow> bt_ok (bt_insert_new k v m)"
  by (auto simp: bt_insert_new_def split: option.split)

lemma bt_ok_remove [bt_simps, simp]: "bt_ok m \<Longrightarrow> bt_ok (bt_remove k m)"
  by (auto simp: bt_remove_def sorted_wrt_filter_ok)

lemma bt_ok_filter [bt_simps, simp]: "bt_ok m \<Longrightarrow> bt_ok (filter P m)"
  by (rule sorted_wrt_filter_ok)

lemma bt_ok_distinct: "bt_ok m \<Longrightarrow> distinct (map fst m)"
  using strict_sorted_iff by blast

lemma set_bs_insert [bt_simps, simp]: "set (bs_insert k s) = insert k (set s)"
  by (auto simp: bs_insert_def)

lemma bs_ok_insert [bt_simps, simp]: "bs_ok s \<Longrightarrow> bs_ok (bs_insert k s)"
  using sorted_wrt_filter_ok [of "(<)" id s] by (auto simp: bs_insert_def sorted_wrt_append)

lemma bs_ok_unique: "bs_ok s \<Longrightarrow> bs_ok t \<Longrightarrow> set s = set t \<Longrightarrow> s = t"
  using strict_sorted_equal by blast

lemma bs_insert_id: "bs_ok s \<Longrightarrow> k \<in> set s \<Longrightarrow> bs_insert k s = s"
  by (rule bs_ok_unique) auto

lemma bs_ok_filter [bt_simps, simp]: "bs_ok s \<Longrightarrow> bs_ok (filter P s)"
  using sorted_wrt_filter_ok [of "(<)" id s] by simp

lemma length_bs_insert:
  "bs_ok s \<Longrightarrow> length (bs_insert k s) = (if k \<in> set s then length s else Suc (length s))"
  by (metis bs_insert_id bs_ok_insert card_insert_disjoint distinct_card finite_set
      set_bs_insert strict_sorted_iff)

lemma bt_ok_unique:
  assumes "bt_ok a" "bt_ok b" "map_of a = map_of b"
  shows "a = b"
proof -
  have "set (map fst a) = set (map fst b)"
    using assms(3) by (metis dom_map_of_conv_image_fst image_set)
  then have keys: "map fst a = map fst b" by (rule bs_ok_unique [OF assms(1,2)])
  have "m = map (\<lambda>k. (k, the (map_of m k))) (map fst m)" if "bt_ok m" for m :: "('a \<times> 'b) list"
  proof -
    have "the (map_of m (fst e)) = snd e" if "e \<in> set m" for e
      using that bt_ok_distinct [OF \<open>bt_ok m\<close>] by (metis map_of_is_SomeI option.sel prod.collapse)
    then show ?thesis by (simp add: map_idI o_def)
  qed
  from this [OF assms(1)] this [OF assms(2)] keys assms(3) show ?thesis by metis
qed

text \<open>Collecting an iterator into a container.\<close>

definition bs_of :: "'k::linorder list \<Rightarrow> 'k list" where
  "bs_of xs = fold bs_insert xs []"

definition bt_of :: "('k::linorder \<times> 'v) list \<Rightarrow> ('k, 'v) btree" where
  "bt_of xs = fold (\<lambda>(k, v). bt_insert k v) xs []"

lemma fold_bs_insert: "bs_ok s \<Longrightarrow> bs_ok (fold bs_insert xs s) \<and> set (fold bs_insert xs s) = set xs \<union> set s"
  by (induction xs arbitrary: s) auto

lemma bs_ok_bs_of [simp]: "bs_ok (bs_of xs)" and set_bs_of [simp]: "set (bs_of xs) = set xs"
  using fold_bs_insert [of "[]" xs] by (auto simp: bs_of_def)

lemma bt_ok_fold_insert:
  "bt_ok m \<Longrightarrow> bt_ok (fold (\<lambda>(k, v). bt_insert k v) xs m)"
  by (induction xs arbitrary: m) auto

lemma bt_ok_bt_of [simp]: "bt_ok (bt_of xs)"
  by (simp add: bt_of_def bt_ok_fold_insert)

lemma map_of_fold_insert:
  "map_of (fold (\<lambda>(k, v). bt_insert k v) xs m) = map_of m ++ map_of (rev xs)"
  by (induction xs arbitrary: m) auto

lemma map_of_bt_of: "map_of (bt_of xs) = map_of (rev xs)"
  by (simp add: bt_of_def map_of_fold_insert)

text \<open>An invariant of the body of a loop over a list is one of the loop.\<close>

lemma fold_keeps: "P w \<Longrightarrow> (\<And>x w. P w \<Longrightarrow> P (f x w)) \<Longrightarrow> P (fold f xs w)"
  by (induction xs arbitrary: w) auto

section \<open>Sorting\<close>

text \<open>
  \<open>sort_by\<close> with a key is the library's stable \<open>sort_key\<close>.  When the key determines the element
  among those sorted, the result depends on the multiset only.
\<close>

lemma sort_key_mset_unique:
  assumes "mset xs = mset ys" "inj_on f (set xs)"
  shows "sort_key f xs = sort_key f ys"
proof -
  let ?A = "sort_key f xs" and ?B = "sort_key f ys"
  have "mset (map f ?B) = mset (map f ?A)"
    using assms(1) by simp
  then have "sort (map f ?A) = map f ?B"
    by (rule properties_for_sort) simp
  moreover have "sort (map f ?A) = map f ?A"
    by (rule sorted_sort_id) simp
  ultimately have eq: "map f ?A = map f ?B" by simp
  have "set ?A \<union> set ?B = set xs"
    using mset_eq_setD [OF assms(1)] by simp
  with assms(2) have "inj_on f (set ?A \<union> set ?B)" by simp
  with eq show ?thesis by (simp add: inj_on_map_eq_map)
qed

end
