(* ===== verification/TextScan.thy ===== *)
theory TextScan
  imports Prelude
begin

text \<open>
  \<open>crates/wa-text/src/lib.rs\<close>: the hash printer and the byte-level scanners the extractors walk minified
  JavaScript with.  The SHA-256 digest is the parameter \<open>dg\<close> (crate \<open>sha2\<close>).  The scanners keep the
  source's index arithmetic; an out-of-range read is \<open>None\<close>.  The depth counters are integers: they
  move by one per byte, so they stay within \<open>i32\<close> on every input shorter than \<open>2 ^ 31\<close> bytes.
\<close>

definition sha256_hex :: "(bytes \<Rightarrow> bytes) \<Rightarrow> bytes \<Rightarrow> string" where
  "sha256_hex dg bytes = concat (map (hex2 lower_hex) (dg bytes))"

lemma concat_hex2_inj:
  "concat (map (hex2 lower_hex) xs) = concat (map (hex2 lower_hex) ys) \<Longrightarrow> xs = ys"
proof (induction xs arbitrary: ys)
  case Nil
  then show ?case by (cases ys) (auto simp: hex2_def)
next
  case (Cons x xs)
  then obtain y zs where y: "ys = y # zs" by (cases ys) (auto simp: hex2_def)
  with Cons.prems have "hex2 lower_hex x = hex2 lower_hex y"
      "concat (map (hex2 lower_hex) xs) = concat (map (hex2 lower_hex) zs)"
    by (auto simp: append_eq_append_conv)
  with Cons.IH y distinct_hex show ?case by (auto dest: hex2_inj)
qed

lemma sha256_hex_eq_iff: "sha256_hex dg x = sha256_hex dg y \<longleftrightarrow> dg x = dg y"
  by (auto simp: sha256_hex_def dest: concat_hex2_inj)

lemma sha256_hex_chars: "set (sha256_hex dg x) \<subseteq> set lower_hex"
  using hex2_set [of lower_hex] distinct_hex by (fastforce simp: sha256_hex_def)

lemma length_sha256_hex: "length (sha256_hex dg x) = 2 * length (dg x)"
  by (simp add: sha256_hex_def length_concat o_def sum_list_triv)

lemma hex_lacks: "c \<notin> set lower_hex \<Longrightarrow> c \<notin> set (sha256_hex dg x)"
  using sha256_hex_chars by blast

section \<open>Quoted strings\<close>

abbreviation BSLASH :: char where "BSLASH \<equiv> CHR 0x5C"
abbreviation NL :: char where "NL \<equiv> CHR 0x0A"

function skip_string_loop :: "bytes \<Rightarrow> char \<Rightarrow> nat \<Rightarrow> nat" where
  "skip_string_loop b q i =
     (if i < length b \<and> b ! i \<noteq> q
      then skip_string_loop b q (if b ! i = BSLASH then i + 1 + 1 else i + 1) else i)"
  by pat_completeness auto
termination by (relation "measure (\<lambda>(b, q, i). length b - i)") auto

declare skip_string_loop.simps [simp del]

definition skip_string :: "bytes \<Rightarrow> nat \<Rightarrow> nat option" where
  "skip_string b i =
     (if i < length b then Some (min (skip_string_loop b (b ! i) (i + 1) + 1) (length b)) else None)"

lemma skip_string_loop_ge: "i \<le> skip_string_loop b q i"
proof (induction b q i rule: skip_string_loop.induct)
  case (1 b q i)
  then show ?case by (subst skip_string_loop.simps) (auto split: if_splits)
qed

lemma skip_string_progress:
  "i < length b \<Longrightarrow> \<exists>j. skip_string b i = Some j \<and> i < j \<and> j \<le> length b"
  using skip_string_loop_ge [of "i + 1" b "b ! i"] by (auto simp: skip_string_def)

text \<open>The bodies of a literal with quote \<open>q\<close>: no bare quote, and a backslash hides the next byte.\<close>

inductive literal_body :: "char \<Rightarrow> bytes \<Rightarrow> bool" for q where
  empty: "literal_body q []"
| plain: "c \<noteq> q \<Longrightarrow> c \<noteq> BSLASH \<Longrightarrow> literal_body q s \<Longrightarrow> literal_body q (c # s)"
| escaped: "q \<noteq> BSLASH \<Longrightarrow> literal_body q s \<Longrightarrow> literal_body q (BSLASH # c # s)"

lemma skip_string_loop_body:
  "literal_body q s \<Longrightarrow>
   skip_string_loop (pre @ s @ q # post) q (length pre) = length pre + length s"
proof (induction s arbitrary: pre rule: literal_body.induct)
  case empty
  then show ?case by (subst skip_string_loop.simps) simp
next
  case (plain c s)
  have "skip_string_loop (pre @ (c # s) @ q # post) q (length pre)
      = skip_string_loop ((pre @ [c]) @ s @ q # post) q (length (pre @ [c]))"
    using plain.hyps by (subst skip_string_loop.simps) simp
  with plain.IH [of "pre @ [c]"] show ?case by simp
next
  case (escaped s c)
  have "skip_string_loop (pre @ (BSLASH # c # s) @ q # post) q (length pre)
      = skip_string_loop ((pre @ [BSLASH, c]) @ s @ q # post) q (length (pre @ [BSLASH, c]))"
    using escaped.hyps by (subst skip_string_loop.simps) simp
  with escaped.IH [of "pre @ [BSLASH, c]"] show ?case by simp
qed

lemma skip_string_literal:
  assumes "literal_body q s"
  shows "skip_string (pre @ q # s @ q # post) (length pre) = Some (length pre + length s + 2)"
  using skip_string_loop_body [OF assms, of "pre @ [q]" post]
  by (simp add: skip_string_def nth_append)

section \<open>Whitespace and comments\<close>

definition is_ascii_whitespace :: "char \<Rightarrow> bool" where
  "is_ascii_whitespace c \<longleftrightarrow> c \<in> {CHR '' '', CHR 0x09, NL, CHR 0x0C, CHR 0x0D}"

function to_newline :: "bytes \<Rightarrow> nat \<Rightarrow> nat" where
  "to_newline b i = (if i < length b \<and> b ! i \<noteq> NL then to_newline b (i + 1) else i)"
  by pat_completeness auto
termination by (relation "measure (\<lambda>(b, i). length b - i)") auto

function to_comment_end :: "bytes \<Rightarrow> nat \<Rightarrow> nat" where
  "to_comment_end b i =
     (if i + 1 < length b \<and> \<not> (b ! i = CHR ''*'' \<and> b ! (i + 1) = CHR ''/'')
      then to_comment_end b (i + 1) else i)"
  by pat_completeness auto
termination by (relation "measure (\<lambda>(b, i). length b - i)") auto

declare to_newline.simps [simp del] to_comment_end.simps [simp del]

lemma to_newline_ge: "i \<le> to_newline b i"
proof (induction b i rule: to_newline.induct)
  case (1 b i)
  then show ?case by (subst to_newline.simps) auto
qed

lemma to_comment_end_ge: "i \<le> to_comment_end b i"
proof (induction b i rule: to_comment_end.induct)
  case (1 b i)
  then show ?case by (subst to_comment_end.simps) auto
qed

lemma to_newline_gt: "i < length b \<Longrightarrow> b ! i \<noteq> NL \<Longrightarrow> i < to_newline b i"
  using to_newline_ge [of "i + 1" b] by (subst to_newline.simps) simp

function skip_ws_loop :: "bytes \<Rightarrow> nat \<Rightarrow> nat" where
  "skip_ws_loop b i =
     (if i < length b then
        (let c = b ! i in
         if is_ascii_whitespace c then skip_ws_loop b (i + 1)
         else if c = CHR ''/'' \<and> i + 1 < length b \<and> b ! (i + 1) = CHR ''/''
           then skip_ws_loop b (to_newline b i)
         else if c = CHR ''/'' \<and> i + 1 < length b \<and> b ! (i + 1) = CHR ''*''
           then skip_ws_loop b (to_comment_end b (i + 2) + 2)
         else i)
      else i)"
  by pat_completeness auto
termination
proof (relation "measure (\<lambda>(b, i). length b - i)", goal_cases)
  case (3 b i c)
  then have "b ! i = CHR ''/''" by simp
  then have "b ! i \<noteq> NL" by simp
  moreover from 3 have "i < length b" by simp
  ultimately show ?case using to_newline_gt [of i b] by (simp add: diff_less_mono2)
next
  case (4 b i c)
  then show ?case using to_comment_end_ge [of "i + 2" b] by auto
qed auto

declare skip_ws_loop.simps [simp del]

definition skip_ws :: "bytes \<Rightarrow> nat \<Rightarrow> nat" where
  "skip_ws b i = min (skip_ws_loop b i) (length b)"

lemma skip_ws_loop_ge: "i \<le> skip_ws_loop b i"
proof (induction b i rule: skip_ws_loop.induct)
  case (1 b i)
  show ?case
    using 1(1)[of "b ! i"] 1(2)[of "b ! i"] 1(3)[of "b ! i"] to_newline_ge [of i b] to_comment_end_ge [of "i + 2" b]
    by (subst skip_ws_loop.simps) (auto simp: Let_def)
qed

text \<open>Where the scan may stop: the end, or a byte that starts neither white space nor a comment.\<close>

definition at_token :: "bytes \<Rightarrow> nat \<Rightarrow> bool" where
  "at_token b i \<longleftrightarrow> i \<ge> length b \<or>
     (\<not> is_ascii_whitespace (b ! i) \<and>
      \<not> (b ! i = CHR ''/'' \<and> i + 1 < length b \<and> b ! (i + 1) \<in> {CHR ''/'', CHR ''*''}))"

lemma skip_ws_loop_at_token: "at_token b (skip_ws_loop b i)"
proof (induction b i rule: skip_ws_loop.induct)
  case (1 b i)
  show ?case
    using 1(1)[of "b ! i"] 1(2)[of "b ! i"] 1(3)[of "b ! i"]
    by (subst skip_ws_loop.simps) (auto simp: Let_def at_token_def)
qed

lemma skip_ws_loop_stays: "at_token b i \<Longrightarrow> skip_ws_loop b i = i"
  by (subst skip_ws_loop.simps) (auto simp: at_token_def Let_def)


section \<open>Balanced expressions\<close>

definition quote_chars :: "char set" where
  "quote_chars = {CHR 0x22, CHR 0x27, CHR 0x60}"

type_synonym depths = "int \<times> int \<times> int"   \<comment> \<open>open parentheses, braces, brackets\<close>

text \<open>One pass of the loop body at \<open>i < b.len()\<close>: \<open>None\<close> returns \<open>i\<close>, else the next index and depths.\<close>

definition expr_step :: "bytes \<Rightarrow> bytes \<Rightarrow> nat \<Rightarrow> depths \<Rightarrow> (nat \<times> depths) option" where
  "expr_step b stops i d =
     (case d of (dp, db, dbr) \<Rightarrow>
        (let c = b ! i in
         if c \<in> quote_chars then map_option (\<lambda>j. (j, d)) (skip_string b i)
         else if c = CHR ''('' then Some (i + 1, (dp + 1, db, dbr))
         else if c = CHR '')'' then
           (if dp = 0 \<and> c \<in> set stops then None else Some (i + 1, (dp - 1, db, dbr)))
         else if c = CHR 0x7B then Some (i + 1, (dp, db + 1, dbr))
         else if c = CHR 0x7D then
           (if db = 0 \<and> c \<in> set stops then None else Some (i + 1, (dp, db - 1, dbr)))
         else if c = CHR ''['' then Some (i + 1, (dp, db, dbr + 1))
         else if c = CHR '']'' then
           (if dbr = 0 \<and> c \<in> set stops then None else Some (i + 1, (dp, db, dbr - 1)))
         else if dp = 0 \<and> db = 0 \<and> dbr = 0 \<and> c \<in> set stops then None
         else Some (i + 1, d)))"

lemma expr_step_progress:
  assumes "expr_step b stops i d = Some (j, d')" "i < length b"
  shows "i < j" "j \<le> length b"
  using assms skip_string_progress [OF assms(2)]
  by (auto simp: expr_step_def Let_def split: if_splits prod.splits)

function skip_expr_loop :: "bytes \<Rightarrow> bytes \<Rightarrow> nat \<Rightarrow> depths \<Rightarrow> nat" where
  "skip_expr_loop b stops i d =
     (if i < length b then
        (case expr_step b stops i d of
           None \<Rightarrow> i
         | Some (j, d') \<Rightarrow> skip_expr_loop b stops j d')
      else i)"
  by pat_completeness auto
termination
proof (relation "measure (\<lambda>(b, stops, i, d). length b - i)", goal_cases)
  case (2 b stops i d x j d')
  then show ?case using expr_step_progress(1) [of b stops i d j d'] by (cases x) simp
qed simp

declare skip_expr_loop.simps [simp del]

definition skip_expr :: "bytes \<Rightarrow> nat \<Rightarrow> bytes \<Rightarrow> nat" where
  "skip_expr b start stops = skip_expr_loop b stops start (0, 0, 0)"

lemma skip_expr_loop_bounds:
  "i \<le> length b \<Longrightarrow> i \<le> skip_expr_loop b stops i d \<and> skip_expr_loop b stops i d \<le> length b"
proof (induction b stops i d rule: skip_expr_loop.induct)
  case (1 b stops i d)
  show ?case
  proof (cases "i < length b \<and> expr_step b stops i d \<noteq> None")
    case True
    then obtain j d' where st: "expr_step b stops i d = Some (j, d')" and i: "i < length b" by auto
    note expr_step_progress [OF st i]
    moreover have "skip_expr_loop b stops i d = skip_expr_loop b stops j d'"
      using st i by (subst skip_expr_loop.simps) simp
    ultimately show ?thesis using "1.IH" [OF i st] by simp
  next
    case False
    then have "skip_expr_loop b stops i d = i"
      by (subst skip_expr_loop.simps) (auto split: option.split)
    with "1.prems" show ?thesis by simp
  qed
qed

text \<open>
  The expressions the scan passes over: nested text may hold any byte that is not a quote or a
  bracket, literals and bracketed groups; at the top level the stop bytes are excluded.
\<close>

definition bracket_pairs :: "(char \<times> char) set" where
  "bracket_pairs = {(CHR ''('', CHR '')''), (CHR 0x7B, CHR 0x7D), (CHR ''['', CHR '']'')}"

definition plain_char :: "char \<Rightarrow> bool" where
  "plain_char c \<longleftrightarrow> c \<notin> quote_chars \<and> c \<notin> fst ` bracket_pairs \<and> c \<notin> snd ` bracket_pairs"

inductive nested_expr :: "bytes \<Rightarrow> bool" where
  n_nil: "nested_expr []"
| n_plain: "plain_char c \<Longrightarrow> nested_expr s \<Longrightarrow> nested_expr (c # s)"
| n_lit: "q \<in> quote_chars \<Longrightarrow> literal_body q w \<Longrightarrow> nested_expr s \<Longrightarrow> nested_expr (q # w @ q # s)"
| n_group: "(l, r) \<in> bracket_pairs \<Longrightarrow> nested_expr u \<Longrightarrow> nested_expr s \<Longrightarrow>
     nested_expr (l # u @ r # s)"

inductive top_expr :: "bytes \<Rightarrow> bytes \<Rightarrow> bool" for stops where
  t_nil: "top_expr stops []"
| t_plain: "plain_char c \<Longrightarrow> c \<notin> set stops \<Longrightarrow> top_expr stops s \<Longrightarrow> top_expr stops (c # s)"
| t_lit: "q \<in> quote_chars \<Longrightarrow> literal_body q w \<Longrightarrow> top_expr stops s \<Longrightarrow>
     top_expr stops (q # w @ q # s)"
| t_group: "(l, r) \<in> bracket_pairs \<Longrightarrow> nested_expr u \<Longrightarrow> top_expr stops s \<Longrightarrow>
     top_expr stops (l # u @ r # s)"

definition passes :: "bytes \<Rightarrow> bytes \<Rightarrow> depths \<Rightarrow> depths \<Rightarrow> bool" where
  "passes stops s d d' \<longleftrightarrow> (\<forall>pre post.
     skip_expr_loop (pre @ s @ post) stops (length pre) d
     = skip_expr_loop (pre @ s @ post) stops (length pre + length s) d')"

lemma passes_append:
  assumes "passes stops s d d1" "passes stops t d1 d2" shows "passes stops (s @ t) d d2"
  unfolding passes_def
proof (intro allI)
  fix pre post
  have "skip_expr_loop (pre @ s @ t @ post) stops (length pre) d
      = skip_expr_loop (pre @ s @ t @ post) stops (length pre + length s) d1"
    using assms(1) unfolding passes_def by blast
  also have "\<dots> = skip_expr_loop ((pre @ s) @ t @ post) stops (length (pre @ s)) d1" by simp
  also have "\<dots> = skip_expr_loop ((pre @ s) @ t @ post) stops (length (pre @ s) + length t) d2"
    using assms(2) unfolding passes_def by blast
  finally show "skip_expr_loop (pre @ (s @ t) @ post) stops (length pre) d
      = skip_expr_loop (pre @ (s @ t) @ post) stops (length pre + length (s @ t)) d2"
    by (simp add: add.assoc)
qed

lemma passes_nil: "passes stops [] d d"
  by (simp add: passes_def)

lemma passes_byte:
  assumes "\<And>pre post. expr_step (pre @ c # post) stops (length pre) d = Some (length pre + 1, d')"
  shows "passes stops [c] d d'"
  unfolding passes_def
proof (intro allI)
  fix pre post
  show "skip_expr_loop (pre @ [c] @ post) stops (length pre) d
      = skip_expr_loop (pre @ [c] @ post) stops (length pre + length [c]) d'"
    using assms [of pre post] by (subst skip_expr_loop.simps) simp
qed

lemma passes_literal:
  assumes "q \<in> quote_chars" "literal_body q w"
  shows "passes stops (q # w @ [q]) d d"
  unfolding passes_def
proof (intro allI)
  fix pre post
  have "expr_step (pre @ q # w @ q # post) stops (length pre) d
      = Some (length pre + length w + 2, d)"
    using assms skip_string_literal [OF assms(2), of pre post]
    by (auto simp: expr_step_def Let_def nth_append split: prod.splits)
  then show "skip_expr_loop (pre @ (q # w @ [q]) @ post) stops (length pre) d
      = skip_expr_loop (pre @ (q # w @ [q]) @ post) stops (length pre + length (q # w @ [q])) d"
    by (subst skip_expr_loop.simps) simp
qed

definition inner :: "depths \<Rightarrow> bool" where
  "inner d \<longleftrightarrow> (case d of (dp, db, dbr) \<Rightarrow> 0 \<le> dp \<and> 0 \<le> db \<and> 0 \<le> dbr \<and> 0 < dp + db + dbr)"

fun opened :: "char \<Rightarrow> depths \<Rightarrow> depths" where
  "opened l (dp, db, dbr) =
     (if l = CHR ''('' then (dp + 1, db, dbr)
      else if l = CHR 0x7B then (dp, db + 1, dbr) else (dp, db, dbr + 1))"

lemma inner_opened: "inner d \<or> d = (0, 0, 0) \<Longrightarrow> inner (opened l d)"
  by (cases d) (auto simp: inner_def)

lemma passes_open: "(l, r) \<in> bracket_pairs \<Longrightarrow> passes stops [l] d (opened l d)"
  by (rule passes_byte, cases d)
     (auto simp: expr_step_def Let_def nth_append bracket_pairs_def quote_chars_def)

lemma expr_step_close:
  assumes "(l, r) \<in> bracket_pairs" "inner d \<or> d = (0, 0, 0)" "b ! i = r"
  shows "expr_step b stops i (opened l d) = Some (i + 1, d)"
proof (cases d)
  case (fields dp db dbr)
  with assms(2) have nz: "dp + 1 \<noteq> 0" "db + 1 \<noteq> 0" "dbr + 1 \<noteq> 0" by (auto simp: inner_def)
  consider "l = CHR ''(''" "r = CHR '')''" | "l = CHR 0x7B" "r = CHR 0x7D"
    | "l = CHR ''[''" "r = CHR '']''"
    using assms(1) by (auto simp: bracket_pairs_def)
  then show ?thesis
    by cases (simp_all add: nz fields assms(3) expr_step_def quote_chars_def)
qed

lemma passes_close:
  "(l, r) \<in> bracket_pairs \<Longrightarrow> inner d \<or> d = (0, 0, 0) \<Longrightarrow> passes stops [r] (opened l d) d"
  by (rule passes_byte) (simp add: expr_step_close nth_append)

lemma plain_char_iff:
  "plain_char c \<longleftrightarrow> c \<notin> quote_chars \<and> c \<noteq> CHR ''('' \<and> c \<noteq> CHR '')'' \<and> c \<noteq> CHR 0x7B \<and>
     c \<noteq> CHR 0x7D \<and> c \<noteq> CHR ''['' \<and> c \<noteq> CHR '']''"
  by (auto simp: plain_char_def bracket_pairs_def)

lemma expr_step_plain:
  assumes "plain_char (b ! i)" "inner d \<or> b ! i \<notin> set stops"
  shows "expr_step b stops i d = Some (i + 1, d)"
proof (cases d)
  case (fields dp db dbr)
  with assms(2) have "\<not> (dp = 0 \<and> db = 0 \<and> dbr = 0 \<and> b ! i \<in> set stops)"
    by (auto simp: inner_def)
  with assms(1) fields show ?thesis
    by (simp add: expr_step_def Let_def plain_char_iff)
qed

lemma passes_plain:
  "plain_char c \<Longrightarrow> inner d \<or> c \<notin> set stops \<Longrightarrow> passes stops [c] d d"
  by (rule passes_byte) (simp add: expr_step_plain nth_append)

lemma passes_group:
  assumes "(l, r) \<in> bracket_pairs" "inner d \<or> d = (0, 0, 0)" "passes stops u (opened l d) (opened l d)"
    "passes stops s d d"
  shows "passes stops (l # u @ r # s) d d"
proof -
  have "passes stops ([l] @ u @ [r] @ s) d d"
    using assms by (blast intro: passes_append passes_open passes_close)
  then show ?thesis by simp
qed

lemma passes_lit_then:
  "q \<in> quote_chars \<Longrightarrow> literal_body q w \<Longrightarrow> passes stops s d d \<Longrightarrow> passes stops (q # w @ q # s) d d"
  using passes_append [OF passes_literal [of q w stops d], of s d] by simp

lemma passes_nested: "nested_expr s \<Longrightarrow> inner d \<Longrightarrow> passes stops s d d"
proof (induction s arbitrary: d rule: nested_expr.induct)
  case (n_plain c s)
  then have "passes stops ([c] @ s) d d" by (blast intro: passes_append passes_plain)
  then show ?case by simp
next
  case (n_group l r u s)
  then show ?case by (blast intro: passes_group inner_opened)
qed (auto intro: passes_nil passes_lit_then)

lemma passes_top: "top_expr stops s \<Longrightarrow> passes stops s (0, 0, 0) (0, 0, 0)"
proof (induction s rule: top_expr.induct)
  case (t_plain c s)
  then have "passes stops ([c] @ s) (0, 0, 0) (0, 0, 0)" by (blast intro: passes_append passes_plain)
  then show ?case by simp
next
  case (t_group l r u s)
  then show ?case by (blast intro: passes_group passes_nested inner_opened)
qed (auto intro: passes_nil passes_lit_then)


section \<open>Properties\<close>

definition stop_char :: "bytes \<Rightarrow> char \<Rightarrow> bool" where
  "stop_char stops t \<longleftrightarrow> t \<in> set stops \<and> t \<notin> quote_chars \<and> t \<notin> fst ` bracket_pairs"

lemma expr_step_stop: "stop_char stops (b ! i) \<Longrightarrow> expr_step b stops i (0, 0, 0) = None"
  by (auto simp: expr_step_def Let_def stop_char_def bracket_pairs_def)

text \<open>
  \<open>skip_expr\<close> started at a well-formed expression (literals, bracketed groups and other bytes, no
  stop byte outside a group or literal) returns exactly the index of the stop byte that follows it,
  whatever precedes and follows.
\<close>

theorem skip_expr_balanced:
  assumes "top_expr stops e" and "stop_char stops t"
  shows "skip_expr (pre @ e @ t # post) (length pre) stops = length pre + length e"
proof -
  have "skip_expr (pre @ e @ t # post) (length pre) stops
      = skip_expr_loop (pre @ e @ t # post) stops (length pre + length e) (0, 0, 0)"
    using passes_top [OF assms(1)] unfolding passes_def skip_expr_def by blast
  then show ?thesis
    using expr_step_stop [of stops "pre @ e @ t # post" "length pre + length e"] assms(2)
    by (subst (asm) skip_expr_loop.simps) (simp add: nth_append)
qed


theorem skip_expr_balanced_witness: "skip_expr ''x=f(a,[c,`)`]),y'' 2 '','' = 14"
proof -
  have plain: "plain_char CHR ''a''" "plain_char CHR '',''" "plain_char CHR ''f''" "plain_char CHR ''c''"
    by (simp_all add: plain_char_iff quote_chars_def)
  have q: "CHR ''`'' \<in> quote_chars" by (simp add: quote_chars_def)
  have body: "literal_body CHR ''`'' '')''" by (intro literal_body.intros) simp_all
  have br: "(CHR ''['', CHR '']'') \<in> bracket_pairs" "(CHR ''('', CHR '')'') \<in> bracket_pairs"
    by (simp_all add: bracket_pairs_def)
  from n_lit [OF q body n_nil] have "nested_expr ''c,`)`''" by (simp add: n_plain plain)
  from n_group [OF br(1) this n_nil] have "nested_expr ''a,[c,`)`]''" by (simp add: n_plain plain)
  from t_group [OF br(2) this t_nil, of "'',''"] have "top_expr '','' ''f(a,[c,`)`])''"
    by (simp add: t_plain plain)
  from skip_expr_balanced [OF this, of "CHR '',''" "''x=''" "''y''"] show ?thesis
    by (simp add: stop_char_def quote_chars_def bracket_pairs_def numeral_eq_Suc)
qed

text \<open>
  Every scanner returns an index that is safe as a slice bound: \<open>skip_string\<close> moves forward and
  stays in the input whether or not the literal is terminated, \<open>skip_ws\<close> and \<open>skip_expr\<close> never move back
  nor past the end, on any input.
\<close>

theorem scanners_in_bounds:
  assumes "i < length b"
  shows "(\<exists>j. skip_string b i = Some j \<and> i < j \<and> j \<le> length b)
    \<and> i \<le> skip_ws b i \<and> skip_ws b i \<le> length b
    \<and> i \<le> skip_expr b i stops \<and> skip_expr b i stops \<le> length b"
  using assms skip_string_progress skip_ws_loop_ge [of i b] skip_expr_loop_bounds [of i b stops]
  by (simp_all add: skip_ws_def skip_expr_def)

theorem scanners_in_bounds_witness:
  "0 < length ''\"unterminated'' \<and> 0 \<le> skip_ws ''\"unterminated'' 0 \<and>
   skip_ws ''\"unterminated'' 0 \<le> length ''\"unterminated''"
  using scanners_in_bounds [of 0 "''\"unterminated''"] by simp

text \<open>
  \<open>skip_ws\<close> skips all white space and comments: what it returns is the end of the input or the
  first byte of a token, and a second call from there does not move.
\<close>

theorem skip_ws_reaches_token:
  "at_token b (skip_ws b i) \<and> skip_ws b (skip_ws b i) = skip_ws b i"
proof -
  have 1: "at_token b (skip_ws b i)"
    using skip_ws_loop_at_token [of b i] by (auto simp: skip_ws_def at_token_def min_def)
  have "skip_ws b (skip_ws b i) = skip_ws b i"
    using skip_ws_loop_stays [OF 1] by (simp add: skip_ws_def)
  with 1 show ?thesis ..
qed

end
