(* ===== verification/HttpPort.thy ===== *)
theory HttpPort
  imports Prelude
begin

text \<open>
  \<open>crates/wa-fetch/src/http.rs\<close>: the \<open>HttpClient\<close> port.  A client is a parameter of the model: a
  function of the world it reads and changes, the URL, the request headers and the body cap, with a
  transport error or a response.  Also \<open>String::from_utf8_lossy\<close>, the reading of a body as text.
\<close>

record http_response =
  status :: nat
  body :: bytes

record redirect_response =
  r_status :: nat
  location :: "string option"
  r_body :: bytes

type_synonym headers = "(string \<times> string) list"
type_synonym 'w http_get = "'w \<Rightarrow> string \<Rightarrow> headers \<Rightarrow> nat \<Rightarrow> (string + http_response) \<times> 'w"
type_synonym 'w http_get_redirect =
  "'w \<Rightarrow> string \<Rightarrow> headers \<Rightarrow> nat \<Rightarrow> (string + redirect_response) \<times> 'w"

text \<open>The trait's default \<open>get_redirect\<close>: an adapter without the capability says so.\<close>

definition default_get_redirect :: "'w http_get_redirect" where
  "default_get_redirect w url hs max_bytes =
     (Inl ''this HttpClient adapter does not support redirect inspection'', w)"

definition is_success :: "nat \<Rightarrow> bool" where
  "is_success s \<longleftrightarrow> 200 \<le> s \<and> s < 300"

section \<open>Lossy UTF-8 decoding\<close>

abbreviation byte_in :: "nat \<Rightarrow> nat \<Rightarrow> char \<Rightarrow> bool" where
  "byte_in lo hi c \<equiv> lo \<le> (of_char c :: nat) \<and> (of_char c :: nat) \<le> hi"

definition utf8_seq_len :: "char \<Rightarrow> nat" where
  "utf8_seq_len c =
     (if byte_in 0x00 0x7F c then 1 else if byte_in 0xC2 0xDF c then 2
      else if byte_in 0xE0 0xEF c then 3 else if byte_in 0xF0 0xF4 c then 4 else 0)"

definition utf8_second_ok :: "char \<Rightarrow> char \<Rightarrow> bool" where
  "utf8_second_ok c d =
     (let n = (of_char c :: nat) in
      if n = 0xE0 then byte_in 0xA0 0xBF d else if n = 0xED then byte_in 0x80 0x9F d
      else if n = 0xF0 then byte_in 0x90 0xBF d else if n = 0xF4 then byte_in 0x80 0x8F d
      else byte_in 0x80 0xBF d)"

text \<open>Whether the text starts with a character, and the length of it or of the bytes to replace.\<close>

definition utf8_next :: "char \<Rightarrow> string \<Rightarrow> bool \<times> nat" where
  "utf8_next c s =
     (let n = utf8_seq_len c in
      if n = 0 then (False, 1) else if n = 1 then (True, 1)
      else if s = [] \<or> \<not> utf8_second_ok c (s ! 0) then (False, 1)
      else if n = 2 then (True, 2)
      else if length s < 2 \<or> \<not> is_cont (s ! 1) then (False, 2)
      else if n = 3 then (True, 3)
      else if length s < 3 \<or> \<not> is_cont (s ! 2) then (False, 3)
      else (True, 4))"

definition REPLACEMENT :: string where
  "REPLACEMENT = [CHR 0xEF, CHR 0xBF, CHR 0xBD]"

function from_utf8_lossy :: "bytes \<Rightarrow> string" where
  "from_utf8_lossy [] = []"
| "from_utf8_lossy (c # s) =
     (let (ok, n) = utf8_next c s
      in (if ok then take n (c # s) else REPLACEMENT) @ from_utf8_lossy (drop (n - 1) s))"
  by pat_completeness auto
termination by (relation "measure length") auto

fun utf8_valid :: "bytes \<Rightarrow> bool" where
  "utf8_valid s = (from_utf8_lossy s = s)"

lemma from_utf8_lossy_ascii: "\<forall>c \<in> set s. is_ascii c \<Longrightarrow> from_utf8_lossy s = s"
  by (induction s) (auto simp: utf8_next_def utf8_seq_len_def is_ascii_def Let_def)

end
