(* ===== verification/Discover.thy ===== *)
theory Discover
  imports UrlPolicy Json HttpPort
begin

text \<open>
  \<open>crates/wa-fetch/src/discover.rs\<close>: discovery of the bundle URLs, the version and the bootloader
  parameters in the entry page.  The HTML is cut into \<open><script>\<close> tags, the JSON payloads of the
  \<open>data-sjs\<close> tags are walked.  The JSON parser (crate \<open>serde_json\<close>) is the parameter \<open>parse\<close>, the
  client the parameter \<open>get\<close>.  The loops that update several collections through \<open>&mut\<close> are folds
  over one record of them.
\<close>

abbreviation DQUOTE :: char where "DQUOTE \<equiv> CHR 0x22"
abbreviation SQUOTE :: char where "SQUOTE \<equiv> CHR 0x27"

section \<open>Data\<close>

record sources =
  script_tag :: nat
  rsrc_map :: nat
  scheduled_js :: nat
  wasm_ref :: nat

definition no_sources :: sources where
  "no_sources = \<lparr>script_tag = 0, rsrc_map = 0, scheduled_js = 0, wasm_ref = 0\<rparr>"

record bootloader_params =
  endpoint_uri :: string
  p_client_revision :: string
  haste_session :: string
  hsi :: string
  spin_rev :: string
  spin_branch :: string
  spin_time :: string
  comet_env :: string

record discovered =
  d_status :: nat
  wa_version :: "string option"
  client_revision :: "nat option"
  html_bytes :: nat
  d_js :: "string list"
  d_wasm :: "string list"
  bx_data :: "(string, string) btree"
  bootloader :: "bootloader_params option"
  deferred_components :: "string list"
  by_source :: sources

record component_entry =
  hashes :: "string list"
  server_fetchable :: bool

record page_walk =
  w_js :: "string list"
  w_rsrc_keys :: "string list"
  w_components :: "(string, component_entry) btree"
  w_src :: sources

section \<open>Scripts of the page\<close>

text \<open>
  The source scans by an index \<open>i\<close> into the page; the model scans the text that is left,
  \<open>html[i..]\<close>.  \<open>find_tag_end\<close> is the inner loop: the offset of the \<open>>\<close> that is in no quoted value.
\<close>

fun find_tag_end :: "char option \<Rightarrow> string \<Rightarrow> nat option" where
  "find_tag_end quote [] = None"
| "find_tag_end (Some q) (c # s) = map_option Suc (find_tag_end (if c = q then None else Some q) s)"
| "find_tag_end None (c # s) =
     (if c = DQUOTE \<or> c = SQUOTE then map_option Suc (find_tag_end (Some c) s)
      else if c = CHR ''>'' then Some 0
      else map_option Suc (find_tag_end None s))"

definition SCRIPT_OPEN :: string where "SCRIPT_OPEN = ''<script''"
definition SCRIPT_CLOSE :: string where "SCRIPT_CLOSE = ''</script>''"

definition tag_delimiter :: "string \<Rightarrow> bool" where
  "tag_delimiter s \<longleftrightarrow>
     (case s of [] \<Rightarrow> True
      | c # _ \<Rightarrow> c \<in> set [CHR '' '', CHR 0x09, CHR 0x0A, CHR 0x0D, CHR ''/'', CHR ''>''])"

lemma str_find_drop_less: "str_find p s = Some rel \<Longrightarrow> p \<noteq> [] \<Longrightarrow> length (drop (rel + length p) s) < length s"
  using str_find_Some_drop(2) [of p s rel] by simp (metis diff_less length_greater_0_conv trans_less_add2 less_le_trans)

function extract_scripts :: "string \<Rightarrow> (string \<times> string) list" where
  "extract_scripts html =
     (case str_find SCRIPT_OPEN html of
        None \<Rightarrow> []
      | Some rel \<Rightarrow>
          (let after = drop (rel + length SCRIPT_OPEN) html
           in if \<not> tag_delimiter after then extract_scripts after
              else case find_tag_end None after of
                     None \<Rightarrow> []
                   | Some te \<Rightarrow>
                       (let attrs = take te after;
                            rest = drop (te + 1) after
                        in case str_find SCRIPT_CLOSE rest of
                             Some bp \<Rightarrow>
                               (attrs, take bp rest) # extract_scripts (drop (bp + length SCRIPT_CLOSE) rest)
                           | None \<Rightarrow> [(attrs, rest)])))"
  by pat_completeness auto
termination
  by (relation "measure length")
     (auto dest!: str_find_drop_less simp: SCRIPT_OPEN_def)

declare extract_scripts.simps [simp del]

definition attr_value :: "string \<Rightarrow> string \<Rightarrow> string option" where
  "attr_value attrs name =
     find_map (\<lambda>q.
       let pat = name @ [CHR ''='', q]
       in case str_find pat attrs of
            None \<Rightarrow> None
          | Some p \<Rightarrow>
              (let rest = drop (p + length pat) attrs
               in map_option (\<lambda>e. take e rest) (str_find [q] rest)))
       [DQUOTE, SQUOTE]"

section \<open>The \<open>require\<close> walk\<close>

definition on_cdn :: "string \<Rightarrow> bool" where
  "on_cdn u \<longleftrightarrow> host_of u = Some ALLOWED_HOST"

text \<open>One entry of a \<open>rsrcMap\<close>.\<close>

definition rsrc_entry :: "string \<times> json \<Rightarrow> page_walk \<Rightarrow> page_walk" where
  "rsrc_entry e w =
     (let (hash, val) = e;
          w1 = w\<lparr>w_rsrc_keys := bs_insert hash (w_rsrc_keys w)\<rparr>
      in if get_str val ''type'' = Some ''js''
         then case get_str val ''src'' of
                Some s \<Rightarrow>
                  (let u = unescape_json_url s
                   in if on_cdn u \<and> u \<notin> set (w_js w1)
                      then w1\<lparr>w_js := bs_insert u (w_js w1),
                              w_src := (w_src w1)\<lparr>rsrc_map := rsrc_map (w_src w1) + 1\<rparr>\<rparr>
                      else w1)
              | None \<Rightarrow> w1
         else w1)"

text \<open>One entry of a \<open>compMap\<close>.\<close>

definition comp_entry :: "string \<times> json \<Rightarrow> page_walk \<Rightarrow> page_walk" where
  "comp_entry e w =
     (let (name, val) = e;
          entry = (case map_of (w_components w) name of
                     Some c \<Rightarrow> c
                   | None \<Rightarrow> \<lparr>hashes = [], server_fetchable = False\<rparr>);
          entry1 = (case get_array val ''r'' of
                      Some hs \<Rightarrow> entry\<lparr>hashes := hashes entry @ filter_map as_str hs\<rparr>
                    | None \<Rightarrow> entry);
          entry2 = (if Option.bind (json_get val ''be'') as_u64 = Some 1
                    then entry1\<lparr>server_fetchable := True\<rparr> else entry1)
      in w\<lparr>w_components := bt_insert name entry2 (w_components w)\<rparr>)"

definition payload_arg :: "json \<Rightarrow> page_walk \<Rightarrow> page_walk" where
  "payload_arg arg w =
     (let w1 = (case get_object arg ''rsrcMap'' of Some m \<Rightarrow> fold rsrc_entry m w | None \<Rightarrow> w)
      in case get_object arg ''compMap'' of Some m \<Rightarrow> fold comp_entry m w1 | None \<Rightarrow> w1)"

text \<open>One define of a \<open>__d\<close> list.\<close>

definition scheduled_def :: "json \<Rightarrow> page_walk \<Rightarrow> page_walk" where
  "scheduled_def d w =
     (case as_array d of
        None \<Rightarrow> w
      | Some da \<Rightarrow>
          if length da < 3 then w
          else case get_str (da ! 2) ''url'' of
                 None \<Rightarrow> w
               | Some s \<Rightarrow>
                   (let u = unescape_json_url s
                    in if ends_with u ''.js'' \<and> on_cdn u \<and> u \<notin> set (w_js w)
                       then w\<lparr>w_js := bs_insert u (w_js w),
                              w_src := (w_src w)\<lparr>scheduled_js := scheduled_js (w_src w) + 1\<rparr>\<rparr>
                       else w))"

definition scheduled_arg :: "json \<Rightarrow> page_walk \<Rightarrow> page_walk" where
  "scheduled_arg arg w =
     (case get_array arg ''__d'' of Some defs \<Rightarrow> fold scheduled_def defs w | None \<Rightarrow> w)"

definition str_or_empty :: "json \<Rightarrow> string" where
  "str_or_empty v = (case as_str v of Some s \<Rightarrow> s | None \<Rightarrow> [])"

definition require_entry :: "json \<Rightarrow> page_walk \<Rightarrow> page_walk" where
  "require_entry entry w =
     (case as_array entry of
        None \<Rightarrow> w
      | Some arr \<Rightarrow>
          if length arr < 4 then w
          else (let module = str_or_empty (arr ! 0);
                    method = str_or_empty (arr ! 1);
                    args = as_array (arr ! 3);
                    w1 = (if module = ''Bootloader'' \<and> method = ''handlePayload''
                          then (case args of Some as \<Rightarrow> fold payload_arg as w | None \<Rightarrow> w) else w)
                in if module = ''ScheduledServerJS'' \<and> method = ''handle''
                   then (case args of Some as \<Rightarrow> fold scheduled_arg as w1 | None \<Rightarrow> w1) else w1))"

definition walk_require :: "json \<Rightarrow> page_walk \<Rightarrow> page_walk" where
  "walk_require v w =
     (case get_array v ''require'' of None \<Rightarrow> w | Some require \<Rightarrow> fold require_entry require w)"

section \<open>WASM URLs in the raw text\<close>

text \<open>
  \<open>token_start b s\<close>: the backwards loop from \<open>s\<close> to the delimiter before the token.  One pass of the
  outer loop is at a \<open>.wasm\<close> found from \<open>search\<close> on.
\<close>

definition token_delims :: string where
  "token_delims = [DQUOTE, SQUOTE, CHR '','', CHR '' '', CHR 0x0A, CHR 0x09, CHR 0x28, CHR ''['', CHR ''>'']"

fun token_start :: "string \<Rightarrow> nat \<Rightarrow> nat" where
  "token_start b 0 = 0"
| "token_start b (Suc s) = (if b ! s \<in> set token_delims then Suc s else token_start b s)"

definition WASM_EXT :: string where "WASM_EXT = ''.wasm''"

function scan_wasm_loop :: "string \<Rightarrow> nat \<Rightarrow> string list \<times> nat \<Rightarrow> string list \<times> nat" where
  "scan_wasm_loop text search acc =
     (case str_find WASM_EXT (drop search text) of
        None \<Rightarrow> acc
      | Some rel \<Rightarrow>
          (let dot = search + rel;
               fin = dot + length WASM_EXT;
               s = token_start text dot;
               tok = drop s (take fin text);
               u = unescape_json_url tok;
               (wasm, n) = acc
           in scan_wasm_loop text fin
                (if str_contains tok ''http''
                 then (bs_insert u wasm, if u \<in> set wasm then n else n + 1) else acc)))"
  by pat_completeness auto
termination
  by (relation "measure (\<lambda>(text, search, acc). length text - search)")
     (auto dest!: str_find_Some_drop(2) simp: WASM_EXT_def)

declare scan_wasm_loop.simps [simp del]

definition scan_wasm_urls :: "string \<Rightarrow> string list \<Rightarrow> sources \<Rightarrow> string list \<times> sources" where
  "scan_wasm_urls text wasm src =
     (let (wasm', n) = scan_wasm_loop text 0 (wasm, wasm_ref src)
      in (wasm', src\<lparr>wasm_ref := n\<rparr>))"

section \<open>Searches of a JSON value\<close>

lemma size_field [termination_simp]:
  "v \<in> snd ` set m \<Longrightarrow> size v < Suc (size_list (size_prod (\<lambda>_. 0) size) m)"
  using size_list_estimation [of _ m "size v" "size_prod (\<lambda>_. 0) size"] by fastforce

definition bx_entry :: "string \<times> json \<Rightarrow> (string, string) btree \<Rightarrow> (string, string) btree" where
  "bx_entry e out =
     (let (i, entry) = e
      in case get_str entry ''uri'' of
           Some uri \<Rightarrow> if map_of out i = None then bt_insert i (unescape_json_url uri) out else out
         | None \<Rightarrow> out)"

fun collect_bx_data :: "json \<Rightarrow> (string, string) btree \<Rightarrow> (string, string) btree" where
  "collect_bx_data (JObj m) out =
     fold collect_bx_data (map snd m)
       (case get_object (JObj m) ''bxData'' of Some bx \<Rightarrow> fold bx_entry bx out | None \<Rightarrow> out)"
| "collect_bx_data (JArr arr) out = fold collect_bx_data arr out"
| "collect_bx_data _ out = out"

fun find_define_config :: "json \<Rightarrow> string \<Rightarrow> (string \<times> json) list option" where
  "find_define_config (JArr arr) name =
     (case (if length arr \<ge> 3 \<and> as_str (arr ! 0) = Some name then as_object (arr ! 2) else None) of
        Some config \<Rightarrow> Some config
      | None \<Rightarrow> find_map (\<lambda>x. find_define_config x name) arr)"
| "find_define_config (JObj m) name = find_map (\<lambda>x. find_define_config x name) (map snd m)"
| "find_define_config _ name = None"

fun find_client_revision :: "json \<Rightarrow> nat option" where
  "find_client_revision (JObj m) =
     (case Option.bind (map_of m ''client_revision'') as_u64 of
        Some r \<Rightarrow> Some r
      | None \<Rightarrow> find_map find_client_revision (map snd m))"
| "find_client_revision (JArr arr) = find_map find_client_revision arr"
| "find_client_revision _ = None"

section \<open>The discovery pass\<close>

definition scalar :: "(string \<times> json) list \<Rightarrow> string \<Rightarrow> string option" where
  "scalar site key =
     (case map_of site key of
        Some (JStr s) \<Rightarrow> Some s
      | Some (JNum n) \<Rightarrow> Some (num_to_string n)
      | Some (JBool b) \<Rightarrow> Some (if b then ''true'' else ''false'')
      | _ \<Rightarrow> None)"

definition from_page :: "(string \<times> json) list \<Rightarrow> string \<Rightarrow> bootloader_params option" where
  "from_page site uri =
     (case (scalar site ''client_revision'', scalar site ''haste_session'', scalar site ''hsi'',
            scalar site ''__spin_r'', scalar site ''__spin_b'', scalar site ''__spin_t'',
            scalar site ''comet_env'') of
        (Some cr, Some hs, Some h, Some sr, Some sb, Some st, Some ce) \<Rightarrow>
          Some \<lparr>endpoint_uri = uri, p_client_revision = cr, haste_session = hs, hsi = h,
                spin_rev = sr, spin_branch = sb, spin_time = st, comet_env = ce\<rparr>
      | _ \<Rightarrow> None)"

definition build_wa_version :: "nat \<Rightarrow> string" where
  "build_wa_version rev_no = ''2.3000.'' @ dec rev_no"

record pass = page_walk +
  p_wasm :: "string list"
  p_bx_data :: "(string, string) btree"
  p_site_data :: "(string \<times> json) list option"
  p_endpoint_uri :: "string option"
  p_revision :: "nat option"

text \<open>\<open>walk_require\<close> on the part of the pass it borrows.\<close>

definition on_walk :: "(page_walk \<Rightarrow> page_walk) \<Rightarrow> pass \<Rightarrow> pass" where
  "on_walk f p =
     (let w = f \<lparr>w_js = w_js p, w_rsrc_keys = w_rsrc_keys p, w_components = w_components p, w_src = w_src p\<rparr>
      in p\<lparr>w_js := w_js w, w_rsrc_keys := w_rsrc_keys w, w_components := w_components w, w_src := w_src w\<rparr>)"

definition script_src :: "string \<Rightarrow> string \<Rightarrow> pass \<Rightarrow> pass" where
  "script_src origin attrs p =
     (case attr_value attrs ''src'' of
        None \<Rightarrow> p
      | Some src \<Rightarrow>
          (let resolved = resolve src origin
           in if on_cdn resolved
              then if ends_with resolved ''.js''
                   then if resolved \<in> set (w_js p) then p
                        else p\<lparr>w_js := bs_insert resolved (w_js p),
                               w_src := (w_src p)\<lparr>script_tag := script_tag (w_src p) + 1\<rparr>\<rparr>
                   else if ends_with resolved ''.wasm''
                        then p\<lparr>p_wasm := bs_insert resolved (p_wasm p)\<rparr> else p
              else p))"

definition script_payload :: "json \<Rightarrow> pass \<Rightarrow> pass" where
  "script_payload v p =
     (let p1 = on_walk (walk_require v) p;
          p2 = p1\<lparr>p_bx_data := collect_bx_data v (p_bx_data p1)\<rparr>;
          p3 = (if p_site_data p2 = None then p2\<lparr>p_site_data := find_define_config v ''SiteData''\<rparr> else p2);
          p4 = (if p_endpoint_uri p3 = None
                then p3\<lparr>p_endpoint_uri :=
                       Option.bind (Option.bind (find_define_config v ''BootloaderEndpointConfig'')
                                      (\<lambda>c. map_of c ''endpointURI'')) as_str\<rparr>
                else p3)
      in if p_revision p4 = None then p4\<lparr>p_revision := find_client_revision v\<rparr> else p4)"

definition script_step :: "(string \<Rightarrow> json option) \<Rightarrow> string \<Rightarrow> string \<times> string \<Rightarrow> pass \<Rightarrow> pass" where
  "script_step parse origin script p =
     (let (attrs, text) = script;
          p1 = script_src origin attrs p
      in if str_contains attrs ''data-sjs''
         then (let p2 = (case parse text of Some v \<Rightarrow> script_payload v p1 | None \<Rightarrow> p1);
                   (wasm', src') = scan_wasm_urls text (p_wasm p2) (w_src p2)
               in p2\<lparr>p_wasm := wasm', w_src := src'\<rparr>)
         else p1)"

definition empty_pass :: pass where
  "empty_pass = \<lparr>w_js = [], w_rsrc_keys = [], w_components = [], w_src = no_sources, p_wasm = [],
     p_bx_data = [], p_site_data = None, p_endpoint_uri = None, p_revision = None\<rparr>"

definition deferred :: "component_entry \<Rightarrow> string list \<Rightarrow> bool" where
  "deferred c rsrc_keys \<longleftrightarrow> server_fetchable c \<and> list_ex (\<lambda>h. h \<notin> set rsrc_keys) (hashes c)"

definition discover_from_html :: "(string \<Rightarrow> json option) \<Rightarrow> nat \<Rightarrow> string \<Rightarrow> string \<Rightarrow> discovered" where
  "discover_from_html parse stat html base_url =
     (let p = fold (script_step parse (origin_of base_url)) (extract_scripts html) empty_pass
      in \<lparr>d_status = stat,
          wa_version = map_option build_wa_version (p_revision p),
          client_revision = p_revision p,
          html_bytes = length html,
          d_js = w_js p,
          d_wasm = fold (\<lambda>uri wasm. if is_wasm_url uri then bs_insert uri wasm else wasm)
                   (map snd (p_bx_data p)) (p_wasm p),
          bx_data = p_bx_data p,
          bootloader = (case (p_site_data p, p_endpoint_uri p) of
                          (Some site, Some uri) \<Rightarrow> from_page site uri | _ \<Rightarrow> None),
          deferred_components =
            map fst (filter (\<lambda>(_, c). deferred c (w_rsrc_keys p)) (w_components p)),
          by_source = w_src p\<rparr>)"

datatype discover_error = GetFailed string string | NotSuccess string nat nat

definition DISCOVERY_HEADERS :: headers where
  "DISCOVERY_HEADERS =
     [(''User-Agent'', UA),
      (''Accept'', ''text/html,application/xhtml+xml,application/xml;q=0.9,*/*;q=0.8''),
      (''Accept-Language'', ''en-US,en;q=0.5''),
      (''Sec-Fetch-Dest'', ''document''),
      (''Sec-Fetch-Mode'', ''navigate''),
      (''Sec-Fetch-Site'', ''none'')]"

definition DISCOVERY_MAX_BYTES :: nat where "DISCOVERY_MAX_BYTES = 128 * 1024 * 1024"

definition discover_bundle_urls_with ::
    "(string \<Rightarrow> json option) \<Rightarrow> 'w http_get \<Rightarrow> 'w \<Rightarrow> string \<Rightarrow> (discover_error + discovered) \<times> 'w" where
  "discover_bundle_urls_with parse get w url =
     (case get w url DISCOVERY_HEADERS DISCOVERY_MAX_BYTES of
        (Inl e, w1) \<Rightarrow> (Inl (GetFailed url e), w1)
      | (Inr resp, w1) \<Rightarrow>
          if \<not> is_success (status resp)
          then (Inl (NotSuccess url (status resp) (length (body resp))), w1)
          else (Inr (discover_from_html parse (status resp) (from_utf8_lossy (body resp)) url), w1))"

section \<open>The bundle list is well formed\<close>

text \<open>
  What every update of the pass keeps: the JS set is strictly sorted, all of it is on the CDN, and the
  three JS counters count its members.
\<close>

definition js_counted :: "'a page_walk_scheme \<Rightarrow> bool" where
  "js_counted w \<longleftrightarrow> bs_ok (w_js w) \<and> set (w_js w) \<subseteq> {u. host_of u = Some ALLOWED_HOST}
     \<and> script_tag (w_src w) + rsrc_map (w_src w) + scheduled_js (w_src w) = length (w_js w)"

definition comps_ok :: "'a page_walk_scheme \<Rightarrow> bool" where
  "comps_ok w \<longleftrightarrow> bt_ok (w_components w)"

lemma js_counted_rsrc: "js_counted w \<Longrightarrow> js_counted (rsrc_entry e w)"
  by (auto simp: js_counted_def rsrc_entry_def on_cdn_def length_bs_insert Let_def
      split: prod.splits option.splits)

lemma js_counted_comp: "js_counted w \<Longrightarrow> js_counted (comp_entry e w)"
  by (simp add: js_counted_def comp_entry_def Let_def split: prod.splits)

lemma js_counted_scheduled: "js_counted w \<Longrightarrow> js_counted (scheduled_def d w)"
  by (auto simp: js_counted_def scheduled_def_def on_cdn_def length_bs_insert Let_def
      split: option.splits)

lemma js_counted_payload: "js_counted w \<Longrightarrow> js_counted (payload_arg arg w)"
  by (auto simp: payload_arg_def Let_def split: option.splits
      intro!: fold_keeps [of js_counted] js_counted_rsrc js_counted_comp)

lemma js_counted_scheduled_arg: "js_counted w \<Longrightarrow> js_counted (scheduled_arg arg w)"
  by (auto simp: scheduled_arg_def split: option.splits
      intro!: fold_keeps [of js_counted] js_counted_scheduled)

lemma js_counted_require: "js_counted w \<Longrightarrow> js_counted (require_entry e w)"
  by (auto simp: require_entry_def Let_def split: option.splits
      intro!: fold_keeps [of js_counted] js_counted_payload js_counted_scheduled_arg)

lemma js_counted_walk: "js_counted w \<Longrightarrow> js_counted (walk_require v w)"
  by (auto simp: walk_require_def split: option.splits
      intro!: fold_keeps [of js_counted] js_counted_require)

lemma js_counted_on_walk:
  assumes "js_counted p"
  shows "js_counted (on_walk (walk_require v) p)"
proof -
  have "js_counted (walk_require v
      \<lparr>w_js = w_js p, w_rsrc_keys = w_rsrc_keys p, w_components = w_components p, w_src = w_src p\<rparr>)"
    by (rule js_counted_walk) (use assms in \<open>simp add: js_counted_def\<close>)
  then show ?thesis by (simp add: on_walk_def js_counted_def Let_def)
qed

lemma js_counted_script_payload: "js_counted p \<Longrightarrow> js_counted (script_payload v p)"
  using js_counted_on_walk [of p v] by (simp add: script_payload_def js_counted_def Let_def)

lemma js_counted_script_src: "js_counted p \<Longrightarrow> js_counted (script_src origin attrs p)"
  by (auto simp: js_counted_def script_src_def on_cdn_def length_bs_insert Let_def
      split: option.splits)

lemma scan_wasm_urls_src:
  "scan_wasm_urls text ws src = (ws', src') \<Longrightarrow>
   script_tag src' = script_tag src \<and> rsrc_map src' = rsrc_map src \<and> scheduled_js src' = scheduled_js src"
  by (auto simp: scan_wasm_urls_def split: prod.splits)

lemma js_counted_scan:
  "js_counted p \<Longrightarrow> scan_wasm_urls text ws (w_src p) = (ws', src') \<Longrightarrow>
   js_counted (p\<lparr>p_wasm := ws', w_src := src'\<rparr>)"
  by (drule scan_wasm_urls_src) (simp add: js_counted_def)

lemma js_counted_script_step:
  assumes "js_counted p"
  shows "js_counted (script_step parse origin script p)"
proof -
  obtain attrs cont where sc: "script = (attrs, cont)" by fastforce
  let ?p1 = "script_src origin attrs p"
  let ?p2 = "case parse cont of Some v \<Rightarrow> script_payload v ?p1 | None \<Rightarrow> ?p1"
  obtain ws src where scan: "scan_wasm_urls cont (p_wasm ?p2) (w_src ?p2) = (ws, src)" by fastforce
  have 1: "js_counted ?p1" by (rule js_counted_script_src [OF assms])
  then have "js_counted ?p2" by (simp add: js_counted_script_payload split: option.split)
  from js_counted_scan [OF this scan] 1 scan show ?thesis by (simp add: script_step_def sc Let_def)
qed

lemma js_counted_pass: "js_counted (fold (script_step parse origin) scripts empty_pass)"
proof (rule fold_keeps)
  show "js_counted empty_pass" by (simp add: js_counted_def empty_pass_def no_sources_def)
qed (rule js_counted_script_step)

lemma fold_insert_if:
  "bs_ok ws \<Longrightarrow>
   bs_ok (fold (\<lambda>u ws. if P u then bs_insert u ws else ws) us ws)
     \<and> set (fold (\<lambda>u ws. if P u then bs_insert u ws else ws) us ws) = set ws \<union> {u \<in> set us. P u}"
  by (induction us arbitrary: ws) auto

text \<open>
  The bundle list of a discovery is strictly increasing (so it has no duplicate), every URL in it is
  served by the CDN host, and the per-source counters \<open>script_tag\<close>, \<open>rsrc_map\<close>, \<open>scheduled_js\<close> account
  for every bundle exactly once, for any page, base URL and JSON parser.
\<close>

theorem discover_js_counted:
  "bs_ok (d_js (discover_from_html parse stat html base))
   \<and> set (d_js (discover_from_html parse stat html base)) \<subseteq> {u. host_of u = Some ALLOWED_HOST}
   \<and> length (d_js (discover_from_html parse stat html base))
     = script_tag (by_source (discover_from_html parse stat html base))
       + rsrc_map (by_source (discover_from_html parse stat html base))
       + scheduled_js (by_source (discover_from_html parse stat html base))"
  using js_counted_pass [of parse "origin_of base" "extract_scripts html"]
  by (simp add: discover_from_html_def js_counted_def Let_def)

section \<open>\<open>collect_bx_data\<close>\<close>

text \<open>The pairs a payload registers, in document order.\<close>

definition bx_pair :: "string \<times> json \<Rightarrow> (string \<times> string) option" where
  "bx_pair e = map_option (\<lambda>uri. (fst e, unescape_json_url uri)) (get_str (snd e) ''uri'')"

fun bx_pairs :: "json \<Rightarrow> (string \<times> string) list" where
  "bx_pairs (JObj m) =
     (case get_object (JObj m) ''bxData'' of
        Some bx \<Rightarrow>
          filter_map bx_pair bx
      | None \<Rightarrow> [])
     @ concat (map bx_pairs (map snd m))"
| "bx_pairs (JArr arr) = concat (map bx_pairs arr)"
| "bx_pairs _ = []"

lemma fold_map_add:
  assumes "\<And>v out. v \<in> set vs \<Longrightarrow> map_of (f v out) = map_of (g v) ++ map_of out"
  shows "map_of (fold f vs out) = map_of (concat (map g vs)) ++ map_of out"
  using assms
proof (induction vs arbitrary: out)
  case (Cons v vs)
  then have "map_of (fold f (v # vs) out) = map_of (concat (map g vs)) ++ (map_of (g v) ++ map_of out)"
    by simp
  then show ?case by (simp add: map_add_assoc)
qed simp

lemma map_of_bx_entry:
  "map_of (bx_entry e out) = map_of (case bx_pair e of Some p \<Rightarrow> [p] | None \<Rightarrow> []) ++ map_of out"
  by (auto simp: bx_entry_def bx_pair_def map_add_def fun_eq_iff split: prod.split option.split)

lemma filter_map_concat:
  "filter_map f xs = concat (map (\<lambda>x. case f x of Some p \<Rightarrow> [p] | None \<Rightarrow> []) xs)"
  by (induction xs) (auto split: option.split)

lemma fold_bx_entry: "map_of (fold bx_entry bx out) = map_of (filter_map bx_pair bx) ++ map_of out"
  unfolding filter_map_concat by (rule fold_map_add) (rule map_of_bx_entry)

lemma bt_ok_bx_entry: "bt_ok out \<Longrightarrow> bt_ok (bx_entry e out)"
  by (auto simp: bx_entry_def split: prod.splits option.splits)

lemma collect_bx_data_map: "map_of (collect_bx_data v out) = map_of (bx_pairs v) ++ map_of out"
proof (induction v out rule: collect_bx_data.induct)
  case (1 m out)
  have "map_of (collect_bx_data (JObj m) out)
      = map_of (concat (map bx_pairs (map snd m)))
        ++ map_of (case get_object (JObj m) ''bxData'' of Some bx \<Rightarrow> fold bx_entry bx out | None \<Rightarrow> out)"
    unfolding collect_bx_data.simps by (rule fold_map_add) (use 1 in auto)
  then show ?case by (simp add: fold_bx_entry map_add_assoc split: option.split)
next
  case (2 arr out)
  then show ?case unfolding collect_bx_data.simps bx_pairs.simps by (intro fold_map_add)
qed simp_all

lemma collect_bx_data_ok: "bt_ok out \<Longrightarrow> bt_ok (collect_bx_data v out)"
proof (induction v out rule: collect_bx_data.induct)
  case (1 m out)
  have keep: "bt_ok o1 \<Longrightarrow> (\<And>v o2. v \<in> set vs \<Longrightarrow> bt_ok o2 \<Longrightarrow> bt_ok (collect_bx_data v o2)) \<Longrightarrow>
      bt_ok (fold collect_bx_data vs o1)" for vs o1
    by (induction vs arbitrary: o1) auto
  have "bt_ok (case get_object (JObj m) ''bxData'' of Some bx \<Rightarrow> fold bx_entry bx out | None \<Rightarrow> out)"
    using 1 by (auto intro: fold_keeps [of bt_ok] bt_ok_bx_entry split: option.split)
  then show ?case using 1 by (auto intro: keep)
next
  case (2 arr out)
  have keep: "bt_ok o1 \<Longrightarrow> (\<And>v o2. v \<in> set vs \<Longrightarrow> bt_ok o2 \<Longrightarrow> bt_ok (collect_bx_data v o2)) \<Longrightarrow>
      bt_ok (fold collect_bx_data vs o1)" for vs o1
    by (induction vs arbitrary: o1) auto
  show ?case using 2 by (auto intro: keep)
qed simp_all

text \<open>
  \<open>collect_bx_data\<close> registers every \<open>bxData\<close> entry of the payload, at any depth, and the first write
  of an id wins: what was registered before the call stays, and among the entries of the payload
  the first in document order is the one kept.
\<close>

theorem collect_bx_data_first_wins:
  "map_of (collect_bx_data v out) i =
     (case map_of out i of Some uri \<Rightarrow> Some uri | None \<Rightarrow> map_of (bx_pairs v) i)"
  by (simp add: collect_bx_data_map map_add_def)

section \<open>\<open>extract_scripts\<close> on a well-formed page\<close>

lemma str_find_NoneD: "str_find p s = None \<Longrightarrow> i \<le> length s \<Longrightarrow> \<not> starts_with (drop i s) p"
proof (induction s arbitrary: i)
  case (Cons c s)
  then show ?case by (cases i) (auto split: if_splits)
qed (auto simp: starts_with_iff split: if_splits)

text \<open>
  A pattern whose first character does not recur in it cannot overlap the end of a text it is absent
  from.
\<close>

lemma str_find_after_absent:
  assumes "p \<noteq> []" "hd p \<notin> set (tl p)" "str_find p s = None"
  shows "str_find p (s @ p @ r) = Some (length s)"
proof (rule str_find_skip, intro allI impI notI)
  fix i assume i: "i < length s" and st: "starts_with (drop i (s @ p @ r)) p"
  then obtain u where u: "drop i s @ p @ r = p @ u" by (auto simp: starts_with_iff)
  show False
  proof (cases "length p \<le> length s - i")
    case True
    with u have "drop i s = p @ drop (length p) (drop i s)"
      by (metis append_eq_append_conv_if length_drop append_take_drop_id)
    then have "starts_with (drop i s) p" by (metis starts_with_append)
    with str_find_NoneD [OF assms(3)] i show False by simp
  next
    case False
    let ?k = "length s - i"
    have k: "0 < ?k" "?k < length p" using False i by auto
    have "(drop i s @ p @ r) ! ?k = hd p" using assms(1) by (simp add: nth_append hd_conv_nth)
    moreover have "(p @ u) ! ?k = p ! ?k" using k by (simp add: nth_append)
    ultimately have "p ! ?k = hd p" using u by simp
    moreover have "p ! ?k = tl p ! (?k - 1)" using k by (cases p) auto
    moreover have "?k - 1 < length (tl p)" using k by simp
    ultimately show False using assms(2) by (metis nth_mem)
  qed
qed

text \<open>Attributes in which every quoted value is closed and no \<open>>\<close> is outside one.\<close>

fun closed_attrs :: "char option \<Rightarrow> string \<Rightarrow> bool" where
  "closed_attrs q [] \<longleftrightarrow> q = None"
| "closed_attrs (Some q) (c # s) \<longleftrightarrow> closed_attrs (if c = q then None else Some q) s"
| "closed_attrs None (c # s) \<longleftrightarrow>
     (if c = DQUOTE \<or> c = SQUOTE then closed_attrs (Some c) s
      else c \<noteq> CHR ''>'' \<and> closed_attrs None s)"

lemma find_tag_end_closed:
  "closed_attrs q a \<Longrightarrow> find_tag_end q (a @ CHR ''>'' # r) = Some (length a)"
  by (induction q a rule: closed_attrs.induct) (auto split: if_splits)

record segment =
  lead :: string
  attributes :: string
  content :: string

definition segment_ok :: "segment \<Rightarrow> bool" where
  "segment_ok g \<longleftrightarrow> str_find SCRIPT_OPEN (lead g) = None
     \<and> closed_attrs None (attributes g) \<and> tag_delimiter (attributes g)
     \<and> str_find SCRIPT_CLOSE (content g) = None"

definition render :: "segment list \<Rightarrow> string \<Rightarrow> string" where
  "render gs tail = concat (map (\<lambda>g. lead g @ SCRIPT_OPEN @ attributes g @ CHR ''>'' # content g @ SCRIPT_CLOSE) gs) @ tail"

lemma tag_delimiter_append: "tag_delimiter a \<Longrightarrow> tag_delimiter (a @ CHR ''>'' # r)"
  by (cases a) (auto simp: tag_delimiter_def)

lemma extract_scripts_segment:
  assumes "segment_ok g"
  shows "extract_scripts (lead g @ SCRIPT_OPEN @ attributes g @ CHR ''>'' # content g @ SCRIPT_CLOSE @ r)
    = (attributes g, content g) # extract_scripts r"
proof -
  have 1: "str_find SCRIPT_OPEN (lead g @ SCRIPT_OPEN @ attributes g @ CHR ''>'' # content g @ SCRIPT_CLOSE @ r)
      = Some (length (lead g))"
    using assms by (intro str_find_after_absent) (simp_all add: SCRIPT_OPEN_def segment_ok_def)
  have 2: "str_find SCRIPT_CLOSE (content g @ SCRIPT_CLOSE @ r) = Some (length (content g))"
    using assms by (intro str_find_after_absent) (simp_all add: SCRIPT_CLOSE_def segment_ok_def)
  have 3: "find_tag_end None (attributes g @ CHR ''>'' # content g @ SCRIPT_CLOSE @ r)
      = Some (length (attributes g))"
    using assms by (intro find_tag_end_closed) (simp add: segment_ok_def)
  show ?thesis
    using assms
    by (subst extract_scripts.simps)
       (simp add: 1 2 3 Let_def segment_ok_def tag_delimiter_append)
qed

text \<open>
  On a page made of text without \<open><script\<close>, and script tags whose quoted attribute values are closed,
  \<open>extract_scripts\<close> returns exactly the attributes and bodies of the tags, in order: a \<open>>\<close> inside an
  attribute value does not end the tag.
\<close>

theorem extract_scripts_render:
  assumes "\<forall>g \<in> set gs. segment_ok g" and "str_find SCRIPT_OPEN tail = None"
  shows "extract_scripts (render gs tail) = map (\<lambda>g. (attributes g, content g)) gs"
  using assms
proof (induction gs)
  case Nil
  then show ?case by (simp add: render_def extract_scripts.simps)
next
  case (Cons g gs)
  then show ?case using extract_scripts_segment [of g "render gs tail"] by (simp add: render_def)
qed

theorem extract_scripts_render_witness:
  "extract_scripts (render
     [\<lparr>lead = ''<p>'', attributes = '' src=\"a>b.js\" async'', content = ''f(1<2)''\<rparr>,
      \<lparr>lead = ''</p>'', attributes = [], content = []\<rparr>] ''</html>'')
   = [('' src=\"a>b.js\" async'', ''f(1<2)''), ([], [])]"
  by (subst extract_scripts_render)
     (simp_all add: segment_ok_def tag_delimiter_def SCRIPT_OPEN_def SCRIPT_CLOSE_def starts_with_def)

end
