(* ===== verification/Bootloader.thy ===== *)
theory Bootloader
  imports Discover
begin

text \<open>
  \<open>crates/wa-fetch/src/bootloader.rs\<close>: resolution of the WASM handles the page left to the bootloader
  endpoint.  Both request spellings are asked in rounds until a round adds no handle; what comes
  back is filtered by the admission rules of \<open>UrlPolicy\<close>.  The diagnostics are a datatype with the
  values the source formats into its messages.
\<close>

section \<open>Data\<close>

definition MAX_RESPONSE_BYTES :: nat where "MAX_RESPONSE_BYTES = 32 * 1024 * 1024"
definition JSON_PREFIX :: string where "JSON_PREFIX = ''for (;;);''"
definition MODULE_PARAMS :: "string list" where "MODULE_PARAMS = [''nb_modules'', ''modules'']"

record wasm_resolve_options =
  max_rounds :: nat
  max_components :: nat

definition default_resolve_options :: wasm_resolve_options where
  "default_resolve_options = \<lparr>max_rounds = 3, max_components = 512\<rparr>"

datatype fetch_failure = Transport string | HttpStatus nat | Unparseable

datatype diagnostic =
    ComponentsCapped nat nat
  | EndpointRefused string
  | RequestFailed string nat fetch_failure
  | NoEndpointParams
  | NothingDeferred

record wasm_resolution =
  by_id :: "(string, string) btree"
  observed_ids :: "string list"
  urls :: "string list"
  from_page_count :: nat
  rounds :: nat
  requests :: nat
  failures :: "diagnostic list"
  failed_requests :: nat

definition handle_by_url :: "wasm_resolution \<Rightarrow> (string, string) btree" where
  "handle_by_url r = fold (\<lambda>(i, url) out. bt_insert_new url i out) (by_id r) []"

section \<open>The request\<close>

definition unreserved :: "char \<Rightarrow> bool" where
  "unreserved b \<longleftrightarrow> is_ascii_alphanumeric b \<or> b \<in> set ''-_.~,''"

definition percent_encode :: "string \<Rightarrow> string" where
  "percent_encode s = concat (map (\<lambda>b. if unreserved b then [b] else CHR ''%'' # hex2 upper_hex b) s)"

definition endpoint_url :: "bootloader_params \<Rightarrow> string \<Rightarrow> string \<Rightarrow> string" where
  "endpoint_url params module_param components =
     (let q = percent_encode
      in endpoint_uri params @ ''?'' @ module_param @ ''='' @ q components
         @ ''&__user=0&__a=1&__req=1&__hs='' @ q (haste_session params) @ ''&dpr=1''
         @ ''&__ccg=UNKNOWN&__rev='' @ q (p_client_revision params)
         @ ''&__hsi='' @ q (hsi params) @ ''&__comet_req='' @ q (comet_env params)
         @ ''&__spin_r='' @ q (spin_rev params)
         @ ''&__spin_b='' @ q (spin_branch params) @ ''&__spin_t='' @ q (spin_time params))"

definition WA_WEB_URL :: string where "WA_WEB_URL = ''https://web.whatsapp.com/''"

definition fetch_payload ::
    "(string \<Rightarrow> json option) \<Rightarrow> 'w http_get \<Rightarrow> 'w \<Rightarrow> string \<Rightarrow> (fetch_failure + json) \<times> 'w" where
  "fetch_payload parse get w url =
     (case get w url [(''User-Agent'', UA), (''Accept'', ''*/*''), (''Referer'', WA_WEB_URL)]
             MAX_RESPONSE_BYTES of
        (Inl e, w1) \<Rightarrow> (Inl (Transport e), w1)
      | (Inr resp, w1) \<Rightarrow>
          if \<not> is_success (status resp) then (Inl (HttpStatus (status resp)), w1)
          else (let text = from_utf8_lossy (body resp);
                    json = (case strip_prefix text JSON_PREFIX of Some s \<Rightarrow> s | None \<Rightarrow> text)
                in (case parse json of Some v \<Rightarrow> Inr v | None \<Rightarrow> Inl Unparseable, w1)))"

section \<open>The rounds\<close>

text \<open>The state of the loop: the handle map and the fields of the result it counts in.\<close>

record 'w rounds_state =
  world :: 'w
  bx :: "(string, string) btree"
  n_rounds :: nat
  n_requests :: nat
  diags :: "diagnostic list"
  n_failed :: nat

definition ask ::
    "(string \<Rightarrow> json option) \<Rightarrow> 'w http_get \<Rightarrow> bootloader_params \<Rightarrow> string \<Rightarrow> nat \<Rightarrow> string
     \<Rightarrow> 'w rounds_state \<Rightarrow> 'w rounds_state" where
  "ask parse get params joined rnd param s =
     (let s1 = s\<lparr>n_requests := n_requests s + 1\<rparr>
      in case fetch_payload parse get (world s1) (endpoint_url params param joined) of
           (Inr payload, w) \<Rightarrow> s1\<lparr>world := w, bx := collect_bx_data payload (bx s1)\<rparr>
         | (Inl why, w) \<Rightarrow>
             s1\<lparr>world := w, diags := diags s1 @ [RequestFailed param rnd why],
                n_failed := n_failed s1 + 1\<rparr>)"

fun run_rounds ::
    "(string \<Rightarrow> json option) \<Rightarrow> 'w http_get \<Rightarrow> bootloader_params \<Rightarrow> string \<Rightarrow> nat \<Rightarrow> nat
     \<Rightarrow> 'w rounds_state \<Rightarrow> 'w rounds_state" where
  "run_rounds parse get params joined rnd 0 s = s"
| "run_rounds parse get params joined rnd (Suc left) s =
     (let before = length (bx s);
          s1 = fold (ask parse get params joined rnd) MODULE_PARAMS s;
          s2 = s1\<lparr>n_rounds := n_rounds s1 + 1\<rparr>
      in if length (bx s2) = before then s2
         else run_rounds parse get params joined (rnd + 1) left s2)"

definition keep_handle :: "string \<times> string \<Rightarrow> wasm_resolution \<Rightarrow> wasm_resolution" where
  "keep_handle e out =
     (let (i, uri) = e;
          out1 = out\<lparr>observed_ids := bs_insert i (observed_ids out)\<rparr>
      in if is_wasm_url uri \<and> is_cdn_payload uri
         then out1\<lparr>urls := urls out1 @ [uri], by_id := bt_insert i uri (by_id out1)\<rparr>
         else out1)"

text \<open>The \<open>if\<close>/\<open>else\<close> chain that decides whether to ask, and asks.\<close>

definition ask_endpoint ::
    "(string \<Rightarrow> json option) \<Rightarrow> 'w http_get \<Rightarrow> discovered \<Rightarrow> wasm_resolve_options \<Rightarrow> string list
     \<Rightarrow> 'w rounds_state \<Rightarrow> 'w rounds_state" where
  "ask_endpoint parse get d opts components s =
     (case bootloader d of
        Some params \<Rightarrow>
          if \<not> endpoint_is_trusted (endpoint_uri params)
          then s\<lparr>diags := diags s @ [EndpointRefused (endpoint_uri params)]\<rparr>
          else if components \<noteq> []
          then run_rounds parse get params (join_with '','' components) 0 (max_rounds opts) s
          else s\<lparr>diags := diags s @ [NothingDeferred]\<rparr>
      | None \<Rightarrow> s\<lparr>diags := diags s @ [NoEndpointParams]\<rparr>)"

definition resolve_wasm_with ::
    "(string \<Rightarrow> json option) \<Rightarrow> 'w http_get \<Rightarrow> 'w \<Rightarrow> discovered \<Rightarrow> wasm_resolve_options
     \<Rightarrow> wasm_resolution \<times> 'w" where
  "resolve_wasm_with parse get w d opts =
     (let from_page = length (filter is_wasm_url (map snd (bx_data d)));
          components = take (max_components opts) (deferred_components d);
          capped = (if length components < length (deferred_components d)
                    then [ComponentsCapped (length components) (length (deferred_components d))]
                    else []);
          s = \<lparr>world = w, bx = bx_data d, n_rounds = 0, n_requests = 0, diags = capped, n_failed = 0\<rparr>;
          s1 = ask_endpoint parse get d opts components s;
          out = \<lparr>by_id = [], observed_ids = [], urls = [], from_page_count = from_page,
                 rounds = n_rounds s1, requests = n_requests s1, failures = diags s1,
                 failed_requests = n_failed s1\<rparr>;
          out1 = fold keep_handle (bx s1) out
      in (out1\<lparr>urls := bs_of (urls out1 @ filter is_cdn_payload (d_wasm d))\<rparr>, world s1))"

section \<open>The query cannot be reshaped\<close>

lemma unreserved_not_special: "\<not> unreserved CHR ''&''" "\<not> unreserved CHR ''%''" "\<not> unreserved CHR ''=''"
    "\<not> unreserved CHR ''#''" "\<not> unreserved CHR ''/''" "\<not> unreserved CHR ''?''"
  by (simp_all add: unreserved_def char_class_defs upper_letters_def lower_letters_def digit_chars_def)

lemma upper_hex_unreserved: "c \<in> set upper_hex \<Longrightarrow> unreserved c"
  by (auto simp: upper_hex_def unreserved_def char_class_defs upper_letters_def digit_chars_def)

lemma percent_encode_set: "c \<in> set (percent_encode s) \<Longrightarrow> unreserved c \<or> c = CHR ''%''"
  using hex2_set [of upper_hex] distinct_hex upper_hex_unreserved
  by (fastforce simp: percent_encode_def split: if_splits)

lemma percent_encode_lacks: "\<not> unreserved d \<Longrightarrow> d \<noteq> CHR ''%'' \<Longrightarrow> d \<notin> set (percent_encode s)"
  using percent_encode_set by blast

lemma percent_encode_Cons:
  "percent_encode (b # s) = (if unreserved b then [b] else CHR ''%'' # hex2 upper_hex b) @ percent_encode s"
  by (simp add: percent_encode_def)

lemma percent_encode_inj: "percent_encode a = percent_encode b \<longleftrightarrow> a = b"
proof
  show "percent_encode a = percent_encode b \<Longrightarrow> a = b"
  proof (induction a arbitrary: b)
    case Nil
    then show ?case by (cases b) (auto simp: percent_encode_def split: if_splits)
  next
    case (Cons x xs)
    then obtain y ys where b: "b = y # ys"
      by (cases b) (auto simp: percent_encode_def split: if_splits)
    have "x = y \<and> percent_encode xs = percent_encode ys"
    proof (cases "unreserved x"; cases "unreserved y")
      assume "\<not> unreserved x" "\<not> unreserved y"
      with Cons.prems b have "hex2 upper_hex x = hex2 upper_hex y \<and> percent_encode xs = percent_encode ys"
        by (simp add: percent_encode_Cons)
      then show ?thesis using distinct_hex hex2_inj by blast
    qed (use Cons.prems b unreserved_not_special in \<open>auto simp: percent_encode_Cons\<close>)
    with Cons.IH b show ?case by blast
  qed
qed simp

lemma split_amp_part:
  "CHR ''&'' \<notin> set k \<Longrightarrow>
   split_on (\<lambda>c. c = CHR ''&'') (k @ percent_encode v @ CHR ''&'' # r)
     = (k @ percent_encode v) # split_on (\<lambda>c. c = CHR ''&'') r"
  using split_on_append_sep [of "k @ percent_encode v" "\<lambda>c. c = CHR ''&''" "CHR ''&''" r]
    percent_encode_lacks [of "CHR ''&''" v] unreserved_not_special by auto

lemma split_amp_last:
  "CHR ''&'' \<notin> set k \<Longrightarrow> split_on (\<lambda>c. c = CHR ''&'') (k @ percent_encode v) = [k @ percent_encode v]"
  using split_on_no_sep [of "k @ percent_encode v" "\<lambda>c. c = CHR ''&''"]
    percent_encode_lacks [of "CHR ''&''" v] unreserved_not_special by auto

lemma split_amp_const:
  "CHR ''&'' \<notin> set k \<Longrightarrow>
   split_on (\<lambda>c. c = CHR ''&'') (k @ CHR ''&'' # r) = k # split_on (\<lambda>c. c = CHR ''&'') r"
  by (rule split_on_append_sep) auto

lemma endpoint_query_split:
  assumes "CHR ''&'' \<notin> set mp"
  shows "split_on (\<lambda>c. c = CHR ''&'') (drop (length (endpoint_uri p) + 1) (endpoint_url p mp comps)) =
    [mp @ ''='' @ percent_encode comps, ''__user=0'', ''__a=1'', ''__req=1'',
     ''__hs='' @ percent_encode (haste_session p), ''dpr=1'', ''__ccg=UNKNOWN'',
     ''__rev='' @ percent_encode (p_client_revision p), ''__hsi='' @ percent_encode (hsi p),
     ''__comet_req='' @ percent_encode (comet_env p), ''__spin_r='' @ percent_encode (spin_rev p),
     ''__spin_b='' @ percent_encode (spin_branch p), ''__spin_t='' @ percent_encode (spin_time p)]"
    (is "?l = ?r")
proof -
  let ?sp = "split_on (\<lambda>c. c = CHR ''&'')"
  let ?e = percent_encode
  have eq: "drop (length (endpoint_uri p) + 1) (endpoint_url p mp comps) =
      (mp @ ''='') @ ?e comps @ CHR ''&'' # (''__user=0'' @ CHR ''&'' # (''__a=1'' @ CHR ''&'' # (''__req=1''
      @ CHR ''&'' # (''__hs='' @ ?e (haste_session p) @ CHR ''&'' # (''dpr=1'' @ CHR ''&'' # (''__ccg=UNKNOWN''
      @ CHR ''&'' # (''__rev='' @ ?e (p_client_revision p) @ CHR ''&'' # (''__hsi='' @ ?e (hsi p)
      @ CHR ''&'' # (''__comet_req='' @ ?e (comet_env p) @ CHR ''&'' # (''__spin_r='' @ ?e (spin_rev p)
      @ CHR ''&'' # (''__spin_b='' @ ?e (spin_branch p)
      @ CHR ''&'' # (''__spin_t='' @ ?e (spin_time p)))))))))))))"
    by (simp add: endpoint_url_def Let_def)
  have "CHR ''&'' \<notin> set (mp @ ''='')" using assms by simp
  note 1 = split_amp_part [OF this, of comps]
  have amps: "CHR ''&'' \<notin> set ''__user=0''" "CHR ''&'' \<notin> set ''__a=1''" "CHR ''&'' \<notin> set ''__req=1''"
    "CHR ''&'' \<notin> set ''__hs=''" "CHR ''&'' \<notin> set ''dpr=1''" "CHR ''&'' \<notin> set ''__ccg=UNKNOWN''"
    "CHR ''&'' \<notin> set ''__rev=''" "CHR ''&'' \<notin> set ''__hsi=''" "CHR ''&'' \<notin> set ''__comet_req=''"
    "CHR ''&'' \<notin> set ''__spin_r=''" "CHR ''&'' \<notin> set ''__spin_b=''" "CHR ''&'' \<notin> set ''__spin_t=''"
    by simp_all
  show ?thesis
    unfolding eq 1 split_amp_const [OF amps(1)] split_amp_const [OF amps(2)] split_amp_const [OF amps(3)]
      split_amp_part [OF amps(4)] split_amp_const [OF amps(5)] split_amp_const [OF amps(6)]
      split_amp_part [OF amps(7)] split_amp_part [OF amps(8)] split_amp_part [OF amps(9)]
      split_amp_part [OF amps(10)] split_amp_part [OF amps(11)] split_amp_last [OF amps(12)]
    by simp
qed

text \<open>
  A bootloader request carries exactly the thirteen parameters the source writes, whatever the page put
  in the values: the query is cut at \<open>&\<close> into those keys with the percent-encoded values, and the
  encoding is injective, so no value can add, drop or alter a parameter.
\<close>

theorem endpoint_url_query:
  "map (\<lambda>mp. split_on (\<lambda>c. c = CHR ''&'') (drop (length (endpoint_uri p) + 1) (endpoint_url p mp comps)))
     MODULE_PARAMS =
   map (\<lambda>mp.
    [mp @ ''='' @ percent_encode comps, ''__user=0'', ''__a=1'', ''__req=1'',
     ''__hs='' @ percent_encode (haste_session p), ''dpr=1'', ''__ccg=UNKNOWN'',
     ''__rev='' @ percent_encode (p_client_revision p), ''__hsi='' @ percent_encode (hsi p),
     ''__comet_req='' @ percent_encode (comet_env p), ''__spin_r='' @ percent_encode (spin_rev p),
     ''__spin_b='' @ percent_encode (spin_branch p), ''__spin_t='' @ percent_encode (spin_time p)])
     MODULE_PARAMS
   \<and> inj percent_encode"
  (is "_ = map (\<lambda>mp. ?parts mp) MODULE_PARAMS \<and> _")
proof (rule conjI)
  have "CHR ''&'' \<notin> set mp" if "mp \<in> set MODULE_PARAMS" for mp
    using that by (auto simp: MODULE_PARAMS_def)
  then show "map (\<lambda>mp. split_on (\<lambda>c. c = CHR ''&'') (drop (length (endpoint_uri p) + 1) (endpoint_url p mp comps)))
      MODULE_PARAMS = map (\<lambda>mp. ?parts mp) MODULE_PARAMS"
    by (intro map_cong refl endpoint_query_split) blast
  show "inj percent_encode" by (simp add: inj_def percent_encode_inj)
qed

section \<open>Requests go to the trusted endpoint only\<close>

lemma host_of_query:
  assumes "starts_with u ''https://''"
  shows "host_of (u @ CHR ''?'' # r) = host_of u"
proof -
  from https_parts_exist [OF assms] obtain ui hp tail where h: "https_parts u ui hp tail" by blast
  then have "https_parts (u @ CHR ''?'' # r) ui hp (tail @ CHR ''?'' # r)"
    by (cases tail) (auto simp: https_parts_def url_sep_def)
  with h show ?thesis by (simp add: host_of_https)
qed

lemma endpoint_url_trusted:
  assumes "endpoint_is_trusted (endpoint_uri p)"
  shows "endpoint_is_trusted (endpoint_url p mp comps)"
proof -
  obtain r where r: "endpoint_url p mp comps = endpoint_uri p @ CHR ''?'' # r"
    by (simp add: endpoint_url_def Let_def)
  from assms have st: "starts_with (endpoint_uri p) ''https://''"
    by (auto simp: endpoint_is_trusted_def split: if_splits)
  then have "starts_with (endpoint_url p mp comps) ''https://''"
    unfolding r by (metis append.assoc starts_with_iff)
  with assms st show ?thesis unfolding r by (simp add: endpoint_is_trusted_def host_of_query)
qed

lemma ask_agree:
  assumes "\<And>w url hs n. endpoint_is_trusted url \<Longrightarrow> get w url hs n = get' w url hs n"
    and "endpoint_is_trusted (endpoint_uri p)"
  shows "ask parse get p joined rnd param s = ask parse get' p joined rnd param s"
  using endpoint_url_trusted [OF assms(2)] by (simp add: ask_def fetch_payload_def assms(1))

lemma run_rounds_agree:
  assumes "\<And>w url hs n. endpoint_is_trusted url \<Longrightarrow> get w url hs n = get' w url hs n"
    and "endpoint_is_trusted (endpoint_uri p)"
  shows "run_rounds parse get p joined rnd left s = run_rounds parse get' p joined rnd left s"
proof (induction left arbitrary: rnd s)
  case (Suc left)
  have "ask parse get p joined rnd = ask parse get' p joined rnd"
    by (intro ext ask_agree assms)
  then show ?case using Suc by (simp add: Let_def)
qed simp

text \<open>
  C4: the page cannot point the run at another host.  Two clients that agree on the \<open>https\<close> URLs of
  WhatsApp domains, and may differ on all others, give the same resolution and leave the same world:
  no other URL is ever requested, whatever endpoint the page names.
\<close>

theorem resolve_wasm_trusted_only:
  assumes "\<And>w url hs n. endpoint_is_trusted url \<Longrightarrow> get w url hs n = get' w url hs n"
  shows "resolve_wasm_with parse get w d opts = resolve_wasm_with parse get' w d opts"
proof (cases "bootloader d")
  case None
  then show ?thesis by (simp add: resolve_wasm_with_def ask_endpoint_def)
next
  case (Some p)
  show ?thesis
  proof (cases "endpoint_is_trusted (endpoint_uri p)")
    case True
    have "run_rounds parse get p joined rnd left s = run_rounds parse get' p joined rnd left s"
      for joined rnd left s by (rule run_rounds_agree [OF assms True])
    then show ?thesis by (simp add: resolve_wasm_with_def ask_endpoint_def Some cong: if_cong)
  qed (simp add: resolve_wasm_with_def ask_endpoint_def Some)
qed

definition sample_discovered :: discovered where
  "sample_discovered =
     \<lparr>d_status = 200, wa_version = None, client_revision = None, html_bytes = 0, d_js = [], d_wasm = [],
      bx_data = [(''1'', ''https://static.whatsapp.net/a.wasm''), (''2'', ''https://evil.test/b.wasm'')],
      bootloader = Some \<lparr>endpoint_uri = ''https://web.whatsapp.com/ajax/'', p_client_revision = ''1'',
        haste_session = [], hsi = [], spin_rev = [], spin_branch = [], spin_time = [], comet_env = []\<rparr>,
      deferred_components = [''Voip''], by_source = no_sources\<rparr>"

theorem resolve_wasm_trusted_only_witness:
  "resolve_wasm_with (\<lambda>_. None) (\<lambda>log url hs n. (Inl ''down'', if endpoint_is_trusted url then log else [url])) []
     sample_discovered default_resolve_options
   = resolve_wasm_with (\<lambda>_. None) (\<lambda>log url hs n. (Inl ''down'', log)) ([] :: string list)
       sample_discovered default_resolve_options"
  by (rule resolve_wasm_trusted_only) simp

section \<open>What a resolution returns\<close>

lemma ask_bx:
  "bt_ok (bx s) \<Longrightarrow> bt_ok (bx (ask parse get p joined rnd param s))"
  "map_of (bx s) i = Some u \<Longrightarrow> map_of (bx (ask parse get p joined rnd param s)) i = Some u"
  by (auto simp: ask_def Let_def collect_bx_data_ok collect_bx_data_map split: prod.splits sum.splits)

lemma ask_counts:
  "n_requests (ask parse get p joined rnd param s) = n_requests s + 1"
  "n_rounds (ask parse get p joined rnd param s) = n_rounds s"
  "n_failed s + length xs \<le> length (diags s) \<Longrightarrow>
     n_failed (ask parse get p joined rnd param s) + length xs \<le> length (diags (ask parse get p joined rnd param s))"
  "n_failed s \<le> n_failed (ask parse get p joined rnd param s)"
  "n_failed (ask parse get p joined rnd param s) \<le> n_failed s + 1"
  by (auto simp: ask_def Let_def split: prod.splits sum.splits)

lemma run_rounds_bx:
  "bt_ok (bx s) \<Longrightarrow> bt_ok (bx (run_rounds parse get p joined rnd left s))"
  "map_of (bx s) i = Some u \<Longrightarrow> map_of (bx (run_rounds parse get p joined rnd left s)) i = Some u"
  by (induction left arbitrary: rnd s) (auto simp: Let_def MODULE_PARAMS_def ask_bx)

lemma run_rounds_counts:
  assumes "n_requests s = 2 * n_rounds s" "n_failed s \<le> n_requests s"
  shows "n_requests (run_rounds parse get p joined rnd left s)
      = 2 * n_rounds (run_rounds parse get p joined rnd left s)
    \<and> n_failed (run_rounds parse get p joined rnd left s) \<le> n_requests (run_rounds parse get p joined rnd left s)
    \<and> n_rounds (run_rounds parse get p joined rnd left s) \<le> n_rounds s + left"
  using assms
proof (induction left arbitrary: rnd s)
  case (Suc left)
  let ?s1 = "fold (ask parse get p joined rnd) MODULE_PARAMS s"
  let ?s2 = "?s1\<lparr>n_rounds := n_rounds ?s1 + 1\<rparr>"
  have n: "n_requests ?s2 = n_requests s + 2" "n_rounds ?s2 = n_rounds s + 1"
    by (simp_all add: MODULE_PARAMS_def ask_counts)
  have f: "n_failed ?s2 \<le> n_failed s + 2"
    using ask_counts(5) [of parse get p joined rnd "''modules''" "ask parse get p joined rnd ''nb_modules'' s"]
      ask_counts(5) [of parse get p joined rnd "''nb_modules''" s]
    by (simp add: MODULE_PARAMS_def)
  have "n_requests ?s2 = 2 * n_rounds ?s2" "n_failed ?s2 \<le> n_requests ?s2"
    using n f Suc.prems by simp_all
  note IH = Suc.IH [OF this, of "rnd + 1"]
  then show ?case using n f Suc.prems by (auto simp: Let_def)
qed simp

text \<open>The final loop over the handle map.\<close>

definition payload_ok :: "string \<Rightarrow> bool" where
  "payload_ok u \<longleftrightarrow> is_wasm_url u \<and> is_cdn_payload u"

lemma keep_handle_simps:
  "urls (keep_handle (i, u) out) = (if payload_ok u then urls out @ [u] else urls out)"
  "by_id (keep_handle (i, u) out) = (if payload_ok u then bt_insert i u (by_id out) else by_id out)"
  "observed_ids (keep_handle (i, u) out) = bs_insert i (observed_ids out)"
  "rounds (keep_handle (i, u) out) = rounds out" "requests (keep_handle (i, u) out) = requests out"
  "failures (keep_handle (i, u) out) = failures out"
  "failed_requests (keep_handle (i, u) out) = failed_requests out"
  by (simp_all add: keep_handle_def payload_ok_def Let_def)

lemma fold_keep_handle_all:
  "bt_ok m \<Longrightarrow>
   set (urls (fold keep_handle m out)) = set (urls out) \<union> {u. payload_ok u \<and> u \<in> snd ` set m}
   \<and> (\<forall>i. map_of (by_id (fold keep_handle m out)) i =
        (case map_of m i of Some u \<Rightarrow> if payload_ok u then Some u else map_of (by_id out) i
         | None \<Rightarrow> map_of (by_id out) i))
   \<and> set (observed_ids (fold keep_handle m out)) = set (observed_ids out) \<union> fst ` set m
   \<and> rounds (fold keep_handle m out) = rounds out \<and> requests (fold keep_handle m out) = requests out
   \<and> failed_requests (fold keep_handle m out) = failed_requests out
   \<and> (bt_ok (by_id out) \<longrightarrow> bt_ok (by_id (fold keep_handle m out)))"
proof (induction m arbitrary: out)
  case (Cons e m)
  obtain j v where e: "e = (j, v)" by fastforce
  have m: "bt_ok m" and new: "map_of m j = None"
    using Cons.prems by (auto simp: e map_of_eq_None_iff)
  note IH = Cons.IH [OF m, of "keep_handle e out"]
  have 1: "set (urls (fold keep_handle (e # m) out)) = set (urls out) \<union> {u. payload_ok u \<and> u \<in> snd ` set (e # m)}"
    using conjunct1 [OF IH] by (auto simp: e keep_handle_simps)
  have 2: "map_of (by_id (fold keep_handle (e # m) out)) i =
        (case map_of (e # m) i of Some u \<Rightarrow> if payload_ok u then Some u else map_of (by_id out) i
         | None \<Rightarrow> map_of (by_id out) i)" for i
    using conjunct1 [OF conjunct2 [OF IH]] new by (auto simp: e keep_handle_simps split: option.splits)
  show ?case
    using 1 2 conjunct2 [OF conjunct2 [OF IH]] by (simp add: e keep_handle_simps)
qed auto

lemmas fold_keep_handle =
  fold_keep_handle_all [THEN conjunct1]
  fold_keep_handle_all [THEN conjunct2, THEN conjunct1, rule_format]
  fold_keep_handle_all [THEN conjunct2, THEN conjunct2, THEN conjunct1]
  fold_keep_handle_all [THEN conjunct2, THEN conjunct2, THEN conjunct2, THEN conjunct1]
  fold_keep_handle_all [THEN conjunct2, THEN conjunct2, THEN conjunct2, THEN conjunct2, THEN conjunct1]
  fold_keep_handle_all [THEN conjunct2, THEN conjunct2, THEN conjunct2, THEN conjunct2, THEN conjunct2,
    THEN conjunct1]
  fold_keep_handle_all [THEN conjunct2, THEN conjunct2, THEN conjunct2, THEN conjunct2, THEN conjunct2,
    THEN conjunct2, rule_format]

lemma ask_endpoint_bx:
  "bt_ok (bx s) \<Longrightarrow> bt_ok (bx (ask_endpoint parse get d opts comps s))"
  "map_of (bx s) i = Some u \<Longrightarrow> map_of (bx (ask_endpoint parse get d opts comps s)) i = Some u"
  by (auto simp: ask_endpoint_def run_rounds_bx split: option.split)

lemma ask_endpoint_counts:
  assumes "n_requests s = 0" "n_rounds s = 0" "n_failed s = 0"
  shows "n_requests (ask_endpoint parse get d opts comps s) = 2 * n_rounds (ask_endpoint parse get d opts comps s)"
    and "n_failed (ask_endpoint parse get d opts comps s) \<le> n_requests (ask_endpoint parse get d opts comps s)"
    and "n_rounds (ask_endpoint parse get d opts comps s) \<le> max_rounds opts"
proof -
  have "n_requests (ask_endpoint parse get d opts comps s) = 2 * n_rounds (ask_endpoint parse get d opts comps s)
    \<and> n_failed (ask_endpoint parse get d opts comps s) \<le> n_requests (ask_endpoint parse get d opts comps s)
    \<and> n_rounds (ask_endpoint parse get d opts comps s) \<le> max_rounds opts"
  proof (cases "bootloader d")
    case (Some p)
    have "n_requests s = 2 * n_rounds s" "n_failed s \<le> n_requests s" using assms by simp_all
    from run_rounds_counts [OF this, of parse get p "join_with '','' comps" 0 "max_rounds opts"]
    show ?thesis using assms by (simp add: ask_endpoint_def Some)
  qed (use assms in \<open>simp add: ask_endpoint_def\<close>)
  then show "n_requests (ask_endpoint parse get d opts comps s) = 2 * n_rounds (ask_endpoint parse get d opts comps s)"
    "n_failed (ask_endpoint parse get d opts comps s) \<le> n_requests (ask_endpoint parse get d opts comps s)"
    "n_rounds (ask_endpoint parse get d opts comps s) \<le> max_rounds opts"
    by blast+
qed

text \<open>The result in terms of the state the rounds end in.\<close>

lemma resolve_wasm_parts:
  assumes "bt_ok (bx_data d)" "r = fst (resolve_wasm_with parse get w d opts)"
  obtains m where "bt_ok m"
    and "map_of (bx_data d) \<subseteq>\<^sub>m map_of m"
    and "set (urls r) = {u. payload_ok u \<and> u \<in> snd ` set m} \<union> {u \<in> set (d_wasm d). is_cdn_payload u}"
    and "bs_ok (urls r)" "bt_ok (by_id r)"
    and "map_of (by_id r) = (\<lambda>i. case map_of m i of Some u \<Rightarrow> if payload_ok u then Some u else None | None \<Rightarrow> None)"
    and "set (observed_ids r) = fst ` set m"
    and "requests r = 2 * rounds r" "failed_requests r \<le> requests r" "rounds r \<le> max_rounds opts"
proof -
  define comps where "comps = take (max_components opts) (deferred_components d)"
  define s where "s = ask_endpoint parse get d opts comps
    \<lparr>world = w, bx = bx_data d, n_rounds = 0, n_requests = 0,
     diags = (if length comps < length (deferred_components d)
       then [ComponentsCapped (length comps) (length (deferred_components d))] else []), n_failed = 0\<rparr>"
  define out where "out = \<lparr>by_id = [], observed_ids = [], urls = [],
      from_page_count = length (filter is_wasm_url (map snd (bx_data d))),
      rounds = n_rounds s, requests = n_requests s, failures = diags s, failed_requests = n_failed s\<rparr>"
  define res where "res = fold keep_handle (bx s) out"
  have r: "r = res\<lparr>urls := bs_of (urls res @ filter is_cdn_payload (d_wasm d))\<rparr>"
    unfolding assms(2) resolve_wasm_with_def Let_def fst_conv res_def out_def s_def comps_def by (rule refl)
  have ok: "bt_ok (bx s)" unfolding s_def using assms(1) by (intro ask_endpoint_bx) simp
  note f = fold_keep_handle [OF ok, of out, folded res_def]
  have c: "n_requests s = 2 * n_rounds s" "n_failed s \<le> n_requests s" "n_rounds s \<le> max_rounds opts"
    unfolding s_def by (rule ask_endpoint_counts; simp)+
  have o: "rounds out = n_rounds s" "requests out = n_requests s" "failed_requests out = n_failed s"
    "urls out = []" "by_id out = []" "observed_ids out = []" by (simp_all add: out_def)
  show ?thesis
  proof (rule that [OF ok])
    show "map_of (bx_data d) \<subseteq>\<^sub>m map_of (bx s)"
      unfolding s_def map_le_def
      by (rule ballI) (auto intro: ask_endpoint_bx(2) [symmetric] simp: ask_endpoint_bx(2))
    show "set (urls r) = {u. payload_ok u \<and> u \<in> snd ` set (bx s)} \<union> {u \<in> set (d_wasm d). is_cdn_payload u}"
      by (auto simp: r f(1) o)
    show "map_of (by_id r) = (\<lambda>i. case map_of (bx s) i of Some u \<Rightarrow> if payload_ok u then Some u else None | None \<Rightarrow> None)"
      by (rule ext) (simp add: r f(2) o split: option.split)
    show "bt_ok (by_id r)" using f(7) by (simp add: r o)
    show "set (observed_ids r) = fst ` set (bx s)" by (simp add: r f(3) o)
    have "failed_requests r = n_failed s" "requests r = n_requests s" "rounds r = n_rounds s"
      by (simp_all add: r f(4,5,6) o)
    with c show "requests r = 2 * rounds r" "failed_requests r \<le> requests r" "rounds r \<le> max_rounds opts"
      by simp_all
  qed (simp add: r)
qed

text \<open>
  C32: whatever the endpoint answers, every URL a resolution hands to the downloader is an \<open>https\<close> CDN URL,
  the list is strictly sorted, every handle is bound to a WASM URL of that list and is among the
  observed ids, and the requests sent are two per round, within \<open>max_rounds\<close>, the failures among them.
\<close>

theorem resolve_wasm_safe:
  assumes "bt_ok (bx_data d)" and "r = fst (resolve_wasm_with parse get w d opts)"
  shows "set (urls r) \<subseteq> {u. is_cdn_payload u} \<and> bs_ok (urls r)
    \<and> set (map snd (by_id r)) \<subseteq> {u \<in> set (urls r). is_wasm_url u}
    \<and> set (map fst (by_id r)) \<subseteq> set (observed_ids r)
    \<and> requests r = 2 * rounds r \<and> rounds r \<le> max_rounds opts \<and> failed_requests r \<le> requests r"
proof -
  obtain m where s: "bt_ok m"
    "map_of (bx_data d) \<subseteq>\<^sub>m map_of m"
    "set (urls r) = {u. payload_ok u \<and> u \<in> snd ` set m} \<union> {u \<in> set (d_wasm d). is_cdn_payload u}"
    "bs_ok (urls r)" "bt_ok (by_id r)"
    "map_of (by_id r) = (\<lambda>i. case map_of m i of Some u \<Rightarrow> if payload_ok u then Some u else None | None \<Rightarrow> None)"
    "set (observed_ids r) = fst ` set m"
    "requests r = 2 * rounds r" "failed_requests r \<le> requests r" "rounds r \<le> max_rounds opts"
    by (rule resolve_wasm_parts [OF assms])
  have mem: "(i, u) \<in> set m \<and> payload_ok u" if "(i, u) \<in> set (by_id r)" for i u
  proof -
    have "map_of (by_id r) i = Some u" using that bt_ok_distinct [OF s(5)] by simp
    with fun_cong [OF s(6), of i] show ?thesis by (auto split: option.splits if_splits dest: map_of_SomeD)
  qed
  have "set (map snd (by_id r)) \<subseteq> {u \<in> set (urls r). is_wasm_url u}"
    using mem s(3) by (force simp: payload_ok_def)
  moreover have "set (map fst (by_id r)) \<subseteq> set (observed_ids r)" using mem s(7) by force
  moreover have "set (urls r) \<subseteq> {u. is_cdn_payload u}" using s(3) by (auto simp: payload_ok_def)
  ultimately show ?thesis using s by blast
qed

theorem resolve_wasm_safe_witness:
  "set (urls (fst (resolve_wasm_with (\<lambda>_. None) (\<lambda>w url hs n. (Inl ''down'', w)) () sample_discovered
      default_resolve_options))) \<subseteq> {u. is_cdn_payload u}"
  using resolve_wasm_safe [of sample_discovered _ "\<lambda>_. None" "\<lambda>w url hs n. (Inl ''down'', w)" "()"
      default_resolve_options]
  by (simp add: sample_discovered_def)

text \<open>
  A handle the page itself bound to a CDN WASM payload keeps that binding: no endpoint answer replaces
  or removes it.
\<close>

theorem resolve_wasm_keeps_page_handles:
  assumes "bt_ok (bx_data d)" and "map_of (bx_data d) i = Some u"
    and "is_wasm_url u" and "is_cdn_payload u"
  shows "map_of (by_id (fst (resolve_wasm_with parse get w d opts))) i = Some u"
proof -
  let ?r = "fst (resolve_wasm_with parse get w d opts)"
  obtain m where s: "bt_ok m"
    "map_of (bx_data d) \<subseteq>\<^sub>m map_of m"
    "set (urls ?r) = {u. payload_ok u \<and> u \<in> snd ` set m} \<union> {u \<in> set (d_wasm d). is_cdn_payload u}"
    "bs_ok (urls ?r)" "bt_ok (by_id ?r)"
    "map_of (by_id ?r) = (\<lambda>i. case map_of m i of Some u \<Rightarrow> if payload_ok u then Some u else None | None \<Rightarrow> None)"
    "set (observed_ids ?r) = fst ` set m"
    "requests ?r = 2 * rounds ?r" "failed_requests ?r \<le> requests ?r" "rounds ?r \<le> max_rounds opts"
    by (rule resolve_wasm_parts [OF assms(1) refl])
  from s(2) assms(2) have "map_of m i = Some u" by (metis domI map_le_def)
  with s(6) assms(3,4) show ?thesis by (simp add: payload_ok_def)
qed

theorem resolve_wasm_keeps_page_handles_witness:
  "map_of (by_id (fst (resolve_wasm_with (\<lambda>_. None) (\<lambda>w url hs n. (Inl ''down'', w)) () sample_discovered
      default_resolve_options))) ''1'' = Some ''https://static.whatsapp.net/a.wasm''"
  by (rule resolve_wasm_keeps_page_handles)
     ((simp add: sample_discovered_def)+, code_simp, code_simp)

lemma fold_insert_new:
  "map_of (fold (\<lambda>(i, url) out. bt_insert_new url i out) m out) u
    = (case map_of out u of Some i \<Rightarrow> Some i | None \<Rightarrow> map_of (map (\<lambda>(i, v). (v, i)) m) u)"
proof (induction m arbitrary: out)
  case (Cons e m)
  obtain i v where "e = (i, v)" by fastforce
  then show ?case using Cons.IH [of "bt_insert_new v i out"] by (auto split: option.split simp: domIff)
qed (simp split: option.split)

lemma first_of_swapped:
  assumes "bt_ok m"
  shows "map_of (map (\<lambda>(i, v). (v, i)) m) u = Some i \<longleftrightarrow>
    map_of m i = Some u \<and> (\<forall>j. map_of m j = Some u \<longrightarrow> i \<le> j)"
  using assms
proof (induction m)
  case (Cons e m)
  obtain k v where e: "e = (k, v)" by fastforce
  have lt: "k < j" if "map_of m j = Some x" for j x
    using Cons.prems map_of_SomeD [OF that] by (force simp: e)
  have IH: "map_of (map (\<lambda>(i, v). (v, i)) m) u = Some i \<longleftrightarrow>
      map_of m i = Some u \<and> (\<forall>j. map_of m j = Some u \<longrightarrow> i \<le> j)"
    using Cons by simp
  show ?case
  proof (cases "v = u")
    case True
    have least: "k \<le> j" if "map_of (e # m) j = Some u" for j
      using that lt by (cases "j = k") (auto simp: e less_imp_le)
    have uniq: "i = k" if "map_of (e # m) i = Some u" "\<forall>j. map_of (e # m) j = Some u \<longrightarrow> i \<le> j"
    proof (rule ccontr)
      assume "i \<noteq> k"
      with that(1) have "k < i" using lt by (simp add: e)
      moreover have "i \<le> k" using that(2) True by (simp add: e)
      ultimately show False by simp
    qed
    have k: "map_of (e # m) k = Some u" using True by (simp add: e)
    have "map_of (map (\<lambda>(i, v). (v, i)) (e # m)) u = Some i \<longleftrightarrow> i = k" using True by (auto simp: e)
    then show ?thesis using least uniq k by blast
  next
    case False
    then have "map_of (e # m) j = Some u \<longleftrightarrow> map_of m j = Some u" for j
      using lt by (auto simp: e)
    then show ?thesis using IH False by (simp add: e)
  qed
qed simp

text \<open>
  \<open>handle_by_url\<close> inverts the handle map: a URL is listed exactly when some handle resolved to it, with
  the least such handle.
\<close>

theorem handle_by_url_least:
  assumes "bt_ok (by_id r)"
  shows "map_of (handle_by_url r) u = Some i \<longleftrightarrow>
    map_of (by_id r) i = Some u \<and> (\<forall>j. map_of (by_id r) j = Some u \<longrightarrow> i \<le> j)"
  using first_of_swapped [OF assms] by (simp add: handle_by_url_def fold_insert_new)

definition sample_resolution :: wasm_resolution where
  "sample_resolution =
     \<lparr>by_id = [(''1'', ''b''), (''2'', ''a''), (''3'', ''b'')], observed_ids = [], urls = [],
      from_page_count = 0, rounds = 0, requests = 0, failures = [], failed_requests = 0\<rparr>"

theorem handle_by_url_least_witness:
  "map_of (handle_by_url sample_resolution) ''b'' = Some ''1''"
proof -
  have le: "''1'' \<le> ''1''" "''1'' \<le> ''3''" by simp (rule less_imp_le, simp)
  have "''1'' \<le> j" if "map_of (by_id sample_resolution) j = Some ''b''" for j
  proof -
    from map_of_SomeD [OF that] have "j = ''1'' \<or> j = ''3''" by (simp add: sample_resolution_def)
    then show ?thesis using le by blast
  qed
  moreover have "bt_ok (by_id sample_resolution)" by (simp add: sample_resolution_def)
  ultimately show ?thesis
    using handle_by_url_least [of sample_resolution "''b''" "''1''"] by (simp add: sample_resolution_def)
qed

end
