(* ===== verification/Btarchive.thy ===== *)
theory Btarchive
  imports UrlPolicy HttpPort
begin

text \<open>
  \<open>crates/wa-fetch/src/btarchive.rs\<close>: the revision-addressed lookup of a build archive.  The endpoint
  origin is a constant; the only remote input is the \<open>Location\<close> of the answer, admitted by
  \<open>accept_payload_location\<close> (theory \<open>UrlPolicy\<close>).
\<close>

definition BTARCHIVE_ORIGIN :: string where "BTARCHIVE_ORIGIN = ''https://www.facebook.com''"
definition REDIRECT_MAX_BYTES :: nat where "REDIRECT_MAX_BYTES = 64 * 1024"

definition ARCHIVE_HEADERS :: headers where
  "ARCHIVE_HEADERS =
     [(''User-Agent'', UA), (''Accept'', ''*/*''), (''Sec-Fetch-Dest'', ''document''),
      (''Sec-Fetch-Mode'', ''navigate''), (''Sec-Fetch-Site'', ''none'')]"

datatype archive_app = WhatsApp | Instagram | Messenger | Facebook

fun app_as_str :: "archive_app \<Rightarrow> string" where
  "app_as_str WhatsApp = ''whatsapp''"
| "app_as_str Instagram = ''instagram''"
| "app_as_str Messenger = ''messenger''"
| "app_as_str Facebook = ''facebook''"

definition app_parse :: "string \<Rightarrow> archive_app option" where
  "app_parse s =
     (if s = ''whatsapp'' then Some WhatsApp
      else if s = ''instagram'' then Some Instagram
      else if s = ''messenger'' then Some Messenger
      else if s = ''facebook'' then Some Facebook
      else None)"

record archive_location =
  revision :: nat
  app :: archive_app
  request_url :: string
  payload_url :: string
  payload_host :: string

datatype archive_lookup = Published archive_location | NotPublished nat archive_app

datatype lookup_error =
    ProbeFailed string
  | NoLocation string nat
  | BadLocation string location_error
  | FetchMetadataRejected string
  | UnexpectedStatus string nat

definition archive_url :: "nat \<Rightarrow> archive_app \<Rightarrow> string" where
  "archive_url rev_no a = BTARCHIVE_ORIGIN @ ''/btarchive/'' @ dec rev_no @ ''/'' @ app_as_str a"

definition lookup_archive_with ::
    "'w http_get_redirect \<Rightarrow> 'w \<Rightarrow> nat \<Rightarrow> archive_app \<Rightarrow> (lookup_error + archive_lookup) \<times> 'w" where
  "lookup_archive_with get_redirect w rev_no a =
     (let url = archive_url rev_no a
      in case get_redirect w url ARCHIVE_HEADERS REDIRECT_MAX_BYTES of
           (Inl e, w1) \<Rightarrow> (Inl (ProbeFailed e), w1)
         | (Inr resp, w1) \<Rightarrow>
             (if 301 \<le> r_status resp \<and> r_status resp \<le> 308
              then case location resp of
                     None \<Rightarrow> Inl (NoLocation url (r_status resp))
                   | Some loc \<Rightarrow>
                       (case accept_payload_location loc of
                          Inl why \<Rightarrow> Inl (BadLocation url why)
                        | Inr purl \<Rightarrow>
                            Inr (Published \<lparr>revision = rev_no, app = a, request_url = url,
                              payload_url = purl,
                              payload_host = (case host_of purl of Some h \<Rightarrow> h | None \<Rightarrow> [])\<rparr>))
              else if r_status resp = 404 then Inr (NotPublished rev_no a)
              else if r_status resp = 400 then Inl (FetchMetadataRejected url)
              else Inl (UnexpectedStatus url (r_status resp)), w1))"

lemma app_parse_as_str [simp]: "app_parse (app_as_str a) = Some a"
  by (cases a) (simp_all add: app_parse_def)

lemma app_parse_Some: "app_parse s = Some a \<Longrightarrow> s = app_as_str a"
  by (auto simp: app_parse_def split: if_splits)

lemma app_as_str_inj: "app_as_str a = app_as_str b \<longleftrightarrow> a = b"
  by (metis app_parse_as_str option.inject)

text \<open>
  The app names are a closed set: \<open>parse\<close> reads exactly the four names \<open>as_str\<close> prints and refuses
  every other string, and the archive URL is an identifier: it determines the revision and the app.
\<close>

theorem archive_url_identifies:
  "(app_parse s = Some a \<longleftrightarrow> s = app_as_str a)
   \<and> (archive_url r a = archive_url r' a' \<longleftrightarrow> r = r' \<and> a = a')"
proof -
  have "r = r' \<and> a = a'" if "archive_url r a = archive_url r' a'"
  proof -
    have eq: "dec r @ CHR ''/'' # app_as_str a = dec r' @ CHR ''/'' # app_as_str a'"
      using that by (simp add: archive_url_def)
    have no: "CHR ''/'' \<notin> set (dec n)" for n
      by (simp add: char_class_defs digit_chars_def)
    have "takeWhile (\<lambda>c. c \<noteq> CHR ''/'') (dec n @ CHR ''/'' # t) = dec n" for n t
      using no [of n] by (subst takeWhile_append2) auto
    with eq have "dec r = dec r'" by metis
    with eq show ?thesis by (simp add: app_as_str_inj)
  qed
  then show ?thesis using app_parse_Some by auto
qed

text \<open>
  A lookup that reports a published archive saw a redirect of the constant origin whose target it
  admitted: the payload URL is \<open>https\<close>, carries no credentials, its host is the reported one and ends
  in \<open>.fbcdn.net\<close>; the location keeps the revision, the app and the URL that was asked.
\<close>

theorem lookup_published_safe:
  assumes "fst (lookup_archive_with get_redirect w rev_no a) = Inr (Published loc)"
  shows "request_url loc = archive_url rev_no a \<and> revision loc = rev_no \<and> app loc = a
    \<and> host_of (payload_url loc) = Some (payload_host loc)
    \<and> ends_with (payload_host loc) PAYLOAD_HOST_SUFFIX
    \<and> (\<exists>hp tail h. https_parts (payload_url loc) [] hp tail \<and> BSLASH \<notin> set hp \<and> names_host hp h
        \<and> payload_host loc = to_ascii_lowercase h)"
proof -
  obtain resp w1 l purl where
    "get_redirect w (archive_url rev_no a) ARCHIVE_HEADERS REDIRECT_MAX_BYTES = (Inr resp, w1)"
    and l: "location resp = Some l" and acc: "accept_payload_location l = Inr purl"
    and loc: "loc = \<lparr>revision = rev_no, app = a, request_url = archive_url rev_no a, payload_url = purl,
        payload_host = (case host_of purl of Some h \<Rightarrow> h | None \<Rightarrow> [])\<rparr>"
    using assms unfolding lookup_archive_with_def Let_def
    by (auto split: prod.splits sum.splits option.splits if_splits)
  obtain hp tail h where p: "https_parts purl [] hp tail" "BSLASH \<notin> set hp" "names_host hp h"
    "ends_with (to_ascii_lowercase h) PAYLOAD_HOST_SUFFIX"
    using accept_payload_location_parts [OF acc] by blast
  have "host_of purl = Some (to_ascii_lowercase h)"
    using host_of_https [OF p(1)] p(3) by (auto simp: host_of_port_iff)
  with p loc show ?thesis by auto
qed

theorem lookup_published_safe_witness:
  "host_of ''https://x.xx.fbcdn.net/a.zip'' = Some ''x.xx.fbcdn.net''"
proof -
  let ?u = "''https://x.xx.fbcdn.net/a.zip''"
  let ?get = "\<lambda>w url hs n. (Inr \<lparr>r_status = 302, location = Some ?u, r_body = []\<rparr>, w)"
  let ?loc = "\<lparr>revision = 1, app = WhatsApp, request_url = archive_url 1 WhatsApp, payload_url = ?u,
      payload_host = ''x.xx.fbcdn.net''\<rparr>"
  have "accept_payload_location ?u = Inr ?u" "host_of ?u = Some ''x.xx.fbcdn.net''" by code_simp+
  then have "fst (lookup_archive_with ?get () 1 WhatsApp) = Inr (Published ?loc)"
    by (simp add: lookup_archive_with_def)
  from lookup_published_safe [OF this] show ?thesis by simp
qed

end
