(* ===== verification/FreshNames.thy ===== *)
theory FreshNames
  imports Prelude
begin

text \<open>
  The contract shared by the routines that pick a file or identifier name not used so far: the
  on-disk name of a downloaded bundle, the file name recorded for a wasm payload, the unique
  identifiers of the code generator.  Each tries a preferred name and then numbered candidates until
  one is free.  \<open>first_free\<close> is that loop (it may not end, hence the option); the locale
  \<open>name_supply\<close> says what makes it end, \<open>name_allocator\<close> what a client that allocates a whole list of
  names may rely on.
\<close>

partial_function (option) first_free :: "(nat \<Rightarrow> 'a) \<Rightarrow> 'a list \<Rightarrow> nat \<Rightarrow> nat option" where
  "first_free cand used n =
     (if cand n \<in> set used then first_free cand used (Suc n) else Some n)"

lemma first_free_at:
  assumes "n \<le> m" "cand m \<notin> set used" "\<forall>k. n \<le> k \<and> k < m \<longrightarrow> cand k \<in> set used"
  shows "first_free cand used n = Some m"
  using assms
proof (induction "m - n" arbitrary: n)
  case 0
  then show ?case by (subst first_free.simps) auto
next
  case (Suc d)
  then have "first_free cand used (Suc n) = Some m" by auto
  with Suc.prems Suc.hyps(2) show ?case by (subst first_free.simps) auto
qed

locale name_supply =
  fixes cand :: "nat \<Rightarrow> string"
  assumes cand_inj: "cand i = cand j \<Longrightarrow> i = j"
begin

lemma unused_exists: "\<exists>m \<ge> n. cand m \<notin> set used"
proof (rule ccontr)
  assume "\<not> ?thesis"
  then have "cand ` {n..} \<subseteq> set used" by auto
  then have "finite (cand ` {n..})" by (rule finite_subset) simp
  moreover have "inj_on cand {n..}" by (rule inj_onI) (rule cand_inj)
  ultimately have "finite {n..}" by (rule finite_imageD)
  then show False by (simp add: infinite_Ici)
qed

text \<open>The loop ends, at the first candidate that is free.\<close>

lemma first_free_ends:
  "\<exists>m \<ge> n. first_free cand used n = Some m \<and> cand m \<notin> set used \<and>
     (\<forall>k. n \<le> k \<and> k < m \<longrightarrow> cand k \<in> set used)"
proof -
  let ?P = "\<lambda>m. n \<le> m \<and> cand m \<notin> set used"
  obtain m0 where "?P m0" using unused_exists by blast
  then have P: "?P (Least ?P)" by (rule LeastI)
  have "k < Least ?P \<Longrightarrow> \<not> ?P k" for k by (rule not_less_Least)
  with P have "\<forall>k. n \<le> k \<and> k < Least ?P \<longrightarrow> cand k \<in> set used" by blast
  with P first_free_at [of n "Least ?P" cand used] show ?thesis by blast
qed

lemma first_free_SomeD: "first_free cand used n = Some m \<Longrightarrow> cand m \<notin> set used"
  using first_free_ends [of n used] by auto

text \<open>At most one candidate per name in use is tried in vain, which bounds the counter.\<close>

lemma first_free_bound:
  assumes "first_free cand used n = Some m"
  shows "m \<le> n + length used"
proof -
  have "cand ` {n..<m} \<subseteq> set used" using assms first_free_ends [of n used] by auto
  then have "card (cand ` {n..<m}) \<le> card (set used)" by (rule card_mono [rotated]) simp
  moreover have "inj_on cand {n..<m}" by (rule inj_onI) (rule cand_inj)
  ultimately have "m - n \<le> card (set used)" by (simp add: card_image)
  also have "\<dots> \<le> length used" by (rule card_length)
  finally show ?thesis by simp
qed

end

text \<open>Allocating one name per request, each one used from then on.\<close>

fun alloc_run :: "('r \<Rightarrow> 'a list \<Rightarrow> 'a option) \<Rightarrow> 'r list \<Rightarrow> 'a list \<Rightarrow> 'a list option" where
  "alloc_run alloc [] used = Some []"
| "alloc_run alloc (r # rs) used =
     (case alloc r used of
        None \<Rightarrow> None
      | Some n \<Rightarrow> map_option ((#) n) (alloc_run alloc rs (n # used)))"

locale name_allocator =
  fixes alloc :: "'r \<Rightarrow> string list \<Rightarrow> string option"
  assumes alloc_fresh: "\<exists>n. alloc r used = Some n \<and> n \<notin> set used"
begin

lemma alloc_run_distinct:
  "\<exists>ns. alloc_run alloc rs used = Some ns \<and> length ns = length rs \<and> distinct ns
     \<and> set ns \<inter> set used = {}"
proof (induction rs arbitrary: used)
  case (Cons r rs)
  obtain n where n: "alloc r used = Some n" "n \<notin> set used" using alloc_fresh by blast
  obtain ns where "alloc_run alloc rs (n # used) = Some ns" "length ns = length rs"
      "distinct ns" "set ns \<inter> set (n # used) = {}"
    using Cons.IH by blast
  with n show ?case by auto
qed simp

end

text \<open>A name with a decimal counter between two fixed parts.\<close>

lemma numbered_inj: "p @ dec i @ s = p @ dec j @ s \<Longrightarrow> i = j"
  by simp

end
