(* ===== verification/FileSystem.thy ===== *)
theory FileSystem
  imports Prelude
begin

text \<open>
  The part of \<open>std::fs\<close> the program uses.  A file system maps a path (its components from the root)
  to a file or a directory.  A mutating routine is the list of the operations it performs, in order;
  \<open>runs\<close> is what such a list can do: every operation succeeds, or one of them fails or is
  interrupted partway and the rest is not performed.  A write is not atomic (the file may be left with
  a prefix of the bytes), a recursive removal may remove part of the tree, a rename is atomic.
\<close>

type_synonym path = "string list"
datatype node = File bytes | Dir
type_synonym fs = "path \<Rightarrow> node option"

datatype fs_op =
    RemoveFile path
  | RemoveDirAll path
  | CreateDirAll path
  | WriteFile path bytes
  | Rename path path
  | Sweep path "string \<Rightarrow> bool"     \<comment> \<open>remove the selected entries of a directory, stop at an error\<close>
  | Prune path "string \<Rightarrow> bool"     \<comment> \<open>remove the selected files of a directory, ignore errors\<close>

definition read_file :: "fs \<Rightarrow> path \<Rightarrow> bytes option" where
  "read_file fs p = (case fs p of Some (File b) \<Rightarrow> Some b | _ \<Rightarrow> None)"

definition exists_path :: "fs \<Rightarrow> path \<Rightarrow> bool" where
  "exists_path fs p \<longleftrightarrow> fs p \<noteq> None"

definition is_file :: "fs \<Rightarrow> path \<Rightarrow> bool" where
  "is_file fs p \<longleftrightarrow> (case fs p of Some (File b) \<Rightarrow> True | _ \<Rightarrow> False)"

definition child_of :: "path \<Rightarrow> path \<Rightarrow> bool" where
  "child_of d q \<longleftrightarrow> length q = Suc (length d) \<and> starts_with q d"

definition selected :: "path \<Rightarrow> (string \<Rightarrow> bool) \<Rightarrow> path \<Rightarrow> bool" where
  "selected d sel q \<longleftrightarrow> child_of d q \<and> sel (last q)"

fun exec_op :: "fs_op \<Rightarrow> fs \<Rightarrow> fs" where
  "exec_op (RemoveFile p) fs = fs(p := None)"
| "exec_op (RemoveDirAll p) fs = (\<lambda>q. if starts_with q p then None else fs q)"
| "exec_op (CreateDirAll p) fs =
     (\<lambda>q. if starts_with p q \<and> fs q = None then Some Dir else fs q)"
| "exec_op (WriteFile p b) fs = fs(p := Some (File b))"
| "exec_op (Rename p q) fs = (fs(q := fs p))(p := None)"
| "exec_op (Sweep d sel) fs = (\<lambda>q. if selected d sel q \<and> is_file fs q then None else fs q)"
| "exec_op (Prune d sel) fs = (\<lambda>q. if selected d sel q \<and> is_file fs q then None else fs q)"

definition exec_ops :: "fs_op list \<Rightarrow> fs \<Rightarrow> fs" where
  "exec_ops ops fs = fold exec_op ops fs"

text \<open>The states an operation can leave behind when it fails or is interrupted.\<close>

definition subset_removed :: "(path \<Rightarrow> bool) \<Rightarrow> fs \<Rightarrow> fs \<Rightarrow> bool" where
  "subset_removed P fs fs' \<longleftrightarrow> (\<forall>q. fs' q = fs q \<or> (P q \<and> fs' q = None))"

inductive interrupted :: "fs_op \<Rightarrow> fs \<Rightarrow> fs \<Rightarrow> bool" where
  not_done: "interrupted op fs fs"
| part_tree: "subset_removed (\<lambda>q. starts_with q p) fs fs' \<Longrightarrow> interrupted (RemoveDirAll p) fs fs'"
| part_dirs: "(\<forall>q. fs' q = fs q \<or> (starts_with p q \<and> fs q = None \<and> fs' q = Some Dir)) \<Longrightarrow>
     interrupted (CreateDirAll p) fs fs'"
| part_write: "starts_with b b' \<Longrightarrow> interrupted (WriteFile p b) fs (fs(p := Some (File b')))"
| part_sweep: "subset_removed (selected d sel) fs fs' \<Longrightarrow> interrupted (Sweep d sel) fs fs'"
| part_prune: "subset_removed (selected d sel) fs fs' \<Longrightarrow> interrupted (Prune d sel) fs fs'"

inductive runs :: "fs_op list \<Rightarrow> fs \<Rightarrow> bool \<Rightarrow> fs \<Rightarrow> bool" where
  all_done: "runs [] fs True fs"
| op_done: "runs ops (exec_op op fs) ok fs' \<Longrightarrow> runs (op # ops) fs ok fs'"
| op_fails: "interrupted op fs fs' \<Longrightarrow> runs (op # ops) fs False fs'"
| best_effort: "subset_removed (\<lambda>q. selected d sel q \<and> is_file fs q) fs fs' \<Longrightarrow>
     runs ops fs' ok fs'' \<Longrightarrow> runs (Prune d sel # ops) fs ok fs''"

inductive_cases runs_NilE: "runs [] fs ok fs'"
inductive_cases runs_ConsE: "runs (op # ops) fs ok fs'"
inductive_cases interruptedE: "interrupted op fs fs'"
inductive_simps interrupted_simps:
  "interrupted (RemoveFile p) fs fs'" "interrupted (RemoveDirAll p) fs fs'"
  "interrupted (CreateDirAll p) fs fs'" "interrupted (WriteFile p b) fs fs'"
  "interrupted (Rename p q) fs fs'" "interrupted (Sweep d sel) fs fs'"
  "interrupted (Prune d sel) fs fs'"

text \<open>The paths an operation may change.\<close>

fun touches :: "fs_op \<Rightarrow> path \<Rightarrow> bool" where
  "touches (RemoveFile p) q \<longleftrightarrow> q = p"
| "touches (RemoveDirAll p) q \<longleftrightarrow> starts_with q p"
| "touches (CreateDirAll p) q \<longleftrightarrow> starts_with p q"
| "touches (WriteFile p b) q \<longleftrightarrow> q = p"
| "touches (Rename p r) q \<longleftrightarrow> q = p \<or> q = r"
| "touches (Sweep d sel) q \<longleftrightarrow> selected d sel q"
| "touches (Prune d sel) q \<longleftrightarrow> selected d sel q"

lemma exec_op_frame: "\<not> touches op q \<Longrightarrow> exec_op op fs q = fs q"
  by (cases op) auto

lemma interrupted_frame: "interrupted op fs fs' \<Longrightarrow> \<not> touches op q \<Longrightarrow> fs' q = fs q"
  by (induction rule: interrupted.induct) (auto simp: subset_removed_def)

text \<open>What no operation of the list touches, no run of the list changes, complete or not.\<close>

lemma runs_frame:
  "runs ops fs ok fs' \<Longrightarrow> \<forall>op \<in> set ops. \<not> touches op q \<Longrightarrow> fs' q = fs q"
proof (induction rule: runs.induct)
  case (op_done ops op fs ok fs')
  then show ?case by (simp add: exec_op_frame)
next
  case (op_fails op fs fs' ops)
  then show ?case by (simp add: interrupted_frame)
next
  case (best_effort d sel fs fs' ops ok fs'')
  then have "\<not> selected d sel q" by simp
  with best_effort.hyps(1) have "fs' q = fs q" by (auto simp: subset_removed_def)
  with best_effort show ?case by simp
qed simp

lemma runs_append:
  "runs (xs @ ys) fs ok fs' \<Longrightarrow>
   (runs xs fs False fs' \<and> \<not> ok) \<or> (\<exists>fs1. runs xs fs True fs1 \<and> runs ys fs1 ok fs')"
proof (induction xs arbitrary: fs)
  case Nil
  then show ?case by (auto intro: runs.intros)
next
  case (Cons x xs)
  from Cons.prems have "runs (x # xs @ ys) fs ok fs'" by simp
  then consider (go) "runs (xs @ ys) (exec_op x fs) ok fs'"
    | (stop) "\<not> ok" "interrupted x fs fs'"
    | (effort) d sel fs1 where "x = Prune d sel"
        "subset_removed (\<lambda>q. selected d sel q \<and> is_file fs q) fs fs1" "runs (xs @ ys) fs1 ok fs'"
    by (auto elim: runs_ConsE)
  then show ?case
  proof cases
    case go
    from Cons.IH [OF go] show ?thesis by (blast intro: runs.op_done)
  next
    case stop
    then show ?thesis by (blast intro: runs.op_fails)
  next
    case effort
    from Cons.IH [OF effort(3)] effort(1,2) show ?thesis by (blast intro: runs.best_effort)
  qed
qed

lemma runs_exec: "runs ops fs True (exec_ops ops fs)"
  by (induction ops arbitrary: fs) (auto simp: exec_ops_def intro: runs.intros)

text \<open>Without best-effort steps a complete run has exactly the sequential effect.\<close>

fun strict_op :: "fs_op \<Rightarrow> bool" where
  "strict_op (Prune d sel) = False"
| "strict_op _ = True"

lemma runs_True_exec:
  "runs ops fs ok fs' \<Longrightarrow> ok \<Longrightarrow> \<forall>op \<in> set ops. strict_op op \<Longrightarrow> fs' = exec_ops ops fs"
  by (induction rule: runs.induct) (auto simp: exec_ops_def)

lemma exec_ops_simps [simp]:
  "exec_ops [] fs = fs" "exec_ops (op # ops) fs = exec_ops ops (exec_op op fs)"
  "exec_ops (xs @ ys) fs = exec_ops ys (exec_ops xs fs)"
  by (simp_all add: exec_ops_def)

lemma read_file_eq: "fs p = fs' p \<Longrightarrow> read_file fs p = read_file fs' p"
  by (simp add: read_file_def)

text \<open>Writing a list of files: the last write to a path decides its content.\<close>

lemma exec_writes_notin:
  "p \<notin> fst ` set ws \<Longrightarrow> exec_ops (map (\<lambda>(p, b). WriteFile p b) ws) fs p = fs p"
  by (induction ws arbitrary: fs) auto

lemma exec_writes_mem:
  "(p, b) \<in> set ws \<Longrightarrow> distinct (map fst ws) \<Longrightarrow>
   exec_ops (map (\<lambda>(p, b). WriteFile p b) ws) fs p = Some (File b)"
  by (induction ws arbitrary: fs) (auto simp: exec_writes_notin image_iff)

text \<open>
  The same for a run that may stop early, when every write to one path carries the same bytes:
  a complete run leaves exactly those bytes.
\<close>

lemma exec_writes_consistent:
  "p \<in> fst ` set ws \<Longrightarrow> \<forall>(q, c) \<in> set ws. q = p \<longrightarrow> c = b \<Longrightarrow>
   exec_ops (map (\<lambda>(p, b). WriteFile p b) ws) fs p = Some (File b)"
proof (induction ws arbitrary: fs)
  case (Cons w ws)
  then show ?case
    by (cases w; cases "p \<in> fst ` set ws") (auto simp: exec_writes_notin)
qed simp

text \<open>
  Committing a file by writing a sibling and renaming it over the final path: whatever interrupts the
  two operations, the final path holds what it held before or all of the new content.
\<close>

locale staged_commit =
  fixes tmp final :: path
  assumes tmp_final: "tmp \<noteq> final"
begin

lemma commit_runs:
  assumes "runs [WriteFile tmp b, Rename tmp final] fs ok fs'"
  shows "(fs' final = fs final \<and> \<not> ok) \<or> (ok \<and> fs' final = Some (File b))"
  using assms tmp_final by (auto elim!: runs_ConsE runs_NilE simp: interrupted_simps)

lemma commit_frame:
  assumes "runs [WriteFile tmp b, Rename tmp final] fs ok fs'" "q \<noteq> tmp" "q \<noteq> final"
  shows "fs' q = fs q"
  using runs_frame [OF assms(1)] assms(2,3) by simp

end

text \<open>\<open>Path::extension\<close> of a file name.\<close>

definition path_extension :: "string \<Rightarrow> string option" where
  "path_extension n =
     (let e = rsplit_first (\<lambda>c. c = CHR ''.'') n
      in if CHR ''.'' \<notin> set n \<or> length n = Suc (length e) \<or> n = ''..'' then None else Some e)"

end
