(* ===== verification/Download.thy ===== *)
theory Download
  imports UrlPolicy HttpPort FreshNames FileSystem
begin

text \<open>
  \<open>crates/wa-fetch/src/download.rs\<close>: the parallel download and the names bundles are saved under.  The
  worker threads are a step relation over the shared cursor, the shared result list and the state
  of each thread: any interleaving of the threads is a sequence of steps.  The theorems say that
  every schedule ends, and ends in the outcome of a sequential loop.  The SHA-256 digest is the
  parameter \<open>dg\<close>.
\<close>

section \<open>Data\<close>

record bundle_rec =
  b_url :: string
  file_name :: string
  b_bytes :: bytes

datatype fetch_bytes_error = GetError string string | BadStatus nat string

record download_failure =
  f_url :: string
  f_error :: fetch_bytes_error

record download_outcome =
  bundles :: "bundle_rec list"
  dl_failures :: "download_failure list"

record download_options =
  workers :: nat
  max_bytes :: nat

definition default_download_options :: download_options where
  "default_download_options = \<lparr>workers = 16, max_bytes = 256 * 1024 * 1024\<rparr>"

section \<open>File names\<close>

definition sanitize :: "string \<Rightarrow> string" where
  "sanitize s =
     concat (map (\<lambda>u. case u of
         [c] \<Rightarrow> if is_ascii_alphanumeric c \<or> c \<in> set ''._-'' then u else ''_''
       | _ \<Rightarrow> ''_'') (utf8_chars s))"

definition bundle_file_name :: "string \<Rightarrow> string" where
  "bundle_file_name url =
     (let p = hd (split_on (\<lambda>c. c = CHR ''?'' \<or> c = CHR ''#'') url);
          seg = rsplit_first (\<lambda>c. c = SLASH) p
      in if seg = [] then sanitize url else seg)"

definition MAX_BUNDLE_FILE_NAME :: nat where "MAX_BUNDLE_FILE_NAME = 128"
definition MAX_EXTENSION :: nat where "MAX_EXTENSION = 16"

definition disk_ext :: "string \<Rightarrow> string" where
  "disk_ext name =
     (case path_extension name of
        Some e \<Rightarrow> if length e \<le> MAX_EXTENSION \<and> list_all is_ascii_alphanumeric e then e else ''bin''
      | None \<Rightarrow> ''bin'')"

text \<open>The candidates of the fallback loop: \<open>{hash}.{ext}\<close>, then \<open>{hash}-{n}.{ext}\<close> for \<open>n = 1, 2, ...\<close>\<close>

fun disk_candidate :: "string \<Rightarrow> string \<Rightarrow> nat \<Rightarrow> string" where
  "disk_candidate hash ext 0 = hash @ ''.'' @ ext"
| "disk_candidate hash ext (Suc n) = hash @ ''-'' @ dec (Suc n) @ ''.'' @ ext"

definition disk_file_name :: "(bytes \<Rightarrow> bytes) \<Rightarrow> string \<Rightarrow> string \<Rightarrow> string list \<Rightarrow> string option" where
  \<comment> \<open>the name, which the caller adds to \<open>used\<close>; \<open>None\<close> would be a loop that does not end\<close>
  "disk_file_name dg name url used =
     (if length name \<le> MAX_BUNDLE_FILE_NAME \<and> name \<notin> set used then Some name
      else (let cand = disk_candidate (sha256_hex dg url) (disk_ext name)
            in map_option cand (first_free cand used 0)))"

fun save_names :: "(bytes \<Rightarrow> bytes) \<Rightarrow> bundle_rec list \<Rightarrow> string list \<Rightarrow> string list option" where
  "save_names dg [] used = Some []"
| "save_names dg (b # bs) used =
     (case disk_file_name dg (file_name b) (b_url b) used of
        None \<Rightarrow> None
      | Some n \<Rightarrow> map_option ((#) n) (save_names dg bs (n # used)))"

definition save_bundles :: "(bytes \<Rightarrow> bytes) \<Rightarrow> bundle_rec list \<Rightarrow> path \<Rightarrow> fs_op list option" where
  "save_bundles dg bs dir =
     map_option (\<lambda>names. CreateDirAll dir # map (\<lambda>(p, b). WriteFile p b)
         (zip (map (\<lambda>n. dir @ [n]) names) (map b_bytes bs)))
       (save_names dg bs [])"

section \<open>The download\<close>

definition fetch_bytes :: "(string + http_response) \<Rightarrow> string \<Rightarrow> fetch_bytes_error + bytes" where
  \<comment> \<open>on the client's answer to \<open>get(url, [("User-Agent", UA)], max_bytes)\<close>\<close>
  "fetch_bytes answer url =
     (case answer of
        Inl e \<Rightarrow> Inl (GetError url e)
      | Inr resp \<Rightarrow> if \<not> is_success (status resp) then Inl (BadStatus (status resp) url) else Inr (body resp))"

type_synonym item = "download_failure + bundle_rec"

definition download_item :: "string \<Rightarrow> (string + http_response) \<Rightarrow> item" where
  "download_item url answer =
     (case fetch_bytes answer url of
        Inr b \<Rightarrow> Inr \<lparr>b_url = url, file_name = bundle_file_name url, b_bytes = b\<rparr>
      | Inl e \<Rightarrow> Inl \<lparr>f_url = url, f_error = e\<rparr>)"

datatype thread = Ready | Fetching nat | Exited

record download_state =
  cursor :: nat
  results :: "item list"
  threads :: "thread list"

text \<open>\<open>opts.workers.clamp(1, urls.len().max(1))\<close> threads, none of which has taken an index.\<close>

definition start_download :: "download_options \<Rightarrow> string list \<Rightarrow> download_state" where
  "start_download opts us =
     \<lparr>cursor = 0, results = [],
      threads = replicate (max 1 (min (workers opts) (max (length us) 1))) Ready\<rparr>"

text \<open>
  One atomic action of one thread: taking the next index (\<open>fetch_add\<close>), leaving the loop, or pushing the
  result of a fetch under the lock.  \<open>answer url\<close> holds of the answers the client may give.
\<close>

inductive download_step ::
    "(string \<Rightarrow> (string + http_response) \<Rightarrow> bool) \<Rightarrow> string list \<Rightarrow> download_state \<Rightarrow> download_state \<Rightarrow> bool"
  for answer us where
  take_index: "t < length (threads s) \<Longrightarrow> threads s ! t = Ready \<Longrightarrow> cursor s < length us \<Longrightarrow>
     download_step answer us s
       (s\<lparr>cursor := cursor s + 1, threads := (threads s)[t := Fetching (cursor s)]\<rparr>)"
| leave: "t < length (threads s) \<Longrightarrow> threads s ! t = Ready \<Longrightarrow> length us \<le> cursor s \<Longrightarrow>
     download_step answer us s
       (s\<lparr>cursor := cursor s + 1, threads := (threads s)[t := Exited]\<rparr>)"
| push_result: "t < length (threads s) \<Longrightarrow> threads s ! t = Fetching i \<Longrightarrow> answer (us ! i) a \<Longrightarrow>
     download_step answer us s
       (s\<lparr>results := results s @ [download_item (us ! i) a], threads := (threads s)[t := Ready]\<rparr>)"

definition all_exited :: "download_state \<Rightarrow> bool" where
  "all_exited s \<longleftrightarrow> list_all (\<lambda>t. t = Exited) (threads s)"

fun succeeded :: "item list \<Rightarrow> bundle_rec list" where
  "succeeded [] = []"
| "succeeded (Inr b # rs) = b # succeeded rs"
| "succeeded (Inl f # rs) = succeeded rs"

fun failed :: "item list \<Rightarrow> download_failure list" where
  "failed [] = []"
| "failed (Inl f # rs) = f # failed rs"
| "failed (Inr b # rs) = failed rs"

definition outcome_of :: "item list \<Rightarrow> download_outcome" where
  "outcome_of rs =
     \<lparr>bundles = sort_key b_url (succeeded rs), dl_failures = sort_key f_url (failed rs)\<rparr>"

text \<open>The specification: one loop over the URLs.\<close>

definition sequential :: "(string \<Rightarrow> string + http_response) \<Rightarrow> string list \<Rightarrow> download_outcome" where
  "sequential get us = outcome_of (map (\<lambda>u. download_item u (get u)) us)"

section \<open>Names on disk\<close>

lemma disk_candidate_inj:
  assumes "disk_candidate (sha256_hex dg url) ext i = disk_candidate (sha256_hex dg url) ext j"
  shows "i = j"
proof -
  have "disk_candidate h ext 0 \<noteq> disk_candidate h ext (Suc n)" for h ext n by simp
  with assms show ?thesis by (cases i; cases j) (fastforce, metis, metis, simp)
qed

interpretation disk: name_supply "disk_candidate (sha256_hex dg url) ext" for dg url ext
  by unfold_locales (rule disk_candidate_inj)

lemma disk_file_name_cases:
  "(disk_file_name dg name url used = Some name \<and> length name \<le> MAX_BUNDLE_FILE_NAME \<and> name \<notin> set used)
   \<or> (\<exists>m. disk_file_name dg name url used = Some (disk_candidate (sha256_hex dg url) (disk_ext name) m)
        \<and> disk_candidate (sha256_hex dg url) (disk_ext name) m \<notin> set used)"
proof (cases "length name \<le> MAX_BUNDLE_FILE_NAME \<and> name \<notin> set used")
  case False
  obtain m where "first_free (disk_candidate (sha256_hex dg url) (disk_ext name)) used 0 = Some m"
    "disk_candidate (sha256_hex dg url) (disk_ext name) m \<notin> set used"
    using disk.first_free_ends [of 0 dg url "disk_ext name" used] by blast
  with False show ?thesis by (auto simp: disk_file_name_def)
qed (simp add: disk_file_name_def)

interpretation disk_names: name_allocator "\<lambda>b. disk_file_name dg (file_name b) (b_url b)" for dg
proof unfold_locales
  fix b used
  show "\<exists>n. disk_file_name dg (file_name b) (b_url b) used = Some n \<and> n \<notin> set used"
    using disk_file_name_cases [of dg "file_name b" "b_url b" used] by blast
qed

lemma save_names_alloc:
  "save_names dg bs used = alloc_run (\<lambda>b. disk_file_name dg (file_name b) (b_url b)) bs used"
  by (induction bs arbitrary: used) (simp_all split: option.split)

lemma disk_ext_bound: "length (disk_ext name) \<le> MAX_EXTENSION"
  by (simp add: disk_ext_def MAX_EXTENSION_def split: option.split)

text \<open>The extension a reader selects payloads by.\<close>

lemma path_extension_dot:
  assumes "CHR ''.'' \<notin> set ext" "h \<noteq> []" "h @ ''.'' @ ext \<noteq> ''..''"
  shows "path_extension (h @ ''.'' @ ext) = Some ext"
proof -
  have "rsplit_first (\<lambda>c. c = CHR ''.'') (h @ ''.'' @ ext) = ext"
    using rsplit_first_append_sep [of ext "\<lambda>c. c = CHR ''.''" "CHR ''.''" h] assms(1) by auto
  with assms show ?thesis by (simp add: path_extension_def)
qed

lemma alnum_not_dot: "list_all is_ascii_alphanumeric e \<Longrightarrow> CHR ''.'' \<notin> set e"
proof -
  have "\<not> is_ascii_alphanumeric CHR ''.''" by code_simp
  then show "list_all is_ascii_alphanumeric e \<Longrightarrow> CHR ''.'' \<notin> set e" by (auto simp: list_all_iff)
qed

lemma disk_ext_kept:
  assumes "path_extension name = Some e" "length e \<le> MAX_EXTENSION" "list_all is_ascii_alphanumeric e"
  shows "disk_ext name = e"
  using assms by (simp add: disk_ext_def)

text \<open>
  Saving a set of bundles never writes two of them to one file and always ends: the fallback loop
  finds a name for every bundle, the names are pairwise different, and the operations are the
  directory and one write per bundle, in order.
\<close>

theorem save_bundles_distinct:
  "\<exists>names. save_bundles dg bs dir =
      Some (CreateDirAll dir # map (\<lambda>(n, b). WriteFile (dir @ [n]) (b_bytes b)) (zip names bs))
    \<and> length names = length bs \<and> distinct names"
proof -
  obtain names where "save_names dg bs [] = Some names" "length names = length bs" "distinct names"
    using disk_names.alloc_run_distinct [of dg bs "[]"] by (auto simp: save_names_alloc)
  moreover have "map (\<lambda>(p, b). WriteFile p b) (zip (map (\<lambda>n. dir @ [n]) names) (map b_bytes bs))
      = map (\<lambda>(n, b). WriteFile (dir @ [n]) (b_bytes b)) (zip names bs)"
    by (simp add: zip_map_map split_def)
  ultimately show ?thesis by (auto simp: save_bundles_def)
qed

text \<open>
  The name a bundle is saved under keeps a usable extension: when the URL segment ends in a short
  alphanumeric extension, so does the file name, whether the readable name was free or the hash
  fallback was taken; so the readers that select by extension still find the payload.
\<close>

theorem disk_file_name_keeps_extension:
  assumes "path_extension name = Some e" "length e \<le> MAX_EXTENSION" "list_all is_ascii_alphanumeric e"
    and "dg url \<noteq> []" and "disk_file_name dg name url used = Some n"
  shows "path_extension n = Some e"
proof -
  let ?h = "sha256_hex dg url"
  have h: "?h \<noteq> []" using assms(4) length_sha256_hex [of dg url] by (cases "?h") auto
  have nd: "CHR ''.'' \<notin> set e" using assms(3) by (rule alnum_not_dot)
  have hd: "CHR ''.'' \<notin> set ?h" by (rule hex_lacks) (simp add: lower_hex_def)
  have "path_extension (disk_candidate ?h e m) = Some e" for m
  proof (cases m)
    case 0
    have "?h @ ''.'' @ e \<noteq> ''..''" using h hd by (cases ?h) auto
    with 0 show ?thesis using path_extension_dot [OF nd h] by simp
  next
    case (Suc k)
    have "(?h @ ''-'' @ dec (Suc k)) @ ''.'' @ e \<noteq> ''..''" using h hd by (cases ?h) auto
    with Suc show ?thesis using path_extension_dot [OF nd, of "?h @ ''-'' @ dec (Suc k)"] by simp
  qed
  with disk_file_name_cases [of dg name url used] assms disk_ext_kept [OF assms(1-3)]
  show ?thesis by auto
qed

theorem disk_file_name_keeps_extension_witness:
  "path_extension (the (disk_file_name (\<lambda>_. ''k'') ''a.js'' ''u'' [''a.js''])) = Some ''js''"
proof -
  have "\<exists>n. disk_file_name (\<lambda>_. ''k'') ''a.js'' ''u'' [''a.js''] = Some n"
    using disk_file_name_cases [of "\<lambda>_. ''k''" "''a.js''" "''u''" "[''a.js'']"] by blast
  then obtain n where n: "disk_file_name (\<lambda>_. ''k'') ''a.js'' ''u'' [''a.js''] = Some n" ..
  have "path_extension ''a.js'' = Some ''js''" "list_all is_ascii_alphanumeric ''js''" by code_simp+
  from disk_file_name_keeps_extension [OF this(1) _ this(2) _ n] n show ?thesis
    by (simp add: MAX_EXTENSION_def)
qed

section \<open>Every schedule ends in the sequential outcome\<close>

text \<open>
  The results pushed and the items of the fetches in flight are together the items of the URLs taken
  so far.
\<close>

fun in_flight :: "(nat \<Rightarrow> item) \<Rightarrow> thread \<Rightarrow> item multiset" where
  "in_flight it (Fetching i) = {#it i#}"
| "in_flight it _ = {#}"

definition accounted :: "(nat \<Rightarrow> item) \<Rightarrow> string list \<Rightarrow> download_state \<Rightarrow> bool" where
  "accounted it us s \<longleftrightarrow>
     mset (results s) + \<Sum>\<^sub># (image_mset (in_flight it) (mset (threads s)))
       = mset (map it [0..<min (cursor s) (length us)])
     \<and> (Exited \<in> set (threads s) \<longrightarrow> length us \<le> cursor s)"

lemma sum_threads_update:
  "t < length ts \<Longrightarrow>
   \<Sum>\<^sub># (image_mset f (mset (ts[t := v]))) + f (ts ! t) = \<Sum>\<^sub># (image_mset f (mset ts)) + (f v :: 'a multiset)"
proof (induction ts arbitrary: t)
  case (Cons x xs)
  show ?case
  proof (cases t)
    case (Suc k)
    with Cons have "\<Sum>\<^sub># (image_mset f (mset (xs[k := v]))) + f (xs ! k) = \<Sum>\<^sub># (image_mset f (mset xs)) + f v"
      by simp
    with Suc show ?thesis by (simp add: add.assoc)
  qed (simp add: ac_simps)
qed simp

lemma accounted_step:
  assumes "download_step (\<lambda>u r. r = get u) us s s'"
    and "accounted (\<lambda>i. download_item (us ! i) (get (us ! i))) us s"
  shows "accounted (\<lambda>i. download_item (us ! i) (get (us ! i))) us s'"
  using assms
proof (induction rule: download_step.induct)
  case (take_index t s)
  let ?it = "\<lambda>i. download_item (us ! i) (get (us ! i))"
  have "min (cursor s + 1) (length us) = Suc (cursor s)" "min (cursor s) (length us) = cursor s"
    using take_index.hyps by simp_all
  moreover have "Exited \<notin> set ((threads s)[t := Fetching (cursor s)])"
    using take_index by (auto simp: accounted_def dest!: set_update_subset_insert [THEN subsetD])
  ultimately show ?case
    using take_index sum_threads_update [of t "threads s" "in_flight ?it" "Fetching (cursor s)"]
    by (simp add: accounted_def)
next
  case (leave t s)
  then show ?case
    using sum_threads_update [of t "threads s" "in_flight (\<lambda>i. download_item (us ! i) (get (us ! i)))" Exited]
    by (simp add: accounted_def min_def)
next
  case (push_result t s i a)
  let ?it = "\<lambda>i. download_item (us ! i) (get (us ! i))"
  let ?S = "\<lambda>ts. \<Sum>\<^sub># (image_mset (in_flight ?it) (mset ts))"
  have S: "?S (threads s) = add_mset (?it i) (?S ((threads s)[t := Ready]))"
    using push_result sum_threads_update [of t "threads s" "in_flight ?it" Ready] by simp
  have "Exited \<in> set ((threads s)[t := Ready]) \<Longrightarrow> Exited \<in> set (threads s)"
    by (auto dest!: set_update_subset_insert [THEN subsetD])
  moreover have "mset (results s) + ?S (threads s) = mset (map ?it [0..<min (cursor s) (length us)])"
    "Exited \<in> set (threads s) \<longrightarrow> length us \<le> cursor s"
    using push_result.prems by (simp_all add: accounted_def)
  ultimately show ?case using push_result.hyps(3) unfolding S by (simp add: accounted_def)
qed

lemma accounted_start: "accounted it us (start_download opts us)"
  by (simp add: accounted_def start_download_def)

lemma accounted_reachable:
  assumes "(download_step (\<lambda>u r. r = get u) us)\<^sup>*\<^sup>* (start_download opts us) s"
  shows "accounted (\<lambda>i. download_item (us ! i) (get (us ! i))) us s"
  using assms by (induction rule: rtranclp_induct) (auto intro: accounted_start accounted_step)

lemma threads_length_step: "download_step answer us s s' \<Longrightarrow> length (threads s') = length (threads s)"
  by (induction rule: download_step.induct) simp_all

lemma threads_reachable:
  assumes "(download_step answer us)\<^sup>*\<^sup>* (start_download opts us) s"
  shows "threads s \<noteq> []"
proof -
  have "length (threads s) = length (threads (start_download opts us))"
    using assms by (induction rule: rtranclp_induct) (auto dest: threads_length_step)
  then show ?thesis by (auto simp: start_download_def)
qed

lemma mset_succeeded: "mset rs = mset rs' \<Longrightarrow> mset (succeeded rs) = mset (succeeded rs')"
proof -
  have "mset (succeeded rs) = image_mset projr (filter_mset (\<lambda>r. \<not> isl r) (mset rs))" for rs
    by (induction rs rule: succeeded.induct) simp_all
  then show "mset rs = mset rs' \<Longrightarrow> mset (succeeded rs) = mset (succeeded rs')" by simp
qed

lemma mset_failed: "mset rs = mset rs' \<Longrightarrow> mset (failed rs) = mset (failed rs')"
proof -
  have "mset (failed rs) = image_mset projl (filter_mset isl (mset rs))" for rs
    by (induction rs rule: failed.induct) simp_all
  then show "mset rs = mset rs' \<Longrightarrow> mset (failed rs) = mset (failed rs')" by simp
qed

lemma set_succeeded: "b \<in> set (succeeded rs) \<longleftrightarrow> Inr b \<in> set rs"
  by (induction rs rule: succeeded.induct) auto

lemma set_failed: "f \<in> set (failed rs) \<longleftrightarrow> Inl f \<in> set rs"
  by (induction rs rule: failed.induct) auto

lemma download_item_url:
  "download_item u a = Inr b \<Longrightarrow> b_url b = u" "download_item u a = Inl f \<Longrightarrow> f_url f = u"
  by (auto simp: download_item_def split: sum.splits)

lemma outcome_of_mset:
  assumes "mset rs = mset (map (\<lambda>u. download_item u (get u)) us)"
  shows "outcome_of rs = sequential get us"
proof -
  let ?ref = "map (\<lambda>u. download_item u (get u)) us"
  have sets: "set rs = set ?ref" using assms by (rule mset_eq_setD)
  have "inj_on b_url (set (succeeded rs))"
  proof (rule inj_onI)
    fix b c assume "b \<in> set (succeeded rs)" "c \<in> set (succeeded rs)" "b_url b = b_url c"
    moreover from this obtain u v where "download_item u (get u) = Inr b" "download_item v (get v) = Inr c"
      by (auto simp: set_succeeded sets)
    ultimately show "b = c" using download_item_url(1) by (metis sum.inject(2))
  qed
  moreover have "inj_on f_url (set (failed rs))"
  proof (rule inj_onI)
    fix b c assume "b \<in> set (failed rs)" "c \<in> set (failed rs)" "f_url b = f_url c"
    moreover from this obtain u v where "download_item u (get u) = Inl b" "download_item v (get v) = Inl c"
      by (auto simp: set_failed sets)
    ultimately show "b = c" using download_item_url(2) by (metis sum.inject(1))
  qed
  ultimately show ?thesis
    using mset_succeeded [OF assms] mset_failed [OF assms]
    by (simp add: outcome_of_def sequential_def sort_key_mset_unique)
qed

text \<open>
  C3: the outcome of a download does not depend on the thread schedule.  When the client's answers depend
  on the URL only, every reachable state in which all threads have left holds exactly the bundles
  and failures of one sequential loop over the URLs, in the same order, for any number of workers.
\<close>

theorem download_schedule_independent:
  assumes "(download_step (\<lambda>u r. r = get u) us)\<^sup>*\<^sup>* (start_download opts us) s" and "all_exited s"
  shows "outcome_of (results s) = sequential get us"
proof -
  have acc: "accounted (\<lambda>i. download_item (us ! i) (get (us ! i))) us s"
    by (rule accounted_reachable [OF assms(1)])
  have ex: "\<forall>t \<in> set (threads s). t = Exited" using assms(2) by (simp add: all_exited_def list_all_iff)
  with threads_reachable [OF assms(1)] have "Exited \<in> set (threads s)"
    by (metis last_in_set)
  with acc have "length us \<le> cursor s" by (simp add: accounted_def)
  then have "min (cursor s) (length us) = length us" by simp
  moreover have "\<Sum>\<^sub># (image_mset (in_flight f) (mset (threads s))) = {#}" for f
  proof -
    have "\<forall>t \<in># mset (threads s). in_flight f t = {#}" using ex by fastforce
    then show ?thesis by (simp add: sum_mset_0_iff)
  qed
  ultimately have "mset (results s) = mset (map (\<lambda>i. download_item (us ! i) (get (us ! i))) [0..<length us])"
    using acc unfolding accounted_def by (metis (no_types, lifting) add.right_neutral)
  also have "map (\<lambda>i. download_item (us ! i) (get (us ! i))) [0..<length us]
      = map (\<lambda>u. download_item u (get u)) us"
    by (rule nth_equalityI) simp_all
  finally show ?thesis by (rule outcome_of_mset)
qed

definition sample_get :: "string \<Rightarrow> string + http_response" where
  "sample_get u = (if u = ''a.js'' then Inr \<lparr>status = 200, body = ''x''\<rparr> else Inl ''down'')"

theorem download_schedule_independent_witness:
  "outcome_of [download_item ''b.js'' (sample_get ''b.js''), download_item ''a.js'' (sample_get ''a.js'')]
   = sequential sample_get [''a.js'', ''b.js'']"
proof -
  let ?us = "[''a.js'', ''b.js'']"
  let ?i = "\<lambda>u. download_item u (sample_get u)"
  let ?step = "download_step (\<lambda>u r. r = sample_get u) ?us"
  let ?st = "\<lambda>c r ts. \<lparr>cursor = c, results = r, threads = ts\<rparr> :: download_state"
  note t = take_index [where answer = "\<lambda>u r. r = sample_get u" and us = ?us]
  note p = push_result [where answer = "\<lambda>u r. r = sample_get u" and us = ?us]
  note l = leave [where answer = "\<lambda>u r. r = sample_get u" and us = ?us]
  have start: "start_download \<lparr>workers = 2, max_bytes = 9\<rparr> ?us = ?st 0 [] [Ready, Ready]"
    by (simp add: start_download_def numeral_2_eq_2)
  have 1: "?step (?st 0 [] [Ready, Ready]) (?st (Suc 0) [] [Fetching 0, Ready])"
    using t [of 0 "?st 0 [] [Ready, Ready]"] by simp
  have 2: "?step (?st (Suc 0) [] [Fetching 0, Ready]) (?st (Suc (Suc 0)) [] [Fetching 0, Fetching (Suc 0)])"
    using t [of 1 "?st (Suc 0) [] [Fetching 0, Ready]"] by simp
  have 3: "?step (?st (Suc (Suc 0)) [] [Fetching 0, Fetching (Suc 0)]) (?st (Suc (Suc 0)) [?i ''b.js''] [Fetching 0, Ready])"
    using p [of 1 "?st (Suc (Suc 0)) [] [Fetching 0, Fetching (Suc 0)]" 1] by simp
  have 4: "?step (?st (Suc (Suc 0)) [?i ''b.js''] [Fetching 0, Ready]) (?st (Suc (Suc (Suc 0))) [?i ''b.js''] [Fetching 0, Exited])"
    using l [of 1 "?st (Suc (Suc 0)) [?i ''b.js''] [Fetching 0, Ready]"] by simp
  have 5: "?step (?st (Suc (Suc (Suc 0))) [?i ''b.js''] [Fetching 0, Exited]) (?st (Suc (Suc (Suc 0))) [?i ''b.js'', ?i ''a.js''] [Ready, Exited])"
    using p [of 0 "?st (Suc (Suc (Suc 0))) [?i ''b.js''] [Fetching 0, Exited]" 0] by simp
  have 6: "?step (?st (Suc (Suc (Suc 0))) [?i ''b.js'', ?i ''a.js''] [Ready, Exited]) (?st (Suc (Suc (Suc (Suc 0)))) [?i ''b.js'', ?i ''a.js''] [Exited, Exited])"
    using l [of 0 "?st (Suc (Suc (Suc 0))) [?i ''b.js'', ?i ''a.js''] [Ready, Exited]"] by simp
  from 1 2 3 4 5 6 have "?step\<^sup>*\<^sup>* (start_download \<lparr>workers = 2, max_bytes = 9\<rparr> ?us)
      (?st (Suc (Suc (Suc (Suc 0)))) [?i ''b.js'', ?i ''a.js''] [Exited, Exited])"
    unfolding start by (meson converse_rtranclp_into_rtranclp rtranclp.rtrancl_refl)
  from download_schedule_independent [OF this] show ?thesis by (simp add: all_exited_def)
qed

section \<open>Every schedule ends\<close>

fun thread_work :: "thread \<Rightarrow> nat" where
  "thread_work (Fetching i) = 2"
| "thread_work Ready = 1"
| "thread_work Exited = 0"

definition work :: "string list \<Rightarrow> download_state \<Rightarrow> nat" where
  "work us s = 2 * (length us - cursor s) + sum_list (map thread_work (threads s))"

lemma sum_list_update_eq:
  "t < length xs \<Longrightarrow> sum_list (map f (xs[t := v])) + f (xs ! t) = sum_list (map f xs) + (f v :: nat)"
proof (induction xs arbitrary: t)
  case (Cons x xs)
  then show ?case by (cases t) fastforce+
qed simp

lemma work_decreases: "download_step answer us s s' \<Longrightarrow> work us s' < work us s"
proof (induction rule: download_step.induct)
  case (take_index t s)
  then show ?case
    using sum_list_update_eq [of t "threads s" thread_work "Fetching (cursor s)"] by (simp add: work_def)
next
  case (leave t s)
  then show ?case
    using sum_list_update_eq [of t "threads s" thread_work Exited] by (simp add: work_def)
next
  case (push_result t s i a)
  then show ?case
    using sum_list_update_eq [of t "threads s" thread_work Ready] by (simp add: work_def)
qed

lemma step_exists:
  assumes "\<And>u. \<exists>a. answer u a" and "\<not> all_exited s"
  shows "\<exists>s'. download_step answer us s s'"
proof -
  from assms(2) obtain t where t: "t < length (threads s)" "threads s ! t \<noteq> Exited"
    by (auto simp: all_exited_def list_all_length)
  show ?thesis
  proof (cases "threads s ! t")
    case Ready
    with t show ?thesis by (cases "cursor s < length us") (auto intro: take_index leave simp: not_less)
  next
    case (Fetching i)
    obtain a where "answer (us ! i) a" using assms(1) by blast
    with t Fetching show ?thesis by (blast intro: push_result)
  qed (use t in simp)
qed

text \<open>
  C37: the download always ends, whatever the client answers (as long as it answers) and however the
  threads are scheduled: a state in which some thread has not left can always step, every step
  decreases a measure, so from every state the threads reach the state in which all have left.
\<close>

theorem download_ends:
  assumes "\<And>u. \<exists>a. answer u a"
  shows "(\<not> all_exited s \<longrightarrow> (\<exists>s'. download_step answer us s s'))
    \<and> (\<forall>s'. download_step answer us s s' \<longrightarrow> work us s' < work us s)
    \<and> (\<exists>s'. (download_step answer us)\<^sup>*\<^sup>* s s' \<and> all_exited s')"
proof -
  have "\<exists>s'. (download_step answer us)\<^sup>*\<^sup>* s s' \<and> all_exited s'"
  proof (induction "work us s" arbitrary: s rule: less_induct)
    case less
    show ?case
    proof (cases "all_exited s")
      case False
      obtain s1 where s1: "download_step answer us s s1" using step_exists [of answer s us, OF assms False] by blast
      from less [OF work_decreases [OF s1]] s1 show ?thesis
        by (meson converse_rtranclp_into_rtranclp)
    qed blast
  qed
  then show ?thesis using step_exists [of answer s us, OF assms] work_decreases by blast
qed

theorem download_ends_witness:
  "\<exists>s'. (download_step (\<lambda>u a. a = Inl ''refused'') [''a'', ''b''])\<^sup>*\<^sup>*
     (start_download default_download_options [''a'', ''b'']) s' \<and> all_exited s'"
  using download_ends [of "\<lambda>u a. a = Inl ''refused''"] by blast

end
