(* ===== verification/Cache.thy ===== *)
theory Cache
  imports Download Json
begin

text \<open>
  \<open>crates/wa-fetch/src/cache.rs\<close>: the version-keyed bundle cache.  An operation that writes is the list
  of file system operations it performs (theory \<open>FileSystem\<close>), in its order, so that \<open>runs\<close> gives
  every way it can fail or be interrupted.  \<open>ser\<close>/\<open>de\<close> stand for \<open>serde_json\<close> on the manifest type
  (\<open>de\<close> is \<open>None\<close> on bytes that are not UTF-8 or do not parse), \<open>dg\<close> for SHA-256, \<open>dir\<close> for the root.
\<close>

section \<open>Data\<close>

definition MANIFEST_NAME :: string where "MANIFEST_NAME = ''manifest.json''"
definition MANIFEST_TMP :: string where "MANIFEST_TMP = ''manifest.json.tmp''"
definition BUNDLES_DIR :: string where "BUNDLES_DIR = ''bundles''"
definition WASM_DIR :: string where "WASM_DIR = ''wasm''"

record bundle_entry =
  e_url :: string
  e_file_name :: string
  e_sha256 :: string
  e_size :: nat

record cache_manifest =
  m_wa_version :: string
  complete :: bool
  m_bundles :: "bundle_entry list"
  m_wasm :: "bundle_entry list"
  m_wasm_handles :: "(string, string) btree"

datatype miss_reason =
    NoManifest
  | Incomplete
  | VersionChanged string string
  | MissingFile string
  | SizeMismatch string
  | ChecksumMismatch string

datatype cache_status = Hit "bundle_rec list" | Miss miss_reason

section \<open>Paths\<close>

definition cache_file_name :: "(bytes \<Rightarrow> bytes) \<Rightarrow> string \<Rightarrow> string" where
  "cache_file_name dg url = sha256_hex dg url"

definition manifest_path :: "path \<Rightarrow> path" where "manifest_path dir = dir @ [MANIFEST_NAME]"
definition manifest_tmp :: "path \<Rightarrow> path" where "manifest_tmp dir = dir @ [MANIFEST_TMP]"
definition bundles_dir :: "path \<Rightarrow> path" where "bundles_dir dir = dir @ [BUNDLES_DIR]"
definition wasm_dir :: "path \<Rightarrow> path" where "wasm_dir dir = dir @ [WASM_DIR]"

definition bundle_path :: "(bytes \<Rightarrow> bytes) \<Rightarrow> path \<Rightarrow> string \<Rightarrow> path" where
  "bundle_path dg dir url = bundles_dir dir @ [cache_file_name dg url]"

definition wasm_path :: "(bytes \<Rightarrow> bytes) \<Rightarrow> path \<Rightarrow> string \<Rightarrow> path" where
  "wasm_path dg dir url = wasm_dir dir @ [cache_file_name dg url]"

section \<open>Reading\<close>

definition read_manifest :: "(bytes \<Rightarrow> cache_manifest option) \<Rightarrow> path \<Rightarrow> fs \<Rightarrow> cache_manifest option" where
  "read_manifest de dir fs = Option.bind (read_file fs (manifest_path dir)) de"

definition usable_manifest ::
    "(bytes \<Rightarrow> cache_manifest option) \<Rightarrow> path \<Rightarrow> fs \<Rightarrow> string \<Rightarrow> miss_reason + cache_manifest" where
  "usable_manifest de dir fs remote_version =
     (case read_manifest de dir fs of
        None \<Rightarrow> Inl NoManifest
      | Some m \<Rightarrow>
          if \<not> complete m then Inl Incomplete
          else if m_wa_version m \<noteq> remote_version then Inl (VersionChanged (m_wa_version m) remote_version)
          else Inr m)"

definition load_one :: "(bytes \<Rightarrow> bytes) \<Rightarrow> fs \<Rightarrow> path \<Rightarrow> bundle_entry \<Rightarrow> miss_reason + bundle_rec" where
  "load_one dg fs d entry =
     (case read_file fs (d @ [cache_file_name dg (e_url entry)]) of
        None \<Rightarrow> Inl (MissingFile (e_file_name entry))
      | Some b \<Rightarrow>
          if length b \<noteq> e_size entry then Inl (SizeMismatch (e_file_name entry))
          else if sha256_hex dg b \<noteq> e_sha256 entry then Inl (ChecksumMismatch (e_file_name entry))
          else Inr \<lparr>b_url = e_url entry, file_name = e_file_name entry, b_bytes = b\<rparr>)"

fun load_all :: "(bundle_entry \<Rightarrow> miss_reason + bundle_rec) \<Rightarrow> bundle_entry list \<Rightarrow> miss_reason + bundle_rec list" where
  "load_all f [] = Inr []"
| "load_all f (e # es) =
     (case f e of
        Inl why \<Rightarrow> Inl why
      | Inr b \<Rightarrow> (case load_all f es of Inl why \<Rightarrow> Inl why | Inr bs \<Rightarrow> Inr (b # bs)))"

definition load_set :: "(bytes \<Rightarrow> bytes) \<Rightarrow> fs \<Rightarrow> bundle_entry list \<Rightarrow> path \<Rightarrow> cache_status" where
  "load_set dg fs entries d =
     (case load_all (load_one dg fs d) entries of Inl why \<Rightarrow> Miss why | Inr bs \<Rightarrow> Hit bs)"

definition check ::
    "(bytes \<Rightarrow> cache_manifest option) \<Rightarrow> (bytes \<Rightarrow> bytes) \<Rightarrow> path \<Rightarrow> fs \<Rightarrow> string \<Rightarrow> cache_status" where
  "check de dg dir fs remote_version =
     (case usable_manifest de dir fs remote_version of
        Inl miss \<Rightarrow> Miss miss
      | Inr m \<Rightarrow> load_set dg fs (m_bundles m) (bundles_dir dir))"

fun partition_results :: "('e + 'a) list \<Rightarrow> 'a list \<times> 'e list" where
  "partition_results [] = ([], [])"
| "partition_results (Inr x # rs) = (let (xs, es) = partition_results rs in (x # xs, es))"
| "partition_results (Inl e # rs) = (let (xs, es) = partition_results rs in (xs, e # es))"

definition wasm_payloads ::
    "(bytes \<Rightarrow> cache_manifest option) \<Rightarrow> (bytes \<Rightarrow> bytes) \<Rightarrow> path \<Rightarrow> fs \<Rightarrow> string
     \<Rightarrow> bundle_rec list \<times> miss_reason list" where
  "wasm_payloads de dg dir fs remote_version =
     (case usable_manifest de dir fs remote_version of
        Inl why \<Rightarrow> ([], [why])
      | Inr m \<Rightarrow> partition_results (map (load_one dg fs (wasm_dir dir)) (m_wasm m)))"

definition wasm_handles ::
    "(bytes \<Rightarrow> cache_manifest option) \<Rightarrow> path \<Rightarrow> fs \<Rightarrow> string \<Rightarrow> (string, string) btree" where
  "wasm_handles de dir fs version =
     (case read_manifest de dir fs of
        Some m \<Rightarrow> if m_wa_version m = version then m_wasm_handles m else []
      | None \<Rightarrow> [])"

section \<open>Writing\<close>

definition entry_of :: "(bytes \<Rightarrow> bytes) \<Rightarrow> bundle_rec \<Rightarrow> bundle_entry" where
  "entry_of dg b =
     \<lparr>e_url = b_url b, e_file_name = file_name b, e_sha256 = sha256_hex dg (b_bytes b),
      e_size = length (b_bytes b)\<rparr>"

definition write_set :: "(bytes \<Rightarrow> bytes) \<Rightarrow> bundle_rec list \<Rightarrow> path \<Rightarrow> fs_op list" where
  "write_set dg bs d =
     CreateDirAll d # map (\<lambda>(p, b). WriteFile p b)
       (map (\<lambda>b. (d @ [cache_file_name dg (b_url b)], b_bytes b)) bs)"

definition write_manifest :: "(cache_manifest \<Rightarrow> bytes) \<Rightarrow> path \<Rightarrow> cache_manifest \<Rightarrow> fs_op list" where
  "write_manifest ser dir m =
     [WriteFile (manifest_tmp dir) (ser m @ [CHR 0x0A]), Rename (manifest_tmp dir) (manifest_path dir)]"

definition clear :: "path \<Rightarrow> fs \<Rightarrow> fs_op list" where
  "clear dir fs =
     (if exists_path fs (manifest_path dir) then [RemoveFile (manifest_path dir)] else [])
     @ concat (map (\<lambda>d. if exists_path fs d then [RemoveDirAll d] else []) [bundles_dir dir, wasm_dir dir])"

definition new_manifest :: "(bytes \<Rightarrow> bytes) \<Rightarrow> string \<Rightarrow> bundle_rec list \<Rightarrow> cache_manifest" where
  "new_manifest dg version bs =
     \<lparr>m_wa_version = version, complete = True, m_bundles = map (entry_of dg) bs, m_wasm = [],
      m_wasm_handles = []\<rparr>"

definition store ::
    "(cache_manifest \<Rightarrow> bytes) \<Rightarrow> (bytes \<Rightarrow> bytes) \<Rightarrow> path \<Rightarrow> fs \<Rightarrow> string \<Rightarrow> bundle_rec list \<Rightarrow> fs_op list" where
  "store ser dg dir fs version bs =
     clear dir fs @ write_set dg bs (bundles_dir dir) @
     write_manifest ser dir (new_manifest dg version bs)"

datatype store_wasm_error = NoCacheManifest | RefuseAttach string bool string

definition stored_handles :: "bundle_rec list \<Rightarrow> (string, string) btree \<Rightarrow> (string, string) btree" where
  "stored_handles wasm handles =
     bt_of (filter_map (\<lambda>b. map_option (Pair (b_url b)) (map_of handles (b_url b))) wasm)"

definition with_wasm ::
    "(bytes \<Rightarrow> bytes) \<Rightarrow> bundle_rec list \<Rightarrow> (string, string) btree \<Rightarrow> cache_manifest \<Rightarrow> cache_manifest" where
  "with_wasm dg wasm handles m =
     m\<lparr>m_wasm := map (entry_of dg) wasm, m_wasm_handles := stored_handles wasm handles\<rparr>"

definition store_wasm ::
    "(cache_manifest \<Rightarrow> bytes) \<Rightarrow> (bytes \<Rightarrow> cache_manifest option) \<Rightarrow> (bytes \<Rightarrow> bytes) \<Rightarrow> path \<Rightarrow> fs \<Rightarrow> string
     \<Rightarrow> bundle_rec list \<Rightarrow> (string, string) btree \<Rightarrow> store_wasm_error + fs_op list" where
  "store_wasm ser de dg dir fs version wasm handles =
     (case read_manifest de dir fs of
        None \<Rightarrow> Inl NoCacheManifest
      | Some m \<Rightarrow>
          if \<not> complete m \<or> m_wa_version m \<noteq> version
          then Inl (RefuseAttach (m_wa_version m) (complete m) version)
          else (let keep = map (\<lambda>b. cache_file_name dg (b_url b)) wasm;
                    m1 = with_wasm dg wasm handles m
                in Inr (write_set dg wasm (wasm_dir dir) @ write_manifest ser dir m1
                        @ [Prune (wasm_dir dir) (\<lambda>n. n \<notin> set keep)])))"

section \<open>The paths of the cache are apart\<close>

lemma cache_paths:
  "manifest_tmp dir \<noteq> manifest_path dir"
  "\<not> starts_with (bundles_dir dir) (manifest_path dir)" "\<not> starts_with (wasm_dir dir) (manifest_path dir)"
  "\<not> starts_with (manifest_path dir) (bundles_dir dir)" "\<not> starts_with (manifest_path dir) (wasm_dir dir)"
  "bundles_dir dir @ x \<noteq> manifest_path dir" "bundles_dir dir @ x \<noteq> manifest_tmp dir"
  "wasm_dir dir @ x \<noteq> manifest_path dir" "wasm_dir dir @ x \<noteq> manifest_tmp dir"
  "\<not> starts_with (wasm_dir dir) (bundles_dir dir @ [n])" "bundles_dir dir @ x \<noteq> wasm_dir dir @ y"
  by (auto simp: starts_with_iff manifest_tmp_def manifest_path_def bundles_dir_def wasm_dir_def
      MANIFEST_TMP_def MANIFEST_NAME_def BUNDLES_DIR_def WASM_DIR_def)

lemma bundles_not_wasm: "bundles_dir dir \<noteq> wasm_dir dir"
  by (simp add: bundles_dir_def wasm_dir_def BUNDLES_DIR_def WASM_DIR_def)

interpretation cache_commit: staged_commit "manifest_tmp dir" "manifest_path dir" for dir
  by unfold_locales (rule cache_paths(1))

lemma selected_child: "selected d sel (e @ [n]) \<longleftrightarrow> e = d \<and> sel n"
  by (auto simp: selected_def child_of_def starts_with_iff)

lemma write_set_untouched:
  "\<not> starts_with d q \<Longrightarrow> q \<notin> (\<lambda>b. d @ [cache_file_name dg (b_url b)]) ` set bs \<Longrightarrow>
   \<forall>op \<in> set (write_set dg bs d). \<not> touches op q"
  by (auto simp: write_set_def)

lemma strict_write_set: "\<forall>op \<in> set (write_set dg bs d). strict_op op"
  by (auto simp: write_set_def)

lemma clear_runs:
  assumes "runs (clear dir fs) fs ok fs'"
  shows "fs' = fs \<or> fs' (manifest_path dir) = None" and "ok \<longrightarrow> fs' (manifest_path dir) = None"
proof -
  let ?mp = "manifest_path dir"
  let ?rest = "concat (map (\<lambda>d. if exists_path fs d then [RemoveDirAll d] else []) [bundles_dir dir, wasm_dir dir])"
  have rest: "\<forall>op \<in> set ?rest. \<not> touches op ?mp" by (auto simp: cache_paths)
  have "(fs' = fs \<or> fs' ?mp = None) \<and> (ok \<longrightarrow> fs' ?mp = None)"
  proof (cases "exists_path fs ?mp")
    case False
    then have "runs ?rest fs ok fs'" using assms by (simp add: clear_def)
    from runs_frame [OF this rest] False show ?thesis by (simp add: exists_path_def)
  next
    case True
    then have "runs (RemoveFile ?mp # ?rest) fs ok fs'" using assms by (simp add: clear_def)
    then consider "runs ?rest (fs(?mp := None)) ok fs'" | "\<not> ok" "fs' = fs"
      by (auto elim!: runs_ConsE simp: interrupted_simps)
    then show ?thesis
    proof cases
      case 1
      from runs_frame [OF 1 rest] show ?thesis by simp
    qed simp
  qed
  then show "fs' = fs \<or> fs' ?mp = None" and "ok \<longrightarrow> fs' ?mp = None" by auto
qed

text \<open>What a complete \<open>write_set\<close> leaves in the directory.\<close>

lemma write_set_files:
  assumes "runs (write_set dg bs d) fs True fs'" "distinct (map (\<lambda>b. dg (b_url b)) bs)" "b \<in> set bs"
  shows "fs' (d @ [cache_file_name dg (b_url b)]) = Some (File (b_bytes b))"
proof -
  let ?ws = "map (\<lambda>b. (d @ [cache_file_name dg (b_url b)], b_bytes b)) bs"
  have "distinct (map fst ?ws)"
    using assms(2) by (simp add: o_def distinct_map inj_on_def cache_file_name_def sha256_hex_eq_iff)
  moreover have "(d @ [cache_file_name dg (b_url b)], b_bytes b) \<in> set ?ws" using assms(3) by auto
  moreover have "fs' = exec_ops (write_set dg bs d) fs"
    by (rule runs_True_exec [OF assms(1)]) (simp, rule strict_write_set)
  ultimately show ?thesis by (simp add: write_set_def exec_writes_mem del: map_map)
qed

lemma load_one_intact:
  assumes "fs (d @ [cache_file_name dg (b_url b)]) = Some (File (b_bytes b))"
  shows "load_one dg fs d (entry_of dg b) = Inr b"
  using assms by (simp add: load_one_def entry_of_def read_file_def)

lemma load_all_intact:
  "\<forall>b \<in> set bs. f (g b) = Inr b \<Longrightarrow> load_all f (map g bs) = Inr bs"
  by (induction bs) auto

lemma check_no_manifest: "fs (manifest_path dir) = None \<Longrightarrow> check de dg dir fs v = Miss NoManifest"
  by (simp add: check_def usable_manifest_def read_manifest_def read_file_def)

lemma store_complete:
  assumes "runs (store ser dg dir fs version bs) fs True fs'"
    and "distinct (map (\<lambda>b. dg (b_url b)) bs)"
  shows "fs' (manifest_path dir) = Some (File (ser (new_manifest dg version bs) @ [CHR 0x0A]))"
    and "b \<in> set bs \<Longrightarrow> fs' (bundles_dir dir @ [cache_file_name dg (b_url b)]) = Some (File (b_bytes b))"
proof -
  let ?m = "new_manifest dg version bs"
  obtain fs1 fs2 where "runs (write_set dg bs (bundles_dir dir)) fs1 True fs2"
    and w: "runs (write_manifest ser dir ?m) fs2 True fs'"
    using assms(1) unfolding store_def by (blast dest: runs_append)
  note set_run = this(1)
  from w have w': "runs [WriteFile (manifest_tmp dir) (ser ?m @ [CHR 0x0A]),
      Rename (manifest_tmp dir) (manifest_path dir)] fs2 True fs'" by (simp add: write_manifest_def)
  from cache_commit.commit_runs [OF this]
  show "fs' (manifest_path dir) = Some (File (ser ?m @ [CHR 0x0A]))" by simp
  show "fs' (bundles_dir dir @ [cache_file_name dg (b_url b)]) = Some (File (b_bytes b))" if "b \<in> set bs"
    using write_set_files [OF set_run assms(2) that] cache_commit.commit_frame [OF w'] cache_paths by simp
qed

lemma store_complete_check:
  assumes "runs (store ser dg dir fs version bs) fs True fs'"
    and "distinct (map (\<lambda>b. dg (b_url b)) bs)"
    and "de (ser (new_manifest dg version bs) @ [CHR 0x0A]) = Some (new_manifest dg version bs)"
  shows "check de dg dir fs' v = (if v = version then Hit bs else Miss (VersionChanged version v))"
proof -
  let ?m = "new_manifest dg version bs"
  note files = store_complete [OF assms(1,2)]
  have "read_manifest de dir fs' = Some ?m"
    using files(1) assms(3) by (simp add: read_manifest_def read_file_def)
  moreover have "load_all (load_one dg fs' (bundles_dir dir)) (map (entry_of dg) bs) = Inr bs"
    by (rule load_all_intact) (simp add: load_one_intact files(2))
  ultimately show ?thesis
    by (auto simp: check_def usable_manifest_def load_set_def new_manifest_def)
qed

text \<open>
  C2: \<open>store\<close> is crash safe.  However it ends, completed, failed at any operation or interrupted inside
  one, the cache afterwards is untouched, or a miss, or, only when it completed, a hit with exactly
  the stored bundles: a half-written cache is never trusted.  A completed store of one version is a
  miss for every other version.
\<close>

theorem store_crash_safe:
  assumes "runs (store ser dg dir fs version bs) fs ok fs'"
    and "distinct (map (\<lambda>b. dg (b_url b)) bs)"
    and "de (ser (new_manifest dg version bs) @ [CHR 0x0A]) = Some (new_manifest dg version bs)"
  shows "fs' = fs \<and> \<not> ok
    \<or> check de dg dir fs' v = Miss NoManifest \<and> \<not> ok
    \<or> check de dg dir fs' v = (if v = version then Hit bs else Miss (VersionChanged version v)) \<and> ok"
proof (cases ok)
  case True
  from assms(1) True have "runs (store ser dg dir fs version bs) fs True fs'" by simp
  from store_complete_check [where de = de, OF this assms(2,3)] True show ?thesis by simp
next
  case False
  let ?mp = "manifest_path dir"
  have "fs' = fs \<or> fs' ?mp = None"
  proof -
    from assms(1) consider (c) "runs (clear dir fs) fs False fs'"
      | (w) fs1 where "runs (clear dir fs) fs True fs1"
          "runs (write_set dg bs (bundles_dir dir) @ write_manifest ser dir (new_manifest dg version bs)) fs1 ok fs'"
      unfolding store_def by (blast dest: runs_append)
    then show ?thesis
    proof cases
      case c
      then show ?thesis by (rule clear_runs(1))
    next
      case w
      have none: "fs1 ?mp = None" using clear_runs(2) [OF w(1)] by simp
      have free: "\<forall>op \<in> set (write_set dg bs (bundles_dir dir)). \<not> touches op ?mp"
        using cache_paths by (intro write_set_untouched) (auto dest: sym)
      from runs_append [OF w(2)] show ?thesis
      proof (elim disjE conjE exE)
        assume "runs (write_set dg bs (bundles_dir dir)) fs1 False fs'"
        from runs_frame [OF this free] none show ?thesis by simp
      next
        fix fs2
        assume 1: "runs (write_set dg bs (bundles_dir dir)) fs1 True fs2"
          and 2: "runs (write_manifest ser dir (new_manifest dg version bs)) fs2 ok fs'"
        have "fs2 ?mp = None" using runs_frame [OF 1 free] none by simp
        moreover have "fs' ?mp = fs2 ?mp"
          using cache_commit.commit_runs [OF 2 [unfolded write_manifest_def]] False by simp
        ultimately show ?thesis by simp
      qed
    qed
  qed
  then show ?thesis using False by (auto simp: check_no_manifest)
qed

definition sample_bundles :: "bundle_rec list" where
  "sample_bundles = [\<lparr>b_url = ''u1'', file_name = ''a.js'', b_bytes = ''x''\<rparr>,
     \<lparr>b_url = ''u2'', file_name = ''b.js'', b_bytes = ''y''\<rparr>]"

theorem store_crash_safe_witness:
  "check (\<lambda>_. Some (new_manifest rev ''2.1'' sample_bundles)) rev [''c'']
     (exec_ops (store (\<lambda>_. ''m'') rev [''c''] (\<lambda>_. None) ''2.1'' sample_bundles) (\<lambda>_. None)) ''2.1''
   = Hit sample_bundles"
proof -
  let ?ops = "store (\<lambda>_. ''m'') rev [''c''] (\<lambda>_. None) ''2.1'' sample_bundles"
  have r: "runs ?ops (\<lambda>_. None) True (exec_ops ?ops (\<lambda>_. None))" by (rule runs_exec)
  have d: "distinct (map (\<lambda>b. rev (b_url b)) sample_bundles)" by (simp add: sample_bundles_def)
  from store_crash_safe [OF r d, of "\<lambda>_. Some (new_manifest rev ''2.1'' sample_bundles)" "''2.1''"]
  show ?thesis by simp
qed

section \<open>WASM joins a cache without disturbing it\<close>

lemma load_set_same_files:
  assumes "\<And>n. fs' (d @ [n]) = fs (d @ [n])"
  shows "load_set dg fs' es d = load_set dg fs es d"
proof -
  have "load_one dg fs' d = load_one dg fs d" by (rule ext) (simp add: load_one_def read_file_def assms)
  then show ?thesis by (simp add: load_set_def)
qed

lemma store_wasm_Inr:
  assumes "store_wasm ser de dg dir fs version ws handles = Inr ops"
  obtains m where "read_manifest de dir fs = Some m" "complete m" "m_wa_version m = version"
    "ops = (write_set dg ws (wasm_dir dir) @ write_manifest ser dir (with_wasm dg ws handles m))
       @ [Prune (wasm_dir dir) (\<lambda>n. n \<notin> set (map (\<lambda>b. cache_file_name dg (b_url b)) ws))]"
  using assms by (auto simp: store_wasm_def Let_def split: option.splits if_splits)

text \<open>The manifest during and after a run of \<open>store_wasm\<close>: the old one, or the committed one.\<close>

lemma store_wasm_manifest:
  assumes "runs ((write_set dg ws (wasm_dir dir) @ write_manifest ser dir m1) @ [Prune (wasm_dir dir) sel]) fs ok fs'"
  shows "fs' (manifest_path dir) = fs (manifest_path dir) \<and> \<not> ok
    \<or> fs' (manifest_path dir) = Some (File (ser m1 @ [CHR 0x0A]))"
proof -
  let ?mp = "manifest_path dir"
  have pre: "runs (write_set dg ws (wasm_dir dir) @ write_manifest ser dir m1) fs ok1 fs1 \<Longrightarrow>
      fs1 ?mp = fs ?mp \<and> \<not> ok1 \<or> fs1 ?mp = Some (File (ser m1 @ [CHR 0x0A]))" for ok1 fs1
  proof -
    assume "runs (write_set dg ws (wasm_dir dir) @ write_manifest ser dir m1) fs ok1 fs1"
    then have r: "runs (write_set dg ws (wasm_dir dir)) fs False fs1 \<and> \<not> ok1
        \<or> (\<exists>fs2. runs (write_set dg ws (wasm_dir dir)) fs True fs2 \<and> runs (write_manifest ser dir m1) fs2 ok1 fs1)"
      by (rule runs_append)
    have free: "\<forall>op \<in> set (write_set dg ws (wasm_dir dir)). \<not> touches op ?mp"
      using cache_paths by (intro write_set_untouched) (auto dest: sym)
    from r show ?thesis
    proof (elim disjE conjE exE)
      assume "runs (write_set dg ws (wasm_dir dir)) fs False fs1" "\<not> ok1"
      with runs_frame [OF this(1) free] show ?thesis by simp
    next
      fix fs2
      assume 1: "runs (write_set dg ws (wasm_dir dir)) fs True fs2" and 2: "runs (write_manifest ser dir m1) fs2 ok1 fs1"
      from runs_frame [OF 1 free] cache_commit.commit_runs [OF 2 [unfolded write_manifest_def]]
      show ?thesis by auto
    qed
  qed
  have sel: "\<not> selected (wasm_dir dir) sel ?mp" by (simp add: manifest_path_def selected_child wasm_dir_def)
  from runs_append [OF assms] show ?thesis
  proof (elim disjE conjE exE)
    assume "runs (write_set dg ws (wasm_dir dir) @ write_manifest ser dir m1) fs False fs'" "\<not> ok"
    with pre [OF this(1)] show ?thesis by blast
  next
    fix fs1
    assume 1: "runs (write_set dg ws (wasm_dir dir) @ write_manifest ser dir m1) fs True fs1"
      and 2: "runs [Prune (wasm_dir dir) sel] fs1 ok fs'"
    have "fs' ?mp = fs1 ?mp" by (rule runs_frame [OF 2]) (simp add: sel)
    with pre [OF 1] show ?thesis by simp
  qed
qed

text \<open>
  Adding WASM payloads never costs the JS cache: however \<open>store_wasm\<close> ends, completed, failed or
  interrupted at any point (its failure is treated as harmless by the caller), a JS hit before it is
  the same hit after it.
\<close>

theorem store_wasm_keeps_js:
  assumes "store_wasm ser de dg dir fs version ws handles = Inr ops" and "runs ops fs ok fs'"
    and "check de dg dir fs version = Hit bs"
    and "\<And>m. read_manifest de dir fs = Some m \<Longrightarrow>
      de (ser (with_wasm dg ws handles m) @ [CHR 0x0A]) = Some (with_wasm dg ws handles m)"
  shows "check de dg dir fs' version = Hit bs"
proof -
  obtain m where m: "read_manifest de dir fs = Some m" "complete m" "m_wa_version m = version"
    and ops: "ops = (write_set dg ws (wasm_dir dir) @ write_manifest ser dir (with_wasm dg ws handles m))
       @ [Prune (wasm_dir dir) (\<lambda>n. n \<notin> set (map (\<lambda>b. cache_file_name dg (b_url b)) ws))]"
    using store_wasm_Inr [OF assms(1)] by metis
  let ?m1 = "with_wasm dg ws handles m"
  have files: "fs' (bundles_dir dir @ [n]) = fs (bundles_dir dir @ [n])" for n
  proof (rule runs_frame [OF assms(2)], rule ballI)
    fix op assume op: "op \<in> set ops"
    have "\<forall>op \<in> set (write_set dg ws (wasm_dir dir)). \<not> touches op (bundles_dir dir @ [n])"
      by (rule write_set_untouched) (auto simp: cache_paths bundles_not_wasm)
    with op show "\<not> touches op (bundles_dir dir @ [n])"
      using cache_paths(7) [of dir "[n]"] cache_paths(6) [of dir "[n]"]
      by (auto simp: ops write_manifest_def selected_child bundles_not_wasm)
  qed
  have man: "read_manifest de dir fs' = Some m \<or> read_manifest de dir fs' = Some ?m1"
    using store_wasm_manifest [OF assms(2) [unfolded ops]] m(1) assms(4) [OF m(1)]
    by (auto simp: read_manifest_def read_file_def)
  have "load_set dg fs (m_bundles m) (bundles_dir dir) = Hit bs"
    using assms(3) m by (simp add: check_def usable_manifest_def)
  then have "load_set dg fs' (m_bundles m) (bundles_dir dir) = Hit bs"
    using load_set_same_files [of fs' "bundles_dir dir" fs] files by metis
  with man m show ?thesis by (auto simp: check_def usable_manifest_def with_wasm_def)
qed

definition sample_cache :: fs where
  "sample_cache = exec_ops (store (\<lambda>_. ''m'') rev [''c''] (\<lambda>_. None) ''2.1'' sample_bundles) (\<lambda>_. None)"

lemma sample_cache_read:
  "read_file sample_cache (manifest_path [''c'']) = Some [CHR ''m'', CHR 0x0A]"
proof -
  have "runs (store (\<lambda>_. ''m'') rev [''c''] (\<lambda>_. None) ''2.1'' sample_bundles) (\<lambda>_. None) True sample_cache"
    unfolding sample_cache_def by (rule runs_exec)
  from store_complete(1) [OF this] show ?thesis by (simp add: read_file_def sample_bundles_def)
qed

lemma sample_cache_check:
  "check (\<lambda>_. Some (new_manifest rev ''2.1'' sample_bundles)) rev [''c''] sample_cache ''2.1'' = Hit sample_bundles"
proof -
  let ?m = "new_manifest rev ''2.1'' sample_bundles"
  have "runs (store (\<lambda>_. ''m'') rev [''c''] (\<lambda>_. None) ''2.1'' sample_bundles) (\<lambda>_. None) True sample_cache"
    unfolding sample_cache_def by (rule runs_exec)
  from store_complete(2) [OF this] have
    "load_all (load_one rev sample_cache (bundles_dir [''c''])) (map (entry_of rev) sample_bundles) = Inr sample_bundles"
    by (intro load_all_intact ballI load_one_intact) (simp add: sample_bundles_def)
  then show ?thesis
    by (simp add: check_def usable_manifest_def read_manifest_def sample_cache_read load_set_def new_manifest_def)
qed

theorem store_wasm_keeps_js_witness:
  "\<exists>ops. store_wasm (\<lambda>_. ''m'') (\<lambda>_. Some (new_manifest rev ''2.1'' sample_bundles)) rev [''c''] sample_cache ''2.1'' [] []
       = Inr ops
     \<and> check (\<lambda>_. Some (new_manifest rev ''2.1'' sample_bundles)) rev [''c''] (exec_ops ops sample_cache) ''2.1''
       = Hit sample_bundles"
proof -
  let ?m = "new_manifest rev ''2.1'' sample_bundles"
  let ?de = "\<lambda>_. Some ?m"
  have m: "read_manifest ?de [''c''] sample_cache = Some ?m"
    by (simp add: read_manifest_def sample_cache_read)
  then obtain ops where ops: "store_wasm (\<lambda>_. ''m'') ?de rev [''c''] sample_cache ''2.1'' [] [] = Inr ops"
    by (simp add: store_wasm_def new_manifest_def)
  have w: "with_wasm rev [] [] ?m = ?m"
    by (simp add: with_wasm_def new_manifest_def stored_handles_def bt_of_def)
  have "check ?de rev [''c''] (exec_ops ops sample_cache) ''2.1'' = Hit sample_bundles"
    by (rule store_wasm_keeps_js [OF ops runs_exec sample_cache_check]) (use m w in auto)
  with ops show ?thesis by blast
qed

lemma partition_results_intact: "\<forall>b \<in> set bs. f (g b) = Inr b \<Longrightarrow> partition_results (map f (map g bs)) = (bs, [])"
  by (induction bs) auto

lemma map_of_stored_handles:
  "map_of (stored_handles ws handles) u = (if u \<in> b_url ` set ws then map_of handles u else None)"
proof -
  have "map_of (rev (filter_map (\<lambda>b. map_option (Pair (b_url b)) (map_of handles (b_url b))) ws)) u
      = (if u \<in> b_url ` set ws then map_of handles u else None)"
    by (induction ws) (auto simp: map_add_def split: option.splits if_splits)
  then show ?thesis by (simp add: stored_handles_def map_of_bt_of)
qed

text \<open>
  A completed \<open>store_wasm\<close> is read back whole: the payloads are exactly those stored, none skipped, and
  the handles are those of the caller's map for the stored URLs and no others; another version reads
  no handle.
\<close>

theorem store_wasm_roundtrip:
  assumes "store_wasm ser de dg dir fs version ws handles = Inr ops" and "runs ops fs True fs'"
    and "distinct (map (\<lambda>b. dg (b_url b)) ws)"
    and "\<And>m. read_manifest de dir fs = Some m \<Longrightarrow>
      de (ser (with_wasm dg ws handles m) @ [CHR 0x0A]) = Some (with_wasm dg ws handles m)"
  shows "wasm_payloads de dg dir fs' version = (ws, [])
    \<and> map_of (wasm_handles de dir fs' v) u =
       (if v = version \<and> u \<in> b_url ` set ws then map_of handles u else None)"
proof -
  let ?sel = "\<lambda>n. n \<notin> set (map (\<lambda>b. cache_file_name dg (b_url b)) ws)"
  obtain m where m: "read_manifest de dir fs = Some m" "complete m" "m_wa_version m = version"
    and ops: "ops = (write_set dg ws (wasm_dir dir) @ write_manifest ser dir (with_wasm dg ws handles m))
       @ [Prune (wasm_dir dir) ?sel]"
    using store_wasm_Inr [OF assms(1)] by metis
  let ?m1 = "with_wasm dg ws handles m"
  have man: "read_manifest de dir fs' = Some ?m1"
    using store_wasm_manifest [OF assms(2) [unfolded ops]] assms(4) [OF m(1)]
    by (simp add: read_manifest_def read_file_def)
  obtain fs1 fs2 where 1: "runs (write_set dg ws (wasm_dir dir)) fs True fs1"
    and 2: "runs (write_manifest ser dir ?m1) fs1 True fs2" and 3: "runs [Prune (wasm_dir dir) ?sel] fs2 True fs'"
    using assms(2) unfolding ops by (blast dest: runs_append)
  have stored: "fs' (wasm_dir dir @ [cache_file_name dg (b_url b)]) = Some (File (b_bytes b))" if "b \<in> set ws" for b
  proof -
    have "fs' (wasm_dir dir @ [cache_file_name dg (b_url b)]) = fs2 (wasm_dir dir @ [cache_file_name dg (b_url b)])"
      by (rule runs_frame [OF 3]) (use that in \<open>simp add: selected_child\<close>)
    also have "\<dots> = fs1 (wasm_dir dir @ [cache_file_name dg (b_url b)])"
      by (rule cache_commit.commit_frame [OF 2 [unfolded write_manifest_def]]) (simp_all add: cache_paths)
    finally show ?thesis using write_set_files [OF 1 assms(3) that] by simp
  qed
  have "partition_results (map (load_one dg fs' (wasm_dir dir)) (map (entry_of dg) ws)) = (ws, [])"
    by (rule partition_results_intact) (simp add: load_one_intact stored)
  then have "wasm_payloads de dg dir fs' version = (ws, [])"
    using man m by (simp add: wasm_payloads_def usable_manifest_def with_wasm_def)
  moreover have "map_of (wasm_handles de dir fs' v) u =
      (if v = version \<and> u \<in> b_url ` set ws then map_of handles u else None)"
    using man m by (simp add: wasm_handles_def with_wasm_def map_of_stored_handles)
  ultimately show ?thesis by blast
qed

theorem store_wasm_roundtrip_witness:
  "\<exists>ops. wasm_payloads (\<lambda>b. if b = ''m'' then Some (new_manifest rev ''2.1'' [])
         else Some (with_wasm rev sample_bundles [] (new_manifest rev ''2.1'' []))) rev [''c'']
       (exec_ops ops ((\<lambda>_. None)([''c'', ''manifest.json''] := Some (File ''m'')))) ''2.1'' = (sample_bundles, [])"
proof -
  let ?m = "new_manifest rev ''2.1'' []" and ?fs = "(\<lambda>_. None)([''c'', ''manifest.json''] := Some (File ''m'')) :: fs"
  let ?m1 = "with_wasm rev sample_bundles [] ?m"
  let ?de = "\<lambda>b. if b = ''m'' then Some ?m else Some ?m1"
  have m: "read_manifest ?de [''c''] ?fs = Some ?m"
    by (simp add: read_manifest_def read_file_def manifest_path_def MANIFEST_NAME_def)
  then obtain ops where ops: "store_wasm (\<lambda>_. ''m'') ?de rev [''c''] ?fs ''2.1'' sample_bundles [] = Inr ops"
    by (simp add: store_wasm_def new_manifest_def)
  have d: "distinct (map (\<lambda>b. rev (b_url b)) sample_bundles)" by (simp add: sample_bundles_def)
  have "?de (''m'' @ [CHR 0x0A]) = Some ?m1" by simp
  with m have "wasm_payloads ?de rev [''c''] (exec_ops ops ?fs) ''2.1'' = (sample_bundles, [])"
    using store_wasm_roundtrip [OF ops runs_exec d] by auto
  then show ?thesis by blast
qed

end
