(* ===== verification/Lock.thy ===== *)
theory Lock
  imports TextScan
begin

text \<open>
  \<open>crates/wa-store/src/lock.rs\<close>: the bundle and WASM lockfiles.  A lock fingerprints a multiset of
  contents; the theorems say what a fingerprint pins and that the order a run collects its inputs in
  is irrelevant.  \<open>dg\<close> is the SHA-256 digest; the JSON text of a lock (crate \<open>serde_json\<close>) is not part
  of the model.
\<close>

record bundle_id =
  id_sha256 :: string
  id_size :: nat
  id_url :: "string option"

record lock_entry =
  l_sha256 :: string
  l_size :: nat
  l_url :: "string option"

record bundle_lock =
  lk_wa_version :: string
  lk_set_hash :: string
  bundle_count :: nat
  lk_bundles :: "lock_entry list"

definition hash_line :: "bundle_id \<Rightarrow> string" where
  "hash_line b = id_sha256 b @ '':'' @ dec (id_size b)"

definition set_text :: "bundle_id list \<Rightarrow> string" where
  "set_text bs = join_with [NL] (sort (map hash_line bs))"

definition set_hash :: "(bytes \<Rightarrow> bytes) \<Rightarrow> bundle_id list \<Rightarrow> string" where
  "set_hash dg bs = sha256_hex dg (set_text bs)"

definition new_lock :: "(bytes \<Rightarrow> bytes) \<Rightarrow> string \<Rightarrow> bundle_id list \<Rightarrow> bundle_lock" where
  "new_lock dg version bs =
     (let sorted_bs = sort_key (\<lambda>b. (id_sha256 b, id_url b)) bs
      in \<lparr>lk_wa_version = version, lk_set_hash = set_hash dg sorted_bs, bundle_count = length sorted_bs,
          lk_bundles = map (\<lambda>b. \<lparr>l_sha256 = id_sha256 b, l_size = id_size b, l_url = id_url b\<rparr>) sorted_bs\<rparr>)"

datatype inconsistency = CountMismatch nat nat | HashMismatch string string

definition entry_id :: "lock_entry \<Rightarrow> bundle_id" where
  "entry_id e = \<lparr>id_sha256 = l_sha256 e, id_size = l_size e, id_url = None\<rparr>"

definition verify_lock :: "(bytes \<Rightarrow> bytes) \<Rightarrow> bundle_lock \<Rightarrow> inconsistency + unit" where
  "verify_lock dg l =
     (if bundle_count l \<noteq> length (lk_bundles l)
      then Inl (CountMismatch (bundle_count l) (length (lk_bundles l)))
      else (let recomputed = set_hash dg (map entry_id (lk_bundles l))
            in if lk_set_hash l \<noteq> recomputed then Inl (HashMismatch (lk_set_hash l) recomputed) else Inr ()))"

section \<open>The WASM lock\<close>

record wasm_lock_entry =
  bx_id :: "string option"
  w_file_name :: string
  w_url :: string
  w_sha256 :: string
  w_size :: nat

record bootloader_pins =
  handles_from_page :: nat
  pin_handles :: "(string, string) btree"
  pin_requests :: nat
  pin_failed_requests :: nat
  degradations :: nat

record wasm_lock =
  wl_wa_version :: string
  wasm_set_hash :: string
  wasm_count :: nat
  wl_bootloader :: "bootloader_pins option"
  wl_wasm :: "wasm_lock_entry list"

definition as_bundle_id :: "wasm_lock_entry \<Rightarrow> bundle_id" where
  "as_bundle_id e = \<lparr>id_sha256 = w_sha256 e, id_size = w_size e, id_url = None\<rparr>"

definition with_bootloader ::
    "(bytes \<Rightarrow> bytes) \<Rightarrow> string \<Rightarrow> wasm_lock_entry list \<Rightarrow> bootloader_pins option \<Rightarrow> wasm_lock" where
  "with_bootloader dg version ws pins =
     (let sorted_ws = sort_key (\<lambda>e. (w_sha256 e, w_url e)) ws
      in \<lparr>wl_wa_version = version, wasm_set_hash = set_hash dg (map as_bundle_id sorted_ws),
          wasm_count = length sorted_ws, wl_bootloader = pins, wl_wasm = sorted_ws\<rparr>)"

definition verify_wasm_lock :: "(bytes \<Rightarrow> bytes) \<Rightarrow> wasm_lock \<Rightarrow> inconsistency + unit" where
  "verify_wasm_lock dg l =
     (if wasm_count l \<noteq> length (wl_wasm l) then Inl (CountMismatch (wasm_count l) (length (wl_wasm l)))
      else (let recomputed = set_hash dg (map as_bundle_id (wl_wasm l))
            in if wasm_set_hash l \<noteq> recomputed then Inl (HashMismatch (wasm_set_hash l) recomputed)
               else Inr ()))"

section \<open>What the fingerprint is of\<close>

abbreviation content :: "bundle_id \<Rightarrow> string \<times> nat" where
  "content b \<equiv> (id_sha256 b, id_size b)"

abbreviation contents :: "bundle_id list \<Rightarrow> (string \<times> nat) multiset" where
  "contents bs \<equiv> mset (map content bs)"

definition line_of :: "string \<times> nat \<Rightarrow> string" where
  "line_of c = fst c @ '':'' @ dec (snd c)"

lemma mset_hash_lines: "mset (map hash_line bs) = image_mset line_of (contents bs)"
proof -
  have "map hash_line bs = map line_of (map content bs)" by (simp add: hash_line_def line_of_def)
  then show ?thesis by (simp only: mset_map)
qed

lemma colon_not_dec: "CHR '':'' \<notin> set (dec n)"
  by (simp add: char_class_defs digit_chars_def)

lemma line_of_inj: "line_of c = line_of d \<longleftrightarrow> c = d"
proof
  assume eq: "line_of c = line_of d"
  have r: "rsplit_first (\<lambda>x. x = CHR '':'') (s @ '':'' @ dec n) = dec n" for s n
    using rsplit_first_append_sep [of "dec n" "\<lambda>x. x = CHR '':''" "CHR '':''" s] colon_not_dec [of n] by auto
  from eq have "snd c = snd d" unfolding line_of_def by (metis r dec_inj)
  with eq show "c = d" by (simp add: line_of_def prod_eq_iff)
qed simp

lemma set_text_contents: "contents bs = contents bs' \<Longrightarrow> set_text bs = set_text bs'"
proof -
  assume "contents bs = contents bs'"
  then have "mset (map hash_line bs) = mset (map hash_line bs')" by (simp only: mset_hash_lines)
  then have "sort (map hash_line bs) = sort (map hash_line bs')"
    by (intro properties_for_sort) simp_all
  then show ?thesis by (simp add: set_text_def)
qed

text \<open>Hex digests have no line break, so the text can be cut back into its lines.\<close>

definition hashes_plain :: "bundle_id list \<Rightarrow> bool" where
  "hashes_plain bs \<longleftrightarrow> list_all (\<lambda>b. NL \<notin> set (id_sha256 b)) bs"

lemma lines_plain: "hashes_plain bs \<Longrightarrow> x \<in> set (sort (map hash_line bs)) \<Longrightarrow> NL \<notin> set x"
proof -
  have "NL \<notin> set (dec n)" for n by (simp add: char_class_defs digit_chars_def)
  then show "hashes_plain bs \<Longrightarrow> x \<in> set (sort (map hash_line bs)) \<Longrightarrow> NL \<notin> set x"
    by (auto simp: hashes_plain_def list_all_iff hash_line_def)
qed

lemma set_text_empty: "set_text bs = [] \<longleftrightarrow> bs = []"
proof
  assume e: "set_text bs = []"
  show "bs = []"
  proof (rule ccontr)
    assume "bs \<noteq> []"
    then have ne: "sort (map hash_line bs) \<noteq> []" by (metis length_0_conv length_map length_sort)
    then obtain x xs where x: "sort (map hash_line bs) = x # xs" by (cases "sort (map hash_line bs)") auto
    then have "x \<in> set (map hash_line bs)" by (metis list.set_intros(1) set_sort)
    then have "x \<noteq> []" by (auto simp: hash_line_def)
    with e x show False by (cases xs) (auto simp: set_text_def)
  qed
qed (simp add: set_text_def)

lemma set_text_inj:
  assumes "hashes_plain bs" "hashes_plain bs'" "set_text bs = set_text bs'"
  shows "contents bs = contents bs'"
proof (cases "bs = [] \<or> bs' = []")
  case True
  then have "bs = [] \<and> bs' = []" using assms(3) set_text_empty by metis
  then show ?thesis by simp
next
  case False
  let ?s = "\<lambda>bs. sort (map hash_line bs)"
  have ne: "?s bs \<noteq> []" "?s bs' \<noteq> []" using False by (metis length_0_conv length_map length_sort)+
  have "?s bs = ?s bs'"
    by (rule join_with_inj [of NL]) (use assms ne lines_plain in \<open>auto simp: set_text_def\<close>)
  then have "mset (map hash_line bs) = mset (map hash_line bs')" by (metis mset_sort)
  then have "image_mset line_of (contents bs) = image_mset line_of (contents bs')"
    by (simp only: mset_hash_lines)
  moreover have "inj (image_mset line_of)" by (rule multiset.inj_map) (simp add: inj_def line_of_inj)
  ultimately show ?thesis by (rule injD [rotated])
qed

text \<open>
  C8: the set hash is a fingerprint of the multiset of contents: two sets of ids have the same hash
  exactly when they hold the same \<open>(sha256, size)\<close> pairs with the same multiplicities, in any order and
  whatever the URLs (as long as the digest does not collide on the two fingerprint texts).
\<close>

theorem set_hash_iff_contents:
  assumes "hashes_plain bs" "hashes_plain bs'"
    and "dg (set_text bs) = dg (set_text bs') \<Longrightarrow> set_text bs = set_text bs'"
  shows "set_hash dg bs = set_hash dg bs' \<longleftrightarrow> contents bs = contents bs'"
proof
  assume "set_hash dg bs = set_hash dg bs'"
  then have "set_text bs = set_text bs'" using assms(3) by (simp add: set_hash_def sha256_hex_eq_iff)
  with assms(1,2) show "contents bs = contents bs'" by (rule set_text_inj)
next
  assume "contents bs = contents bs'"
  then show "set_hash dg bs = set_hash dg bs'" unfolding set_hash_def by (metis set_text_contents)
qed

definition sample_ids :: "bundle_id list" where
  "sample_ids = [\<lparr>id_sha256 = ''b0'', id_size = 2, id_url = None\<rparr>, \<lparr>id_sha256 = ''a1'', id_size = 1, id_url = Some ''u''\<rparr>]"

theorem set_hash_iff_contents_witness:
  "set_hash (\<lambda>b. b) sample_ids = set_hash (\<lambda>b. b) (rev sample_ids)
   \<and> set_hash (\<lambda>b. b) sample_ids \<noteq> set_hash (\<lambda>b. b) (sample_ids @ sample_ids)"
proof
  have p: "hashes_plain sample_ids" "hashes_plain (rev sample_ids)" "hashes_plain (sample_ids @ sample_ids)"
    by (simp_all add: hashes_plain_def sample_ids_def)
  show "set_hash (\<lambda>b. b) sample_ids = set_hash (\<lambda>b. b) (rev sample_ids)"
    using set_hash_iff_contents [OF p(1,2), of "\<lambda>b. b"] by simp
  show "set_hash (\<lambda>b. b) sample_ids \<noteq> set_hash (\<lambda>b. b) (sample_ids @ sample_ids)"
    using set_hash_iff_contents [OF p(1,3), of "\<lambda>b. b"] by (simp add: sample_ids_def)
qed

section \<open>Locks built by a run\<close>

lemma set_hash_contents: "contents bs = contents bs' \<Longrightarrow> set_hash dg bs = set_hash dg bs'"
  unfolding set_hash_def by (metis set_text_contents)

lemma new_lock_ids: "contents (map entry_id (lk_bundles (new_lock dg v bs))) = contents bs"
proof -
  let ?s = "sort_key (\<lambda>b. (id_sha256 b, id_url b)) bs"
  have "map content (map entry_id (lk_bundles (new_lock dg v bs))) = map content ?s"
    by (simp add: new_lock_def Let_def entry_id_def o_def)
  then have "contents (map entry_id (lk_bundles (new_lock dg v bs))) = mset (map content ?s)" by (simp only:)
  also have "\<dots> = contents bs" by (simp only: mset_map mset_sort)
  finally show ?thesis .
qed

lemma with_bootloader_ids:
  "contents (map as_bundle_id (wl_wasm (with_bootloader dg v ws pins))) = contents (map as_bundle_id ws)"
proof -
  have "wl_wasm (with_bootloader dg v ws pins) = sort_key (\<lambda>e. (w_sha256 e, w_url e)) ws"
    by (simp add: with_bootloader_def Let_def)
  then show ?thesis by (simp only: mset_map mset_sort)
qed

text \<open>
  A lock built from a run is accepted by the check that guards every reader, records exactly the run's
  contents sorted by hash and URL, and its fingerprint depends on the multiset of contents only, not
  on the order in which the run collected them; the same for the WASM lock.
\<close>

theorem new_lock_consistent:
  "verify_lock dg (new_lock dg v bs) = Inr ()
   \<and> contents (map entry_id (lk_bundles (new_lock dg v bs))) = contents bs
   \<and> sorted (map (\<lambda>e. (l_sha256 e, l_url e)) (lk_bundles (new_lock dg v bs)))
   \<and> lk_set_hash (new_lock dg v bs) = set_hash dg bs
   \<and> verify_wasm_lock dg (with_bootloader dg v ws pins) = Inr ()
   \<and> wasm_set_hash (with_bootloader dg v ws pins) = set_hash dg (map as_bundle_id ws)"
proof -
  let ?l = "new_lock dg v bs" and ?s = "sort_key (\<lambda>b. (id_sha256 b, id_url b)) bs"
  have h: "lk_set_hash ?l = set_hash dg bs"
  proof -
    have "contents ?s = contents bs" by (simp only: mset_map mset_sort)
    from set_hash_contents [OF this, of dg] show ?thesis by (simp add: new_lock_def Let_def)
  qed
  have v: "verify_lock dg ?l = Inr ()"
    using set_hash_contents [OF new_lock_ids [of dg v bs], of dg] h
    by (simp add: verify_lock_def new_lock_def Let_def)
  have s: "sorted (map (\<lambda>e. (l_sha256 e, l_url e)) (lk_bundles ?l))"
    by (simp add: new_lock_def Let_def o_def del: less_eq_prod_simp)
  have w: "wasm_set_hash (with_bootloader dg v ws pins) = set_hash dg (map as_bundle_id ws)"
    using set_hash_contents [OF with_bootloader_ids [of dg v ws pins], of dg]
    by (simp add: with_bootloader_def Let_def)
  have wv: "verify_wasm_lock dg (with_bootloader dg v ws pins) = Inr ()"
    by (simp add: verify_wasm_lock_def with_bootloader_def Let_def)
  from h v s w wv new_lock_ids show ?thesis by blast
qed

end
