(* ===== verification/Archive.thy ===== *)
theory Archive
  imports HttpPort UrlPolicy
begin

text \<open>
  \<open>crates/wa-store/src/archive.rs\<close> and the archive half of \<open>crates/wa-store/src/restore.rs\<close>: decompression
  under an output cap, reading the tar, resolving the archive and deciding who gets the token.  The
  decoders (\<open>lzma_rust2\<close>, \<open>flate2\<close>, \<open>tar\<close>), the \<open>url\<close> parser, the environment and the client are
  parameters.
\<close>

section \<open>Decompression\<close>

definition XZ_MAGIC :: bytes where
  "XZ_MAGIC = [CHR 0xFD, CHR ''7'', CHR ''z'', CHR ''X'', CHR ''Z'', CHR 0x00]"
definition GZIP_MAGIC :: bytes where "GZIP_MAGIC = [CHR 0x1F, CHR 0x8B]"
definition MAX_XZ_MEMORY_KIB :: nat where "MAX_XZ_MEMORY_KIB = 65 * 1024"

text \<open>One call of the streaming decoder: what it consumed and produced, and the decoder after it.\<close>

record 'd xz_output =
  bytes_consumed :: nat
  produced :: bytes
  stream_end :: bool
  next_decoder :: 'd

type_synonym 'd xz_process = "'d \<Rightarrow> bytes \<Rightarrow> string + 'd xz_output"

datatype decompress_error =
    XzDecoder string
  | GzDecoder string
  | DecompressionBomb nat
  | TrailingData
  | NoProgress
  | OutOfRange           \<comment> \<open>the panic of \<open>&input[result.bytes_consumed..]\<close>\<close>
  | UnknownMagic

function xz_loop ::
    "'d xz_process \<Rightarrow> nat \<Rightarrow> 'd \<Rightarrow> bytes \<Rightarrow> bytes \<Rightarrow> decompress_error + bytes" where
  "xz_loop proc max_unpacked decoder input out =
     (case proc decoder input of
        Inl e \<Rightarrow> Inl (XzDecoder e)
      | Inr r \<Rightarrow>
          if bytes_consumed r > length input then Inl OutOfRange
          else if length out + length (produced r) > max_unpacked then Inl (DecompressionBomb max_unpacked)
          else if stream_end r
               then (if drop (bytes_consumed r) input = [] then Inr (out @ produced r) else Inl TrailingData)
          else if bytes_consumed r = 0 \<and> produced r = [] then Inl NoProgress
          else xz_loop proc max_unpacked (next_decoder r) (drop (bytes_consumed r) input) (out @ produced r))"
  by pat_completeness auto
termination
  by (relation "measure (\<lambda>(proc, cap, decoder, input, out). length input + (cap - length out))")
     (auto simp: neq_Nil_conv)

declare xz_loop.simps [simp del]

definition decompress_xz ::
    "(nat \<Rightarrow> 'd) \<Rightarrow> 'd xz_process \<Rightarrow> bytes \<Rightarrow> nat \<Rightarrow> nat \<Rightarrow> decompress_error + bytes" where
  "decompress_xz new_mem_limit proc archive max_unpacked memory_limit_kib =
     xz_loop proc max_unpacked (new_mem_limit memory_limit_kib) archive []"

text \<open>\<open>gunzip archive n\<close>: at most \<open>n\<close> bytes of the decoded stream (\<open>take(n).read_to_end\<close>).\<close>

definition decompress ::
    "(nat \<Rightarrow> 'd) \<Rightarrow> 'd xz_process \<Rightarrow> (bytes \<Rightarrow> nat \<Rightarrow> string + bytes) \<Rightarrow> bytes \<Rightarrow> nat \<Rightarrow> decompress_error + bytes" where
  "decompress new_mem_limit proc gunzip archive max_unpacked =
     (if starts_with archive XZ_MAGIC
      then decompress_xz new_mem_limit proc archive max_unpacked MAX_XZ_MEMORY_KIB
      else if starts_with archive GZIP_MAGIC
      then (case gunzip archive (max_unpacked + 1) of
              Inl e \<Rightarrow> Inl (GzDecoder e)
            | Inr buf \<Rightarrow> if length buf > max_unpacked then Inl (DecompressionBomb max_unpacked) else Inr buf)
      else Inl UnknownMagic)"

lemma xz_loop_cap:
  "xz_loop proc cap decoder input out = Inr res \<Longrightarrow> length out \<le> cap \<Longrightarrow> length res \<le> cap"
proof (induction proc cap decoder input out rule: xz_loop.induct)
  case (1 proc cap decoder input out)
  then show ?case
    by (subst (asm) (2) xz_loop.simps) (auto split: sum.splits if_splits)
qed

text \<open>
  Decompression always ends and never yields more than the cap, whatever the archive and whatever the
  decoders answer: an archive of unknown format is refused, a bomb is an error.
\<close>

theorem decompress_capped:
  assumes "decompress new_mem_limit proc gunzip archive cap = Inr res"
  shows "length res \<le> cap \<and> (starts_with archive XZ_MAGIC \<or> starts_with archive GZIP_MAGIC)"
  using assms xz_loop_cap [of proc cap _ archive "[]" res]
  by (auto simp: decompress_def decompress_xz_def split: if_splits sum.splits)

text \<open>A decoder that hands out its input three bytes at a time.\<close>

definition copy_decoder :: "unit xz_process" where
  "copy_decoder d input =
     Inr \<lparr>bytes_consumed = min 3 (length input), produced = take 3 input, stream_end = length input \<le> 3,
          next_decoder = ()\<rparr>"

theorem decompress_capped_witness:
  "decompress (\<lambda>_. ()) copy_decoder (\<lambda>_ _. Inl []) (XZ_MAGIC @ ''ab'') 8 = Inr (XZ_MAGIC @ ''ab'')
   \<and> length (XZ_MAGIC @ ''ab'') \<le> 8"
proof -
  have "decompress (\<lambda>_. ()) copy_decoder (\<lambda>_ _. Inl []) (XZ_MAGIC @ ''ab'') 8 = Inr (XZ_MAGIC @ ''ab'')"
    by (simp add: decompress_def decompress_xz_def xz_loop.simps copy_decoder_def XZ_MAGIC_def starts_with_def)
  with decompress_capped [OF this] show ?thesis by blast
qed

section \<open>The tar\<close>

definition path_file_name :: "string \<Rightarrow> string option" where
  \<comment> \<open>\<open>Path::file_name\<close>: the last component, \<open>.\<close> and empty ones skipped\<close>
  "path_file_name p =
     (let cs = filter (\<lambda>c. c \<noteq> [] \<and> c \<noteq> ''.'') (split_on (\<lambda>c. c = SLASH) p)
      in if cs = [] \<or> last cs = ''..'' then None else Some (last cs))"

record tar_entry =
  is_regular :: bool
  entry_path :: "string + bytes"
  entry_bytes :: "string + bytes"

datatype tar_error =
    ReadTar string
  | ReadEntry string
  | TooManyFiles nat
  | EntryPath string
  | NoFileName
  | ReadBytes string
  | NoFiles

fun read_tar_loop ::
    "nat \<Rightarrow> (string + tar_entry) list \<Rightarrow> (string \<times> bytes) list \<Rightarrow> tar_error + (string \<times> bytes) list" where
  "read_tar_loop max_files [] out = Inr out"
| "read_tar_loop max_files (Inl e # es) out = Inl (ReadEntry e)"
| "read_tar_loop max_files (Inr t # es) out =
     (if \<not> is_regular t then read_tar_loop max_files es out
      else if length out \<ge> max_files then Inl (TooManyFiles max_files)
      else case entry_path t of
             Inl e \<Rightarrow> Inl (EntryPath e)
           | Inr p \<Rightarrow>
               (case map_option from_utf8_lossy (path_file_name p) of
                  None \<Rightarrow> Inl NoFileName
                | Some name \<Rightarrow>
                    if name = [] then Inl NoFileName
                    else (case entry_bytes t of
                            Inl e \<Rightarrow> Inl (ReadBytes name)
                          | Inr b \<Rightarrow> read_tar_loop max_files es (out @ [(name, b)]))))"

definition read_tar ::
    "(bytes \<Rightarrow> string + (string + tar_entry) list) \<Rightarrow> bytes \<Rightarrow> nat \<Rightarrow> tar_error + (string \<times> bytes) list" where
  "read_tar entries tar_bytes max_files =
     (case entries tar_bytes of
        Inl e \<Rightarrow> Inl (ReadTar e)
      | Inr es \<Rightarrow>
          (case read_tar_loop max_files es [] of
             Inl e \<Rightarrow> Inl e
           | Inr out \<Rightarrow> if out = [] then Inl NoFiles else Inr out))"

lemma read_tar_loop_bound:
  "read_tar_loop n es out = Inr res \<Longrightarrow> length out \<le> n \<Longrightarrow> length res \<le> n"
  by (induction n es out rule: read_tar_loop.induct) (auto split: if_splits sum.splits option.splits)

section \<open>Who may see the token\<close>

record url_parts =
  u_scheme :: string
  u_username :: string
  u_password :: "string option"
  u_host :: "string option"
  u_text :: string

type_synonym url_parse = "string \<Rightarrow> url_parts option"

definition url_host :: "url_parse \<Rightarrow> string \<Rightarrow> string" where
  "url_host parse url =
     (case Option.bind (parse url) u_host of Some h \<Rightarrow> to_ascii_lowercase h | None \<Rightarrow> [])"

definition is_github_host :: "url_parse \<Rightarrow> string \<Rightarrow> bool" where
  "is_github_host parse url \<longleftrightarrow>
     url_host parse url = ''github.com'' \<or> ends_with (url_host parse url) ''.github.com''"

definition may_send_github_token :: "url_parse \<Rightarrow> string \<Rightarrow> bool" where
  "may_send_github_token parse url \<longleftrightarrow>
     (case parse url of
        Some u \<Rightarrow> u_scheme u = ''https'' \<and> u_username u = [] \<and> u_password u = None
                   \<and> is_github_host parse (u_text u)
      | None \<Rightarrow> False)"

definition MAX_ARCHIVE_BYTES :: nat where "MAX_ARCHIVE_BYTES = 256 * 1024 * 1024"

definition env_token :: "(string \<Rightarrow> string option) \<Rightarrow> string option" where
  "env_token env =
     (case env ''GH_TOKEN'' of
        Some t \<Rightarrow> if t \<noteq> [] then Some t
                   else (case env ''GITHUB_TOKEN'' of Some t \<Rightarrow> if t \<noteq> [] then Some t else None | None \<Rightarrow> None)
      | None \<Rightarrow> (case env ''GITHUB_TOKEN'' of Some t \<Rightarrow> if t \<noteq> [] then Some t else None | None \<Rightarrow> None))"

datatype download_error = DownloadFailed string string | DownloadStatus string nat

definition download_headers :: "(string \<Rightarrow> string option) \<Rightarrow> url_parse \<Rightarrow> string \<Rightarrow> headers" where
  "download_headers env parse url =
     (''User-Agent'', ''whatspec-restore'') #
     (case env_token env of
        Some t \<Rightarrow> if may_send_github_token parse url then [(''Authorization'', ''Bearer '' @ t)] else []
      | None \<Rightarrow> [])"

definition download_opt ::
    "(string \<Rightarrow> string option) \<Rightarrow> url_parse \<Rightarrow> 'w http_get \<Rightarrow> 'w \<Rightarrow> string
     \<Rightarrow> (download_error + bytes option) \<times> 'w" where
  "download_opt env parse get w url =
     (case get w url (download_headers env parse url) MAX_ARCHIVE_BYTES of
        (Inl e, w1) \<Rightarrow> (Inl (DownloadFailed url e), w1)
      | (Inr resp, w1) \<Rightarrow>
          (if status resp = 200 then Inr (Some (body resp))
           else if status resp = 404 then Inr None
           else Inl (DownloadStatus url (status resp)), w1))"

text \<open>
  C35: the token leaves for GitHub only.  For a URL that is not \<open>https\<close>, carries credentials, or whose host
  is not \<open>github.com\<close> or below it, the request does not depend on the environment: whatever token is
  set, the client sees the same headers and the download gives the same result and world.
\<close>

theorem token_to_github_only:
  assumes "\<And>u. parse url = Some u \<Longrightarrow>
      u_scheme u \<noteq> ''https'' \<or> u_username u \<noteq> [] \<or> u_password u \<noteq> None
      \<or> (url_host parse (u_text u) \<noteq> ''github.com'' \<and> \<not> ends_with (url_host parse (u_text u)) ''.github.com'')"
  shows "download_opt env parse get w url = download_opt env' parse get w url
    \<and> (\<forall>v. (''Authorization'', v) \<notin> set (download_headers env parse url))"
proof -
  have "\<not> may_send_github_token parse url"
    using assms by (auto simp: may_send_github_token_def is_github_host_def split: option.splits)
  then have "download_headers e parse url = [(''User-Agent'', ''whatspec-restore'')]" for e
    by (simp add: download_headers_def split: option.split)
  then show ?thesis by (simp add: download_opt_def)
qed

theorem token_to_github_only_witness:
  "download_headers (\<lambda>_. Some ''secret'')
     (\<lambda>_. Some \<lparr>u_scheme = ''https'', u_username = ''github.com'', u_password = None, u_host = Some ''evil.test'',
        u_text = ''https://github.com@evil.test/a''\<rparr>) ''https://github.com@evil.test/a''
   = [(''User-Agent'', ''whatspec-restore'')]"
proof -
  let ?p = "\<lambda>_. Some \<lparr>u_scheme = ''https'', u_username = ''github.com'', u_password = None, u_host = Some ''evil.test'',
      u_text = ''https://github.com@evil.test/a''\<rparr>"
  have "\<forall>v. (''Authorization'', v) \<notin> set (download_headers (\<lambda>_. Some ''secret'') ?p ''https://github.com@evil.test/a'')"
    by (rule token_to_github_only [THEN conjunct2]) simp
  then show ?thesis by (auto simp: download_headers_def env_token_def split: if_splits)
qed

section \<open>Resolving the archive\<close>

definition STORE_TAG :: string where "STORE_TAG = ''bundle-store''"
definition DEFAULT_REPO :: string where "DEFAULT_REPO = ''oxidezap/whatspec''"
definition MAX_UNPACKED_BYTES :: nat where "MAX_UNPACKED_BYTES = 1024 * 1024 * 1024"

definition is_http_url :: "string \<Rightarrow> bool" where
  "is_http_url s \<longleftrightarrow> starts_with s ''http://'' \<or> starts_with s ''https://''"

definition js_asset_stem :: "string \<Rightarrow> string \<Rightarrow> string" where
  "js_asset_stem version hash = ''bundles-'' @ version @ ''-'' @ hash"

definition wasm_asset_stem :: "string \<Rightarrow> string" where
  "wasm_asset_stem hash = ''wasm-'' @ hash"

definition release_asset_base_url :: "string \<Rightarrow> string \<Rightarrow> string" where
  "release_asset_base_url repo stem =
     ''https://github.com/'' @ repo @ ''/releases/download/'' @ STORE_TAG @ ''/'' @ stem"

datatype resolve_error =
    Download download_error
  | ArchiveNotFound string
  | NeitherFileNorUrl string
  | NotPublishedYet string

fun try_exts ::
    "('w \<Rightarrow> string \<Rightarrow> (download_error + bytes option) \<times> 'w) \<Rightarrow> string \<Rightarrow> 'w \<Rightarrow> string list
     \<Rightarrow> (resolve_error + bytes) \<times> 'w" where
  "try_exts dl base w [] = (Inl (NotPublishedYet base), w)"
| "try_exts dl base w (ext # exts) =
     (case dl w (base @ ext) of
        (Inl e, w1) \<Rightarrow> (Inl (Download e), w1)
      | (Inr (Some b), w1) \<Rightarrow> (Inr b, w1)
      | (Inr None, w1) \<Rightarrow> try_exts dl base w1 exts)"

definition resolve_archive ::
    "('w \<Rightarrow> string \<Rightarrow> (download_error + bytes option) \<times> 'w) \<Rightarrow> (string \<Rightarrow> bytes option) \<Rightarrow> string option
     \<Rightarrow> string \<Rightarrow> string \<Rightarrow> 'w \<Rightarrow> (resolve_error + bytes) \<times> 'w" where
  \<comment> \<open>\<open>read_local\<close> is the content of a local file, \<open>None\<close> when the path is no file\<close>
  "resolve_archive dl read_local archive repo stem w =
     (case archive of
        Some loc \<Rightarrow>
          if is_http_url loc
          then (case dl w loc of
                  (Inl e, w1) \<Rightarrow> (Inl (Download e), w1)
                | (Inr None, w1) \<Rightarrow> (Inl (ArchiveNotFound loc), w1)
                | (Inr (Some b), w1) \<Rightarrow> (Inr b, w1))
          else (case read_local loc of
                  Some b \<Rightarrow> (Inr b, w)
                | None \<Rightarrow> (Inl (NeitherFileNorUrl loc), w))
      | None \<Rightarrow> try_exts dl (release_asset_base_url repo stem) w [''.tar.xz'', ''.tar.gz''])"

section \<open>What the tar can deliver\<close>

lemma split_on_seps: "\<forall>x \<in> set (split_on P s). \<forall>c \<in> set x. \<not> P c"
  by (induction s) (auto split: list.splits)

lemma path_file_name_plain:
  assumes "path_file_name p = Some n"
  shows "n \<noteq> [] \<and> SLASH \<notin> set n"
proof -
  let ?cs = "filter (\<lambda>c. c \<noteq> [] \<and> c \<noteq> ''.'') (split_on (\<lambda>c. c = SLASH) p)"
  have ne: "?cs \<noteq> []" and n: "n = last ?cs"
    using assms by (auto simp: path_file_name_def Let_def split: if_splits)
  from last_in_set [OF ne] n have "n \<noteq> []" "n \<in> set (split_on (\<lambda>c. c = SLASH) p)" by auto
  with split_on_seps [of "\<lambda>c. c = SLASH" p] show ?thesis by blast
qed

lemma from_utf8_lossy_set: "set (from_utf8_lossy s) \<subseteq> set s \<union> set REPLACEMENT"
proof (induction s rule: from_utf8_lossy.induct)
  case (2 c s)
  obtain ok n where n: "utf8_next c s = (ok, n)" by fastforce
  have IH: "set (from_utf8_lossy (drop (n - 1) s)) \<subseteq> set (drop (n - 1) s) \<union> set REPLACEMENT"
    by (rule 2) (simp_all add: n)
  let ?R = "set (c # s) \<union> set REPLACEMENT"
  have "set (drop (n - 1) s) \<subseteq> set (c # s)" by (rule order_trans [OF set_drop_subset]) auto
  with IH have 1: "set (from_utf8_lossy (drop (n - 1) s)) \<subseteq> ?R" by (meson Un_mono order_refl order_trans)
  have "set (take n (c # s)) \<subseteq> ?R" by (rule order_trans [OF set_take_subset Un_upper1])
  then have 2: "set (if ok then take n (c # s) else REPLACEMENT) \<subseteq> ?R" by (cases ok) (simp only: if_True, simp only: if_False Un_upper2)
  have "from_utf8_lossy (c # s) = (if ok then take n (c # s) else REPLACEMENT) @ from_utf8_lossy (drop (n - 1) s)"
    by (simp only: from_utf8_lossy.simps n Let_def prod.case)
  then have "set (from_utf8_lossy (c # s)) = set (if ok then take n (c # s) else REPLACEMENT)
      \<union> set (from_utf8_lossy (drop (n - 1) s))" by (simp only: set_append)
  with 1 2 show ?case by (metis Un_least)
qed simp

lemma lossy_name_plain: "SLASH \<notin> set n \<Longrightarrow> SLASH \<notin> set (from_utf8_lossy n)"
proof -
  have "SLASH \<notin> set REPLACEMENT" by (simp add: REPLACEMENT_def)
  then show "SLASH \<notin> set n \<Longrightarrow> SLASH \<notin> set (from_utf8_lossy n)" using from_utf8_lossy_set [of n] by blast
qed

definition plain_names :: "(string \<times> bytes) list \<Rightarrow> bool" where
  "plain_names files \<longleftrightarrow> list_all (\<lambda>(n, _). n \<noteq> [] \<and> SLASH \<notin> set n) files"

lemma read_tar_loop_plain:
  "read_tar_loop n es out = Inr res \<Longrightarrow> plain_names out \<Longrightarrow> plain_names res"
proof (induction n es out rule: read_tar_loop.induct)
  case (3 n t es out)
  from "3.prems"(1) consider "\<not> is_regular t" "read_tar_loop n es out = Inr res"
    | p b where "is_regular t" "\<not> n \<le> length out" "entry_path t = Inr p" "path_file_name p \<noteq> None"
      "from_utf8_lossy (the (path_file_name p)) \<noteq> []" "entry_bytes t = Inr b"
      "read_tar_loop n es (out @ [(from_utf8_lossy (the (path_file_name p)), b)]) = Inr res"
    by (auto split: if_splits sum.splits option.splits)
  then show ?case
  proof cases
    case 1
    with 3 show ?thesis by blast
  next
    case 2
    then have "SLASH \<notin> set (from_utf8_lossy (the (path_file_name p)))"
      using path_file_name_plain lossy_name_plain by fastforce
    with 2(5) "3.prems"(2) have "plain_names (out @ [(from_utf8_lossy (the (path_file_name p)), b)])"
      by (simp add: plain_names_def)
    with "3.IH"(2) 2 show ?thesis by auto
  qed
qed simp_all

text \<open>
  Reading the tar yields at least one file and never more than the lock pins (an archive of countless
  empty entries is refused at the first one too many), and every name is a bare, non-empty file name
  without a separator, so nothing read can name a path outside the output directory.
\<close>

theorem read_tar_bounded:
  assumes "read_tar entries tar max_files = Inr files"
  shows "files \<noteq> [] \<and> length files \<le> max_files \<and> plain_names files"
  using assms read_tar_loop_bound [of max_files _ "[]" files] read_tar_loop_plain [of max_files _ "[]" files]
  by (auto simp: read_tar_def plain_names_def split: sum.splits if_splits)

theorem read_tar_bounded_witness:
  "read_tar (\<lambda>_. Inr [Inr \<lparr>is_regular = False, entry_path = Inr ''d/'', entry_bytes = Inr []\<rparr>,
      Inr \<lparr>is_regular = True, entry_path = Inr ''../d/./a.js'', entry_bytes = Inr ''x''\<rparr>]) [] 1
   = Inr [(''a.js'', ''x'')] \<and> plain_names [(''a.js'', ''x'')]"
proof -
  let ?e = "\<lambda>_. Inr [Inr \<lparr>is_regular = False, entry_path = Inr ''d/'', entry_bytes = Inr []\<rparr>,
      Inr \<lparr>is_regular = True, entry_path = Inr ''../d/./a.js'', entry_bytes = Inr ''x''\<rparr>]"
  have "path_file_name ''../d/./a.js'' = Some ''a.js''" by code_simp
  moreover have "from_utf8_lossy ''a.js'' = ''a.js''" by (rule from_utf8_lossy_ascii) (simp add: is_ascii_def)
  ultimately have "read_tar ?e [] 1 = Inr [(''a.js'', ''x'')]" by (simp add: read_tar_def)
  with read_tar_bounded [OF this] show ?thesis by blast
qed

end
