(* ===== verification/Restore.thy ===== *)
theory Restore
  imports Archive Lock Cache
begin

text \<open>
  \<open>crates/wa-store/src/restore.rs\<close>: materializing the locked set out of the store.  The hash maps of the
  source are maps from a hash to the stack of what is left for it.  What \<open>restore\<close> does to the disk is
  the list of file system operations it returns: every check comes before the first of them.
\<close>

section \<open>Data\<close>

datatype restore_target = Bundles path | CacheDir path

record restore_options =
  lock_path :: string
  target :: restore_target
  restore_wasm_set :: bool
  archive_loc :: "string option"
  repo :: string

definition new_options :: "string \<Rightarrow> restore_target \<Rightarrow> restore_options" where
  "new_options p t =
     \<lparr>lock_path = p, target = t, restore_wasm_set = False, archive_loc = None, repo = DEFAULT_REPO\<rparr>"

datatype restore_error =
    LockUnreadable string
  | LockUnparseable string
  | LockInconsistent string inconsistency
  | NoOriginUrl
  | DuplicateUrl string
  | Unresolved resolve_error
  | Decompress decompress_error
  | BadTar tar_error
  | SetMismatch string nat nat "string list" "string list"
  | UnsafeName string
  | NoNameInLock string string
  | HashCountMismatch nat nat
  | LostPayload string
  | LockedSizeMismatch string nat nat
  | DuplicateName string
  | AttachFailed store_wasm_error

type_synonym files = "(string \<times> bytes) list"

section \<open>Stacks by hash\<close>

type_synonym 'v stacks = "string \<rightharpoonup> 'v list"

definition push :: "string \<Rightarrow> 'v \<Rightarrow> 'v stacks \<Rightarrow> 'v stacks" where
  "push k v m = m(k \<mapsto> (case m k of Some vs \<Rightarrow> vs @ [v] | None \<Rightarrow> [v]))"

definition push_all :: "(string \<times> 'v) list \<Rightarrow> 'v stacks" where
  "push_all kvs = fold (\<lambda>(k, v). push k v) kvs (\<lambda>_. None)"

definition pop :: "string \<Rightarrow> 'v stacks \<Rightarrow> ('v \<times> 'v stacks) option" where
  "pop k m =
     (case m k of
        Some vs \<Rightarrow> if vs = [] then None else Some (last vs, m(k \<mapsto> butlast vs))
      | None \<Rightarrow> None)"

section \<open>Checks\<close>

fun preflight_loop :: "lock_entry list \<Rightarrow> string list \<Rightarrow> restore_error option" where
  "preflight_loop [] seen = None"
| "preflight_loop (e # es) seen =
     (case l_url e of
        None \<Rightarrow> Some NoOriginUrl
      | Some url \<Rightarrow>
          if url = [] then Some NoOriginUrl
          else if url \<in> set seen then Some (DuplicateUrl url)
          else preflight_loop es (url # seen))"

definition preflight_cache_lock_urls :: "bundle_lock \<Rightarrow> restore_error option" where
  "preflight_cache_lock_urls lock = preflight_loop (lk_bundles lock) []"

definition safe_payload_name :: "string \<Rightarrow> bool" where
  "safe_payload_name name \<longleftrightarrow>
     \<not> (name = [] \<or> name = ''.'' \<or> name = ''..'' \<or> SLASH \<in> set name \<or> BSLASH \<in> set name
        \<or> CHR 0x00 \<in> set name
        \<or> (case path_file_name name of Some n \<Rightarrow> n \<noteq> name | None \<Rightarrow> True)
        \<or> \<not> ends_with name ''.wasm'')"

text \<open>A hash map of counts, kept in key order.\<close>

definition tally :: "string list \<Rightarrow> (string, int) btree" where
  "tally xs = fold (\<lambda>x m. bt_insert x ((case map_of m x of Some n \<Rightarrow> n | None \<Rightarrow> 0) + 1) m) xs []"

definition lacks :: "(string, int) btree \<Rightarrow> (string, int) btree \<Rightarrow> string list" where
  "lacks a b =
     filter (\<lambda>h. (case map_of b h of Some n \<Rightarrow> n | None \<Rightarrow> 0) < the (map_of a h)) (map fst a)"

definition verify_multiset ::
    "(bytes \<Rightarrow> bytes) \<Rightarrow> files \<Rightarrow> string list \<Rightarrow> nat \<Rightarrow> string \<Rightarrow> restore_error + string list" where
  "verify_multiset dg files locked locked_count label =
     (let want = tally locked;
          got = map (\<lambda>(_, b). sha256_hex dg b) files;
          have_map = tally got
      in if want = have_map then Inr got
         else Inl (SetMismatch label (length files) locked_count (lacks want have_map) (lacks have_map want)))"

definition verify_against_lock ::
    "(bytes \<Rightarrow> bytes) \<Rightarrow> files \<Rightarrow> bundle_lock \<Rightarrow> restore_error + string list" where
  "verify_against_lock dg files lock =
     verify_multiset dg files (map l_sha256 (lk_bundles lock)) (bundle_count lock) ''bundle''"

section \<open>Pairing the files with the lock\<close>

fun lock_names :: "wasm_lock_entry list \<Rightarrow> string stacks \<Rightarrow> restore_error + string stacks" where
  "lock_names [] m = Inr m"
| "lock_names (e # es) m =
     (if \<not> safe_payload_name (w_file_name e) then Inl (UnsafeName (w_file_name e))
      else lock_names es (push (w_sha256 e) (w_file_name e) m))"

fun label_files :: "(string \<times> bytes) list \<Rightarrow> string list \<Rightarrow> string stacks \<Rightarrow> restore_error + files" where
  "label_files ((archive_name, b) # fs) (sha256 # hs) m =
     (case pop sha256 m of
        None \<Rightarrow> Inl (NoNameInLock archive_name sha256)
      | Some (name, m1) \<Rightarrow>
          (case label_files fs hs m1 of Inl e \<Rightarrow> Inl e | Inr out \<Rightarrow> Inr ((name, b) # out)))"
| "label_files _ _ m = Inr []"

definition name_from_lock :: "files \<Rightarrow> string list \<Rightarrow> wasm_lock \<Rightarrow> restore_error + files" where
  "name_from_lock files hashes lock =
     (case lock_names (wl_wasm lock) (\<lambda>_. None) of
        Inl e \<Rightarrow> Inl e
      | Inr m \<Rightarrow> label_files files hashes m)"

text \<open>The loop both cache conversions run over the lock's entries, here \<open>(sha256, size, url)\<close>.\<close>

fun pair_entries :: "(string \<times> nat \<times> string) list \<Rightarrow> bytes stacks \<Rightarrow> restore_error + bundle_rec list" where
  "pair_entries [] m = Inr []"
| "pair_entries ((sha, sz, url) # es) m =
     (case pop sha m of
        None \<Rightarrow> Inl (LostPayload sha)
      | Some (b, m1) \<Rightarrow>
          if length b \<noteq> sz then Inl (LockedSizeMismatch sha sz (length b))
          else (case pair_entries es m1 of
                  Inl e \<Rightarrow> Inl e
                | Inr bs \<Rightarrow> Inr (\<lparr>b_url = url, file_name = bundle_file_name url, b_bytes = b\<rparr> # bs)))"

fun wasm_urls_ok :: "wasm_lock_entry list \<Rightarrow> string list \<Rightarrow> restore_error option" where
  "wasm_urls_ok [] seen = None"
| "wasm_urls_ok (e # es) seen =
     (if w_url e = [] then Some NoOriginUrl
      else if w_url e \<in> set seen then Some (DuplicateUrl (w_url e))
      else wasm_urls_ok es (w_url e # seen))"

definition payloads_for_cache :: "files \<Rightarrow> string list \<Rightarrow> wasm_lock \<Rightarrow> restore_error + bundle_rec list" where
  "payloads_for_cache files hashes lock =
     (case wasm_urls_ok (wl_wasm lock) [] of
        Some e \<Rightarrow> Inl e
      | None \<Rightarrow>
          if length files \<noteq> length hashes then Inl (HashCountMismatch (length files) (length hashes))
          else (case pair_entries (map (\<lambda>e. (w_sha256 e, w_size e, w_url e)) (wl_wasm lock))
                       (push_all (zip hashes (map snd files))) of
                  Inl e \<Rightarrow> Inl e
                | Inr bs \<Rightarrow> Inr (sort_key b_url bs)))"

definition cache_bundles :: "files \<Rightarrow> string list \<Rightarrow> bundle_lock \<Rightarrow> restore_error + bundle_rec list" where
  \<comment> \<open>\<open>write_cache\<close> up to the call of \<open>store\<close>\<close>
  "cache_bundles files hashes lock =
     (case preflight_cache_lock_urls lock of
        Some e \<Rightarrow> Inl e
      | None \<Rightarrow>
          if length files \<noteq> length hashes then Inl (HashCountMismatch (length files) (length hashes))
          else (case pair_entries (map (\<lambda>e. (l_sha256 e, l_size e, the (l_url e))) (lk_bundles lock))
                       (push_all (zip hashes (map snd files))) of
                  Inl e \<Rightarrow> Inl e
                | Inr bs \<Rightarrow> Inr (sort_key b_url bs)))"

section \<open>Writing\<close>

fun first_duplicate :: "string list \<Rightarrow> string list \<Rightarrow> string option" where
  "first_duplicate [] seen = None"
| "first_duplicate (n # ns) seen = (if n \<in> set seen then Some n else first_duplicate ns (n # seen))"

definition write_bundles :: "files \<Rightarrow> path \<Rightarrow> string \<Rightarrow> restore_error + fs_op list" where
  "write_bundles files out ext =
     (case first_duplicate (map fst files) [] of
        Some n \<Rightarrow> Inl (DuplicateName n)
      | None \<Rightarrow>
          Inr (CreateDirAll out # Sweep out (\<lambda>n. path_extension n = Some ext)
               # map (\<lambda>(p, b). WriteFile p b) (map (\<lambda>(n, b). (out @ [n], b)) files)))"

definition write_cache ::
    "(cache_manifest \<Rightarrow> bytes) \<Rightarrow> (bytes \<Rightarrow> bytes) \<Rightarrow> files \<Rightarrow> string list \<Rightarrow> bundle_lock \<Rightarrow> path \<Rightarrow> fs
     \<Rightarrow> restore_error + fs_op list" where
  "write_cache ser dg files hashes lock cache_dir fs =
     (case cache_bundles files hashes lock of
        Inl e \<Rightarrow> Inl e
      | Inr bs \<Rightarrow> Inr (store ser dg cache_dir fs (lk_wa_version lock) bs))"

section \<open>The two restores\<close>

text \<open>Everything that is not in the repository, or is the world.\<close>

record ('w, 'd) deps =
  d_digest :: "bytes \<Rightarrow> bytes"
  d_ser :: "cache_manifest \<Rightarrow> bytes"
  d_de :: "bytes \<Rightarrow> cache_manifest option"
  d_lock :: "bytes \<Rightarrow> bundle_lock option"
  d_wasm_lock :: "bytes \<Rightarrow> wasm_lock option"
  d_new_xz :: "nat \<Rightarrow> 'd"
  d_process :: "'d xz_process"
  d_gunzip :: "bytes \<Rightarrow> nat \<Rightarrow> string + bytes"
  d_tar :: "bytes \<Rightarrow> string + (string + tar_entry) list"
  d_env :: "string \<Rightarrow> string option"
  d_url :: url_parse
  d_get :: "'w http_get"
  d_local :: "string \<Rightarrow> bytes option"

definition read_lock :: "('w, 'd) deps \<Rightarrow> string \<Rightarrow> restore_error + bundle_lock" where
  "read_lock D p =
     (case d_local D p of
        None \<Rightarrow> Inl (LockUnreadable p)
      | Some raw \<Rightarrow>
          (case d_lock D raw of
             None \<Rightarrow> Inl (LockUnparseable p)
           | Some lock \<Rightarrow>
               (case verify_lock (d_digest D) lock of Inl why \<Rightarrow> Inl (LockInconsistent p why) | Inr _ \<Rightarrow> Inr lock)))"

definition read_wasm_lock :: "('w, 'd) deps \<Rightarrow> string \<Rightarrow> restore_error + wasm_lock" where
  "read_wasm_lock D p =
     (case d_local D p of
        None \<Rightarrow> Inl (LockUnreadable p)
      | Some raw \<Rightarrow>
          (case d_wasm_lock D raw of
             None \<Rightarrow> Inl (LockUnparseable p)
           | Some lock \<Rightarrow>
               (case verify_wasm_lock (d_digest D) lock of Inl why \<Rightarrow> Inl (LockInconsistent p why) | Inr _ \<Rightarrow> Inr lock)))"

definition unpack_archive :: "('w, 'd) deps \<Rightarrow> bytes \<Rightarrow> nat \<Rightarrow> nat \<Rightarrow> restore_error + files" where
  "unpack_archive D archive max_unpacked max_files =
     (case decompress (d_new_xz D) (d_process D) (d_gunzip D) archive max_unpacked of
        Inl e \<Rightarrow> Inl (Decompress e)
      | Inr tar_bytes \<Rightarrow>
          (case read_tar (d_tar D) tar_bytes max_files of Inl e \<Rightarrow> Inl (BadTar e) | Inr fs \<Rightarrow> Inr fs))"

definition fetch_archive :: "('w, 'd) deps \<Rightarrow> restore_options \<Rightarrow> string \<Rightarrow> 'w \<Rightarrow> (resolve_error + bytes) \<times> 'w" where
  "fetch_archive D opts stem w =
     resolve_archive (download_opt (d_env D) (d_url D) (d_get D)) (d_local D) (archive_loc opts) (repo opts) stem w"

definition restore_wasm :: "('w, 'd) deps \<Rightarrow> restore_options \<Rightarrow> fs \<Rightarrow> 'w \<Rightarrow> (restore_error + fs_op list) \<times> 'w" where
  "restore_wasm D opts fs w =
     (case read_wasm_lock D (lock_path opts) of
        Inl e \<Rightarrow> (Inl e, w)
      | Inr lock \<Rightarrow>
          (case fetch_archive D opts (wasm_asset_stem (wasm_set_hash lock)) w of
             (Inl e, w1) \<Rightarrow> (Inl (Unresolved e), w1)
           | (Inr archive, w1) \<Rightarrow>
               (bind_res (unpack_archive D archive MAX_UNPACKED_BYTES (wasm_count lock)) (\<lambda>files.
                bind_res (verify_multiset (d_digest D) files (map w_sha256 (wl_wasm lock)) (wasm_count lock)
                            ''wasm payload'') (\<lambda>hashes.
                case target opts of
                  Bundles out \<Rightarrow>
                    bind_res (name_from_lock files hashes lock) (\<lambda>named. write_bundles named out ''wasm'')
                | CacheDir dir \<Rightarrow>
                    bind_res (payloads_for_cache files hashes lock) (\<lambda>payloads.
                      let handles = bt_of (filter_map (\<lambda>e. map_option (Pair (w_url e)) (bx_id e)) (wl_wasm lock))
                      in case store_wasm (d_ser D) (d_de D) (d_digest D) dir fs (wl_wa_version lock) payloads handles of
                           Inl e \<Rightarrow> Inl (AttachFailed e)
                         | Inr ops \<Rightarrow> Inr ops))), w1)))"

definition restore :: "('w, 'd) deps \<Rightarrow> restore_options \<Rightarrow> fs \<Rightarrow> 'w \<Rightarrow> (restore_error + fs_op list) \<times> 'w" where
  "restore D opts fs w =
     (if restore_wasm_set opts then restore_wasm D opts fs w
      else case read_lock D (lock_path opts) of
        Inl e \<Rightarrow> (Inl e, w)
      | Inr lock \<Rightarrow>
          (case (case target opts of CacheDir _ \<Rightarrow> preflight_cache_lock_urls lock | Bundles _ \<Rightarrow> None) of
             Some e \<Rightarrow> (Inl e, w)
           | None \<Rightarrow>
               (case fetch_archive D opts (js_asset_stem (lk_wa_version lock) (lk_set_hash lock)) w of
                  (Inl e, w1) \<Rightarrow> (Inl (Unresolved e), w1)
                | (Inr archive, w1) \<Rightarrow>
                    (bind_res (unpack_archive D archive MAX_UNPACKED_BYTES (bundle_count lock)) (\<lambda>files.
                     bind_res (verify_against_lock (d_digest D) files lock) (\<lambda>hashes.
                     case target opts of
                       Bundles out \<Rightarrow> write_bundles files out ''js''
                     | CacheDir dir \<Rightarrow> write_cache (d_ser D) (d_digest D) files hashes lock dir fs)), w1))))"

section \<open>What a stack map holds\<close>

definition stock :: "'v stacks \<Rightarrow> string \<Rightarrow> 'v multiset" where
  "stock m k = (case m k of Some vs \<Rightarrow> mset vs | None \<Rightarrow> {#})"

definition under :: "(string \<times> 'v) multiset \<Rightarrow> string \<Rightarrow> 'v multiset" where
  "under A k = image_mset snd (filter_mset (\<lambda>p. fst p = k) A)"

definition holds :: "'v stacks \<Rightarrow> (string \<times> 'v) multiset \<Rightarrow> bool" where
  "holds m A \<longleftrightarrow> (\<forall>k. stock m k = under A k)"

lemma under_simps [simp]:
  "under {#} k = {#}" "under (add_mset p A) k = (if fst p = k then add_mset (snd p) (under A k) else under A k)"
  by (simp_all add: under_def)

lemma holds_empty [simp]: "holds (\<lambda>_. None) {#}"
  by (simp add: holds_def stock_def)

lemma holds_push:
  assumes "holds m A"
  shows "holds (push k v m) (add_mset (k, v) A)"
  unfolding holds_def
proof
  fix j
  have "stock m j = under A j" using assms by (simp add: holds_def)
  then show "stock (push k v m) j = under (add_mset (k, v) A) j"
    by (cases "m k") (auto simp: stock_def push_def)
qed

lemma holds_fold_push: "holds m A \<Longrightarrow> holds (fold (\<lambda>(k, v). push k v) kvs m) (A + mset kvs)"
proof (induction kvs arbitrary: m A)
  case (Cons e kvs)
  obtain k v where e: "e = (k, v)" by fastforce
  from Cons.IH [OF holds_push [OF Cons.prems, of k v]] show ?case by (simp add: e)
qed simp

lemma holds_push_all: "holds (push_all kvs) (mset kvs)"
  using holds_fold_push [OF holds_empty, of kvs] by (simp add: push_all_def)

lemma mem_under: "v \<in># under A k \<longleftrightarrow> (k, v) \<in># A"
  by (force simp: under_def)

lemma pop_None: "holds m A \<Longrightarrow> pop k m = None \<Longrightarrow> k \<notin># image_mset fst A"
proof
  assume h: "holds m A" "pop k m = None" and "k \<in># image_mset fst A"
  then obtain v where "(k, v) \<in># A" by auto
  then have "v \<in># stock m k" using h(1) by (simp add: holds_def mem_under)
  with h(2) show False by (auto simp: stock_def pop_def split: option.splits if_splits)
qed

lemma pop_Some:
  assumes "holds m A" "pop k m = Some (v, m1)"
  obtains A1 where "A = add_mset (k, v) A1" "holds m1 A1"
proof -
  from assms(2) obtain vs where vs: "m k = Some vs" "vs \<noteq> []" "v = last vs" "m1 = m(k \<mapsto> butlast vs)"
    by (auto simp: pop_def split: option.splits if_splits)
  have "mset vs = mset (butlast vs @ [last vs])" using vs(2) by simp
  then have vs_mset: "mset vs = add_mset v (mset (butlast vs))" by (simp add: vs(3))
  then have "v \<in># stock m k" by (simp add: stock_def vs(1))
  then have "(k, v) \<in># A" using assms(1) by (simp add: holds_def mem_under)
  then obtain A1 where A1: "A = add_mset (k, v) A1" by (meson multi_member_split)
  have "holds m1 A1" unfolding holds_def
  proof
    fix j
    have "stock m j = under A j" using assms(1) by (simp add: holds_def)
    then show "stock m1 j = under A1 j"
      by (cases "j = k") (auto simp: stock_def vs vs_mset A1)
  qed
  with A1 show ?thesis by (rule that)
qed

section \<open>The pairings succeed and keep every pair\<close>

lemma pair_entries_pairs:
  "holds m A \<Longrightarrow> pair_entries es m = Inr bs \<Longrightarrow>
   (\<exists>R. A = mset (zip (map fst es) (map b_bytes bs)) + R) \<and> map b_url bs = map (snd \<circ> snd) es
   \<and> map (length \<circ> b_bytes) bs = map (fst \<circ> snd) es
   \<and> map file_name bs = map (bundle_file_name \<circ> snd \<circ> snd) es"
proof (induction es arbitrary: m A bs)
  case (Cons e es)
  obtain sha sz url where e: "e = (sha, sz, url)" using prod_cases3 by blast
  from Cons.prems(2) obtain b m1 bs1 where p: "pop sha m = Some (b, m1)" "length b = sz"
      "pair_entries es m1 = Inr bs1" "bs = \<lparr>b_url = url, file_name = bundle_file_name url, b_bytes = b\<rparr> # bs1"
    by (auto simp: e split: option.splits sum.splits if_splits)
  obtain A1 where A1: "A = add_mset (sha, b) A1" "holds m1 A1" using pop_Some [OF Cons.prems(1) p(1)] .
  from Cons.IH [OF A1(2) p(3)] p A1(1) show ?case by (auto simp: e)
qed simp

lemma pair_entries_ok:
  "holds m A \<Longrightarrow> mset (map fst es) \<subseteq># image_mset fst A \<Longrightarrow>
   (\<And>sha sz url v. (sha, sz, url) \<in> set es \<Longrightarrow> (sha, v) \<in># A \<Longrightarrow> length v = sz) \<Longrightarrow>
   \<exists>bs. pair_entries es m = Inr bs"
proof (induction es arbitrary: m A)
  case (Cons e es)
  obtain sha sz url where e: "e = (sha, sz, url)" using prod_cases3 by blast
  have "sha \<in># image_mset fst A"
    using Cons.prems(2) by (metis e fst_conv list.simps(9) mset.simps(2) mset_subset_eq_insertD)
  then obtain b m1 where p: "pop sha m = Some (b, m1)" using pop_None [OF Cons.prems(1)] by fastforce
  obtain A1 where A1: "A = add_mset (sha, b) A1" "holds m1 A1" using pop_Some [OF Cons.prems(1) p] .
  have "mset (map fst es) \<subseteq># image_mset fst A1" using Cons.prems(2) by (simp add: e A1(1))
  moreover have "length v = sz'" if "(sha', sz', url') \<in> set es" "(sha', v) \<in># A1" for sha' sz' url' v
    using Cons.prems(3) [of sha' sz' url' v] that by (simp add: A1(1))
  ultimately obtain bs where "pair_entries es m1 = Inr bs" using Cons.IH [OF A1(2)] by blast
  moreover have "length b = sz" using Cons.prems(3) [of sha sz url b] by (simp add: e A1(1))
  ultimately show ?case using p by (simp add: e)
qed simp

lemma label_files_pairs:
  "holds m A \<Longrightarrow> length fs = length hs \<Longrightarrow> mset hs \<subseteq># image_mset fst A \<Longrightarrow>
   \<exists>out. label_files fs hs m = Inr out \<and> map snd out = map snd fs
     \<and> (\<exists>R. A = mset (zip hs (map fst out)) + R)"
proof (induction fs hs m arbitrary: A rule: label_files.induct)
  case (1 nm b fs h hs m)
  have "h \<in># image_mset fst A" using "1.prems"(3) by (metis mset.simps(2) mset_subset_eq_insertD)
  then obtain n m1 where p: "pop h m = Some (n, m1)" using pop_None [OF "1.prems"(1)] by fastforce
  obtain A1 where A1: "A = add_mset (h, n) A1" "holds m1 A1" using pop_Some [OF "1.prems"(1) p] .
  have "\<exists>out. label_files fs hs m1 = Inr out \<and> map snd out = map snd fs
     \<and> (\<exists>R. A1 = mset (zip hs (map fst out)) + R)"
    by (rule "1.IH" [OF p refl A1(2)]) (use "1.prems" A1(1) in auto)
  then show ?case using p A1(1) by auto
qed auto

section \<open>Verification\<close>

lemma fold_tally:
  "bt_ok m \<Longrightarrow>
   bt_ok (fold (\<lambda>x m. bt_insert x ((case map_of m x of Some n \<Rightarrow> n | None \<Rightarrow> 0) + 1) m) xs m)
   \<and> (\<forall>k. map_of (fold (\<lambda>x m. bt_insert x ((case map_of m x of Some n \<Rightarrow> n | None \<Rightarrow> 0) + 1) m) xs m) k =
       (if k \<in> set xs then Some ((case map_of m k of Some n \<Rightarrow> n | None \<Rightarrow> 0) + int (count (mset xs) k))
        else map_of m k))"
  by (induction xs arbitrary: m) (auto simp: count_eq_zero_iff split: option.splits)

lemma tally_map: "map_of (tally xs) k = (if k \<in> set xs then Some (int (count (mset xs) k)) else None)"
  and tally_ok: "bt_ok (tally xs)"
  using fold_tally [of "[]" xs] by (auto simp: tally_def)

lemma tally_eq: "tally xs = tally ys \<longleftrightarrow> mset xs = mset ys"
proof
  assume eq: "tally xs = tally ys"
  show "mset xs = mset ys"
  proof (rule multiset_eqI)
    fix k
    from eq have "map_of (tally xs) k = map_of (tally ys) k" by simp
    then show "count (mset xs) k = count (mset ys) k"
    proof (cases "k \<in> set xs")
      case False
      with \<open>map_of (tally xs) k = map_of (tally ys) k\<close> have "k \<notin> set ys"
        by (auto simp: tally_map split: if_splits)
      with False have "count (mset xs) k = 0" "count (mset ys) k = 0"
        by (simp_all add: count_eq_zero_iff)
      then show ?thesis by (simp only:)
    qed (auto simp: tally_map split: if_splits)
  qed
next
  assume eq: "mset xs = mset ys"
  then have "set xs = set ys" by (rule mset_eq_setD)
  with eq have "map_of (tally xs) = map_of (tally ys)" by (auto simp: tally_map)
  then show "tally xs = tally ys" by (rule bt_ok_unique [OF tally_ok tally_ok])
qed

lemma verify_multiset_Inr:
  "verify_multiset dg files locked n label = Inr hs \<longleftrightarrow>
   hs = map (\<lambda>(_, b). sha256_hex dg b) files \<and> mset hs = mset locked"
  by (auto simp: verify_multiset_def Let_def tally_eq)

text \<open>
  Verification accepts exactly the archives whose files have the locked content hashes with the locked
  multiplicities, in any order: a dropped, added, duplicated or swapped file is an error, never a
  different set; what is handed on are the hashes of the files themselves.
\<close>

theorem verify_multiset_exact:
  "verify_multiset dg files locked n label = Inr hs \<longleftrightarrow>
   hs = map (\<lambda>(_, b). sha256_hex dg b) files \<and> mset hs = mset locked"
  by (rule verify_multiset_Inr)

section \<open>Restoring WASM under the locked names\<close>

lemma lock_names_ok:
  "\<forall>e \<in> set es. safe_payload_name (w_file_name e) \<Longrightarrow> holds m A \<Longrightarrow>
   \<exists>m1. lock_names es m = Inr m1 \<and> holds m1 (A + mset (map (\<lambda>e. (w_sha256 e, w_file_name e)) es))"
proof (induction es arbitrary: m A)
  case (Cons e es)
  from Cons.IH [OF _ holds_push [OF Cons.prems(2), of "w_sha256 e" "w_file_name e"]] Cons.prems(1)
  show ?case by simp
qed simp

lemma lock_names_unsafe:
  "lock_names es m = Inr m1 \<Longrightarrow> \<forall>e \<in> set es. safe_payload_name (w_file_name e)"
  by (induction es arbitrary: m) (auto split: if_splits)

lemma zip_hashes_labels:
  "length hs = length out \<Longrightarrow> hs = map (\<lambda>(_, b). f b) out \<Longrightarrow> zip hs (map fst out) = map (\<lambda>(n, b). (f b, n)) out"
  by (simp add: zip_map_fst_snd split_def) (simp add: zip_map1 zip_map2 zip_same_conv_map)

lemma mset_zip_eq_whole:
  assumes "A = mset (zip hs xs) + R" "mset hs = image_mset fst A" "length xs = length hs"
  shows "A = mset (zip hs xs)"
proof -
  have "size A = length hs" using arg_cong [OF assms(2), of size] by simp
  then have "size R = 0" using arg_cong [OF assms(1), of size] assms(3) by simp
  with assms(1) show ?thesis by simp
qed

text \<open>
  A verified WASM archive is restored under the lock's names, not its own: naming succeeds whenever the
  locked names are safe, changes no bytes, and the \<open>(content hash, name)\<close> pairs written are exactly the
  locked ones, so swapping two names in the archive has no effect; a lock with an unsafe name is
  refused.
\<close>

theorem name_from_lock_pairs:
  assumes "verify_multiset dg files (map w_sha256 (wl_wasm lock)) n label = Inr hs"
  shows "(list_all (\<lambda>e. safe_payload_name (w_file_name e)) (wl_wasm lock) \<longrightarrow>
      (\<exists>named. name_from_lock files hs lock = Inr named \<and> map snd named = map snd files
        \<and> mset (map (\<lambda>(name, b). (sha256_hex dg b, name)) named)
          = mset (map (\<lambda>e. (w_sha256 e, w_file_name e)) (wl_wasm lock))))
    \<and> (\<not> list_all (\<lambda>e. safe_payload_name (w_file_name e)) (wl_wasm lock) \<longrightarrow>
        \<not> (\<exists>named. name_from_lock files hs lock = Inr named))"
proof -
  let ?locked = "map (\<lambda>e. (w_sha256 e, w_file_name e)) (wl_wasm lock)"
  have hs: "hs = map (\<lambda>(_, b). sha256_hex dg b) files" "mset hs = mset (map w_sha256 (wl_wasm lock))"
    using assms unfolding verify_multiset_Inr by blast+
  have keys: "mset hs = image_mset fst (mset ?locked)" using hs(2) by (simp add: image_mset.compositionality o_def)
  have "\<exists>named. name_from_lock files hs lock = Inr named \<and> map snd named = map snd files
      \<and> mset (map (\<lambda>(name, b). (sha256_hex dg b, name)) named) = mset ?locked"
    if safe: "\<forall>e \<in> set (wl_wasm lock). safe_payload_name (w_file_name e)"
  proof -
    obtain m where m: "lock_names (wl_wasm lock) (\<lambda>_. None) = Inr m" "holds m (mset ?locked)"
      using lock_names_ok [OF safe holds_empty] by auto
    obtain out R where out: "label_files files hs m = Inr out" "map snd out = map snd files"
      "mset ?locked = mset (zip hs (map fst out)) + R"
      using label_files_pairs [OF m(2), of files hs] hs(1) keys by auto
    have len: "length out = length hs" using arg_cong [OF out(2), of length] hs(1) by simp
    have "hs = map (sha256_hex dg) (map snd files)" using hs(1) by (simp add: o_def split_def)
    then have "hs = map (sha256_hex dg) (map snd out)" by (simp only: out(2))
    then have "hs = map (\<lambda>(_, b). sha256_hex dg b) out" by (simp add: o_def split_def)
    note zip_hashes_labels [OF len [symmetric] this]
    moreover have "mset ?locked = mset (zip hs (map fst out))"
      by (rule mset_zip_eq_whole [OF out(3) keys]) (simp add: len)
    ultimately have "mset (map (\<lambda>(name, b). (sha256_hex dg b, name)) out) = mset ?locked" by simp
    with m(1) out(1,2) show ?thesis by (auto simp: name_from_lock_def)
  qed
  moreover have "list_all (\<lambda>e. safe_payload_name (w_file_name e)) (wl_wasm lock)"
    if "name_from_lock files hs lock = Inr named" for named
    using that lock_names_unsafe by (auto simp: name_from_lock_def list_all_iff split: sum.splits)
  ultimately show ?thesis by (auto simp: list_all_iff)
qed

definition sample_wasm_lock :: wasm_lock where
  "sample_wasm_lock =
     \<lparr>wl_wa_version = ''2.1'', wasm_set_hash = [], wasm_count = 2, wl_bootloader = None,
      wl_wasm =
       [\<lparr>bx_id = None, w_file_name = ''a.wasm'', w_url = ''u/a.wasm'', w_sha256 = sha256_hex id ''A'', w_size = 1\<rparr>,
        \<lparr>bx_id = Some ''7'', w_file_name = ''b.wasm'', w_url = ''u/b.wasm'', w_sha256 = sha256_hex id ''B'', w_size = 1\<rparr>]\<rparr>"

theorem name_from_lock_pairs_witness:
  "name_from_lock [(''b.wasm'', ''A''), (''a.wasm'', ''B'')] [sha256_hex id ''A'', sha256_hex id ''B''] sample_wasm_lock
   = Inr [(''a.wasm'', ''A''), (''b.wasm'', ''B'')]"
proof -
  let ?hs = "[sha256_hex id ''A'', sha256_hex id ''B'']"
  have v: "verify_multiset id [(''b.wasm'', ''A''), (''a.wasm'', ''B'')] (map w_sha256 (wl_wasm sample_wasm_lock)) 2 ''x'' = Inr ?hs"
    by (simp add: verify_multiset_Inr sample_wasm_lock_def)
  have "safe_payload_name ''a.wasm''" "safe_payload_name ''b.wasm''" by code_simp+
  then have "list_all (\<lambda>e. safe_payload_name (w_file_name e)) (wl_wasm sample_wasm_lock)"
    by (simp add: sample_wasm_lock_def)
  with name_from_lock_pairs [OF v] obtain named where
    "name_from_lock [(''b.wasm'', ''A''), (''a.wasm'', ''B'')] ?hs sample_wasm_lock = Inr named"
    "map snd named = [''A'', ''B'']"
    "mset (map (\<lambda>(name, b). (sha256_hex id b, name)) named)
       = mset (map (\<lambda>e. (w_sha256 e, w_file_name e)) (wl_wasm sample_wasm_lock))"
    by auto
  note n = this
  obtain x y where named: "named = [(x, ''A''), (y, ''B'')]" using n(2) by auto
  have "set (map (\<lambda>(name, b). (sha256_hex id b, name)) named) = {(sha256_hex id ''A'', ''a.wasm''), (sha256_hex id ''B'', ''b.wasm'')}"
    using mset_eq_setD [OF n(3)] by (simp add: sample_wasm_lock_def)
  then have "x = ''a.wasm''" "y = ''b.wasm''" by (auto simp: named sha256_hex_eq_iff doubleton_eq_iff)
  with n(1) named show ?thesis by simp
qed

section \<open>The restored directory\<close>

lemma first_duplicate_None: "first_duplicate ns seen = None \<Longrightarrow> distinct ns \<and> set ns \<inter> set seen = {}"
proof (induction ns arbitrary: seen)
  case (Cons a ns)
  then show ?case using Cons.IH [of "a # seen"] by (auto split: if_splits)
qed simp

text \<open>A directory swept of the selected files and then filled holds, of those, exactly what was written.\<close>

lemma swept_writes_exact:
  assumes "runs (CreateDirAll out # Sweep out sel # map (\<lambda>(p, b). WriteFile p b) (map (\<lambda>(n, b). (out @ [n], b)) files))
      fs True fs'"
    and dist: "distinct (map fst files)" and n: "n \<in> fst ` set files \<or> sel n"
  shows "read_file fs' (out @ [n]) = map_of files n"
proof -
  let ?ws = "map (\<lambda>(n, b). (out @ [n], b)) files"
  have "\<forall>op \<in> set (CreateDirAll out # Sweep out sel # map (\<lambda>(p, b). WriteFile p b) ?ws). strict_op op" by auto
  with runs_True_exec [OF assms(1)] have
    fs': "fs' = exec_ops (map (\<lambda>(p, b). WriteFile p b) ?ws) (exec_op (Sweep out sel) (exec_op (CreateDirAll out) fs))"
    by simp
  have fst_ws: "map fst ?ws = map (\<lambda>n. out @ [n]) (map fst files)" by (simp add: o_def split_def)
  have dist_ws: "distinct (map fst ?ws)"
    unfolding fst_ws using dist by (simp add: distinct_map inj_on_def)
  show ?thesis
  proof (cases "n \<in> fst ` set files")
    case True
    then obtain b where b: "(n, b) \<in> set files" by auto
    then have "(out @ [n], b) \<in> set ?ws" by force
    from exec_writes_mem [OF this dist_ws] have "read_file fs' (out @ [n]) = Some b"
      by (simp add: fs' read_file_def)
    with b dist show ?thesis by simp
  next
    case False
    have "out @ [n] \<notin> fst ` set ?ws" using False by (auto simp: image_iff)
    from exec_writes_notin [OF this] have "fs' (out @ [n]) = exec_op (Sweep out sel) (exec_op (CreateDirAll out) fs) (out @ [n])"
      by (simp add: fs')
    moreover have "selected out sel (out @ [n])" using False n by (simp add: selected_child)
    ultimately have "read_file fs' (out @ [n]) = None"
      by (auto simp: read_file_def is_file_def split: option.splits node.splits)
    moreover have "map_of files n = None" using False by (simp add: map_of_eq_None_iff)
    ultimately show ?thesis by simp
  qed
qed

text \<open>
  After a completed restore into a directory, the directory holds exactly the restored set: every
  restored name has the restored bytes, and no other file with the set's extension is left; an
  archive with two entries of one name is refused before the directory is touched.
\<close>

theorem write_bundles_exact:
  assumes "write_bundles files out ext = Inr ops" and "runs ops fs True fs'"
    and "n \<in> fst ` set files \<or> path_extension n = Some ext"
  shows "read_file fs' (out @ [n]) = map_of files n \<and> distinct (map fst files)"
proof -
  have "ops = CreateDirAll out # Sweep out (\<lambda>n. path_extension n = Some ext)
      # map (\<lambda>(p, b). WriteFile p b) (map (\<lambda>(n, b). (out @ [n], b)) files)"
    and "distinct (map fst files)"
    using assms(1) first_duplicate_None by (auto simp: write_bundles_def split: option.splits)
  with swept_writes_exact [of out "\<lambda>n. path_extension n = Some ext" files fs fs' n] assms(2,3) show ?thesis by simp
qed

theorem write_bundles_exact_witness:
  "\<exists>ops. write_bundles [(''a.js'', ''x'')] [''o''] ''js'' = Inr ops
     \<and> read_file (exec_ops ops ((\<lambda>_. None)([''o'', ''old.js''] := Some (File ''y'')))) [''o'', ''old.js''] = None"
proof -
  let ?fs = "(\<lambda>_. None)([''o'', ''old.js''] := Some (File ''y'')) :: fs"
  obtain ops where ops: "write_bundles [(''a.js'', ''x'')] [''o''] ''js'' = Inr ops"
    by (simp add: write_bundles_def)
  have "path_extension ''old.js'' = Some ''js''" by code_simp
  with write_bundles_exact [OF ops runs_exec, of "''old.js''" ?fs] ops show ?thesis by simp
qed

section \<open>The restored cache\<close>

lemma zip_map_eq: "length xs = length ys \<Longrightarrow> \<forall>p \<in> set (zip xs ys). f (snd p) = fst p \<Longrightarrow> map f ys = xs"
  by (induction xs ys rule: list_induct2) auto

lemma cache_bundles_content:
  assumes "cache_bundles files hs lock = Inr bs" "hs = map (\<lambda>(_, b). sha256_hex dg b) files"
  shows "sorted (map b_url bs)"
    and "mset (map (\<lambda>b. (Some (b_url b), sha256_hex dg (b_bytes b), length (b_bytes b))) bs)
      = mset (map (\<lambda>e. (l_url e, l_sha256 e, l_size e)) (lk_bundles lock))"
    and "preflight_cache_lock_urls lock = None"
    and "\<forall>b \<in> set bs. file_name b = bundle_file_name (b_url b)"
proof -
  let ?es = "map (\<lambda>e. (l_sha256 e, l_size e, the (l_url e))) (lk_bundles lock)"
  from assms(1) obtain bs0 where pre: "preflight_cache_lock_urls lock = None"
    and p: "pair_entries ?es (push_all (zip hs (map snd files))) = Inr bs0" and bs: "bs = sort_key b_url bs0"
    by (auto simp: cache_bundles_def split: option.splits sum.splits if_splits)
  from pre show "preflight_cache_lock_urls lock = None" .
  show "sorted (map b_url bs)" by (simp add: bs)
  obtain R where R: "mset (zip hs (map snd files)) = mset (zip (map fst ?es) (map b_bytes bs0)) + R"
    and facts: "map b_url bs0 = map (snd \<circ> snd) ?es" "map (length \<circ> b_bytes) bs0 = map (fst \<circ> snd) ?es"
    and names: "map file_name bs0 = map (bundle_file_name \<circ> snd \<circ> snd) ?es"
    using pair_entries_pairs [OF holds_push_all p] by blast
  have "map file_name bs0 = map bundle_file_name (map b_url bs0)" by (simp only: names facts(1) map_map o_assoc)
  then show "\<forall>b \<in> set bs. file_name b = bundle_file_name (b_url b)" by (simp add: bs)
  have len: "length (map fst ?es) = length (map b_bytes bs0)" using arg_cong [OF facts(1), of length] by simp
  have "\<forall>p \<in> set (zip (map fst ?es) (map b_bytes bs0)). sha256_hex dg (snd p) = fst p"
  proof
    fix p assume "p \<in> set (zip (map fst ?es) (map b_bytes bs0))"
    then have "p \<in># mset (zip hs (map snd files))" unfolding R by simp
    then have "p \<in> set (zip hs (map snd files))" by simp
    then show "sha256_hex dg (snd p) = fst p" by (auto simp: assms(2) set_zip split_def)
  qed
  from zip_map_eq [OF len this] have sha: "map (sha256_hex dg) (map b_bytes bs0) = map fst ?es" .
  have urls: "map (\<lambda>b. Some (b_url b)) bs0 = map l_url (lk_bundles lock)"
  proof -
    have ok: "preflight_loop es seen = None \<Longrightarrow> \<forall>e \<in> set es. \<exists>u. l_url e = Some u" for es seen
      by (induction es arbitrary: seen) (auto split: option.splits if_splits)
    have "map Some (map b_url bs0) = map Some (map (\<lambda>e. the (l_url e)) (lk_bundles lock))"
      using facts(1) by (simp add: o_def)
    also have "\<dots> = map l_url (lk_bundles lock)"
      using ok [OF pre [unfolded preflight_cache_lock_urls_def]] by auto
    finally show ?thesis by (simp add: o_def)
  qed
  have "map (\<lambda>b. (Some (b_url b), sha256_hex dg (b_bytes b), length (b_bytes b))) bs0
      = zip (map (\<lambda>b. Some (b_url b)) bs0) (zip (map (sha256_hex dg) (map b_bytes bs0)) (map (length \<circ> b_bytes) bs0))"
    by (simp add: zip_map1 zip_map2 zip_same_conv_map)
  also have "\<dots> = zip (map l_url (lk_bundles lock)) (zip (map fst ?es) (map (fst \<circ> snd) ?es))"
    by (simp only: urls sha facts(2))
  also have "\<dots> = map (\<lambda>e. (l_url e, l_sha256 e, l_size e)) (lk_bundles lock)"
    by (simp add: zip_map1 zip_map2 zip_same_conv_map)
  finally show "mset (map (\<lambda>b. (Some (b_url b), sha256_hex dg (b_bytes b), length (b_bytes b))) bs)
      = mset (map (\<lambda>e. (l_url e, l_sha256 e, l_size e)) (lk_bundles lock))"
    unfolding bs by (metis (no_types, lifting) mset_map mset_sort)
qed

lemma preflight_distinct:
  "preflight_cache_lock_urls lock = None \<Longrightarrow> distinct (map l_url (lk_bundles lock))"
proof -
  have "preflight_loop es seen = None \<Longrightarrow> distinct (map l_url es) \<and> set (map l_url es) \<inter> Some ` set seen = {}" for es seen
  proof (induction es arbitrary: seen)
    case (Cons e es)
    then show ?case using Cons.IH [of "the (l_url e) # seen"] by (auto split: option.splits if_splits)
  qed simp
  then show "preflight_cache_lock_urls lock = None \<Longrightarrow> distinct (map l_url (lk_bundles lock))"
    unfolding preflight_cache_lock_urls_def by blast
qed

lemma write_cache_Inr:
  "write_cache ser dg files hs lock dir fs = Inr ops \<longleftrightarrow>
   (\<exists>bs. cache_bundles files hs lock = Inr bs \<and> ops = store ser dg dir fs (lk_wa_version lock) bs)"
  by (auto simp: write_cache_def split: sum.split)

lemma restore_cache_steps:
  assumes "restore D opts fs w = (Inr ops, w1)" "\<not> restore_wasm_set opts" "target opts = CacheDir dir"
  obtains lock files hs bs where "read_lock D (lock_path opts) = Inr lock"
    "verify_against_lock (d_digest D) files lock = Inr hs" "cache_bundles files hs lock = Inr bs"
    "ops = store (d_ser D) (d_digest D) dir fs (lk_wa_version lock) bs"
  using assms
  by (auto simp: restore_def write_cache_Inr split: sum.splits option.splits prod.splits)

text \<open>
  C1: the whole restore into a cache: when \<open>restore\<close> succeeds and its operations complete, probing the
  cache for the locked version is a hit whose bundles are sorted by URL and are exactly the locked
  \<open>(url, sha256, size)\<close> triples with their multiplicities, whatever the archive named its files and in
  whatever order it held them (the locked URLs must not collide under the digest).
\<close>

theorem restore_cache_hit:
  assumes "restore D opts fs w = (Inr ops, w1)" "\<not> restore_wasm_set opts" "target opts = CacheDir dir"
    and "runs ops fs True fs'"
    and "read_lock D (lock_path opts) = Inr lock"
    and "inj_on (d_digest D) (the ` l_url ` set (lk_bundles lock))"
  shows "\<exists>bs. sorted (map b_url bs) \<and> map file_name bs = map (\<lambda>b. bundle_file_name (b_url b)) bs
    \<and> mset (map (\<lambda>b. (Some (b_url b), sha256_hex (d_digest D) (b_bytes b), length (b_bytes b))) bs)
        = mset (map (\<lambda>e. (l_url e, l_sha256 e, l_size e)) (lk_bundles lock))
    \<and> (d_de D (d_ser D (new_manifest (d_digest D) (lk_wa_version lock) bs) @ [CHR 0x0A])
          = Some (new_manifest (d_digest D) (lk_wa_version lock) bs) \<longrightarrow>
        check (d_de D) (d_digest D) dir fs' (lk_wa_version lock) = Hit bs)"
proof -
  let ?dg = "d_digest D"
  obtain lock' files hs bs where l: "read_lock D (lock_path opts) = Inr lock'"
    and v: "verify_against_lock ?dg files lock' = Inr hs" and c: "cache_bundles files hs lock' = Inr bs"
    and ops: "ops = store (d_ser D) ?dg dir fs (lk_wa_version lock') bs"
    using restore_cache_steps [OF assms(1-3)] by blast
  from l assms(5) have lock': "lock' = lock" by simp
  have hs: "hs = map (\<lambda>(_, b). sha256_hex ?dg b) files"
    using v unfolding verify_against_lock_def verify_multiset_Inr by blast
  note content = cache_bundles_content [OF c hs, unfolded lock']
  have "mset (map (\<lambda>b. Some (b_url b)) bs) = mset (map l_url (lk_bundles lock))"
    using arg_cong [OF content(2), of "image_mset fst"] by (simp add: image_mset.compositionality o_def)
  note urls = this
  have "distinct (map (\<lambda>b. Some (b_url b)) bs)"
    using preflight_distinct [OF content(3)] mset_eq_imp_distinct_iff [OF urls] by simp
  then have dist: "distinct (map b_url bs)" by (simp add: distinct_map inj_on_def)
  have "b_url ` set bs = the ` l_url ` set (lk_bundles lock)"
    using arg_cong [OF mset_eq_setD [OF urls], of "(`) the"] by (simp add: image_image)
  with assms(6) dist have "distinct (map ?dg (map b_url bs))" by (simp only: distinct_map set_map)
  then have "distinct (map (\<lambda>b. ?dg (b_url b)) bs)" by (simp add: o_def)
  from store_complete_check [where v = "lk_wa_version lock" and de = "d_de D", OF assms(4) [unfolded ops lock'] this]
  have "d_de D (d_ser D (new_manifest ?dg (lk_wa_version lock) bs) @ [CHR 0x0A])
      = Some (new_manifest ?dg (lk_wa_version lock) bs) \<longrightarrow>
      check (d_de D) ?dg dir fs' (lk_wa_version lock) = Hit bs" by simp
  moreover have "map file_name bs = map (\<lambda>b. bundle_file_name (b_url b)) bs" using content(4) by simp
  ultimately show ?thesis using content(1,2) by blast
qed

text \<open>A world in which the release answers with a one-file archive, for the locks below.\<close>

definition sample_lock :: bundle_lock where
  "sample_lock = new_lock rev ''2.1'' [\<lparr>id_sha256 = sha256_hex rev ''x'', id_size = 1, id_url = Some ''u/a.js''\<rparr>]"

definition sample_deps :: "(unit, unit) deps" where
  "sample_deps =
     \<lparr>d_digest = rev, d_ser = (\<lambda>_. ''m''),
      d_de = (\<lambda>_. Some (new_manifest rev ''2.1'' [\<lparr>b_url = ''u/a.js'', file_name = ''a.js'', b_bytes = ''x''\<rparr>])),
      d_lock = (\<lambda>_. Some sample_lock), d_wasm_lock = (\<lambda>_. None), d_new_xz = (\<lambda>_. ()), d_process = copy_decoder,
      d_gunzip = (\<lambda>a n. Inr (take n a)),
      d_tar = (\<lambda>_. Inr [Inr \<lparr>is_regular = True, entry_path = Inr ''whatever'', entry_bytes = Inr ''x''\<rparr>]),
      d_env = (\<lambda>_. None), d_url = (\<lambda>_. None), d_get = (\<lambda>w url hs n. (Inl ''offline'', w)),
      d_local = (\<lambda>p. if p = ''l'' then Some [] else if p = ''a'' then Some GZIP_MAGIC else None)\<rparr>"

definition sample_options :: restore_options where
  "sample_options = (new_options ''l'' (CacheDir [''c'']))\<lparr>archive_loc := Some ''a''\<rparr>"

lemma sample_lock_ok: "verify_lock rev sample_lock = Inr ()"
  by (simp add: verify_lock_def sample_lock_def new_lock_def set_hash_def set_text_def hash_line_def entry_id_def)

lemma sample_read_lock: "read_lock sample_deps ''l'' = Inr sample_lock"
  by (simp add: read_lock_def sample_deps_def sample_lock_ok)

lemma sample_files:
  "unpack_archive sample_deps GZIP_MAGIC MAX_UNPACKED_BYTES 1 = Inr [(''whatever'', ''x'')]"
proof -
  have "path_file_name ''whatever'' = Some ''whatever''" by code_simp
  moreover have "from_utf8_lossy ''whatever'' = ''whatever''" by (rule from_utf8_lossy_ascii) (simp add: is_ascii_def)
  moreover have "\<not> starts_with GZIP_MAGIC XZ_MAGIC" "starts_with GZIP_MAGIC GZIP_MAGIC"
    by (simp_all add: starts_with_def GZIP_MAGIC_def XZ_MAGIC_def)
  moreover have "length GZIP_MAGIC \<le> MAX_UNPACKED_BYTES" by (simp add: GZIP_MAGIC_def MAX_UNPACKED_BYTES_def)
  ultimately show ?thesis
    by (simp add: unpack_archive_def sample_deps_def decompress_def read_tar_def)
qed

lemma sample_restore:
  "restore sample_deps sample_options fs () =
     (Inr (store (\<lambda>_. ''m'') rev [''c''] fs ''2.1'' [\<lparr>b_url = ''u/a.js'', file_name = ''a.js'', b_bytes = ''x''\<rparr>]), ())"
proof -
  let ?b = "\<lparr>b_url = ''u/a.js'', file_name = ''a.js'', b_bytes = ''x''\<rparr>"
  have lk: "lk_bundles sample_lock = [\<lparr>l_sha256 = sha256_hex rev ''x'', l_size = 1, l_url = Some ''u/a.js''\<rparr>]"
    "bundle_count sample_lock = 1" "lk_wa_version sample_lock = ''2.1''"
    by (simp_all add: sample_lock_def new_lock_def)
  have pre: "preflight_cache_lock_urls sample_lock = None" by (simp add: preflight_cache_lock_urls_def lk)
  have fetch: "fetch_archive sample_deps sample_options stem () = (Inr GZIP_MAGIC, ())" for stem
    by (simp add: fetch_archive_def resolve_archive_def sample_options_def new_options_def sample_deps_def
        is_http_url_def starts_with_def)
  have v: "verify_against_lock rev [(''whatever'', ''x'')] sample_lock = Inr [sha256_hex rev ''x'']"
    by (simp add: verify_against_lock_def verify_multiset_Inr lk)
  have name: "bundle_file_name ''u/a.js'' = ''a.js''" by code_simp
  have "cache_bundles [(''whatever'', ''x'')] [sha256_hex rev ''x''] sample_lock = Inr [?b]"
    by (simp add: cache_bundles_def pre lk push_all_def push_def pop_def name)
  then show ?thesis
    using sample_files
    by (simp add: restore_def sample_options_def new_options_def sample_read_lock pre write_cache_def lk v
        fetch [unfolded sample_options_def new_options_def, simplified])
       (simp add: sample_deps_def v lk)
qed

theorem restore_cache_hit_witness:
  "check (\<lambda>_. Some (new_manifest rev ''2.1'' [\<lparr>b_url = ''u/a.js'', file_name = ''a.js'', b_bytes = ''x''\<rparr>])) rev [''c'']
     (exec_ops (store (\<lambda>_. ''m'') rev [''c''] (\<lambda>_. None) ''2.1''
       [\<lparr>b_url = ''u/a.js'', file_name = ''a.js'', b_bytes = ''x''\<rparr>]) (\<lambda>_. None)) ''2.1''
   = Hit [\<lparr>b_url = ''u/a.js'', file_name = ''a.js'', b_bytes = ''x''\<rparr>]"
proof -
  let ?b = "\<lparr>b_url = ''u/a.js'', file_name = ''a.js'', b_bytes = ''x''\<rparr>"
  let ?ops = "store (\<lambda>_. ''m'') rev [''c''] (\<lambda>_. None) ''2.1'' [?b]"
  have o: "\<not> restore_wasm_set sample_options" "target sample_options = CacheDir [''c'']" "lock_path sample_options = ''l''"
    by (simp_all add: sample_options_def new_options_def)
  have d: "d_digest sample_deps = rev" "d_ser sample_deps = (\<lambda>_. ''m'')" "d_de sample_deps = (\<lambda>_. Some (new_manifest rev ''2.1'' [?b]))"
    by (simp_all add: sample_deps_def)
  have lk: "lk_bundles sample_lock = [\<lparr>l_sha256 = sha256_hex rev ''x'', l_size = 1, l_url = Some ''u/a.js''\<rparr>]"
    "lk_wa_version sample_lock = ''2.1''" by (simp_all add: sample_lock_def new_lock_def)
  have "read_lock sample_deps (lock_path sample_options) = Inr sample_lock" by (simp add: o sample_read_lock)
  from restore_cache_hit [OF sample_restore o(1,2) runs_exec this] obtain bs where
    "map file_name bs = map (\<lambda>b. bundle_file_name (b_url b)) bs"
    "mset (map (\<lambda>b. (Some (b_url b), sha256_hex rev (b_bytes b), length (b_bytes b))) bs)
      = {#(Some ''u/a.js'', sha256_hex rev ''x'', 1)#}"
    "new_manifest rev ''2.1'' [?b] = new_manifest rev ''2.1'' bs \<longrightarrow>
      check (\<lambda>_. Some (new_manifest rev ''2.1'' [?b])) rev [''c''] (exec_ops ?ops (\<lambda>_. None)) ''2.1'' = Hit bs"
    by (auto simp: d lk)
  note bs = this
  from bs(2) obtain b where b: "bs = [b]" "b_url b = ''u/a.js''" "sha256_hex rev (b_bytes b) = sha256_hex rev ''x''"
    by (cases bs) auto
  have "bundle_file_name ''u/a.js'' = ''a.js''" by code_simp
  with bs(1) b have "b = ?b" by (simp add: sha256_hex_eq_iff)
  with bs(3) b(1) show ?thesis by simp
qed

end
