(* ===== verification/Capture.thy ===== *)
theory Capture
  imports Restore
begin

text \<open>
  \<open>crates/wa-store/src/capture.rs\<close>: restoring selected historical WASM payloads from their CDN URL or from
  release archives.  The client, the \<open>url\<close> crate, the JSON decoders of the GitHub answers, the archive
  decoders and the names of temporary files are parameters, gathered in one record.  The disk is
  read once, before anything is written, so the writes are a list of operations in their order.
\<close>

section \<open>Data\<close>

definition MAX_CAPTURE_UNPACKED :: nat where "MAX_CAPTURE_UNPACKED = 1024 * 1024 * 1024"
definition MAX_ARCHIVE_FILES :: nat where "MAX_ARCHIVE_FILES = 4096"
definition MAX_WASM_BYTES :: nat where "MAX_WASM_BYTES = 64 * 1024 * 1024"
definition MAX_ASSET_PAGES :: nat where "MAX_ASSET_PAGES = 100"

record wasm_capture =
  c_file_name :: string
  c_sha256 :: string
  c_size :: "nat option"
  c_url :: "string option"

record release_source =
  s_repo :: string
  s_release :: string

record asset =
  asset_name :: string
  asset_url :: string
  browser_download_url :: string
  created_at :: string

datatype capture_error =
    BadFileName string
  | BadSha256 string
  | TooLarge string
  | NotCdnUrl string
  | DuplicateCapture string
  | BadGet string nat
  | GetTransport string string
  | BadRepo string
  | BadTag string
  | BadReleaseJson
  | BadAssetsJson
  | UntrustedAssetsUrl
  | TooManyAssets
  | NoToken
  | NonGithubAssetUrl
  | AssetRequest string
  | AssetStatus nat
  | NoRedirectLocation
  | UntrustedRedirect
  | Unavailable "string list"

record ('w, 'd) capture_env =
  ce_digest :: "bytes \<Rightarrow> bytes"
  ce_get :: "'w http_get"
  ce_redirect :: "'w http_get_redirect"
  ce_env :: "string \<Rightarrow> string option"
  ce_parse :: url_parse
  ce_api :: "string list \<Rightarrow> string"               \<comment> \<open>\<open>https://api.github.com\<close> with path segments\<close>
  ce_page :: "url_parts \<Rightarrow> nat \<Rightarrow> string"          \<comment> \<open>the query replaced by \<open>per_page=100&page=n\<close>\<close>
  ce_release :: "bytes \<Rightarrow> string option"           \<comment> \<open>\<open>assets_url\<close> of a decoded release\<close>
  ce_assets :: "bytes \<Rightarrow> asset list option"
  ce_new_xz :: "nat \<Rightarrow> 'd"
  ce_process :: "'d xz_process"
  ce_gunzip :: "bytes \<Rightarrow> nat \<Rightarrow> string + bytes"
  ce_tar :: "bytes \<Rightarrow> string + (string + tar_entry) list"
  ce_tmp :: "string \<Rightarrow> string"                      \<comment> \<open>the temporary file a payload is staged in\<close>

section \<open>A capture\<close>

definition is_lower_hex :: "char \<Rightarrow> bool" where
  "is_lower_hex c \<longleftrightarrow> c \<in> set ''0123456789abcdef''"

definition validate :: "wasm_capture \<Rightarrow> capture_error option" where
  "validate c =
     (if \<not> (path_file_name (c_file_name c) = Some (c_file_name c) \<and> ends_with (c_file_name c) ''.wasm'')
      then Some (BadFileName (c_file_name c))
      else if \<not> (length (c_sha256 c) = 64 \<and> list_all is_lower_hex (c_sha256 c))
      then Some (BadSha256 (c_file_name c))
      else if \<not> (case c_size c of Some n \<Rightarrow> n \<le> MAX_WASM_BYTES | None \<Rightarrow> True)
      then Some (TooLarge (c_file_name c))
      else case c_url c of
             Some u \<Rightarrow> if \<not> is_cdn_payload u then Some (NotCdnUrl (c_file_name c)) else None
           | None \<Rightarrow> None)"

definition WASM_MAGIC :: bytes where "WASM_MAGIC = [CHR 0x00, CHR ''a'', CHR ''s'', CHR ''m'']"

definition matches :: "(bytes \<Rightarrow> bytes) \<Rightarrow> wasm_capture \<Rightarrow> bytes \<Rightarrow> bool" where
  "matches dg c b \<longleftrightarrow>
     length b \<le> MAX_WASM_BYTES \<and> starts_with b WASM_MAGIC
     \<and> (case c_size c of Some n \<Rightarrow> n = length b | None \<Rightarrow> True) \<and> sha256_hex dg b = c_sha256 c"

section \<open>Requests\<close>

definition github_headers :: "string option \<Rightarrow> headers" where
  "github_headers token =
     [(''User-Agent'', ''wa-store''), (''Accept'', ''application/vnd.github+json'')]
     @ (case token of Some t \<Rightarrow> [(''Authorization'', ''Bearer '' @ t)] | None \<Rightarrow> [])"

definition plain_headers :: headers where "plain_headers = [(''User-Agent'', ''wa-store'')]"

definition get_with ::
    "('w, 'd) capture_env \<Rightarrow> 'w \<Rightarrow> string \<Rightarrow> headers \<Rightarrow> nat \<Rightarrow> (capture_error + bytes) \<times> 'w" where
  "get_with E w url hs cap =
     (case ce_get E w url hs cap of
        (Inl e, w1) \<Rightarrow> (Inl (GetTransport url e), w1)
      | (Inr r, w1) \<Rightarrow> (if status r = 200 then Inr (body r) else Inl (BadGet url (status r)), w1))"

definition repo_char :: "char \<Rightarrow> bool" where
  "repo_char c \<longleftrightarrow> is_ascii_alphanumeric c \<or> c \<in> set ''-_.''"

definition is_control :: "string \<Rightarrow> bool" where
  \<comment> \<open>\<open>char::is_control\<close> of one UTF-8 character\<close>
  "is_control u \<longleftrightarrow>
     (case u of
        [c] \<Rightarrow> (of_char c :: nat) < 0x20 \<or> c = CHR 0x7F
      | [c, d] \<Rightarrow> c = CHR 0xC2 \<and> (of_char d :: nat) < 0xA0
      | _ \<Rightarrow> False)"

definition release_url :: "('w, 'd) capture_env \<Rightarrow> string \<Rightarrow> string \<Rightarrow> capture_error + string" where
  "release_url E repo_name tag =
     (case split_once SLASH repo_name of
        None \<Rightarrow> Inl (BadRepo repo_name)
      | Some (owner, name) \<Rightarrow>
          if owner = [] \<or> name = [] \<or> \<not> list_all repo_char (owner @ name) then Inl (BadRepo repo_name)
          else if tag = [] \<or> list_ex is_control (utf8_chars tag) then Inl (BadTag tag)
          else Inr (ce_api E [''repos'', owner, name, ''releases'', ''tags'', tag]))"

abbreviation METADATA_CAP :: nat where "METADATA_CAP \<equiv> 8 * 1024 * 1024"

definition release_with ::
    "('w, 'd) capture_env \<Rightarrow> 'w \<Rightarrow> string \<Rightarrow> string \<Rightarrow> string option \<Rightarrow> (capture_error + string) \<times> 'w" where
  "release_with E w repo_name tag token =
     (case release_url E repo_name tag of
        Inl e \<Rightarrow> (Inl e, w)
      | Inr endpoint \<Rightarrow>
          (case get_with E w endpoint (github_headers token) METADATA_CAP of
             (Inl e, w1) \<Rightarrow> (Inl e, w1)
           | (Inr b, w1) \<Rightarrow> (case ce_release E b of None \<Rightarrow> Inl BadReleaseJson | Some u \<Rightarrow> Inr u, w1)))"

definition trusted_api :: "url_parts \<Rightarrow> bool" where
  "trusted_api u \<longleftrightarrow> u_scheme u = ''https'' \<and> u_host u = Some ''api.github.com''
     \<and> u_username u = [] \<and> u_password u = None"

fun asset_pages ::
    "('w, 'd) capture_env \<Rightarrow> url_parts \<Rightarrow> string option \<Rightarrow> nat \<Rightarrow> nat \<Rightarrow> asset list \<Rightarrow> 'w
     \<Rightarrow> (capture_error + asset list) \<times> 'w" where
  "asset_pages E endpoint token page 0 acc w = (Inl TooManyAssets, w)"
| "asset_pages E endpoint token page (Suc left) acc w =
     (case get_with E w (ce_page E endpoint page) (github_headers token) METADATA_CAP of
        (Inl e, w1) \<Rightarrow> (Inl e, w1)
      | (Inr b, w1) \<Rightarrow>
          (case ce_assets E b of
             None \<Rightarrow> (Inl BadAssetsJson, w1)
           | Some batch \<Rightarrow>
               if length batch < 100 then (Inr (acc @ batch), w1)
               else asset_pages E endpoint token (page + 1) left (acc @ batch) w1))"

definition release_assets_with ::
    "('w, 'd) capture_env \<Rightarrow> 'w \<Rightarrow> string \<Rightarrow> string \<Rightarrow> string option \<Rightarrow> (capture_error + asset list) \<times> 'w" where
  "release_assets_with E w repo_name tag token =
     (case release_with E w repo_name tag token of
        (Inl e, w1) \<Rightarrow> (Inl e, w1)
      | (Inr assets_url, w1) \<Rightarrow>
          (case ce_parse E assets_url of
             None \<Rightarrow> (Inl UntrustedAssetsUrl, w1)
           | Some endpoint \<Rightarrow>
               if \<not> trusted_api endpoint then (Inl UntrustedAssetsUrl, w1)
               else asset_pages E endpoint token 1 MAX_ASSET_PAGES [] w1))"

definition trusted_asset_redirect :: "url_parse \<Rightarrow> string \<Rightarrow> bool" where
  "trusted_asset_redirect parse loc \<longleftrightarrow>
     (case parse loc of
        Some r \<Rightarrow> u_scheme r = ''https'' \<and> u_username r = [] \<and> u_password r = None
          \<and> list_ex (\<lambda>h. u_host r = Some h)
              [''github.com'', ''objects.githubusercontent.com'', ''release-assets.githubusercontent.com'']
      | None \<Rightarrow> False)"

definition asset_bytes_with ::
    "('w, 'd) capture_env \<Rightarrow> 'w \<Rightarrow> asset \<Rightarrow> string option \<Rightarrow> (capture_error + bytes) \<times> 'w" where
  "asset_bytes_with E w a token =
     (case get_with E w (browser_download_url a) plain_headers MAX_ARCHIVE_BYTES of
        (Inr b, w1) \<Rightarrow> (Inr b, w1)
      | (Inl _, w1) \<Rightarrow>
          (case token of
             None \<Rightarrow> (Inl NoToken, w1)
           | Some t \<Rightarrow>
               if \<not> starts_with (asset_url a) ''https://api.github.com/'' then (Inl NonGithubAssetUrl, w1)
               else (case ce_redirect E w1 (asset_url a)
                            [(''User-Agent'', ''wa-store''), (''Accept'', ''application/octet-stream''),
                             (''Authorization'', ''Bearer '' @ t)] MAX_ARCHIVE_BYTES of
                       (Inl e, w2) \<Rightarrow> (Inl (AssetRequest e), w2)
                     | (Inr r, w2) \<Rightarrow>
                         if r_status r = 200 then (Inr (r_body r), w2)
                         else if \<not> (300 \<le> r_status r \<and> r_status r < 400) then (Inl (AssetStatus (r_status r)), w2)
                         else (case location r of
                                 None \<Rightarrow> (Inl NoRedirectLocation, w2)
                               | Some loc \<Rightarrow>
                                   if \<not> trusted_asset_redirect (ce_parse E) loc then (Inl UntrustedRedirect, w2)
                                   else get_with E w2 loc plain_headers MAX_ARCHIVE_BYTES))))"

section \<open>Selecting from an archive\<close>

type_synonym missing = "(string, wasm_capture) btree"

fun take_loop ::
    "(bytes \<Rightarrow> bytes) \<Rightarrow> (string + tar_entry) list \<Rightarrow> nat \<Rightarrow> missing \<Rightarrow> files \<Rightarrow> (files \<times> missing) option" where
  "take_loop dg [] cnt missing sel = Some (sel, missing)"
| "take_loop dg (Inl e # es) cnt missing sel = None"
| "take_loop dg (Inr t # es) cnt missing sel =
     (if \<not> is_regular t then take_loop dg es cnt missing sel
      else if cnt + 1 > MAX_ARCHIVE_FILES then None
      else case entry_path t of
             Inl e \<Rightarrow> None
           | Inr p \<Rightarrow>
               (case path_file_name p of
                  None \<Rightarrow> take_loop dg es (cnt + 1) missing sel
                | Some name \<Rightarrow>
                    if \<not> utf8_valid name then take_loop dg es (cnt + 1) missing sel
                    else (case map_of missing name of
                            None \<Rightarrow> take_loop dg es (cnt + 1) missing sel
                          | Some c \<Rightarrow>
                              (case entry_bytes t of
                                 Inl e \<Rightarrow> None
                               | Inr b \<Rightarrow>
                                   if matches dg c b
                                   then take_loop dg es (cnt + 1) (bt_remove name missing) (sel @ [(name, b)])
                                   else take_loop dg es (cnt + 1) missing sel))))"

definition select_archive :: "('w, 'd) capture_env \<Rightarrow> bytes \<Rightarrow> missing \<Rightarrow> (files \<times> missing) option" where
  \<comment> \<open>\<open>take_archive\<close> on a clone of \<open>missing\<close>; the caller ignores the reason of a failure\<close>
  "select_archive E archive missing =
     (case decompress (ce_new_xz E) (ce_process E) (ce_gunzip E) archive MAX_CAPTURE_UNPACKED of
        Inl e \<Rightarrow> None
      | Inr tar \<Rightarrow>
          (case ce_tar E tar of Inl e \<Rightarrow> None | Inr es \<Rightarrow> take_loop (ce_digest E) es 0 missing []))"

definition persist :: "('w, 'd) capture_env \<Rightarrow> path \<Rightarrow> files \<Rightarrow> fs_op list" where
  "persist E dir sel =
     CreateDirAll dir #
     concat (map (\<lambda>(name, b). [WriteFile (dir @ [ce_tmp E name]) b,
                               Rename (dir @ [ce_tmp E name]) (dir @ [name])]) sel)"

section \<open>The restore\<close>

fun collect_captures :: "wasm_capture list \<Rightarrow> missing \<Rightarrow> capture_error + missing" where
  "collect_captures [] m = Inr m"
| "collect_captures (c # cs) m =
     (case validate c of
        Some e \<Rightarrow> Inl e
      | None \<Rightarrow>
          if map_of m (c_file_name c) \<noteq> None then Inl (DuplicateCapture (c_file_name c))
          else collect_captures cs (bt_insert (c_file_name c) c m))"

record 'w progress =
  pr_missing :: missing
  pr_ops :: "fs_op list"
  pr_world :: 'w

definition try_cdn :: "('w, 'd) capture_env \<Rightarrow> path \<Rightarrow> string \<Rightarrow> 'w progress \<Rightarrow> 'w progress" where
  "try_cdn E dir name p =
     (case map_of (pr_missing p) name of
        None \<Rightarrow> p
      | Some c \<Rightarrow>
          (case c_url c of
             None \<Rightarrow> p
           | Some url \<Rightarrow>
               (case get_with E (pr_world p) url plain_headers
                       ((case c_size c of Some n \<Rightarrow> n | None \<Rightarrow> MAX_WASM_BYTES) + 1) of
                  (Inl e, w1) \<Rightarrow> p\<lparr>pr_world := w1\<rparr>
                | (Inr b, w1) \<Rightarrow>
                    if matches (ce_digest E) c b
                    then \<lparr>pr_missing = bt_remove name (pr_missing p),
                          pr_ops = pr_ops p @ persist E dir [(name, b)], pr_world = w1\<rparr>
                    else p\<lparr>pr_world := w1\<rparr>)))"

definition try_asset :: "('w, 'd) capture_env \<Rightarrow> path \<Rightarrow> string option \<Rightarrow> asset \<Rightarrow> 'w progress \<Rightarrow> 'w progress" where
  \<comment> \<open>one pass of the loop over the assets; \<open>break\<close> when nothing is missing\<close>
  "try_asset E dir token a p =
     (if pr_missing p = [] then p
      else case asset_bytes_with E (pr_world p) a token of
             (Inl e, w1) \<Rightarrow> p\<lparr>pr_world := w1\<rparr>
           | (Inr b, w1) \<Rightarrow>
               (case select_archive E b (pr_missing p) of
                  None \<Rightarrow> p\<lparr>pr_world := w1\<rparr>
                | Some (sel, remaining) \<Rightarrow>
                    \<lparr>pr_missing = remaining, pr_ops = pr_ops p @ persist E dir sel, pr_world = w1\<rparr>))"

definition wasm_asset :: "asset \<Rightarrow> bool" where
  "wasm_asset a \<longleftrightarrow> starts_with (asset_name a) ''wasm-''
     \<and> (ends_with (asset_name a) ''.tar.xz'' \<or> ends_with (asset_name a) ''.tar.gz'')"

text \<open>\<open>sort_by(|l, r| r.created_at.cmp(&l.created_at))\<close>: stable, newest first.\<close>

fun insert_newest :: "asset \<Rightarrow> asset list \<Rightarrow> asset list" where
  "insert_newest a [] = [a]"
| "insert_newest a (b # bs) = (if created_at b < created_at a \<or> created_at b = created_at a then a # b # bs else b # insert_newest a bs)"

definition newest_first :: "asset list \<Rightarrow> asset list" where
  "newest_first as = foldr insert_newest as []"

definition try_source :: "('w, 'd) capture_env \<Rightarrow> path \<Rightarrow> string option \<Rightarrow> release_source \<Rightarrow> 'w progress \<Rightarrow> 'w progress" where
  "try_source E dir token s p =
     (if pr_missing p = [] then p
      else case release_assets_with E (pr_world p) (s_repo s) (s_release s) token of
             (Inl e, w1) \<Rightarrow> p\<lparr>pr_world := w1\<rparr>
           | (Inr assets, w1) \<Rightarrow>
               fold (try_asset E dir token) (newest_first (filter wasm_asset assets)) (p\<lparr>pr_world := w1\<rparr>))"

definition restore_captures_with ::
    "('w, 'd) capture_env \<Rightarrow> wasm_capture list \<Rightarrow> release_source list \<Rightarrow> path \<Rightarrow> fs \<Rightarrow> 'w
     \<Rightarrow> capture_error option \<times> fs_op list \<times> 'w" where
  \<comment> \<open>the error, if any, and the operations performed by then\<close>
  "restore_captures_with E captures srcs dir fs w =
     (case collect_captures captures [] of
        Inl e \<Rightarrow> (Some e, [], w)
      | Inr all \<Rightarrow>
          (let missing = filter (\<lambda>(name, c).
                 \<not> (case read_file fs (dir @ [name]) of Some b \<Rightarrow> matches (ce_digest E) c b | None \<Rightarrow> False)) all;
               p0 = \<lparr>pr_missing = missing, pr_ops = [], pr_world = w\<rparr>;
               p1 = fold (try_cdn E dir) (map fst missing) p0;
               p2 = fold (try_source E dir (env_token (ce_env E))) srcs p1
           in (if pr_missing p2 = [] then None else Some (Unavailable (map fst (pr_missing p2))),
               pr_ops p2, pr_world p2)))"

section \<open>What a run of writes delivers to a path\<close>

text \<open>
  However a run of the operations ends, the path is as before or holds one of the contents \<open>S\<close>; if the
  run completes and the path is due, it holds one of them.
\<close>

definition delivers :: "fs_op list \<Rightarrow> path \<Rightarrow> bytes set \<Rightarrow> bool \<Rightarrow> bool" where
  "delivers ops q S due \<longleftrightarrow>
     (\<forall>fs ok fs'. runs ops fs ok fs' \<longrightarrow>
        fs' q = fs q \<and> (ok \<longrightarrow> \<not> due) \<or> (\<exists>b \<in> S. fs' q = Some (File b)))"

lemma delivers_append:
  assumes "delivers xs q S A" "delivers ys q S B"
  shows "delivers (xs @ ys) q S (A \<or> B)"
  unfolding delivers_def
proof (intro allI impI)
  fix fs ok fs'
  assume "runs (xs @ ys) fs ok fs'"
  then consider "runs xs fs False fs'" "\<not> ok" | fs1 where "runs xs fs True fs1" "runs ys fs1 ok fs'"
    by (blast dest: runs_append)
  then show "fs' q = fs q \<and> (ok \<longrightarrow> \<not> (A \<or> B)) \<or> (\<exists>b \<in> S. fs' q = Some (File b))"
  proof cases
    case 1
    with assms(1) show ?thesis unfolding delivers_def by blast
  next
    case 2
    from assms(1) 2(1) have "fs1 q = fs q \<and> \<not> A \<or> (\<exists>b \<in> S. fs1 q = Some (File b))"
      unfolding delivers_def by blast
    moreover from assms(2) 2(2) have "fs' q = fs1 q \<and> (ok \<longrightarrow> \<not> B) \<or> (\<exists>b \<in> S. fs' q = Some (File b))"
      unfolding delivers_def by blast
    ultimately show ?thesis by metis
  qed
qed

lemma delivers_untouched: "\<forall>op \<in> set ops. \<not> touches op q \<Longrightarrow> delivers ops q S False"
  unfolding delivers_def using runs_frame by metis

lemma delivers_mono: "delivers ops q S A \<Longrightarrow> S \<subseteq> T \<Longrightarrow> (B \<Longrightarrow> A) \<Longrightarrow> delivers ops q T B"
  unfolding delivers_def by blast

lemma delivers_commit:
  assumes "t \<noteq> q" "t \<noteq> f"
  shows "delivers [WriteFile t b, Rename t f] q (if f = q then {b} else {}) (f = q)"
  unfolding delivers_def
proof (intro allI impI)
  fix fs ok fs'
  assume r: "runs [WriteFile t b, Rename t f] fs ok fs'"
  note c = staged_commit.commit_runs [OF staged_commit.intro [OF assms(2)] r]
  show "fs' q = fs q \<and> (ok \<longrightarrow> \<not> f = q) \<or> (\<exists>b' \<in> if f = q then {b} else {}. fs' q = Some (File b'))"
  proof (cases "f = q")
    case True
    with c show ?thesis by auto
  next
    case False
    have "fs' q = fs q"
      by (rule staged_commit.commit_frame [OF staged_commit.intro [OF assms(2)] r]) (use assms False in auto)
    with False show ?thesis by simp
  qed
qed

definition tmp_ok :: "('w, 'd) capture_env \<Rightarrow> bool" where
  "tmp_ok E \<longleftrightarrow> (\<forall>n. \<not> ends_with (ce_tmp E n) ''.wasm'')"

lemma persist_delivers:
  assumes "tmp_ok E" "ends_with n ''.wasm''" "\<forall>e \<in> set sel. ends_with (fst e) ''.wasm''"
  shows "delivers (persist E dir sel) (dir @ [n]) {b. (n, b) \<in> set sel} (n \<in> fst ` set sel)"
proof -
  let ?piece = "\<lambda>(name, b). [WriteFile (dir @ [ce_tmp E name]) b, Rename (dir @ [ce_tmp E name]) (dir @ [name])]"
  have "\<not> touches (CreateDirAll dir) (dir @ [n])" by (simp add: starts_with_iff)
  then have mk: "delivers [CreateDirAll dir] (dir @ [n]) T False" for T
    by (intro delivers_untouched) simp
  have "delivers (concat (map ?piece sel)) (dir @ [n]) {b. (n, b) \<in> set sel} (n \<in> fst ` set sel)"
    using assms(3)
  proof (induction sel)
    case Nil
    show ?case by (simp add: delivers_untouched)
  next
    case (Cons e sel)
    obtain m b where e: "e = (m, b)" by fastforce
    let ?S = "{b. (n, b) \<in> set (e # sel)}"
    have "\<not> ends_with (ce_tmp E m) ''.wasm''" using assms(1) unfolding tmp_ok_def by blast
    moreover have "ends_with m ''.wasm''" using Cons.prems by (simp add: e)
    ultimately have "ce_tmp E m \<noteq> n" "ce_tmp E m \<noteq> m" using assms(2) by metis+
    then have "delivers (?piece e) (dir @ [n]) (if dir @ [m] = dir @ [n] then {b} else {}) (dir @ [m] = dir @ [n])"
      unfolding e prod.case by (intro delivers_commit) simp_all
    then have 1: "delivers (?piece e) (dir @ [n]) ?S (m = n)"
      by (rule delivers_mono) (auto simp: e split: if_splits)
    have "delivers (concat (map ?piece sel)) (dir @ [n]) {b. (n, b) \<in> set sel} (n \<in> fst ` set sel)"
      using Cons by simp
    then have 2: "delivers (concat (map ?piece sel)) (dir @ [n]) ?S (n \<in> fst ` set sel)"
      by (rule delivers_mono) auto
    from delivers_append [OF 1 2] have "delivers (?piece e @ concat (map ?piece sel)) (dir @ [n]) ?S (m = n \<or> n \<in> fst ` set sel)" .
    then have "delivers (?piece e @ concat (map ?piece sel)) (dir @ [n]) ?S (n \<in> fst ` set (e # sel))"
      by (rule delivers_mono) (auto simp: e)
    then show ?case by simp
  qed
  from delivers_append [OF mk this] show ?thesis by (simp add: persist_def)
qed


section \<open>Every write is of a requested capture\<close>

lemma take_loop_step:
  assumes "take_loop dg (Inr t # es) cnt m sel = Some r"
  shows "(\<exists>cnt'. take_loop dg es cnt' m sel = Some r)
    \<or> (\<exists>cnt' name b c. map_of m name = Some c \<and> matches dg c b
         \<and> take_loop dg es cnt' (bt_remove name m) (sel @ [(name, b)]) = Some r)"
  using assms by (fastforce split: if_splits option.splits sum.splits)

lemma take_loop_sound:
  assumes "take_loop dg es cnt m sel = Some (out, rest)"
  shows "map_of rest \<subseteq>\<^sub>m map_of m
    \<and> (\<forall>n b. (n, b) \<in> set out \<longrightarrow> (n, b) \<in> set sel \<or> (\<exists>c. map_of m n = Some c \<and> matches dg c b))
    \<and> dom (map_of m) \<subseteq> dom (map_of rest) \<union> fst ` set out \<and> set sel \<subseteq> set out"
  using assms
proof (induction es arbitrary: cnt m sel)
  case Nil
  then show ?case by auto
next
  case (Cons e es)
  obtain t where e: "e = Inr t" using Cons.prems by (cases e) auto
  from take_loop_step [OF Cons.prems [unfolded e]] show ?case
  proof (elim disjE exE conjE)
    fix cnt'
    assume "take_loop dg es cnt' m sel = Some (out, rest)"
    from Cons.IH [OF this] show ?thesis .
  next
    fix cnt' name b c
    assume hit: "map_of m name = Some c" "matches dg c b"
      and "take_loop dg es cnt' (bt_remove name m) (sel @ [(name, b)]) = Some (out, rest)"
    from Cons.IH [OF this(3)]
    have ih: "map_of rest \<subseteq>\<^sub>m map_of (bt_remove name m)"
      and src: "\<forall>k d. (k, d) \<in> set out \<longrightarrow> (k, d) \<in> set (sel @ [(name, b)])
        \<or> (\<exists>c. map_of (bt_remove name m) k = Some c \<and> matches dg c d)"
      and cover: "dom (map_of (bt_remove name m)) \<subseteq> dom (map_of rest) \<union> fst ` set out"
      and kept: "set (sel @ [(name, b)]) \<subseteq> set out" by blast+
    have "map_of rest \<subseteq>\<^sub>m map_of m" using ih by (rule map_le_trans) (simp add: map_le_def)
    moreover have "(k, d) \<in> set sel \<or> (\<exists>c. map_of m k = Some c \<and> matches dg c d)" if kd: "(k, d) \<in> set out" for k d
    proof (cases "(k, d) \<in> set (sel @ [(name, b)])")
      case True
      with hit show ?thesis by auto
    next
      case False
      with src kd obtain c' where "map_of (bt_remove name m) k = Some c'" "matches dg c' d" by blast
      then show ?thesis by (auto split: if_splits)
    qed
    moreover have "dom (map_of m) \<subseteq> dom (map_of rest) \<union> fst ` set out"
    proof
      fix k assume "k \<in> dom (map_of m)"
      then consider "k = name" | "k \<in> dom (map_of (bt_remove name m))" by fastforce
      then show "k \<in> dom (map_of rest) \<union> fst ` set out"
      proof cases
        case 1
        with kept have "(k, b) \<in> set out" by auto
        then show ?thesis by force
      next
        case 2
        with cover show ?thesis by blast
      qed
    qed
    ultimately show ?thesis using kept by auto
  qed
qed

lemma select_archive_sound:
  assumes "select_archive E a m = Some (out, rest)"
  shows "map_of rest \<subseteq>\<^sub>m map_of m"
    and "\<forall>n b. (n, b) \<in> set out \<longrightarrow> (\<exists>c. map_of m n = Some c \<and> matches (ce_digest E) c b)"
    and "dom (map_of m) - dom (map_of rest) \<subseteq> fst ` set out"
proof -
  from assms obtain es where "take_loop (ce_digest E) es 0 m [] = Some (out, rest)"
    by (auto simp: select_archive_def split: sum.splits)
  from take_loop_sound [OF this] show "map_of rest \<subseteq>\<^sub>m map_of m"
    and "\<forall>n b. (n, b) \<in> set out \<longrightarrow> (\<exists>c. map_of m n = Some c \<and> matches (ce_digest E) c b)"
    and "dom (map_of m) - dom (map_of rest) \<subseteq> fst ` set out" by auto
qed

text \<open>What the restore keeps: the writes so far deliver exactly what is no longer missing.\<close>

definition wanted :: "('w, 'd) capture_env \<Rightarrow> missing \<Rightarrow> string \<Rightarrow> bytes set" where
  "wanted E m n = {b. \<exists>c. map_of m n = Some c \<and> matches (ce_digest E) c b}"

definition on_track :: "('w, 'd) capture_env \<Rightarrow> path \<Rightarrow> missing \<Rightarrow> 'w progress \<Rightarrow> bool" where
  "on_track E dir m p \<longleftrightarrow>
     map_of (pr_missing p) \<subseteq>\<^sub>m map_of m
     \<and> (\<forall>n. ends_with n ''.wasm'' \<longrightarrow>
          delivers (pr_ops p) (dir @ [n]) (wanted E m n)
            (n \<in> dom (map_of m) - dom (map_of (pr_missing p))))"

lemma on_track_world: "on_track E dir m p \<Longrightarrow> on_track E dir m (p\<lparr>pr_world := w\<rparr>)"
  by (simp add: on_track_def)

lemma on_track_persist:
  assumes tmp: "tmp_ok E" and names: "\<forall>n \<in> dom (map_of m). ends_with n ''.wasm''"
    and p: "on_track E dir m p"
    and rest: "map_of rest \<subseteq>\<^sub>m map_of (pr_missing p)"
    and out: "\<forall>n b. (n, b) \<in> set out \<longrightarrow> (\<exists>c. map_of (pr_missing p) n = Some c \<and> matches (ce_digest E) c b)"
    and all: "dom (map_of (pr_missing p)) - dom (map_of rest) \<subseteq> fst ` set out"
  shows "on_track E dir m \<lparr>pr_missing = rest, pr_ops = pr_ops p @ persist E dir out, pr_world = w\<rparr>"
proof -
  from p have sub: "map_of (pr_missing p) \<subseteq>\<^sub>m map_of m"
    and old: "\<forall>n. ends_with n ''.wasm'' \<longrightarrow>
          delivers (pr_ops p) (dir @ [n]) (wanted E m n) (n \<in> dom (map_of m) - dom (map_of (pr_missing p)))"
    by (auto simp: on_track_def)
  have out': "\<forall>n b. (n, b) \<in> set out \<longrightarrow> b \<in> wanted E m n"
  proof (intro allI impI)
    fix n b assume "(n, b) \<in> set out"
    with out obtain c where c: "map_of (pr_missing p) n = Some c" "matches (ce_digest E) c b" by blast
    with sub have "map_of m n = Some c" by (metis domI map_le_def)
    with c show "b \<in> wanted E m n" by (auto simp: wanted_def)
  qed
  have ext: "\<forall>e \<in> set out. ends_with (fst e) ''.wasm''"
  proof
    fix e assume "e \<in> set out"
    with out obtain c where "map_of (pr_missing p) (fst e) = Some c" by (cases e) auto
    with sub have "fst e \<in> dom (map_of m)" by (metis domI map_le_def)
    with names show "ends_with (fst e) ''.wasm''" by blast
  qed
  have "delivers (pr_ops p @ persist E dir out) (dir @ [n]) (wanted E m n) (n \<in> dom (map_of m) - dom (map_of rest))"
    if n: "ends_with n ''.wasm''" for n
  proof -
    have 1: "delivers (pr_ops p) (dir @ [n]) (wanted E m n) (n \<in> dom (map_of m) - dom (map_of (pr_missing p)))"
      using old n by blast
    have 2: "delivers (persist E dir out) (dir @ [n]) (wanted E m n) (n \<in> fst ` set out)"
      by (rule delivers_mono [OF persist_delivers [OF tmp n ext]]) (use out' in auto)
    show ?thesis by (rule delivers_mono [OF delivers_append [OF 1 2]]) (use all in blast)+
  qed
  then show ?thesis using map_le_trans [OF rest sub] by (simp add: on_track_def)
qed

lemma on_track_cdn:
  assumes "tmp_ok E" "\<forall>n \<in> dom (map_of m). ends_with n ''.wasm''" "on_track E dir m p"
  shows "on_track E dir m (try_cdn E dir name p)"
proof -
  have *: "on_track E dir m \<lparr>pr_missing = bt_remove name (pr_missing p),
      pr_ops = pr_ops p @ persist E dir [(name, b)], pr_world = w\<rparr>"
    if "map_of (pr_missing p) name = Some c" "matches (ce_digest E) c b" for c b w
    by (rule on_track_persist [OF assms]) (use that in \<open>auto simp: map_le_def\<close>)
  show ?thesis
    using assms(3) * by (auto simp: try_cdn_def on_track_world split: option.splits prod.splits sum.splits)
qed

lemma on_track_asset:
  assumes "tmp_ok E" "\<forall>n \<in> dom (map_of m). ends_with n ''.wasm''" "on_track E dir m p"
  shows "on_track E dir m (try_asset E dir token a p)"
proof -
  have *: "on_track E dir m \<lparr>pr_missing = rest, pr_ops = pr_ops p @ persist E dir out, pr_world = w\<rparr>"
    if "select_archive E b (pr_missing p) = Some (out, rest)" for b out rest w
    using select_archive_sound [OF that] by (rule on_track_persist [OF assms])
  show ?thesis
    using assms(3) * by (auto simp: try_asset_def on_track_world split: option.splits prod.splits sum.splits)
qed

lemma on_track_source:
  assumes "tmp_ok E" "\<forall>n \<in> dom (map_of m). ends_with n ''.wasm''" "on_track E dir m p"
  shows "on_track E dir m (try_source E dir token s p)"
  using assms(3)
  by (auto simp: try_source_def on_track_world split: prod.splits sum.splits
      intro!: fold_keeps [of "on_track E dir m"] on_track_asset [OF assms(1,2)])

lemma on_track_folds:
  assumes "tmp_ok E" "\<forall>n \<in> dom (map_of m). ends_with n ''.wasm''" "on_track E dir m p"
  shows "on_track E dir m (fold (try_source E dir token) srcs (fold (try_cdn E dir) names p))"
proof -
  have "on_track E dir m (fold (try_cdn E dir) names p)"
    using assms(3) on_track_cdn [OF assms(1,2)] by (rule fold_keeps)
  then show ?thesis using on_track_source [OF assms(1,2)] by (rule fold_keeps)
qed

lemma collect_captures_map:
  assumes "collect_captures cs m = Inr all"
  shows "map_of all = map_of m ++ map_of (map (\<lambda>c. (c_file_name c, c)) cs)"
    and "\<forall>c \<in> set cs. validate c = None \<and> c_file_name c \<notin> dom (map_of m)"
    and "distinct (map c_file_name cs)"
proof -
  have "map_of all = map_of m ++ map_of (map (\<lambda>c. (c_file_name c, c)) cs)
    \<and> (\<forall>c \<in> set cs. validate c = None \<and> c_file_name c \<notin> dom (map_of m)) \<and> distinct (map c_file_name cs)"
    using assms
  proof (induction cs arbitrary: m)
    case Nil
    then show ?case by simp
  next
    case (Cons c cs)
    from Cons.prems have v: "validate c = None" and f: "map_of m (c_file_name c) = None"
      and r: "collect_captures cs (bt_insert (c_file_name c) c m) = Inr all"
      by (auto split: option.splits if_splits)
    from Cons.IH [OF r]
    have ih: "map_of all = map_of (bt_insert (c_file_name c) c m) ++ map_of (map (\<lambda>c. (c_file_name c, c)) cs)"
      and ih2: "\<forall>d \<in> set cs. validate d = None \<and> c_file_name d \<notin> dom (map_of (bt_insert (c_file_name c) c m))"
      and ih3: "distinct (map c_file_name cs)" by blast+
    have fresh: "c_file_name c \<notin> c_file_name ` set cs" using ih2 by (auto split: if_splits)
    then have "map_of (map (\<lambda>c. (c_file_name c, c)) cs) (c_file_name c) = None"
      by (auto simp: map_of_eq_None_iff)
    then have "map_of all = map_of m ++ map_of (map (\<lambda>c. (c_file_name c, c)) (c # cs))"
      unfolding ih by (intro ext) (auto simp: map_add_def split: option.splits)
    moreover have "\<forall>d \<in> set (c # cs). validate d = None \<and> c_file_name d \<notin> dom (map_of m)"
      using ih2 v f by (auto split: if_splits)
    moreover have "distinct (map c_file_name (c # cs))" using fresh ih3 by simp
    ultimately show ?case by blast
  qed
  then show "map_of all = map_of m ++ map_of (map (\<lambda>c. (c_file_name c, c)) cs)"
    and "\<forall>c \<in> set cs. validate c = None \<and> c_file_name c \<notin> dom (map_of m)"
    and "distinct (map c_file_name cs)" by blast+
qed


lemma bt_ok_collect: "collect_captures cs m = Inr all \<Longrightarrow> bt_ok m \<Longrightarrow> bt_ok all"
  by (induction cs arbitrary: m) (auto split: option.splits if_splits)

lemma validate_wasm: "validate c = None \<Longrightarrow> ends_with (c_file_name c) ''.wasm''"
  by (auto simp: validate_def split: if_splits)

lemma map_of_requested:
  assumes "collect_captures cs [] = Inr all"
  shows "map_of all n = Some c \<longleftrightarrow> c \<in> set cs \<and> c_file_name c = n"
proof -
  note m = collect_captures_map [OF assms]
  have "distinct (map fst (map (\<lambda>c. (c_file_name c, c)) cs))" using m(3) by (simp add: o_def)
  from map_of_eq_Some_iff [OF this] show ?thesis by (auto simp: m(1))
qed

lemma restore_captures_cases:
  assumes "restore_captures_with E cs srcs dir fs w = (err, ops, w')" "tmp_ok E"
  shows "(err \<noteq> None \<and> (\<forall>ns. err \<noteq> Some (Unavailable ns)) \<and> ops = [])
    \<or> (\<exists>missing p. (\<forall>n c. map_of missing n = Some c \<longleftrightarrow>
            c \<in> set cs \<and> c_file_name c = n
              \<and> \<not> (\<exists>b. read_file fs (dir @ [n]) = Some b \<and> matches (ce_digest E) c b))
        \<and> on_track E dir missing p \<and> ops = pr_ops p
        \<and> (\<forall>c \<in> set cs. validate c = None) \<and> distinct (map c_file_name cs)
        \<and> err = (if pr_missing p = [] then None else Some (Unavailable (map fst (pr_missing p)))))"
proof (cases "collect_captures cs []")
  case (Inl e)
  have "collect_captures cs m = Inl e \<Longrightarrow> e \<noteq> Unavailable ns" for m ns
    by (induction cs arbitrary: m) (auto simp: validate_def split: option.splits if_splits)
  with Inl assms(1) show ?thesis by (auto simp: restore_captures_with_def)
next
  case (Inr all)
  let ?have = "\<lambda>n c. case read_file fs (dir @ [n]) of Some b \<Rightarrow> matches (ce_digest E) c b | None \<Rightarrow> False"
  let ?missing = "filter (\<lambda>(name, c). \<not> ?have name c) all"
  let ?p0 = "\<lparr>pr_missing = ?missing, pr_ops = [], pr_world = w\<rparr>"
  let ?p2 = "fold (try_source E dir (env_token (ce_env E))) srcs (fold (try_cdn E dir) (map fst ?missing) ?p0)"
  note m = collect_captures_map [OF Inr]
  have ok: "bt_ok all" using Inr by (rule bt_ok_collect) simp
  then have "distinct (map fst all)" "distinct (map fst ?missing)" by (auto intro!: bt_ok_distinct bt_ok_filter)
  then have req: "map_of ?missing n = Some c \<longleftrightarrow> c \<in> set cs \<and> c_file_name c = n \<and> \<not> ?have n c" for n c
    using map_of_requested [OF Inr, of n c] by (simp add: map_of_eq_Some_iff)
  have names: "\<forall>n \<in> dom (map_of ?missing). ends_with n ''.wasm''"
  proof
    fix n assume "n \<in> dom (map_of ?missing)"
    then obtain c where "map_of ?missing n = Some c" by blast
    with req m(2) have "validate c = None" "c_file_name c = n" by blast+
    then show "ends_with n ''.wasm''" using validate_wasm by blast
  qed
  have "on_track E dir ?missing ?p0" by (simp add: on_track_def delivers_untouched)
  then have "on_track E dir ?missing ?p2" by (rule on_track_folds [OF assms(2) names])
  moreover have "err = (if pr_missing ?p2 = [] then None else Some (Unavailable (map fst (pr_missing ?p2))))"
    "ops = pr_ops ?p2"
    using assms(1) by (simp_all add: restore_captures_with_def Inr Let_def)
  moreover have "?have n c \<longleftrightarrow> (\<exists>b. read_file fs (dir @ [n]) = Some b \<and> matches (ce_digest E) c b)" for n c
    by (simp split: option.split)
  then have "map_of ?missing n = Some c \<longleftrightarrow> c \<in> set cs \<and> c_file_name c = n
      \<and> \<not> (\<exists>b. read_file fs (dir @ [n]) = Some b \<and> matches (ce_digest E) c b)" for n c
    using req by simp
  ultimately show ?thesis using m(2,3) by blast
qed


definition has_capture :: "('w, 'd) capture_env \<Rightarrow> path \<Rightarrow> fs \<Rightarrow> wasm_capture \<Rightarrow> bool" where
  "has_capture E dir fs c \<longleftrightarrow>
     (\<exists>b. read_file fs (dir @ [c_file_name c]) = Some b \<and> matches (ce_digest E) c b)"

lemma on_track_outcome:
  assumes m: "\<forall>n c. map_of m n = Some c \<longleftrightarrow> c \<in> set cs \<and> c_file_name c = n
      \<and> \<not> (\<exists>b. read_file fs (dir @ [n]) = Some b \<and> matches (ce_digest E) c b)"
    and p: "on_track E dir m p" and v: "\<forall>c \<in> set cs. validate c = None" "distinct (map c_file_name cs)"
    and r: "runs (pr_ops p) fs ok fs'"
  shows "(\<forall>n. ends_with n ''.wasm'' \<longrightarrow> fs' (dir @ [n]) = fs (dir @ [n])
      \<or> (\<exists>c \<in> set cs. \<exists>b. c_file_name c = n \<and> matches (ce_digest E) c b \<and> fs' (dir @ [n]) = Some (File b)))
    \<and> (ok \<longrightarrow> (\<forall>c \<in> set cs. c_file_name c \<notin> dom (map_of (pr_missing p)) \<longrightarrow> has_capture E dir fs' c))"
proof -
  have want: "wanted E m n \<subseteq> {b. \<exists>c \<in> set cs. c_file_name c = n \<and> matches (ce_digest E) c b}" for n
    using m by (auto simp: wanted_def)
  have d: "fs' (dir @ [n]) = fs (dir @ [n]) \<and> (ok \<longrightarrow> n \<notin> dom (map_of m) - dom (map_of (pr_missing p)))
      \<or> (\<exists>b \<in> wanted E m n. fs' (dir @ [n]) = Some (File b))" if "ends_with n ''.wasm''" for n
    using p r that unfolding on_track_def delivers_def by blast
  have "has_capture E dir fs' c"
    if c: "c \<in> set cs" "c_file_name c \<notin> dom (map_of (pr_missing p))" and ok for c
  proof -
    have "ends_with (c_file_name c) ''.wasm''" using v(1) c(1) validate_wasm by blast
    from d [OF this] consider (same) "fs' (dir @ [c_file_name c]) = fs (dir @ [c_file_name c])"
        "c_file_name c \<notin> dom (map_of m)"
      | (new) b where "b \<in> wanted E m (c_file_name c)" "fs' (dir @ [c_file_name c]) = Some (File b)"
      using c(2) \<open>ok\<close> by blast
    then show ?thesis
    proof cases
      case same
      with m c(1) obtain b where "read_file fs (dir @ [c_file_name c]) = Some b" "matches (ce_digest E) c b"
        by blast
      with same(1) show ?thesis by (auto simp: has_capture_def read_file_def)
    next
      case new
      with want obtain c' where "c' \<in> set cs" "c_file_name c' = c_file_name c" "matches (ce_digest E) c' b" by blast
      moreover from this v(2) c(1) have "c' = c" by (meson distinct_map inj_onD)
      ultimately show ?thesis using new(2) by (auto simp: has_capture_def read_file_def)
    qed
  qed
  moreover have "fs' (dir @ [n]) = fs (dir @ [n])
      \<or> (\<exists>c \<in> set cs. \<exists>b. c_file_name c = n \<and> matches (ce_digest E) c b \<and> fs' (dir @ [n]) = Some (File b))"
    if "ends_with n ''.wasm''" for n
    using d [OF that] want [of n] by blast
  ultimately show ?thesis by blast
qed

text \<open>
  C26: However a restore of captures ends, every \<open>.wasm\<close> path of the directory is as it was or holds bytes
  that match the requested capture of that name.  If it ends without an error, every requested capture
  is on disk with matching bytes; if some are unavailable, the requested captures it does not name are.
\<close>

theorem captures_restored:
  assumes "restore_captures_with E cs srcs dir fs w = (err, ops, w')" "tmp_ok E" "runs ops fs ok fs'"
  shows "(\<forall>n. ends_with n ''.wasm'' \<longrightarrow>
            fs' (dir @ [n]) = fs (dir @ [n])
            \<or> (\<exists>c \<in> set cs. \<exists>b. c_file_name c = n \<and> matches (ce_digest E) c b \<and> fs' (dir @ [n]) = Some (File b)))
    \<and> (err = None \<and> ok \<longrightarrow> (\<forall>c \<in> set cs. has_capture E dir fs' c))
    \<and> (\<forall>ns. err = Some (Unavailable ns) \<and> ok \<longrightarrow>
         set ns \<subseteq> c_file_name ` set cs
         \<and> (\<forall>c \<in> set cs. c_file_name c \<notin> set ns \<longrightarrow> has_capture E dir fs' c))"
  using restore_captures_cases [OF assms(1,2)]
proof (elim disjE exE conjE)
  assume e: "err \<noteq> None" "\<forall>ns. err \<noteq> Some (Unavailable ns)" "ops = []"
  have "fs' = fs" using assms(3) e(3) by (auto elim: runs_NilE)
  with e show ?thesis by blast
next
  fix m p
  assume m: "\<forall>n c. map_of m n = Some c \<longleftrightarrow> c \<in> set cs \<and> c_file_name c = n
      \<and> \<not> (\<exists>b. read_file fs (dir @ [n]) = Some b \<and> matches (ce_digest E) c b)"
    and p: "on_track E dir m p" "ops = pr_ops p"
    and v: "\<forall>c \<in> set cs. validate c = None" "distinct (map c_file_name cs)"
    and err: "err = (if pr_missing p = [] then None else Some (Unavailable (map fst (pr_missing p))))"
  note out = on_track_outcome [OF m p(1) v assms(3) [unfolded p(2)]]
  have "set ns = dom (map_of (pr_missing p))" if "err = Some (Unavailable ns)" for ns
    using err that by (auto simp: dom_map_of_conv_image_fst split: if_splits)
  moreover have "dom (map_of (pr_missing p)) \<subseteq> c_file_name ` set cs"
  proof -
    have "dom (map_of (pr_missing p)) \<subseteq> dom (map_of m)"
      using p(1) map_le_implies_dom_le unfolding on_track_def by blast
    also have "\<dots> \<subseteq> c_file_name ` set cs" using m by auto
    finally show ?thesis .
  qed
  moreover have "dom (map_of (pr_missing p)) = {}" if "err = None" using err that by (auto split: if_splits)
  ultimately show ?thesis using out by blast
qed

definition sample_capture :: wasm_capture where
  "sample_capture = \<lparr>c_file_name = ''m.wasm'', c_sha256 = replicate 64 CHR ''0'', c_size = Some 5,
     c_url = Some ''https://static.whatsapp.net/m.wasm''\<rparr>"

definition sample_env :: "(unit, unit) capture_env" where
  "sample_env = \<lparr>ce_digest = (\<lambda>_. replicate 32 CHR 0x00),
     ce_get = (\<lambda>w url hs cap. (Inr \<lparr>status = 200, body = WASM_MAGIC @ ''x''\<rparr>, w)),
     ce_redirect = default_get_redirect, ce_env = (\<lambda>_. None), ce_parse = (\<lambda>_. None), ce_api = (\<lambda>_. []),
     ce_page = (\<lambda>_ _. []), ce_release = (\<lambda>_. None), ce_assets = (\<lambda>_. None), ce_new_xz = (\<lambda>_. ()),
     ce_process = (\<lambda>_ _. Inl []), ce_gunzip = (\<lambda>_ _. Inl []), ce_tar = (\<lambda>_. Inl []),
     ce_tmp = (\<lambda>_. ''.tmpA'')\<rparr>"

lemma sample_digest: "sha256_hex (ce_digest sample_env) b = replicate 64 CHR ''0''"
proof -
  have "concat (map (hex2 lower_hex) (replicate 32 CHR 0x00)) = replicate 64 CHR ''0''" by code_simp
  then show ?thesis by (simp add: sha256_hex_def sample_env_def)
qed

lemma sample_matches: "matches (ce_digest sample_env) sample_capture (WASM_MAGIC @ ''x'')"
  by (simp add: matches_def sample_digest sample_capture_def MAX_WASM_BYTES_def WASM_MAGIC_def starts_with_def)

lemma sample_captures:
  "restore_captures_with sample_env [sample_capture] [] [''d''] (\<lambda>_. None) () =
     (None, persist sample_env [''d''] [(''m.wasm'', WASM_MAGIC @ ''x'')], ())"
proof -
  have "path_file_name ''m.wasm'' = Some ''m.wasm''" "ends_with ''m.wasm'' ''.wasm''"
    "is_cdn_payload ''https://static.whatsapp.net/m.wasm''" "is_lower_hex CHR ''0''" by code_simp+
  then have v: "validate sample_capture = None"
    by (simp add: validate_def sample_capture_def MAX_WASM_BYTES_def list_all_iff)
  obtain u where c: "c_file_name sample_capture = ''m.wasm''" "c_size sample_capture = Some 5"
    "c_url sample_capture = Some u" by (simp add: sample_capture_def)
  have g: "ce_get sample_env = (\<lambda>w url hs cap. (Inr \<lparr>status = 200, body = WASM_MAGIC @ ''x''\<rparr>, w))"
    by (simp add: sample_env_def)
  show ?thesis
    using sample_matches
    by (simp add: restore_captures_with_def v c g Let_def read_file_def try_cdn_def get_with_def
        bt_insert_def bt_remove_def)
qed

theorem captures_restored_witness:
  "has_capture sample_env [''d'']
     (exec_ops (persist sample_env [''d''] [(''m.wasm'', WASM_MAGIC @ ''x'')]) (\<lambda>_. None)) sample_capture"
proof -
  have "tmp_ok sample_env" by (simp add: tmp_ok_def sample_env_def ends_with_def starts_with_def)
  from captures_restored [OF sample_captures this runs_exec] show ?thesis by simp
qed


section \<open>Where the token goes\<close>

lemma asset_bytes_redirected:
  assumes "asset_bytes_with E w a (Some t) = (Inr b, w')"
    and "\<nexists>b w1. get_with E w (browser_download_url a) plain_headers MAX_ARCHIVE_BYTES = (Inr b, w1)"
  shows "\<exists>w1 r w2. starts_with (asset_url a) ''https://api.github.com/''
    \<and> ce_redirect E w1 (asset_url a) [(''User-Agent'', ''wa-store''), (''Accept'', ''application/octet-stream''),
        (''Authorization'', ''Bearer '' @ t)] MAX_ARCHIVE_BYTES = (Inr r, w2)
    \<and> (r_status r = 200 \<and> b = r_body r
       \<or> (\<exists>loc. location r = Some loc \<and> trusted_asset_redirect (ce_parse E) loc
            \<and> get_with E w2 loc plain_headers MAX_ARCHIVE_BYTES = (Inr b, w')))"
proof -
  obtain e w1 where "get_with E w (browser_download_url a) plain_headers MAX_ARCHIVE_BYTES = (Inl e, w1)"
    using assms(2) by (metis prod.exhaust sum.exhaust)
  with assms(1) show ?thesis
    by (auto simp: asset_bytes_with_def split: prod.splits sum.splits option.splits if_splits)
qed

text \<open>
  Fetching a release asset sends the GitHub token only to \<open>https://api.github.com/\<close>: for any other
  asset URL the answer depends neither on the token nor on the authenticated request.  Bytes obtained
  with the token come from that API itself or from a redirect to a trusted GitHub host, which is asked
  without the token.
\<close>

theorem asset_token_confined:
  "(\<not> starts_with (asset_url a) ''https://api.github.com/'' \<longrightarrow>
      asset_bytes_with E w a (Some t) = asset_bytes_with (E\<lparr>ce_redirect := r\<rparr>) w a (Some t'))
   \<and> asset_bytes_with E w a None = asset_bytes_with (E\<lparr>ce_redirect := r\<rparr>) w a None
   \<and> (asset_bytes_with E w a (Some t) = (Inr b, w') \<longrightarrow>
        get_with E w (browser_download_url a) plain_headers MAX_ARCHIVE_BYTES = (Inr b, w')
        \<or> (\<exists>w1 s w2. starts_with (asset_url a) ''https://api.github.com/''
            \<and> ce_redirect E w1 (asset_url a) [(''User-Agent'', ''wa-store''), (''Accept'', ''application/octet-stream''),
                (''Authorization'', ''Bearer '' @ t)] MAX_ARCHIVE_BYTES = (Inr s, w2)
            \<and> (r_status s = 200 \<and> b = r_body s
               \<or> (\<exists>loc. location s = Some loc \<and> trusted_asset_redirect (ce_parse E) loc
                    \<and> get_with E w2 loc plain_headers MAX_ARCHIVE_BYTES = (Inr b, w')))))"
proof (intro conjI impI)
  have g: "get_with (E\<lparr>ce_redirect := r\<rparr>) = get_with E" by (intro ext) (simp add: get_with_def)
  show "asset_bytes_with E w a (Some t) = asset_bytes_with (E\<lparr>ce_redirect := r\<rparr>) w a (Some t')"
    if "\<not> starts_with (asset_url a) ''https://api.github.com/''"
    using that by (simp add: asset_bytes_with_def g split: prod.split sum.split)
  show "asset_bytes_with E w a None = asset_bytes_with (E\<lparr>ce_redirect := r\<rparr>) w a None"
    by (simp add: asset_bytes_with_def g split: prod.split sum.split)
next
  assume got: "asset_bytes_with E w a (Some t) = (Inr b, w')"
  show "get_with E w (browser_download_url a) plain_headers MAX_ARCHIVE_BYTES = (Inr b, w')
    \<or> (\<exists>w1 s w2. starts_with (asset_url a) ''https://api.github.com/''
        \<and> ce_redirect E w1 (asset_url a) [(''User-Agent'', ''wa-store''), (''Accept'', ''application/octet-stream''),
            (''Authorization'', ''Bearer '' @ t)] MAX_ARCHIVE_BYTES = (Inr s, w2)
        \<and> (r_status s = 200 \<and> b = r_body s
           \<or> (\<exists>loc. location s = Some loc \<and> trusted_asset_redirect (ce_parse E) loc
                \<and> get_with E w2 loc plain_headers MAX_ARCHIVE_BYTES = (Inr b, w'))))"
  proof (cases "\<exists>b w1. get_with E w (browser_download_url a) plain_headers MAX_ARCHIVE_BYTES = (Inr b, w1)")
    case True
    with got show ?thesis by (auto simp: asset_bytes_with_def)
  next
    case False
    from asset_bytes_redirected [OF got False] show ?thesis by blast
  qed
qed

definition private_env :: "(unit, unit) capture_env" where
  "private_env = sample_env
     \<lparr>ce_get := (\<lambda>w url hs cap. (Inr \<lparr>status = if url = ''cdn'' \<and> hs = plain_headers then 200 else 404, body = ''x''\<rparr>, w)),
      ce_redirect := (\<lambda>w url hs cap. (Inr \<lparr>r_status = 302, location = Some ''cdn'', r_body = []\<rparr>, w)),
      ce_parse := (\<lambda>u. Some \<lparr>u_scheme = ''https'', u_username = [], u_password = None, u_host = Some ''github.com'', u_text = u\<rparr>)\<rparr>"

definition private_asset :: asset where
  "private_asset = \<lparr>asset_name = ''wasm-1.tar.xz'', asset_url = ''https://api.github.com/a'',
     browser_download_url = ''https://github.com/a'', created_at = []\<rparr>"

theorem asset_token_confined_witness:
  "trusted_asset_redirect (ce_parse private_env) ''cdn''
   \<and> get_with private_env () ''cdn'' plain_headers MAX_ARCHIVE_BYTES = (Inr ''x'', ())
   \<and> asset_bytes_with private_env () (private_asset\<lparr>asset_url := ''https://evil/''\<rparr>) (Some ''t'')
     = asset_bytes_with private_env () (private_asset\<lparr>asset_url := ''https://evil/''\<rparr>) (Some ''u'')"
proof -
  let ?evil = "private_asset\<lparr>asset_url := ''https://evil/''\<rparr>"
  let ?direct = "get_with private_env () (browser_download_url private_asset) plain_headers MAX_ARCHIVE_BYTES"
  have cdn: "get_with private_env () ''cdn'' plain_headers MAX_ARCHIVE_BYTES = (Inr ''x'', ())"
    by (simp add: private_env_def get_with_def)
  have got: "asset_bytes_with private_env () private_asset (Some ''t'') = (Inr ''x'', ())"
    by (simp add: asset_bytes_with_def private_env_def private_asset_def get_with_def starts_with_def
        trusted_asset_redirect_def)
  have no: "?direct \<noteq> (Inr ''x'', ())" by (simp add: private_env_def private_asset_def get_with_def)
  have r: "\<And>w u h m. fst (ce_redirect private_env w u h m) = Inr \<lparr>r_status = 302, location = Some ''cdn'', r_body = []\<rparr>"
    by (simp add: private_env_def)
  from asset_token_confined [of private_asset private_env "()" "''t''" "ce_redirect private_env" "''u''" "''x''" "()"]
    got no obtain w1 s w2 hs loc where s: "ce_redirect private_env w1 (asset_url private_asset) hs MAX_ARCHIVE_BYTES = (Inr s, w2)"
    "r_status s = 200 \<or> location s = Some loc \<and> trusted_asset_redirect (ce_parse private_env) loc" by blast
  with r [of w1 "asset_url private_asset" hs MAX_ARCHIVE_BYTES]
  have "trusted_asset_redirect (ce_parse private_env) ''cdn''" by auto
  moreover have "\<not> starts_with (asset_url ?evil) ''https://api.github.com/''" by (simp add: starts_with_def)
  then have "asset_bytes_with private_env () ?evil (Some ''t'')
      = asset_bytes_with (private_env\<lparr>ce_redirect := ce_redirect private_env\<rparr>) () ?evil (Some ''u'')"
    using asset_token_confined [of ?evil private_env "()" "''t''" "ce_redirect private_env" "''u''"] by blast
  then have "asset_bytes_with private_env () ?evil (Some ''t'') = asset_bytes_with private_env () ?evil (Some ''u'')"
    by simp
  ultimately show ?thesis using cdn by blast
qed

end
