(* ===== verification/ContractDiff.thy ===== *)
theory ContractDiff
  imports Lock UrlPolicy FileSystem HttpPort Json
begin

text \<open>
  \<open>crates/whatspec/src/contract_diff.rs\<close>: the reviewable differences of two generated snapshots.  The
  serializer, the parser and the JSON Pointer lookup of \<open>serde_json\<close> are parameters, as are the digest
  and the decoding of a lock.  A change is a JSON object and kept as its fields; what Rust pushes onto
  a vector is a returned list; \<open>None\<close> as a list of changes is a panic.
\<close>

section \<open>Values\<close>

definition FORMAT_VERSION :: nat where "FORMAT_VERSION = 2"

record json_lib =
  j_ser :: "json \<Rightarrow> string"                   \<comment> \<open>\<open>serde_json::to_string\<close>\<close>
  j_de :: "string \<Rightarrow> json option"             \<comment> \<open>\<open>serde_json::from_str\<close>, \<open>from_slice\<close>\<close>
  j_pointer :: "json \<Rightarrow> string \<Rightarrow> json option" \<comment> \<open>\<open>Value::pointer\<close>\<close>
  j_lock :: "bytes \<Rightarrow> bundle_lock option"     \<comment> \<open>\<open>from_slice\<close> at the type \<open>BundleLock\<close>\<close>
  j_digest :: "bytes \<Rightarrow> bytes"

text \<open>\<open>==\<close> of two values is equality of their canonical forms: of two texts of one number only \<open>0.0\<close>
  and \<open>-0.0\<close> are equal floats.\<close>

fun canon_num :: "json_num \<Rightarrow> json_num" where
  "canon_num (Float s) = Float (if s = ''-0.0'' then ''0.0'' else s)"
| "canon_num n = n"

fun canon :: "json \<Rightarrow> json" where
  "canon (JNum n) = JNum (canon_num n)"
| "canon (JArr xs) = JArr (map canon xs)"
| "canon (JObj m) = JObj (map (map_prod id canon) m)"
| "canon v = v"

definition value_eq :: "json \<Rightarrow> json \<Rightarrow> bool" where
  "value_eq v w \<longleftrightarrow> canon v = canon w"

definition opt_eq :: "json option \<Rightarrow> json option \<Rightarrow> bool" where
  "opt_eq old new \<longleftrightarrow> map_option canon old = map_option canon new"

text \<open>\<open>value[key]\<close>, and the values \<open>json!\<close> makes of an option.\<close>

definition json_index :: "json \<Rightarrow> string \<Rightarrow> json" where
  "json_index v key = (case json_get v key of Some x \<Rightarrow> x | None \<Rightarrow> JNull)"

definition opt_json :: "json option \<Rightarrow> json" where
  "opt_json v = (case v of Some x \<Rightarrow> x | None \<Rightarrow> JNull)"

abbreviation num :: "nat \<Rightarrow> json" where "num n \<equiv> JNum (PosInt n)"

definition replace_char :: "char \<Rightarrow> string \<Rightarrow> string \<Rightarrow> string" where
  "replace_char c t s = concat (map (\<lambda>d. if d = c then t else [d]) s)"

definition pointer_key :: "string \<Rightarrow> string" where
  "pointer_key key = replace_char SLASH ''~1'' (replace_char CHR ''~'' ''~0'' key)"

section \<open>The walk over two values\<close>

type_synonym change = "(string, json) btree"

definition change_get :: "change \<Rightarrow> string \<Rightarrow> json" where
  "change_get c key = (case map_of c key of Some v \<Rightarrow> v | None \<Rightarrow> JNull)"

definition array_change :: "string \<Rightarrow> string \<Rightarrow> json list \<Rightarrow> json list \<Rightarrow> change" where
  "array_change old_path new_path a b =
     bt_of [(''oldPath'', JStr old_path), (''newPath'', JStr new_path),
            (''kind'', JStr ''ordered-array-changed''), (''before'', JArr a), (''after'', JArr b)]"

definition value_change :: "string \<Rightarrow> string \<Rightarrow> json option \<Rightarrow> json option \<Rightarrow> change" where
  "value_change old_path new_path old new =
     bt_of [(''oldPath'', opt_json (map_option (\<lambda>_. JStr old_path) old)),
            (''newPath'', opt_json (map_option (\<lambda>_. JStr new_path) new)),
            (''kind'', JStr (if old = None then ''added'' else if new = None then ''removed'' else ''changed'')),
            (''before'', opt_json old), (''after'', opt_json new)]"

definition weight :: "json option \<Rightarrow> nat" where
  "weight v = (case v of Some x \<Rightarrow> Suc (size x) | None \<Rightarrow> 0)"

lemma weight_field: "weight (map_of m k) < weight (Some (JObj m)) \<and> (map_of m k \<noteq> None \<longrightarrow> 0 < weight (map_of m k))"
proof (cases "map_of m k")
  case (Some v)
  then have "(k, v) \<in> set m" by (rule map_of_SomeD)
  then have "size v < Suc (size_list (size_prod (\<lambda>_. 0) size) m)"
    using size_list_estimation [of "(k, v)" m "size v" "size_prod (\<lambda>_. 0) size"] by simp
  then show ?thesis by (simp add: weight_def Some)
qed (simp add: weight_def)

function (sequential) walk ::
    "json option \<Rightarrow> json option \<Rightarrow> string \<Rightarrow> string \<Rightarrow> change list" where
  "walk (Some (JObj a)) (Some (JObj b)) old_path new_path =
     (if opt_eq (Some (JObj a)) (Some (JObj b)) then []
      else concat (map (\<lambda>key. walk (map_of a key) (map_of b key)
               (old_path @ SLASH # pointer_key key) (new_path @ SLASH # pointer_key key))
             (bs_of (map fst a @ map fst b))))"
| "walk (Some (JArr a)) (Some (JArr b)) old_path new_path =
     (if opt_eq (Some (JArr a)) (Some (JArr b)) then [] else [array_change old_path new_path a b])"
| "walk old new old_path new_path =
     (if opt_eq old new then [] else [value_change old_path new_path old new])"
  by pat_completeness auto
termination
proof (relation "measure (\<lambda>(v, w, _, _). weight v + weight w)")
  show "wf (measure (\<lambda>(v, w, _, _). weight v + weight w))" by simp
next
  fix a b old_path new_path k
  show "((map_of a k, map_of b k, old_path @ SLASH # pointer_key k, new_path @ SLASH # pointer_key k),
      (Some (JObj a), Some (JObj b), old_path, new_path)) \<in> measure (\<lambda>(v, w, _, _). weight v + weight w)"
    using weight_field [of a k] weight_field [of b k] by simp
qed

section \<open>The difference of two documents\<close>

definition identity_keys :: "string \<Rightarrow> string \<Rightarrow> string list option" where
  "identity_keys domain collection =
     (if (domain, collection) \<in> {(''enums'', ''enums''), (''wam'', ''enums'')} then Some [''module'', ''name'']
      else if (domain, collection) = (''abprops'', ''configs'') then Some [''module'', ''name'']
      else if (domain, collection) \<in> {(''iq'', ''stanzas''), (''stanza'', ''stanzas'')}
        then Some [''moduleName'', ''exportedFunction'']
      else if (domain, collection) = (''incoming'', ''incoming'') then Some [''module'', ''tag'']
      else if (domain, collection) = (''srvreq'', ''requests'') then Some [''module'', ''tag'']
      else if (domain, collection) = (''notif'', ''notifications'') then Some [''type'']
      else if (domain, collection) = (''notif'', ''stanzaTags'') then Some [''tag'']
      else if (domain, collection) = (''wam'', ''events'') then Some [''module'', ''name'']
      else if (domain, collection) \<in> {(''wam'', ''globals''), (''wam'', ''constants'')} then Some [''name'']
      else if (domain, collection) = (''wam'', ''privateStatsIds'') then Some [''key'']
      else if (domain, collection) = (''wasm'', ''binaries'') then Some [''name'']
      else if (domain, collection) = (''wasm'', ''resources'') then Some [''bxId'']
      else None)"

type_synonym keyed_items = "(string, (nat \<times> json) list) btree"

definition identity_of :: "json_lib \<Rightarrow> string list \<Rightarrow> json \<Rightarrow> string option" where
  "identity_of L keys item = map_option (\<lambda>ids. j_ser L (JArr ids)) (those (map (json_get item) keys))"

definition or_empty :: "'a list option \<Rightarrow> 'a list" where
  "or_empty x = (case x of Some xs \<Rightarrow> xs | None \<Rightarrow> [])"

fun keyed_loop :: "json_lib \<Rightarrow> string list \<Rightarrow> nat \<Rightarrow> json list \<Rightarrow> keyed_items \<Rightarrow> keyed_items option" where
  "keyed_loop L keys index [] m = Some m"
| "keyed_loop L keys index (item # items) m =
     (case identity_of L keys item of
        None \<Rightarrow> None
      | Some identity \<Rightarrow>
          keyed_loop L keys (index + 1) items
            (bt_insert identity (or_empty (map_of m identity) @ [(index, item)]) m))"

definition keyed :: "json_lib \<Rightarrow> json \<Rightarrow> string list \<Rightarrow> keyed_items option" where
  "keyed L v keys = Option.bind (as_array v) (\<lambda>items. keyed_loop L keys 0 items [])"

definition GROUP_DIAGNOSTIC :: json where
  "GROUP_DIAGNOSTIC = JStr ''non-unique identity; occurrences compared as an ordered group''"

definition group_change :: "string \<Rightarrow> (nat \<times> json) list \<Rightarrow> (nat \<times> json) list \<Rightarrow> change" where
  "group_change path o_items n_items =
     bt_of [(''oldPath'', JStr path), (''newPath'', JStr path),
            (''kind'', JStr ''ambiguous-identity-group-changed''),
            (''before'', JArr (map snd o_items)), (''after'', JArr (map snd n_items)),
            (''oldIndices'', JArr (map (num \<circ> fst) o_items)),
            (''newIndices'', JArr (map (num \<circ> fst) n_items)),
            (''identityDiagnostic'', GROUP_DIAGNOSTIC)]"

fun item_path :: "string \<Rightarrow> (nat \<times> json) list \<Rightarrow> string" where
  "item_path path [] = []"
| "item_path path ((i, v) # items) = path @ SLASH # dec i"

fun first_item :: "(nat \<times> json) list \<Rightarrow> json option" where
  "first_item [] = None"
| "first_item ((i, v) # items) = Some v"

definition group_walk :: "string \<Rightarrow> (nat \<times> json) list \<Rightarrow> (nat \<times> json) list \<Rightarrow> change list" where
  "group_walk path os ns =
     (if length os \<le> 1 \<and> length ns \<le> 1
      then walk (first_item os) (first_item ns) (item_path path os) (item_path path ns)
      else if map (canon \<circ> snd) os \<noteq> map (canon \<circ> snd) ns then [group_change path os ns] else [])"

definition identity_diff ::
    "json_lib \<Rightarrow> string \<Rightarrow> keyed_items \<Rightarrow> keyed_items \<Rightarrow> string \<Rightarrow> change list option" where
  "identity_diff L path old_items new_items identity =
     (let changes = group_walk path (or_empty (map_of old_items identity)) (or_empty (map_of new_items identity))
      in if changes = [] then Some []
         else map_option (\<lambda>v. map (bt_insert ''identity'' v) changes) (j_de L identity))"

text \<open>The two keyed collections, when both documents have them and every item has its identity.\<close>

definition keyed_pair ::
    "json_lib \<Rightarrow> string \<Rightarrow> string \<Rightarrow> (string \<times> json) list \<Rightarrow> (string \<times> json) list \<Rightarrow> (keyed_items \<times> keyed_items) option" where
  "keyed_pair L domain collection a b =
     (case identity_keys domain collection of
        None \<Rightarrow> None
      | Some keys \<Rightarrow>
          Option.bind (map_of a collection) (\<lambda>av. Option.bind (keyed L av keys) (\<lambda>oi.
          Option.bind (map_of b collection) (\<lambda>bv. Option.bind (keyed L bv keys) (\<lambda>ni. Some (oi, ni))))))"

definition NO_IDENTITY :: json where
  "NO_IDENTITY = JStr ''missing or non-unique identity; collection compared in order''"

definition collection_diff ::
    "json_lib \<Rightarrow> string \<Rightarrow> (string \<times> json) list \<Rightarrow> (string \<times> json) list \<Rightarrow> string \<Rightarrow> change list option" where
  "collection_diff L domain a b collection =
     (let path = SLASH # pointer_key collection
      in case keyed_pair L domain collection a b of
           Some (oi, ni) \<Rightarrow>
             map_option concat (those (map (identity_diff L path oi ni) (bs_of (map fst oi @ map fst ni))))
         | None \<Rightarrow>
             (let changes = walk (map_of a collection) (map_of b collection) path path
              in Some (if identity_keys domain collection \<noteq> None
                       then map (bt_insert ''identityDiagnostic'' NO_IDENTITY) changes
                       else changes)))"

definition version_field :: "string \<Rightarrow> bool" where
  "version_field k \<longleftrightarrow> k \<in> {''schemaVersion'', ''waVersion''}"

definition document_diff :: "json_lib \<Rightarrow> string \<Rightarrow> json \<Rightarrow> json \<Rightarrow> change list option" where
  "document_diff L domain old new =
     (case (as_object old, as_object new) of
        (Some a, Some b) \<Rightarrow>
          map_option concat (those (map (collection_diff L domain a b)
            (filter (\<lambda>k. \<not> version_field k) (bs_of (map fst a @ map fst b)))))
      | _ \<Rightarrow> Some (walk (Some old) (Some new) [] []))"

section \<open>Documents and pointers\<close>

text \<open>The objects of a value list their keys in order, as a \<open>BTreeMap\<close> does.\<close>

fun json_ok :: "json \<Rightarrow> bool" where
  "json_ok (JArr xs) = (\<forall>x \<in> set xs. json_ok x)"
| "json_ok (JObj m) = (bt_ok m \<and> (\<forall>e \<in> set m. json_ok (snd e)))"
| "json_ok v = True"

definition opt_ok :: "json option \<Rightarrow> bool" where
  "opt_ok v = (case v of Some x \<Rightarrow> json_ok x | None \<Rightarrow> True)"

lemma opt_ok_field: "json_ok (JObj m) \<Longrightarrow> opt_ok (map_of m k)"
  by (force simp: opt_ok_def split: option.split dest: map_of_SomeD)

lemma canon_fields: "map_of (map (map_prod id canon) m) k = map_option canon (map_of m k)"
  by (induction m) (auto simp: map_prod_def split: prod.splits)

lemma opt_eq_objects:
  assumes "bt_ok a" "bt_ok b"
  shows "opt_eq (Some (JObj a)) (Some (JObj b)) \<longleftrightarrow> (\<forall>k. opt_eq (map_of a k) (map_of b k))"
proof
  assume "opt_eq (Some (JObj a)) (Some (JObj b))"
  then show "\<forall>k. opt_eq (map_of a k) (map_of b k)"
    unfolding opt_eq_def by (metis canon.simps(3) canon_fields json.inject(5) option.inject option.simps(9))
next
  assume e: "\<forall>k. opt_eq (map_of a k) (map_of b k)"
  let ?f = "map (map_prod id canon)"
  have "map fst (?f a) = map fst a" "map fst (?f b) = map fst b" by simp_all
  then have "bt_ok (?f a)" "bt_ok (?f b)" using assms by simp_all
  moreover have "map_of (?f a) = map_of (?f b)"
    using e by (intro ext) (simp add: canon_fields opt_eq_def)
  ultimately have "?f a = ?f b" by (rule bt_ok_unique)
  then show "opt_eq (Some (JObj a)) (Some (JObj b))" by (simp add: opt_eq_def)
qed

lemma walk_nil_iff: "opt_ok old \<Longrightarrow> opt_ok new \<Longrightarrow> walk old new p q = [] \<longleftrightarrow> opt_eq old new"
proof (induction old new p q rule: walk.induct)
  case (1 a b p q)
  show ?case
  proof (cases "opt_eq (Some (JObj a)) (Some (JObj b))")
    case False
    have ok: "json_ok (JObj a)" "json_ok (JObj b)" using 1(2,3) by (simp_all add: opt_ok_def)
    have ih: "walk (map_of a k) (map_of b k) (p @ SLASH # pointer_key k) (q @ SLASH # pointer_key k) = []
        \<longleftrightarrow> opt_eq (map_of a k) (map_of b k)" if "k \<in> set (bs_of (map fst a @ map fst b))" for k
      using 1(1) [OF False that] opt_ok_field [OF ok(1)] opt_ok_field [OF ok(2)] by blast
    have "opt_eq (map_of a k) (map_of b k)" if "k \<notin> set (bs_of (map fst a @ map fst b))" for k
    proof -
      have "map_of a k = None" "map_of b k = None" using that by (auto simp: map_of_eq_None_iff)
      then show ?thesis by (simp add: opt_eq_def)
    qed
    moreover obtain k where "\<not> opt_eq (map_of a k) (map_of b k)"
      using False opt_eq_objects [of a b] ok by auto
    ultimately have "k \<in> set (bs_of (map fst a @ map fst b))" "\<not> opt_eq (map_of a k) (map_of b k)" by blast+
    with ih False show ?thesis by auto
  qed simp
qed auto

text \<open>What \<open>Value::pointer\<close> documents: the empty pointer is the document, a key or an index one step.\<close>

definition pointer_ok :: "json_lib \<Rightarrow> bool" where
  "pointer_ok L \<longleftrightarrow> (\<forall>d. j_pointer L d [] = Some d)
     \<and> (\<forall>d p m k v. j_pointer L d p = Some (JObj m) \<and> map_of m k = Some v \<longrightarrow>
          j_pointer L d (p @ SLASH # pointer_key k) = Some v)
     \<and> (\<forall>d p xs i. j_pointer L d p = Some (JArr xs) \<and> i < length xs \<longrightarrow>
          j_pointer L d (p @ SLASH # dec i) = Some (xs ! i))"

text \<open>A side of a change: a pointer that leads to the value it reports, or null on both.\<close>

definition side_ok :: "json_lib \<Rightarrow> json \<Rightarrow> json \<Rightarrow> json \<Rightarrow> bool" where
  "side_ok L doc pt v \<longleftrightarrow> (pt = JNull \<and> v = JNull) \<or> (\<exists>p. pt = JStr p \<and> j_pointer L doc p = Some v)"

definition located :: "json_lib \<Rightarrow> json \<Rightarrow> json \<Rightarrow> change \<Rightarrow> bool" where
  "located L old new c \<longleftrightarrow>
     side_ok L old (change_get c ''oldPath'') (change_get c ''before'')
     \<and> side_ok L new (change_get c ''newPath'') (change_get c ''after'')
     \<and> (change_get c ''kind'' = JStr ''added'' \<longleftrightarrow> change_get c ''oldPath'' = JNull)
     \<and> (change_get c ''kind'' = JStr ''removed'' \<longrightarrow> change_get c ''newPath'' = JNull)"

definition found_at :: "json_lib \<Rightarrow> json \<Rightarrow> string \<Rightarrow> json option \<Rightarrow> bool" where
  "found_at L doc p v \<longleftrightarrow> (case v of Some x \<Rightarrow> j_pointer L doc p = Some x | None \<Rightarrow> True)"

lemma found_at_field:
  assumes "pointer_ok L" "found_at L doc p (Some (JObj m))"
  shows "found_at L doc (p @ SLASH # pointer_key k) (map_of m k)"
  using assms by (auto simp: found_at_def pointer_ok_def split: option.split)

lemma change_get_array [simp]:
  "change_get (array_change p q a b) ''oldPath'' = JStr p" "change_get (array_change p q a b) ''newPath'' = JStr q"
  "change_get (array_change p q a b) ''kind'' = JStr ''ordered-array-changed''"
  "change_get (array_change p q a b) ''before'' = JArr a" "change_get (array_change p q a b) ''after'' = JArr b"
  by (simp_all add: change_get_def array_change_def map_of_bt_of)

lemma change_get_value [simp]:
  "change_get (value_change p q v w) ''oldPath'' = opt_json (map_option (\<lambda>_. JStr p) v)"
  "change_get (value_change p q v w) ''newPath'' = opt_json (map_option (\<lambda>_. JStr q) w)"
  "change_get (value_change p q v w) ''kind''
    = JStr (if v = None then ''added'' else if w = None then ''removed'' else ''changed'')"
  "change_get (value_change p q v w) ''before'' = opt_json v" "change_get (value_change p q v w) ''after'' = opt_json w"
  by (simp_all add: change_get_def value_change_def map_of_bt_of)

lemma change_get_insert [simp]:
  "change_get (bt_insert k v c) k' = (if k' = k then v else change_get c k')"
  by (simp add: change_get_def)

lemma located_array: "found_at L D p (Some (JArr a)) \<Longrightarrow> found_at L D' q (Some (JArr b)) \<Longrightarrow>
    located L D D' (array_change p q a b)"
  by (simp add: located_def side_ok_def found_at_def)

lemma located_value:
  assumes "found_at L D p v" "found_at L D' q w" "\<not> opt_eq v w"
  shows "located L D D' (value_change p q v w)"
  using assms by (cases v; cases w) (auto simp: located_def side_ok_def found_at_def opt_json_def opt_eq_def)

lemma walk_located:
  assumes "pointer_ok L"
  shows "found_at L D p old \<Longrightarrow> found_at L D' q new \<Longrightarrow> c \<in> set (walk old new p q) \<Longrightarrow> located L D D' c"
proof (induction old new p q rule: walk.induct)
  case (1 a b p q)
  then have ne: "\<not> opt_eq (Some (JObj a)) (Some (JObj b))" by auto
  with 1(4) obtain k where k: "k \<in> set (bs_of (map fst a @ map fst b))"
    and c: "c \<in> set (walk (map_of a k) (map_of b k) (p @ SLASH # pointer_key k) (q @ SLASH # pointer_key k))"
    by auto
  show ?case
    by (rule 1(1) [OF ne k found_at_field [OF assms 1(2)] found_at_field [OF assms 1(3)] c])
next
  case (2 a b p q)
  then show ?case using located_array by (auto split: if_splits)
qed (use located_value in \<open>auto split: if_splits\<close>)

text \<open>The groups of a keyed collection are its occurrences of each identity, with their indices.\<close>

definition numbered :: "json_lib \<Rightarrow> string list \<Rightarrow> string \<Rightarrow> nat \<Rightarrow> json list \<Rightarrow> (nat \<times> json) list" where
  "numbered L keys i n xs = filter (\<lambda>(j, x). identity_of L keys x = Some i) (enumerate n xs)"

definition occurrences :: "json_lib \<Rightarrow> string list \<Rightarrow> string \<Rightarrow> json list \<Rightarrow> json list" where
  "occurrences L keys i xs = filter (\<lambda>x. identity_of L keys x = Some i) xs"

lemma snd_numbered: "map snd (numbered L keys i n xs) = occurrences L keys i xs"
  by (induction xs arbitrary: n) (auto simp: numbered_def occurrences_def)

lemma numbered_nth: "(j, x) \<in> set (numbered L keys i 0 xs) \<Longrightarrow> j < length xs \<and> xs ! j = x"
  by (auto simp: numbered_def in_set_enumerate_eq)

lemma keyed_loop_defined:
  "(keyed_loop L keys n xs m = None) = (\<exists>x \<in> set xs. identity_of L keys x = None)"
  by (induction xs arbitrary: n m) (auto split: option.split)

lemma keyed_loop_groups:
  "keyed_loop L keys n xs m = Some r \<Longrightarrow> or_empty (map_of r i) = or_empty (map_of m i) @ numbered L keys i n xs"
proof (induction xs arbitrary: n m)
  case Nil
  then show ?case by (simp add: numbered_def)
next
  case (Cons x xs)
  then obtain j where j: "identity_of L keys x = Some j" by (cases "identity_of L keys x") auto
  let ?m = "bt_insert j (or_empty (map_of m j) @ [(n, x)]) m"
  from Cons.prems j have "keyed_loop L keys (n + 1) xs ?m = Some r" by simp
  then have "or_empty (map_of r i) = or_empty (map_of ?m i) @ numbered L keys i (n + 1) xs" by (rule Cons.IH)
  moreover have "or_empty (map_of ?m i) = or_empty (map_of m i) @ (if i = j then [(n, x)] else [])"
    by (simp add: or_empty_def)
  moreover have "numbered L keys i n (x # xs) = (if i = j then [(n, x)] else []) @ numbered L keys i (n + 1) xs"
    using j by (simp add: numbered_def)
  ultimately show ?case by simp
qed

lemma keyed_Some:
  assumes "keyed L v keys = Some r"
  shows "\<exists>xs. v = JArr xs \<and> (\<forall>x \<in> set xs. identity_of L keys x \<noteq> None)
    \<and> (\<forall>i. or_empty (map_of r i) = numbered L keys i 0 xs)"
proof -
  from assms obtain xs where xs: "v = JArr xs" "keyed_loop L keys 0 xs [] = Some r"
    by (cases v) (auto simp: keyed_def)
  moreover from xs(2) have "\<forall>x \<in> set xs. identity_of L keys x \<noteq> None"
    using keyed_loop_defined [of L keys 0 xs "[]"] by auto
  moreover have "or_empty (map_of r i) = numbered L keys i 0 xs" for i
    using keyed_loop_groups [OF xs(2)] by (simp add: or_empty_def)
  ultimately show ?thesis by blast
qed

lemma keyed_None: "keyed L (JArr xs) keys = None \<longleftrightarrow> (\<exists>x \<in> set xs. identity_of L keys x = None)"
  by (simp add: keyed_def keyed_loop_defined)

definition plain_change :: "change \<Rightarrow> bool" where
  "plain_change c \<longleftrightarrow> (\<exists>p q a b. c = array_change p q a b) \<or> (\<exists>p q v w. c = value_change p q v w)"

lemma plain_change_intros: "plain_change (array_change p q a b)" "plain_change (value_change p q v w)"
  unfolding plain_change_def by blast+

lemma walk_shape: "c \<in> set (walk old new p q) \<Longrightarrow> plain_change c"
proof (induction old new p q rule: walk.induct)
  case (1 a b p q)
  then have ne: "\<not> opt_eq (Some (JObj a)) (Some (JObj b))" by auto
  with 1(2) obtain k where "k \<in> set (bs_of (map fst a @ map fst b))"
    "c \<in> set (walk (map_of a k) (map_of b k) (p @ SLASH # pointer_key k) (q @ SLASH # pointer_key k))" by auto
  with 1(1) [OF ne] show ?case by blast
next
  case (2 a b p q)
  then show ?case by (auto simp: plain_change_intros split: if_splits)
qed (simp_all add: plain_change_intros split: if_splits)

definition ambiguous :: "change \<Rightarrow> bool" where
  "ambiguous c \<longleftrightarrow> change_get c ''kind'' = JStr ''ambiguous-identity-group-changed''"

lemma walk_not_ambiguous: "c \<in> set (walk old new p q) \<Longrightarrow> \<not> ambiguous c"
  by (drule walk_shape) (auto simp: ambiguous_def plain_change_def split: if_splits)

definition members :: "json_lib \<Rightarrow> json \<Rightarrow> json \<Rightarrow> json \<Rightarrow> json \<Rightarrow> bool" where
  "members L doc pt indices v \<longleftrightarrow>
     (\<exists>p xs is. pt = JStr p \<and> j_pointer L doc p = Some (JArr xs) \<and> (\<forall>i \<in> set is. i < length xs)
        \<and> indices = JArr (map num is) \<and> v = JArr (map ((!) xs) is))"

definition change_ok :: "json_lib \<Rightarrow> json \<Rightarrow> json \<Rightarrow> change \<Rightarrow> bool" where
  "change_ok L old new c \<longleftrightarrow>
     (if ambiguous c
      then members L old (change_get c ''oldPath'') (change_get c ''oldIndices'') (change_get c ''before'')
         \<and> members L new (change_get c ''newPath'') (change_get c ''newIndices'') (change_get c ''after'')
      else located L old new c)"

lemma change_ok_insert:
  assumes "k \<notin> {''oldPath'', ''newPath'', ''kind'', ''before'', ''after'', ''oldIndices'', ''newIndices''}"
  shows "change_ok L old new (bt_insert k v c) = change_ok L old new c"
proof -
  have "change_get (bt_insert k v c) k' = change_get c k'"
    if "k' \<in> {''oldPath'', ''newPath'', ''kind'', ''before'', ''after'', ''oldIndices'', ''newIndices''}" for k'
    using that assms by (metis change_get_insert)
  then show ?thesis unfolding change_ok_def ambiguous_def located_def by (simp only: insert_iff simp_thms)
qed

lemma change_get_group [simp]:
  "change_get (group_change p xs ys) ''kind'' = JStr ''ambiguous-identity-group-changed''"
  "change_get (group_change p xs ys) ''oldPath'' = JStr p" "change_get (group_change p xs ys) ''newPath'' = JStr p"
  "change_get (group_change p xs ys) ''before'' = JArr (map snd xs)" "change_get (group_change p xs ys) ''after'' = JArr (map snd ys)"
  "change_get (group_change p xs ys) ''oldIndices'' = JArr (map (num \<circ> fst) xs)"
  "change_get (group_change p xs ys) ''newIndices'' = JArr (map (num \<circ> fst) ys)"
  by (simp_all add: change_get_def group_change_def map_of_bt_of)

lemma members_numbered:
  assumes "j_pointer L doc p = Some (JArr xs)" "\<forall>(j, x) \<in> set g. j < length xs \<and> xs ! j = x"
  shows "members L doc (JStr p) (JArr (map (num \<circ> fst) g)) (JArr (map snd g))"
proof -
  have "map snd g = map ((!) xs) (map fst g)" using assms(2) by (auto simp: case_prod_beta)
  moreover have "\<forall>i \<in> set (map fst g). i < length xs" using assms(2) by auto
  ultimately show ?thesis using assms(1) unfolding members_def by (metis map_map)
qed

lemma found_at_item:
  assumes "pointer_ok L" "j_pointer L doc p = Some (JArr xs)" "\<forall>(j, x) \<in> set g. j < length xs \<and> xs ! j = x"
  shows "found_at L doc (item_path p g) (first_item g)"
proof (cases g)
  case (Cons e g')
  then show ?thesis using assms by (cases e) (auto simp: found_at_def pointer_ok_def)
qed (simp add: found_at_def)

lemma group_walk_ok:
  assumes "pointer_ok L" "j_pointer L old p = Some (JArr xs)" "j_pointer L new p = Some (JArr ys)"
    and "\<forall>(j, x) \<in> set g. j < length xs \<and> xs ! j = x" "\<forall>(j, x) \<in> set h. j < length ys \<and> ys ! j = x"
    and c: "c \<in> set (group_walk p g h)"
  shows "change_ok L old new c"
proof (cases "length g \<le> 1 \<and> length h \<le> 1")
  case True
  with c have w: "c \<in> set (walk (first_item g) (first_item h) (item_path p g) (item_path p h))"
    by (simp add: group_walk_def)
  have "located L old new c"
    by (rule walk_located [OF assms(1) found_at_item found_at_item w]) (use assms in auto)
  with walk_not_ambiguous [OF w] show ?thesis by (simp add: change_ok_def)
next
  case False
  with c have "c = group_change p g h" by (auto simp: group_walk_def split: if_splits)
  then show ?thesis
    using members_numbered [OF assms(2,4)] members_numbered [OF assms(3,5)]
    by (simp add: change_ok_def ambiguous_def)
qed

lemma those_SomeD: "those xs = Some ys \<Longrightarrow> xs = map Some ys"
  by (induction xs arbitrary: ys) (auto split: option.splits)

lemma those_concat:
  assumes "map_option concat (those (map f ks)) = Some cs" "c \<in> set cs"
  shows "\<exists>k \<in> set ks. \<exists>ds. f k = Some ds \<and> c \<in> set ds"
proof -
  from assms(1) obtain dss where "those (map f ks) = Some dss" "cs = concat dss" by auto
  then have m: "map f ks = map Some dss" "c \<in> set (concat dss)" using those_SomeD assms(2) by auto
  then obtain ds where "ds \<in> set dss" "c \<in> set ds" by auto
  moreover from this(1) m(1) have "Some ds \<in> f ` set ks" by (metis image_eqI list.set_map)
  ultimately show ?thesis by force
qed

lemma keyed_pair_Some:
  assumes "keyed_pair L domain k a b = Some (oi, ni)"
  shows "\<exists>keys xs ys. identity_keys domain k = Some keys \<and> map_of a k = Some (JArr xs) \<and> map_of b k = Some (JArr ys)
    \<and> (\<forall>x \<in> set xs \<union> set ys. identity_of L keys x \<noteq> None)
    \<and> (\<forall>i. or_empty (map_of oi i) = numbered L keys i 0 xs) \<and> (\<forall>i. or_empty (map_of ni i) = numbered L keys i 0 ys)"
proof -
  from assms obtain keys av bv where k: "identity_keys domain k = Some keys" "map_of a k = Some av"
    "map_of b k = Some bv" "keyed L av keys = Some oi" "keyed L bv keys = Some ni"
    by (auto simp: keyed_pair_def bind_eq_Some_conv split: option.splits)
  from keyed_Some [OF k(4)] keyed_Some [OF k(5)] k(1-3) show ?thesis by auto
qed

lemma collection_diff_ok:
  assumes ptr: "pointer_ok L" and d: "collection_diff L domain a b k = Some cs" and c: "c \<in> set cs"
  shows "change_ok L (JObj a) (JObj b) c"
proof -
  have root: "found_at L (JObj m) (SLASH # pointer_key k) (map_of m k)" for m
    using found_at_field [OF ptr, of "JObj m" "[]" m k] ptr by (simp add: found_at_def pointer_ok_def)
  show ?thesis
  proof (cases "keyed_pair L domain k a b")
    case None
    let ?w = "walk (map_of a k) (map_of b k) (SLASH # pointer_key k) (SLASH # pointer_key k)"
    from None d have "cs = ?w \<or> cs = map (bt_insert ''identityDiagnostic'' NO_IDENTITY) ?w"
      by (auto simp: collection_diff_def Let_def)
    with c obtain c0 where c0: "c0 \<in> set ?w" "c = c0 \<or> c = bt_insert ''identityDiagnostic'' NO_IDENTITY c0"
      by auto
    have "change_ok L (JObj a) (JObj b) c0"
      using walk_located [OF ptr root root c0(1)] walk_not_ambiguous [OF c0(1)] by (simp add: change_ok_def)
    with c0(2) show ?thesis by (auto simp: change_ok_insert)
  next
    case (Some pair)
    obtain oi ni where pair: "keyed_pair L domain k a b = Some (oi, ni)" using Some by (cases pair) auto
    from keyed_pair_Some [OF this] obtain keys xs ys where k: "map_of a k = Some (JArr xs)" "map_of b k = Some (JArr ys)"
      "\<forall>i. or_empty (map_of oi i) = numbered L keys i 0 xs" "\<forall>i. or_empty (map_of ni i) = numbered L keys i 0 ys"
      by blast
    from d pair have "map_option concat (those (map (identity_diff L (SLASH # pointer_key k) oi ni)
        (bs_of (map fst oi @ map fst ni)))) = Some cs" by (simp add: collection_diff_def)
    from those_concat [OF this c] obtain i ds where i: "identity_diff L (SLASH # pointer_key k) oi ni i = Some ds" "c \<in> set ds"
      by blast
    then obtain c0 v where c0: "c0 \<in> set (group_walk (SLASH # pointer_key k) (numbered L keys i 0 xs) (numbered L keys i 0 ys))"
      "c = bt_insert ''identity'' v c0"
      using k(3,4) by (auto simp: identity_diff_def Let_def split: if_splits)
    have "j_pointer L (JObj a) (SLASH # pointer_key k) = Some (JArr xs)"
      "j_pointer L (JObj b) (SLASH # pointer_key k) = Some (JArr ys)"
      using root [of a] root [of b] k(1,2) by (simp_all add: found_at_def)
    from group_walk_ok [OF ptr this _ _ c0(1)] have "change_ok L (JObj a) (JObj b) c0"
      using numbered_nth by blast
    with c0(2) show ?thesis by (simp add: change_ok_insert)
  qed
qed

text \<open>
  Every change a document difference reports is real: its old and new pointers lead, in the old and
  the new document, to exactly the values it shows (a side without pointer shows none), a change is
  called added exactly when it has no old pointer, and a change of an ambiguous group shows the items at
  the indices it lists.
\<close>

theorem document_diff_located:
  assumes "pointer_ok L" "document_diff L domain old new = Some cs" "c \<in> set cs"
  shows "change_ok L old new c"
proof (cases "\<exists>a b. old = JObj a \<and> new = JObj b")
  case True
  then obtain a b where ab: "old = JObj a" "new = JObj b" by blast
  with assms(2) have "map_option concat (those (map (collection_diff L domain a b)
      (filter (\<lambda>k. \<not> version_field k) (bs_of (map fst a @ map fst b))))) = Some cs"
    by (simp add: document_diff_def)
  from those_concat [OF this assms(3)] show ?thesis using collection_diff_ok [OF assms(1)] ab by blast
next
  case False
  with assms(2) have "cs = walk (Some old) (Some new) [] []"
    by (cases old; cases new) (auto simp: document_diff_def)
  with assms have w: "c \<in> set (walk (Some old) (Some new) [] [])" by simp
  have "found_at L d [] (Some d)" for d using assms(1) by (simp add: found_at_def pointer_ok_def)
  from walk_located [OF assms(1) this this w] walk_not_ambiguous [OF w] show ?thesis by (simp add: change_ok_def)
qed

text \<open>The lookup of RFC 6901, which satisfies the laws.\<close>

fun unescape_token :: "string \<Rightarrow> string" where
  "unescape_token (c # d # s) =
     (if c = CHR ''~'' \<and> d = CHR ''1'' then SLASH # unescape_token s
      else if c = CHR ''~'' \<and> d = CHR ''0'' then CHR ''~'' # unescape_token s
      else c # unescape_token (d # s))"
| "unescape_token s = s"

fun pointer_step :: "json \<Rightarrow> string \<Rightarrow> json option" where
  "pointer_step (JObj m) t = map_of m (unescape_token t)"
| "pointer_step (JArr xs) t =
     (let i = dec_val t in if t = dec i \<and> i < length xs then Some (xs ! i) else None)"
| "pointer_step _ t = None"

definition rfc_pointer :: "json \<Rightarrow> string \<Rightarrow> json option" where
  "rfc_pointer d p =
     (case split_on (\<lambda>c. c = SLASH) p of
        [] # ts \<Rightarrow> fold (\<lambda>t v. Option.bind v (\<lambda>x. pointer_step x t)) ts (Some d)
      | _ \<Rightarrow> None)"

lemma split_on_append: "P d \<Longrightarrow> split_on P (s @ d # t) = split_on P s @ split_on P t"
  by (induction s) (auto split: list.splits)

lemma replace_char_Cons: "replace_char c t (d # s) = (if d = c then t else [d]) @ replace_char c t s"
  by (simp add: replace_char_def)

lemma replace_char_append: "replace_char c t (s @ s') = replace_char c t s @ replace_char c t s'"
  by (simp add: replace_char_def)

lemma pointer_key_Cons:
  "pointer_key (c # k) =
     (if c = CHR ''~'' then ''~0'' else if c = SLASH then ''~1'' else [c]) @ pointer_key k"
  by (simp add: pointer_key_def replace_char_Cons replace_char_append) (simp add: replace_char_def)

lemma pointer_key_Nil [simp]: "pointer_key [] = []"
  by (simp add: pointer_key_def replace_char_def)

lemma unescape_pointer_key: "unescape_token (pointer_key k) = k"
proof (induction k)
  case (Cons c k)
  have "unescape_token (c # s) = c # unescape_token s" if "c \<noteq> CHR ''~''" for s
    using that by (cases s) auto
  with Cons show ?case by (auto simp: pointer_key_Cons)
qed simp

lemma pointer_key_no_slash: "SLASH \<notin> set (pointer_key k)"
  by (induction k) (auto simp: pointer_key_Cons)

lemma rfc_pointer_step:
  assumes "rfc_pointer d p = Some v" "SLASH \<notin> set t"
  shows "rfc_pointer d (p @ SLASH # t) = pointer_step v t"
proof -
  have "split_on (\<lambda>c. c = SLASH) t = [t]" using assms(2) by (intro split_on_no_sep) auto
  then have "split_on (\<lambda>c. c = SLASH) (p @ SLASH # t) = split_on (\<lambda>c. c = SLASH) p @ [t]"
    by (simp add: split_on_append)
  with assms(1) show ?thesis by (auto simp: rfc_pointer_def split: list.splits)
qed

lemma rfc_pointer_ok: "pointer_ok (L\<lparr>j_pointer := rfc_pointer\<rparr>)"
proof -
  have "SLASH \<notin> set (dec i)" for i by (rule dec_no) code_simp
  then show ?thesis
    by (auto simp: pointer_ok_def rfc_pointer_step pointer_key_no_slash unescape_pointer_key dec_val_dec)
       (simp add: rfc_pointer_def)
qed

definition sample_lib :: json_lib where
  "sample_lib = \<lparr>j_ser = (\<lambda>v. case v of JArr [JStr s] \<Rightarrow> s | _ \<Rightarrow> ''?''), j_de = (\<lambda>s. Some (JArr [JStr s])),
     j_pointer = rfc_pointer, j_lock = (\<lambda>_. None), j_digest = id\<rparr>"

lemma sample_lib_pointer: "pointer_ok sample_lib"
  using rfc_pointer_ok [of sample_lib] by (simp add: sample_lib_def)

lemma sample_diff:
  "document_diff sample_lib ''mex'' (JObj [(''a/b'', JStr ''x'')]) (JObj [(''a/b'', JStr ''y'')])
   = Some [value_change ''/a~1b'' ''/a~1b'' (Some (JStr ''x'')) (Some (JStr ''y''))]"
proof -
  have "bs_of [''a/b'', ''a/b''] = [''a/b'']" by (simp add: bs_of_def bs_insert_def)
  moreover have "pointer_key ''a/b'' = ''a~1b''" by code_simp
  moreover have "\<not> version_field ''a/b''" by (simp add: version_field_def)
  moreover have "identity_keys ''mex'' ''a/b'' = None" by (simp add: identity_keys_def)
  ultimately show ?thesis
    by (simp add: document_diff_def collection_diff_def keyed_pair_def Let_def opt_eq_def)
qed

theorem document_diff_located_witness:
  "change_ok sample_lib (JObj [(''a/b'', JStr ''x'')]) (JObj [(''a/b'', JStr ''y'')])
     (value_change ''/a~1b'' ''/a~1b'' (Some (JStr ''x'')) (Some (JStr ''y'')))"
  by (rule document_diff_located [OF sample_lib_pointer sample_diff]) simp

section \<open>Nothing is missed\<close>

definition both_keyed ::
    "json_lib \<Rightarrow> string \<Rightarrow> (string \<times> json) list \<Rightarrow> (string \<times> json) list \<Rightarrow> string
     \<Rightarrow> string list \<Rightarrow> json list \<Rightarrow> json list \<Rightarrow> bool" where
  "both_keyed L domain a b k keys xs ys \<longleftrightarrow>
     identity_keys domain k = Some keys \<and> map_of a k = Some (JArr xs) \<and> map_of b k = Some (JArr ys)
     \<and> (\<forall>x \<in> set xs \<union> set ys. identity_of L keys x \<noteq> None)"

text \<open>
  Two keyed collections are the same when every identity has the same items, in order, in both; any other
  field is the same when its values are equal.
\<close>

definition same_collection ::
    "json_lib \<Rightarrow> string \<Rightarrow> (string \<times> json) list \<Rightarrow> (string \<times> json) list \<Rightarrow> string \<Rightarrow> bool" where
  "same_collection L domain a b k \<longleftrightarrow>
     (\<forall>keys xs ys. both_keyed L domain a b k keys xs ys \<longrightarrow>
        (\<forall>i. map canon (occurrences L keys i xs) = map canon (occurrences L keys i ys)))
     \<and> ((\<nexists>keys xs ys. both_keyed L domain a b k keys xs ys) \<longrightarrow> opt_eq (map_of a k) (map_of b k))"

definition same_document :: "json_lib \<Rightarrow> string \<Rightarrow> json \<Rightarrow> json \<Rightarrow> bool" where
  "same_document L domain old new \<longleftrightarrow>
     (\<forall>a b. old = JObj a \<and> new = JObj b \<longrightarrow> (\<forall>k. \<not> version_field k \<longrightarrow> same_collection L domain a b k))
     \<and> ((\<nexists>a b. old = JObj a \<and> new = JObj b) \<longrightarrow> value_eq old new)"

lemma group_walk_nil:
  assumes "\<forall>x \<in> set (map snd g) \<union> set (map snd h). json_ok x"
  shows "group_walk p g h = [] \<longleftrightarrow> map canon (map snd g) = map canon (map snd h)"
proof (cases "length g \<le> 1 \<and> length h \<le> 1")
  case True
  have ok: "opt_ok (first_item g)" "opt_ok (first_item h)"
    using assms by (cases g; cases h; auto simp: opt_ok_def)+
  have "opt_eq (first_item g) (first_item h) \<longleftrightarrow> map canon (map snd g) = map canon (map snd h)"
    using True by (cases g; cases h) (auto simp: opt_eq_def)
  with True walk_nil_iff [OF ok] show ?thesis by (simp add: group_walk_def)
qed (auto simp: group_walk_def)

lemma keyed_pair_None: "keyed_pair L domain k a b = None \<longleftrightarrow> (\<nexists>keys xs ys. both_keyed L domain a b k keys xs ys)"
proof
  assume none: "keyed_pair L domain k a b = None"
  show "\<nexists>keys xs ys. both_keyed L domain a b k keys xs ys"
  proof clarify
    fix keys xs ys
    assume b: "both_keyed L domain a b k keys xs ys"
    then have "keyed L (JArr xs) keys \<noteq> None" "keyed L (JArr ys) keys \<noteq> None"
      by (auto simp: both_keyed_def keyed_None)
    with b none show False by (auto simp: keyed_pair_def both_keyed_def)
  qed
next
  assume "\<nexists>keys xs ys. both_keyed L domain a b k keys xs ys"
  then show "keyed_pair L domain k a b = None"
    using keyed_pair_Some [of L domain k a b] unfolding both_keyed_def by (metis option.exhaust prod.exhaust)
qed

lemma those_total: "\<forall>k \<in> set ks. f k \<noteq> None \<Longrightarrow> those (map f ks) = Some (map (\<lambda>k. the (f k)) ks)"
  by (induction ks) auto

lemma concat_total:
  assumes "\<forall>k \<in> set ks. \<exists>ds. f k = Some ds \<and> (ds = [] \<longleftrightarrow> P k)"
  shows "\<exists>cs. map_option concat (those (map f ks)) = Some cs \<and> (cs = [] \<longleftrightarrow> (\<forall>k \<in> set ks. P k))"
proof -
  from assms have "\<forall>k \<in> set ks. f k \<noteq> None" by auto
  from those_total [OF this] show ?thesis using assms by force
qed

lemma identity_diff_nil:
  assumes "\<forall>v. j_de L (j_ser L v) \<noteq> None" "\<forall>x \<in> set xs \<union> set ys. json_ok x"
    and "or_empty (map_of oi i) = numbered L keys i 0 xs" "or_empty (map_of ni i) = numbered L keys i 0 ys"
  shows "\<exists>ds. identity_diff L p oi ni i = Some ds
    \<and> (ds = [] \<longleftrightarrow> map canon (occurrences L keys i xs) = map canon (occurrences L keys i ys))"
proof -
  let ?w = "group_walk p (numbered L keys i 0 xs) (numbered L keys i 0 ys)"
  have "\<forall>x \<in> set (map snd (numbered L keys i 0 xs)) \<union> set (map snd (numbered L keys i 0 ys)). json_ok x"
    using assms(2) unfolding snd_numbered by (auto simp: occurrences_def)
  then have nil: "?w = [] \<longleftrightarrow> map canon (occurrences L keys i xs) = map canon (occurrences L keys i ys)"
    using group_walk_nil by (simp only: snd_numbered)
  have "j_de L i \<noteq> None" if "?w \<noteq> []"
  proof -
    from that nil have "occurrences L keys i xs \<noteq> [] \<or> occurrences L keys i ys \<noteq> []" by auto
    then obtain x where "identity_of L keys x = Some i" by (auto simp: occurrences_def filter_empty_conv)
    then show ?thesis using assms(1) by (auto simp: identity_of_def)
  qed
  with nil show ?thesis by (auto simp: identity_diff_def assms(3,4) Let_def)
qed

lemma collection_diff_nil:
  assumes de: "\<forall>v. j_de L (j_ser L v) \<noteq> None" and ok: "json_ok (JObj a)" "json_ok (JObj b)"
  shows "\<exists>cs. collection_diff L domain a b k = Some cs \<and> (cs = [] \<longleftrightarrow> same_collection L domain a b k)"
proof (cases "keyed_pair L domain k a b")
  case None
  then have "same_collection L domain a b k \<longleftrightarrow> opt_eq (map_of a k) (map_of b k)"
    by (simp add: same_collection_def keyed_pair_None)
  with None walk_nil_iff [OF opt_ok_field [OF ok(1)] opt_ok_field [OF ok(2)]] show ?thesis
    by (auto simp: collection_diff_def Let_def)
next
  case (Some pair)
  obtain oi ni where pair: "keyed_pair L domain k a b = Some (oi, ni)" using Some by (cases pair) auto
  from keyed_pair_Some [OF this] obtain keys xs ys where k: "both_keyed L domain a b k keys xs ys"
    and g: "\<forall>i. or_empty (map_of oi i) = numbered L keys i 0 xs" "\<forall>i. or_empty (map_of ni i) = numbered L keys i 0 ys"
    unfolding both_keyed_def by blast
  have "map_of a k = Some (JArr xs)" "map_of b k = Some (JArr ys)" using k by (simp_all add: both_keyed_def)
  with opt_ok_field [OF ok(1), of k] opt_ok_field [OF ok(2), of k] have items: "\<forall>x \<in> set xs \<union> set ys. json_ok x"
    by (simp add: opt_ok_def ball_Un)
  let ?same = "\<lambda>i. map canon (occurrences L keys i xs) = map canon (occurrences L keys i ys)"
  let ?ks = "bs_of (map fst oi @ map fst ni)"
  have "\<exists>ds. identity_diff L p oi ni i = Some ds \<and> (ds = [] \<longleftrightarrow> ?same i)" for p i
    using identity_diff_nil [OF de items] g by blast
  then have "\<exists>cs. map_option concat (those (map (identity_diff L (SLASH # pointer_key k) oi ni) ?ks)) = Some cs
      \<and> (cs = [] \<longleftrightarrow> (\<forall>i \<in> set ?ks. ?same i))" by (intro concat_total) blast
  moreover have "?same i" if "i \<notin> set ?ks" for i
  proof -
    have "map_of oi i = None" "map_of ni i = None" using that by (auto simp: map_of_eq_None_iff)
    with g have "numbered L keys i 0 xs = []" "numbered L keys i 0 ys = []" by (metis or_empty_def option.simps(4))+
    then show ?thesis by (simp flip: snd_numbered [of L keys i 0])
  qed
  moreover have "both_keyed L domain a b k keys' xs' ys' \<longleftrightarrow> keys' = keys \<and> xs' = xs \<and> ys' = ys" for keys' xs' ys'
    using k unfolding both_keyed_def by (metis json.inject(4) option.inject)
  then have "same_collection L domain a b k \<longleftrightarrow> (\<forall>i. ?same i)" by (simp add: same_collection_def)
  ultimately show ?thesis using pair unfolding collection_diff_def Let_def by (simp only: option.case prod.case) blast
qed

text \<open>
  C7: The difference of two documents never panics, and it is empty exactly when the documents have the
  same contract: every field but the two versions has equal values, where an identified collection is
  compared identity by identity, so only the order of its items among different identities is ignored.
\<close>

theorem document_diff_complete:
  assumes "\<forall>v. j_de L (j_ser L v) \<noteq> None" "json_ok old" "json_ok new"
  shows "\<exists>cs. document_diff L domain old new = Some cs \<and> (cs = [] \<longleftrightarrow> same_document L domain old new)"
proof (cases "\<exists>a b. old = JObj a \<and> new = JObj b")
  case True
  then obtain a b where ab: "old = JObj a" "new = JObj b" by blast
  let ?ks = "filter (\<lambda>k. \<not> version_field k) (bs_of (map fst a @ map fst b))"
  have nil: "\<exists>cs. collection_diff L domain a b k = Some cs \<and> (cs = [] \<longleftrightarrow> same_collection L domain a b k)" for k
    using collection_diff_nil assms ab by blast
  have "\<exists>cs. map_option concat (those (map (collection_diff L domain a b) ?ks)) = Some cs
      \<and> (cs = [] \<longleftrightarrow> (\<forall>k \<in> set ?ks. same_collection L domain a b k))" using nil by (intro concat_total) blast
  moreover have "same_collection L domain a b k" if "k \<notin> fst ` set a" "k \<notin> fst ` set b" for k
  proof -
    have "map_of a k = None" "map_of b k = None" using that by (auto simp: map_of_eq_None_iff)
    then show ?thesis by (simp add: same_collection_def both_keyed_def opt_eq_def)
  qed
  then have "(\<forall>k \<in> set ?ks. same_collection L domain a b k) \<longleftrightarrow> same_document L domain old new"
    unfolding same_document_def ab by auto
  ultimately show ?thesis by (simp add: document_diff_def ab)
next
  case False
  then have "document_diff L domain old new = Some (walk (Some old) (Some new) [] [])"
    by (cases old; cases new) (auto simp: document_diff_def)
  moreover have "walk (Some old) (Some new) [] [] = [] \<longleftrightarrow> value_eq old new"
    using walk_nil_iff [of "Some old" "Some new"] assms by (simp add: opt_ok_def opt_eq_def value_eq_def)
  ultimately show ?thesis using False by (auto simp: same_document_def)
qed

theorem document_diff_complete_witness:
  "\<not> same_document sample_lib ''mex'' (JObj [(''a/b'', JStr ''x'')]) (JObj [(''a/b'', JStr ''y'')])"
proof -
  have "\<forall>v. j_de sample_lib (j_ser sample_lib v) \<noteq> None" by (simp add: sample_lib_def)
  from document_diff_complete [OF this, of "JObj [(''a/b'', JStr ''x'')]" "JObj [(''a/b'', JStr ''y'')]" "''mex''"]
  show ?thesis by (auto simp: sample_diff)
qed

end
