(* ===== verification/ContractReport.thy ===== *)
theory ContractReport
  imports ContractDiff
begin

text \<open>
  \<open>crates/whatspec/src/contract_diff.rs\<close>: reading the two snapshots from disk, the report over their
  documents and schemas, and the reviews applied to it.
\<close>

section \<open>Snapshots\<close>

datatype diff_error =
    NotRead path
  | NotParsed path
  | BadPath string
  | LockInvalid inconsistency
  | LockVersion
  | DomainsMissing
  | DomainsEmpty
  | DomainFile string
  | ManifestHash string
  | VersionMismatch string
  | SchemaMismatch string
  | SchemaPath string
  | Panicked

datatype review_error =
    ReviewVersion
  | ReviewsMissing
  | ReviewId
  | DuplicateReview string
  | StaleReview string
  | NoClassification
  | UnknownClassification string
  | NoBasis
  | NoReferences
  | EmptyReferences

text \<open>\<open>Path::components\<close> of a relative path: empty and inner \<open>.\<close> pieces vanish.\<close>

definition pieces :: "string \<Rightarrow> string list" where
  "pieces rel = split_on (\<lambda>c. c = SLASH) rel"

definition all_normal :: "string \<Rightarrow> bool" where
  "all_normal rel \<longleftrightarrow> hd (pieces rel) \<noteq> [] \<and> hd (pieces rel) \<noteq> ''.'' \<and> ''..'' \<notin> set (pieces rel)"

definition local_path :: "string \<Rightarrow> string list" where
  "local_path rel = [p \<leftarrow> pieces rel. p \<noteq> [] \<and> p \<noteq> ''.'']"

definition local_file :: "fs \<Rightarrow> path \<Rightarrow> string \<Rightarrow> diff_error + bytes" where
  "local_file fs root rel =
     (if \<not> (rel \<noteq> [] \<and> all_normal rel) then Inl (BadPath rel)
      else case read_file fs (root @ local_path rel) of
             None \<Rightarrow> Inl (NotRead (root @ local_path rel))
           | Some b \<Rightarrow> Inr b)"

definition read_json :: "json_lib \<Rightarrow> fs \<Rightarrow> path \<Rightarrow> diff_error + json" where
  "read_json L fs p =
     (case read_file fs p of
        None \<Rightarrow> Inl (NotRead p)
      | Some raw \<Rightarrow>
          if \<not> utf8_valid raw then Inl (NotRead p)
          else (case j_de L raw of None \<Rightarrow> Inl (NotParsed p) | Some v \<Rightarrow> Inr v))"

type_synonym artifacts = "(string, string \<times> string \<times> json) btree"

record snapshot =
  sn_manifest :: json
  sn_lock :: bundle_lock
  sn_files :: artifacts
  sn_schemas :: artifacts

definition parse_file :: "json_lib \<Rightarrow> path \<Rightarrow> bytes \<Rightarrow> diff_error + json" where
  "parse_file L p b = (case j_de L b of None \<Rightarrow> Inl (NotParsed p) | Some v \<Rightarrow> Inr v)"

definition read_domain ::
    "json_lib \<Rightarrow> fs \<Rightarrow> path \<Rightarrow> json \<Rightarrow> string \<Rightarrow> json \<Rightarrow> diff_error + (string \<times> string \<times> json)" where
  "read_domain L fs root manifest domain entry =
     (case as_str (json_index entry ''file'') of
        None \<Rightarrow> Inl (DomainFile domain)
      | Some rel \<Rightarrow>
          bind_res (local_file fs root rel) (\<lambda>b.
            let hash = sha256_hex (j_digest L) b in
            if as_str (json_index entry ''sha256'') \<noteq> Some hash then Inl (ManifestHash rel)
            else if ends_with rel ''.json'' then
              bind_res (parse_file L (root @ local_path rel) b) (\<lambda>v.
                if \<not> value_eq (json_index v ''waVersion'') (json_index manifest ''waVersion'')
                then Inl (VersionMismatch rel)
                else if \<not> value_eq (json_index v ''schemaVersion'') (json_index manifest ''schemaVersion'')
                then Inl (SchemaMismatch rel)
                else Inr (rel, hash, v))
            else Inr (rel, hash, JObj [(''artifactSha256'', JStr hash)])))"

definition read_schema ::
    "json_lib \<Rightarrow> fs \<Rightarrow> path \<Rightarrow> string \<Rightarrow> json \<Rightarrow> diff_error + (string \<times> string \<times> json) option" where
  "read_schema L fs root domain entry =
     (case json_get entry ''schema'' of
        None \<Rightarrow> Inr None
      | Some schema \<Rightarrow>
          (case as_str schema of
             None \<Rightarrow> Inl (SchemaPath domain)
           | Some rel \<Rightarrow>
               bind_res (local_file fs root rel) (\<lambda>b.
               bind_res (parse_file L (root @ local_path rel) b) (\<lambda>v.
                 Inr (Some (rel, sha256_hex (j_digest L) b, v))))))"

fun read_domains ::
    "json_lib \<Rightarrow> fs \<Rightarrow> path \<Rightarrow> json \<Rightarrow> (string \<times> json) list \<Rightarrow> artifacts \<Rightarrow> artifacts
     \<Rightarrow> diff_error + artifacts \<times> artifacts" where
  "read_domains L fs root manifest [] files schemas = Inr (files, schemas)"
| "read_domains L fs root manifest ((domain, entry) # rest) files schemas =
     bind_res (read_domain L fs root manifest domain entry) (\<lambda>f.
     bind_res (read_schema L fs root domain entry) (\<lambda>s.
       read_domains L fs root manifest rest (bt_insert domain f files)
         (case s of Some a \<Rightarrow> bt_insert domain a schemas | None \<Rightarrow> schemas)))"

definition read_snapshot :: "json_lib \<Rightarrow> fs \<Rightarrow> path \<Rightarrow> diff_error + snapshot" where
  "read_snapshot L fs root =
     bind_res (read_json L fs (root @ [''manifest.json''])) (\<lambda>manifest.
     bind_res (local_file fs root ''bundles.lock.json'') (\<lambda>lock_bytes.
       case j_lock L lock_bytes of
         None \<Rightarrow> Inl (NotParsed (root @ [''bundles.lock.json'']))
       | Some lock \<Rightarrow>
           (case verify_lock (j_digest L) lock of
              Inl e \<Rightarrow> Inl (LockInvalid e)
            | Inr _ \<Rightarrow>
                if as_str (json_index manifest ''waVersion'') \<noteq> Some (lk_wa_version lock) then Inl LockVersion
                else (case as_object (json_index manifest ''domains'') of
                        None \<Rightarrow> Inl DomainsMissing
                      | Some domains \<Rightarrow>
                          if domains = [] then Inl DomainsEmpty
                          else bind_res (read_domains L fs root manifest domains [] []) (\<lambda>(files, schemas).
                            Inr \<lparr>sn_manifest = manifest, sn_lock = lock, sn_files = files, sn_schemas = schemas\<rparr>)))))"

definition metadata :: "snapshot \<Rightarrow> json" where
  "metadata S =
     JObj (bt_of
       [(''waVersion'', json_index (sn_manifest S) ''waVersion''),
        (''schemaVersion'', json_index (sn_manifest S) ''schemaVersion''),
        (''generatorVersion'', json_index (sn_manifest S) ''generatorVersion''),
        (''declaredInputs'', JObj (bt_of [(''setHash'', JStr (lk_set_hash (sn_lock S))),
           (''bundleCount'', num (bundle_count (sn_lock S))), (''lockStatus'', JStr ''self-consistent'')])),
        (''inputBinding'', JObj (bt_of [(''status'', JStr ''unverified''),
           (''reason'', JStr ''manifest-does-not-bind-inputs'')]))])"

section \<open>The report\<close>

text \<open>The nearest explicit module name on the way up from a pointer.\<close>

definition source_name :: "json \<Rightarrow> string option" where
  "source_name node =
     find_map (\<lambda>key. Option.bind (json_get node key) as_str) [''module'', ''moduleName'', ''handlerModule'']"

definition parent_pointer :: "string \<Rightarrow> string" where
  "parent_pointer at = rev (drop 1 (dropWhile (\<lambda>c. c \<noteq> SLASH) (rev at)))"

lemma parent_pointer_shorter: "at \<noteq> [] \<Longrightarrow> length (parent_pointer at) < length at"
proof -
  assume "at \<noteq> []"
  then have "0 < length at" by simp
  moreover have "length (dropWhile (\<lambda>c. c \<noteq> SLASH) (rev at)) \<le> length (rev at)" by (rule length_dropWhile_le)
  ultimately show ?thesis unfolding parent_pointer_def by (simp only: length_rev length_drop)
qed

function module_hint :: "json_lib \<Rightarrow> json \<Rightarrow> string \<Rightarrow> string option" where
  "module_hint L document at =
     (let found = Option.bind (j_pointer L document at) source_name
      in if found \<noteq> None \<or> at = [] then found else module_hint L document (parent_pointer at))"
  by pat_completeness auto
termination by (relation "measure (\<lambda>(_, _, at). length at)") (auto intro: parent_pointer_shorter)

definition reference :: "json_lib \<Rightarrow> (string \<times> string \<times> json) option \<Rightarrow> json \<Rightarrow> json" where
  "reference L artifact p =
     (case artifact of
        None \<Rightarrow> JNull
      | Some (rel, hash, document) \<Rightarrow>
          (case as_str p of
             None \<Rightarrow> JNull
           | Some pt \<Rightarrow>
               JObj (bt_of [(''file'', JStr rel), (''sha256'', JStr hash), (''pointer'', JStr pt),
                 (''sourceModuleHint'', opt_json (map_option JStr (module_hint L document pt))),
                 (''sourceStatus'', JStr ''requires-source-review'')])))"

definition stamp ::
    "json_lib \<Rightarrow> snapshot \<Rightarrow> snapshot \<Rightarrow> bool \<Rightarrow> string
     \<Rightarrow> (string \<times> string \<times> json) option \<Rightarrow> (string \<times> string \<times> json) option \<Rightarrow> change \<Rightarrow> change" where
  "stamp L old new is_schema domain a b c =
     (let c1 = bt_insert ''domain'' (JStr domain) c;
          c2 = (if is_schema then bt_insert ''artifactKind'' (JStr ''schema'') c1 else c1);
          c3 = bt_insert ''oldSource'' (reference L a (change_get c2 ''oldPath'')) c2;
          c4 = bt_insert ''newSource'' (reference L b (change_get c3 ''newPath'')) c3;
          c5 = bt_insert ''oldArtifactSha256'' (opt_json (map_option (\<lambda>(_, hash, _). JStr hash) a)) c4;
          c6 = bt_insert ''newArtifactSha256'' (opt_json (map_option (\<lambda>(_, hash, _). JStr hash) b)) c5;
          c7 = bt_insert ''oldDeclaredSetHash'' (JStr (lk_set_hash (sn_lock old))) c6;
          c8 = bt_insert ''newDeclaredSetHash'' (JStr (lk_set_hash (sn_lock new))) c7;
          c9 = bt_insert ''inputBinding'' (JStr ''unverified'') c8;
          c10 = bt_insert ''id'' (JStr (sha256_hex (j_digest L) (j_ser L (JObj c9)))) c9
      in bt_insert ''assessment''
           (JObj (bt_of [(''classification'', JStr ''indeterminate''),
              (''basis'', JStr ''Contract delta only; inspect pinned sources and same-input regeneration.'')])) c10)"

definition domain_deltas ::
    "json_lib \<Rightarrow> bool \<Rightarrow> string \<Rightarrow> (string \<times> string \<times> json) option \<Rightarrow> (string \<times> string \<times> json) option
     \<Rightarrow> change list option" where
  "domain_deltas L is_schema domain a b =
     (let value = map_option (\<lambda>(_, _, v). v) in
      case (a, b) of
        (Some (_, _, av), Some (_, _, bv)) \<Rightarrow>
          if \<not> is_schema then document_diff L domain av bv else Some (walk (value a) (value b) [] [])
      | _ \<Rightarrow> Some (walk (value a) (value b) [] []))"

definition domain_changes ::
    "json_lib \<Rightarrow> snapshot \<Rightarrow> snapshot \<Rightarrow> bool \<Rightarrow> artifacts \<Rightarrow> artifacts \<Rightarrow> string \<Rightarrow> change list option" where
  "domain_changes L old new is_schema old_files new_files domain =
     (let a = map_of old_files domain; b = map_of new_files domain
      in map_option (map (stamp L old new is_schema domain a b)) (domain_deltas L is_schema domain a b))"

definition all_changes :: "json_lib \<Rightarrow> snapshot \<Rightarrow> snapshot \<Rightarrow> change list option" where
  "all_changes L old new =
     map_option concat (those
       (map (\<lambda>(is_schema, old_files, new_files).
          map_option concat (those (map (domain_changes L old new is_schema old_files new_files)
            (bs_of (map fst old_files @ map fst new_files)))))
         [(False, sn_files old, sn_files new), (True, sn_schemas old, sn_schemas new)]))"

section \<open>Reviews\<close>

definition blank :: "string \<Rightarrow> bool" where "blank s \<longleftrightarrow> trim s = []"

definition has_id :: "string \<Rightarrow> change \<Rightarrow> bool" where
  "has_id i c \<longleftrightarrow> as_str (change_get c ''id'') = Some i"

fun update_first :: "('a \<Rightarrow> bool) \<Rightarrow> ('a \<Rightarrow> 'a) \<Rightarrow> 'a list \<Rightarrow> 'a list" where
  "update_first P f [] = []"
| "update_first P f (x # xs) = (if P x then f x # xs else x # update_first P f xs)"

definition CLASSIFICATIONS :: "string list" where
  "CLASSIFICATIONS = [''upstream-change'', ''extraction-improvement'', ''extraction-loss'', ''indeterminate'']"

definition nonblank_str :: "json \<Rightarrow> bool" where
  "nonblank_str v \<longleftrightarrow> (case as_str v of Some s \<Rightarrow> \<not> blank s | None \<Rightarrow> False)"

definition assessment_of :: "string \<Rightarrow> json \<Rightarrow> json list \<Rightarrow> json" where
  "assessment_of label basis refs =
     JObj (bt_of [(''classification'', JStr label), (''basis'', basis), (''references'', JArr refs),
                  (''origin'', JStr ''reviewed-evidence'')])"

definition apply_review :: "json \<Rightarrow> string \<Rightarrow> change list \<Rightarrow> review_error + change list" where
  "apply_review entry i changes =
     (if \<not> list_ex (has_id i) changes then Inl (StaleReview i)
      else case as_str (json_index entry ''classification'') of
             None \<Rightarrow> Inl NoClassification
           | Some label \<Rightarrow>
               if label \<notin> set CLASSIFICATIONS then Inl (UnknownClassification label)
               else if \<not> nonblank_str (json_index entry ''basis'') then Inl NoBasis
               else (case as_array (json_index entry ''references'') of
                       None \<Rightarrow> Inl NoReferences
                     | Some refs \<Rightarrow>
                         if \<not> (refs \<noteq> [] \<and> list_all nonblank_str refs) then Inl EmptyReferences
                         else Inr (update_first (has_id i)
                           (bt_insert ''assessment'' (assessment_of label (json_index entry ''basis'') refs)) changes)))"

fun review_loop :: "json list \<Rightarrow> string list \<Rightarrow> change list \<Rightarrow> review_error + change list" where
  "review_loop [] seen changes = Inr changes"
| "review_loop (entry # entries) seen changes =
     (case as_str (json_index entry ''id'') of
        None \<Rightarrow> Inl ReviewId
      | Some i \<Rightarrow>
          if i \<in> set seen then Inl (DuplicateReview i)
          else bind_res (apply_review entry i changes) (review_loop entries (bs_insert i seen)))"

definition apply_reviews :: "change list \<Rightarrow> json \<Rightarrow> review_error + change list" where
  "apply_reviews changes reviews =
     (if as_u64 (json_index reviews ''reportVersion'') \<noteq> Some FORMAT_VERSION then Inl ReviewVersion
      else case as_array (json_index reviews ''reviews'') of
             None \<Rightarrow> Inl ReviewsMissing
           | Some entries \<Rightarrow> review_loop entries [] changes)"

definition classification :: "change \<Rightarrow> string option" where
  "classification c = as_str (json_index (change_get c ''assessment'') ''classification'')"

fun count_classes :: "change list \<Rightarrow> (string, nat) btree \<Rightarrow> (string, nat) btree option" where
  "count_classes [] m = Some m"
| "count_classes (c # cs) m =
     (case classification c of
        None \<Rightarrow> None
      | Some label \<Rightarrow>
          count_classes cs (bt_insert label ((case map_of m label of Some n \<Rightarrow> n | None \<Rightarrow> 0) + 1) m))"

definition LIMITS :: "string list" where
  "LIMITS =
     [''Historical manifests do not bind their inputs. Lock consistency and matching versions cannot establish actual input identity; sameInputs is unknown.'',
      ''No automatic rename matching or compatibility verdict.'',
      ''Reviews are supplied evidence assessments, not machine proofs.'',
      ''Source module hints may require following mixins or other dependencies.'',
      ''Unkeyed and ambiguous arrays retain order; protobuf is an opaque artifact delta.'']"

definition render_report :: "snapshot \<Rightarrow> snapshot \<Rightarrow> change list \<Rightarrow> (string, nat) btree \<Rightarrow> json" where
  "render_report old new changes counts =
     JObj (bt_of
       [(''reportVersion'', num FORMAT_VERSION), (''old'', metadata old), (''new'', metadata new),
        (''sameInputs'', JNull),
        (''sameDeclaredInputs'', JBool (lk_set_hash (sn_lock old) = lk_set_hash (sn_lock new))),
        (''classifications'', JObj (map (map_prod id num) counts)),
        (''changes'', JArr (map JObj changes)),
        (''oldDiagnostics'', json_index (sn_manifest old) ''diagnostics''),
        (''newDiagnostics'', json_index (sn_manifest new) ''diagnostics''),
        (''limits'', JArr (map JStr LIMITS))])"

definition report ::
    "json_lib \<Rightarrow> fs \<Rightarrow> path \<Rightarrow> path \<Rightarrow> path option \<Rightarrow> (diff_error + review_error) + json" where
  "report L fs old_root new_root evidence =
     (case read_snapshot L fs old_root of
        Inl e \<Rightarrow> Inl (Inl e)
      | Inr old \<Rightarrow>
     (case read_snapshot L fs new_root of
        Inl e \<Rightarrow> Inl (Inl e)
      | Inr new \<Rightarrow>
     (case all_changes L old new of
        None \<Rightarrow> Inl (Inl Panicked)
      | Some changes \<Rightarrow>
     (case (case evidence of
              None \<Rightarrow> Inr changes
            | Some p \<Rightarrow>
                (case read_json L fs p of
                   Inl e \<Rightarrow> Inl (Inl e)
                 | Inr reviews \<Rightarrow>
                     (case apply_reviews changes reviews of Inl e \<Rightarrow> Inl (Inr e) | Inr cs \<Rightarrow> Inr cs))) of
        Inl e \<Rightarrow> Inl e
      | Inr cs \<Rightarrow>
          (case count_classes cs [] of
             None \<Rightarrow> Inl (Inl Panicked)
           | Some counts \<Rightarrow> Inr (render_report old new cs counts))))))"

datatype usage_error = DiffUsage | ExpectedJson | ExpectedEvidence

definition parse_run :: "string list \<Rightarrow> usage_error + (string \<times> string \<times> string option)" where
  "parse_run args =
     (if \<not> (length args = 3 \<or> length args = 5) then Inl DiffUsage
      else if args ! 2 \<noteq> ''--json'' then Inl ExpectedJson
      else if length args = 5
      then (if args ! 3 \<noteq> ''--evidence'' then Inl ExpectedEvidence else Inr (args ! 0, args ! 1, Some (args ! 4)))
      else Inr (args ! 0, args ! 1, None))"

section \<open>A snapshot is what its manifest says\<close>

definition file_ok :: "json_lib \<Rightarrow> fs \<Rightarrow> path \<Rightarrow> json \<Rightarrow> json \<Rightarrow> string \<times> string \<times> json \<Rightarrow> bool" where
  "file_ok L fs root manifest entry f =
     (case f of (rel, h, v) \<Rightarrow>
        \<exists>b. read_file fs (root @ local_path rel) = Some b \<and> ''..'' \<notin> set (local_path rel)
          \<and> h = sha256_hex (j_digest L) b \<and> as_str (json_index entry ''sha256'') = Some h
          \<and> (ends_with rel ''.json'' \<longrightarrow> j_de L b = Some v
               \<and> value_eq (json_index v ''waVersion'') (json_index manifest ''waVersion'')
               \<and> value_eq (json_index v ''schemaVersion'') (json_index manifest ''schemaVersion'')))"

definition schema_ok :: "json_lib \<Rightarrow> fs \<Rightarrow> path \<Rightarrow> string \<times> string \<times> json \<Rightarrow> bool" where
  "schema_ok L fs root f =
     (case f of (rel, h, v) \<Rightarrow>
        \<exists>b. read_file fs (root @ local_path rel) = Some b \<and> ''..'' \<notin> set (local_path rel)
          \<and> h = sha256_hex (j_digest L) b \<and> j_de L b = Some v)"

lemma local_file_Inr:
  assumes "local_file fs root rel = Inr b"
  shows "read_file fs (root @ local_path rel) = Some b \<and> ''..'' \<notin> set (local_path rel)"
  using assms by (auto simp: local_file_def all_normal_def local_path_def split: if_splits option.splits)

lemma read_domain_Inr:
  assumes "read_domain L fs root manifest domain entry = Inr f"
  shows "file_ok L fs root manifest entry f"
  using assms
  by (auto simp: read_domain_def file_ok_def parse_file_def bind_res_Inr Let_def dest: local_file_Inr
      split: option.splits if_splits)

lemma read_schema_Inr: "read_schema L fs root domain entry = Inr (Some f) \<Longrightarrow> schema_ok L fs root f"
  by (auto simp: read_schema_def schema_ok_def parse_file_def bind_res_Inr dest: local_file_Inr
      split: option.splits)

lemma read_domains_Inr:
  assumes "read_domains L fs root manifest domains files schemas = Inr (files', schemas')"
  shows "(\<forall>d f. map_of files' d = Some f \<longrightarrow>
            map_of files d = Some f \<or> (\<exists>e. (d, e) \<in> set domains \<and> file_ok L fs root manifest e f))
    \<and> (\<forall>d f. map_of schemas' d = Some f \<longrightarrow> map_of schemas d = Some f \<or> schema_ok L fs root f)
    \<and> dom (map_of files') = dom (map_of files) \<union> fst ` set domains"
  using assms
proof (induction domains arbitrary: files schemas)
  case Nil
  then show ?case by simp
next
  case (Cons p domains)
  obtain d e where p: "p = (d, e)" by fastforce
  let ?schemas = "\<lambda>s. case s of Some a \<Rightarrow> bt_insert d a schemas | None \<Rightarrow> schemas"
  from Cons.prems obtain f s where f: "read_domain L fs root manifest d e = Inr f"
    and s: "read_schema L fs root d e = Inr s"
    and r: "read_domains L fs root manifest domains (bt_insert d f files) (?schemas s) = Inr (files', schemas')"
    by (auto simp: p)
  have ok: "file_ok L fs root manifest e f" "s = Some g \<Longrightarrow> schema_ok L fs root g" for g
    using read_domain_Inr [OF f] read_schema_Inr s by auto
  note ih = Cons.IH [OF r]
  have "map_of files k = Some g \<or> (\<exists>e. (k, e) \<in> set (p # domains) \<and> file_ok L fs root manifest e g)"
    if "map_of files' k = Some g" for k g
  proof -
    from ih that have "map_of (bt_insert d f files) k = Some g
        \<or> (\<exists>e. (k, e) \<in> set domains \<and> file_ok L fs root manifest e g)" by blast
    then show ?thesis using ok(1) by (cases "k = d") (auto simp: p)
  qed
  moreover have "map_of schemas k = Some g \<or> schema_ok L fs root g" if "map_of schemas' k = Some g" for k g
  proof -
    from ih that have "map_of (?schemas s) k = Some g \<or> schema_ok L fs root g" by blast
    then show ?thesis using ok(2) by (cases s; cases "k = d") auto
  qed
  moreover have "dom (map_of files') = dom (map_of files) \<union> fst ` set (p # domains)"
  proof -
    have "dom (map_of files') = dom (map_of (bt_insert d f files)) \<union> fst ` set domains" using ih by blast
    then show ?thesis by (simp add: p)
  qed
  ultimately show ?case by blast
qed

lemma read_snapshot_Inr:
  assumes "read_snapshot L fs root = Inr S"
  shows "\<exists>domains. verify_lock (j_digest L) (sn_lock S) = Inr ()
    \<and> as_str (json_index (sn_manifest S) ''waVersion'') = Some (lk_wa_version (sn_lock S))
    \<and> as_object (json_index (sn_manifest S) ''domains'') = Some domains \<and> domains \<noteq> []
    \<and> read_domains L fs root (sn_manifest S) domains [] [] = Inr (sn_files S, sn_schemas S)"
proof -
  note def = assms [unfolded read_snapshot_def]
  obtain manifest where m: "read_json L fs (root @ [''manifest.json'']) = Inr manifest"
    using def by (cases "read_json L fs (root @ [''manifest.json''])") simp_all
  obtain b where b: "local_file fs root ''bundles.lock.json'' = Inr b"
    using def m by (cases "local_file fs root ''bundles.lock.json''") simp_all
  obtain lock where l: "j_lock L b = Some lock" using def m b by (cases "j_lock L b") simp_all
  have v: "verify_lock (j_digest L) lock = Inr ()"
    using def m b l by (cases "verify_lock (j_digest L) lock") simp_all
  have ver: "as_str (json_index manifest ''waVersion'') = Some (lk_wa_version lock)"
    using def m b l v by (simp split: if_splits)
  obtain domains where d: "as_object (json_index manifest ''domains'') = Some domains"
    using def m b l v ver by (cases "as_object (json_index manifest ''domains'')") simp_all
  have ne: "domains \<noteq> []" using def m b l v ver d by (simp split: if_splits)
  obtain r where r: "read_domains L fs root manifest domains [] [] = Inr r"
    using def m b l v ver d ne by (cases "read_domains L fs root manifest domains [] []") simp_all
  have "S = \<lparr>sn_manifest = manifest, sn_lock = lock, sn_files = fst r, sn_schemas = snd r\<rparr>"
    using def m b l v ver d ne r by (simp add: case_prod_beta)
  with v ver d ne r show ?thesis by auto
qed

text \<open>
  C31: A snapshot that is read is verified: its lock passes its own check and has the manifest's version,
  and each document it holds lies under the root, hashes to what the manifest declares for it and, when
  JSON, carries the manifest's versions; so does every schema, hashed as it is on disk.  No declared
  domain is left out and there is at least one.
\<close>

theorem snapshot_verified:
  assumes "read_snapshot L fs root = Inr S"
  shows "verify_lock (j_digest L) (sn_lock S) = Inr ()
    \<and> as_str (json_index (sn_manifest S) ''waVersion'') = Some (lk_wa_version (sn_lock S))
    \<and> (\<exists>domains. json_index (sn_manifest S) ''domains'' = JObj domains \<and> domains \<noteq> []
        \<and> dom (map_of (sn_files S)) = fst ` set domains
        \<and> (\<forall>d f. map_of (sn_files S) d = Some f \<longrightarrow>
              (\<exists>e. (d, e) \<in> set domains \<and> file_ok L fs root (sn_manifest S) e f)))
    \<and> (\<forall>d f. map_of (sn_schemas S) d = Some f \<longrightarrow> schema_ok L fs root f)"
proof -
  from read_snapshot_Inr [OF assms] obtain domains where
    v: "verify_lock (j_digest L) (sn_lock S) = Inr ()"
      "as_str (json_index (sn_manifest S) ''waVersion'') = Some (lk_wa_version (sn_lock S))"
    and d: "as_object (json_index (sn_manifest S) ''domains'') = Some domains" "domains \<noteq> []"
    and r: "read_domains L fs root (sn_manifest S) domains [] [] = Inr (sn_files S, sn_schemas S)" by blast
  have "json_index (sn_manifest S) ''domains'' = JObj domains"
    using d(1) by (cases "json_index (sn_manifest S) ''domains''") auto
  with v d(2) read_domains_Inr [OF r] show ?thesis by simp
qed

section \<open>Reviews only set assessments\<close>

definition entry_review :: "json \<Rightarrow> json" where
  "entry_review e =
     assessment_of (case as_str (json_index e ''classification'') of Some l \<Rightarrow> l | None \<Rightarrow> [])
       (json_index e ''basis'') (or_empty (as_array (json_index e ''references'')))"

definition entry_valid :: "json \<Rightarrow> bool" where
  "entry_valid e \<longleftrightarrow>
     (\<exists>l \<in> set CLASSIFICATIONS. as_str (json_index e ''classification'') = Some l)
     \<and> nonblank_str (json_index e ''basis'')
     \<and> (\<exists>refs. as_array (json_index e ''references'') = Some refs \<and> refs \<noteq> [] \<and> (\<forall>r \<in> set refs. nonblank_str r))"

text \<open>The review of a change: the entry with its id, for the first change that has that id.\<close>

definition names_first :: "change list \<Rightarrow> nat \<Rightarrow> json \<Rightarrow> bool" where
  "names_first cs j e \<longleftrightarrow>
     (\<exists>i. as_str (json_index e ''id'') = Some i \<and> has_id i (cs ! j) \<and> (\<forall>k < j. \<not> has_id i (cs ! k)))"

lemma update_first_nth:
  "list_ex P xs \<Longrightarrow> \<exists>j < length xs. P (xs ! j) \<and> (\<forall>k < j. \<not> P (xs ! k)) \<and> update_first P f xs = xs[j := f (xs ! j)]"
proof (induction xs)
  case (Cons x xs)
  show ?case
  proof (cases "P x")
    case True
    then show ?thesis by (intro exI [of _ 0]) simp
  next
    case False
    with Cons obtain j where j: "j < length xs" "P (xs ! j)" "\<forall>k < j. \<not> P (xs ! k)"
      "update_first P f xs = xs[j := f (xs ! j)]" by auto
    then show ?thesis using False
      by (intro exI [of _ "Suc j"]) (auto simp: less_Suc_eq_0_disj)
  qed
qed simp

lemma has_id_assessment [simp]: "has_id i (bt_insert ''assessment'' v c) = has_id i c"
  by (simp add: has_id_def)

lemma apply_review_Inr:
  assumes "apply_review e i cs = Inr cs1"
  shows "entry_valid e \<and> (\<exists>j < length cs. has_id i (cs ! j) \<and> (\<forall>k < j. \<not> has_id i (cs ! k))
    \<and> cs1 = cs[j := bt_insert ''assessment'' (entry_review e) (cs ! j)])"
proof -
  from assms have ex: "list_ex (has_id i) cs" by (auto simp: apply_review_def split: if_splits)
  from assms have v: "entry_valid e"
    and cs1: "cs1 = update_first (has_id i) (bt_insert ''assessment'' (entry_review e)) cs"
    by (auto simp: apply_review_def entry_valid_def entry_review_def or_empty_def list_all_iff
        split: if_splits option.splits)
  from update_first_nth [OF ex] v cs1 show ?thesis by blast
qed

lemma review_loop_unseen:
  assumes "review_loop entries seen cs = Inr cs'"
  shows "\<forall>e \<in> set entries. \<exists>i. as_str (json_index e ''id'') = Some i \<and> i \<notin> set seen"
  using assms
proof (induction entries arbitrary: seen cs)
  case (Cons e entries)
  then obtain i cs1 where i: "as_str (json_index e ''id'') = Some i" "i \<notin> set seen"
    "review_loop entries (bs_insert i seen) cs1 = Inr cs'" by (auto split: option.splits if_splits)
  from Cons.IH [OF i(3)] i(1,2) show ?case by auto
qed simp

lemma review_loop_Inr:
  assumes "review_loop entries seen cs = Inr cs'"
  shows "(\<forall>e \<in> set entries. entry_valid e \<and> (\<exists>j < length cs. names_first cs j e))
    \<and> distinct (map (\<lambda>e. json_index e ''id'') entries) \<and> length cs' = length cs
    \<and> (\<forall>j < length cs. cs' ! j = (case find (names_first cs j) entries of
          Some e \<Rightarrow> bt_insert ''assessment'' (entry_review e) (cs ! j) | None \<Rightarrow> cs ! j))"
  using assms
proof (induction entries arbitrary: seen cs)
  case Nil
  then show ?case by simp
next
  case (Cons e entries)
  then obtain i cs1 where i: "as_str (json_index e ''id'') = Some i" "i \<notin> set seen"
    and a: "apply_review e i cs = Inr cs1" and r: "review_loop entries (bs_insert i seen) cs1 = Inr cs'"
    by (auto split: option.splits if_splits)
  from apply_review_Inr [OF a] obtain j where v: "entry_valid e" and j: "j < length cs" "has_id i (cs ! j)"
    "\<forall>k < j. \<not> has_id i (cs ! k)" and cs1: "cs1 = cs[j := bt_insert ''assessment'' (entry_review e) (cs ! j)]" by blast
  note ih = Cons.IH [OF r]
  have has: "has_id i' (cs1 ! k) = has_id i' (cs ! k)" for i' k
    using j(1) by (cases "k = j") (simp_all add: cs1)
  have first: "names_first cs1 k e' = names_first cs k e'" for k e' by (simp add: names_first_def has)
  have mine: "names_first cs k e \<longleftrightarrow> k = j" for k
    using i(1) j(2,3) by (auto simp: names_first_def) (metis linorder_neqE_nat)
  have other: "\<not> names_first cs j e'" if "e' \<in> set entries" for e'
  proof
    assume "names_first cs j e'"
    then obtain i' where i': "as_str (json_index e' ''id'') = Some i'" "has_id i' (cs ! j)"
      by (auto simp: names_first_def)
    with j(2) have "i' = i" by (simp add: has_id_def)
    with review_loop_unseen [OF r] that i'(1) show False by auto
  qed
  have "cs' ! k = (case find (names_first cs k) (e # entries) of
      Some e \<Rightarrow> bt_insert ''assessment'' (entry_review e) (cs ! k) | None \<Rightarrow> cs ! k)" if k: "k < length cs" for k
  proof -
    have "length cs1 = length cs" by (simp add: cs1)
    then have step: "cs' ! k = (case find (names_first cs k) entries of
        Some e \<Rightarrow> bt_insert ''assessment'' (entry_review e) (cs1 ! k) | None \<Rightarrow> cs1 ! k)"
      using ih k unfolding first by simp
    show ?thesis
    proof (cases "k = j")
      case True
      then have "find (names_first cs k) entries = None" using other by (auto simp: find_None_iff)
      with step True j(1) show ?thesis by (simp add: mine cs1)
    next
      case False
      then have "cs1 ! k = cs ! k" by (simp add: cs1)
      with step False show ?thesis by (simp add: mine split: option.split)
    qed
  qed
  moreover have "\<forall>e' \<in> set (e # entries). entry_valid e' \<and> (\<exists>j < length cs. names_first cs j e')"
  proof -
    have "\<forall>e' \<in> set entries. entry_valid e' \<and> (\<exists>j < length cs1. names_first cs1 j e')" using ih by blast
    moreover have "length cs1 = length cs" by (simp add: cs1)
    ultimately show ?thesis using v mine j(1) by (auto simp only: first set_simps insert_iff)
  qed
  moreover have "json_index e ''id'' \<noteq> json_index e' ''id''" if "e' \<in> set entries" for e'
    using review_loop_unseen [OF r] that i(1) by auto
  then have "distinct (map (\<lambda>e. json_index e ''id'') (e # entries))" using ih by auto
  moreover have "length cs' = length cs" using ih by (simp add: cs1)
  ultimately show ?case by blast
qed

text \<open>
  Accepted reviews only set assessments: each review is complete (a known classification, a basis and
  references) and names, by an id no other review has, a change of this report; exactly the first change
  with that id gets its assessment replaced, and every other change, and every other field, is untouched.
\<close>

theorem apply_reviews_exact:
  assumes "apply_reviews cs reviews = Inr cs'"
  shows "\<exists>entries. as_u64 (json_index reviews ''reportVersion'') = Some FORMAT_VERSION
    \<and> json_index reviews ''reviews'' = JArr entries
    \<and> (\<forall>e \<in> set entries. entry_valid e \<and> (\<exists>j < length cs. names_first cs j e))
    \<and> distinct (map (\<lambda>e. json_index e ''id'') entries) \<and> length cs' = length cs
    \<and> (\<forall>j < length cs. cs' ! j = (case find (names_first cs j) entries of
          Some e \<Rightarrow> bt_insert ''assessment'' (entry_review e) (cs ! j) | None \<Rightarrow> cs ! j))"
proof -
  from assms obtain entries where v: "as_u64 (json_index reviews ''reportVersion'') = Some FORMAT_VERSION"
    and a: "as_array (json_index reviews ''reviews'') = Some entries" and r: "review_loop entries [] cs = Inr cs'"
    by (auto simp: apply_reviews_def split: if_splits option.splits)
  have "json_index reviews ''reviews'' = JArr entries" using a by (cases "json_index reviews ''reviews''") auto
  with v review_loop_Inr [OF r] show ?thesis by blast
qed

section \<open>What a change id binds\<close>

definition raw_change :: "change \<Rightarrow> bool" where
  "raw_change c \<longleftrightarrow> bt_ok c \<and> map_of c ''id'' = None \<and> map_of c ''assessment'' = None"

lemma raw_insert: "raw_change c \<Longrightarrow> k \<noteq> ''id'' \<Longrightarrow> k \<noteq> ''assessment'' \<Longrightarrow> raw_change (bt_insert k v c)"
  by (simp add: raw_change_def)

lemma raw_plain: "plain_change c \<Longrightarrow> raw_change c"
  by (auto simp: plain_change_def raw_change_def array_change_def value_change_def map_of_bt_of)

lemma raw_walk: "c \<in> set (walk old new p q) \<Longrightarrow> raw_change c"
  using walk_shape raw_plain by blast

lemma raw_group_change: "raw_change (group_change p g h)"
  by (simp add: raw_change_def group_change_def map_of_bt_of)

lemma raw_group: "c \<in> set (group_walk p g h) \<Longrightarrow> raw_change c"
  using raw_walk raw_group_change by (auto simp: group_walk_def split: if_splits)

lemma raw_collection:
  assumes "collection_diff L domain a b k = Some cs" "c \<in> set cs"
  shows "raw_change c"
proof (cases "keyed_pair L domain k a b")
  case None
  let ?w = "walk (map_of a k) (map_of b k) (SLASH # pointer_key k) (SLASH # pointer_key k)"
  from None assms(1) have "cs = ?w \<or> cs = map (bt_insert ''identityDiagnostic'' NO_IDENTITY) ?w"
    by (auto simp: collection_diff_def Let_def)
  with assms(2) obtain c0 where "c0 \<in> set ?w" "c = c0 \<or> c = bt_insert ''identityDiagnostic'' NO_IDENTITY c0" by auto
  with raw_walk [OF this(1)] show ?thesis by (auto intro: raw_insert)
next
  case (Some pair)
  then obtain oi ni where "keyed_pair L domain k a b = Some (oi, ni)" by (cases pair) auto
  with assms(1) have "map_option concat (those (map (identity_diff L (SLASH # pointer_key k) oi ni)
      (bs_of (map fst oi @ map fst ni)))) = Some cs" by (simp add: collection_diff_def)
  from those_concat [OF this assms(2)] obtain i ds
    where "identity_diff L (SLASH # pointer_key k) oi ni i = Some ds" "c \<in> set ds" by blast
  then obtain c0 v g h where "c0 \<in> set (group_walk (SLASH # pointer_key k) g h)" "c = bt_insert ''identity'' v c0"
    by (auto simp: identity_diff_def Let_def split: if_splits)
  with raw_group show ?thesis by (auto intro: raw_insert)
qed

lemma raw_document:
  assumes "document_diff L domain old new = Some cs" "c \<in> set cs"
  shows "raw_change c"
proof (cases "\<exists>a b. old = JObj a \<and> new = JObj b")
  case True
  then obtain a b where ab: "old = JObj a" "new = JObj b" by blast
  with assms(1) have "map_option concat (those (map (collection_diff L domain a b)
      (filter (\<lambda>k. \<not> version_field k) (bs_of (map fst a @ map fst b))))) = Some cs"
    by (simp add: document_diff_def)
  from those_concat [OF this assms(2)] show ?thesis using raw_collection by blast
next
  case False
  with assms(1) have "cs = walk (Some old) (Some new) [] []"
    by (cases old; cases new) (auto simp: document_diff_def)
  with assms(2) show ?thesis using raw_walk by blast
qed

definition signed :: "json_lib \<Rightarrow> change \<Rightarrow> bool" where
  "signed L c \<longleftrightarrow> bt_ok c \<and>
     change_get c ''id'' =
       JStr (sha256_hex (j_digest L) (j_ser L (JObj (bt_remove ''assessment'' (bt_remove ''id'' c)))))"

lemma signed_assessment:
  assumes "signed L c"
  shows "signed L (bt_insert ''assessment'' v c)"
proof -
  have "bt_remove ''assessment'' (bt_remove ''id'' (bt_insert ''assessment'' v c))
      = bt_remove ''assessment'' (bt_remove ''id'' c)"
    using assms by (intro bt_ok_unique) (auto simp: signed_def)
  with assms show ?thesis by (simp add: signed_def)
qed

lemma signed_id:
  assumes "raw_change c"
  shows "signed L (bt_insert ''id'' (JStr (sha256_hex (j_digest L) (j_ser L (JObj c)))) c)"
proof -
  have "bt_remove ''assessment'' (bt_remove ''id'' (bt_insert ''id'' v c)) = c" for v
    using assms by (intro bt_ok_unique) (auto simp: raw_change_def)
  then show ?thesis using assms by (simp add: signed_def raw_change_def)
qed

definition bound_to :: "snapshot \<Rightarrow> snapshot \<Rightarrow> change \<Rightarrow> bool" where
  "bound_to old new c \<longleftrightarrow> change_get c ''oldDeclaredSetHash'' = JStr (lk_set_hash (sn_lock old))
     \<and> change_get c ''newDeclaredSetHash'' = JStr (lk_set_hash (sn_lock new))"

lemma stamp_signed:
  assumes "raw_change c"
  shows "signed L (stamp L old new is_schema domain a b c) \<and> bound_to old new (stamp L old new is_schema domain a b c)"
proof
  show "signed L (stamp L old new is_schema domain a b c)"
    unfolding stamp_def Let_def using assms
    by (intro signed_assessment signed_id raw_insert) (auto intro: raw_insert)
  show "bound_to old new (stamp L old new is_schema domain a b c)"
    by (simp add: bound_to_def stamp_def Let_def)
qed

lemma raw_deltas: "domain_deltas L is_schema domain a b = Some ds \<Longrightarrow> c \<in> set ds \<Longrightarrow> raw_change c"
  by (auto simp: domain_deltas_def Let_def simp del: walk.simps split: option.splits if_splits)
    (metis raw_walk raw_document)+

lemma all_changes_signed:
  assumes "all_changes L old new = Some cs" "c \<in> set cs"
  shows "signed L c \<and> bound_to old new c"
proof -
  from those_concat [OF assms(1) [unfolded all_changes_def] assms(2)]
  obtain t ds where t: "(case t of (is_schema, fo, fn) \<Rightarrow>
      map_option concat (those (map (domain_changes L old new is_schema fo fn)
        (bs_of (map fst fo @ map fst fn))))) = Some ds" "c \<in> set ds" by blast
  obtain is_schema fo fn where "t = (is_schema, fo, fn)" by (cases t)
  with t have "map_option concat (those (map (domain_changes L old new is_schema fo fn)
      (bs_of (map fst fo @ map fst fn)))) = Some ds" "c \<in> set ds" by simp_all
  from those_concat [OF this] obtain domain es where
    e: "domain_changes L old new is_schema fo fn domain = Some es" "c \<in> set es" by blast
  let ?a = "map_of fo domain" and ?b = "map_of fn domain"
  from e(1) obtain deltas where es: "es = map (stamp L old new is_schema domain ?a ?b) deltas"
    and d: "domain_deltas L is_schema domain ?a ?b = Some deltas"
    by (auto simp: domain_changes_def Let_def)
  from es e(2) obtain c0 where c0: "c0 \<in> set deltas" "c = stamp L old new is_schema domain ?a ?b c0" by auto
  from raw_deltas [OF d c0(1)] c0(2) show ?thesis using stamp_signed by blast
qed

lemma count_classes_Some:
  assumes "count_classes cs m = Some r"
  shows "(case map_of r l of Some n \<Rightarrow> n | None \<Rightarrow> 0)
    = (case map_of m l of Some n \<Rightarrow> n | None \<Rightarrow> 0) + length (filter (\<lambda>c. classification c = Some l) cs)"
  using assms
proof (induction cs arbitrary: m)
  case (Cons c cs)
  then obtain k where "classification c = Some k"
    "count_classes cs (bt_insert k ((case map_of m k of Some n \<Rightarrow> n | None \<Rightarrow> 0) + 1) m) = Some r"
    by (auto split: option.splits)
  with Cons.IH [OF this(2)] show ?case by simp
qed simp

text \<open>
  C30: A report is over two verified snapshots: the id of every change, reviewed or not, is the hash of all
  its other fields but the assessment, and among them are the set hashes of the two locks; the counts of
  the classifications are exactly those of its changes.
\<close>

theorem report_signed:
  assumes "report L fs old_root new_root evidence = Inr r"
  shows "\<exists>old new cs counts. read_snapshot L fs old_root = Inr old \<and> read_snapshot L fs new_root = Inr new
    \<and> r = render_report old new cs counts \<and> (\<forall>c \<in> set cs. signed L c \<and> bound_to old new c)
    \<and> (\<forall>l. (case map_of counts l of Some n \<Rightarrow> n | None \<Rightarrow> 0) = length (filter (\<lambda>c. classification c = Some l) cs))"
proof -
  note def = assms [unfolded report_def]
  obtain old where o: "read_snapshot L fs old_root = Inr old"
    using def by (cases "read_snapshot L fs old_root") simp_all
  obtain new where n: "read_snapshot L fs new_root = Inr new"
    using def o by (cases "read_snapshot L fs new_root") simp_all
  obtain cs where c: "all_changes L old new = Some cs" using def o n by (cases "all_changes L old new") simp_all
  from def o n c obtain cs' counts where k: "count_classes cs' [] = Some counts" "r = render_report old new cs' counts"
    and cs': "cs' = cs \<or> (\<exists>reviews. apply_reviews cs reviews = Inr cs')"
    by (auto split: sum.splits option.splits)
  have all: "\<forall>c \<in> set cs. signed L c \<and> bound_to old new c" using all_changes_signed [OF c] by blast
  have "\<forall>c \<in> set cs'. signed L c \<and> bound_to old new c"
  proof (cases "cs' = cs")
    case False
    with cs' obtain reviews entries where "review_loop entries [] cs = Inr cs'"
      by (auto simp: apply_reviews_def split: if_splits option.splits)
    note rv = review_loop_Inr [OF this]
    have "signed L (cs' ! j) \<and> bound_to old new (cs' ! j)" if "j < length cs" for j
    proof -
      have "signed L (cs ! j) \<and> bound_to old new (cs ! j)" using all that by simp
      moreover have "cs' ! j = cs ! j \<or> (\<exists>v. cs' ! j = bt_insert ''assessment'' v (cs ! j))"
        using rv that by (auto split: option.splits)
      ultimately show ?thesis using signed_assessment by (auto simp: bound_to_def)
    qed
    with rv show ?thesis by (metis in_set_conv_nth)
  qed (use all in simp)
  with o n k count_classes_Some [OF k(1)] show ?thesis by auto
qed

section \<open>Two sample snapshots\<close>

definition sample_doc :: "string \<Rightarrow> json" where
  "sample_doc x = JObj [(''schemaVersion'', num 1), (''waVersion'', JStr ''2.1''), (''x'', JStr x)]"

definition sample_manifest :: "bytes \<Rightarrow> json" where
  "sample_manifest b =
     JObj [(''domains'', JObj [(''mex'', JObj [(''file'', JStr ''d.json''), (''sha256'', JStr (sha256_hex id b))])]),
           (''schemaVersion'', num 1), (''waVersion'', JStr ''2.1'')]"

definition snap_lib :: json_lib where
  "snap_lib = sample_lib\<lparr>
     j_de := (\<lambda>b. if b = ''M'' then Some (sample_manifest ''D'') else if b = ''N'' then Some (sample_manifest ''E'')
                  else if b = ''D'' then Some (sample_doc ''p'') else if b = ''E'' then Some (sample_doc ''q'') else None),
     j_lock := (\<lambda>b. Some (new_lock id ''2.1'' [])), j_digest := id\<rparr>"

definition snap_fs :: fs where
  "snap_fs = [[''a'', ''manifest.json''] \<mapsto> File ''M'', [''a'', ''bundles.lock.json''] \<mapsto> File ''L'', [''a'', ''d.json''] \<mapsto> File ''D'',
              [''b'', ''manifest.json''] \<mapsto> File ''N'', [''b'', ''bundles.lock.json''] \<mapsto> File ''L'', [''b'', ''d.json''] \<mapsto> File ''E'']"

definition snap_of :: "bytes \<Rightarrow> string \<Rightarrow> snapshot" where
  "snap_of b x = \<lparr>sn_manifest = sample_manifest b, sn_lock = new_lock id ''2.1'' [],
     sn_files = [(''mex'', ''d.json'', sha256_hex id b, sample_doc x)], sn_schemas = []\<rparr>"

lemma snap_files:
  "read_file snap_fs [''a'', ''manifest.json''] = Some ''M''" "read_file snap_fs [''b'', ''manifest.json''] = Some ''N''"
  "read_file snap_fs [''a'', ''bundles.lock.json''] = Some ''L''" "read_file snap_fs [''b'', ''bundles.lock.json''] = Some ''L''"
  "read_file snap_fs [''a'', ''d.json''] = Some ''D''" "read_file snap_fs [''b'', ''d.json''] = Some ''E''"
  by (simp_all add: read_file_def snap_fs_def)

lemma snap_paths:
  "all_normal ''bundles.lock.json''" "local_path ''bundles.lock.json'' = [''bundles.lock.json'']"
  "all_normal ''d.json''" "local_path ''d.json'' = [''d.json'']" "ends_with ''d.json'' ''.json''"
  "utf8_valid ''M''" "utf8_valid ''N''"
  by code_simp+

lemma snap_lock: "verify_lock id (new_lock id ''2.1'' []) = Inr ()" "lk_wa_version (new_lock id ''2.1'' []) = ''2.1''"
  by (simp_all add: verify_lock_def new_lock_def)

lemma snap_domain:
  assumes "read_file snap_fs (root @ [''d.json'']) = Some b" "j_de snap_lib b = Some (sample_doc x)"
  shows "read_domains snap_lib snap_fs root (sample_manifest b)
      [(''mex'', JObj [(''file'', JStr ''d.json''), (''sha256'', JStr (sha256_hex id b))])] [] []
    = Inr ([(''mex'', ''d.json'', sha256_hex id b, sample_doc x)], [])"
  using assms
  by (simp add: read_domain_def read_schema_def local_file_def parse_file_def snap_paths json_index_def Let_def
      sample_doc_def sample_manifest_def bt_insert_def value_eq_def)
     (simp add: snap_lib_def)

lemma snap_de:
  "j_de snap_lib ''M'' = Some (sample_manifest ''D'')" "j_de snap_lib ''N'' = Some (sample_manifest ''E'')"
  "j_de snap_lib ''D'' = Some (sample_doc ''p'')" "j_de snap_lib ''E'' = Some (sample_doc ''q'')"
  "j_lock snap_lib b = Some (new_lock id ''2.1'' [])" "j_digest snap_lib = id"
  by (simp_all add: snap_lib_def)

lemma snap_read:
  "read_snapshot snap_lib snap_fs [''a''] = Inr (snap_of ''D'' ''p'')"
  "read_snapshot snap_lib snap_fs [''b''] = Inr (snap_of ''E'' ''q'')"
proof -
  have man: "as_str (json_index (sample_manifest b) ''waVersion'') = Some ''2.1''"
    "as_object (json_index (sample_manifest b) ''domains'')
      = Some [(''mex'', JObj [(''file'', JStr ''d.json''), (''sha256'', JStr (sha256_hex id b))])]" for b
    by (simp_all add: sample_manifest_def json_index_def)
  show "read_snapshot snap_lib snap_fs [''a''] = Inr (snap_of ''D'' ''p'')"
    "read_snapshot snap_lib snap_fs [''b''] = Inr (snap_of ''E'' ''q'')"
    using snap_domain [of "[''a'']" "''D''" "''p''"] snap_domain [of "[''b'']" "''E''" "''q''"]
    by (simp_all add: read_snapshot_def read_json_def local_file_def snap_files snap_paths snap_lock snap_de man snap_of_def
        del: utf8_valid.simps read_domains.simps)
qed

theorem snapshot_verified_witness:
  "file_ok snap_lib snap_fs [''a''] (sample_manifest ''D'')
     (JObj [(''file'', JStr ''d.json''), (''sha256'', JStr (sha256_hex id ''D''))])
     (''d.json'', sha256_hex id ''D'', sample_doc ''p'')"
proof -
  let ?S = "snap_of ''D'' ''p''"
  have m: "sn_manifest ?S = sample_manifest ''D''"
    "map_of (sn_files ?S) ''mex'' = Some (''d.json'', sha256_hex id ''D'', sample_doc ''p'')"
    "json_index (sample_manifest ''D'') ''domains''
      = JObj [(''mex'', JObj [(''file'', JStr ''d.json''), (''sha256'', JStr (sha256_hex id ''D''))])]"
    by (simp_all add: snap_of_def sample_manifest_def json_index_def)
  from snapshot_verified [OF snap_read(1)] m(1,3) obtain domains where
    d: "JObj [(''mex'', JObj [(''file'', JStr ''d.json''), (''sha256'', JStr (sha256_hex id ''D''))])] = JObj domains"
    and f: "\<And>d f. map_of (sn_files ?S) d = Some f \<Longrightarrow>
      \<exists>e. (d, e) \<in> set domains \<and> file_ok snap_lib snap_fs [''a''] (sample_manifest ''D'') e f"
    by (metis (no_types, lifting))
  from f [OF m(2)] d show ?thesis by (simp only: json.inject) force
qed

definition sample_changes :: "change list" where
  "sample_changes =
     (let c = value_change ''/x'' ''/x'' (Some (JStr ''p'')) (Some (JStr ''q''));
          f = (\<lambda>b x. Some (''d.json'', sha256_hex id b, sample_doc x))
      in [stamp snap_lib (snap_of ''D'' ''p'') (snap_of ''E'' ''q'') False ''mex'' (f ''D'' ''p'') (f ''E'' ''q'') c])"

lemma sample_all_changes: "all_changes snap_lib (snap_of ''D'' ''p'') (snap_of ''E'' ''q'') = Some sample_changes"
proof -
  have keys: "bs_of [''schemaVersion'', ''waVersion'', ''x'', ''schemaVersion'', ''waVersion'', ''x'']
      = [''schemaVersion'', ''waVersion'', ''x'']" "bs_of [''mex'', ''mex''] = [''mex'']" "bs_of ([] :: string list) = []"
    by (simp_all add: bs_of_def bs_insert_def)
  have "version_field ''schemaVersion''" "version_field ''waVersion''" "\<not> version_field ''x''"
    by (simp_all add: version_field_def)
  moreover have "identity_keys ''mex'' ''x'' = None" by (simp add: identity_keys_def)
  moreover have "pointer_key ''x'' = ''x''" by code_simp
  ultimately have "document_diff snap_lib ''mex'' (sample_doc ''p'') (sample_doc ''q'')
      = Some [value_change ''/x'' ''/x'' (Some (JStr ''p'')) (Some (JStr ''q''))]"
    by (simp add: document_diff_def collection_diff_def keyed_pair_def sample_doc_def keys Let_def opt_eq_def)
  then show ?thesis
    by (simp add: all_changes_def domain_changes_def domain_deltas_def snap_of_def keys sample_changes_def Let_def)
qed

lemma sample_report:
  "\<exists>counts. report snap_lib snap_fs [''a''] [''b''] None
     = Inr (render_report (snap_of ''D'' ''p'') (snap_of ''E'' ''q'') sample_changes counts)"
proof -
  have "classification (stamp L old new s d a b c) = Some ''indeterminate''" for L old new s d a b c
    by (simp add: classification_def stamp_def Let_def json_index_def map_of_bt_of)
  then have "\<exists>counts. count_classes sample_changes [] = Some counts" by (simp add: sample_changes_def Let_def)
  then show ?thesis by (auto simp: report_def snap_read sample_all_changes)
qed

lemma render_report_changes:
  assumes "render_report old new cs counts = render_report old' new' cs' counts'"
  shows "cs = cs'"
proof -
  have "json_get (render_report o' n' ds ks) ''changes'' = Some (JArr (map JObj ds))" for o' n' ds ks
    by (simp add: render_report_def map_of_bt_of)
  with assms have "map JObj cs = map JObj cs'" by (metis json.inject(4) option.inject)
  then show ?thesis by (simp add: inj_map_eq_map inj_def)
qed

theorem report_signed_witness:
  "list_all (\<lambda>c. signed snap_lib c \<and> bound_to (snap_of ''D'' ''p'') (snap_of ''E'' ''q'') c) sample_changes"
proof -
  obtain counts where r: "report snap_lib snap_fs [''a''] [''b''] None
     = Inr (render_report (snap_of ''D'' ''p'') (snap_of ''E'' ''q'') sample_changes counts)"
    using sample_report by blast
  from report_signed [OF r] obtain cs counts' where
    "render_report (snap_of ''D'' ''p'') (snap_of ''E'' ''q'') sample_changes counts
      = render_report (snap_of ''D'' ''p'') (snap_of ''E'' ''q'') cs counts'"
    "\<forall>c \<in> set cs. signed snap_lib c \<and> bound_to (snap_of ''D'' ''p'') (snap_of ''E'' ''q'') c"
    by (auto simp: snap_read)
  with render_report_changes show ?thesis unfolding list_all_iff by blast
qed

definition sample_review :: json where
  "sample_review =
     JObj [(''basis'', JStr ''b''), (''classification'', JStr ''upstream-change''), (''id'', JStr ''i''),
           (''references'', JArr [JStr ''r''])]"

theorem apply_reviews_exact_witness:
  "apply_reviews [[(''id'', JStr ''i'')], [(''id'', JStr ''j'')]]
     (JObj [(''reportVersion'', num 2), (''reviews'', JArr [sample_review])])
   = Inr [bt_insert ''assessment'' (entry_review sample_review) [(''id'', JStr ''i'')], [(''id'', JStr ''j'')]]"
proof -
  let ?cs = "[[(''id'', JStr ''i'')], [(''id'', JStr ''j'')]] :: change list"
  let ?rv = "JObj [(''reportVersion'', num 2), (''reviews'', JArr [sample_review])]"
  have nb: "\<not> blank ''b''" "\<not> blank ''r''" by code_simp+
  have id: "has_id ''i'' [(''id'', JStr ''i'')]" "\<not> has_id ''i'' [(''id'', JStr ''j'')]"
    by (simp_all add: has_id_def change_get_def)
  have ix: "json_index sample_review ''id'' = JStr ''i''" by (simp add: json_index_def sample_review_def)
  have "\<exists>cs'. apply_reviews ?cs ?rv = Inr cs'"
    by (simp add: apply_reviews_def json_index_def sample_review_def FORMAT_VERSION_def apply_review_def id
        CLASSIFICATIONS_def nonblank_str_def nb)
  then obtain cs' where cs': "apply_reviews ?cs ?rv = Inr cs'" by blast
  from apply_reviews_exact [OF cs'] have len: "length cs' = 2"
    and nth: "\<forall>j < length ?cs. cs' ! j = (case find (names_first ?cs j) [sample_review] of
          Some e \<Rightarrow> bt_insert ''assessment'' (entry_review e) (?cs ! j) | None \<Rightarrow> ?cs ! j)"
    by (auto simp: json_index_def)
  have "names_first ?cs 0 sample_review" "\<not> names_first ?cs 1 sample_review"
    by (auto simp: names_first_def ix id)
  with nth have "cs' ! 0 = bt_insert ''assessment'' (entry_review sample_review) (?cs ! 0)" "cs' ! 1 = ?cs ! 1"
    by auto
  moreover obtain c d where "cs' = [c, d]" using len by (auto simp: numeral_2_eq_2 length_Suc_conv)
  ultimately show ?thesis using cs' by simp
qed

end
