(* ===== verification/IqIr.thy ===== *)
theory IqIr
  imports Prelude
begin

text \<open>
  The response half of the IQ intermediate representation, \<open>crates/wa-ir/src/iq.rs\<close>: what a scanned
  response parser asserts (\<open>response_assertion\<close>), the fields it reads (\<open>parsed_field\<close>, a tree through
  \<open>children\<close> and the alternatives of a union), the error shapes it accepts (\<open>error_arm\<close>) and the
  variants of an outcome union (\<open>response_variant\<close>).  \<open>Option<T>\<close> is \<open>'t option\<close>, \<open>Vec<T>\<close> a list, an
  \<open>i64\<close> an \<open>int\<close> and a \<open>u32\<close> a \<open>nat\<close>: no code modelled here computes with them at their width except the
  interval coverage, which the source carries out in \<open>i128\<close>.  Also here: the helpers every reader of
  the tree shares, and the two ways of walking it (through children alone, through everything).
\<close>

named_theorems ir_simps \<open>unfolding rules of the accessors of the intermediate representation\<close>

datatype assertion_kind = TagK | AttrK | FromServer | ContentK | ChildK | ReferenceK

record response_assertion =
  ra_kind :: assertion_kind
  ra_name :: "string option"
  ra_value :: "string option"
  ra_reference_path :: "string list option"

datatype parsed_field_type =
    StringT | IntegerT | Timestamp | TimestampMillis | EnumT | BytesT | Jid | UserJid | LidUserJid
  | DeviceJid | LidDeviceJid | GroupJid | NewsletterJid | CallJid | BroadcastJid | StatusJid
  | JidTyped | BoolT | UnionT | NodeT

definition is_jid :: "parsed_field_type \<Rightarrow> bool" where
  "is_jid t \<longleftrightarrow> t \<in> {Jid, UserJid, LidUserJid, DeviceJid, LidDeviceJid, GroupJid, NewsletterJid,
     CallJid, BroadcastJid, StatusJid, JidTyped}"

datatype unknown_value_policy = Reject | Null | Unclassified

datatype content_type = StringC | BytesC | IntegerC | NodesC

record attr_enum_variant =
  ev_name :: string
  ev_value :: string

record attr_enum_ref =
  er_name :: string
  er_module :: string
  er_variants :: "attr_enum_variant list"

datatype pending_enum = Link attr_enum_ref | Unresolvable

text \<open>
  \<open>ParsedField\<close> is its scalar members, in a record, and its two recursive ones, as arguments of the
  constructor.
\<close>

record field_data =
  pf_method :: string
  pf_name :: string
  pf_wire_name :: "string option"
  pf_field_type :: parsed_field_type
  pf_parser_required :: bool
  pf_unknown_value :: "unknown_value_policy option"
  pf_byte_length :: "nat option"
  pf_byte_min :: "nat option"
  pf_byte_max :: "nat option"
  pf_int_min :: "int option"
  pf_int_max :: "int option"
  pf_enum_keys :: "string list option"
  pf_enum_ref :: "attr_enum_ref option"
  pf_pending_enum_ref :: "pending_enum option"
  pf_literal_value :: "string option"
  pf_reference_path :: "string list option"
  pf_tag :: "string option"
  pf_repeats :: "bool option"
  pf_content_type :: "content_type option"
  pf_same_node :: bool
  pf_source_path :: "string list option"

datatype parsed_field =
    ParsedField (field_of: field_data) (children: "parsed_field list option")
      (union_variants: "union_variant list option")
and union_variant =
    UnionVariant (uv_name: string) (uv_fields: "parsed_field list")
      (uv_assertions: "response_assertion list")

text \<open>\<open>ParsedField::default()\<close>: the empty accessor, \<open>String\<close>, every optional member absent.\<close>

definition default_field :: field_data where
  "default_field = \<lparr> pf_method = '''', pf_name = '''', pf_wire_name = None, pf_field_type = StringT,
     pf_parser_required = False, pf_unknown_value = None, pf_byte_length = None, pf_byte_min = None,
     pf_byte_max = None, pf_int_min = None, pf_int_max = None, pf_enum_keys = None,
     pf_enum_ref = None, pf_pending_enum_ref = None, pf_literal_value = None,
     pf_reference_path = None, pf_tag = None, pf_repeats = None, pf_content_type = None,
     pf_same_node = False, pf_source_path = None \<rparr>"

datatype response_variant_kind = Success | ClientError | ServerError | Error | Alternative

definition is_error :: "response_variant_kind \<Rightarrow> bool" where
  "is_error k \<longleftrightarrow> k \<in> {Error, ClientError, ServerError}"

record error_arm =
  ea_name :: "string option"
  ea_code :: "int option"
  ea_text :: "string option"
  ea_code_min :: "int option"
  ea_code_max :: "int option"

record response_variant =
  rv_tag :: string
  rv_module_name :: string
  rv_kind :: response_variant_kind
  rv_error_arms :: "error_arm list"
  rv_error_envelope :: "error_arm option"
  rv_assertions :: "response_assertion list"
  rv_fields :: "parsed_field list"

record parsed_response =
  pr_parser_name :: string
  pr_assertions :: "response_assertion list"
  pr_fields :: "parsed_field list"
  pr_variants :: "response_variant list"
  pr_pending_drops :: "string list"

section \<open>Reading the tree\<close>

abbreviation method_of :: "parsed_field \<Rightarrow> string" where
  "method_of f \<equiv> pf_method (field_of f)"

abbreviation required :: "parsed_field \<Rightarrow> bool" where
  "required f \<equiv> pf_parser_required (field_of f)"

abbreviation type_of_field :: "parsed_field \<Rightarrow> parsed_field_type" where
  "type_of_field f \<equiv> pf_field_type (field_of f)"

abbreviation opt_list :: "'a list option \<Rightarrow> 'a list" where
  "opt_list x \<equiv> (case x of None \<Rightarrow> [] | Some y \<Rightarrow> y)"

text \<open>\<open>f.tag.as_deref().unwrap_or(&f.name)\<close> and \<open>f.wire_name.as_deref().unwrap_or(&f.name)\<close>.\<close>

definition tag_or_name :: "parsed_field \<Rightarrow> string" where
  "tag_or_name f = (case pf_tag (field_of f) of Some t \<Rightarrow> t | None \<Rightarrow> pf_name (field_of f))"

definition wire_or_name :: "parsed_field \<Rightarrow> string" where
  "wire_or_name f =
     (case pf_wire_name (field_of f) of Some t \<Rightarrow> t | None \<Rightarrow> pf_name (field_of f))"

text \<open>
  The fields under a list of fields: \<open>child_tree\<close> follows \<open>children\<close> only, as the flattening of
  same-node wrappers does, \<open>field_tree\<close> the alternatives of unions too.
\<close>

fun child_tree :: "parsed_field \<Rightarrow> parsed_field list" where
  "child_tree (ParsedField d c u) =
     ParsedField d c u # concat (map child_tree (opt_list c))"

fun field_tree :: "parsed_field \<Rightarrow> parsed_field list"
  and variant_tree :: "union_variant \<Rightarrow> parsed_field list" where
  "field_tree (ParsedField d c u) =
     ParsedField d c u # concat (map field_tree (opt_list c)) @
       concat (map variant_tree (opt_list u))"
| "variant_tree (UnionVariant n fs a) = concat (map field_tree fs)"

end
