(* ===== verification/Wap.thy ===== *)
theory Wap
  imports IqIr
begin

text \<open>
  The vocabulary of response accessors, \<open>crates/wa-ir/src/wap.rs\<close>: which spellings are child, content
  and attribute accessors, the type an accessor decodes to, what it does with a value outside its
  closed set, and the pass that stamps that policy on a whole field tree.  The \<open>match\<close> on the
  spelling is the table \<open>accessor_types\<close>, its wildcard arm the default of the lookup.
\<close>

named_theorems wap_simps \<open>unfolding rules of the accessor classification\<close>

definition child_methods :: "string list" where
  "child_methods =
     [''child'', ''maybeChild'', ''forEachChildWithTag'', ''mapChildren'', ''mapChildrenWithTag'']"

definition is_child_method :: "string \<Rightarrow> bool" where
  "is_child_method m \<longleftrightarrow> m \<in> set child_methods"

definition content_methods :: "string list" where
  "content_methods =
     [''contentString'', ''contentBytes'', ''contentInt'', ''contentUint'', ''contentEnum'',
      ''contentStringEnum'', ''contentBytesRange'', ''contentLiteralBytes'']"

definition is_content_method :: "string \<Rightarrow> bool" where
  "is_content_method m \<longleftrightarrow> m \<in> set content_methods"

definition is_attr_method :: "string \<Rightarrow> bool" where
  "is_attr_method m \<longleftrightarrow>
     (let literal_attr = starts_with m ''literal'' \<and> \<not> str_contains m ''Content'';
          attr = (starts_with m ''attr'' \<or> starts_with m ''maybeAttr'') \<and> m \<noteq> ''hasAttr''
      in (attr \<or> literal_attr) \<and> \<not> ends_with m ''FromReference'')"

definition is_optional_method :: "string \<Rightarrow> bool" where
  "is_optional_method m \<longleftrightarrow> starts_with m ''maybe''"

text \<open>
  The spelling \<open>m\<close> derives from when it is a \<open>maybe\<dots>\<close> one: the rest with its first character in lower
  case.  A character outside ASCII has no lower case that begins a spelling of the table (only the
  Kelvin sign and the dotted capital I have an ASCII letter in theirs, \<open>k\<close> and \<open>i\<close>), so lowering the
  first byte gives the same lookups.
\<close>

definition de_maybe :: "string \<Rightarrow> string option" where
  "de_maybe m =
     (case strip_prefix m ''maybe'' of
        Some (c # rest) \<Rightarrow> Some (ascii_lower c # rest)
      | _ \<Rightarrow> None)"

definition accessor_types :: "(string \<times> parsed_field_type) list" where
  "accessor_types =
     [(''attrString'', StringT),
      (''attrEnum'', EnumT), (''attrEnumValues'', EnumT),
      (''attrInt'', IntegerT), (''attrTime'', IntegerT), (''attrIntRange'', IntegerT),
      (''attrFutureTime'', IntegerT), (''contentInt'', IntegerT), (''contentUint'', IntegerT),
      (''attrUserJid'', UserJid),
      (''attrPhoneUserJid'', UserJid),
      (''attrPhoneDeviceJid'', DeviceJid),
      (''attrLidUserJid'', LidUserJid),
      (''attrDeviceJid'', DeviceJid),
      (''attrLidDeviceJid'', LidDeviceJid),
      (''attrGroupJid'', GroupJid),
      (''attrNewsletterJid'', NewsletterJid),
      (''attrCallJid'', CallJid),
      (''attrBroadcastJid'', BroadcastJid),
      (''attrStatusJid'', StatusJid),
      (''attrJidWithType'', JidTyped), (''attrJidEnum'', JidTyped), (''attrFromJidChat'', JidTyped),
      (''attrFromJidPhoneChat'', JidTyped),
      (''attrWapJid'', Jid), (''attrChatJid'', Jid), (''attrFromJid'', Jid),
      (''attrJid'', Jid), (''literalJid'', Jid), (''attrPhoneChatJid'', Jid),
      (''attrDomainJid'', Jid), (''attrLidJid'', Jid), (''attrFromPhoneJid'', Jid),
      (''attrStringEnum'', EnumT), (''contentStringEnum'', EnumT), (''contentEnum'', EnumT),
      (''attrEnumOrNullIfUnknown'', EnumT),
      (''contentBytes'', BytesT), (''contentBytesRange'', BytesT), (''contentLiteralBytes'', BytesT)]"

definition base_field_type :: "string \<Rightarrow> parsed_field_type" where
  "base_field_type m = (case map_of accessor_types m of Some t \<Rightarrow> t | None \<Rightarrow> StringT)"

lemma de_maybe_length [termination_simp]: "de_maybe m = Some a \<Longrightarrow> length a < length m"
  by (auto simp: de_maybe_def strip_prefix_Some split: option.splits list.splits)

fun method_field_type :: "string \<Rightarrow> parsed_field_type" where
  "method_field_type m =
     (case de_maybe m of Some a \<Rightarrow> method_field_type a | None \<Rightarrow> base_field_type m)"

definition has_closed_value_set :: "string \<Rightarrow> bool" where
  "has_closed_value_set m \<longleftrightarrow> method_field_type m = EnumT"

definition rejecting_accessors :: "string list" where
  "rejecting_accessors =
     [''attrEnum'', ''attrEnumValues'', ''attrStringEnum'', ''contentEnum'', ''contentStringEnum'']"

fun method_unknown_value_policy :: "string \<Rightarrow> unknown_value_policy option" where
  "method_unknown_value_policy m =
     (if \<not> has_closed_value_set m then None
      else case de_maybe m of
        Some a \<Rightarrow> method_unknown_value_policy a
      | None \<Rightarrow>
          Some (if m = ''attrEnumOrNullIfUnknown'' then Null
                else if m \<in> set rejecting_accessors then Reject
                else Unclassified))"

declare method_field_type.simps [simp del]
declare method_unknown_value_policy.simps [simp del]

text \<open>The classification pass, over one field, one alternative, a list of fields.\<close>

fun classify_field :: "parsed_field \<Rightarrow> parsed_field"
  and classify_variant :: "union_variant \<Rightarrow> union_variant" where
  "classify_field (ParsedField d c u) =
     ParsedField
       (if pf_unknown_value d = None
        then d\<lparr>pf_unknown_value := method_unknown_value_policy (pf_method d)\<rparr> else d)
       (map_option (map classify_field) c)
       (map_option (map classify_variant) u)"
| "classify_variant (UnionVariant n fs a) = UnionVariant n (map classify_field fs) a"

definition classify_unknown_values :: "parsed_field list \<Rightarrow> parsed_field list" where
  "classify_unknown_values = map classify_field"

text \<open>\<open>ParsedResponse::classify_accessors\<close> of \<open>iq.rs\<close>: the root fields and every variant's.\<close>

definition classify_accessors :: "parsed_response \<Rightarrow> parsed_response" where
  "classify_accessors r = r\<lparr>
     pr_fields := classify_unknown_values (pr_fields r),
     pr_variants := map (\<lambda>v. v\<lparr>rv_fields := classify_unknown_values (rv_fields v)\<rparr>) (pr_variants r)\<rparr>"

section \<open>The spelling determines the type and the policy\<close>

text \<open>What is left of a spelling once every \<open>maybe\<close> is taken off.\<close>

fun base_spelling :: "string \<Rightarrow> string" where
  "base_spelling m = (case de_maybe m of Some a \<Rightarrow> base_spelling a | None \<Rightarrow> m)"

declare base_spelling.simps [simp del]

lemma method_field_type_base: "method_field_type m = base_field_type (base_spelling m)"
  by (induction m rule: method_field_type.induct)
     (subst method_field_type.simps, subst base_spelling.simps, auto split: option.split)

definition enum_accessors :: "string list" where
  "enum_accessors =
     [''attrEnum'', ''attrEnumValues'', ''attrStringEnum'', ''contentStringEnum'', ''contentEnum'',
      ''attrEnumOrNullIfUnknown'']"

lemma base_field_type_cases:
  "base_field_type m = t \<Longrightarrow> t \<noteq> StringT \<Longrightarrow> (m, t) \<in> set accessor_types"
  by (auto simp: base_field_type_def split: option.splits dest: map_of_SomeD)

lemma enum_accessors_only: "base_field_type m = EnumT \<Longrightarrow> m \<in> set enum_accessors"
proof -
  have "\<forall>(m, t) \<in> set accessor_types. t = EnumT \<longrightarrow> m \<in> set enum_accessors" by code_simp
  then show "base_field_type m = EnumT \<Longrightarrow> ?thesis" using base_field_type_cases by fastforce
qed

lemma no_maybe_in_table: "\<forall>(m, t) \<in> set accessor_types. de_maybe m = None"
  by code_simp


lemma method_field_type_Enum: "method_field_type m = EnumT \<longleftrightarrow> base_spelling m \<in> set enum_accessors"
proof -
  have "\<forall>b \<in> set enum_accessors. base_field_type b = EnumT" by code_simp
  then show ?thesis using enum_accessors_only method_field_type_base by auto
qed

lemma policy_step:
  "has_closed_value_set m \<Longrightarrow> de_maybe m = Some a \<Longrightarrow>
     method_unknown_value_policy m = method_unknown_value_policy a"
  "has_closed_value_set m \<Longrightarrow> de_maybe m = None \<Longrightarrow> m \<noteq> ''attrEnumOrNullIfUnknown'' \<Longrightarrow>
     m \<in> set rejecting_accessors \<Longrightarrow> method_unknown_value_policy m = Some Reject"
  by (simp_all only: method_unknown_value_policy.simps [of m] option.case if_True if_False
      not_True_eq_False not_False_eq_True simp_thms)

lemma policy_null: "method_unknown_value_policy ''attrEnumOrNullIfUnknown'' = Some Null"
  by code_simp

lemma enum_accessors_split:
  "\<forall>m \<in> set enum_accessors. m = ''attrEnumOrNullIfUnknown'' \<or> m \<in> set rejecting_accessors"
  by code_simp

lemma policy_base:
  "has_closed_value_set m \<Longrightarrow>
   method_unknown_value_policy m =
     Some (if base_spelling m = ''attrEnumOrNullIfUnknown'' then Null else Reject)"
proof (induction m rule: base_spelling.induct)
  case (1 m)
  show ?case
  proof (cases "de_maybe m")
    case None
    then have b: "base_spelling m = m" by (subst base_spelling.simps) simp
    with "1.prems" have "m \<in> set enum_accessors"
      using method_field_type_Enum has_closed_value_set_def by metis
    then have "m = ''attrEnumOrNullIfUnknown'' \<or> m \<in> set rejecting_accessors"
      using enum_accessors_split by blast
    then show ?thesis unfolding b
    proof (cases "m = ''attrEnumOrNullIfUnknown''")
      case True
      then show "method_unknown_value_policy m = Some (if m = ''attrEnumOrNullIfUnknown'' then Null else Reject)"
        by (simp only: policy_null refl if_True)
    next
      case False
      assume "m = ''attrEnumOrNullIfUnknown'' \<or> m \<in> set rejecting_accessors"
      with False have "m \<in> set rejecting_accessors" by (simp only: simp_thms)
      with False show "method_unknown_value_policy m = Some (if m = ''attrEnumOrNullIfUnknown'' then Null else Reject)"
        using policy_step(2) [OF "1.prems" None False] by (simp only: if_False)
    qed
  next
    case (Some a)
    have a: "has_closed_value_set a" and b: "base_spelling m = base_spelling a"
      using "1.prems" Some
      by (simp_all add: has_closed_value_set_def method_field_type.simps [of m] base_spelling.simps [of m])
    show ?thesis
      unfolding policy_step(1) [OF "1.prems" Some] b by (rule "1.IH" [OF Some a])
  qed
qed

lemma policy_none: "\<not> has_closed_value_set m \<Longrightarrow> method_unknown_value_policy m = None"
  by (subst method_unknown_value_policy.simps) simp

text \<open>
  The two tables of the accessor vocabulary agree: an accessor has an out-of-set policy exactly
  when it decodes to an enum, every enum accessor is judged (the \<open>Unclassified\<close> arm is never taken),
  only \<open>attrEnumOrNullIfUnknown\<close> and its \<open>maybe\<close> form answer with null, and a \<open>maybeAttr\<dots>\<close> accessor
  decodes to the type and carries the policy of its \<open>attr\<dots>\<close> twin.
\<close>

theorem accessor_vocabulary_consistent:
  "method_unknown_value_policy m =
     (if method_field_type m = EnumT
      then Some (if base_spelling m = ''attrEnumOrNullIfUnknown'' then Null else Reject) else None)
   \<and> method_field_type (''maybeAttr'' @ s) = method_field_type (''attr'' @ s)
   \<and> method_unknown_value_policy (''maybeAttr'' @ s) = method_unknown_value_policy (''attr'' @ s)"
proof (intro conjI)
  show "method_unknown_value_policy m =
     (if method_field_type m = EnumT
      then Some (if base_spelling m = ''attrEnumOrNullIfUnknown'' then Null else Reject) else None)"
    using policy_base policy_none by (simp add: has_closed_value_set_def)
  have "ascii_lower CHR ''A'' = CHR ''a''" by code_simp
  then have d: "de_maybe (''maybeAttr'' @ s) = Some (''attr'' @ s)"
    by (simp add: de_maybe_def strip_prefix_def starts_with_def)
  then show t: "method_field_type (''maybeAttr'' @ s) = method_field_type (''attr'' @ s)"
    by (subst method_field_type.simps) (simp only: option.case)
  show "method_unknown_value_policy (''maybeAttr'' @ s) = method_unknown_value_policy (''attr'' @ s)"
  proof (cases "has_closed_value_set (''attr'' @ s)")
    case True
    then show ?thesis using t d by (intro policy_step(1)) (simp_all only: has_closed_value_set_def)
  next
    case False
    with t show ?thesis using policy_none by (metis has_closed_value_set_def)
  qed
qed

section \<open>The classification pass\<close>

text \<open>\<open>classified_from f g\<close>: \<open>g\<close> is \<open>f\<close> with the policy of its accessor where \<open>f\<close> had none.\<close>

definition classified_data :: "field_data \<Rightarrow> field_data" where
  "classified_data d =
     (if pf_unknown_value d = None
      then d\<lparr>pf_unknown_value := method_unknown_value_policy (pf_method d)\<rparr> else d)"

lemma classified_data_method [simp]: "pf_method (classified_data d) = pf_method d"
  by (simp add: classified_data_def)

lemma classified_data_idem [simp]: "classified_data (classified_data d) = classified_data d"
  by (simp add: classified_data_def)

lemma field_tree_classify:
  "map field_of (field_tree (classify_field f)) = map (classified_data \<circ> field_of) (field_tree f)"
  "map field_of (variant_tree (classify_variant v)) = map (classified_data \<circ> field_of) (variant_tree v)"
proof (induction f and v rule: classify_field_classify_variant.induct)
  case (1 d c u)
  then show ?case
    by (cases c; cases u) (simp_all add: classified_data_def map_concat comp_def cong: map_cong)
next
  case (2 n fs a)
  then show ?case by (simp add: map_concat comp_def cong: map_cong)
qed

lemma classify_idem:
  "classify_field (classify_field f) = classify_field f"
  "classify_variant (classify_variant v) = classify_variant v"
proof (induction f and v rule: classify_field_classify_variant.induct)
  case (1 d c u)
  then show ?case by (cases c; cases u) (simp_all cong: map_cong)
qed (simp cong: map_cong)

lemma concat_map_classify:
  "map field_of (concat (map field_tree (classify_unknown_values fs))) =
     map classified_data (map field_of (concat (map field_tree fs)))"
  by (induction fs) (simp_all add: classify_unknown_values_def field_tree_classify(1))

text \<open>
  \<open>classify_unknown_values\<close> reaches every field at every depth, through children and through the
  alternatives of unions, and fills only silence: in the order of the tree each field keeps all its
  members but the policy, a policy already recorded stays, and a missing one becomes that of the
  field's accessor.  So after the pass no enum accessor is left without a policy, and a second pass
  changes nothing.
\<close>

theorem classification_complete:
  "let before = concat (map field_tree fs);
       after = concat (map field_tree (classify_unknown_values fs))
   in map field_of after = map classified_data (map field_of before)
    \<and> filter (\<lambda>g. method_field_type (method_of g) = EnumT \<and> pf_unknown_value (field_of g) = None) after = []
    \<and> classify_unknown_values (classify_unknown_values fs) = classify_unknown_values fs"
proof -
  have no: "method_field_type (pf_method e) \<noteq> EnumT"
    if "e \<in> set (map classified_data es)" "pf_unknown_value e = None" for e es
  proof -
    from that obtain d where "e = classified_data d" by auto
    with that(2) have "method_unknown_value_policy (pf_method d) = None" "pf_method e = pf_method d"
      by (auto simp: classified_data_def split: if_splits)
    then show ?thesis using policy_base [of "pf_method d"] by (auto simp: has_closed_value_set_def)
  qed
  have "method_field_type (method_of g) \<noteq> EnumT"
    if "g \<in> set (concat (map field_tree (classify_unknown_values fs)))"
      "pf_unknown_value (field_of g) = None" for g
    using no [OF _ that(2)] imageI [OF that(1), of field_of] concat_map_classify [of fs]
    by (metis list.set_map)
  then have "filter (\<lambda>g. method_field_type (method_of g) = EnumT \<and> pf_unknown_value (field_of g) = None)
      (concat (map field_tree (classify_unknown_values fs))) = []"
    unfolding filter_empty_conv by blast
  moreover have "classify_unknown_values (classify_unknown_values fs) = classify_unknown_values fs"
    by (simp add: classify_unknown_values_def classify_idem(1))
  ultimately show ?thesis unfolding Let_def by (simp only: concat_map_classify)
qed

section \<open>The accessor classes are disjoint\<close>

text \<open>
  No spelling is read two ways: an attribute accessor is neither a content accessor nor a child
  accessor, a content accessor is no child accessor, and \<open>hasAttr\<close> is none of the three.
\<close>

theorem accessor_classes_disjoint:
  "\<not> (is_attr_method m \<and> is_content_method m) \<and> \<not> (is_attr_method m \<and> is_child_method m)
   \<and> \<not> (is_content_method m \<and> is_child_method m)
   \<and> \<not> is_attr_method ''hasAttr'' \<and> \<not> is_content_method ''hasAttr'' \<and> \<not> is_child_method ''hasAttr''"
proof -
  have "\<forall>m \<in> set content_methods. \<not> is_attr_method m \<and> m \<notin> set child_methods"
    "\<forall>m \<in> set child_methods. \<not> is_attr_method m"
    "\<not> is_attr_method ''hasAttr''" "\<not> is_content_method ''hasAttr''" "\<not> is_child_method ''hasAttr''"
    by code_simp+
  then show ?thesis unfolding is_content_method_def is_child_method_def by blast
qed

end
