(* ===== verification/FieldTypes.thy ===== *)
theory FieldTypes
  imports Wap
begin

text \<open>
  Typing a response field, \<open>crates/wa-codegen/src/fields.rs\<close> up to the collection of structs: the
  width an integer field materializes as, the range test the generated code applies, the Rust type of
  a field, and the flattening of wrappers that are read off the parent node.  The range test is
  Rust text; \<open>band_test\<close> is the expression it spells, \<open>render_band\<close> the spelling.
\<close>

definition show_int :: "int \<Rightarrow> string" where
  "show_int n = (if n < 0 then ''-'' @ dec (nat (- n)) else dec (nat n))"

definition admits_negative :: "parsed_field \<Rightarrow> bool" where
  "admits_negative f =
     (if method_of f = ''contentUint'' then False
      else if method_field_type (method_of f) \<noteq> IntegerT then False
      else case (pf_int_min (field_of f), pf_int_max (field_of f)) of
        (Some lo, _) \<Rightarrow> lo < 0
      | (None, Some _) \<Rightarrow> True
      | (None, None) \<Rightarrow> False)"

definition contradictory_band :: "parsed_field \<Rightarrow> bool" where
  "contradictory_band f \<longleftrightarrow>
     (case (pf_int_min (field_of f), pf_int_max (field_of f)) of
        (Some lo, Some hi) \<Rightarrow> lo > hi | _ \<Rightarrow> False)
     \<or> \<not> admits_negative f \<and> method_field_type (method_of f) = IntegerT
        \<and> (case pf_int_max (field_of f) of Some hi \<Rightarrow> hi < 0 | None \<Rightarrow> False)"

definition integer_width :: "parsed_field \<Rightarrow> string" where
  "integer_width f = (if admits_negative f then ''i64'' else ''u64'')"

datatype band_test = Never | Between int int | AtLeast int | AtMost int

definition int_band_test :: "parsed_field \<Rightarrow> band_test option" where
  "int_band_test f =
     (if method_field_type (method_of f) \<noteq> IntegerT then None
      else if contradictory_band f then Some Never
      else
        let signed = admits_negative f;
            lo = (case pf_int_min (field_of f) of
                    Some n \<Rightarrow> if signed \<or> n > 0 then Some n else None | None \<Rightarrow> None);
            hi = (case pf_int_max (field_of f) of
                    Some n \<Rightarrow> if signed \<or> n \<ge> 0 then Some n else None | None \<Rightarrow> None)
        in case (lo, hi) of
             (Some lo, Some hi) \<Rightarrow> Some (Between lo hi)
           | (Some lo, None) \<Rightarrow> Some (AtLeast lo)
           | (None, Some hi) \<Rightarrow> Some (AtMost hi)
           | (None, None) \<Rightarrow> None)"

fun render_band :: "string \<Rightarrow> string \<Rightarrow> band_test \<Rightarrow> string" where
  "render_band w var Never = ''false''"
| "render_band w var (Between lo hi) =
     ''('' @ show_int lo @ w @ ''..='' @ show_int hi @ w @ '').contains(&'' @ var @ '')''"
| "render_band w var (AtLeast lo) = var @ '' >= '' @ show_int lo @ w"
| "render_band w var (AtMost hi) = var @ '' <= '' @ show_int hi @ w"

definition int_band :: "parsed_field \<Rightarrow> string \<Rightarrow> string option" where
  "int_band f var = map_option (render_band (integer_width f) var) (int_band_test f)"

definition enum_values :: "parsed_field \<Rightarrow> string list option" where
  "enum_values f =
     (case pf_enum_ref (field_of f) of
        Some r \<Rightarrow>
          if er_variants r \<noteq> [] then Some (map ev_value (er_variants r))
          else (case pf_enum_keys (field_of f) of Some k \<Rightarrow> if k \<noteq> [] then Some k else None | None \<Rightarrow> None)
      | None \<Rightarrow> (case pf_enum_keys (field_of f) of Some k \<Rightarrow> if k \<noteq> [] then Some k else None | None \<Rightarrow> None))"

definition byte_band :: "parsed_field \<Rightarrow> string \<Rightarrow> string option" where
  "byte_band f var =
     (case (pf_byte_length (field_of f), pf_byte_min (field_of f), pf_byte_max (field_of f)) of
        (Some n, _, _) \<Rightarrow> Some (var @ ''.len() == '' @ dec n)
      | (None, Some lo, Some hi) \<Rightarrow>
          Some (''('' @ dec lo @ ''..='' @ dec hi @ '').contains(&'' @ var @ ''.len())'')
      | (None, Some lo, None) \<Rightarrow> Some (var @ ''.len() >= '' @ dec lo)
      | (None, None, Some hi) \<Rightarrow> Some (var @ ''.len() <= '' @ dec hi)
      | (None, None, None) \<Rightarrow> None)"

definition rust_base_type :: "parsed_field \<Rightarrow> string" where
  "rust_base_type f =
     (let t = method_field_type (method_of f)
      in if t = IntegerT then integer_width f
         else if t = BytesT then ''Vec<u8>''
         else if is_jid t then ''Jid''
         else ''String'')"

definition optional_type :: "string \<Rightarrow> string" where
  "optional_type base =
     (if base = ''u64'' then ''Option<u64>''
      else if base = ''i64'' then ''Option<i64>''
      else if base = ''Vec<u8>'' then ''Option<Vec<u8>>''
      else if base = ''Jid'' then ''Option<Jid>''
      else ''Option<String>'')"

definition rust_field_type :: "parsed_field \<Rightarrow> string" where
  "rust_field_type f =
     (if type_of_field f = BoolT then ''bool''
      else if is_optional_method (method_of f) \<or> \<not> required f
           then optional_type (rust_base_type f) else rust_base_type f)"

definition is_child_field :: "parsed_field \<Rightarrow> bool" where
  "is_child_field f \<longleftrightarrow> is_child_method (method_of f)"

definition is_attr_field :: "parsed_field \<Rightarrow> bool" where
  "is_attr_field f \<longleftrightarrow>
     is_attr_method (method_of f) \<or> is_content_method (method_of f) \<or> method_of f = ''hasAttr''"

definition child_content_type :: "parsed_field \<Rightarrow> content_type option" where
  "child_content_type f =
     (let kids = opt_list (children f); decodes_to = (\<lambda>c. method_field_type (method_of c))
      in if method_of f \<noteq> ''child'' \<and> method_of f \<noteq> ''maybeChild'' then None
         else if kids = [] \<or> \<not> list_all (\<lambda>c. is_content_method (method_of c)) kids then None
         else Some (if list_ex (\<lambda>c. decodes_to c = BytesT) kids then BytesC
                    else if list_all (\<lambda>c. decodes_to c = IntegerT) kids then IntegerC
                    else StringC))"

definition repeats :: "parsed_field \<Rightarrow> bool" where
  "repeats f \<longleftrightarrow> pf_repeats (field_of f) = Some True"

text \<open>Flattening same-node wrappers.\<close>

definition weakened_method :: "string \<Rightarrow> string" where
  "weakened_method m =
     (if m = ''attrString'' then ''maybeAttrString''
      else if m = ''attrInt'' then ''maybeAttrInt''
      else if m = ''attrEnum'' then ''maybeAttrEnum''
      else m)"

definition weaken_attr_to_optional :: "field_data \<Rightarrow> field_data" where
  "weaken_attr_to_optional d =
     d\<lparr>pf_parser_required := False, pf_method := weakened_method (pf_method d)\<rparr>"

fun flatten_field :: "bool \<Rightarrow> parsed_field \<Rightarrow> parsed_field list" where
  "flatten_field force_optional (ParsedField d c u) =
     (if pf_same_node d
      then concat (map (flatten_field (force_optional \<or> \<not> pf_parser_required d)) (opt_list c))
      else [ParsedField (if force_optional then weaken_attr_to_optional d else d)
              (map_option (\<lambda>kids. concat (map (flatten_field force_optional) kids)) c) u])"

definition flatten_same_node :: "parsed_field list \<Rightarrow> parsed_field list" where
  "flatten_same_node fs = concat (map (flatten_field False) fs)"

section \<open>Integer bands\<close>

text \<open>Which values a test admits, and which a width represents.\<close>

fun band_holds :: "band_test option \<Rightarrow> int \<Rightarrow> bool" where
  "band_holds None v = True"
| "band_holds (Some Never) v = False"
| "band_holds (Some (Between lo hi)) v = (lo \<le> v \<and> v \<le> hi)"
| "band_holds (Some (AtLeast lo)) v = (lo \<le> v)"
| "band_holds (Some (AtMost hi)) v = (v \<le> hi)"

definition representable :: "int \<Rightarrow> string \<Rightarrow> bool" where
  "representable v w \<longleftrightarrow>
     (if w = ''i64'' then - (2 ^ 63) \<le> v \<and> v < 2 ^ 63 else 0 \<le> v \<and> v < 2 ^ 64)"

definition in_declared_band :: "parsed_field \<Rightarrow> int \<Rightarrow> bool" where
  "in_declared_band f v \<longleftrightarrow>
     (case pf_int_min (field_of f) of Some lo \<Rightarrow> lo \<le> v | None \<Rightarrow> True)
     \<and> (case pf_int_max (field_of f) of Some hi \<Rightarrow> v \<le> hi | None \<Rightarrow> True)"

lemma unsigned_value: "representable v (integer_width f) \<Longrightarrow> \<not> admits_negative f \<Longrightarrow> 0 \<le> v"
  by (simp add: representable_def integer_width_def)

text \<open>
  C33: the range test of an integer field is exact at the width the field is emitted at: a decoded
  value passes it if and only if it lies in the range the parser declares.  Dropped bounds are
  those no value of the width fails, and a band no value passes is refused for every value.
\<close>

theorem int_band_exact:
  assumes "method_field_type (method_of f) = IntegerT" "representable v (integer_width f)"
  shows "band_holds (int_band_test f) v \<longleftrightarrow> in_declared_band f v"
proof (cases "admits_negative f")
  case True
  then show ?thesis using assms
    by (auto simp: int_band_test_def contradictory_band_def in_declared_band_def Let_def
        split: option.splits)
next
  case False
  with unsigned_value [OF assms(2)] have "0 \<le> v" .
  with False assms(1) show ?thesis
    by (auto simp: int_band_test_def contradictory_band_def in_declared_band_def Let_def
        split: option.splits)
qed

text \<open>
  The width follows the declared range: with a range declared on an integer accessor other than
  the byte fold \<open>contentUint\<close>, every 64-bit value the parser accepts is representable at the width
  chosen, and the width is signed only if some negative value is in range or the range is empty.
\<close>

theorem integer_width_sufficient:
  assumes "method_field_type (method_of f) = IntegerT" "method_of f \<noteq> ''contentUint''"
    and "pf_int_min (field_of f) \<noteq> None \<or> pf_int_max (field_of f) \<noteq> None"
    and "in_declared_band f v" "- (2 ^ 63) \<le> v" "v < 2 ^ 63"
  shows "representable v (integer_width f)
    \<and> (integer_width f = ''i64'' \<longleftrightarrow> (case pf_int_min (field_of f) of Some lo \<Rightarrow> lo < 0 | None \<Rightarrow> True))"
  using assms by (auto simp: representable_def integer_width_def admits_negative_def
      in_declared_band_def split: option.splits)


text \<open>\<open>samplingWeight\<close> of the \<open>iq\<close> configs: at least -10000, so a signed field.\<close>

definition sampling_weight :: parsed_field where
  "sampling_weight = ParsedField (default_field\<lparr>pf_method := ''attrIntRange'',
     pf_name := ''samplingWeight'', pf_field_type := IntegerT, pf_parser_required := True,
     pf_int_min := Some (- 10000), pf_int_max := Some 10000\<rparr>) None None"

lemma sampling_weight_simps [simp]:
  "method_of sampling_weight = ''attrIntRange''" "pf_int_min (field_of sampling_weight) = Some (- 10000)"
  "pf_int_max (field_of sampling_weight) = Some 10000"
  "method_field_type ''attrIntRange'' = IntegerT"
  by (simp_all add: sampling_weight_def) code_simp

lemma sampling_weight_width: "integer_width sampling_weight = ''i64''"
  by (simp add: integer_width_def admits_negative_def)

theorem int_band_exact_witness:
  "band_holds (int_band_test sampling_weight) (- 500)
   \<and> \<not> band_holds (int_band_test sampling_weight) (- 10001)"
  using int_band_exact [of sampling_weight "- 500"] int_band_exact [of sampling_weight "- 10001"]
  by (simp add: sampling_weight_width representable_def in_declared_band_def)

theorem integer_width_sufficient_witness:
  "representable (- 500) (integer_width sampling_weight)"
  using integer_width_sufficient [of sampling_weight "- 500"] sampling_weight_width
  by (simp add: in_declared_band_def)

section \<open>Flattening\<close>

text \<open>
  The reads of a tree: for each field that is not a same-node wrapper, in order, the fields whose
  nodes it is read under, its name, where it reads from, the type it decodes to, and whether its absence fails the parse.
\<close>

type_synonym field_read =
  "string list \<times> string \<times> string option \<times> parsed_field_type \<times> bool"

fun reads :: "bool \<Rightarrow> string list \<Rightarrow> parsed_field \<Rightarrow> field_read list" where
  "reads lenient path (ParsedField d c u) =
     (if pf_same_node d
      then concat (map (reads (lenient \<or> \<not> pf_parser_required d) path) (opt_list c))
      else (path, pf_name d, pf_wire_name d, method_field_type (pf_method d),
              pf_parser_required d \<and> \<not> lenient)
           # concat (map (reads lenient (path @ [pf_name d])) (opt_list c)))"

lemma weakened_method_type: "method_field_type (weakened_method m) = method_field_type m"
proof -
  have "method_field_type ''maybeAttrString'' = method_field_type ''attrString''"
    "method_field_type ''maybeAttrInt'' = method_field_type ''attrInt''"
    "method_field_type ''maybeAttrEnum'' = method_field_type ''attrEnum''" by code_simp+
  then show ?thesis by (simp add: weakened_method_def)
qed

lemma weakened_method_idem: "weakened_method (weakened_method m) = weakened_method m"
  by (simp add: weakened_method_def)

lemma weaken_simps [simp]:
  "pf_same_node (weaken_attr_to_optional d) = pf_same_node d"
  "pf_name (weaken_attr_to_optional d) = pf_name d"
  "pf_wire_name (weaken_attr_to_optional d) = pf_wire_name d"
  "pf_parser_required (weaken_attr_to_optional d) = False"
  "method_field_type (pf_method (weaken_attr_to_optional d)) = method_field_type (pf_method d)"
  by (simp_all add: weaken_attr_to_optional_def weakened_method_type)


lemma reads_flatten:
  "concat (map (reads False path) (flatten_field lenient f)) = reads lenient path f"
proof (induction f arbitrary: lenient path rule: child_tree.induct)
  case (1 d c u)
  show ?case
  proof (cases c)
    case None
    then show ?thesis by simp
  next
    case (Some kids)
    have IH: "concat (map (reads False p) (concat (map (flatten_field l) kids)))
        = concat (map (reads l p) kids)" for l p
    proof -
      have "concat (map (reads False p) (flatten_field l k)) = reads l p k" if "k \<in> set kids" for k
        using "1.IH" [of k] that Some by simp
      then show ?thesis by (induction kids) auto
    qed
    from Some show ?thesis by (simp add: IH)
  qed
qed

lemma flatten_no_wrapper:
  "g \<in> set (concat (map child_tree (flatten_field lenient f))) \<Longrightarrow> \<not> pf_same_node (field_of g)"
proof (induction f arbitrary: lenient rule: child_tree.induct)
  case (1 d c u)
  then show ?case by (cases c) (auto split: if_splits)
qed

lemma flatten_id:
  "\<forall>g \<in> set (child_tree f). \<not> pf_same_node (field_of g) \<Longrightarrow> flatten_field False f = [f]"
proof (induction f rule: child_tree.induct)
  case (1 d c u)
  show ?case
  proof (cases c)
    case (Some kids)
    have "flatten_field False k = [k]" if "k \<in> set kids" for k
      using 1 that Some by fastforce
    then have "concat (map (flatten_field False) kids) = kids" by (induction kids) auto
    with Some "1.prems" show ?thesis by simp
  qed (use "1.prems" in simp)
qed

text \<open>
  C34: flattening is faithful: no wrapper read off its parent node is left at any depth of the
  children, the reads are the same, of the same nodes, in the same order and of the same types, a
  read stays required exactly when no optional wrapper encloses it, and flattening again changes
  nothing.
\<close>

theorem flatten_same_node_faithful:
  "concat (map (reads False []) (flatten_same_node fs)) = concat (map (reads False []) fs)
   \<and> filter (\<lambda>g. pf_same_node (field_of g)) (concat (map child_tree (flatten_same_node fs))) = []
   \<and> flatten_same_node (flatten_same_node fs) = flatten_same_node fs"
proof (intro conjI)
  show "concat (map (reads False []) (flatten_same_node fs)) = concat (map (reads False []) fs)"
    by (induction fs) (simp_all add: flatten_same_node_def reads_flatten)
  have no: "\<not> pf_same_node (field_of g)" if "x \<in> set (flatten_same_node fs)" "g \<in> set (child_tree x)" for g x
    using that flatten_no_wrapper [of g False] by (fastforce simp: flatten_same_node_def)
  then show "filter (\<lambda>g. pf_same_node (field_of g)) (concat (map child_tree (flatten_same_node fs))) = []"
    by (auto simp: filter_empty_conv)
  have "flatten_field False x = [x]" if "x \<in> set (flatten_same_node fs)" for x
    using no [OF that] by (intro flatten_id) blast
  then have "concat (map (flatten_field False) (flatten_same_node fs)) = flatten_same_node fs"
    by (induction "flatten_same_node fs" rule: list.induct) (simp_all add: concat_map_singleton map_idI cong: map_cong)
  then show "flatten_same_node (flatten_same_node fs) = flatten_same_node fs"
    by (subst flatten_same_node_def)
qed

end
