(* ===== verification/Naming.thy ===== *)
theory Naming
  imports FreshNames
begin

text \<open>
  Identifier casing and keyword escaping of generated code, \<open>crates/wa-codegen/src/naming.rs\<close>.  The
  three regular expressions with captures match a fixed number of characters, so \<open>replace_all\<close> is a
  left-to-right scan that skips what it matched; \<open>[^a-zA-Z0-9]\<close> matches one character, whatever its
  bytes, and \<open>_+\<close> a maximal run.  After those two only ASCII is left, on which \<open>to_lowercase\<close>, \<open>trim\<close>
  and \<open>\s\<close> need no Unicode tables.
\<close>

definition RUST_KEYWORDS :: "string list" where
  "RUST_KEYWORDS =
     [''as'', ''break'', ''const'', ''continue'', ''crate'', ''else'', ''enum'', ''extern'', ''false'',
      ''fn'', ''for'', ''if'', ''impl'', ''in'', ''let'', ''loop'', ''match'', ''mod'', ''move'',
      ''mut'', ''pub'', ''ref'', ''return'', ''self'', ''Self'', ''static'', ''struct'', ''super'',
      ''trait'', ''true'', ''type'', ''unsafe'', ''use'', ''where'', ''while'', ''async'', ''await'',
      ''dyn'', ''abstract'', ''become'', ''box'', ''do'', ''final'', ''macro'', ''override'', ''priv'',
      ''typeof'', ''unsized'', ''virtual'', ''yield'']"

definition RAW_INELIGIBLE :: "string list" where
  "RAW_INELIGIBLE = [''self'', ''Self'', ''crate'', ''super'']"

definition ident_base :: "string \<Rightarrow> string" where
  "ident_base s =
     (case s of [] \<Rightarrow> ''_'' | c # _ \<Rightarrow> if is_ascii_digit c then CHR ''_'' # s else s)"

definition ensure_ident :: "string \<Rightarrow> string" where
  "ensure_ident s =
     (let base = ident_base s
      in if base \<in> set RAW_INELIGIBLE then base @ ''_''
         else if base \<in> set RUST_KEYWORDS then ''r#'' @ base
         else base)"

text \<open>\<open>([a-z0-9])([A-Z])\<close> replaced by \<open>${1}d${2}\<close>.\<close>

fun camel_boundary :: "char \<Rightarrow> string \<Rightarrow> string" where
  "camel_boundary d (a # b # s) =
     (if (is_ascii_lowercase a \<or> is_ascii_digit a) \<and> is_ascii_uppercase b
      then a # d # b # camel_boundary d s
      else a # camel_boundary d (b # s))"
| "camel_boundary d s = s"

text \<open>\<open>([A-Z])([A-Z][a-z])\<close> replaced by \<open>${1}d${2}\<close>.\<close>

fun acronym_boundary :: "char \<Rightarrow> string \<Rightarrow> string" where
  "acronym_boundary d (a # b # c # s) =
     (if is_ascii_uppercase a \<and> is_ascii_uppercase b \<and> is_ascii_lowercase c
      then a # d # b # c # acronym_boundary d s
      else a # acronym_boundary d (b # c # s))"
| "acronym_boundary d s = s"

text \<open>\<open>[^a-zA-Z0-9]\<close> replaced by one character.\<close>

definition non_alnum :: "char \<Rightarrow> string \<Rightarrow> string" where
  "non_alnum d s =
     concat (map (\<lambda>u. if length u = 1 \<and> is_ascii_alphanumeric (hd u) then u else [d]) (utf8_chars s))"

text \<open>\<open>_+\<close> replaced by one underscore.\<close>

fun underscores :: "string \<Rightarrow> string" where
  "underscores (a # b # s) =
     (if a = CHR ''_'' \<and> b = CHR ''_'' then underscores (b # s) else a # underscores (b # s))"
| "underscores s = s"

definition trim_matches :: "char \<Rightarrow> string \<Rightarrow> string" where
  "trim_matches d s = rev (dropWhile ((=) d) (rev (dropWhile ((=) d) s)))"

definition snake_case :: "string \<Rightarrow> string" where
  "snake_case s =
     to_ascii_lowercase (trim_matches CHR ''_''
       (underscores (non_alnum CHR ''_'' (acronym_boundary CHR ''_'' (camel_boundary CHR ''_'' s)))))"

definition rust_ident :: "string \<Rightarrow> string" where
  "rust_ident s = ensure_ident (snake_case s)"

definition ascii_upper :: "char \<Rightarrow> char" where
  "ascii_upper c = (case map_of (zip lower_letters upper_letters) c of None \<Rightarrow> c | Some l \<Rightarrow> l)"

definition capitalize :: "string \<Rightarrow> string" where
  "capitalize w = (case w of [] \<Rightarrow> [] | c # s \<Rightarrow> ascii_upper c # s)"

definition pascal_case :: "string \<Rightarrow> string" where
  "pascal_case s =
     (let s = non_alnum CHR '' '' (acronym_boundary CHR '' '' (camel_boundary CHR '' '' s))
      in ensure_ident (concat (map capitalize (split_on ((=) CHR '' '') s))))"

text \<open>\<open>unique_ident\<close>: the name, and the set of used names with it.\<close>

definition unique_ident :: "string \<Rightarrow> string list \<Rightarrow> string \<Rightarrow> (string \<times> string list) option" where
  "unique_ident base used fallback_prefix =
     (let name = (if base = [] then ensure_ident fallback_prefix else ensure_ident base)
      in if name \<in> set used
         then (case first_free (\<lambda>n. name @ ''_'' @ dec n) used 2 of
                 None \<Rightarrow> None
               | Some n \<Rightarrow> Some (name @ ''_'' @ dec n, (name @ ''_'' @ dec n) # used))
         else Some (name, name # used))"


section \<open>Keyword escaping\<close>

definition ident_char :: "char \<Rightarrow> bool" where
  "ident_char c \<longleftrightarrow> is_ascii_alphanumeric c \<or> c = CHR ''_''"

definition plain_ident :: "string \<Rightarrow> bool" where
  "plain_ident t \<longleftrightarrow> t \<noteq> [] \<and> \<not> is_ascii_digit (hd t) \<and> list_all ident_char t"

text \<open>
  The words Rust reserves in edition 2024, the edition of the workspace, strict and reserved ones alike,
  and those no raw identifier may spell (The Rust Reference, Keywords and Identifiers).
\<close>

definition reserved_words :: "string list" where
  "reserved_words =
     [''as'', ''async'', ''await'', ''break'', ''const'', ''continue'', ''crate'', ''dyn'', ''else'', ''enum'', ''extern'',
      ''false'', ''fn'', ''for'', ''if'', ''impl'', ''in'', ''let'', ''loop'', ''match'', ''mod'', ''move'', ''mut'', ''pub'',
      ''ref'', ''return'', ''self'', ''Self'', ''static'', ''struct'', ''super'', ''trait'', ''true'', ''type'', ''unsafe'',
      ''use'', ''where'', ''while'',
      ''abstract'', ''become'', ''box'', ''do'', ''final'', ''gen'', ''macro'', ''override'', ''priv'', ''try'', ''typeof'',
      ''unsized'', ''virtual'', ''yield'']"

definition never_raw :: "string list" where
  "never_raw = [''crate'', ''self'', ''super'', ''Self'']"

definition usable_ident :: "string \<Rightarrow> bool" where
  \<comment> \<open>a plain identifier that is not reserved and not the pattern \<open>_\<close>, or a reserved word that may be
     written raw\<close>
  "usable_ident t \<longleftrightarrow>
     (plain_ident t \<and> t \<notin> set reserved_words \<and> t \<noteq> ''_'')
     \<or> (starts_with t ''r#'' \<and> drop 2 t \<in> set reserved_words \<and> drop 2 t \<notin> set never_raw)"

text \<open>The reserved words the table of the code lacks.\<close>

definition unlisted_words :: "string list" where
  "unlisted_words = [''try'', ''gen'']"

lemma reserved_iff: "t \<in> set reserved_words \<longleftrightarrow> t \<in> set RUST_KEYWORDS \<or> t \<in> set unlisted_words"
proof -
  have "list_all (\<lambda>k. k \<in> set RUST_KEYWORDS \<or> k \<in> set unlisted_words) reserved_words"
    "list_all (\<lambda>k. k \<in> set reserved_words) (RUST_KEYWORDS @ unlisted_words)" by code_simp+
  then show ?thesis by (auto simp only: list_all_iff set_append)
qed

lemma never_raw_iff: "t \<in> set never_raw \<longleftrightarrow> t \<in> set RAW_INELIGIBLE"
proof -
  have "list_all (\<lambda>k. k \<in> set RAW_INELIGIBLE) never_raw" "list_all (\<lambda>k. k \<in> set never_raw) RAW_INELIGIBLE" by code_simp+
  then show ?thesis by (auto simp only: list_all_iff)
qed

lemma unlisted_facts:
  "\<forall>k \<in> set unlisted_words. plain_ident k \<and> k \<noteq> ''_'' \<and> \<not> starts_with k ''r#'' \<and> k \<notin> set RUST_KEYWORDS
     \<and> k \<notin> set RAW_INELIGIBLE"
  by code_simp

lemma underscore_ident_char: "ident_char CHR ''_''" "\<not> is_ascii_digit CHR ''_''"
  by code_simp+

lemma plain_ident_base: "list_all ident_char s \<Longrightarrow> plain_ident (ident_base s)"
  by (cases s) (auto simp: plain_ident_def ident_base_def underscore_ident_char)

lemma raw_ineligible_suffixed:
  "\<forall>k \<in> set RAW_INELIGIBLE. plain_ident (k @ ''_'') \<and> k @ ''_'' \<noteq> ''_'' \<and> k @ ''_'' \<notin> set RUST_KEYWORDS \<and> k @ ''_'' \<notin> set unlisted_words
     \<and> k @ ''_'' \<notin> set RAW_INELIGIBLE \<and> ident_base (k @ ''_'') = k @ ''_''"
  by code_simp

lemma raw_keywords:
  "\<forall>k \<in> set RUST_KEYWORDS. ''r#'' @ k \<notin> set RUST_KEYWORDS \<and> ''r#'' @ k \<notin> set RAW_INELIGIBLE
     \<and> ident_base (''r#'' @ k) = ''r#'' @ k \<and> drop 2 (''r#'' @ k) = k \<and> starts_with (''r#'' @ k) ''r#''"
  by code_simp

lemma raw_ineligible_keywords: "set RAW_INELIGIBLE \<subseteq> set RUST_KEYWORDS"
proof -
  have "\<forall>k \<in> set RAW_INELIGIBLE. k \<in> set RUST_KEYWORDS" by code_simp
  then show ?thesis by blast
qed

lemma ident_base_idem [simp]: "ident_base (ident_base s) = ident_base s"
  by (cases s) (auto simp: ident_base_def underscore_ident_char split: list.split)

lemma ensure_ident_fix:
  "ident_base t = t \<Longrightarrow> t \<notin> set RUST_KEYWORDS \<Longrightarrow> ensure_ident t = t"
  using raw_ineligible_keywords by (auto simp: ensure_ident_def Let_def)

lemma ensure_ident_cases:
  obtains (suffixed) "ident_base s \<in> set RAW_INELIGIBLE" "ensure_ident s = ident_base s @ ''_''"
  | (raw) "ident_base s \<in> set RUST_KEYWORDS" "ident_base s \<notin> set RAW_INELIGIBLE"
      "ensure_ident s = ''r#'' @ ident_base s"
  | (plain) "ident_base s \<notin> set RUST_KEYWORDS" "ensure_ident s = ident_base s"
  using that by (cases "ident_base s \<in> set RAW_INELIGIBLE"; cases "ident_base s \<in> set RUST_KEYWORDS")
    (use raw_ineligible_keywords in \<open>simp_all add: ensure_ident_def Let_def subset_iff\<close>)

lemma keyword_words: "\<forall>k \<in> set RUST_KEYWORDS. k \<noteq> ''_'' \<and> k \<notin> set unlisted_words"
  by code_simp

lemma ensure_ident_usable:
  assumes "list_all ident_char s"
  shows "usable_ident (ensure_ident s) \<longleftrightarrow> ident_base s \<noteq> ''_'' \<and> ident_base s \<notin> set unlisted_words"
proof (cases s rule: ensure_ident_cases)
  case suffixed
  then have "usable_ident (ensure_ident s)" using raw_ineligible_suffixed by (simp add: usable_ident_def reserved_iff)
  moreover have "ident_base s \<in> set RUST_KEYWORDS" using suffixed(1) raw_ineligible_keywords by blast
  ultimately show ?thesis using keyword_words by blast
next
  case raw
  then have "usable_ident (ensure_ident s)" using raw_keywords by (simp add: usable_ident_def reserved_iff never_raw_iff)
  then show ?thesis using raw(1) keyword_words by blast
next
  case plain
  have p: "plain_ident (ident_base s)" by (rule plain_ident_base [OF assms])
  have "\<not> starts_with t ''r#''" if "plain_ident t" for t
  proof
    assume "starts_with t ''r#''"
    then have "take (Suc (Suc 0)) t = ''r#''" by (simp add: starts_with_def)
    then have "CHR ''#'' \<in> set (take (Suc (Suc 0)) t)" by simp
    then have "CHR ''#'' \<in> set t" by (rule in_set_takeD)
    moreover have "\<not> ident_char CHR ''#''" by code_simp
    ultimately show False using that by (auto simp: plain_ident_def list_all_iff)
  qed
  then show ?thesis using p plain by (auto simp: usable_ident_def reserved_iff)
qed

lemma ident_base_underscore: "ident_base s = ''_'' \<longleftrightarrow> s = [] \<or> s = ''_''"
  by (cases s) (auto simp: ident_base_def underscore_ident_char)

lemma ensure_ident_underscore: "ident_base s = ''_'' \<Longrightarrow> ensure_ident s = ''_''"
proof -
  assume b: "ident_base s = ''_''"
  have "''_'' \<notin> set RAW_INELIGIBLE" "''_'' \<notin> set RUST_KEYWORDS" by code_simp+
  with b show ?thesis by (simp only: ensure_ident_def Let_def if_False)
qed

lemma ensure_ident_idem: "ensure_ident (ensure_ident s) = ensure_ident s"
proof (cases s rule: ensure_ident_cases)
  case suffixed
  then show ?thesis using raw_ineligible_suffixed ensure_ident_fix by metis
next
  case raw
  then show ?thesis using raw_keywords ensure_ident_fix by metis
next
  case plain
  then show ?thesis using ensure_ident_fix [of "ident_base s"] by simp
qed

section \<open>Snake case\<close>

definition snake_char :: "char \<Rightarrow> bool" where
  "snake_char c \<longleftrightarrow> is_ascii_lowercase c \<or> is_ascii_digit c \<or> c = CHR ''_''"

fun no_double :: "char \<Rightarrow> string \<Rightarrow> bool" where
  "no_double d (a # b # s) = (\<not> (a = d \<and> b = d) \<and> no_double d (b # s))"
| "no_double d s = True"

definition snake_shape :: "string \<Rightarrow> bool" where
  \<comment> \<open>lower case words and numbers separated by single underscores\<close>
  "snake_shape t \<longleftrightarrow> list_all snake_char t \<and> no_double CHR ''_'' t
     \<and> (t \<noteq> [] \<longrightarrow> hd t \<noteq> CHR ''_'' \<and> last t \<noteq> CHR ''_'')"

lemma non_alnum_chars: "c \<in> set (non_alnum d s) \<Longrightarrow> is_ascii_alphanumeric c \<or> c = d"
proof -
  assume "c \<in> set (non_alnum d s)"
  then obtain u where u: "c \<in> set (if length u = 1 \<and> is_ascii_alphanumeric (hd u) then u else [d])"
    unfolding non_alnum_def set_concat set_map by blast
  show ?thesis
  proof (cases "length u = 1 \<and> is_ascii_alphanumeric (hd u)")
    case True
    then obtain x where "u = [x]" by (auto simp: length_Suc_conv)
    with u True show ?thesis by auto
  qed (use u in auto)
qed

lemma underscores_set: "set (underscores s) \<subseteq> set s"
  by (induction s rule: underscores.induct) auto

lemma underscores_hd: "underscores s = [] \<longleftrightarrow> s = []" "s \<noteq> [] \<Longrightarrow> hd (underscores s) = hd s"
  by (induction s rule: underscores.induct) auto

lemma underscores_no_double: "no_double CHR ''_'' (underscores s)"
proof (induction s rule: underscores.induct)
  case (1 a b s)
  show ?case
  proof (cases "a = CHR ''_'' \<and> b = CHR ''_''")
    case False
    obtain c t where ct: "underscores (b # s) = c # t"
      using underscores_hd(1) [of "b # s"] by (cases "underscores (b # s)") auto
    then have "c = b" using underscores_hd(2) [of "b # s"] by simp
    with ct False 1 show ?thesis by (auto simp del: underscores.simps(2,3))
  qed (use 1 in simp)
qed auto

lemma no_double_drop: "no_double d s \<Longrightarrow> no_double d (drop n s)"
  by (induction s arbitrary: n rule: no_double.induct) (auto simp: drop_Cons split: nat.split)

lemma no_double_iff: "no_double d s \<longleftrightarrow> (\<forall>p t. s \<noteq> p @ d # d # t)"
proof (induction s rule: no_double.induct)
  case (1 d a b s)
  then show ?case by (auto simp: Cons_eq_append_conv)
qed (auto simp: Cons_eq_append_conv)

lemma no_double_sub: "no_double d (p @ s @ q) \<Longrightarrow> no_double d s"
  unfolding no_double_iff by (metis append.assoc append_Cons)

lemma trim_matches_part: "\<exists>p q. s = p @ trim_matches d s @ q"
proof -
  let ?u = "dropWhile ((=) d) s"
  have "?u = rev (dropWhile ((=) d) (rev ?u)) @ rev (takeWhile ((=) d) (rev ?u))"
    by (metis rev_append rev_rev_ident takeWhile_dropWhile_id)
  moreover have "s = takeWhile ((=) d) s @ ?u" by simp
  ultimately show ?thesis unfolding trim_matches_def by (metis append.assoc)
qed

lemma trim_matches_ends:
  assumes "trim_matches d s \<noteq> []"
  shows "hd (trim_matches d s) \<noteq> d" and "last (trim_matches d s) \<noteq> d"
proof -
  let ?u = "dropWhile ((=) d) s"
  let ?v = "dropWhile ((=) d) (rev ?u)"
  have v: "?v \<noteq> []" using assms by (simp add: trim_matches_def)
  then have "hd ?v \<noteq> d" using hd_dropWhile [of "(=) d" "rev ?u"] by metis
  then show "last (trim_matches d s) \<noteq> d" using v by (simp add: trim_matches_def last_rev)
  have "last ?v = last (rev ?u)" using v by (metis append_is_Nil_conv last_append takeWhile_dropWhile_id)
  moreover have "?u \<noteq> []" using v by (metis dropWhile.simps(1) rev.simps(1))
  moreover from this have "hd ?u \<noteq> d" using hd_dropWhile [of "(=) d" s] by metis
  ultimately show "hd (trim_matches d s) \<noteq> d" using v by (simp add: trim_matches_def hd_rev last_rev)
qed

lemma trim_matches_id: "s = [] \<or> hd s \<noteq> d \<and> last s \<noteq> d \<Longrightarrow> trim_matches d s = s"
proof (cases "s = []")
  case False
  assume "s = [] \<or> hd s \<noteq> d \<and> last s \<noteq> d"
  with False have "dropWhile ((=) d) s = s" "dropWhile ((=) d) (rev s) = rev s"
    by (auto simp: dropWhile_eq_self_iff hd_rev)
  then show ?thesis by (simp add: trim_matches_def)
qed (simp add: trim_matches_def)


lemma lower_underscore: "ascii_lower c = CHR ''_'' \<longleftrightarrow> c = CHR ''_''"
proof (cases "is_ascii_uppercase c")
  case True
  have "\<not> is_ascii_lowercase CHR ''_''" "\<not> is_ascii_uppercase CHR ''_''" by code_simp+
  with True ascii_lower_upper [OF True] show ?thesis by metis
qed (simp add: ascii_lower_not_upper)

lemma lower_snake_char: "ident_char c \<Longrightarrow> snake_char (ascii_lower c)"
  using ascii_lower_upper ascii_lower_not_upper
  by (cases "is_ascii_uppercase c") (auto simp: ident_char_def snake_char_def is_ascii_alphanumeric_def)

lemma no_double_lower: "no_double CHR ''_'' s \<Longrightarrow> no_double CHR ''_'' (map ascii_lower s)"
  by (induction "CHR ''_''" s rule: no_double.induct) (auto simp: lower_underscore)

lemma snake_case_shape: "snake_shape (snake_case s)"
proof -
  let ?n = "non_alnum CHR ''_'' (acronym_boundary CHR ''_'' (camel_boundary CHR ''_'' s))"
  let ?t = "trim_matches CHR ''_'' (underscores ?n)"
  obtain p q where part: "underscores ?n = p @ ?t @ q" using trim_matches_part by blast
  then have "set ?t \<subseteq> set ?n" using underscores_set [of ?n] by (metis Un_subset_iff set_append)
  then have "list_all ident_char ?t"
    using non_alnum_chars [of _ "CHR ''_''"] by (auto simp: list_all_iff ident_char_def)
  then have "list_all snake_char (map ascii_lower ?t)"
    by (simp add: list_all_iff lower_snake_char)
  moreover have "no_double CHR ''_'' (map ascii_lower ?t)"
    using no_double_lower no_double_sub underscores_no_double part by metis
  moreover have "hd (map ascii_lower ?t) \<noteq> CHR ''_'' \<and> last (map ascii_lower ?t) \<noteq> CHR ''_''"
    if "map ascii_lower ?t \<noteq> []"
    using that trim_matches_ends [of "CHR ''_''" "underscores ?n"]
    by (simp add: hd_map last_map lower_underscore)
  ultimately show ?thesis
    unfolding snake_shape_def snake_case_def to_ascii_lowercase_def by blast
qed

text \<open>Each pass leaves a name in snake case as it is.\<close>

lemma snake_char_facts:
  assumes "snake_char c"
  shows "\<not> is_ascii_uppercase c" and "ident_char c" and "is_ascii c"
proof -
  have "\<forall>c \<in> set (lower_letters @ digit_chars @ ''_''). \<not> is_ascii_uppercase c \<and> ident_char c \<and> is_ascii c"
    by code_simp
  moreover have "c \<in> set (lower_letters @ digit_chars @ ''_'')"
    using assms by (auto simp: snake_char_def is_ascii_lowercase_def is_ascii_digit_def)
  ultimately show "\<not> is_ascii_uppercase c" "ident_char c" "is_ascii c" by blast+
qed

lemma camel_boundary_id: "list_all snake_char s \<Longrightarrow> camel_boundary d s = s"
  by (induction d s rule: camel_boundary.induct) (auto dest: snake_char_facts(1))

lemma acronym_boundary_id: "list_all snake_char s \<Longrightarrow> acronym_boundary d s = s"
  by (induction d s rule: acronym_boundary.induct) (auto dest: snake_char_facts(1))

lemma non_alnum_id:
  assumes "list_all snake_char s" shows "non_alnum CHR ''_'' s = s"
proof -
  have "utf8_chars s = map (\<lambda>c. [c]) s"
    using assms by (intro utf8_chars_ascii) (auto simp: list_all_iff dest: snake_char_facts(3))
  moreover have "(if is_ascii_alphanumeric c then [c] else ''_'') = [c]" if "c \<in> set s" for c
    using assms that snake_char_facts(2) [of c] by (auto simp: list_all_iff ident_char_def)
  then have "concat (map (\<lambda>c. if is_ascii_alphanumeric c then [c] else ''_'') s) = s"
    by (induction s) auto
  ultimately show ?thesis by (simp add: non_alnum_def comp_def)
qed

lemma underscores_id: "no_double CHR ''_'' s \<Longrightarrow> underscores s = s"
  by (induction s rule: underscores.induct) auto

lemma lower_id: "list_all snake_char s \<Longrightarrow> to_ascii_lowercase s = s"
  by (induction s) (auto simp: to_ascii_lowercase_def ascii_lower_not_upper dest: snake_char_facts(1))

lemma snake_shape_fixed: "snake_shape t \<Longrightarrow> snake_case t = t"
  using trim_matches_id [of t "CHR ''_''"]
  by (auto simp: snake_case_def snake_shape_def camel_boundary_id acronym_boundary_id non_alnum_id
      underscores_id lower_id)

section \<open>Pascal case\<close>

lemma upper_chars: "is_ascii_alphanumeric c \<Longrightarrow> ident_char (ascii_upper c)"
proof -
  have "\<forall>c \<in> set (lower_letters @ upper_letters @ digit_chars). ident_char (ascii_upper c)" by code_simp
  then show "is_ascii_alphanumeric c \<Longrightarrow> ?thesis"
    by (auto simp: is_ascii_alphanumeric_def is_ascii_lowercase_def is_ascii_uppercase_def is_ascii_digit_def)
qed

lemma split_on_chars: "\<forall>w \<in> set (split_on P s). \<forall>c \<in> set w. c \<in> set s \<and> \<not> P c"
proof (induction s)
  case (Cons a s)
  then show ?case by (cases "split_on P s") auto
qed simp

lemma upper_not_lower: "is_ascii_alphanumeric c \<Longrightarrow> \<not> is_ascii_lowercase (ascii_upper c)"
proof -
  have "\<forall>c \<in> set (lower_letters @ upper_letters @ digit_chars). \<not> is_ascii_lowercase (ascii_upper c)" by code_simp
  then show "is_ascii_alphanumeric c \<Longrightarrow> ?thesis"
    by (auto simp: is_ascii_alphanumeric_def is_ascii_lowercase_def is_ascii_uppercase_def is_ascii_digit_def)
qed

lemma unlisted_lower: "\<forall>k \<in> set unlisted_words. is_ascii_lowercase (hd k)"
  by code_simp

lemma pascal_case_usable: "usable_ident (pascal_case s) \<or> pascal_case s = ''_''"
proof -
  define n where "n = non_alnum CHR '' '' (acronym_boundary CHR '' '' (camel_boundary CHR '' '' s))"
  define t where "t = concat (map capitalize (split_on ((=) CHR '' '') n))"
  have alnum: "is_ascii_alphanumeric c" if "w \<in> set (split_on ((=) CHR '' '') n)" "c \<in> set w" for w c
    using split_on_chars [of "(=) CHR '' ''" n] that non_alnum_chars [of c "CHR '' ''"] unfolding n_def by blast
  then have "list_all ident_char (capitalize w)" if "w \<in> set (split_on ((=) CHR '' '') n)" for w
    using that upper_chars by (cases w) (auto simp: capitalize_def list_all_iff ident_char_def)
  then have chars: "list_all ident_char t" by (auto simp: t_def list_all_iff)
  have "\<not> is_ascii_lowercase (hd (concat (map capitalize ws)))"
    if "\<And>w c. w \<in> set ws \<Longrightarrow> c \<in> set w \<Longrightarrow> is_ascii_alphanumeric c" "concat (map capitalize ws) \<noteq> []" for ws
    using that
  proof (induction ws)
    case (Cons w ws)
    show ?case
    proof (cases w)
      case Nil
      then show ?thesis using Cons by (auto simp: capitalize_def)
    next
      case (Cons c r)
      then show ?thesis using Cons.prems(1) [of w c] upper_not_lower by (simp add: capitalize_def)
    qed
  qed simp
  from this [of "split_on ((=) CHR '' '') n"] have "t \<noteq> [] \<Longrightarrow> \<not> is_ascii_lowercase (hd t)" using alnum by (simp add: t_def)
  moreover have "\<not> is_ascii_lowercase CHR ''_''" by code_simp
  ultimately have "\<not> is_ascii_lowercase (hd (ident_base t))" by (cases t) (simp_all add: ident_base_def)
  then have "ident_base t \<notin> set unlisted_words" using unlisted_lower by blast
  moreover have "pascal_case s = ensure_ident t" by (simp add: pascal_case_def Let_def n_def t_def)
  ultimately show ?thesis using ensure_ident_usable [OF chars] ensure_ident_underscore by auto
qed


text \<open>Two reserved words come out bare: a field or parameter of that name does not compile.\<close>

lemma unlisted_bare:
  "rust_ident ''Try'' = ''try'' \<and> rust_ident ''gen'' = ''gen'' \<and> \<not> usable_ident ''try'' \<and> \<not> usable_ident ''gen''"
  by code_simp

text \<open>A name of separators only, as \<open>pascal_case\<close> renders it.\<close>

lemma pascal_case_separators: "pascal_case ''--'' = ''_'' \<and> pascal_case [] = ''_''"
  by code_simp

section \<open>Unique identifiers\<close>

interpretation suffixed: name_supply "\<lambda>n. name @ ''_'' @ dec n" for name
  by unfold_locales simp

definition alloc_ident :: "string \<times> string \<Rightarrow> string list \<Rightarrow> string option" where
  "alloc_ident r used = map_option fst (unique_ident (fst r) used (snd r))"

lemma unique_ident_fresh:
  "\<exists>n. unique_ident base used pre = Some (n, n # used) \<and> n \<notin> set used
     \<and> (ensure_ident (if base = [] then pre else base) \<in> set used
        \<or> n = ensure_ident (if base = [] then pre else base))"
proof -
  define name where "name = ensure_ident (if base = [] then pre else base)"
  have u: "unique_ident base used pre =
     (if name \<in> set used
      then (case first_free (\<lambda>n. name @ ''_'' @ dec n) used 2 of
              None \<Rightarrow> None
            | Some n \<Rightarrow> Some (name @ ''_'' @ dec n, (name @ ''_'' @ dec n) # used))
      else Some (name, name # used))"
    by (cases "base = []")
      (simp_all only: unique_ident_def name_def Let_def if_True if_False simp_thms)
  show ?thesis unfolding name_def [symmetric]
  proof (cases "name \<in> set used")
    case True
    obtain m where "first_free (\<lambda>n. name @ ''_'' @ dec n) used 2 = Some m"
      "name @ ''_'' @ dec m \<notin> set used"
      using suffixed.first_free_ends [of 2 name used] by blast
    with True u show "\<exists>n. unique_ident base used pre = Some (n, n # used) \<and> n \<notin> set used
       \<and> (name \<in> set used \<or> n = name)" by auto
  qed (use u in simp)
qed

interpretation idents: name_allocator alloc_ident
proof unfold_locales
  fix r used
  show "\<exists>n. alloc_ident r used = Some n \<and> n \<notin> set used"
    using unique_ident_fresh [of "fst r" used "snd r"] by (auto simp: alloc_ident_def)
qed

text \<open>
  \<open>unique_ident\<close> always returns, and a catalogue that names its items one after the other gets
  one name per item, all distinct and none used before; an item whose escaped name is still free
  keeps it.
\<close>

theorem unique_idents_distinct:
  "(\<exists>ns. alloc_run alloc_ident items used = Some ns \<and> length ns = length items \<and> distinct ns
      \<and> set ns \<inter> set used = {})
   \<and> (\<exists>n. unique_ident base used pre = Some (n, n # used) \<and> n \<notin> set used
      \<and> (ensure_ident (if base = [] then pre else base) \<in> set used
         \<or> n = ensure_ident (if base = [] then pre else base)))"
  using idents.alloc_run_distinct unique_ident_fresh by metis

end
