(* ===== verification/ResponseNode.thy ===== *)
theory ResponseNode
  imports FieldTypes Naming
begin

text \<open>
  What the reads of a parsed field ask of a stanza node, as the parsers that
  \<open>crates/wa-codegen/src/emit.rs\<close> writes do on absence: a required read fails where it is missing, an
  optional child is skipped where it is absent and read in full where it is there, a repeated child is
  read item by item, an element of which nothing is read is passed over, and a payload union never fails.
  Fields are read once each; what a duplicate of a field name would add is left out.  The gates of \<open>spec.rs\<close> and \<open>union.rs\<close> that order
  alternatives compare sets of read keys; this theory gives the nodes those keys speak of, so that
  "an earlier alternative shadows a later one" is a statement about nodes.  Whether a value that is there
  decodes is not part of it.
\<close>

section \<open>Nodes\<close>

datatype rnode = RNode (rn_tag: string) (rn_attrs: "string \<Rightarrow> string option") (rn_body: rbody)
and rbody = No_body | Payload "string option" | Kids "rnode list"

text \<open>A payload is text (\<open>Some\<close>) or bytes that are none.\<close>

definition kids_of :: "rnode \<Rightarrow> rnode list" where
  "kids_of n = (case rn_body n of Kids ks \<Rightarrow> ks | _ \<Rightarrow> [])"

definition first_kid :: "rnode \<Rightarrow> string \<Rightarrow> rnode option" where
  "first_kid n t = find (\<lambda>k. rn_tag k = t) (kids_of n)"

fun node_at :: "rnode \<Rightarrow> string list \<Rightarrow> rnode option" where
  "node_at n [] = Some n"
| "node_at n (t # p) = (case first_kid n t of None \<Rightarrow> None | Some m \<Rightarrow> node_at m p)"

datatype read_kind = An_attr string | A_child string | The_content

type_synonym read_key = "string list \<times> read_kind"

fun has_read :: "rnode \<Rightarrow> read_kind \<Rightarrow> bool" where
  "has_read n (An_attr a) = (rn_attrs n a \<noteq> None)"
| "has_read n (A_child t) = (first_kid n t \<noteq> None)"
| "has_read n The_content = (case rn_body n of Payload _ \<Rightarrow> True | _ \<Rightarrow> False)"

definition has_at :: "rnode \<Rightarrow> read_key \<Rightarrow> bool" where
  "has_at n k = (case node_at n (fst k) of None \<Rightarrow> False | Some m \<Rightarrow> has_read m (snd k))"

definition items_at :: "rnode \<Rightarrow> string list \<Rightarrow> string \<Rightarrow> rnode list" where
  "items_at n p t = (case node_at n p of None \<Rightarrow> [] | Some m \<Rightarrow> [k \<leftarrow> kids_of m. rn_tag k = t])"

section \<open>What a field reads\<close>

definition reads_child :: "field_data \<Rightarrow> bool" where
  "reads_child d \<longleftrightarrow> is_child_method (pf_method d)"

text \<open>
  Whether the parser that is written reads anything for the field: an element nothing is read of, like a
  bare marker, is passed over, required or not.
\<close>

fun emitted :: "parsed_field \<Rightarrow> bool" where
  "emitted (ParsedField d c u) \<longleftrightarrow>
     pf_field_type d = UnionT \<or> is_attr_method (pf_method d) \<or> is_content_method (pf_method d)
     \<or> reads_child d \<and> pf_content_type d \<noteq> None \<or> list_ex emitted (opt_list c)"

definition attr_demand :: "string \<Rightarrow> bool" where
  "attr_demand m \<longleftrightarrow> is_attr_method m \<and> \<not> is_optional_method m"

text \<open>The reads of the field itself that fail on absence, at the node its path leads to.\<close>

definition own_demands :: "parsed_field \<Rightarrow> read_kind list" where
  "own_demands f =
     (if \<not> required f then []
      else (if is_content_method (method_of f) then [The_content] else []) @
           (if method_of f = ''child'' then (if repeats f \<or> \<not> emitted f then [] else [A_child (tag_or_name f)])
            else if attr_demand (method_of f) then [An_attr (wire_or_name f)] else []))"

fun carries :: "rnode \<Rightarrow> string list \<Rightarrow> parsed_field \<Rightarrow> bool" where
  "carries n base (ParsedField d c u) =
     (let f = ParsedField d c u; path = base @ opt_list (pf_source_path d); tag = tag_or_name f
      in pf_field_type d = UnionT
         \<or> list_all (\<lambda>r. has_at n (path, r)) (own_demands f)
           \<and> (if reads_child d
              then (if repeats f then list_all (\<lambda>m. list_all (carries m []) (opt_list c)) (items_at n path tag)
                    else has_at n (path, A_child tag) \<longrightarrow> list_all (carries n (path @ [tag])) (opt_list c))
              else pf_parser_required d \<longrightarrow> list_all (carries n path) (opt_list c)))"

text \<open>The reads without which no node is accepted, wherever in the tree they stand.\<close>

fun demands :: "string list \<Rightarrow> parsed_field \<Rightarrow> read_key list" where
  "demands base (ParsedField d c u) =
     (let f = ParsedField d c u; path = base @ opt_list (pf_source_path d)
      in if pf_field_type d = UnionT \<or> \<not> pf_parser_required d then []
         else map (Pair path) (own_demands f) @
              (if repeats f \<or> reads_child d \<and> pf_method d \<noteq> ''child'' then []
               else concat (map (demands (if reads_child d then path @ [tag_or_name f] else path)) (opt_list c))))"

lemma own_emitted: "r \<in> set (own_demands f) \<Longrightarrow> emitted f"
  by (cases f) (auto simp: own_demands_def attr_demand_def split: if_splits)

lemma demands_emitted: "k \<in> set (demands base f) \<Longrightarrow> emitted f"
proof (induction base f arbitrary: k rule: demands.induct)
  case (1 base d c u)
  from "1.prems" consider r where "r \<in> set (own_demands (ParsedField d c u))"
    | kid where "pf_field_type d \<noteq> UnionT" "pf_parser_required d" "\<not> (repeats (ParsedField d c u) \<or> reads_child d \<and> pf_method d \<noteq> ''child'')"
        "kid \<in> set (opt_list c)"
        "k \<in> set (demands (if reads_child d then (base @ opt_list (pf_source_path d)) @ [tag_or_name (ParsedField d c u)]
           else base @ opt_list (pf_source_path d)) kid)"
    by (auto simp: Let_def split: if_splits)
  then show ?case
  proof cases
    case 1
    then show ?thesis by (rule own_emitted)
  next
    case (2 kid)
    from "1.IH" [OF refl refl _ 2(3) 2(4), of k] 2 have "emitted kid" by simp
    with 2(4) show ?thesis by (auto simp: list_ex_iff)
  qed
qed

lemma demanded:
  "carries n base f \<Longrightarrow> k \<in> set (demands base f) \<Longrightarrow> has_at n k"
proof (induction base f arbitrary: n k rule: demands.induct)
  case (1 base d c u)
  let ?f = "ParsedField d c u" and ?path = "base @ opt_list (pf_source_path d)"
  have req: "pf_field_type d \<noteq> UnionT" "pf_parser_required d" using "1.prems"(2) by (auto simp: Let_def split: if_splits)
  have own: "has_at n (?path, r)" if "r \<in> set (own_demands ?f)" for r
    using "1.prems"(1) req that by (simp add: Let_def list_all_iff)
  consider r where "k = (?path, r)" "r \<in> set (own_demands ?f)"
    | kid where "\<not> (repeats ?f \<or> reads_child d \<and> pf_method d \<noteq> ''child'')" "kid \<in> set (opt_list c)"
        "k \<in> set (demands (if reads_child d then ?path @ [tag_or_name ?f] else ?path) kid)"
    using "1.prems"(2) req by (auto simp: Let_def split: if_splits)
  then show ?case
  proof cases
    case 1
    then show ?thesis using own by simp
  next
    case (2 kid)
    have "carries n (if reads_child d then ?path @ [tag_or_name ?f] else ?path) kid"
    proof (cases "reads_child d")
      case True
      then have "\<not> repeats ?f" "pf_method d = ''child''" using 2(1) by auto
      moreover have "emitted ?f" using demands_emitted [OF 2(3)] 2(2) by (auto simp: list_ex_iff)
      ultimately have "A_child (tag_or_name ?f) \<in> set (own_demands ?f)"
        using req by (simp add: own_demands_def del: emitted.simps)
      from own [OF this] show ?thesis
        using "1.prems"(1) req True \<open>\<not> repeats ?f\<close> 2(2) by (simp add: Let_def list_all_iff)
    next
      case False
      then show ?thesis using "1.prems"(1) req 2(2) by (simp add: Let_def list_all_iff)
    qed
    then show ?thesis
      using "1.IH" [OF refl refl _ _ 2(2)] req 2(1,3) by (simp split: if_splits)
  qed
qed

section \<open>Losing one read\<close>

text \<open>The node without one attribute, without the children of one tag, or without its payload.\<close>

fun lose_here :: "read_kind \<Rightarrow> rnode \<Rightarrow> rnode" where
  "lose_here (An_attr a) (RNode t as b) = RNode t (as(a := None)) b"
| "lose_here (A_child c) (RNode t as b) =
     RNode t as (case b of Kids ks \<Rightarrow> Kids [k \<leftarrow> ks. rn_tag k \<noteq> c] | _ \<Rightarrow> b)"
| "lose_here The_content (RNode t as b) = RNode t as (case b of Payload _ \<Rightarrow> No_body | _ \<Rightarrow> b)"

definition in_kids :: "string \<Rightarrow> (rnode \<Rightarrow> rnode) \<Rightarrow> rnode \<Rightarrow> rnode" where
  "in_kids c g n =
     RNode (rn_tag n) (rn_attrs n)
       (case rn_body n of Kids ks \<Rightarrow> Kids (map (\<lambda>k. if rn_tag k = c then g k else k) ks) | b \<Rightarrow> b)"

primrec lose_at :: "string list \<Rightarrow> read_kind \<Rightarrow> rnode \<Rightarrow> rnode" where
  "lose_at [] r = lose_here r"
| "lose_at (c # p) r = in_kids c (lose_at p r)"

definition lose :: "read_key \<Rightarrow> rnode \<Rightarrow> rnode" where
  "lose k = lose_at (fst k) (snd k)"

definition below :: "string list \<Rightarrow> string list \<Rightarrow> bool" where
  "below p q \<longleftrightarrow> take (length p) q = p"

text \<open>The reads that go with a lost one: itself, and what stands under the children lost.\<close>

definition touches :: "read_key \<Rightarrow> read_key \<Rightarrow> bool" where
  "touches k k' \<longleftrightarrow> k' = k \<or> (case snd k of A_child t \<Rightarrow> below (fst k @ [t]) (fst k') | _ \<Rightarrow> False)"

lemma below_simps [simp]: "below [] q" "\<not> below (c # p) []" "below (c # p) (d # q) \<longleftrightarrow> c = d \<and> below p q"
  by (auto simp: below_def)

lemma lose_here_sel [simp]:
  "rn_tag (lose_here r n) = rn_tag n" "rn_tag (in_kids c g n) = rn_tag n" "rn_attrs (in_kids c g n) = rn_attrs n"
  by (cases r; cases n; simp) (simp_all add: in_kids_def)

lemma lose_at_tag [simp]: "rn_tag (lose_at p r n) = rn_tag n"
  by (cases p) simp_all

lemma kids_lose_here:
  "kids_of (lose_here r n) = (case r of A_child c \<Rightarrow> [k \<leftarrow> kids_of n. rn_tag k \<noteq> c] | _ \<Rightarrow> kids_of n)"
  by (cases r; cases n) (auto simp: kids_of_def split: rbody.split)

lemma kids_in_kids: "kids_of (in_kids c g n) = map (\<lambda>k. if rn_tag k = c then g k else k) (kids_of n)"
  by (auto simp: kids_of_def in_kids_def split: rbody.split)

lemma find_filter: "find P (filter Q xs) = find (\<lambda>x. P x \<and> Q x) xs"
  by (induction xs) auto

lemma find_map_same: "(\<And>x. P (g x) = P x) \<Longrightarrow> find P (map g xs) = map_option g (find P xs)"
  by (induction xs) auto

lemma find_never: "find (\<lambda>x. False) xs = None"
  by (induction xs) auto

lemma first_kid_lose_here:
  "first_kid (lose_here r n) t = (if r = A_child t then None else first_kid n t)"
proof (cases r)
  case (A_child c)
  have "find (\<lambda>x. rn_tag x = t \<and> rn_tag x \<noteq> c) (kids_of n) = (if c = t then None else find (\<lambda>x. rn_tag x = t) (kids_of n))"
  proof (cases "c = t")
    case True
    have "(\<lambda>x. rn_tag x = t \<and> rn_tag x \<noteq> c) = (\<lambda>x. False)" using True by auto
    then show ?thesis using True by (simp add: find_never)
  next
    case False
    have "(\<lambda>x. rn_tag x = t \<and> rn_tag x \<noteq> c) = (\<lambda>x. rn_tag x = t)" using False by auto
    then show ?thesis using False by simp
  qed
  then show ?thesis by (simp add: first_kid_def kids_lose_here A_child find_filter)
qed (simp_all add: first_kid_def kids_lose_here)

lemma first_kid_in_kids:
  assumes "\<And>m. rn_tag (g m) = rn_tag m"
  shows "first_kid (in_kids c g n) t = map_option (\<lambda>k. if t = c then g k else k) (first_kid n t)"
proof -
  have "first_kid (in_kids c g n) t = map_option (\<lambda>k. if rn_tag k = c then g k else k) (first_kid n t)"
    unfolding first_kid_def kids_in_kids by (rule find_map_same) (simp add: assms)
  moreover have "rn_tag k = t" if "first_kid n t = Some k" for k
    using that by (auto simp: first_kid_def find_Some_iff)
  ultimately show ?thesis by (cases "first_kid n t") auto
qed

lemma has_lose_here: "has_read (lose_here r n) s \<longleftrightarrow> has_read n s \<and> s \<noteq> r"
proof (cases s)
  case (An_attr a)
  then show ?thesis by (cases r; cases n) (auto split: rbody.split)
next
  case (A_child t)
  then show ?thesis by (simp add: first_kid_lose_here)
next
  case The_content
  then show ?thesis by (cases r; cases n) (auto split: rbody.split)
qed

lemma has_in_kids:
  "(\<And>m. rn_tag (g m) = rn_tag m) \<Longrightarrow> has_read (in_kids c g n) s = has_read n s"
proof (cases s)
  case The_content
  then show ?thesis by (simp add: in_kids_def split: rbody.split)
qed (simp_all add: first_kid_in_kids)

lemma has_at_Cons:
  "has_at n (t # p, r) = (case first_kid n t of None \<Rightarrow> False | Some m \<Rightarrow> has_at m (p, r))"
  by (simp add: has_at_def split: option.split)

lemma has_at_Nil [simp]: "has_at n ([], r) = has_read n r"
  by (simp add: has_at_def)

lemma has_at_lose_at:
  "has_at (lose_at p r n) (q, s) \<longleftrightarrow> has_at n (q, s) \<and> \<not> touches (p, r) (q, s)"
proof (induction p arbitrary: n q)
  case Nil
  show ?case
  proof (cases q)
    case Nil
    then show ?thesis by (auto simp: has_lose_here touches_def split: read_kind.split)
  next
    case (Cons t q')
    then show ?thesis
      by (cases r) (auto simp: has_at_Cons first_kid_lose_here touches_def split: option.split)
  qed
next
  case (Cons c p)
  show ?case
  proof (cases q)
    case Nil
    then show ?thesis by (auto simp: has_in_kids touches_def split: read_kind.split)
  next
    case (Cons t q')
    have "touches (c # p, r) (t # q', s) \<longleftrightarrow> c = t \<and> touches (p, r) (q', s)"
      by (auto simp: touches_def split: read_kind.split)
    then show ?thesis
      using Cons.IH by (auto simp: Cons has_at_Cons first_kid_in_kids split: option.split)
  qed
qed

lemma has_at_lose: "has_at (lose k n) k' \<longleftrightarrow> has_at n k' \<and> \<not> touches k k'"
  using has_at_lose_at [of "fst k" "snd k" n "fst k'" "snd k'"] by (simp add: lose_def)

lemma lose_attrs: "rn_attrs (lose k n) a = (if k = ([], An_attr a) then None else rn_attrs n a)"
proof -
  obtain p r where k: "k = (p, r)" by fastforce
  show ?thesis by (cases p; cases r; cases n) (simp_all add: k lose_def)
qed

lemma items_Cons: "items_at n (c # p) t = (case first_kid n c of None \<Rightarrow> [] | Some m \<Rightarrow> items_at m p t)"
  by (simp add: items_at_def split: option.split)

lemma items_lose_at:
  "\<not> below (q @ [t]) p \<Longrightarrow> items_at (lose_at p r n) q t = items_at n q t \<or> items_at (lose_at p r n) q t = []"
proof (induction p arbitrary: n q)
  case Nil
  show ?case
  proof (cases q)
    case Nil
    then show ?thesis by (cases r) (auto simp: items_at_def kids_lose_here filter_empty_conv intro!: filter_cong)
  next
    case (Cons c q')
    then show ?thesis by (auto simp: items_Cons first_kid_lose_here split: option.split)
  qed
next
  case (Cons c p)
  show ?case
  proof (cases q)
    case Nil
    then have "t \<noteq> c" using Cons.prems by auto
    then have "[k \<leftarrow> map (\<lambda>k. if rn_tag k = c then lose_at p r k else k) ks. rn_tag k = t] = [k \<leftarrow> ks. rn_tag k = t]" for ks
      by (induction ks) auto
    then show ?thesis using Nil by (simp add: items_at_def kids_in_kids)
  next
    case (Cons d q')
    show ?thesis
    proof (cases "d = c")
      case True
      then have "\<not> below (q' @ [t]) p" using Cons.prems Cons by simp
      from Cons.IH [OF this] show ?thesis using True Cons by (auto simp: items_Cons first_kid_in_kids split: option.split)
    next
      case False
      then show ?thesis using Cons by (auto simp: items_Cons first_kid_in_kids split: option.split)
    qed
  qed
qed

text \<open>A field that is read as well without a certain read.\<close>

fun indifferent :: "read_key \<Rightarrow> string list \<Rightarrow> parsed_field \<Rightarrow> bool" where
  "indifferent k base (ParsedField d c u) =
     (let f = ParsedField d c u; path = base @ opt_list (pf_source_path d); tag = tag_or_name f
      in pf_field_type d = UnionT
         \<or> list_all (\<lambda>r. \<not> touches k (path, r)) (own_demands f)
           \<and> (if reads_child d
              then (if repeats f then \<not> below (path @ [tag]) (fst k)
                    else touches k (path, A_child tag) \<or> list_all (indifferent k (path @ [tag])) (opt_list c))
              else pf_parser_required d \<longrightarrow> list_all (indifferent k path) (opt_list c)))"

lemma carries_lose:
  "carries n base f \<Longrightarrow> indifferent k base f \<Longrightarrow> carries (lose k n) base f"
proof (induction k base f rule: indifferent.induct)
  case (1 k base d c u)
  let ?f = "ParsedField d c u" and ?path = "base @ opt_list (pf_source_path d)"
  show ?case
  proof (cases "pf_field_type d = UnionT")
    case False
    note c = "1.prems"(1) [unfolded carries.simps Let_def] and i = "1.prems"(2) [unfolded indifferent.simps Let_def]
    have own: "list_all (\<lambda>r. has_at (lose k n) (?path, r)) (own_demands ?f)"
      using c i False by (simp add: list_all_iff has_at_lose)
    have IH: "list_all (carries (lose k n) p) (opt_list c)"
      if "list_all (carries n p) (opt_list c)" "list_all (indifferent k p) (opt_list c)"
        "(reads_child d \<and> \<not> repeats ?f \<and> p = ?path @ [tag_or_name ?f]) \<or> (\<not> reads_child d \<and> pf_parser_required d \<and> p = ?path)" for p
      using that "1.IH" by (auto simp: list_all_iff)
    consider "reads_child d" "repeats ?f" | "reads_child d" "\<not> repeats ?f" | "\<not> reads_child d" by blast
    then show ?thesis
    proof cases
      case 1
      then have "\<not> below (?path @ [tag_or_name ?f]) (fst k)" using i False by simp
      from items_lose_at [OF this, of "snd k" n] show ?thesis
        using 1 own c False by (auto simp: lose_def Let_def)
    next
      case 2
      then show ?thesis using own c i False IH [of "?path @ [tag_or_name ?f]"] by (auto simp: Let_def has_at_lose)
    next
      case 3
      then show ?thesis using own c i False IH [of ?path] by (auto simp: Let_def)
    qed
  qed simp
qed

lemma lost: "\<not> has_at (lose k n) k"
  by (simp add: has_at_lose touches_def)

section \<open>Fields a gate counts rightly\<close>

text \<open>
  The gates count a required \<open>child\<close> and a required accessor whose spelling begins with \<open>attr\<close>, repeated ones
  apart.  A field is plain when what is counted of it fails on absence: the child is one the parser
  reads, the accessor reads an attribute of the node and not of the request, and no required read is
  written inside a payload union, a repeated child, or a child whose accessor tolerates its absence.  It is
  counted when what fails on absence is counted: no \<open>literal\<close> attribute, no repeated one.
\<close>

definition plain_here :: "parsed_field \<Rightarrow> bool" where
  "plain_here f \<longleftrightarrow>
     (method_of f = ''child'' \<longrightarrow> repeats f \<or> emitted f)
     \<and> (starts_with (method_of f) ''attr'' \<longrightarrow> repeats f \<or> is_attr_method (method_of f))"

definition counted_here :: "parsed_field \<Rightarrow> bool" where
  "counted_here f \<longleftrightarrow>
     (required f \<and> attr_demand (method_of f) \<longrightarrow> starts_with (method_of f) ''attr'' \<and> \<not> repeats f)"

fun plain_field :: "parsed_field \<Rightarrow> bool" where
  "plain_field (ParsedField d c u) =
     (let f = ParsedField d c u
      in pf_parser_required d \<longrightarrow> plain_here f \<and>
         (if pf_field_type d = UnionT then own_demands f = [] \<and> opt_list c = []
          else if repeats f \<or> reads_child d \<and> pf_method d \<noteq> ''child'' then list_all (\<lambda>k. \<not> required k) (opt_list c)
          else list_all plain_field (opt_list c)))"

definition counted_field :: "parsed_field \<Rightarrow> bool" where
  "counted_field f \<longleftrightarrow> list_all counted_here (child_tree f)"

lemma counted_unfold: "counted_field (ParsedField d c u) \<longleftrightarrow> counted_here (ParsedField d c u) \<and> list_all counted_field (opt_list c)"
  by (auto simp: counted_field_def [abs_def] list_all_iff)

lemma attr_never_optional: "starts_with m ''attr'' \<Longrightarrow> \<not> is_optional_method m"
  by (cases m) (auto simp: starts_with_def is_optional_method_def)

lemma child_no_attr [simp]: "\<not> attr_demand ''child''" "\<not> starts_with ''child'' ''attr''"
  by code_simp+

lemma child_methods_read: "pf_method d = ''child'' \<or> pf_method d = ''maybeChild'' \<Longrightarrow> reads_child d"
  by (auto simp: reads_child_def is_child_method_def child_methods_def)

definition kid_base :: "string list \<Rightarrow> parsed_field \<Rightarrow> string list" where
  "kid_base path f = (if method_of f = ''child'' \<or> method_of f = ''maybeChild'' then path @ [tag_or_name f] else path)"

lemma demands_set:
  "set (demands base (ParsedField d c u)) =
     (if pf_field_type d = UnionT \<or> \<not> pf_parser_required d then {}
      else Pair (base @ opt_list (pf_source_path d)) ` set (own_demands (ParsedField d c u))
        \<union> (if repeats (ParsedField d c u) \<or> reads_child d \<and> pf_method d \<noteq> ''child'' then {}
           else \<Union>k \<in> set (opt_list c). set (demands (kid_base (base @ opt_list (pf_source_path d)) (ParsedField d c u)) k)))"
proof -
  have r: "reads_child d \<longleftrightarrow> pf_method d = ''child'' \<or> pf_method d = ''maybeChild''"
    if "\<not> (repeats (ParsedField d c u) \<or> reads_child d \<and> pf_method d \<noteq> ''child'')"
    using that child_methods_read [of d] by blast
  show ?thesis
    by (cases "repeats (ParsedField d c u) \<or> reads_child d \<and> pf_method d \<noteq> ''child''")
      (use r in \<open>simp_all only: demands.simps Let_def kid_base_def parsed_field.sel if_True if_False set_append set_map set_concat
         Un_empty_right if_distrib [where f = set] list.set append_Nil2 image_image cong: if_cong\<close>)
qed

text \<open>How the sets of keys of a field and of its children compare.\<close>

lemma layers_below: "(if P then {} else A \<union> (if Q then {} else B)) \<subseteq> A \<union> B"
  by simp

lemma layers_counted: "S \<subseteq> A \<union> B \<Longrightarrow> f ` A \<subseteq> W \<Longrightarrow> f ` B \<subseteq> V \<Longrightarrow> f ` S \<subseteq> W \<union> V"
  by blast

lemma layers_plain: "W \<subseteq> f ` A \<union> U \<Longrightarrow> U \<subseteq> (\<Union>k \<in> K. f ` g k) \<Longrightarrow> D = A \<union> (\<Union>k \<in> K. g k) \<Longrightarrow> W \<subseteq> f ` D"
  by (simp add: image_Un image_UN) blast

section \<open>Another value of an attribute\<close>

text \<open>A node whose reads are all kept when an attribute of it is given a value.\<close>

definition put_attr :: "string \<Rightarrow> string \<Rightarrow> rnode \<Rightarrow> rnode" where
  "put_attr a w n = RNode (rn_tag n) ((rn_attrs n)(a \<mapsto> w)) (rn_body n)"

lemma put_attr_sel [simp]:
  "rn_attrs (put_attr a w n) = (rn_attrs n)(a \<mapsto> w)" "kids_of (put_attr a w n) = kids_of n" "rn_body (put_attr a w n) = rn_body n"
  "first_kid (put_attr a w n) t = first_kid n t"
  by (simp_all add: put_attr_def kids_of_def first_kid_def)

lemma has_at_put:
  "has_at n k \<Longrightarrow> has_at (put_attr a w n) k" "has_at (put_attr a w n) (p, A_child t) = has_at n (p, A_child t)"
proof -
  assume "has_at n k"
  then show "has_at (put_attr a w n) k"
    by (cases k; cases "fst k"; cases "snd k") (auto simp: has_at_def split: option.splits)
next
  show "has_at (put_attr a w n) (p, A_child t) = has_at n (p, A_child t)"
    by (cases p) (simp_all add: has_at_def)
qed

lemma items_put: "items_at (put_attr a w n) p t = items_at n p t"
  by (cases p) (simp_all add: items_at_def)

lemma carries_put: "carries n base f \<Longrightarrow> carries (put_attr a w n) base f"
proof (induction f arbitrary: base rule: child_tree.induct)
  case (1 d c u)
  let ?f = "ParsedField d c u" and ?path = "base @ opt_list (pf_source_path d)"
  show ?case
  proof (cases "pf_field_type d = UnionT")
    case False
    note c = "1.prems" [unfolded carries.simps Let_def]
    have own: "list_all (\<lambda>r. has_at (put_attr a w n) (?path, r)) (own_demands ?f)"
      using c False has_at_put(1) by (auto simp: list_all_iff)
    have IH: "list_all (carries n p) (opt_list c) \<Longrightarrow> list_all (carries (put_attr a w n) p) (opt_list c)" for p
      unfolding list_all_iff using "1.IH" by blast
    show ?thesis
      using own c False IH by (auto simp: Let_def items_put has_at_put(2))
  qed simp
qed

end
