(* ===== verification/UnionShape.thy ===== *)
theory UnionShape
  imports ResponseNode
begin

text \<open>
  The classification of a discriminated union, \<open>crates/wa-codegen/src/union.rs\<close>: which of the four
  recoverable shapes the alternatives of a union field have, or none.  Whether the text emitted for
  a variant parses all its fields is decided by \<open>parser_is_valid\<close> of \<open>spec.rs\<close>, which renders and
  searches Rust text; here it is the argument \<open>parser_ok\<close>, and every statement holds whatever it
  answers.  A \<open>BTreeSet<String>\<close> that is only filled and compared for inclusion is a list of strings.
\<close>

record tag_arm =
  ta_variant :: string
  ta_attr_values :: "(string \<times> string) list"
  ta_children :: "string list"
  ta_fields :: "parsed_field list"

record attr_arm =
  aa_variant :: string
  aa_value :: string
  aa_children :: "string list"
  aa_fields :: "parsed_field list"

record content_arm =
  ca_variant :: string
  ca_content :: string

record value_arm =
  va_variant :: string
  va_fields :: "parsed_field list"
  va_assertions :: "response_assertion list"

datatype union_shape =
    ContentShape "string list" "content_arm list" "value_arm option"
  | SameNode "value_arm list"
  | AttrDiscriminated string "attr_arm list"
  | TagDiscriminated "string list" "tag_arm list"

definition enum_name :: "parsed_field \<Rightarrow> string \<Rightarrow> string" where
  "enum_name f prefix = prefix @ pascal_case (pf_name (field_of f))"

definition tag_assert :: "response_assertion list \<Rightarrow> string option" where
  "tag_assert a = Option.bind (find (\<lambda>x. ra_kind x = TagK) a) ra_name"

definition content_assert :: "response_assertion list \<Rightarrow> string option" where
  "content_assert a = Option.bind (find (\<lambda>x. ra_kind x = ContentK) a) ra_value"

text \<open>\<open>str::parse\<close> at a signed integer type of \<open>w\<close> bits: an optional sign, then decimal digits.\<close>

definition parse_signed :: "nat \<Rightarrow> string \<Rightarrow> int option" where
  "parse_signed w s =
     (let neg = (s \<noteq> [] \<and> hd s = CHR ''-''); signed = (s \<noteq> [] \<and> (hd s = CHR ''-'' \<or> hd s = CHR ''+''));
          ds = (if signed then tl s else s);
          n = (if neg then - int (dec_val ds) else int (dec_val ds))
      in if ds = [] \<or> \<not> list_all is_ascii_digit ds then None
         else if - (2 ^ (w - 1)) \<le> n \<and> n < 2 ^ (w - 1) then Some n else None)"

definition is_simple_leaf :: "parsed_field \<Rightarrow> bool" where
  "is_simple_leaf f \<longleftrightarrow>
     type_of_field f \<noteq> UnionT \<and> (case children f of None \<Rightarrow> True | Some c \<Rightarrow> c = [])
     \<and> is_attr_field f \<and> method_of f \<noteq> ''hasAttr''"

definition arm_payload_representable :: "parsed_field list \<Rightarrow> bool" where
  "arm_payload_representable fs \<longleftrightarrow>
     \<not> list_ex (\<lambda>f.
        let content_literal = is_content_method (method_of f) \<and> pf_literal_value (field_of f) \<noteq> None;
            width = integer_width f;
            unreachable_band = contradictory_band f;
            unrepresentable_pin =
              method_field_type (method_of f) = IntegerT
              \<and> (case pf_literal_value (field_of f) of None \<Rightarrow> False
                  | Some l \<Rightarrow> \<not> (case parse_signed 128 l of Some n \<Rightarrow> representable n width | None \<Rightarrow> False))
        in content_literal \<or> pf_reference_path (field_of f) \<noteq> None \<or> unreachable_band
           \<or> unrepresentable_pin) fs"

definition source_descent :: "parsed_field \<Rightarrow> string list" where
  \<comment> \<open>\<open>f.source_path\<close>, when it is there and not empty\<close>
  "source_descent f = opt_list (pf_source_path (field_of f))"

text \<open>Content: variants pinned to the text of one child, at most one fallback.\<close>

definition shared_tag :: "union_variant list \<Rightarrow> string option" where
  "shared_tag variants =
     (case tag_assert (uv_assertions (hd variants)) of
        None \<Rightarrow> None
      | Some tag \<Rightarrow>
          if list_all (\<lambda>v. tag_assert (uv_assertions v) = Some tag) variants then Some tag else None)"

definition content_descend :: "parsed_field \<Rightarrow> union_variant list \<Rightarrow> string list option" where
  "content_descend f variants =
     (if source_descent f \<noteq> [] then Some (source_descent f)
      else map_option (\<lambda>tag. [tag]) (shared_tag variants))"

fun content_loop :: "union_variant list \<Rightarrow> content_arm list \<Rightarrow> value_arm option \<Rightarrow> string list
    \<Rightarrow> (content_arm list \<times> value_arm option) option" where
  "content_loop [] arms fb contents = Some (arms, fb)"
| "content_loop (v # vs) arms fb contents =
     (case content_assert (uv_assertions v) of
        Some c \<Rightarrow>
          if uv_fields v \<noteq> [] then None
          else if c \<in> set contents then None
          else content_loop vs (arms @ [\<lparr>ca_variant = uv_name v, ca_content = c\<rparr>]) fb (c # contents)
      | None \<Rightarrow>
          if fb \<noteq> None \<or> \<not> list_all is_simple_leaf (uv_fields v) then None
          else content_loop vs arms
                 (Some \<lparr>va_variant = uv_name v, va_fields = uv_fields v, va_assertions = uv_assertions v\<rparr>)
                 contents)"

definition classify_content :: "parsed_field \<Rightarrow> union_variant list \<Rightarrow> union_shape option" where
  "classify_content f variants =
     (case content_loop variants [] None [] of
        None \<Rightarrow> None
      | Some (arms, fb) \<Rightarrow>
          if arms = [] then None
          else map_option (\<lambda>descend. ContentShape descend arms fb) (content_descend f variants))"

text \<open>Attribute-discriminated: every variant pins the same attribute, each to a value of its own.\<close>

fun attr_gates :: "response_assertion list \<Rightarrow> (string \<times> string) option \<Rightarrow> string list
    \<Rightarrow> ((string \<times> string) \<times> string list) option" where
  "attr_gates [] pin kids = (case pin of None \<Rightarrow> None | Some p \<Rightarrow> Some (p, kids))"
| "attr_gates (a # as) pin kids =
     (if ra_kind a = AttrK
      then (case (ra_name a, ra_value a) of
              (Some name, Some val) \<Rightarrow>
                if pin \<noteq> None then None else attr_gates as (Some (name, val)) kids
            | _ \<Rightarrow> None)
      else if ra_kind a = ChildK
      then (case ra_name a of None \<Rightarrow> None | Some n \<Rightarrow> attr_gates as pin (kids @ [n]))
      else None)"

fun attr_loop :: "union_variant list \<Rightarrow> string option \<Rightarrow> string list \<Rightarrow> string list \<Rightarrow> attr_arm list
    \<Rightarrow> (string option \<times> attr_arm list) option" where
  "attr_loop [] attr seen normalized arms = Some (attr, arms)"
| "attr_loop (v # vs) attr seen normalized arms =
     (if tag_assert (uv_assertions v) \<noteq> None \<or> content_assert (uv_assertions v) \<noteq> None then None
      else if \<not> list_all is_simple_leaf (uv_fields v) then None
      else if \<not> arm_payload_representable (uv_fields v) then None
      else case attr_gates (uv_assertions v) None [] of
        None \<Rightarrow> None
      | Some ((name, val), kids) \<Rightarrow>
          if attr \<noteq> None \<and> attr \<noteq> Some name then None
          else if val \<in> set seen \<or> pascal_case (uv_name v) \<in> set normalized then None
          else attr_loop vs (Some name) (val # seen) (pascal_case (uv_name v) # normalized)
                 (arms @ [\<lparr>aa_variant = uv_name v, aa_value = val, aa_children = kids,
                           aa_fields = uv_fields v\<rparr>]))"

definition classify_attr_discriminated :: "parsed_field \<Rightarrow> union_variant list \<Rightarrow> union_shape option" where
  "classify_attr_discriminated f variants =
     (if source_descent f \<noteq> [] then None
      else case attr_loop variants None [] [] [] of
        Some (Some attr, arms) \<Rightarrow> Some (AttrDiscriminated attr arms)
      | _ \<Rightarrow> None)"

text \<open>Same-node: arms told apart by the attributes they require.\<close>

definition required_attrs :: "union_variant \<Rightarrow> string list" where
  "required_attrs v =
     map wire_or_name [f \<leftarrow> uv_fields v. required f \<and> starts_with (method_of f) ''attr'']"

definition value_arm_of :: "union_variant \<Rightarrow> value_arm" where
  "value_arm_of v =
     \<lparr>va_variant = uv_name v, va_fields = uv_fields v, va_assertions = uv_assertions v\<rparr>"

definition same_node_arm_ok :: "union_variant \<Rightarrow> bool" where
  "same_node_arm_ok v \<longleftrightarrow>
     list_all (\<lambda>a. ra_name a \<noteq> None \<and> (ra_kind a = AttrK \<or> ra_kind a = ChildK)) (uv_assertions v)
     \<and> uv_fields v \<noteq> [] \<and> list_all is_simple_leaf (uv_fields v)
     \<and> arm_payload_representable (uv_fields v)"

definition classify_same_node :: "parsed_field \<Rightarrow> union_variant list \<Rightarrow> union_shape option" where
  "classify_same_node f variants =
     (if source_descent f \<noteq> [] then None
      else if \<not> list_all same_node_arm_ok variants then None
      else if \<not> sorted_wrt (\<lambda>a b. \<not> set a \<subseteq> set b) (map required_attrs variants) then None
      else Some (SameNode (map value_arm_of variants)))"

text \<open>Tag-discriminated: a cascade of richer payloads read off one node.\<close>

definition slash_path :: "string list \<Rightarrow> string" where
  "slash_path p = join_with ''/'' p"

fun signature_walk :: "string list \<Rightarrow> bool \<Rightarrow> parsed_field \<Rightarrow> string list" where
  "signature_walk base reached (ParsedField d c u) =
     (let f = ParsedField d c u; path = base @ opt_list (pf_source_path d)
      in if pf_field_type d = UnionT
         then (if reached \<and> pf_parser_required d
               then [''NESTED:'' @ slash_path path @ ''/'' @ tag_or_name f] else [])
         else if pf_repeats d = Some True then []
         else
           (if reached \<and> pf_parser_required d
                \<and> (pf_method d = ''child'' \<or> starts_with (pf_method d) ''attr'')
            then [''REQ:'' @ slash_path path @ ''/'' @
                   (if pf_method d = ''child'' then ''child:'' @ tag_or_name f
                    else ''attr:'' @ wire_or_name f)]
            else []) @
           concat (map (signature_walk
               (if pf_method d = ''child'' \<or> pf_method d = ''maybeChild''
                then path @ [tag_or_name f] else path)
               (reached \<and> pf_parser_required d)) (opt_list c)))"

definition assertion_signature :: "response_assertion \<Rightarrow> string list" where
  "assertion_signature a =
     (case (ra_kind a, ra_name a, ra_value a) of
        (AttrK, Some n, Some val) \<Rightarrow> [''ATTRVAL:'' @ n @ ''='' @ val]
      | (ContentK, _, Some val) \<Rightarrow> [''CONTENT:'' @ val]
      | (ChildK, Some n, _) \<Rightarrow> [''CHILD:'' @ n]
      | _ \<Rightarrow> [])"

definition variant_signature :: "union_variant \<Rightarrow> string list" where
  "variant_signature v =
     concat (map assertion_signature (uv_assertions v)) @
     concat (map (signature_walk [] True) (uv_fields v))"

definition variants_conflict :: "union_variant \<Rightarrow> union_variant \<Rightarrow> bool" where
  "variants_conflict a b \<longleftrightarrow>
     list_ex (\<lambda>x. ra_kind x = AttrK \<and> ra_value x \<noteq> None
       \<and> list_ex (\<lambda>y. ra_kind y = AttrK \<and> ra_name y = ra_name x \<and> ra_value y \<noteq> ra_value x)
           (uv_assertions b)) (uv_assertions a)"

definition tag_arm_of :: "union_variant \<Rightarrow> tag_arm" where
  "tag_arm_of v =
     \<lparr>ta_variant = uv_name v,
      ta_attr_values = List.map_filter
        (\<lambda>a. case (ra_name a, ra_value a) of (Some n, Some x) \<Rightarrow> Some (n, x) | _ \<Rightarrow> None)
        [a \<leftarrow> uv_assertions v. ra_kind a = AttrK],
      ta_children = List.map_filter ra_name [a \<leftarrow> uv_assertions v. ra_kind a = ChildK],
      ta_fields = uv_fields v\<rparr>"

definition classify_tag_discriminated ::
    "(parsed_field list \<Rightarrow> bool) \<Rightarrow> parsed_field \<Rightarrow> union_variant list \<Rightarrow> union_shape option" where
  "classify_tag_discriminated parser_ok f variants =
     (if shared_tag variants = None then None
      else if list_ex (\<lambda>v. uv_fields v = []) variants then None
      else if \<not> list_all (\<lambda>v. parser_ok (uv_fields v)) variants then None
      else if \<not> sorted_wrt (\<lambda>a b. \<not> (set (variant_signature a) \<subseteq> set (variant_signature b)
                                     \<and> \<not> variants_conflict a b)) variants then None
      else Some (TagDiscriminated (source_descent f) (map tag_arm_of variants)))"

definition classify_union :: "(parsed_field list \<Rightarrow> bool) \<Rightarrow> parsed_field \<Rightarrow> union_shape option" where
  "classify_union parser_ok f =
     (if type_of_field f \<noteq> UnionT then None
      else case union_variants f of
        None \<Rightarrow> None
      | Some variants \<Rightarrow>
          if length variants < 2 then None
          else case classify_content f variants of
            Some s \<Rightarrow> Some s
          | None \<Rightarrow> (case classify_attr_discriminated f variants of
              Some s \<Rightarrow> Some s
            | None \<Rightarrow> (case classify_same_node f variants of
                Some s \<Rightarrow> Some s
              | None \<Rightarrow> classify_tag_discriminated parser_ok f variants)))"


section \<open>The arms of a classified union\<close>

text \<open>First success over the presence of required attributes, as the same-node cascade reads.\<close>

definition first_arm :: "string list list \<Rightarrow> string set \<Rightarrow> nat option" where
  "first_arm reqs present = find (\<lambda>i. set (reqs ! i) \<subseteq> present) [0..<length reqs]"

lemma find_upt:
  "j < n \<Longrightarrow> P j \<Longrightarrow> (\<And>i. i < j \<Longrightarrow> \<not> P i) \<Longrightarrow> find P [0..<n] = Some j"
  by (auto simp: find_Some_iff intro!: exI [of _ j])

lemma first_arm_reached:
  "sorted_wrt (\<lambda>a b. \<not> set a \<subseteq> set b) reqs \<Longrightarrow> j < length reqs \<Longrightarrow>
   first_arm reqs (set (reqs ! j)) = Some j"
  unfolding first_arm_def by (rule find_upt) (auto simp: sorted_wrt_iff_nth_less)

text \<open>What the loops of the classifiers have gathered when they return.\<close>

definition content_arm_of :: "union_variant \<Rightarrow> content_arm option" where
  "content_arm_of v = map_option (\<lambda>c. \<lparr>ca_variant = uv_name v, ca_content = c\<rparr>) (content_assert (uv_assertions v))"

definition unpinned :: "union_variant \<Rightarrow> bool" where
  "unpinned v \<longleftrightarrow> content_assert (uv_assertions v) = None"

abbreviation opt_arms :: "'a option \<Rightarrow> 'a list" where
  "opt_arms x \<equiv> (case x of None \<Rightarrow> [] | Some y \<Rightarrow> [y])"

lemma content_loop_arms:
  "content_loop vs arms fb contents = Some (arms', fb') \<Longrightarrow>
   distinct (map ca_content arms) \<Longrightarrow> set (map ca_content arms) = set contents \<Longrightarrow>
   arms' = arms @ List.map_filter content_arm_of vs
   \<and> opt_arms fb' = opt_arms fb @ map value_arm_of [v \<leftarrow> vs. unpinned v]
   \<and> list_all (\<lambda>v. unpinned v \<or> uv_fields v = []) vs
   \<and> distinct (map ca_content arms')"
proof (induction vs arms fb contents rule: content_loop.induct)
  case (2 v vs arms fb contents)
  show ?case
  proof (cases "content_assert (uv_assertions v)")
    case None
    then have n: "\<not> (fb \<noteq> None \<or> \<not> list_all is_simple_leaf (uv_fields v))" and
      l: "content_loop vs arms (Some \<lparr>va_variant = uv_name v, va_fields = uv_fields v, va_assertions = uv_assertions v\<rparr>) contents
        = Some (arms', fb')"
      using "2.prems"(1) by (simp_all split: if_splits)
    then have "fb = None" by simp
    note IH = "2.IH"(1) [OF None n l "2.prems"(2,3)]
    have "content_arm_of v = None" "unpinned v" using None by (simp_all add: content_arm_of_def unpinned_def)
    then have e: "List.map_filter content_arm_of (v # vs) = List.map_filter content_arm_of vs"
      "[v \<leftarrow> v # vs. unpinned v] = v # [v \<leftarrow> vs. unpinned v]"
      "list_all (\<lambda>v. unpinned v \<or> uv_fields v = []) (v # vs) = list_all (\<lambda>v. unpinned v \<or> uv_fields v = []) vs"
      by (simp_all add: List.map_filter_simps)
    show ?thesis
      unfolding e list.map \<open>fb = None\<close> using IH [folded value_arm_of_def, unfolded option.case append_Cons append_Nil]
      unfolding option.case append_Nil by blast
  next
    case (Some c)
    then have c: "uv_fields v = []" "c \<notin> set contents"
      "content_loop vs (arms @ [\<lparr>ca_variant = uv_name v, ca_content = c\<rparr>]) fb (c # contents) = Some (arms', fb')"
      using "2.prems"(1) by (auto split: if_splits)
    have IH: "arms' = (arms @ [\<lparr>ca_variant = uv_name v, ca_content = c\<rparr>]) @ List.map_filter content_arm_of vs
        \<and> opt_arms fb' = opt_arms fb @ map value_arm_of [v \<leftarrow> vs. unpinned v]
        \<and> list_all (\<lambda>v. unpinned v \<or> uv_fields v = []) vs \<and> distinct (map ca_content arms')"
      by (rule "2.IH"(2) [OF Some _ c(2,3)]) (use c "2.prems"(2,3) in auto)
    have "content_arm_of v = Some \<lparr>ca_variant = uv_name v, ca_content = c\<rparr>" "\<not> unpinned v"
      using Some by (simp_all add: content_arm_of_def unpinned_def)
    then have e: "List.map_filter content_arm_of (v # vs) = \<lparr>ca_variant = uv_name v, ca_content = c\<rparr> # List.map_filter content_arm_of vs"
      "[v \<leftarrow> v # vs. unpinned v] = [v \<leftarrow> vs. unpinned v]"
      "list_all (\<lambda>v. unpinned v \<or> uv_fields v = []) (v # vs) = list_all (\<lambda>v. unpinned v \<or> uv_fields v = []) vs"
      using c(1) by (simp_all add: List.map_filter_simps)
    show ?thesis unfolding e using IH unfolding append_assoc append_Cons append_Nil by blast
  qed
qed (simp add: List.map_filter_simps)

definition attr_pins :: "union_variant \<Rightarrow> (string option \<times> string option) list" where
  "attr_pins v = [(ra_name a, ra_value a). a \<leftarrow> uv_assertions v, ra_kind a = AttrK]"

lemma attr_gates_pins:
  "attr_gates as pin kids = Some (p, kids') \<Longrightarrow>
   (case pin of None \<Rightarrow> [] | Some q \<Rightarrow> [(Some (fst q), Some (snd q))])
     @ [(ra_name a, ra_value a). a \<leftarrow> as, ra_kind a = AttrK] = [(Some (fst p), Some (snd p))]"
proof (induction as arbitrary: pin kids)
  case Nil
  then show ?case by (cases pin) simp_all
next
  case (Cons a as)
  show ?case
  proof (cases "ra_kind a = AttrK")
    case True
    obtain n where n: "ra_name a = Some n" using Cons.prems True by (cases "ra_name a") simp_all
    obtain x where x: "ra_value a = Some x" using Cons.prems True n by (cases "ra_value a") simp_all
    have pin: "pin = None" using Cons.prems True n x by (cases pin) simp_all
    have "attr_gates as (Some (n, x)) kids = Some (p, kids')" using Cons.prems True n x pin by simp
    from Cons.IH [OF this] True n x pin show ?thesis by simp
  next
    case False
    with Cons.prems obtain n where "attr_gates as pin (kids @ [n]) = Some (p, kids')"
      by (cases "ra_kind a = ChildK"; cases "ra_name a") simp_all
    from Cons.IH [OF this] False show ?thesis by simp
  qed
qed

lemma attr_loop_arms:
  "attr_loop vs attr seen normalized arms = Some (attr', arms') \<Longrightarrow>
   \<exists>new. arms' = arms @ new \<and> map aa_variant new = map uv_name vs \<and> map aa_fields new = map uv_fields vs
     \<and> (vs \<noteq> [] \<longrightarrow> attr' \<noteq> None)
     \<and> map attr_pins vs = map (\<lambda>a. [(attr', Some (aa_value a))]) new
     \<and> (attr \<noteq> None \<longrightarrow> attr' = attr)
     \<and> distinct (map aa_value new) \<and> set (map aa_value new) \<inter> set seen = {}
     \<and> distinct (map (\<lambda>a. pascal_case (aa_variant a)) new)
     \<and> set (map (\<lambda>a. pascal_case (aa_variant a)) new) \<inter> set normalized = {}"
proof (induction vs arbitrary: attr seen normalized arms)
  case (Cons v vs)
  from Cons.prems obtain name val kids where g: "attr_gates (uv_assertions v) None [] = Some ((name, val), kids)"
    and a: "attr = None \<or> attr = Some name" and f: "val \<notin> set seen" "pascal_case (uv_name v) \<notin> set normalized"
    and l: "attr_loop vs (Some name) (val # seen) (pascal_case (uv_name v) # normalized)
       (arms @ [\<lparr>aa_variant = uv_name v, aa_value = val, aa_children = kids, aa_fields = uv_fields v\<rparr>])
       = Some (attr', arms')"
    by (auto split: if_splits option.splits)
  have pins: "attr_pins v = [(Some name, Some val)]"
    using attr_gates_pins [OF g] by (simp add: attr_pins_def)
  from Cons.IH [OF l] obtain new where "arms' = (arms @ [\<lparr>aa_variant = uv_name v, aa_value = val, aa_children = kids, aa_fields = uv_fields v\<rparr>]) @ new"
      "map aa_variant new = map uv_name vs" "map aa_fields new = map uv_fields vs"
      "map attr_pins vs = map (\<lambda>a. [(attr', Some (aa_value a))]) new" "attr' = Some name"
      "distinct (map aa_value new)" "set (map aa_value new) \<inter> set (val # seen) = {}"
      "distinct (map (\<lambda>a. pascal_case (aa_variant a)) new)"
      "set (map (\<lambda>a. pascal_case (aa_variant a)) new) \<inter> set (pascal_case (uv_name v) # normalized) = {}"
    by blast
  with pins a f show ?case
    by (intro exI [of _ "\<lparr>aa_variant = uv_name v, aa_value = val, aa_children = kids, aa_fields = uv_fields v\<rparr> # new"]) auto
qed simp

section \<open>The nodes an arm of a tag cascade takes\<close>

text \<open>
  What \<open>emit_tag_cascade\<close> asks before it returns an arm: its pinned attributes, its gated children and
  the reads of its payload.
\<close>

definition tag_arm_accepts :: "rnode \<Rightarrow> tag_arm \<Rightarrow> bool" where
  "tag_arm_accepts n arm \<longleftrightarrow>
     list_all (\<lambda>(a, x). rn_attrs n a = Some x) (ta_attr_values arm)
     \<and> list_all (\<lambda>t. first_kid n t \<noteq> None) (ta_children arm)
     \<and> list_all (carries n []) (ta_fields arm)"

definition arm_reads :: "tag_arm \<Rightarrow> read_key list" where
  "arm_reads arm = concat (map (demands []) (ta_fields arm))"

definition arm_gates :: "tag_arm \<Rightarrow> read_key list" where
  "arm_gates arm = map (\<lambda>t. ([], A_child t)) (ta_children arm)"

definition arm_indifferent :: "read_key \<Rightarrow> tag_arm \<Rightarrow> bool" where
  "arm_indifferent k arm \<longleftrightarrow>
     list_all (indifferent k []) (ta_fields arm)
     \<and> list_all (\<lambda>(a, x). k \<noteq> ([], An_attr a)) (ta_attr_values arm) \<and> k \<notin> set (arm_gates arm)"

text \<open>
  A variant whose signature says what its arm asks: no pinned text, which the cascade does not test, no
  required payload union, which never fails, and reads that fail on absence.
\<close>

definition signature_plain :: "union_variant \<Rightarrow> bool" where
  "signature_plain v \<longleftrightarrow>
     list_all (\<lambda>a. ra_kind a \<noteq> ContentK \<and> (ra_kind a = AttrK \<longrightarrow> ra_name a \<noteq> None)) (uv_assertions v)
     \<and> list_all (\<lambda>f. plain_field f \<and> list_all (\<lambda>g. \<not> (type_of_field g = UnionT \<and> required g)) (child_tree f)) (uv_fields v)"

definition attrs_once :: "union_variant \<Rightarrow> bool" where
  "attrs_once v \<longleftrightarrow> distinct (map ra_name [a \<leftarrow> uv_assertions v. ra_kind a = AttrK])"

definition comparable_arms :: "union_variant \<Rightarrow> union_variant \<Rightarrow> bool" where
  "comparable_arms earlier later \<longleftrightarrow>
     (let i = tag_arm_of earlier; j = tag_arm_of later
      in signature_plain earlier \<and> list_all counted_field (uv_fields later) \<and> attrs_once later \<and> set (arm_reads i) \<subseteq> set (arm_reads j) \<and> set (ta_children i) \<subseteq> set (ta_children j)
         \<or> list_ex (\<lambda>k. arm_indifferent k j) (arm_reads i @ arm_gates i))"

fun arms_separable :: "union_variant list \<Rightarrow> union_shape \<Rightarrow> bool" where
  "arms_separable vs (ContentShape descend arms fb) =
     (descend \<noteq> [] \<and> arms = List.map_filter content_arm_of vs \<and> opt_arms fb = map value_arm_of [v \<leftarrow> vs. unpinned v]
      \<and> list_all (\<lambda>v. unpinned v \<or> uv_fields v = []) vs \<and> distinct (map ca_content arms))"
| "arms_separable vs (AttrDiscriminated attr arms) =
     (map aa_variant arms = map uv_name vs \<and> map aa_fields arms = map uv_fields vs
      \<and> map attr_pins vs = map (\<lambda>a. [(Some attr, Some (aa_value a))]) arms
      \<and> distinct (map aa_value arms) \<and> distinct (map (\<lambda>a. pascal_case (aa_variant a)) arms))"
| "arms_separable vs (SameNode arms) =
     (arms = map value_arm_of vs
      \<and> (\<forall>j < length vs. first_arm (map required_attrs vs) (set (required_attrs (vs ! j))) = Some j))"
| "arms_separable vs (TagDiscriminated path arms) =
     (arms = map tag_arm_of vs
      \<and> (\<forall>i j n. i < j \<and> j < length vs \<and> comparable_arms (vs ! i) (vs ! j) \<and> tag_arm_accepts n (arms ! j) \<longrightarrow>
            (\<exists>m. tag_arm_accepts m (arms ! j) \<and> \<not> tag_arm_accepts m (arms ! i))))"

text \<open>The strings of a signature and the reads they stand for.\<close>

definition req_string :: "read_key \<Rightarrow> string" where
  "req_string k = ''REQ:'' @ slash_path (fst k) @ ''/'' @
     (case snd k of The_content \<Rightarrow> [] | A_child t \<Rightarrow> ''child:'' @ t | An_attr a \<Rightarrow> ''attr:'' @ a)"

definition named_demands :: "parsed_field \<Rightarrow> read_kind list" where
  "named_demands f = [r \<leftarrow> own_demands f. r \<noteq> The_content]"

definition own_reqs :: "string list \<Rightarrow> parsed_field \<Rightarrow> string list" where
  "own_reqs path f =
     (if required f \<and> (method_of f = ''child'' \<or> starts_with (method_of f) ''attr'')
      then [''REQ:'' @ slash_path path @ ''/'' @
              (if method_of f = ''child'' then ''child:'' @ tag_or_name f else ''attr:'' @ wire_or_name f)]
      else [])"

lemma named_demands_eq:
  "named_demands f =
     (if \<not> required f then []
      else if method_of f = ''child'' then (if repeats f \<or> \<not> emitted f then [] else [A_child (tag_or_name f)])
      else if attr_demand (method_of f) then [An_attr (wire_or_name f)] else [])"
  by (simp add: named_demands_def own_demands_def del: emitted.simps)

lemma own_reqs_counted:
  "\<not> repeats f \<Longrightarrow> counted_here f \<Longrightarrow> req_string ` Pair path ` set (named_demands f) \<subseteq> set (own_reqs path f)"
  by (cases "required f"; cases "method_of f = ''child''"; cases "attr_demand (method_of f)")
    (simp_all add: own_reqs_def named_demands_eq req_string_def counted_here_def del: emitted.simps)

lemma own_reqs_plain:
  "\<not> repeats f \<Longrightarrow> plain_here f \<Longrightarrow> set (own_reqs path f) \<subseteq> req_string ` Pair path ` set (named_demands f)"
  by (cases "required f"; cases "method_of f = ''child''"; cases "starts_with (method_of f) ''attr''")
    (simp_all add: own_reqs_def named_demands_eq req_string_def plain_here_def attr_demand_def attr_never_optional
      del: emitted.simps)

lemma named_repeats: "repeats f \<Longrightarrow> counted_here f \<Longrightarrow> named_demands f = []"
  by (auto simp: named_demands_eq counted_here_def simp del: emitted.simps)

lemma signature_unfold:
  "signature_walk base reached (ParsedField d c u) =
     (if pf_field_type d = UnionT
      then (if reached \<and> pf_parser_required d
            then [''NESTED:'' @ slash_path (base @ opt_list (pf_source_path d)) @ ''/'' @ tag_or_name (ParsedField d c u)] else [])
      else if repeats (ParsedField d c u) then []
      else (if reached then own_reqs (base @ opt_list (pf_source_path d)) (ParsedField d c u) else []) @
        concat (map (signature_walk (kid_base (base @ opt_list (pf_source_path d)) (ParsedField d c u))
          (reached \<and> pf_parser_required d)) (opt_list c)))"
  unfolding signature_walk.simps Let_def own_reqs_def kid_base_def repeats_def parsed_field.sel by simp

lemma signature_unreached: "signature_walk base False f = []"
proof (induction f arbitrary: base rule: child_tree.induct)
  case (1 d c u)
  then show ?case unfolding signature_unfold by simp
qed

definition named :: "read_key list \<Rightarrow> read_key set" where
  "named ks = {k \<in> set ks. snd k \<noteq> The_content}"

lemma pairs_filter: "{k \<in> Pair p ` set xs. snd k \<noteq> z} = Pair p ` set [r \<leftarrow> xs. r \<noteq> z]"
  by (induction xs) auto

lemma collect_layers:
  "{k \<in> (if P then {} else A \<union> (if Q then {} else \<Union>x \<in> K. g x)). R k} =
     (if P then {} else {k \<in> A. R k} \<union> (if Q then {} else \<Union>x \<in> K. {k \<in> g x. R k}))"
  by auto

lemma named_demands_set:
  "named (demands base (ParsedField d c u)) =
     (if pf_field_type d = UnionT \<or> \<not> pf_parser_required d then {}
      else Pair (base @ opt_list (pf_source_path d)) ` set (named_demands (ParsedField d c u))
        \<union> (if repeats (ParsedField d c u) \<or> reads_child d \<and> pf_method d \<noteq> ''child'' then {}
           else \<Union>k \<in> set (opt_list c). named (demands (kid_base (base @ opt_list (pf_source_path d)) (ParsedField d c u)) k)))"
  unfolding named_def demands_set collect_layers pairs_filter named_demands_def ..

lemma signature_complete: "counted_field f \<Longrightarrow> req_string ` named (demands base f) \<subseteq> set (signature_walk base True f)"
proof (induction f arbitrary: base rule: child_tree.induct)
  case (1 d c u)
  let ?f = "ParsedField d c u" and ?path = "base @ opt_list (pf_source_path d)"
  let ?kids = "kid_base ?path ?f"
  have "req_string ` named (demands ?kids k) \<subseteq> set (signature_walk ?kids True k)" if "k \<in> set (opt_list c)" for k
    using "1.prems" that by (intro "1.IH" [OF that]) (simp add: counted_unfold list_all_iff)
  then have kids: "(\<Union>k \<in> set (opt_list c). req_string ` named (demands ?kids k)) \<subseteq> (\<Union>k \<in> set (opt_list c). set (signature_walk ?kids True k))"
    by (rule UN_mono [OF order_refl])
  have here: "counted_here ?f" using "1.prems" by (simp add: counted_unfold)
  note n = named_demands_set [of base d c u]
  consider "pf_field_type d = UnionT \<or> \<not> pf_parser_required d" | "pf_field_type d \<noteq> UnionT" "pf_parser_required d" "repeats ?f"
    | "pf_field_type d \<noteq> UnionT" "pf_parser_required d" "\<not> repeats ?f" by blast
  then show ?case
  proof cases
    case 1
    then show ?thesis unfolding n by simp
  next
    case 2
    then show ?thesis unfolding n using named_repeats [OF 2(3) here] by simp
  next
    case 3
    have w: "set (signature_walk base True ?f) = set (own_reqs ?path ?f)
        \<union> (\<Union>k \<in> set (opt_list c). set (signature_walk ?kids True k))"
      unfolding signature_unfold using 3 by simp
    have "req_string ` (\<Union>k \<in> set (opt_list c). named (demands ?kids k)) \<subseteq> (\<Union>k \<in> set (opt_list c). set (signature_walk ?kids True k))"
      using kids unfolding image_UN .
    from layers_counted [OF layers_below own_reqs_counted [OF 3(3) here] this]
    show ?thesis unfolding n w .
  qed
qed

lemma classify_content_separable:
  "classify_content f vs = Some s \<Longrightarrow> arms_separable vs s"
proof -
  assume s: "classify_content f vs = Some s"
  then obtain arms fb where l: "content_loop vs [] None [] = Some (arms, fb)"
    by (auto simp: classify_content_def split: option.splits)
  from s l obtain d where d: "content_descend f vs = Some d" "s = ContentShape d arms fb"
    by (auto simp: classify_content_def split: if_splits)
  have "d \<noteq> []" using d(1) by (auto simp: content_descend_def split: if_splits)
  moreover note content_loop_arms [OF l, simplified]
  ultimately show ?thesis unfolding d(2) arms_separable.simps by blast
qed

lemma classify_attr_separable:
  "classify_attr_discriminated f vs = Some s \<Longrightarrow> arms_separable vs s"
proof -
  assume s: "classify_attr_discriminated f vs = Some s"
  then obtain attr arms where l: "attr_loop vs None [] [] [] = Some (Some attr, arms)"
    "s = AttrDiscriminated attr arms"
    by (auto simp: classify_attr_discriminated_def split: if_splits option.splits)
  show ?thesis using attr_loop_arms [OF l(1)] l(2) by auto
qed

lemma classify_same_node_separable:
  "classify_same_node f vs = Some s \<Longrightarrow> arms_separable vs s"
  using first_arm_reached [of "map required_attrs vs"]
  by (auto simp: classify_same_node_def split: if_splits)

lemma signature_counts:
  "plain_field f \<Longrightarrow> list_all (\<lambda>g. \<not> (type_of_field g = UnionT \<and> required g)) (child_tree f) \<Longrightarrow>
   set (signature_walk base True f) \<subseteq> req_string ` named (demands base f)"
proof (induction f arbitrary: base rule: child_tree.induct)
  case (1 d c u)
  let ?f = "ParsedField d c u" and ?path = "base @ opt_list (pf_source_path d)"
  let ?kids = "kid_base ?path ?f"
  have nu: "\<not> (pf_field_type d = UnionT \<and> pf_parser_required d)" using "1.prems"(2) by simp
  show ?case
  proof (cases "pf_field_type d = UnionT \<or> repeats ?f \<or> \<not> pf_parser_required d")
    case True
    have "own_reqs path ?f = []" if "\<not> pf_parser_required d" for path using that by (simp add: own_reqs_def)
    then show ?thesis unfolding signature_unfold using True nu signature_unreached by auto
  next
    case False
    have "plain_here ?f" using "1.prems"(1) False by (simp add: Let_def)
    from own_reqs_plain [OF _ this] False
    have w: "set (signature_walk base True ?f) \<subseteq> req_string ` Pair ?path ` set (named_demands ?f)
        \<union> (\<Union>k \<in> set (opt_list c). set (signature_walk ?kids True k))"
      unfolding signature_unfold by auto
    have plain: "if reads_child d \<and> pf_method d \<noteq> ''child'' then list_all (\<lambda>k. \<not> required k) (opt_list c)
       else list_all plain_field (opt_list c)"
      using "1.prems"(1) False by (simp add: Let_def split: if_splits)
    show ?thesis
    proof (cases "reads_child d \<and> pf_method d \<noteq> ''child''")
      case True
      have "signature_walk ?kids True k = []" if k: "k \<in> set (opt_list c)" for k
      proof -
        obtain d' c' u' where kk: "k = ParsedField d' c' u'" by (cases k)
        have "\<not> required k" using plain True k by (simp add: list_all_iff)
        then have "\<not> pf_parser_required d'" "own_reqs path k = []" for path by (simp_all add: own_reqs_def kk)
        then show ?thesis unfolding kk signature_unfold using signature_unreached kk by simp
      qed
      then show ?thesis using w unfolding named_demands_set using False True by simp
    next
      case kids: False
      have "set (signature_walk ?kids True k) \<subseteq> req_string ` named (demands ?kids k)" if k: "k \<in> set (opt_list c)" for k
      proof (rule "1.IH" [OF k])
        show "plain_field k" using plain kids k by (simp add: list_all_iff)
        show "list_all (\<lambda>g. \<not> (type_of_field g = UnionT \<and> required g)) (child_tree k)"
          using "1.prems"(2) k by (fastforce simp: list_all_iff)
      qed
      then have "(\<Union>k \<in> set (opt_list c). set (signature_walk ?kids True k)) \<subseteq> (\<Union>k \<in> set (opt_list c). req_string ` named (demands ?kids k))"
        by (rule UN_mono [OF order_refl])
      moreover have "named (demands base ?f) = Pair ?path ` set (named_demands ?f) \<union> (\<Union>k \<in> set (opt_list c). named (demands ?kids k))"
        unfolding named_demands_set using False kids by (cases "reads_child d") simp_all
      ultimately show ?thesis by (intro layers_plain [OF w])
    qed
  qed
qed

lemma mem_map_filter: "y \<in> set (List.map_filter f xs) \<longleftrightarrow> (\<exists>x \<in> set xs. f x = Some y)"
  by (induction xs) (auto simp: List.map_filter_simps split: option.splits)

lemma arm_accepts_iff:
  "tag_arm_accepts n arm \<longleftrightarrow>
     (\<forall>a x. (a, x) \<in> set (ta_attr_values arm) \<longrightarrow> rn_attrs n a = Some x)
     \<and> (\<forall>t \<in> set (ta_children arm). has_at n ([], A_child t)) \<and> (\<forall>f \<in> set (ta_fields arm). carries n [] f)"
  by (auto simp: tag_arm_accepts_def list_all_iff)

lemma arm_lose:
  assumes "tag_arm_accepts n arm" "arm_indifferent k arm"
  shows "tag_arm_accepts (lose k n) arm"
proof -
  have "has_at (lose k n) ([], A_child t)" if "has_at n ([], A_child t)" "t \<in> set (ta_children arm)" for t
  proof -
    have "k \<noteq> ([], A_child t)" using assms(2) that(2) by (auto simp: arm_indifferent_def arm_gates_def)
    then have "\<not> touches k ([], A_child t)" by (cases k) (auto simp: touches_def below_def split: read_kind.split)
    then show ?thesis using that(1) unfolding has_at_lose by blast
  qed
  moreover have "rn_attrs (lose k n) a = Some x" if "rn_attrs n a = Some x" "(a, x) \<in> set (ta_attr_values arm)" for a x
    using assms(2) that by (auto simp: lose_attrs arm_indifferent_def list_all_iff)
  moreover have "carries (lose k n) [] f" if "carries n [] f" "f \<in> set (ta_fields arm)" for f
    using assms(2) that carries_lose by (simp add: arm_indifferent_def list_all_iff)
  ultimately show ?thesis using assms(1) unfolding arm_accepts_iff by blast
qed

lemma arm_demanded:
  "tag_arm_accepts n arm \<Longrightarrow> k \<in> set (arm_reads arm @ arm_gates arm) \<Longrightarrow> has_at n k"
  by (auto simp: tag_arm_accepts_def arm_reads_def arm_gates_def list_all_iff dest: demanded)

lemma arm_put:
  "tag_arm_accepts n arm \<Longrightarrow> (\<And>x. (a, x) \<notin> set (ta_attr_values arm)) \<Longrightarrow> tag_arm_accepts (put_attr a w n) arm"
  unfolding arm_accepts_iff
  by (intro conjI allI impI ballI) (auto simp: carries_put intro: has_at_put(1) simp del: has_at_Nil)

lemma arm_pins:
  "(a, x) \<in> set (ta_attr_values (tag_arm_of v)) \<longleftrightarrow>
     (\<exists>y \<in> set (uv_assertions v). ra_kind y = AttrK \<and> ra_name y = Some a \<and> ra_value y = Some x)"
  "t \<in> set (ta_children (tag_arm_of v)) \<longleftrightarrow> (\<exists>y \<in> set (uv_assertions v). ra_kind y = ChildK \<and> ra_name y = Some t)"
  "ta_fields (tag_arm_of v) = uv_fields v"
proof -
  have g: "(case (ra_name y, ra_value y) of (Some n, Some x) \<Rightarrow> Some (n, x) | _ \<Rightarrow> None) = Some (a, x)
      \<longleftrightarrow> ra_name y = Some a \<and> ra_value y = Some x" for y
    by (cases "ra_name y"; cases "ra_value y") simp_all
  show "(a, x) \<in> set (ta_attr_values (tag_arm_of v)) \<longleftrightarrow>
     (\<exists>y \<in> set (uv_assertions v). ra_kind y = AttrK \<and> ra_name y = Some a \<and> ra_value y = Some x)"
    by (simp only: tag_arm_of_def tag_arm.simps mem_map_filter g set_filter bex_simps mem_Collect_eq Bex_def conj_assoc)
  show "t \<in> set (ta_children (tag_arm_of v)) \<longleftrightarrow> (\<exists>y \<in> set (uv_assertions v). ra_kind y = ChildK \<and> ra_name y = Some t)"
    by (auto simp: tag_arm_of_def mem_map_filter)
qed (simp add: tag_arm_of_def)

lemma signature_contained:
  assumes "signature_plain a" and counted: "list_all counted_field (uv_fields b)" and "set (arm_reads (tag_arm_of a)) \<subseteq> set (arm_reads (tag_arm_of b))"
    and "set (ta_children (tag_arm_of a)) \<subseteq> set (ta_children (tag_arm_of b))"
    and "set (ta_attr_values (tag_arm_of a)) \<subseteq> set (ta_attr_values (tag_arm_of b))"
  shows "set (variant_signature a) \<subseteq> set (variant_signature b)"
proof
  fix s
  assume "s \<in> set (variant_signature a)"
  then consider x where "x \<in> set (uv_assertions a)" "s \<in> set (assertion_signature x)"
    | f where "f \<in> set (uv_fields a)" "s \<in> set (signature_walk [] True f)"
    by (auto simp: variant_signature_def)
  then show "s \<in> set (variant_signature b)"
  proof cases
    case (1 x)
    have k: "ra_kind x \<noteq> ContentK" using assms(1) 1(1) by (auto simp: signature_plain_def list_all_iff)
    consider n v where "ra_kind x = AttrK" "ra_name x = Some n" "ra_value x = Some v" "s = ''ATTRVAL:'' @ n @ ''='' @ v"
      | n where "ra_kind x = ChildK" "ra_name x = Some n" "s = ''CHILD:'' @ n"
      using 1(2) k by (cases "ra_kind x"; cases "ra_name x"; cases "ra_value x") (simp_all add: assertion_signature_def)
    then show ?thesis
    proof cases
      case (1 n v)
      then have "(n, v) \<in> set (ta_attr_values (tag_arm_of b))" using \<open>x \<in> set (uv_assertions a)\<close> assms(5) arm_pins(1) by blast
      then obtain y where "y \<in> set (uv_assertions b)" "ra_kind y = AttrK" "ra_name y = Some n" "ra_value y = Some v"
        unfolding arm_pins(1) by blast
      moreover from this have "s \<in> set (assertion_signature y)" by (simp add: assertion_signature_def 1(4))
      ultimately show ?thesis by (auto simp: variant_signature_def)
    next
      case (2 n)
      then have "n \<in> set (ta_children (tag_arm_of b))" using \<open>x \<in> set (uv_assertions a)\<close> assms(4) arm_pins(2) by blast
      then obtain y where "y \<in> set (uv_assertions b)" "ra_kind y = ChildK" "ra_name y = Some n"
        unfolding arm_pins(2) by blast
      moreover from this have "s \<in> set (assertion_signature y)" by (simp add: assertion_signature_def 2(3))
      ultimately show ?thesis by (auto simp: variant_signature_def)
    qed
  next
    case (2 f)
    then have "s \<in> req_string ` named (demands [] f)"
      using assms(1) signature_counts [of f "[]"] by (auto simp: signature_plain_def list_all_iff)
    then obtain k where k: "s = req_string k" "k \<in> set (demands [] f)" "snd k \<noteq> The_content" by (auto simp: named_def)
    then have "k \<in> set (arm_reads (tag_arm_of b))" using assms(3) 2(1) by (auto simp: arm_reads_def arm_pins(3))
    then obtain g where "g \<in> set (uv_fields b)" "k \<in> set (demands [] g)" by (auto simp: arm_reads_def arm_pins(3))
    moreover from this k have "s \<in> set (signature_walk [] True g)" using signature_complete [of g "[]"] counted by (auto simp: named_def list_all_iff)
    ultimately show ?thesis by (auto simp: variant_signature_def)
  qed
qed

lemma cascade_reachable:
  assumes "\<not> (set (variant_signature a) \<subseteq> set (variant_signature b) \<and> \<not> variants_conflict a b)"
    and "comparable_arms a b" and "tag_arm_accepts n (tag_arm_of b)"
  shows "\<exists>m. tag_arm_accepts m (tag_arm_of b) \<and> \<not> tag_arm_accepts m (tag_arm_of a)"
proof -
  let ?i = "tag_arm_of a" and ?j = "tag_arm_of b"
  consider k where "k \<in> set (arm_reads ?i @ arm_gates ?i)" "arm_indifferent k ?j"
    | "signature_plain a" "list_all counted_field (uv_fields b)" "attrs_once b" "set (arm_reads ?i) \<subseteq> set (arm_reads ?j)" "set (ta_children ?i) \<subseteq> set (ta_children ?j)"
    using assms(2) by (auto simp: comparable_arms_def Let_def list_ex_iff)
  then show ?thesis
  proof cases
    case (1 k)
    from arm_lose [OF assms(3) 1(2)] arm_demanded [OF _ 1(1)] lost show ?thesis by blast
  next
    case 2
    have "\<not> set (ta_attr_values ?i) \<subseteq> set (ta_attr_values ?j)"
    proof
      assume sub: "set (ta_attr_values ?i) \<subseteq> set (ta_attr_values ?j)"
      from signature_contained [OF 2(1,2,4,5) this] assms(1) have "variants_conflict a b" by blast
      then obtain x y v where x: "x \<in> set (uv_assertions a)" "ra_kind x = AttrK" "ra_value x = Some v"
        and y: "y \<in> set (uv_assertions b)" "ra_kind y = AttrK" "ra_name y = ra_name x" "ra_value y \<noteq> ra_value x"
        by (auto simp: variants_conflict_def list_ex_iff)
      obtain m where m: "ra_name x = Some m" using 2(1) x by (auto simp: signature_plain_def list_all_iff)
      then have "(m, v) \<in> set (ta_attr_values ?j)" using x sub arm_pins(1) by blast
      then obtain z where z: "z \<in> set (uv_assertions b)" "ra_kind z = AttrK" "ra_name z = Some m" "ra_value z = Some v"
        unfolding arm_pins(1) by blast
      have "inj_on ra_name (set [a \<leftarrow> uv_assertions b. ra_kind a = AttrK])"
        using 2(3) by (simp add: attrs_once_def distinct_map)
      then have "y = z" by (rule inj_onD) (use y z m in simp_all)
      then show False using y z x by simp
    qed
    then obtain m v where p: "(m, v) \<in> set (ta_attr_values ?i)" "(m, v) \<notin> set (ta_attr_values ?j)" by auto
    show ?thesis
    proof (cases "m \<in> fst ` set (ta_attr_values ?j)")
      case True
      then obtain w where w: "(m, w) \<in> set (ta_attr_values ?j)" by force
      have "rn_attrs n m = Some w" using assms(3) w unfolding arm_accepts_iff by blast
      moreover have "w \<noteq> v" using p(2) w by blast
      ultimately have "rn_attrs n m \<noteq> Some v" by simp
      with p(1) have "\<not> tag_arm_accepts n ?i" unfolding arm_accepts_iff by blast
      with assms(3) show ?thesis by blast
    next
      case False
      let ?n = "put_attr m (v @ v @ ''x'') n"
      have "tag_arm_accepts ?n ?j" by (rule arm_put [OF assms(3)]) (use False in force)
      moreover have "rn_attrs ?n m \<noteq> Some v" by simp
      with p(1) have "\<not> tag_arm_accepts ?n ?i" unfolding arm_accepts_iff by blast
      ultimately show ?thesis by blast
    qed
  qed
qed

lemma classify_tag_separable:
  assumes "classify_tag_discriminated parser_ok f vs = Some s"
  shows "arms_separable vs s"
proof -
  have s: "s = TagDiscriminated (source_descent f) (map tag_arm_of vs)"
    and w: "sorted_wrt (\<lambda>a b. \<not> (set (variant_signature a) \<subseteq> set (variant_signature b) \<and> \<not> variants_conflict a b)) vs"
    using assms by (auto simp: classify_tag_discriminated_def split: if_splits)
  have "\<exists>m. tag_arm_accepts m (tag_arm_of (vs ! j)) \<and> \<not> tag_arm_accepts m (tag_arm_of (vs ! i))"
    if "i < j" "j < length vs" "comparable_arms (vs ! i) (vs ! j)" "tag_arm_accepts n (tag_arm_of (vs ! j))" for i j n
    using cascade_reachable [OF sorted_wrt_nth_less [OF w that(1,2)] that(3,4)] .
  moreover have "map tag_arm_of vs ! i = tag_arm_of (vs ! i)" if "i < j" "j < length vs" for i j using that by simp
  moreover have "map tag_arm_of vs ! j = tag_arm_of (vs ! j)" if "j < length vs" for j using that by simp
  ultimately show ?thesis unfolding s arms_separable.simps by metis
qed


section \<open>Conflicting pins\<close>

text \<open>The attribute assertions a node with these attributes satisfies.\<close>

definition attrs_satisfy :: "(string \<Rightarrow> string option) \<Rightarrow> union_variant \<Rightarrow> bool" where
  "attrs_satisfy attrs v \<longleftrightarrow>
     list_all (\<lambda>a. case ra_name a of None \<Rightarrow> True | Some n \<Rightarrow>
        (case ra_value a of None \<Rightarrow> attrs n \<noteq> None | Some x \<Rightarrow> attrs n = Some x))
       [a \<leftarrow> uv_assertions v. ra_kind a = AttrK]"

definition attr_names_ok :: "union_variant \<Rightarrow> bool" where
  \<comment> \<open>attribute assertions name an attribute, and no attribute name holds an equals sign\<close>
  "attr_names_ok v \<longleftrightarrow>
     list_all (\<lambda>a. case ra_name a of None \<Rightarrow> False | Some n \<Rightarrow> CHR ''='' \<notin> set n)
       [a \<leftarrow> uv_assertions v. ra_kind a = AttrK]"

lemma eq_split_unique:
  "CHR ''='' \<notin> set n \<Longrightarrow> CHR ''='' \<notin> set m \<Longrightarrow> n @ ''='' @ x = m @ ''='' @ y \<Longrightarrow> n = m \<and> x = y"
  by (auto simp: append_eq_append_conv2 Cons_eq_append_conv append_eq_Cons_conv)

lemma signature_attr_pin:
  assumes "''ATTRVAL:'' @ n @ ''='' @ x \<in> set (variant_signature v)" "CHR ''='' \<notin> set n" "attr_names_ok v"
  shows "\<exists>a \<in> set (uv_assertions v). ra_kind a = AttrK \<and> ra_name a = Some n \<and> ra_value a = Some x"
proof -
  have walk: "''ATTRVAL:'' @ w \<notin> set (signature_walk base reached f)" for w base reached f
    by (induction base reached f rule: signature_walk.induct) (auto simp: Let_def split: if_splits option.splits)
  then obtain a where a: "a \<in> set (uv_assertions v)" "''ATTRVAL:'' @ n @ ''='' @ x \<in> set (assertion_signature a)"
    using assms(1) unfolding variant_signature_def by fastforce
  then obtain m y where "ra_kind a = AttrK" "ra_name a = Some m" "ra_value a = Some y"
    "n @ ''='' @ x = m @ ''='' @ y"
    by (cases "ra_kind a"; cases "ra_name a"; cases "ra_value a") (simp_all add: assertion_signature_def)
  moreover have "CHR ''='' \<notin> set m"
    using assms(3) a(1) calculation by (auto simp: attr_names_ok_def list_all_iff)
  ultimately show ?thesis using eq_split_unique [OF assms(2)] a(1) by blast
qed

text \<open>
  Two variants of which the first pins an attribute the second pins to another value are
  disjoint: no node satisfies both.  And the exemption of the tag-discriminated gate adds nothing to
  it: where an earlier variant's signature is contained in a later one's and the two are said to
  conflict, the later one either is satisfied by no node or states the presence of the very
  attribute it also pins.
\<close>

theorem conflict_exemption:
  assumes "variants_conflict a b" "attr_names_ok a" "attr_names_ok b"
  shows "(list_all (\<lambda>y. ra_kind y = AttrK \<longrightarrow> ra_value y \<noteq> None) (uv_assertions b)
            \<longrightarrow> (\<nexists>attrs. attrs_satisfy attrs a \<and> attrs_satisfy attrs b))
    \<and> (set (variant_signature a) \<subseteq> set (variant_signature b) \<longrightarrow>
         (\<nexists>attrs. attrs_satisfy attrs b)
         \<or> (\<exists>y \<in> set (uv_assertions b). \<exists>z \<in> set (uv_assertions b). ra_kind y = AttrK \<and> ra_kind z = AttrK
              \<and> ra_name y = ra_name z \<and> ra_value y = None \<and> ra_value z \<noteq> None))"
proof -
  from assms(1) obtain x y where x: "x \<in> set (uv_assertions a)" "ra_kind x = AttrK" "ra_value x \<noteq> None"
    and y: "y \<in> set (uv_assertions b)" "ra_kind y = AttrK" "ra_name y = ra_name x" "ra_value y \<noteq> ra_value x"
    by (auto simp: variants_conflict_def list_ex_iff)
  obtain n v where n: "ra_name x = Some n" "CHR ''='' \<notin> set n" and v: "ra_value x = Some v"
    using x assms(2) by (auto simp: attr_names_ok_def list_all_iff split: option.splits)
  have sat_a: "attrs n = Some v" if "attrs_satisfy attrs a" for attrs
    using that x n v by (auto simp: attrs_satisfy_def list_all_iff)
  have sat_b: "attrs n = Some u" if "attrs_satisfy attrs b" "ra_value y = Some u" for attrs u
    using that y n by (auto simp: attrs_satisfy_def list_all_iff)
  have 1: "\<nexists>attrs. attrs_satisfy attrs a \<and> attrs_satisfy attrs b"
    if pinned: "list_all (\<lambda>y. ra_kind y = AttrK \<longrightarrow> ra_value y \<noteq> None) (uv_assertions b)"
  proof -
    obtain u where "ra_value y = Some u" using pinned y by (auto simp: list_all_iff)
    then show ?thesis using sat_a sat_b y(4) v by fastforce
  qed
  have 2: "(\<nexists>attrs. attrs_satisfy attrs b)
         \<or> (\<exists>y \<in> set (uv_assertions b). \<exists>z \<in> set (uv_assertions b). ra_kind y = AttrK \<and> ra_kind z = AttrK
              \<and> ra_name y = ra_name z \<and> ra_value y = None \<and> ra_value z \<noteq> None)"
    if sub: "set (variant_signature a) \<subseteq> set (variant_signature b)"
  proof -
    have "''ATTRVAL:'' @ n @ ''='' @ v \<in> set (variant_signature a)"
      using x n v by (force simp: variant_signature_def assertion_signature_def)
    then obtain z where z: "z \<in> set (uv_assertions b)" "ra_kind z = AttrK" "ra_name z = Some n" "ra_value z = Some v"
      using signature_attr_pin [OF _ n(2) assms(3)] sub by blast
    have sat_z: "attrs n = Some v" if "attrs_satisfy attrs b" for attrs
      using that z by (auto simp: attrs_satisfy_def list_all_iff)
    show ?thesis
    proof (cases "ra_value y")
      case None
      with y z n show ?thesis by (metis option.distinct(1))
    next
      case (Some u)
      then show ?thesis using sat_b sat_z y(4) v by fastforce
    qed
  qed
  from 1 2 show ?thesis by blast
qed


section \<open>Samples\<close>

definition pin :: "string \<Rightarrow> string option \<Rightarrow> response_assertion" where
  "pin n v = \<lparr>ra_kind = AttrK, ra_name = Some n, ra_value = v, ra_reference_path = None\<rparr>"

definition sample_variants :: "union_variant list" where
  "sample_variants =
     [UnionVariant ''Text'' [] [pin ''type'' (Some ''text'')],
      UnionVariant ''Media'' [] [pin ''type'' (Some ''media'')]]"

definition sample_union :: parsed_field where
  "sample_union =
     ParsedField (default_field\<lparr>pf_name := ''kind'', pf_field_type := UnionT\<rparr>) None (Some sample_variants)"

lemma sample_union_classified:
  "classify_union (\<lambda>_. False) sample_union = Some (AttrDiscriminated ''type''
     [\<lparr>aa_variant = ''Text'', aa_value = ''text'', aa_children = [], aa_fields = []\<rparr>,
      \<lparr>aa_variant = ''Media'', aa_value = ''media'', aa_children = [], aa_fields = []\<rparr>])"
  by code_simp

definition cascade_variants :: "union_variant list" where
  "cascade_variants =
     [UnionVariant ''Admin'' [ParsedField (default_field\<lparr>pf_method := ''attrString'', pf_name := ''type'', pf_parser_required := True\<rparr>) None None]
        [\<lparr>ra_kind = TagK, ra_name = Some ''participant'', ra_value = None, ra_reference_path = None\<rparr>],
      UnionVariant ''Member'' [ParsedField (default_field\<lparr>pf_method := ''attrString'', pf_name := ''jid'', pf_parser_required := True\<rparr>) None None]
        [\<lparr>ra_kind = TagK, ra_name = Some ''participant'', ra_value = None, ra_reference_path = None\<rparr>]]"

definition cascade_union :: parsed_field where
  "cascade_union =
     ParsedField (default_field\<lparr>pf_name := ''participant'', pf_field_type := UnionT\<rparr>) None (Some cascade_variants)"

lemma cascade_classified:
  "classify_union (\<lambda>_. True) cascade_union = Some (TagDiscriminated [] (map tag_arm_of cascade_variants))"
  by code_simp


text \<open>
  The signature counts a pinned text that the cascade never tests.  Two variants under one tag with a
  payload each, told apart by their text alone, are classified, and the first arm takes every node of
  the second.
\<close>

definition text_pinned :: "string \<Rightarrow> string \<Rightarrow> union_variant" where
  "text_pinned name t = UnionVariant name
     [ParsedField (default_field\<lparr>pf_method := ''maybeAttrString'', pf_name := ''jid''\<rparr>) None None]
     [\<lparr>ra_kind = TagK, ra_name = Some ''state'', ra_value = None, ra_reference_path = None\<rparr>,
      \<lparr>ra_kind = ContentK, ra_name = None, ra_value = Some t, ra_reference_path = None\<rparr>]"

lemma text_pin_untested:
  "let vs = [text_pinned ''On'' ''on'', text_pinned ''Off'' ''off'']
   in classify_union (\<lambda>_. True) (ParsedField (default_field\<lparr>pf_name := ''state'', pf_field_type := UnionT\<rparr>) None (Some vs))
        = Some (TagDiscriminated [] (map tag_arm_of vs))
      \<and> (\<forall>n. tag_arm_accepts n (tag_arm_of (vs ! 1)) \<longrightarrow> tag_arm_accepts n (tag_arm_of (vs ! 0)))"
proof -
  let ?vs = "[text_pinned ''On'' ''on'', text_pinned ''Off'' ''off'']"
  have "classify_union (\<lambda>_. True) (ParsedField (default_field\<lparr>pf_name := ''state'', pf_field_type := UnionT\<rparr>) None (Some ?vs))
        = Some (TagDiscriminated [] (map tag_arm_of ?vs))" by code_simp
  moreover have "tag_arm_accepts n (tag_arm_of (?vs ! 0)) = tag_arm_accepts n (tag_arm_of (?vs ! 1))" for n
    by (simp add: tag_arm_accepts_def tag_arm_of_def text_pinned_def List.map_filter_simps)
  ultimately show ?thesis unfolding Let_def by blast
qed

theorem conflict_exemption_witness:
  "\<nexists>attrs. attrs_satisfy attrs (sample_variants ! 0) \<and> attrs_satisfy attrs (sample_variants ! 1)"
proof -
  have "variants_conflict (sample_variants ! 0) (sample_variants ! 1)"
    "attr_names_ok (sample_variants ! 0)" "attr_names_ok (sample_variants ! 1)"
    "list_all (\<lambda>y. ra_kind y = AttrK \<longrightarrow> ra_value y \<noteq> None) (uv_assertions (sample_variants ! 1))"
    by code_simp+
  then show ?thesis using conflict_exemption by blast
qed

text \<open>
  A variant that only states the presence of an attribute counts as conflicting with one that pins
  it, and yet one node satisfies both.
\<close>

lemma presence_counts_as_conflict:
  "variants_conflict (UnionVariant ''a'' [] [pin ''type'' (Some ''text'')]) (UnionVariant ''b'' [] [pin ''type'' None])
   \<and> attrs_satisfy (\<lambda>_. Some ''text'') (UnionVariant ''a'' [] [pin ''type'' (Some ''text'')])
   \<and> attrs_satisfy (\<lambda>_. Some ''text'') (UnionVariant ''b'' [] [pin ''type'' None])"
  by code_simp

end
