(* ===== verification/Outcomes.thy ===== *)
theory Outcomes
  imports UnionShape
begin

text \<open>
  Admission of an outcome union, \<open>crates/wa-codegen/src/spec.rs\<close>: the pins and guards of a response
  variant, the bounded error payload, when earlier error arms cover later ones, and the gate of
  \<open>emit_outcome_types\<close> that decides whether the variants of an RPC may be tried in order.  A guard is
  the condition it spells (\<open>condition\<close>); its Rust text is not part of the model, nor is the emitted
  parser, whose validity is the argument \<open>pv\<close> (\<open>parser_is_valid\<close>).  An \<open>unwrap\<close> or \<open>expect\<close> that fails
  is the value \<open>None\<close> of an outer option.
\<close>

named_theorems oc_simps \<open>unfolding rules of the guards of an outcome\<close>

section \<open>Pins and guards\<close>

datatype guard_pin = PinAttr string string | PinContent string | PinTag string

definition pin_of :: "response_assertion \<Rightarrow> guard_pin option" where
  "pin_of a =
     (if ra_kind a = AttrK
      then (case (ra_name a, ra_value a) of (Some n, Some v) \<Rightarrow> Some (PinAttr n v) | _ \<Rightarrow> None)
      else if ra_kind a = ContentK then map_option PinContent (ra_value a)
      else if ra_kind a = TagK then map_option PinTag (ra_name a)
      else None)"

definition variant_pins :: "response_variant \<Rightarrow> guard_pin list" where
  "variant_pins v = List.map_filter pin_of (rv_assertions v)"

fun pins_differ :: "guard_pin \<Rightarrow> guard_pin \<Rightarrow> bool" where
  "pins_differ (PinAttr n v) (PinAttr n' v') = (n = n' \<and> v \<noteq> v')"
| "pins_differ (PinContent v) (PinContent v') = (v \<noteq> v')"
| "pins_differ (PinTag v) (PinTag v') = (v \<noteq> v')"
| "pins_differ _ _ = False"

definition pins_can_coincide :: "guard_pin list \<Rightarrow> guard_pin list \<Rightarrow> bool" where
  "pins_can_coincide mine other \<longleftrightarrow> \<not> list_ex (\<lambda>m. list_ex (pins_differ m) other) mine"

definition assertions_conflict :: "response_variant \<Rightarrow> response_variant \<Rightarrow> bool" where
  "assertions_conflict a b \<longleftrightarrow> \<not> pins_can_coincide (variant_pins a) (variant_pins b)"

datatype condition =
    TagIs string | AttrIs string string | AttrPresent string | TextIs string | OneChild string

datatype guard_error = FromServerUnrecovered | AssertionIncomplete assertion_kind

definition condition_of :: "response_assertion \<Rightarrow> condition option" where
  "condition_of a =
     (if ra_kind a = TagK then map_option TagIs (ra_name a)
      else if ra_kind a = AttrK
      then map_option (\<lambda>n. case ra_value a of Some v \<Rightarrow> AttrIs n v | None \<Rightarrow> AttrPresent n) (ra_name a)
      else if ra_kind a = ContentK then map_option TextIs (ra_value a)
      else map_option OneChild (ra_name a))"

fun assertion_conditions :: "response_assertion list \<Rightarrow> guard_error + condition list" where
  "assertion_conditions [] = Inr []"
| "assertion_conditions (a # as) =
     (if ra_kind a = ReferenceK then assertion_conditions as
      else if ra_kind a = FromServer then Inl FromServerUnrecovered
      else case condition_of a of
        None \<Rightarrow> Inl (AssertionIncomplete (ra_kind a))
      | Some c \<Rightarrow> bind_res (assertion_conditions as) (\<lambda>cs. Inr (c # cs)))"

section \<open>The bounded error payload\<close>

definition arm_lo :: "error_arm \<Rightarrow> int option" where
  "arm_lo arm = (case ea_code arm of Some c \<Rightarrow> Some c | None \<Rightarrow> ea_code_min arm)"

definition arm_hi :: "error_arm \<Rightarrow> int option" where
  "arm_hi arm = (case ea_code arm of Some c \<Rightarrow> Some c | None \<Rightarrow> ea_code_max arm)"

definition plain_child :: "parsed_field \<Rightarrow> bool" where
  "plain_child f \<longleftrightarrow>
     method_of f = ''child'' \<and> \<not> required f \<and> pf_repeats (field_of f) \<noteq> Some True
     \<and> pf_source_path (field_of f) = None
     \<and> (case children f of None \<Rightarrow> False
        | Some kids \<Rightarrow> list_all (\<lambda>c. method_of c = ''attrString'' \<and> pf_source_path (field_of c) = None
              \<and> children c = None) kids)"

definition error_variant_ok :: "union_variant \<Rightarrow> error_arm \<Rightarrow> bool" where
  "error_variant_ok variant arm \<longleftrightarrow>
     (case (arm_lo arm, arm_hi arm) of
        (Some lo, Some hi) \<Rightarrow>
          \<not> (lo < 0 \<or> hi > 2147483647 \<or> lo > hi \<or> ea_name arm \<noteq> Some (uv_name variant))
          \<and> (case (find (\<lambda>f. wire_or_name f = ''code'') (uv_fields variant),
                   find (\<lambda>f. wire_or_name f = ''text'') (uv_fields variant)) of
               (Some code, Some tx) \<Rightarrow>
                 \<not> (method_of code \<noteq> ''attrInt'' \<or> \<not> required code \<or> type_of_field code \<noteq> IntegerT
                    \<or> Option.bind (pf_literal_value (field_of code)) (parse_signed 64) \<noteq> ea_code arm
                    \<or> pf_int_min (field_of code) \<noteq> ea_code_min arm
                    \<or> pf_int_max (field_of code) \<noteq> ea_code_max arm
                    \<or> method_of tx \<noteq> ''attrString'' \<or> \<not> required tx
                    \<or> pf_literal_value (field_of tx) \<noteq> ea_text arm)
                 \<and> list_all (\<lambda>f. wire_or_name f = ''code'' \<or> wire_or_name f = ''text'' \<or> plain_child f)
                     (uv_fields variant)
             | _ \<Rightarrow> False)
      | _ \<Rightarrow> False)"

definition is_error_payload :: "parsed_field \<Rightarrow> bool" where
  "is_error_payload f \<longleftrightarrow>
     required f \<and> pf_source_path (field_of f) = Some [''error''] \<and> type_of_field f = UnionT"

definition is_error_header :: "parsed_field \<Rightarrow> bool" where
  "is_error_header f \<longleftrightarrow>
     method_of f = ''attrString'' \<and> required f \<and> wire_or_name f = ''type''
     \<and> pf_literal_value (field_of f) = Some ''error''"

type_synonym parser_validity = "parsed_field list \<Rightarrow> string \<Rightarrow> string \<Rightarrow> bool"

definition probe :: "parser_validity \<Rightarrow> parsed_field list \<Rightarrow> bool" where
  "probe pv fs = pv fs ''ProbeStruct'' ''ProbeStruct''"

definition direct_error_payload_shape :: "parser_validity \<Rightarrow> response_variant \<Rightarrow> parsed_field option" where
  "direct_error_payload_shape pv v =
     (if rv_error_arms v = [] \<or> rv_error_envelope v \<noteq> None \<or> length (rv_fields v) \<noteq> 2 then None
      else case find is_error_payload (rv_fields v) of
        None \<Rightarrow> None
      | Some payload \<Rightarrow>
          if \<not> list_ex is_error_header (rv_fields v) then None
          else case union_variants payload of
            None \<Rightarrow> None
          | Some variants \<Rightarrow>
              if classify_union (probe pv) payload = None \<or> length variants \<noteq> length (rv_error_arms v)
              then None
              else if list_all (\<lambda>(variant, arm). error_variant_ok variant arm) (zip variants (rv_error_arms v))
              then Some payload else None)"

definition header_unmodelled :: "parsed_field \<Rightarrow> bool" where
  "header_unmodelled h \<longleftrightarrow>
     type_of_field h \<noteq> StringT \<or> pf_source_path (field_of h) \<noteq> None
     \<or> pf_enum_keys (field_of h) \<noteq> None \<or> pf_enum_ref (field_of h) \<noteq> None
     \<or> pf_pending_enum_ref (field_of h) \<noteq> None \<or> pf_unknown_value (field_of h) \<noteq> None
     \<or> children h \<noteq> None \<or> union_variants h \<noteq> None \<or> pf_byte_length (field_of h) \<noteq> None
     \<or> pf_byte_min (field_of h) \<noteq> None \<or> pf_byte_max (field_of h) \<noteq> None
     \<or> pf_int_min (field_of h) \<noteq> None \<or> pf_int_max (field_of h) \<noteq> None"

definition code_text_unmodelled :: "parsed_field \<Rightarrow> bool" where
  "code_text_unmodelled f \<longleftrightarrow>
     pf_source_path (field_of f) \<noteq> None \<or> children f \<noteq> None \<or> union_variants f \<noteq> None
     \<or> pf_enum_keys (field_of f) \<noteq> None \<or> pf_enum_ref (field_of f) \<noteq> None
     \<or> pf_pending_enum_ref (field_of f) \<noteq> None \<or> pf_unknown_value (field_of f) \<noteq> None
     \<or> pf_byte_length (field_of f) \<noteq> None \<or> pf_byte_min (field_of f) \<noteq> None
     \<or> pf_byte_max (field_of f) \<noteq> None
     \<or> (wire_or_name f = ''text'' \<and> (type_of_field f \<noteq> StringT \<or> pf_int_min (field_of f) \<noteq> None
          \<or> pf_int_max (field_of f) \<noteq> None))"

definition assertion_unmodelled :: "error_arm \<Rightarrow> response_assertion \<Rightarrow> bool" where
  "assertion_unmodelled arm a \<longleftrightarrow>
     (if ra_kind a = TagK then ra_name a \<noteq> Some ''error''
      else if ra_kind a = AttrK
      then (if ra_name a = Some ''code''
            then (case ra_value a of None \<Rightarrow> False
                  | Some v \<Rightarrow> ea_code arm = None \<or> parse_signed 64 v \<noteq> ea_code arm)
            else if ra_name a = Some ''text'' then ra_value a \<noteq> None \<and> ra_value a \<noteq> ea_text arm
            else True)
      else True)"

definition variant_unmodelled :: "union_variant \<Rightarrow> error_arm \<Rightarrow> bool" where
  "variant_unmodelled variant arm \<longleftrightarrow>
     list_ex code_text_unmodelled
       [f \<leftarrow> uv_fields variant. wire_or_name f = ''code'' \<or> wire_or_name f = ''text'']
     \<or> list_ex (assertion_unmodelled arm) (uv_assertions variant)"

definition direct_error_payload :: "parser_validity \<Rightarrow> response_variant \<Rightarrow> parsed_field option" where
  "direct_error_payload pv v =
     (case direct_error_payload_shape pv v of
        None \<Rightarrow> None
      | Some payload \<Rightarrow> (case find (\<lambda>f. type_of_field f \<noteq> UnionT) (rv_fields v) of
          None \<Rightarrow> None
        | Some h \<Rightarrow>
            if header_unmodelled h then None
            else case union_variants payload of
              None \<Rightarrow> None
            | Some variants \<Rightarrow>
                if list_ex (\<lambda>(variant, arm). variant_unmodelled variant arm) (zip variants (rv_error_arms v))
                then None else Some payload))"

section \<open>Implied guards and covered error arms\<close>

definition bounded_error_enforces :: "response_assertion \<Rightarrow> bool" where
  "bounded_error_enforces a \<longleftrightarrow>
     (if ra_kind a = AttrK
      then ra_name a = Some ''type'' \<and> (ra_value a = None \<or> ra_value a = Some ''error'')
      else ra_kind a = ChildK \<and> ra_name a = Some ''error'')"

definition guard_implied :: "response_assertion \<Rightarrow> response_assertion \<Rightarrow> bool" where
  "guard_implied a b \<longleftrightarrow> ra_kind a = ra_kind b \<and>
     (case ra_kind a of
        TagK \<Rightarrow> ra_name a \<noteq> None \<and> ra_name a = ra_name b
      | ChildK \<Rightarrow> ra_name a \<noteq> None \<and> ra_name a = ra_name b
      | AttrK \<Rightarrow> ra_name a \<noteq> None \<and> ra_name a = ra_name b
                  \<and> (ra_value a = None \<or> ra_value a = ra_value b)
      | ContentK \<Rightarrow> ra_value a \<noteq> None \<and> ra_value a = ra_value b
      | ReferenceK \<Rightarrow> ra_name a \<noteq> None \<and> ra_name a = ra_name b
                  \<and> ra_reference_path a \<noteq> None \<and> ra_reference_path a = ra_reference_path b
      | FromServer \<Rightarrow> False)"

definition assertions_implied_by :: "parser_validity \<Rightarrow> response_variant \<Rightarrow> response_variant \<Rightarrow> bool" where
  "assertions_implied_by pv earlier later \<longleftrightarrow>
     (let bounded_error = direct_error_payload pv later \<noteq> None
      in list_all (\<lambda>a. bounded_error \<and> bounded_error_enforces a
              \<or> list_ex (guard_implied a) (rv_assertions later)) (rv_assertions earlier))"

abbreviation i64_min :: int where "i64_min \<equiv> - (2 ^ 63)"
abbreviation i64_max :: int where "i64_max \<equiv> 2 ^ 63 - 1"

definition band :: "error_arm \<Rightarrow> int \<times> int" where
  "band arm =
     (case arm_lo arm of Some n \<Rightarrow> n | None \<Rightarrow> i64_min, case arm_hi arm of Some n \<Rightarrow> n | None \<Rightarrow> i64_max)"

fun sweep :: "(int \<times> int) list \<Rightarrow> int \<Rightarrow> int \<Rightarrow> bool" where
  "sweep [] cursor stop = (cursor > stop)"
| "sweep ((lo, hi) # bands) cursor stop =
     (if lo > cursor then cursor > stop
      else let cursor = max cursor (hi + 1)
           in if cursor > stop then True else sweep bands cursor stop)"

definition arm_covered :: "error_arm list \<Rightarrow> error_arm \<Rightarrow> bool" where
  "arm_covered earlier arm =
     (let bands = map band [a \<leftarrow> earlier. ea_text a = None \<or> (ea_text arm \<noteq> None \<and> ea_text a = ea_text arm)]
      in sweep (sort bands) (fst (band arm)) (snd (band arm)))"

definition error_arms_cover :: "error_arm list \<Rightarrow> error_arm list \<Rightarrow> bool" where
  "error_arms_cover earlier later \<longleftrightarrow> list_all (arm_covered earlier) later"


text \<open>
  \<open>error_outcomes_cover\<close>: what one earlier arm says about the later one, then the collection over all
  earlier arms, then the loop over the later variant's arms.
\<close>

datatype arm_verdict = Irrelevant | Covering | CoverageUnknown

definition child_fields :: "union_variant \<Rightarrow> parsed_field list" where
  "child_fields v = [f \<leftarrow> uv_fields v. method_of f = ''child'']"

definition arm_verdict_of ::
    "union_variant \<Rightarrow> error_arm \<Rightarrow> error_arm \<Rightarrow> parsed_field list \<Rightarrow> arm_verdict option" where
  "arm_verdict_of variant arm later_arm later_children =
     (case (arm_lo arm, arm_hi arm, arm_lo later_arm, arm_hi later_arm) of
        (Some lo, Some hi, Some later_lo, Some later_hi) \<Rightarrow> Some (
          if hi < later_lo \<or> later_hi < lo
             \<or> (ea_text arm \<noteq> None \<and> ea_text later_arm \<noteq> None \<and> ea_text arm \<noteq> ea_text later_arm)
          then Irrelevant
          else let kids = child_fields variant
               in if list_all (\<lambda>child. child \<in> set later_children) kids then Covering
                  else if later_children = []
                          \<or> list_ex (\<lambda>child. \<not> list_ex (\<lambda>other. tag_or_name child = tag_or_name other)
                               later_children) kids
                  then Irrelevant else CoverageUnknown)
      | _ \<Rightarrow> None)"

datatype cover_error = PayloadCoverageUnknown

fun covering_arms :: "(union_variant \<times> error_arm) list \<Rightarrow> error_arm \<Rightarrow> parsed_field list
    \<Rightarrow> (cover_error + error_arm list) option" where
  "covering_arms [] later_arm later_children = Some (Inr [])"
| "covering_arms ((variant, arm) # ps) later_arm later_children =
     (case arm_verdict_of variant arm later_arm later_children of
        None \<Rightarrow> None
      | Some Irrelevant \<Rightarrow> covering_arms ps later_arm later_children
      | Some Covering \<Rightarrow>
          map_option (\<lambda>r. bind_res r (\<lambda>arms. Inr (arm # arms)))
            (covering_arms ps later_arm later_children)
      | Some CoverageUnknown \<Rightarrow> Some (Inl PayloadCoverageUnknown))"

definition payload_pairs :: "parser_validity \<Rightarrow> response_variant \<Rightarrow> (union_variant \<times> error_arm) list option" where
  "payload_pairs pv v =
     Option.bind (direct_error_payload pv v) (\<lambda>payload.
       map_option (\<lambda>variants. zip variants (rv_error_arms v)) (union_variants payload))"

fun all_pairs :: "parser_validity \<Rightarrow> response_variant list \<Rightarrow> (union_variant \<times> error_arm) list option" where
  "all_pairs pv [] = Some []"
| "all_pairs pv (v # vs) =
     (case payload_pairs pv v of
        None \<Rightarrow> None
      | Some ps \<Rightarrow> map_option (\<lambda>qs. ps @ qs) (all_pairs pv vs))"

fun cover_loop :: "(union_variant \<times> error_arm) list \<Rightarrow> (union_variant \<times> error_arm) list
    \<Rightarrow> (cover_error + bool) option" where
  "cover_loop earlier [] = Some (Inr True)"
| "cover_loop earlier ((later_variant, later_arm) # ls) =
     (case covering_arms earlier later_arm (child_fields later_variant) of
        None \<Rightarrow> None
      | Some (Inl e) \<Rightarrow> Some (Inl e)
      | Some (Inr covering) \<Rightarrow>
          if \<not> error_arms_cover covering [later_arm] then Some (Inr False)
          else cover_loop earlier ls)"

definition error_outcomes_cover ::
    "parser_validity \<Rightarrow> response_variant list \<Rightarrow> response_variant \<Rightarrow> (cover_error + bool) option" where
  "error_outcomes_cover pv earlier later =
     (case (all_pairs pv earlier, payload_pairs pv later) of
        (Some es, Some ls) \<Rightarrow> cover_loop es ls
      | _ \<Rightarrow> None)"

section \<open>Interval coverage\<close>

fun in_bands :: "(int \<times> int) list \<Rightarrow> int \<Rightarrow> bool" where
  "in_bands bands x = list_ex (\<lambda>(lo, hi). lo \<le> x \<and> x \<le> hi) bands"

lemma sweep_iff:
  "sorted (map fst bands) \<Longrightarrow> sweep bands cursor stop \<longleftrightarrow> (\<forall>x. cursor \<le> x \<and> x \<le> stop \<longrightarrow> in_bands bands x)"
proof (induction bands cursor stop rule: sweep.induct)
  case (1 cursor stop)
  then show ?case by (auto simp: not_less intro: exI [of _ cursor])
next
  case (2 lo hi bands cursor stop)
  show ?case
  proof (cases "lo > cursor")
    case True
    have "\<not> in_bands ((lo, hi) # bands) cursor"
    proof
      assume "in_bands ((lo, hi) # bands) cursor"
      then obtain l h where "(l, h) \<in> set bands" "l \<le> cursor" using True by (auto simp: list_ex_iff)
      then show False using "2.prems" True by (fastforce simp: image_iff)
    qed
    with True show ?thesis by (auto simp: not_less)
  next
    case False
    let ?c = "max cursor (hi + 1)"
    have step: "(\<forall>x. cursor \<le> x \<and> x \<le> stop \<longrightarrow> in_bands ((lo, hi) # bands) x)
        \<longleftrightarrow> (\<forall>x. ?c \<le> x \<and> x \<le> stop \<longrightarrow> in_bands bands x)" (is "?L \<longleftrightarrow> ?R")
    proof
      assume L: ?L
      show ?R
      proof (intro allI impI)
        fix x assume x: "?c \<le> x \<and> x \<le> stop"
        then have "\<not> x \<le> hi" by simp
        with L [rule_format, of x] x show "in_bands bands x" by simp
      qed
    next
      assume R: ?R
      show ?L
      proof (intro allI impI)
        fix x assume x: "cursor \<le> x \<and> x \<le> stop"
        show "in_bands ((lo, hi) # bands) x"
        proof (cases "x \<le> hi")
          case True
          with x False show ?thesis by simp
        next
          case False
          with x R show ?thesis by simp
        qed
      qed
    qed
    show ?thesis
    proof (cases "?c > stop")
      case True
      then show ?thesis using False unfolding step by (simp add: Let_def) linarith
    next
      case c: False
      have "sorted (map fst bands)" using "2.prems" by simp
      then have "sweep bands ?c stop \<longleftrightarrow> (\<forall>x. ?c \<le> x \<and> x \<le> stop \<longrightarrow> in_bands bands x)"
        using "2.IH" False c by simp
      with False c show ?thesis unfolding step by (simp add: Let_def)
    qed
  qed
qed

lemma sorted_map_fst: "sorted (xs :: (int \<times> int) list) \<Longrightarrow> sorted (map fst xs)"
  by (induction xs) (auto simp: less_eq_prod_def)

text \<open>
  The errors an arm accepts, as the condition emitted for it tests them: every constraint on the
  code, and the text when it is pinned.
\<close>

definition accepts_code :: "error_arm \<Rightarrow> int \<Rightarrow> bool" where
  "accepts_code arm code \<longleftrightarrow>
     (case ea_code arm of Some c \<Rightarrow> code = c | None \<Rightarrow> True)
     \<and> (case ea_code_min arm of Some lo \<Rightarrow> lo \<le> code | None \<Rightarrow> True)
     \<and> (case ea_code_max arm of Some hi \<Rightarrow> code \<le> hi | None \<Rightarrow> True)"

definition accepts :: "error_arm \<Rightarrow> int \<Rightarrow> string \<Rightarrow> bool" where
  "accepts arm code tx \<longleftrightarrow>
     accepts_code arm code \<and> (case ea_text arm of Some t \<Rightarrow> tx = t | None \<Rightarrow> True)"

definition arm_ok :: "error_arm \<Rightarrow> bool" where
  \<comment> \<open>64-bit bounds, and a pinned code within the bounds beside it\<close>
  "arm_ok arm \<longleftrightarrow>
     (case ea_code arm of Some c \<Rightarrow> accepts_code arm c \<and> i64_min \<le> c \<and> c \<le> i64_max | None \<Rightarrow> True)
     \<and> (case ea_code_min arm of Some lo \<Rightarrow> i64_min \<le> lo | None \<Rightarrow> True)
     \<and> (case ea_code_max arm of Some hi \<Rightarrow> hi \<le> i64_max | None \<Rightarrow> True)"

lemma band_accepts:
  "arm_ok arm \<Longrightarrow> fst (band arm) \<le> x \<and> x \<le> snd (band arm) \<longleftrightarrow> accepts_code arm x \<and> i64_min \<le> x \<and> x \<le> i64_max"
  by (auto simp: arm_ok_def band_def arm_lo_def arm_hi_def accepts_code_def split: option.splits)

lemma bex_filter: "(\<exists>a \<in> set (filter P xs). Q a) \<longleftrightarrow> (\<exists>a \<in> set xs. P a \<and> Q a)"
  by auto

lemma arm_covered_iff:
  "list_all arm_ok earlier \<Longrightarrow> arm_ok arm \<Longrightarrow>
   arm_covered earlier arm \<longleftrightarrow>
     (\<forall>x. accepts_code arm x \<and> i64_min \<le> x \<and> x \<le> i64_max \<longrightarrow>
        (\<exists>a \<in> set earlier. (ea_text a = None \<or> (ea_text arm \<noteq> None \<and> ea_text a = ea_text arm))
            \<and> accepts_code a x))"
proof -
  assume e: "list_all arm_ok earlier" and arm: "arm_ok arm"
  let ?E = "[a \<leftarrow> earlier. ea_text a = None \<or> (ea_text arm \<noteq> None \<and> ea_text a = ea_text arm)]"
  have in_b: "in_bands (sort (map band ?E)) x \<longleftrightarrow> (\<exists>a \<in> set ?E. accepts_code a x)"
    if "i64_min \<le> x" "x \<le> i64_max" for x
  proof -
    have "fst (band a) \<le> x \<and> x \<le> snd (band a) \<longleftrightarrow> accepts_code a x" if "a \<in> set ?E" for a
      using band_accepts [of a x] e that \<open>i64_min \<le> x\<close> \<open>x \<le> i64_max\<close> by (simp add: list_all_iff)
    then show ?thesis by (auto simp: list_ex_iff case_prod_beta)
  qed
  have "arm_covered earlier arm \<longleftrightarrow>
      (\<forall>x. fst (band arm) \<le> x \<and> x \<le> snd (band arm) \<longrightarrow> in_bands (sort (map band ?E)) x)"
    unfolding arm_covered_def Let_def by (rule sweep_iff) (intro sorted_map_fst sorted_sort)
  also have "\<dots> \<longleftrightarrow> (\<forall>x. accepts_code arm x \<and> i64_min \<le> x \<and> x \<le> i64_max \<longrightarrow> (\<exists>a \<in> set ?E. accepts_code a x))"
    using band_accepts [OF arm] in_b by blast
  finally show ?thesis unfolding bex_filter .
qed

lemma fresh_text: "\<exists>t :: string. \<forall>a \<in> set arms. ea_text a \<noteq> Some t"
proof -
  have "finite {t. Some t \<in> ea_text ` set arms}"
    by (rule finite_imageD [of Some]) (auto intro: finite_subset [of _ "ea_text ` set arms"])
  then obtain t :: string where "t \<notin> {t. Some t \<in> ea_text ` set arms}"
    using infinite_UNIV_listI ex_new_if_finite by metis
  then show ?thesis by (auto simp: image_iff) metis
qed

lemma covers_accepts:
  assumes "list_all arm_ok earlier" "arm_ok b" "error_arms_cover earlier [b]"
    and "accepts b x tx" "i64_min \<le> x \<and> x \<le> i64_max"
  shows "\<exists>a \<in> set earlier. accepts a x tx"
proof -
  from assms obtain a where "a \<in> set earlier" "accepts_code a x"
      "ea_text a = None \<or> (ea_text b \<noteq> None \<and> ea_text a = ea_text b)"
    using arm_covered_iff [OF assms(1,2)] by (auto simp: error_arms_cover_def accepts_def)
  with assms(4) show ?thesis by (auto simp: accepts_def split: option.splits)
qed

lemma uncovered_error:
  assumes "list_all arm_ok earlier" "arm_ok b" "\<not> error_arms_cover earlier [b]"
  shows "\<exists>x tx. i64_min \<le> x \<and> x \<le> i64_max \<and> accepts b x tx \<and> \<not> list_ex (\<lambda>a. accepts a x tx) earlier"
proof -
  from assms obtain x where x: "accepts_code b x" "i64_min \<le> x" "x \<le> i64_max"
    "\<not> (\<exists>a \<in> set earlier. (ea_text a = None \<or> (ea_text b \<noteq> None \<and> ea_text a = ea_text b)) \<and> accepts_code a x)"
    using arm_covered_iff [OF assms(1,2)] by (auto simp: error_arms_cover_def)
  obtain tx where t: "case ea_text b of Some t \<Rightarrow> tx = t | None \<Rightarrow> \<forall>a \<in> set earlier. ea_text a \<noteq> Some tx"
    using fresh_text [of earlier] by (cases "ea_text b") auto
  then have "accepts b x tx" using x(1) by (auto simp: accepts_def split: option.splits)
  moreover have "\<not> list_ex (\<lambda>a. accepts a x tx) earlier"
    using t x(4) by (auto simp: list_ex_iff accepts_def split: option.splits)
  ultimately show ?thesis using x by blast
qed

text \<open>
  The interval sweep decides coverage exactly: over 64-bit codes and all texts, the earlier arms
  cover the later ones if and only if every error a later arm accepts is accepted by an earlier one.
\<close>

theorem error_arms_cover_exact:
  assumes "list_all arm_ok earlier" "list_all arm_ok later"
  shows "error_arms_cover earlier later \<longleftrightarrow>
    (\<forall>x tx. i64_min \<le> x \<and> x \<le> i64_max \<longrightarrow>
       list_ex (\<lambda>b. accepts b x tx) later \<longrightarrow> list_ex (\<lambda>a. accepts a x tx) earlier)" (is "_ \<longleftrightarrow> ?R")
proof -
  have single: "error_arms_cover earlier later \<longleftrightarrow> list_all (\<lambda>b. error_arms_cover earlier [b]) later"
    by (simp add: error_arms_cover_def)
  show ?thesis
  proof
    assume "error_arms_cover earlier later"
    then show ?R using covers_accepts [OF assms(1)] assms(2) single by (auto simp: list_all_iff list_ex_iff)
  next
    assume R: ?R
    have "error_arms_cover earlier [b]" if "b \<in> set later" for b
    proof (rule ccontr)
      assume not: "\<not> error_arms_cover earlier [b]"
      have "arm_ok b" using assms(2) that by (simp add: list_all_iff)
      from uncovered_error [OF assms(1) this not] obtain x tx where
        "i64_min \<le> x \<and> x \<le> i64_max" "accepts b x tx" "\<not> list_ex (\<lambda>a. accepts a x tx) earlier" by blast
      with R that show False by (auto simp: list_ex_iff)
    qed
    then show "error_arms_cover earlier later" unfolding single by (simp add: list_all_iff)
  qed
qed

section \<open>Coverage of error outcomes\<close>

text \<open>
  The \<open><error>\<close> node as the emitted arm reads it: a binary body fails any arm that reads children, a
  child tag may occur once at most, and what is there must parse (\<open>parses\<close>, the payload parser).
\<close>

record error_node =
  en_bytes :: bool
  en_count :: "string \<Rightarrow> nat"

definition child_accepts :: "(parsed_field \<Rightarrow> bool) \<Rightarrow> error_node \<Rightarrow> parsed_field \<Rightarrow> bool" where
  "child_accepts parses n c \<longleftrightarrow>
     en_count n (tag_or_name c) = 0 \<or> (en_count n (tag_or_name c) = 1 \<and> parses c)"

definition arm_accepts ::
    "(parsed_field \<Rightarrow> bool) \<Rightarrow> error_node \<Rightarrow> int \<Rightarrow> string \<Rightarrow> union_variant \<times> error_arm \<Rightarrow> bool" where
  "arm_accepts parses n x tx p \<longleftrightarrow>
     accepts (snd p) x tx \<and> (child_fields (fst p) = [] \<or> \<not> en_bytes n)
     \<and> list_all (child_accepts parses n) (child_fields (fst p))"

definition outcome_accepts ::
    "parser_validity \<Rightarrow> (parsed_field \<Rightarrow> bool) \<Rightarrow> error_node \<Rightarrow> int \<Rightarrow> string \<Rightarrow> response_variant \<Rightarrow> bool" where
  "outcome_accepts pv parses n x tx v \<longleftrightarrow>
     (case payload_pairs pv v of None \<Rightarrow> False | Some ps \<Rightarrow> list_ex (arm_accepts parses n x tx) ps)"

lemma payload_pairs_ok:
  "payload_pairs pv v = Some ps \<Longrightarrow> (uv, arm) \<in> set ps \<Longrightarrow> error_variant_ok uv arm \<and> arm \<in> set (rv_error_arms v)"
  by (auto simp: payload_pairs_def direct_error_payload_def direct_error_payload_shape_def list_all_iff
      dest: set_zip_rightD split: option.splits if_splits bind_splits)

lemma error_variant_bands:
  "error_variant_ok uv arm \<Longrightarrow> \<exists>lo hi. arm_lo arm = Some lo \<and> arm_hi arm = Some hi"
  by (auto simp: error_variant_ok_def split: option.splits)

lemma covering_arms_total:
  "list_all (\<lambda>(uv, arm). error_variant_ok uv arm) ps \<Longrightarrow> error_variant_ok uv later_arm \<Longrightarrow>
   covering_arms ps later_arm ls \<noteq> None"
proof (induction ps)
  case (Cons p ps)
  obtain v arm where p: "p = (v, arm)" by (cases p)
  obtain lo hi lo' hi' where "arm_lo arm = Some lo" "arm_hi arm = Some hi"
    "arm_lo later_arm = Some lo'" "arm_hi later_arm = Some hi'"
    using Cons.prems p error_variant_bands by (metis list.pred_inject(2) prod.case)
  then have "arm_verdict_of v arm later_arm ls \<noteq> None" by (simp add: arm_verdict_of_def)
  with Cons p show ?case by (auto split: option.splits arm_verdict.splits)
qed simp

lemma all_pairs_concat:
  "all_pairs pv vs = Some qs \<longleftrightarrow>
     list_all (\<lambda>v. payload_pairs pv v \<noteq> None) vs \<and> qs = concat (map (\<lambda>v. the (payload_pairs pv v)) vs)"
  by (induction vs arbitrary: qs) (auto split: option.splits)

text \<open>An earlier arm that is left out accepts no node a certain kind of node of the later arm is.\<close>

definition avoiding_node :: "parsed_field list \<Rightarrow> error_node" where
  "avoiding_node ls = \<lparr>en_bytes = (ls = []),
     en_count = (\<lambda>t. if list_ex (\<lambda>c. tag_or_name c = t) ls then 0 else 2)\<rparr>"

lemma avoiding_node_later: "list_all (child_accepts parses (avoiding_node ls)) ls"
  by (auto simp: list_all_iff list_ex_iff child_accepts_def avoiding_node_def)

lemma accepts_disjoint:
  "arm_lo arm = Some lo \<Longrightarrow> arm_hi arm = Some hi \<Longrightarrow> accepts arm x tx \<Longrightarrow> lo \<le> x \<and> x \<le> hi"
  by (auto simp: accepts_def accepts_code_def arm_lo_def arm_hi_def split: option.splits)

lemma irrelevant_rejects:
  assumes "arm_verdict_of uv arm later_arm ls = Some Irrelevant" "accepts later_arm x tx"
  shows "\<not> arm_accepts parses (avoiding_node ls) x tx (uv, arm)"
proof
  assume acc: "arm_accepts parses (avoiding_node ls) x tx (uv, arm)"
  obtain lo hi lo' hi' where b: "arm_lo arm = Some lo" "arm_hi arm = Some hi"
    "arm_lo later_arm = Some lo'" "arm_hi later_arm = Some hi'"
    using assms(1) by (auto simp: arm_verdict_of_def split: option.splits)
  have a: "accepts arm x tx" using acc by (simp add: arm_accepts_def)
  have near: "\<not> hi < lo'" "\<not> hi' < lo"
    using accepts_disjoint [OF b(1,2) a] accepts_disjoint [OF b(3,4) assms(2)] by linarith+
  moreover have "\<not> (ea_text arm \<noteq> None \<and> ea_text later_arm \<noteq> None \<and> ea_text arm \<noteq> ea_text later_arm)"
    using a assms(2) by (auto simp: accepts_def split: option.splits)
  ultimately have no: "\<not> list_all (\<lambda>child. child \<in> set ls) (child_fields uv)"
    "ls = [] \<or> list_ex (\<lambda>child. \<not> list_ex (\<lambda>other. tag_or_name child = tag_or_name other) ls) (child_fields uv)"
    using assms(1) b by (auto simp: arm_verdict_of_def Let_def split: if_splits)
  show False
  proof (cases "ls = []")
    case True
    with acc no(1) show False by (auto simp: arm_accepts_def avoiding_node_def list_all_iff)
  next
    case False
    with no(2) obtain c where "c \<in> set (child_fields uv)" "\<not> list_ex (\<lambda>o'. tag_or_name o' = tag_or_name c) ls"
      by (auto simp: list_ex_iff) metis
    with acc show False
      by (auto simp: arm_accepts_def child_accepts_def avoiding_node_def list_all_iff list_ex_iff)
  qed
qed

lemma covering_arms_iff:
  "covering_arms ps later_arm ls = Some (Inr arms) \<Longrightarrow>
     arms = map snd [p \<leftarrow> ps. arm_verdict_of (fst p) (snd p) later_arm ls = Some Covering]
     \<and> list_all (\<lambda>p. arm_verdict_of (fst p) (snd p) later_arm ls \<in> {Some Covering, Some Irrelevant}) ps"
proof (induction ps arbitrary: arms)
  case (Cons p ps)
  obtain v arm where p: "p = (v, arm)" by (cases p)
  from Cons.prems p obtain vd where vd: "arm_verdict_of v arm later_arm ls = Some vd"
    by (cases "arm_verdict_of v arm later_arm ls") simp_all
  show ?case
  proof (cases vd)
    case Irrelevant
    with Cons p vd show ?thesis by simp
  next
    case Covering
    with Cons.prems p vd obtain rest where "covering_arms ps later_arm ls = Some (Inr rest)" "arms = arm # rest"
      by (auto simp: bind_res_Inr)
    with Cons.IH p vd Covering show ?thesis by simp
  next
    case CoverageUnknown
    with Cons.prems p vd show ?thesis by simp
  qed
qed simp

lemma covering_accepts:
  assumes "arm_verdict_of uv arm later_arm (child_fields lv) = Some Covering"
    "arm_accepts parses n x tx (lv, later_arm)" "accepts arm x tx"
  shows "arm_accepts parses n x tx (uv, arm)"
proof -
  have "list_all (\<lambda>c. c \<in> set (child_fields lv)) (child_fields uv)"
    using assms(1) by (auto simp: arm_verdict_of_def Let_def split: option.splits if_splits)
  with assms show ?thesis by (auto simp: arm_accepts_def list_all_iff)
qed

lemma cover_loop_True:
  assumes "cover_loop es ls = Some (Inr True)" "(lv, la) \<in> set ls"
  shows "\<exists>arms. covering_arms es la (child_fields lv) = Some (Inr arms) \<and> error_arms_cover arms [la]"
  using assms by (induction es ls rule: cover_loop.induct) (auto split: option.splits sum.splits if_splits)

lemma cover_loop_False:
  assumes "cover_loop es ls = Some (Inr False)"
  shows "\<exists>lv la arms. (lv, la) \<in> set ls \<and> covering_arms es la (child_fields lv) = Some (Inr arms)
           \<and> \<not> error_arms_cover arms [la]"
  using assms
proof (induction ls)
  case (Cons l ls)
  obtain lv la where l: "l = (lv, la)" by (cases l)
  from Cons.prems l obtain arms where arms: "covering_arms es la (child_fields lv) = Some (Inr arms)"
    by (auto split: option.splits sum.splits)
  show ?case
  proof (cases "error_arms_cover arms [la]")
    case True
    with Cons.prems l arms have "cover_loop es ls = Some (Inr False)" by simp
    from Cons.IH [OF this] show ?thesis by auto
  next
    case False
    with l arms show ?thesis by auto
  qed
qed simp

lemma arm_range: "error_variant_ok uv arm \<Longrightarrow> accepts arm x tx \<Longrightarrow> i64_min \<le> x \<and> x \<le> i64_max"
proof -
  assume ok: "error_variant_ok uv arm" and a: "accepts arm x tx"
  obtain lo hi where "arm_lo arm = Some lo" "arm_hi arm = Some hi" "0 \<le> lo" "hi \<le> 2147483647"
    using ok by (auto simp: error_variant_ok_def split: option.splits)
  with accepts_disjoint [OF this(1,2) a] show ?thesis by simp
qed

lemma bounded_pairs:
  assumes "direct_error_payload pv v \<noteq> None"
  shows "\<exists>ps. payload_pairs pv v = Some ps \<and> list_all (\<lambda>(uv, arm). error_variant_ok uv arm) ps"
proof -
  obtain ps where ps: "payload_pairs pv v = Some ps"
    using assms by (auto simp: payload_pairs_def direct_error_payload_def split: option.splits if_split_asm)
  then show ?thesis using payload_pairs_ok [OF ps] by (auto simp: list_all_iff)
qed

lemma cover_loop_total:
  assumes "list_all (\<lambda>(uv, arm). error_variant_ok uv arm) es" "list_all (\<lambda>(uv, arm). error_variant_ok uv arm) ls"
  shows "cover_loop es ls \<noteq> None"
  using assms(2)
proof (induction ls)
  case (Cons l ls)
  obtain lv la where l: "l = (lv, la)" by (cases l)
  have "covering_arms es la (child_fields lv) \<noteq> None"
    using covering_arms_total [OF assms(1)] Cons.prems l by auto
  with Cons l show ?case by (auto split: sum.splits)
qed simp

lemma all_pairs_ok:
  assumes "list_all (\<lambda>v. direct_error_payload pv v \<noteq> None) vs"
  shows "\<exists>es. all_pairs pv vs = Some es \<and> list_all (\<lambda>(uv, arm). error_variant_ok uv arm) es"
  using assms
proof (induction vs)
  case (Cons v vs)
  with bounded_pairs [of pv v] show ?case by auto
qed simp

lemma error_outcomes_cover_total:
  assumes "list_all (\<lambda>v. direct_error_payload pv v \<noteq> None) (later # earlier)"
  shows "error_outcomes_cover pv earlier later \<noteq> None"
proof -
  obtain es where "all_pairs pv earlier = Some es" "list_all (\<lambda>(uv, arm). error_variant_ok uv arm) es"
    using all_pairs_ok [of pv earlier] assms by auto
  moreover obtain ls where "payload_pairs pv later = Some ls" "list_all (\<lambda>(uv, arm). error_variant_ok uv arm) ls"
    using bounded_pairs [of pv later] assms by auto
  ultimately show ?thesis using cover_loop_total by (simp add: error_outcomes_cover_def)
qed

definition outcome_reachable :: "parser_validity \<Rightarrow> response_variant list \<Rightarrow> response_variant \<Rightarrow> bool" where
  \<comment> \<open>some error node the later outcome accepts is accepted by none of the earlier ones\<close>
  "outcome_reachable pv earlier later \<longleftrightarrow>
     (\<exists>parses n x tx. outcome_accepts pv parses n x tx later
        \<and> \<not> list_ex (outcome_accepts pv parses n x tx) earlier)"

lemma error_outcomes_cover_reachable:
  assumes "list_all (\<lambda>v. direct_error_payload pv v \<noteq> None \<and> list_all arm_ok (rv_error_arms v)) (later # earlier)"
    and "error_outcomes_cover pv earlier later = Some (Inr covered)"
  shows "covered \<longleftrightarrow> \<not> outcome_reachable pv earlier later"
proof -
  have some: "payload_pairs pv v \<noteq> None" if "direct_error_payload pv v \<noteq> None" for v
    using that by (auto simp: payload_pairs_def direct_error_payload_def split: option.splits if_split_asm)
  obtain es where es: "all_pairs pv earlier = Some es"
    "es = concat (map (\<lambda>v. the (payload_pairs pv v)) earlier)"
    using assms(1) some all_pairs_concat [of pv earlier] by (auto simp: list_all_iff)
  obtain ls where ls: "payload_pairs pv later = Some ls" using assms some [of later] by auto
  have ok_es: "error_variant_ok (fst p) (snd p) \<and> arm_ok (snd p)" if p: "p \<in> set es" for p
  proof -
    obtain v where v: "v \<in> set earlier" "p \<in> set (the (payload_pairs pv v))" using p es(2) by auto
    then obtain ps where "payload_pairs pv v = Some ps" using assms some [of v] by (auto simp: list_all_iff)
    with v payload_pairs_ok [OF this, of "fst p" "snd p"] assms show ?thesis
      by (auto simp: list_all_iff)
  qed
  have ok_ls: "error_variant_ok (fst p) (snd p) \<and> arm_ok (snd p)" if "p \<in> set ls" for p
    using payload_pairs_ok [OF ls, of "fst p" "snd p"] that assms by (auto simp: list_all_iff)
  have acc_es: "list_ex (outcome_accepts pv parses n x tx) earlier \<longleftrightarrow> list_ex (arm_accepts parses n x tx) es" for parses n x tx
    using assms some unfolding es(2)
    by (auto simp: list_ex_iff list_all_iff outcome_accepts_def split: option.splits) (metis option.sel)+
  have acc_ls: "outcome_accepts pv parses n x tx later \<longleftrightarrow> list_ex (arm_accepts parses n x tx) ls" for parses n x tx
    by (simp add: outcome_accepts_def ls)
  have arms_ok: "list_all arm_ok arms" if "covering_arms es la (child_fields lv) = Some (Inr arms)" for la lv arms
    using covering_arms_iff [OF that] ok_es by (auto simp: list_all_iff)
  have yes: "list_ex (arm_accepts parses n x tx) es"
    if c: "cover_loop es ls = Some (Inr True)" and a: "list_ex (arm_accepts parses n x tx) ls" for parses n x tx
  proof -
    from a obtain lv la where l: "(lv, la) \<in> set ls" "arm_accepts parses n x tx (lv, la)"
      by (auto simp: list_ex_iff)
    obtain arms where arms: "covering_arms es la (child_fields lv) = Some (Inr arms)" "error_arms_cover arms [la]"
      using cover_loop_True [OF c l(1)] by blast
    have la: "accepts la x tx" using l(2) by (simp add: arm_accepts_def)
    have "i64_min \<le> x \<and> x \<le> i64_max" using arm_range la ok_ls [OF l(1)] by (metis fst_conv snd_conv)
    then obtain arm where "arm \<in> set arms" "accepts arm x tx"
      using covers_accepts [OF arms_ok [OF arms(1)] _ arms(2)] ok_ls [OF l(1)] la by auto
    then obtain uv where "(uv, arm) \<in> set es" "arm_verdict_of uv arm la (child_fields lv) = Some Covering"
      using covering_arms_iff [OF arms(1)] by auto
    with covering_accepts [OF this(2) l(2) \<open>accepts arm x tx\<close>] show ?thesis by (auto simp: list_ex_iff)
  qed
  have no: "\<exists>parses n x tx. list_ex (arm_accepts parses n x tx) ls \<and> \<not> list_ex (arm_accepts parses n x tx) es"
    if c: "cover_loop es ls = Some (Inr False)"
  proof -
    obtain lv la arms where l: "(lv, la) \<in> set ls"
      and arms: "covering_arms es la (child_fields lv) = Some (Inr arms)" "\<not> error_arms_cover arms [la]"
      using cover_loop_False [OF c] by blast
    obtain x tx where x: "accepts la x tx" "\<not> list_ex (\<lambda>a. accepts a x tx) arms"
      using uncovered_error [OF arms_ok [OF arms(1)] _ arms(2)] ok_ls [OF l] by auto
    let ?n = "avoiding_node (child_fields lv)" and ?p = "\<lambda>_ :: parsed_field. True"
    have "arm_accepts ?p ?n x tx (lv, la)"
      using x(1) avoiding_node_later by (auto simp: arm_accepts_def avoiding_node_def)
    moreover have "\<not> arm_accepts ?p ?n x tx q" if q: "q \<in> set es" for q
    proof (cases "arm_verdict_of (fst q) (snd q) la (child_fields lv) = Some Covering")
      case True
      then have "snd q \<in> set arms" using covering_arms_iff [OF arms(1)] q by auto
      with x(2) show ?thesis by (auto simp: arm_accepts_def list_ex_iff)
    next
      case False
      then have "arm_verdict_of (fst q) (snd q) la (child_fields lv) = Some Irrelevant"
        using covering_arms_iff [OF arms(1)] q by (auto simp: list_all_iff)
      from irrelevant_rejects [OF this x(1)] show ?thesis by simp
    qed
    ultimately show ?thesis using l unfolding list_ex_iff by blast
  qed
  have eq: "cover_loop es ls = Some (Inr covered)"
    using assms(2) by (simp add: error_outcomes_cover_def es(1) ls)
  show ?thesis unfolding outcome_reachable_def acc_es acc_ls
  proof (cases covered)
    case True
    with eq have "cover_loop es ls = Some (Inr True)" by simp
    from yes [OF this] True show "covered \<longleftrightarrow> \<not> (\<exists>parses n x tx.
        list_ex (arm_accepts parses n x tx) ls \<and> \<not> list_ex (arm_accepts parses n x tx) es)" by blast
  next
    case False
    with eq have "cover_loop es ls = Some (Inr False)" by simp
    from no [OF this] False show "covered \<longleftrightarrow> \<not> (\<exists>parses n x tx.
        list_ex (arm_accepts parses n x tx) ls \<and> \<not> list_ex (arm_accepts parses n x tx) es)" by blast
  qed
qed

text \<open>
  C5: the coverage test of bounded error outcomes never panics on bounded outcomes and is exact: when
  it answers, it answers yes if and only if every error node the later outcome accepts, whatever its
  children and whatever their payload parsers take, is accepted by an earlier outcome.
\<close>

theorem error_outcomes_cover_exact:
  assumes "list_all (\<lambda>v. direct_error_payload pv v \<noteq> None \<and> list_all arm_ok (rv_error_arms v)) (later # earlier)"
  shows "error_outcomes_cover pv earlier later \<noteq> None
    \<and> (case error_outcomes_cover pv earlier later of
         Some (Inr covered) \<Rightarrow> covered \<longleftrightarrow> \<not> outcome_reachable pv earlier later
       | _ \<Rightarrow> True)"
proof -
  have "error_outcomes_cover pv earlier later \<noteq> None"
    using error_outcomes_cover_total [of pv later earlier] assms by (auto simp: list_all_iff)
  then show ?thesis using error_outcomes_cover_reachable [OF assms] by (auto split: option.split sum.split)
qed

section \<open>What pins and guards mean on the wire\<close>

record wire_node =
  wn_tag :: string
  wn_attrs :: "string \<Rightarrow> string option"
  wn_text :: "string option"
  wn_bytes :: bool
  wn_children :: "string \<Rightarrow> nat"

fun holds :: "wire_node \<Rightarrow> condition \<Rightarrow> bool" where
  "holds n (TagIs t) = (wn_tag n = t)"
| "holds n (AttrIs a v) = (wn_attrs n a = Some v)"
| "holds n (AttrPresent a) = (wn_attrs n a \<noteq> None)"
| "holds n (TextIs v) = (wn_text n = Some v)"
| "holds n (OneChild t) = (\<not> wn_bytes n \<and> wn_children n t = 1)"

definition satisfies :: "wire_node \<Rightarrow> response_variant \<Rightarrow> bool" where
  "satisfies n v \<longleftrightarrow>
     (case assertion_conditions (rv_assertions v) of Inl e \<Rightarrow> False | Inr cs \<Rightarrow> list_all (holds n) cs)"

lemma satisfies_guard:
  assumes "satisfies n v" "a \<in> set (rv_assertions v)" "ra_kind a \<noteq> ReferenceK"
  shows "\<exists>c. condition_of a = Some c \<and> holds n c \<and> ra_kind a \<noteq> FromServer"
proof -
  have "list_all (holds n) cs \<Longrightarrow> assertion_conditions as = Inr cs \<Longrightarrow> a \<in> set as \<Longrightarrow>
      \<exists>c. condition_of a = Some c \<and> holds n c \<and> ra_kind a \<noteq> FromServer" for as cs
    using assms(3)
    by (induction as arbitrary: cs) (auto simp: bind_res_Inr split: if_splits option.splits)
  with assms(1,2) show ?thesis by (auto simp: satisfies_def split: sum.splits)
qed

lemma satisfies_intro:
  assumes "assertion_conditions as = Inr cs"
    "\<forall>a \<in> set as. \<forall>c. ra_kind a \<noteq> ReferenceK \<longrightarrow> condition_of a = Some c \<longrightarrow> holds n c"
  shows "list_all (holds n) cs"
  using assms by (induction as arbitrary: cs) (auto simp: bind_res_Inr split: if_splits option.splits)

lemma pin_condition:
  "pin_of a = Some p \<Longrightarrow> ra_kind a \<noteq> ReferenceK \<and>
     condition_of a = Some (case p of PinAttr n v \<Rightarrow> AttrIs n v | PinContent v \<Rightarrow> TextIs v | PinTag t \<Rightarrow> TagIs t)"
  by (cases "ra_kind a"; cases "ra_name a"; cases "ra_value a") (auto simp: pin_of_def condition_of_def)

lemma conflict_disjoint:
  assumes "assertions_conflict a b" shows "\<not> (satisfies n a \<and> satisfies n b)"
proof
  assume sat: "satisfies n a \<and> satisfies n b"
  obtain x y p q where x: "x \<in> set (rv_assertions a)" "pin_of x = Some p"
    and y: "y \<in> set (rv_assertions b)" "pin_of y = Some q" and d: "pins_differ p q"
    using assms by (auto simp: assertions_conflict_def pins_can_coincide_def variant_pins_def list_ex_iff mem_map_filter)
  note sx = satisfies_guard [of n a x] and sy = satisfies_guard [of n b y]
  have "holds n (case p of PinAttr n v \<Rightarrow> AttrIs n v | PinContent v \<Rightarrow> TextIs v | PinTag t \<Rightarrow> TagIs t)"
    using sx sat x pin_condition [OF x(2)] by auto
  moreover have "holds n (case q of PinAttr n v \<Rightarrow> AttrIs n v | PinContent v \<Rightarrow> TextIs v | PinTag t \<Rightarrow> TagIs t)"
    using sy sat y pin_condition [OF y(2)] by auto
  ultimately show False using d by (cases p; cases q) auto
qed

definition bounded_error_node :: "wire_node \<Rightarrow> bool" where
  \<comment> \<open>what \<open>error_selection\<close> requires of the response besides the arms\<close>
  "bounded_error_node n \<longleftrightarrow>
     wn_attrs n ''type'' = Some ''error'' \<and> \<not> wn_bytes n \<and> wn_children n ''error'' = 1"

text \<open>
  The static comparisons of guards are sound on the wire: two variants that conflict are
  satisfied by no common node, and where an earlier variant's guards are implied by a later one's,
  every node that satisfies the later, and has the shape the bounded error decoder enforces where
  that applies, satisfies the earlier.
\<close>

theorem guard_comparisons_sound:
  "\<not> (assertions_conflict a b \<and> satisfies n a \<and> satisfies n b)
   \<and> (assertions_implied_by pv a b \<and> satisfies n b
        \<and> (direct_error_payload pv b = None \<or> bounded_error_node n)
        \<and> assertion_conditions (rv_assertions a) = Inr cs \<longrightarrow> satisfies n a)"
proof (intro conjI impI)
  show "\<not> (assertions_conflict a b \<and> satisfies n a \<and> satisfies n b)"
    using conflict_disjoint by blast
  assume asm: "assertions_implied_by pv a b \<and> satisfies n b
        \<and> (direct_error_payload pv b = None \<or> bounded_error_node n)
        \<and> assertion_conditions (rv_assertions a) = Inr cs"
  have "holds n c" if x: "x \<in> set (rv_assertions a)" "ra_kind x \<noteq> ReferenceK" "condition_of x = Some c" for x c
  proof -
    from asm x(1) consider "bounded_error_node n" "bounded_error_enforces x"
      | y where "y \<in> set (rv_assertions b)" "guard_implied x y"
      by (auto simp: assertions_implied_by_def Let_def list_all_iff list_ex_iff)
    then show ?thesis
    proof cases
      case 1
      then show ?thesis using x(3)
        by (auto simp: bounded_error_enforces_def bounded_error_node_def condition_of_def split: if_splits)
    next
      case 2
      then obtain d where "condition_of y = Some d" "holds n d"
        using satisfies_guard [of n b y] asm x(2) by (auto simp: guard_implied_def)
      with 2(2) x(2,3) show ?thesis
        by (cases "ra_kind x") (auto simp: guard_implied_def condition_of_def split: option.splits)
    qed
  qed
  then have "list_all (holds n) cs" using asm by (intro satisfies_intro) auto
  with asm show "satisfies n a" by (simp add: satisfies_def)
qed


section \<open>Samples\<close>

definition guard :: "assertion_kind \<Rightarrow> string \<Rightarrow> string option \<Rightarrow> response_assertion" where
  "guard k n v = \<lparr>ra_kind = k, ra_name = Some n, ra_value = v, ra_reference_path = None\<rparr>"

definition arm_of :: "string \<Rightarrow> int option \<Rightarrow> string option \<Rightarrow> int option \<Rightarrow> int option \<Rightarrow> error_arm" where
  "arm_of n c t lo hi =
     \<lparr>ea_name = Some n, ea_code = c, ea_text = t, ea_code_min = lo, ea_code_max = hi\<rparr>"

definition leaf :: "string \<Rightarrow> string \<Rightarrow> parsed_field_type \<Rightarrow> string option \<Rightarrow> field_data" where
  "leaf m n t lit = default_field\<lparr>pf_method := m, pf_name := n, pf_field_type := t,
     pf_parser_required := True, pf_literal_value := lit\<rparr>"

definition bad_request :: union_variant where
  "bad_request = UnionVariant ''IQErrorBadRequest''
     [ParsedField (leaf ''attrInt'' ''code'' IntegerT (Some ''400'')) None None,
      ParsedField (leaf ''attrString'' ''text'' StringT (Some ''bad-request'')) None None]
     [guard TagK ''error'' None, guard AttrK ''code'' (Some ''400''), guard AttrK ''text'' (Some ''bad-request'')]"

definition client_fallback :: union_variant where
  "client_fallback = UnionVariant ''IQErrorFallbackClient''
     [ParsedField (leaf ''attrInt'' ''code'' IntegerT None\<lparr>pf_int_min := Some 400, pf_int_max := Some 499\<rparr>) None None,
      ParsedField (leaf ''attrString'' ''text'' StringT None) None None]
     [guard TagK ''error'' None]"

definition sample_arms :: "error_arm list" where
  "sample_arms = [arm_of ''IQErrorBadRequest'' (Some 400) (Some ''bad-request'') None None,
     arm_of ''IQErrorFallbackClient'' None None (Some 400) (Some 499)]"

text \<open>A client error as the scanner records it: the header, the union of the two error shapes.\<close>

definition client_error :: response_variant where
  "client_error = \<lparr>rv_tag = ''GetResponseClientError'', rv_module_name = ''M'', rv_kind = ClientError,
     rv_error_arms = sample_arms, rv_error_envelope = None,
     rv_assertions = [guard TagK ''iq'' None, guard AttrK ''type'' (Some ''error'')],
     rv_fields =
       [ParsedField (leaf ''attrString'' ''type'' StringT (Some ''error'')) None None,
        ParsedField (leaf [] ''errors'' UnionT None\<lparr>pf_source_path := Some [''error'']\<rparr>) None
          (Some [bad_request, client_fallback])]\<rparr>"

definition success_outcome :: response_variant where
  "success_outcome = \<lparr>rv_tag = ''GetResponseSuccess'', rv_module_name = ''M'', rv_kind = Success,
     rv_error_arms = [], rv_error_envelope = None,
     rv_assertions = [guard TagK ''iq'' None, guard AttrK ''type'' (Some ''result'')], rv_fields = []\<rparr>"

abbreviation any_parser :: parser_validity where "any_parser \<equiv> \<lambda>_ _ _. True"

lemma sample_arms_ok: "list_all arm_ok sample_arms"
  by (simp add: sample_arms_def arm_of_def arm_ok_def accepts_code_def)

lemma client_error_bounded: "direct_error_payload any_parser client_error \<noteq> None"
  by code_simp

lemma client_error_covers: "error_outcomes_cover any_parser [client_error] client_error = Some (Inr True)"
  by code_simp

theorem error_arms_cover_exact_witness:
  "list_ex (\<lambda>a. accepts a 401 ''x'') sample_arms"
proof -
  have "error_arms_cover sample_arms [arm_of ''n'' (Some 401) None None None]"
    "list_all arm_ok [arm_of ''n'' (Some 401) None None None]"
    "accepts (arm_of ''n'' (Some 401) None None None) 401 ''x''"
    by code_simp+
  then show ?thesis using error_arms_cover_exact [OF sample_arms_ok] by force
qed

theorem error_outcomes_cover_exact_witness: "\<not> outcome_reachable any_parser [client_error] client_error"
  using error_outcomes_cover_exact [of any_parser client_error "[client_error]"]
    client_error_bounded client_error_covers sample_arms_ok
  by (simp add: client_error_def)

theorem guard_comparisons_sound_witness:
  "\<nexists>n. satisfies n success_outcome \<and> satisfies n client_error"
proof -
  have "assertions_conflict success_outcome client_error" by code_simp
  then show ?thesis using guard_comparisons_sound [of success_outcome client_error] by blast
qed

end
