(* ===== verification/OutcomeGate.thy ===== *)
theory OutcomeGate
  imports Outcomes ResponseNode
begin

text \<open>
  The decision part of \<open>emit_outcome_types\<close>, \<open>crates/wa-codegen/src/spec.rs\<close>: the names of an RPC's
  outcomes, the checks on each variant, and the refusal of variants an earlier one would shadow.
  \<open>admit_outcomes\<close> is that function up to the point where it starts writing Rust text.
\<close>

section \<open>Names\<close>

definition common_len :: "string \<Rightarrow> string \<Rightarrow> nat" where
  "common_len a b = length (takeWhile (\<lambda>(x, y). x = y) (zip a b))"

fun back_up :: "string \<Rightarrow> nat \<Rightarrow> nat" where
  "back_up b 0 = 0"
| "back_up b (Suc n) =
     (if Suc n < length b \<and> \<not> is_ascii_uppercase (b ! Suc n) then back_up b n else Suc n)"

definition variant_tag_prefix :: "string list \<Rightarrow> nat" where
  "variant_tag_prefix tags =
     (case tags of [] \<Rightarrow> 0
      | first # rest \<Rightarrow> back_up first (fold (\<lambda>t n. min n (common_len first t)) rest (length first)))"

definition outcome_base :: "nat \<Rightarrow> string \<Rightarrow> string" where
  "outcome_base plen tag =
     (let vname = pascal_case (if length tag > plen then drop plen tag else tag)
      in if vname = [] then pascal_case tag else vname)"

definition outcome_name :: "nat \<Rightarrow> string \<Rightarrow> string list \<Rightarrow> string option" where
  "outcome_name plen tag used =
     (let base = outcome_base plen tag
      in if base \<notin> set used then Some base
         else map_option (\<lambda>n. base @ dec n) (first_free (\<lambda>n. base @ dec n) used 2))"

definition outcome_names :: "response_variant list \<Rightarrow> string list option" where
  "outcome_names variants =
     alloc_run (outcome_name (variant_tag_prefix (map rv_tag variants))) (map rv_tag variants) []"

section \<open>The gate\<close>

fun required_walk :: "string list \<Rightarrow> bool \<Rightarrow> parsed_field \<Rightarrow> string list" where
  "required_walk base reached (ParsedField d c u) =
     (let f = ParsedField d c u; path = base @ opt_list (pf_source_path d)
      in (if reached \<and> pf_parser_required d \<and> is_content_method (pf_method d)
          then [slash_path path @ ''/content''] else []) @
         (if reached \<and> pf_parser_required d \<and> pf_repeats d \<noteq> Some True
              \<and> (pf_method d = ''child'' \<or> starts_with (pf_method d) ''attr'')
          then [slash_path path @
                 (if pf_method d = ''child'' then ''/child:'' @ tag_or_name f
                  else ''/attr:'' @ wire_or_name f)]
          else []) @
         concat (map (required_walk
             (if pf_method d = ''child'' \<or> pf_method d = ''maybeChild''
              then path @ [tag_or_name f] else path)
             (reached \<and> pf_parser_required d)) (opt_list c)))"

definition fail_required_fields :: "parsed_field list \<Rightarrow> string list" where
  "fail_required_fields fs = concat (map (required_walk [] True) fs)"

definition outcome_required :: "parser_validity \<Rightarrow> response_variant \<Rightarrow> string list" where
  "outcome_required pv v =
     fail_required_fields (rv_fields v)
     @ (if direct_error_payload pv v \<noteq> None then [''/child:error''] else [])
     @ map (\<lambda>n. ''/child:'' @ n) (List.map_filter ra_name [a \<leftarrow> rv_assertions v. ra_kind a = ChildK])"

datatype outcome_error =
    Guard guard_error | ErrorContractUnsupported nat | UnsupportedUnion nat | UnemittableParser nat
  | CanShadow nat nat | PrecedingCover nat | Coverage cover_error

definition variant_gate ::
    "parser_validity \<Rightarrow> nat \<Rightarrow> response_variant \<Rightarrow> string \<Rightarrow> outcome_error + unit" where
  "variant_gate pv i v struct_name =
     (case assertion_conditions (rv_assertions v) of
        Inl e \<Rightarrow> Inl (Guard e)
      | Inr _ \<Rightarrow>
          if direct_error_payload_shape pv v \<noteq> None \<and> direct_error_payload pv v = None
          then Inl (ErrorContractUnsupported i)
          else if list_ex (\<lambda>f. type_of_field f = UnionT \<and> classify_union (probe pv) f = None) (rv_fields v)
          then Inl (UnsupportedUnion i)
          else if \<not> pv (rv_fields v) struct_name struct_name then Inl (UnemittableParser i)
          else Inr ())"

definition shadow_gate ::
    "parser_validity \<Rightarrow> nat \<Rightarrow> response_variant \<Rightarrow> nat \<Rightarrow> response_variant \<Rightarrow> (outcome_error + unit) option" where
  "shadow_gate pv i vi j vj =
     (if \<not> set (outcome_required pv vi) \<subseteq> set (outcome_required pv vj) \<or> assertions_conflict vi vj
      then Some (Inr ())
      else if direct_error_payload pv vi \<noteq> None \<and> direct_error_payload pv vj \<noteq> None
      then (if \<not> assertions_implied_by pv vi vj then Some (Inr ())
            else case error_outcomes_cover pv [vi] vj of
              None \<Rightarrow> None
            | Some (Inl e) \<Rightarrow> Some (Inl (Coverage e))
            | Some (Inr covered) \<Rightarrow> Some (if covered then Inl (CanShadow i j) else Inr ()))
      else Some (Inl (CanShadow i j)))"

definition preceding_errors :: "parser_validity \<Rightarrow> response_variant list \<Rightarrow> response_variant \<Rightarrow> response_variant list" where
  "preceding_errors pv before later =
     [earlier \<leftarrow> before. set (outcome_required pv earlier) \<subseteq> set (outcome_required pv later)
        \<and> assertions_implied_by pv earlier later \<and> direct_error_payload pv earlier \<noteq> None]"

definition preceding_gate ::
    "parser_validity \<Rightarrow> response_variant list \<Rightarrow> nat \<Rightarrow> (outcome_error + unit) option" where
  "preceding_gate pv variants j =
     (let later = variants ! j; preceding = preceding_errors pv (take j variants) later
      in if direct_error_payload pv later = None then Some (Inr ())
         else if preceding = [] then Some (Inr ())
         else case error_outcomes_cover pv preceding later of
           None \<Rightarrow> None
         | Some (Inl e) \<Rightarrow> Some (Inl (Coverage e))
         | Some (Inr covered) \<Rightarrow> Some (if covered then Inl (PrecedingCover j) else Inr ()))"

text \<open>Checks in order, the first that fails decides.\<close>

fun first_failure :: "(('e + unit) option) list \<Rightarrow> ('e + unit) option" where
  "first_failure [] = Some (Inr ())"
| "first_failure (None # rs) = None"
| "first_failure (Some (Inl e) # rs) = Some (Inl e)"
| "first_failure (Some (Inr u) # rs) = first_failure rs"

definition gate_checks ::
    "parser_validity \<Rightarrow> response_variant list \<Rightarrow> string list \<Rightarrow> (outcome_error + unit) option list" where
  "gate_checks pv variants structs =
     map (\<lambda>i. Some (variant_gate pv i (variants ! i) (structs ! i))) [0..<length variants]
     @ [shadow_gate pv i (variants ! i) j (variants ! j). i \<leftarrow> [0..<length variants], j \<leftarrow> [Suc i..<length variants]]
     @ map (preceding_gate pv variants) [1..<length variants]"

definition admit_outcomes ::
    "parser_validity \<Rightarrow> string \<Rightarrow> response_variant list \<Rightarrow> (outcome_error + (string \<times> string) list) option" where
  "admit_outcomes pv spec_base variants =
     (case outcome_names variants of
        None \<Rightarrow> None
      | Some vnames \<Rightarrow>
          (let structs = map (\<lambda>n. spec_base @ n) vnames
           in case first_failure (gate_checks pv variants structs) of
                None \<Rightarrow> None
              | Some (Inl e) \<Rightarrow> Some (Inl e)
              | Some (Inr _) \<Rightarrow> Some (Inr (zip vnames structs))))"

section \<open>Names are distinct\<close>

interpretation outcome_suffix: name_supply "\<lambda>n. base @ dec n" for base
  by unfold_locales simp

interpretation outcome_namer: name_allocator "outcome_name plen" for plen
proof unfold_locales
  fix tag used
  obtain m where "first_free (\<lambda>n. outcome_base plen tag @ dec n) used 2 = Some m"
    "outcome_base plen tag @ dec m \<notin> set used"
    using outcome_suffix.first_free_ends [of 2 "outcome_base plen tag" used] by blast
  then show "\<exists>n. outcome_name plen tag used = Some n \<and> n \<notin> set used"
    by (auto simp: outcome_name_def Let_def)
qed

lemma outcome_names_distinct:
  "\<exists>ns. outcome_names variants = Some ns \<and> length ns = length variants \<and> distinct ns"
  using outcome_namer.alloc_run_distinct [of "variant_tag_prefix (map rv_tag variants)" "map rv_tag variants" "[]"]
  by (auto simp: outcome_names_def)

section \<open>Admission returns\<close>

lemma first_failure_Inr: "first_failure rs = Some (Inr u) \<longleftrightarrow> list_all (\<lambda>r. r = Some (Inr ())) rs"
  by (induction rs rule: first_failure.induct) auto

lemma first_failure_total: "list_all (\<lambda>r. r \<noteq> None) rs \<Longrightarrow> first_failure rs \<noteq> None"
  by (induction rs rule: first_failure.induct) auto

lemma shadow_gate_total: "shadow_gate pv i vi j vj \<noteq> None"
  using error_outcomes_cover_total [of pv vj "[vi]"]
  by (auto simp: shadow_gate_def split: option.splits sum.splits)

lemma preceding_gate_total: "preceding_gate pv variants j \<noteq> None"
proof -
  let ?later = "variants ! j" and ?pre = "preceding_errors pv (take j variants) (variants ! j)"
  have "list_all (\<lambda>v. direct_error_payload pv v \<noteq> None) ?pre"
    by (simp add: preceding_errors_def list_all_iff)
  then have "direct_error_payload pv ?later = None \<or> error_outcomes_cover pv ?pre ?later \<noteq> None"
    using error_outcomes_cover_total [of pv ?later ?pre] unfolding list.pred_inject by blast
  then show ?thesis
    by (auto simp: preceding_gate_def Let_def split: option.splits sum.splits)
qed

text \<open>
  The admission of an outcome union always returns a decision: the renaming loop ends and no
  \<open>expect\<close> or \<open>unwrap\<close> of the coverage test can fail, because it is reached with bounded errors only.
\<close>

theorem admission_returns: "admit_outcomes pv spec_base variants \<noteq> None"
proof -
  obtain ns where "outcome_names variants = Some ns" using outcome_names_distinct by blast
  moreover have "first_failure (gate_checks pv variants structs) \<noteq> None" for structs
    using shadow_gate_total preceding_gate_total
    by (intro first_failure_total) (auto simp: gate_checks_def list_all_iff)
  ultimately show ?thesis by (auto simp: admit_outcomes_def Let_def split: option.split sum.split)
qed

section \<open>The nodes a variant accepts\<close>

definition view :: "rnode \<Rightarrow> wire_node" where
  "view n = \<lparr>wn_tag = rn_tag n, wn_attrs = rn_attrs n,
     wn_text = (case rn_body n of Payload t \<Rightarrow> t | _ \<Rightarrow> None),
     wn_bytes = (case rn_body n of Payload _ \<Rightarrow> True | _ \<Rightarrow> False),
     wn_children = (\<lambda>t. length [k \<leftarrow> kids_of n. rn_tag k = t])\<rparr>"

text \<open>
  A variant accepts a node that satisfies its guards, carries its reads and, for a bounded error, has the
  error child its arms select; what the arms ask of that child is the argument \<open>sel\<close>.
\<close>

definition variant_accepts ::
    "parser_validity \<Rightarrow> (response_variant \<Rightarrow> rnode \<Rightarrow> bool) \<Rightarrow> rnode \<Rightarrow> response_variant \<Rightarrow> bool" where
  "variant_accepts pv sel n v \<longleftrightarrow>
     satisfies (view n) v \<and> list_all (carries n []) (rv_fields v)
     \<and> (direct_error_payload pv v \<noteq> None \<longrightarrow>
          bounded_error_node (view n) \<and> (case first_kid n ''error'' of None \<Rightarrow> False | Some e \<Rightarrow> sel v e))"

definition child_gates :: "response_assertion list \<Rightarrow> read_key list" where
  "child_gates as = map (\<lambda>n. ([], A_child n)) (List.map_filter ra_name [a \<leftarrow> as. ra_kind a = ChildK])"

definition variant_demands :: "parser_validity \<Rightarrow> response_variant \<Rightarrow> read_key list" where
  "variant_demands pv v =
     concat (map (demands []) (rv_fields v))
     @ (if direct_error_payload pv v \<noteq> None then [([], A_child ''error'')] else [])
     @ child_gates (rv_assertions v)"

definition guard_indifferent :: "read_key \<Rightarrow> response_assertion \<Rightarrow> bool" where
  "guard_indifferent k a \<longleftrightarrow>
     (if ra_kind a = AttrK then (case ra_name a of None \<Rightarrow> True | Some n \<Rightarrow> k \<noteq> ([], An_attr n))
      else if ra_kind a = ContentK then k \<noteq> ([], The_content)
      else if ra_kind a = ChildK then (case ra_name a of None \<Rightarrow> True | Some n \<Rightarrow> k \<noteq> ([], A_child n))
      else True)"

text \<open>A variant that accepts a node as well when it loses a certain read.\<close>

definition variant_indifferent :: "parser_validity \<Rightarrow> read_key \<Rightarrow> response_variant \<Rightarrow> bool" where
  "variant_indifferent pv k v \<longleftrightarrow>
     list_all (indifferent k []) (rv_fields v) \<and> list_all (guard_indifferent k) (rv_assertions v)
     \<and> (direct_error_payload pv v \<noteq> None \<longrightarrow>
          k \<noteq> ([], An_attr ''type'') \<and> \<not> touches k ([], A_child ''error'') \<and> \<not> below [''error''] (fst k))"

text \<open>
  What the gate relies on when it compares read keys: either the earlier variant demands nothing the
  later one does not, and the keys say what the two demand, or one of its demands can be missing where the
  later accepts.
\<close>

definition comparable_reads :: "parser_validity \<Rightarrow> response_variant \<Rightarrow> response_variant \<Rightarrow> bool" where
  "comparable_reads pv earlier later \<longleftrightarrow>
     list_all plain_field (rv_fields earlier) \<and> list_all counted_field (rv_fields later)
     \<and> set (variant_demands pv earlier) \<subseteq> set (variant_demands pv later)
     \<or> list_ex (\<lambda>k. variant_indifferent pv k later) (variant_demands pv earlier)"

lemma lose_root: "lose ([], r) n = lose_here r n" "lose (c # p, r) n = in_kids c (lose (p, r)) n"
  by (simp_all add: lose_def)

lemma view_lose [simp]:
  "wn_tag (view (lose k n)) = wn_tag (view n)"
  "wn_attrs (view (lose k n)) a = (if k = ([], An_attr a) then None else wn_attrs (view n) a)"
  "wn_text (view (lose k n)) = (if k = ([], The_content) then None else wn_text (view n))"
  "wn_bytes (view (lose k n)) = (k \<noteq> ([], The_content) \<and> wn_bytes (view n))"
  "wn_children (view (lose k n)) t = (if k = ([], A_child t) then 0 else wn_children (view n) t)"
proof -
  obtain p r where k: "k = (p, r)" by fastforce
  have count: "length [x \<leftarrow> map (\<lambda>x. if rn_tag x = c then lose q x else x) ks. rn_tag x = t]
      = length [x \<leftarrow> ks. rn_tag x = t]" for c q ks
    by (induction ks) (auto simp: lose_def)
  show "wn_tag (view (lose k n)) = wn_tag (view n)"
    by (cases p) (simp_all add: k view_def lose_root)
  show "wn_attrs (view (lose k n)) a = (if k = ([], An_attr a) then None else wn_attrs (view n) a)"
    by (cases p; cases r; cases n) (simp_all add: k view_def lose_root)
  show "wn_text (view (lose k n)) = (if k = ([], The_content) then None else wn_text (view n))"
    by (cases p; cases r; cases n) (simp_all add: k view_def lose_root in_kids_def split: rbody.split)
  show "wn_bytes (view (lose k n)) = (k \<noteq> ([], The_content) \<and> wn_bytes (view n))"
    by (cases p; cases r; cases n) (simp_all add: k view_def lose_root in_kids_def split: rbody.split)
  show "wn_children (view (lose k n)) t = (if k = ([], A_child t) then 0 else wn_children (view n) t)"
  proof (cases p)
    case Nil
    have "[x \<leftarrow> [x \<leftarrow> ks. rn_tag x \<noteq> c]. rn_tag x = t] = (if c = t then [] else [x \<leftarrow> ks. rn_tag x = t])" for c ks
      by (induction ks) auto
    then show ?thesis by (cases r) (simp_all add: k Nil view_def lose_root kids_lose_here del: filter_filter)
  next
    case (Cons c q)
    then show ?thesis by (simp add: k view_def lose_root kids_in_kids count del: length_filter_map)
  qed
qed

lemma holds_lose:
  assumes "condition_of a = Some c" "holds (view n) c" "guard_indifferent k a" "ra_kind a \<noteq> ReferenceK" "ra_kind a \<noteq> FromServer"
  shows "holds (view (lose k n)) c"
  using assms
  by (cases "ra_kind a") (auto simp: condition_of_def guard_indifferent_def split: option.splits)

lemma satisfies_lose:
  assumes "satisfies (view n) v" "list_all (guard_indifferent k) (rv_assertions v)"
  shows "satisfies (view (lose k n)) v"
proof -
  obtain cs where cs: "assertion_conditions (rv_assertions v) = Inr cs"
    using assms(1) by (auto simp: satisfies_def split: sum.splits)
  have "list_all (holds (view (lose k n))) cs"
  proof (rule satisfies_intro [OF cs], intro ballI allI impI)
    fix a c
    assume a: "a \<in> set (rv_assertions v)" "ra_kind a \<noteq> ReferenceK" "condition_of a = Some c"
    from satisfies_guard [OF assms(1) a(1,2)] a(3) have "holds (view n) c" "ra_kind a \<noteq> FromServer" by simp_all
    moreover have "guard_indifferent k a" using assms(2) a(1) by (simp add: list_all_iff)
    ultimately show "holds (view (lose k n)) c" using holds_lose [OF a(3) _ _ a(2)] by blast
  qed
  with cs show ?thesis by (simp add: satisfies_def)
qed

lemma first_kid_lose:
  assumes "\<not> touches k ([], A_child t)" "\<not> below [t] (fst k)"
  shows "first_kid (lose k n) t = first_kid n t"
proof -
  obtain p r where k: "k = (p, r)" by fastforce
  show ?thesis
  proof (cases p)
    case Nil
    then show ?thesis using assms(1) by (auto simp: k lose_root first_kid_lose_here touches_def)
  next
    case (Cons c q)
    then have "t \<noteq> c" using assms(2) by (auto simp: k)
    then show ?thesis
      unfolding k Cons lose_root by (subst first_kid_in_kids) (simp_all add: lose_def option.map_ident)
  qed
qed

lemma accepts_lose:
  assumes "variant_accepts pv sel n v" "variant_indifferent pv k v"
  shows "variant_accepts pv sel (lose k n) v"
proof -
  have "list_all (carries (lose k n) []) (rv_fields v)"
    using assms carries_lose by (auto simp: variant_accepts_def variant_indifferent_def list_all_iff)
  moreover have "satisfies (view (lose k n)) v"
    using assms satisfies_lose by (simp add: variant_accepts_def variant_indifferent_def)
  moreover have "bounded_error_node (view (lose k n))
      \<and> (case first_kid (lose k n) ''error'' of None \<Rightarrow> False | Some e \<Rightarrow> sel v e)"
    if d: "direct_error_payload pv v \<noteq> None"
  proof -
    have i: "k \<noteq> ([], An_attr ''type'')" "\<not> touches k ([], A_child ''error'')" "\<not> below [''error''] (fst k)"
      using assms(2) d by (simp_all add: variant_indifferent_def)
    from i(2) have "k \<noteq> ([], A_child ''error'')" by (auto simp: touches_def)
    with i show ?thesis
      using assms(1) d first_kid_lose [OF i(2,3)] by (simp add: variant_accepts_def bounded_error_node_def)
  qed
  ultimately show ?thesis unfolding variant_accepts_def by blast
qed

lemma counted_kids: "wn_children (view n) t \<noteq> 0 \<Longrightarrow> first_kid n t \<noteq> None"
  by (auto simp: view_def first_kid_def find_None_iff filter_empty_conv)

lemma variant_demanded:
  assumes "variant_accepts pv sel n v" "k \<in> set (variant_demands pv v)"
  shows "has_at n k"
proof -
  consider f where "f \<in> set (rv_fields v)" "k \<in> set (demands [] f)"
    | "direct_error_payload pv v \<noteq> None" "k = ([], A_child ''error'')"
    | a t where "a \<in> set (rv_assertions v)" "ra_kind a = ChildK" "ra_name a = Some t" "k = ([], A_child t)"
    using assms(2) by (auto simp: variant_demands_def child_gates_def mem_map_filter split: if_splits)
  then show ?thesis
  proof cases
    case (1 f)
    then show ?thesis using assms(1) demanded [of n "[]" f k] by (simp add: variant_accepts_def list_all_iff)
  next
    case 2
    then show ?thesis using assms(1) by (simp add: variant_accepts_def split: option.splits)
  next
    case (3 a t)
    have s: "satisfies (view n) v" using assms(1) by (simp add: variant_accepts_def)
    have "ra_kind a \<noteq> ReferenceK" using 3(2) by simp
    from satisfies_guard [OF s 3(1) this] 3 have "wn_children (view n) t = 1" by (auto simp: condition_of_def)
    then show ?thesis using counted_kids [of n t] 3(4) by simp
  qed
qed

section \<open>The keys the gate compares\<close>

definition read_string :: "read_key \<Rightarrow> string" where
  "read_string k = slash_path (fst k) @
     (case snd k of The_content \<Rightarrow> ''/content'' | A_child t \<Rightarrow> ''/child:'' @ t | An_attr a \<Rightarrow> ''/attr:'' @ a)"

definition own_strings :: "string list \<Rightarrow> parsed_field \<Rightarrow> string list" where
  "own_strings path f =
     (if required f \<and> is_content_method (method_of f) then [slash_path path @ ''/content''] else []) @
     (if required f \<and> pf_repeats (field_of f) \<noteq> Some True \<and> (method_of f = ''child'' \<or> starts_with (method_of f) ''attr'')
      then [slash_path path @ (if method_of f = ''child'' then ''/child:'' @ tag_or_name f else ''/attr:'' @ wire_or_name f)]
      else [])"

lemma own_counted: "counted_here f \<Longrightarrow> read_string ` Pair path ` set (own_demands f) \<subseteq> set (own_strings path f)"
  by (cases "required f"; cases "method_of f = ''child''"; cases "attr_demand (method_of f)")
    (auto simp: own_strings_def own_demands_def read_string_def repeats_def counted_here_def simp del: emitted.simps)

lemma own_plain: "plain_here f \<Longrightarrow> set (own_strings path f) \<subseteq> read_string ` Pair path ` set (own_demands f)"
  by (cases "required f"; cases "method_of f = ''child''"; cases "starts_with (method_of f) ''attr''")
    (auto simp: own_strings_def own_demands_def read_string_def repeats_def plain_here_def attr_demand_def
      dest: attr_never_optional simp del: emitted.simps)

lemma walk_unfold:
  "required_walk base reached (ParsedField d c u) =
     (if reached then own_strings (base @ opt_list (pf_source_path d)) (ParsedField d c u) else []) @
     concat (map (required_walk (kid_base (base @ opt_list (pf_source_path d)) (ParsedField d c u))
       (reached \<and> pf_parser_required d)) (opt_list c))"
  unfolding required_walk.simps Let_def own_strings_def kid_base_def parsed_field.sel by simp

lemma walk_unreached: "required_walk base False f = []"
proof (induction f arbitrary: base rule: child_tree.induct)
  case (1 d c u)
  then show ?case unfolding walk_unfold by simp
qed

lemma walk_complete: "counted_field f \<Longrightarrow> read_string ` set (demands base f) \<subseteq> set (required_walk base True f)"
proof (induction f arbitrary: base rule: child_tree.induct)
  case (1 d c u)
  let ?f = "ParsedField d c u" and ?path = "base @ opt_list (pf_source_path d)"
  let ?kids = "kid_base ?path ?f"
  have own: "read_string ` Pair ?path ` set (own_demands ?f) \<subseteq> set (own_strings ?path ?f)"
    using "1.prems" by (intro own_counted) (simp add: counted_unfold)
  have "read_string ` set (demands p k) \<subseteq> set (required_walk p True k)" if "k \<in> set (opt_list c)" for p k
    using "1.prems" that by (intro "1.IH" [OF that]) (simp add: counted_unfold list_all_iff)
  then have "read_string ` (\<Union>k \<in> set (opt_list c). set (demands ?kids k)) \<subseteq> (\<Union>k \<in> set (opt_list c). set (required_walk ?kids True k))"
    unfolding image_UN by (rule UN_mono [OF order_refl])
  note kids = this
  show ?case
  proof (cases "pf_parser_required d")
    case True
    then have w: "set (required_walk base True ?f) = set (own_strings ?path ?f) \<union> (\<Union>k \<in> set (opt_list c). set (required_walk ?kids True k))"
      unfolding walk_unfold by simp
    show ?thesis unfolding demands_set w by (rule layers_counted [OF layers_below own kids])
  next
    case False
    then show ?thesis unfolding demands_set by simp
  qed
qed

lemma walk_counts: "plain_field f \<Longrightarrow> set (required_walk base True f) \<subseteq> read_string ` set (demands base f)"
proof (induction f arbitrary: base rule: child_tree.induct)
  case (1 d c u)
  let ?f = "ParsedField d c u" and ?path = "base @ opt_list (pf_source_path d)"
  let ?kids = "kid_base ?path ?f"
  show ?case
  proof (cases "pf_parser_required d")
    case False
    then have "own_strings path ?f = []" for path by (simp add: own_strings_def)
    then show ?thesis unfolding walk_unfold using False walk_unreached by simp
  next
    case True
    note plain = "1.prems" [simplified Let_def plain_field.simps, rule_format, OF True]
    have "plain_here ?f" using "1.prems" True by (simp add: Let_def)
    from own_plain [OF this]
    have w: "set (required_walk base True ?f) \<subseteq> read_string ` Pair ?path ` set (own_demands ?f)
        \<union> (\<Union>k \<in> set (opt_list c). set (required_walk ?kids True k))"
      unfolding walk_unfold using True by auto
    consider "pf_field_type d = UnionT" "own_demands ?f = []" "opt_list c = []"
      | "pf_field_type d \<noteq> UnionT" "repeats ?f \<or> reads_child d \<and> pf_method d \<noteq> ''child''" "\<forall>k \<in> set (opt_list c). \<not> required k"
      | "pf_field_type d \<noteq> UnionT" "\<not> (repeats ?f \<or> reads_child d \<and> pf_method d \<noteq> ''child'')" "\<forall>k \<in> set (opt_list c). plain_field k"
      using plain by (auto simp: list_all_iff split: if_splits)
    then show ?thesis
    proof cases
      case 1
      then show ?thesis using w by simp
    next
      case 2
      have "required_walk ?kids True k = []" if "k \<in> set (opt_list c)" for k
      proof -
        obtain d' c' u' where k: "k = ParsedField d' c' u'" by (cases k)
        then have "\<not> pf_parser_required d'" using 2(3) that by auto
        then have "own_strings path k = []" for path by (simp add: own_strings_def k)
        then show ?thesis unfolding k walk_unfold using \<open>\<not> pf_parser_required d'\<close> walk_unreached k by simp
      qed
      then show ?thesis using w unfolding demands_set using 2(1) True by auto
    next
      case 3
      have "set (required_walk ?kids True k) \<subseteq> read_string ` set (demands ?kids k)" if "k \<in> set (opt_list c)" for k
        by (rule "1.IH" [OF that bspec [OF 3(3) that]])
      then have "(\<Union>k \<in> set (opt_list c). set (required_walk ?kids True k)) \<subseteq> (\<Union>k \<in> set (opt_list c). read_string ` set (demands ?kids k))"
        by (rule UN_mono [OF order_refl])
      moreover have "set (demands base ?f) = Pair ?path ` set (own_demands ?f) \<union> (\<Union>k \<in> set (opt_list c). set (demands ?kids k))"
        unfolding demands_set using 3(1,2) True by (cases "reads_child d") simp_all
      ultimately show ?thesis by (rule layers_plain [OF w])
    qed
  qed
qed

lemma required_complete:
  assumes "list_all counted_field (rv_fields v)"
  shows "read_string ` set (variant_demands pv v) \<subseteq> set (outcome_required pv v)"
proof -
  have "read_string ` set (demands [] f) \<subseteq> set (required_walk [] True f)" if "f \<in> set (rv_fields v)" for f
    using assms that by (intro walk_complete) (simp add: list_all_iff)
  then have "read_string ` set (concat (map (demands []) (rv_fields v))) \<subseteq> set (fail_required_fields (rv_fields v))"
    unfolding fail_required_fields_def set_concat set_map image_UN image_image UN_simps by (intro UN_mono order_refl)
  then show ?thesis
    by (auto simp: variant_demands_def outcome_required_def child_gates_def read_string_def slash_path_def image_Un)
qed

lemma required_counts:
  "list_all plain_field (rv_fields v) \<Longrightarrow> set (outcome_required pv v) \<subseteq> read_string ` set (variant_demands pv v)"
proof -
  assume p: "list_all plain_field (rv_fields v)"
  then have "set (fail_required_fields (rv_fields v)) \<subseteq> read_string ` set (concat (map (demands []) (rv_fields v)))"
    unfolding fail_required_fields_def set_concat set_map image_UN image_image
    by (intro UN_mono order_refl) (auto simp: list_all_iff intro!: walk_counts [THEN subsetD])
  moreover have "slash_path [] @ x = x" for x by (simp add: slash_path_def)
  ultimately show ?thesis
    by (auto simp: variant_demands_def outcome_required_def child_gates_def read_string_def image_Un image_image)
qed

section \<open>What admission guarantees\<close>

lemma shadow_gate_reachable:
  assumes "shadow_gate pv i vi j vj = Some (Inr ())"
    and "direct_error_payload pv vi = None \<or> direct_error_payload pv vj = None"
    and "comparable_reads pv vi vj" and "variant_accepts pv sel n vj"
  shows "\<exists>m. variant_accepts pv sel m vj \<and> \<not> variant_accepts pv sel m vi"
proof -
  consider "assertions_conflict vi vj" | "\<not> set (outcome_required pv vi) \<subseteq> set (outcome_required pv vj)"
    using assms(1,2) by (auto simp: shadow_gate_def split: if_splits)
  then show ?thesis
  proof cases
    case 1
    from conflict_disjoint [OF this, of "view n"] assms(4) have "\<not> variant_accepts pv sel n vi"
      by (auto simp: variant_accepts_def)
    with assms(4) show ?thesis by blast
  next
    case 2
    have "\<not> (list_all plain_field (rv_fields vi) \<and> list_all counted_field (rv_fields vj) \<and> set (variant_demands pv vi) \<subseteq> set (variant_demands pv vj))"
      using 2 required_counts [of vi pv] required_complete [of vj pv] by blast
    with assms(3) obtain k where k: "k \<in> set (variant_demands pv vi)" "variant_indifferent pv k vj"
      by (auto simp: comparable_reads_def list_ex_iff)
    from accepts_lose [OF assms(4) k(2)] variant_demanded [OF _ k(1)] lost show ?thesis by blast
  qed
qed

lemma preceding_gate_Inr:
  assumes "preceding_gate pv variants j = Some (Inr ())" "j < length variants"
    and "list_all (\<lambda>v. list_all arm_ok (rv_error_arms v)) variants"
    and "direct_error_payload pv (variants ! j) \<noteq> None"
  shows "preceding_errors pv (take j variants) (variants ! j) = []
    \<or> outcome_reachable pv (preceding_errors pv (take j variants) (variants ! j)) (variants ! j)"
proof (cases "preceding_errors pv (take j variants) (variants ! j) = []")
  case False
  then have "error_outcomes_cover pv (preceding_errors pv (take j variants) (variants ! j)) (variants ! j) = Some (Inr False)"
    using assms(1,4) by (auto simp: preceding_gate_def Let_def split: option.splits sum.splits if_splits)
  moreover have "list_all (\<lambda>v. direct_error_payload pv v \<noteq> None \<and> list_all arm_ok (rv_error_arms v))
      (variants ! j # preceding_errors pv (take j variants) (variants ! j))"
    using assms(2,3,4) by (auto simp: preceding_errors_def list_all_iff dest: in_set_takeD)
  ultimately show ?thesis using error_outcomes_cover_reachable by blast
qed simp


lemma sample_admission:
  "admit_outcomes any_parser ''Get'' [success_outcome, client_error] =
     Some (Inr [(''Success'', ''GetSuccess''), (''ClientError'', ''GetClientError'')])"
  by code_simp

definition unread_outcome :: response_variant where
  "unread_outcome = success_outcome\<lparr>rv_tag := ''GetResponseEmpty''\<rparr>"

definition read_outcome :: response_variant where
  "read_outcome = success_outcome\<lparr>rv_tag := ''GetResponseFound'',
     rv_fields := [ParsedField (leaf ''attrString'' ''id'' StringT None) None None]\<rparr>"

definition bare_result :: rnode where
  "bare_result = RNode ''iq'' [''type'' \<mapsto> ''result''] No_body"


text \<open>
  The comparison of reads is needed: the gate does not see that a guard of the later variant supplies a
  read of the earlier.  A variant that requires the attribute \<open>type\<close> before one guarded by
  \<open>type="result"\<close> alone is admitted, and takes every node of the later.
\<close>

definition typed_outcome :: response_variant where
  "typed_outcome = success_outcome\<lparr>rv_tag := ''GetResponseTyped'', rv_assertions := [],
     rv_fields := [ParsedField (leaf ''attrString'' ''type'' StringT None) None None]\<rparr>"

definition result_outcome :: response_variant where
  "result_outcome = success_outcome\<lparr>rv_tag := ''GetResponseDone'', rv_assertions := [guard AttrK ''type'' (Some ''result'')]\<rparr>"

lemma guard_supplied_read_shadows:
  "admit_outcomes any_parser ''Get'' [typed_outcome, result_outcome] =
     Some (Inr [(''Typed'', ''GetTyped''), (''Done'', ''GetDone'')])
   \<and> (\<forall>n. variant_accepts any_parser sel n result_outcome \<longrightarrow> variant_accepts any_parser sel n typed_outcome)"
proof
  show "admit_outcomes any_parser ''Get'' [typed_outcome, result_outcome] =
     Some (Inr [(''Typed'', ''GetTyped''), (''Done'', ''GetDone'')])" by code_simp
  have d: "direct_error_payload any_parser typed_outcome = None" by code_simp
  have m: "starts_with ''attrString'' ''attr''" "\<not> is_content_method ''attrString''" "\<not> is_child_method ''attrString''"
    "attr_demand ''attrString''" by code_simp+
  have t: "rv_assertions typed_outcome = []" "rv_fields typed_outcome = [ParsedField (leaf ''attrString'' ''type'' StringT None) None None]"
    by (simp_all add: typed_outcome_def)
  have "variant_accepts any_parser sel n typed_outcome \<longleftrightarrow> rn_attrs n ''type'' \<noteq> None" for n
    using m by (simp add: variant_accepts_def d t satisfies_def leaf_def default_field_def own_demands_def reads_child_def
        wire_or_name_def repeats_def has_at_def)
  moreover have "rn_attrs n ''type'' = Some ''result''" if "satisfies (view n) result_outcome" for n
    using that by (simp add: satisfies_def result_outcome_def guard_def condition_of_def view_def)
  ultimately show "\<forall>n. variant_accepts any_parser sel n result_outcome \<longrightarrow> variant_accepts any_parser sel n typed_outcome"
    by (simp add: variant_accepts_def)
qed

text \<open>
  Nor does the gate see that the parser passes over a child of which nothing is read: a variant that
  requires a bare marker counts as asking for more than one without it, and takes all its nodes.
\<close>

definition marked_outcome :: response_variant where
  "marked_outcome = success_outcome\<lparr>rv_tag := ''GetResponseMarked'', rv_assertions := [],
     rv_fields := [ParsedField (leaf ''child'' ''marker'' NodeT None) None None]\<rparr>"

definition plain_outcome :: response_variant where
  "plain_outcome = success_outcome\<lparr>rv_tag := ''GetResponsePlain'', rv_assertions := []\<rparr>"

lemma bare_child_shadows:
  "admit_outcomes any_parser ''Get'' [marked_outcome, plain_outcome] =
     Some (Inr [(''Marked'', ''GetMarked''), (''Plain'', ''GetPlain'')])
   \<and> variant_accepts any_parser sel n marked_outcome"
proof
  show "admit_outcomes any_parser ''Get'' [marked_outcome, plain_outcome] =
     Some (Inr [(''Marked'', ''GetMarked''), (''Plain'', ''GetPlain'')])" by code_simp
  have d: "direct_error_payload any_parser marked_outcome = None" by code_simp
  have m: "\<not> is_content_method ''child''" "\<not> is_attr_method ''child''" by code_simp+
  have "rv_assertions marked_outcome = []" "rv_fields marked_outcome = [ParsedField (leaf ''child'' ''marker'' NodeT None) None None]"
    by (simp_all add: marked_outcome_def)
  then show "variant_accepts any_parser sel n marked_outcome"
    using m by (simp add: variant_accepts_def d satisfies_def leaf_def default_field_def own_demands_def repeats_def)
qed

text \<open>
  A required attribute under a repeated child counts as a read whose absence fails the parse, though
  the generated loop over no such child at all succeeds.
\<close>

lemma repeated_child_contents_counted:
  "''item/attr:id'' \<in> set (fail_required_fields
     [ParsedField (leaf ''child'' ''item'' NodeT None\<lparr>pf_repeats := Some True\<rparr>)
        (Some [ParsedField (leaf ''attrString'' ''id'' StringT None) None None]) None])"
  by code_simp

end
