(* ===== verification/WasmNames.thy ===== *)
theory WasmNames
  imports Restore Bootloader
begin

text \<open>
  The file names of the WASM payloads in \<open>crates/whatspec/src/main.rs\<close>
  (\<open>truncate_on_char_boundary\<close>, \<open>with_lock_safe_file_names\<close>).  A payload's name is its identity in the
  lock, the output directory, the archive and the restored cache; here it is derived from the URL, and
  a numbered candidate is taken when the derived name is in use.  The numbering loop is \<open>first_free\<close>.
\<close>

section \<open>Definitions\<close>

definition MAX_NAME :: nat where "MAX_NAME = 128"

text \<open>\<open>char_indices\<close>: the byte offset of each character.\<close>

fun char_offsets :: "nat \<Rightarrow> string list \<Rightarrow> nat list" where
  "char_offsets n [] = []"
| "char_offsets n (u # us) = n # char_offsets (n + length u) us"

definition truncate_on_char_boundary :: "string \<Rightarrow> nat \<Rightarrow> string" where
  "truncate_on_char_boundary s max_len =
     (if length s \<le> max_len then s
      else (let is = takeWhile (\<lambda>i. i \<le> max_len) (char_offsets 0 (utf8_chars s))
            in take (if is = [] then 0 else last is) s))"

text \<open>\<open>str::trim_end_matches\<close> with a string pattern: every occurrence at the end is removed.\<close>

function trim_end_str :: "string \<Rightarrow> string \<Rightarrow> string" where
  "trim_end_str p s =
     (if p \<noteq> [] \<and> ends_with s p then trim_end_str p (take (length s - length p) s) else s)"
  by pat_completeness auto
termination
  by (relation "measure (\<lambda>(p, s). length s)") (auto simp: ends_with_def simp flip: length_greater_0_conv)

declare trim_end_str.simps [simp del]

definition usable_name :: "string \<Rightarrow> bool" where
  "usable_name preferred \<longleftrightarrow>
     preferred \<noteq> [] \<and> length preferred \<le> MAX_NAME \<and> ends_with preferred WASM_EXT
     \<and> (case path_file_name preferred of Some n \<Rightarrow> n = preferred | None \<Rightarrow> False)"

definition lock_base_name :: "(bytes \<Rightarrow> bytes) \<Rightarrow> string \<Rightarrow> string" where
  "lock_base_name dg url =
     (let preferred = bundle_file_name url
      in if usable_name preferred then preferred else take 16 (sha256_hex dg url) @ WASM_EXT)"

definition lock_candidate :: "(bytes \<Rightarrow> bytes) \<Rightarrow> string \<Rightarrow> nat \<Rightarrow> string" where
  "lock_candidate dg url attempt =
     (let stem = truncate_on_char_boundary (trim_end_str WASM_EXT (lock_base_name dg url)) (MAX_NAME - 32)
      in stem @ ''-'' @ take 8 (sha256_hex dg url) @ ''-'' @ dec attempt @ WASM_EXT)"

definition lock_safe_name :: "(bytes \<Rightarrow> bytes) \<Rightarrow> string \<Rightarrow> string list \<Rightarrow> string option" where
  \<comment> \<open>\<open>None\<close> would be a \<open>while\<close> that does not end\<close>
  "lock_safe_name dg url taken =
     (if lock_base_name dg url \<notin> set taken then Some (lock_base_name dg url)
      else map_option (lock_candidate dg url) (first_free (lock_candidate dg url) taken 1))"

fun lock_safe_names :: "(bytes \<Rightarrow> bytes) \<Rightarrow> bundle_rec list \<Rightarrow> string list \<Rightarrow> bundle_rec list option" where
  "lock_safe_names dg [] taken = Some []"
| "lock_safe_names dg (b # bs) taken =
     (case lock_safe_name dg (b_url b) taken of
        None \<Rightarrow> None
      | Some n \<Rightarrow> map_option ((#) (b\<lparr>file_name := n\<rparr>)) (lock_safe_names dg bs (n # taken)))"

definition with_lock_safe_file_names :: "(bytes \<Rightarrow> bytes) \<Rightarrow> bundle_rec list \<Rightarrow> bundle_rec list option" where
  "with_lock_safe_file_names dg payloads = lock_safe_names dg payloads []"

section \<open>Truncation\<close>

lemma char_offsets_prefix:
  "i \<in> set (char_offsets n us) \<Longrightarrow> \<exists>k \<le> length us. i = n + length (concat (take k us))"
proof (induction us arbitrary: n)
  case (Cons u us)
  show ?case
  proof (cases "i = n")
    case True
    then show ?thesis by (intro exI [of _ 0]) simp
  next
    case False
    with Cons.prems have "i \<in> set (char_offsets (n + length u) us)" by simp
    from Cons.IH [OF this] obtain k where "k \<le> length us" "i = n + length u + length (concat (take k us))" by blast
    then show ?thesis by (intro exI [of _ "Suc k"]) simp
  qed
qed simp

lemma take_concat_take: "take (length (concat (take k us))) (concat us) = concat (take k us)"
proof -
  have "concat us = concat (take k us) @ concat (drop k us)" by (metis append_take_drop_id concat_append)
  then show ?thesis by (metis append_eq_conv_conj)
qed

text \<open>The cut falls between two characters: what is left is a run of whole characters, in the bound.\<close>

lemma truncate_cases:
  obtains k where "truncate_on_char_boundary s m = concat (take k (utf8_chars s))"
    and "length (truncate_on_char_boundary s m) \<le> m"
proof (cases "length s \<le> m")
  case True
  then show ?thesis
    by (intro that [of "length (utf8_chars s)"]) (simp_all add: truncate_on_char_boundary_def)
next
  case False
  let ?is = "takeWhile (\<lambda>i. i \<le> m) (char_offsets 0 (utf8_chars s))"
  define e where "e = (if ?is = [] then 0 else last ?is)"
  have t: "truncate_on_char_boundary s m = take e s"
    using False by (simp add: truncate_on_char_boundary_def e_def)
  obtain k where k: "e = length (concat (take k (utf8_chars s)))" and le: "e \<le> m"
  proof (cases "?is = []")
    case True
    then show ?thesis by (intro that [of 0]) (simp_all add: e_def)
  next
    case False
    then have "last ?is \<in> set ?is" by simp
    then have "last ?is \<le> m" "last ?is \<in> set (char_offsets 0 (utf8_chars s))"
      by (auto dest: set_takeWhileD)
    with char_offsets_prefix [OF this(2)] False that show ?thesis by (auto simp: e_def)
  qed
  have "take e s = concat (take k (utf8_chars s))"
    unfolding k using take_concat_take [of k "utf8_chars s"] by simp
  moreover have "length (truncate_on_char_boundary s m) \<le> m" using le by (simp add: t min.coboundedI2)
  ultimately show ?thesis using that [of k] t by metis
qed

lemma truncate_whole_chars: "\<exists>k. truncate_on_char_boundary s m = concat (take k (utf8_chars s))"
  by (rule truncate_cases) blast

lemma truncate_bounded: "length (truncate_on_char_boundary s m) \<le> m"
  by (rule truncate_cases)

lemma truncate_set: "set (truncate_on_char_boundary s m) \<subseteq> set s"
  by (auto simp: truncate_on_char_boundary_def Let_def dest: in_set_takeD)

lemma trim_end_str_set: "set (trim_end_str p s) \<subseteq> set s"
proof (induction p s rule: trim_end_str.induct)
  case (1 p s)
  then show ?case by (subst trim_end_str.simps) (auto dest: in_set_takeD)
qed

section \<open>Names are fresh\<close>

lemma lock_candidate_inj: "lock_candidate dg url i = lock_candidate dg url j \<Longrightarrow> i = j"
  by (simp add: lock_candidate_def Let_def)

interpretation lock_supply: name_supply "lock_candidate dg url" for dg url
  by unfold_locales (rule lock_candidate_inj)

lemma lock_safe_name_cases:
  "(lock_safe_name dg url taken = Some (lock_base_name dg url) \<and> lock_base_name dg url \<notin> set taken)
   \<or> (\<exists>m. lock_safe_name dg url taken = Some (lock_candidate dg url m)
        \<and> lock_candidate dg url m \<notin> set taken \<and> m \<le> 1 + length taken)"
proof (cases "lock_base_name dg url \<in> set taken")
  case True
  obtain m where m: "first_free (lock_candidate dg url) taken 1 = Some m" "lock_candidate dg url m \<notin> set taken"
    using lock_supply.first_free_ends [of 1 dg url taken] by blast
  with True lock_supply.first_free_bound [OF m(1)] show ?thesis by (auto simp: lock_safe_name_def)
qed (simp add: lock_safe_name_def)

interpretation lock_names: name_allocator "\<lambda>b. lock_safe_name dg (b_url b)" for dg
proof unfold_locales
  fix b taken
  show "\<exists>n. lock_safe_name dg (b_url b) taken = Some n \<and> n \<notin> set taken"
    using lock_safe_name_cases [of dg "b_url b" taken] by blast
qed

definition renamed :: "bundle_rec list \<Rightarrow> string list \<Rightarrow> bundle_rec list" where
  "renamed bs ns = map (\<lambda>(b, n). b\<lparr>file_name := n\<rparr>) (zip bs ns)"

lemma renamed_fields:
  assumes "length ns = length bs"
  shows "map b_url (renamed bs ns) = map b_url bs" "map b_bytes (renamed bs ns) = map b_bytes bs"
    "map file_name (renamed bs ns) = ns"
proof -
  have "map b_url (renamed bs ns) = map (b_url \<circ> fst) (zip bs ns)"
    "map b_bytes (renamed bs ns) = map (b_bytes \<circ> fst) (zip bs ns)"
    "map file_name (renamed bs ns) = map snd (zip bs ns)"
    by (auto simp: renamed_def)
  then show "map b_url (renamed bs ns) = map b_url bs" "map b_bytes (renamed bs ns) = map b_bytes bs"
    "map file_name (renamed bs ns) = ns"
    using assms by (simp_all flip: map_map)
qed

lemma lock_safe_names_alloc:
  "lock_safe_names dg bs taken = map_option (renamed bs) (alloc_run (\<lambda>b. lock_safe_name dg (b_url b)) bs taken)"
proof (induction bs arbitrary: taken)
  case (Cons b bs)
  have "renamed (b # bs) (n # ns) = b\<lparr>file_name := n\<rparr> # renamed bs ns" for n ns by (simp add: renamed_def)
  then show ?case by (simp add: Cons.IH option.map_comp o_def split: option.split)
qed (simp add: renamed_def)

text \<open>Every name the loop hands out, with the bound of the counter.\<close>

lemma alloc_names:
  assumes "alloc_run (\<lambda>b. lock_safe_name dg (b_url b)) bs taken = Some ns"
    and "\<And>b m. b \<in> set bs \<Longrightarrow> m \<le> length taken + length bs \<Longrightarrow> P (b_url b) (lock_candidate dg (b_url b) m)"
    and "\<And>b. b \<in> set bs \<Longrightarrow> P (b_url b) (lock_base_name dg (b_url b))"
  shows "list_all2 (\<lambda>b n. P (b_url b) n) bs ns"
  using assms
proof (induction bs arbitrary: taken ns)
  case (Cons b bs)
  obtain n ns' where n: "lock_safe_name dg (b_url b) taken = Some n" "ns = n # ns'"
    "alloc_run (\<lambda>b. lock_safe_name dg (b_url b)) bs (n # taken) = Some ns'"
    using Cons.prems(1) by (auto split: option.splits)
  have "P (b_url b) n"
    using lock_safe_name_cases [of dg "b_url b" taken] n(1) Cons.prems(2) [of b] Cons.prems(3) [of b] by auto
  moreover have "list_all2 (\<lambda>b n. P (b_url b) n) bs ns'"
    by (rule Cons.IH [OF n(3)]) (use Cons.prems in auto)
  ultimately show ?case by (simp add: n(2))
qed simp

section \<open>Names are safe\<close>

lemma ends_with_appended [simp]: "ends_with (s @ p) p"
  by (simp add: ends_with_iff)

lemma file_name_plain:
  assumes "n \<noteq> []" "SLASH \<notin> set n" "ends_with n WASM_EXT"
  shows "path_file_name n = Some n"
proof -
  have "split_on (\<lambda>c. c = SLASH) n = [n]" using assms(2) by (intro split_on_no_sep) auto
  moreover have "n \<noteq> ''.''" "n \<noteq> ''..''" using assms(3) by (auto simp: ends_with_iff WASM_EXT_def Cons_eq_append_conv)
  ultimately show ?thesis using assms(1) by (simp add: path_file_name_def)
qed

definition lock_name_ok :: "string \<Rightarrow> bool" where
  "lock_name_ok n \<longleftrightarrow> n \<noteq> [] \<and> SLASH \<notin> set n \<and> ends_with n WASM_EXT \<and> length n \<le> MAX_NAME"

lemma digest_lacks:
  "c \<in> {SLASH, BSLASH, CHR 0x00} \<Longrightarrow> c \<notin> set (take k (sha256_hex dg x))"
  by (rule ccontr) (use hex_lacks [of c dg x] in \<open>auto simp: lower_hex_def dest: in_set_takeD\<close>)

lemma usable_plain: "usable_name p \<Longrightarrow> SLASH \<notin> set p"
  using path_file_name_plain [of p p] by (auto simp: usable_name_def split: option.splits)

lemma lock_base_ok: "lock_name_ok (lock_base_name dg url)"
proof (cases "usable_name (bundle_file_name url)")
  case True
  then have "lock_base_name dg url = bundle_file_name url" by (simp add: lock_base_name_def)
  then show ?thesis using True usable_plain [OF True] by (simp add: lock_name_ok_def usable_name_def)
next
  case False
  then have "lock_base_name dg url = take 16 (sha256_hex dg url) @ WASM_EXT" by (simp add: lock_base_name_def)
  then show ?thesis
    using digest_lacks [of SLASH 16 dg url] by (simp add: lock_name_ok_def WASM_EXT_def MAX_NAME_def)
qed

lemma lock_candidate_set:
  "set (lock_candidate dg url m) \<subseteq>
     set (lock_base_name dg url) \<union> set (take 8 (sha256_hex dg url)) \<union> set (dec m) \<union> set (''-'' @ WASM_EXT)"
proof -
  have "set (truncate_on_char_boundary (trim_end_str WASM_EXT (lock_base_name dg url)) (MAX_NAME - 32))
      \<subseteq> set (lock_base_name dg url)"
    by (rule subset_trans [OF truncate_set trim_end_str_set])
  then show ?thesis unfolding lock_candidate_def Let_def set_append by blast
qed

lemma dec_lacks: "c \<in> {SLASH, BSLASH, CHR 0x00} \<Longrightarrow> c \<notin> set (dec m)"
  by (rule dec_no) (auto simp: char_class_defs)

lemma candidate_lacks:
  assumes "c \<in> {SLASH, BSLASH, CHR 0x00}" "c \<notin> set (lock_base_name dg url)"
  shows "c \<notin> set (lock_candidate dg url m)"
proof -
  have "c \<notin> set (''-'' @ WASM_EXT)" using assms(1) by (auto simp: WASM_EXT_def)
  with lock_candidate_set [of dg url m] assms(2) digest_lacks [OF assms(1)] dec_lacks [OF assms(1)]
  show ?thesis by blast
qed

lemma lock_candidate_ok:
  assumes "m < 10 ^ 17"
  shows "lock_name_ok (lock_candidate dg url m)"
proof -
  let ?stem = "truncate_on_char_boundary (trim_end_str WASM_EXT (lock_base_name dg url)) (MAX_NAME - 32)"
  have c: "lock_candidate dg url m = (?stem @ ''-'' @ take 8 (sha256_hex dg url) @ ''-'' @ dec m) @ WASM_EXT"
    by (simp add: lock_candidate_def Let_def)
  have "length ?stem \<le> 96" using truncate_bounded [where m = "MAX_NAME - 32"] by (simp add: MAX_NAME_def)
  moreover have "length (dec m) \<le> 17" by (rule length_dec [OF assms]) simp
  ultimately have "length (lock_candidate dg url m) \<le> MAX_NAME" by (simp add: c MAX_NAME_def WASM_EXT_def)
  moreover have "ends_with (lock_candidate dg url m) WASM_EXT" unfolding c by (rule ends_with_appended)
  moreover have "SLASH \<notin> set (lock_candidate dg url m)"
    using candidate_lacks [of SLASH] lock_base_ok by (simp add: lock_name_ok_def)
  moreover have "lock_candidate dg url m \<noteq> []" by (simp add: c)
  ultimately show ?thesis by (simp add: lock_name_ok_def)
qed

text \<open>What the restore refuses besides can only come from the URL itself.\<close>

lemma sanitize_lacks: "c \<in> {SLASH, BSLASH, CHR 0x00} \<Longrightarrow> c \<notin> set (sanitize s)"
proof -
  assume c: "c \<in> {SLASH, BSLASH, CHR 0x00}"
  have "\<not> is_ascii_alphanumeric c" "c \<notin> set ''._-''" "c \<notin> set ''_''"
    using c by (auto simp: char_class_defs)
  then show ?thesis by (auto simp: sanitize_def split: list.splits if_splits)
qed

lemma bundle_file_name_set:
  assumes "c \<in> {BSLASH, CHR 0x00}" "c \<notin> set url"
  shows "c \<notin> set (bundle_file_name url)"
proof -
  have "set (rsplit_first P s) \<subseteq> set s" for P and s :: string
    by (auto simp: rsplit_first_def dest: set_takeWhileD)
  from subset_trans [OF this, of _ "set url"] have "set (rsplit_first (\<lambda>c. c = SLASH) (hd (split_on (\<lambda>c. c = CHR ''?'' \<or> c = CHR ''#'') url))) \<subseteq> set url"
    unfolding hd_split_on by (blast dest: set_takeWhileD)
  then have "c \<notin> set (rsplit_first (\<lambda>c. c = SLASH) (hd (split_on (\<lambda>c. c = CHR ''?'' \<or> c = CHR ''#'') url)))"
    using assms(2) by blast
  moreover have "c \<notin> set (sanitize url)" by (rule sanitize_lacks) (use assms(1) in blast)
  ultimately show ?thesis by (simp only: bundle_file_name_def Let_def split: if_split) simp
qed

lemma lock_base_lacks:
  assumes "c \<in> {BSLASH, CHR 0x00}" "c \<notin> set url"
  shows "c \<notin> set (lock_base_name dg url)"
proof -
  have "c \<notin> set (take 16 (sha256_hex dg url) @ WASM_EXT)"
    using assms(1) digest_lacks [of c 16 dg url] by (auto simp: WASM_EXT_def)
  with bundle_file_name_set [OF assms] show ?thesis by (simp add: lock_base_name_def Let_def)
qed

lemma safe_payload_nameI:
  assumes "lock_name_ok n" "BSLASH \<notin> set n" "CHR 0x00 \<notin> set n"
  shows "safe_payload_name n"
proof -
  have n: "n \<noteq> []" "SLASH \<notin> set n" "ends_with n WASM_EXT" using assms(1) by (simp_all add: lock_name_ok_def)
  then have "n \<noteq> ''.''" "n \<noteq> ''..''" by (auto simp: ends_with_iff WASM_EXT_def Cons_eq_append_conv)
  with n file_name_plain [OF n] assms(2,3) show ?thesis by (simp add: safe_payload_name_def WASM_EXT_def)
qed

text \<open>
  C39: every payload gets a name, and the names can be used: the loop ends, URLs and bytes are untouched and
  in order, the names are pairwise different, each is one path component of at most 128 bytes that
  ends in \<open>.wasm\<close>, and \<open>restore\<close> accepts it unless the URL itself holds a backslash or a NUL (below
  \<open>2^32\<close> payloads, the range of the source's counter).
\<close>

theorem lock_names_usable:
  assumes "length ps < 2 ^ 32"
  shows "\<exists>out. with_lock_safe_file_names dg ps = Some out
    \<and> map b_url out = map b_url ps \<and> map b_bytes out = map b_bytes ps \<and> distinct (map file_name out)
    \<and> list_all (\<lambda>b. length (file_name b) \<le> MAX_NAME \<and> ends_with (file_name b) ''.wasm''
        \<and> path_file_name (file_name b) = Some (file_name b)
        \<and> (safe_payload_name (file_name b) \<or> BSLASH \<in> set (b_url b) \<or> CHR 0x00 \<in> set (b_url b))) out"
proof -
  obtain ns where ns: "alloc_run (\<lambda>b. lock_safe_name dg (b_url b)) ps [] = Some ns" "length ns = length ps" "distinct ns"
    using lock_names.alloc_run_distinct [of dg ps "[]"] by blast
  let ?P = "\<lambda>u n. lock_name_ok n \<and> (BSLASH \<in> set u \<or> CHR 0x00 \<in> set u \<or> safe_payload_name n)"
  have base: "?P u (lock_base_name dg u)" for u
    using lock_base_ok [of dg u] lock_base_lacks [of BSLASH u dg] lock_base_lacks [of "CHR 0x00" u dg]
      safe_payload_nameI [of "lock_base_name dg u"] by blast
  have cand: "?P u (lock_candidate dg u m)" if m: "m \<le> length ps" for u m
  proof -
    have "lock_name_ok (lock_candidate dg u m)" using m assms by (intro lock_candidate_ok) simp
    then show ?thesis
      using candidate_lacks [of BSLASH dg u m] candidate_lacks [of "CHR 0x00" dg u m]
        lock_base_lacks [of BSLASH u dg] lock_base_lacks [of "CHR 0x00" u dg]
        safe_payload_nameI [of "lock_candidate dg u m"] by blast
  qed
  have "list_all2 (\<lambda>b n. ?P (b_url b) n) ps ns"
    by (rule alloc_names [OF ns(1)]) (use base cand in auto)
  then have all: "list_all (\<lambda>b. ?P (b_url b) (file_name b)) (renamed ps ns)"
    by (induction rule: list_all2_induct) (simp_all add: renamed_def)
  have "list_all (\<lambda>b. length (file_name b) \<le> MAX_NAME \<and> ends_with (file_name b) ''.wasm''
        \<and> path_file_name (file_name b) = Some (file_name b)
        \<and> (safe_payload_name (file_name b) \<or> BSLASH \<in> set (b_url b) \<or> CHR 0x00 \<in> set (b_url b))) (renamed ps ns)"
    using all unfolding list_all_iff WASM_EXT_def [symmetric] lock_name_ok_def
    using file_name_plain by blast
  then show ?thesis
    using ns renamed_fields [OF ns(2)] by (simp add: with_lock_safe_file_names_def lock_safe_names_alloc)
qed

definition sample_payloads :: "bundle_rec list" where
  "sample_payloads =
     [\<lparr>b_url = ''https://static.whatsapp.net/a/x.wasm'', file_name = [], b_bytes = ''p''\<rparr>,
      \<lparr>b_url = ''https://static.whatsapp.net/b/x.wasm'', file_name = [], b_bytes = ''q''\<rparr>]"

theorem lock_names_usable_witness:
  "\<exists>out. with_lock_safe_file_names (\<lambda>_. ''digest'') sample_payloads = Some out \<and> distinct (map file_name out)
     \<and> map b_bytes out = [''p'', ''q'']"
  using lock_names_usable [of sample_payloads "\<lambda>_. ''digest''"] by (auto simp: sample_payloads_def)

text \<open>
  The exception is reachable: a CDN payload URL with a backslash in its last segment is admitted and
  gets a name that \<open>restore\<close> refuses, so the lock it is recorded in cannot be restored.
\<close>

definition backslash_url :: string where
  "backslash_url = ''https://static.whatsapp.net/a'' @ [BSLASH] @ ''b.wasm''"

lemma backslash_name_refused:
  "payload_ok backslash_url
   \<and> map_option (map (\<lambda>b. safe_payload_name (file_name b))) (with_lock_safe_file_names dg
       [\<lparr>b_url = backslash_url, file_name = [], b_bytes = []\<rparr>]) = Some [False]"
proof
  have "is_wasm_url backslash_url" "is_cdn_payload backslash_url" by code_simp+
  then show "payload_ok backslash_url" by (simp add: payload_ok_def)
  have "bundle_file_name backslash_url = ''a'' @ [BSLASH] @ ''b.wasm''"
    "usable_name (''a'' @ [BSLASH] @ ''b.wasm'')" "\<not> safe_payload_name (''a'' @ [BSLASH] @ ''b.wasm'')"
    by code_simp+
  then show "map_option (map (\<lambda>b. safe_payload_name (file_name b))) (with_lock_safe_file_names dg
       [\<lparr>b_url = backslash_url, file_name = [], b_bytes = []\<rparr>]) = Some [False]"
    by (simp add: with_lock_safe_file_names_def lock_safe_name_def lock_base_name_def)
qed

end
