(* ===== verification/WasmSet.thy ===== *)
theory WasmSet
  imports WasmNames "HOL-Library.Countable"
begin

text \<open>
  The WASM set of an update run, \<open>crates/whatspec/src/main.rs\<close>: \<open>load_wasm\<close> collects the payloads (resolved
  URLs, cached bytes, fresh downloads), names them, binds them to their bootloader handles and builds
  the lock's entries and pins; \<open>pins_with_prior\<close> and \<open>update_lock_bootloader\<close> merge the pins with those
  of the committed lock.  What a run does to the disk is a pair of lists of file operations: those on
  the cache, whose failure is ignored, and those on the output directory.
  \<open>ser\<close>/\<open>de\<close> stand for \<open>serde_json\<close>, \<open>dg\<close> for SHA-256, \<open>get\<close> for the client of the bootloader endpoint,
  \<open>answer\<close> for the one of the download, whose outcome is that of the sequential loop under any schedule
  (theory \<open>Download\<close>).
\<close>

section \<open>Handles\<close>

definition extend_map :: "('k::linorder, 'v) btree \<Rightarrow> ('k \<times> 'v) list \<Rightarrow> ('k, 'v) btree" where
  \<comment> \<open>\<open>BTreeMap::extend\<close>\<close>
  "extend_map m kvs = fold (\<lambda>(k, v). bt_insert k v) kvs m"

definition invert :: "(string, string) btree \<Rightarrow> (string, string) btree" where
  "invert m = fold (\<lambda>(i, uri) out. bt_insert_new uri i out) m []"

definition drop_stale_aliases ::
    "(string, string) btree \<Rightarrow> (string, string) btree \<Rightarrow> string list \<Rightarrow> (string, string) btree" where
  "drop_stale_aliases handles live_by_id observed =
     filter (\<lambda>(url, i). case map_of live_by_id i of
         Some live_url \<Rightarrow> live_url = url
       | None \<Rightarrow> i \<notin> set observed) handles"

definition wasm_entries ::
    "(bytes \<Rightarrow> bytes) \<Rightarrow> bundle_rec list \<Rightarrow> (string, string) btree \<Rightarrow> wasm_lock_entry list" where
  "wasm_entries dg payloads handles =
     map (\<lambda>b. \<lparr>bx_id = map_of handles (b_url b), w_file_name = file_name b, w_url = b_url b,
               w_sha256 = sha256_hex dg (b_bytes b), w_size = length (b_bytes b)\<rparr>) payloads"

definition pins_of :: "wasm_resolution \<Rightarrow> (string, string) btree \<Rightarrow> bootloader_pins" where
  \<comment> \<open>the source's function \<open>bootloader_pins\<close>\<close>
  "pins_of r ids =
     \<lparr>handles_from_page = from_page_count r,
      pin_handles = filter (\<lambda>(i, url). is_wasm_url url \<and> is_cdn_payload url) ids,
      pin_requests = requests r, pin_failed_requests = failed_requests r,
      degradations = length (failures r)\<rparr>"

definition run_handles ::
    "discovered \<Rightarrow> wasm_resolution \<Rightarrow> (string, string) btree \<Rightarrow> (string, string) btree" where
  "run_handles d r cached =
     drop_stale_aliases (extend_map (extend_map (invert (bx_data d)) cached) (handle_by_url r))
       (by_id r) (observed_ids r)"

definition run_ids :: "discovered \<Rightarrow> wasm_resolution \<Rightarrow> (string, string) btree \<Rightarrow> (string, string) btree" where
  "run_ids d r cached =
     fold (\<lambda>(url, i) ids. if i \<in> set (observed_ids r) then ids else bt_insert_new i url ids) cached
       (extend_map (bx_data d) (by_id r))"

section \<open>The run\<close>

definition WASM_HEADER :: bytes where "WASM_HEADER = CHR 0x00 # ''asm''"

record wasm_options =
  want_wasm :: bool
  wasm_cache_dir :: "path option"
  wasm_out :: "path option"

record wasm_loaded =
  ld_entries :: "wasm_lock_entry list"
  ld_pins :: "bootloader_pins option"
  ld_live :: "string list"
  ld_cache_ops :: "fs_op list"
  ld_out_ops :: "fs_op list"

definition by_url :: "bundle_rec list \<Rightarrow> (string \<times> bundle_rec) list" where
  "by_url bs = map (\<lambda>b. (b_url b, b)) bs"

definition is_module :: "bundle_rec \<Rightarrow> bool" where
  "is_module b \<longleftrightarrow> starts_with (b_bytes b) WASM_HEADER"

definition maybe_save_wasm :: "wasm_options \<Rightarrow> bundle_rec list \<Rightarrow> fs_op list" where
  "maybe_save_wasm opts payloads =
     (case wasm_out opts of
        None \<Rightarrow> []
      | Some out \<Rightarrow>
          CreateDirAll out # Sweep out (\<lambda>n. path_extension n = Some ''wasm'')
          # map (\<lambda>(p, b). WriteFile p b) (map (\<lambda>(n, b). (out @ [n], b))
              (map (\<lambda>b. (file_name b, b_bytes b)) payloads)))"

text \<open>The payloads of the run, in URL order, not yet renamed.\<close>

definition merged_payloads ::
    "(string \<Rightarrow> string + http_response) \<Rightarrow> string list \<Rightarrow> bundle_rec list \<Rightarrow> bundle_rec list" where
  "merged_payloads answer resolved salvaged =
     (let cached = bt_of (by_url salvaged);
          to_download = filter (\<lambda>u. map_of cached u = None) resolved;
          downloaded = filter is_module (bundles (sequential answer to_download));
          reused = filter is_module (map snd cached)
      in map snd (extend_map (bt_of (by_url reused)) (by_url downloaded)))"

text \<open>\<open>opts.cache_dir.zip(remote_version)\<close>: without a version there is no key to the cache.\<close>

definition cache_key :: "wasm_options \<Rightarrow> string option \<Rightarrow> (path \<times> string) option" where
  "cache_key opts remote_version =
     (case (wasm_cache_dir opts, remote_version) of (Some dir, Some v) \<Rightarrow> Some (dir, v) | _ \<Rightarrow> None)"

definition load_wasm ::
    "(cache_manifest \<Rightarrow> bytes) \<Rightarrow> (bytes \<Rightarrow> cache_manifest option) \<Rightarrow> (bytes \<Rightarrow> bytes)
     \<Rightarrow> (string \<Rightarrow> json option) \<Rightarrow> 'w http_get \<Rightarrow> (string \<Rightarrow> string + http_response) \<Rightarrow> fs
     \<Rightarrow> wasm_options \<Rightarrow> discovered \<Rightarrow> string option \<Rightarrow> 'w \<Rightarrow> wasm_loaded option \<times> 'w" where
  \<comment> \<open>\<open>None\<close> would be a naming loop that does not end\<close>
  "load_wasm ser de dg parse get answer fs opts d remote_version w =
     (if \<not> want_wasm opts
      then (Some \<lparr>ld_entries = [], ld_pins = None, ld_live = [], ld_cache_ops = [], ld_out_ops = []\<rparr>, w)
      else
        (let cache = cache_key opts remote_version;
             (r, w1) = resolve_wasm_with parse get w d default_resolve_options;
             salvaged = (case cache of Some (dir, v) \<Rightarrow> fst (wasm_payloads de dg dir fs v) | None \<Rightarrow> []);
             cached_handles = (case cache of Some (dir, v) \<Rightarrow> wasm_handles de dir fs v | None \<Rightarrow> []);
             handles = run_handles d r cached_handles;
             pins = pins_of r (run_ids d r cached_handles)
         in case with_lock_safe_file_names dg (merged_payloads answer (urls r) salvaged) of
              None \<Rightarrow> (None, w1)
            | Some payloads \<Rightarrow>
                if payloads = []
                then (Some \<lparr>ld_entries = [], ld_pins = Some pins, ld_live = observed_ids r, ld_cache_ops = [],
                        ld_out_ops = maybe_save_wasm opts payloads\<rparr>, w1)
                else (Some \<lparr>ld_entries = wasm_entries dg payloads handles, ld_pins = Some pins,
                        ld_live = observed_ids r,
                        ld_cache_ops = (case cache of
                            Some (dir, v) \<Rightarrow>
                              (case store_wasm ser de dg dir fs v payloads handles of Inr ops \<Rightarrow> ops | Inl _ \<Rightarrow> [])
                          | None \<Rightarrow> []),
                        ld_out_ops = maybe_save_wasm opts payloads\<rparr>, w1)))"

section \<open>The committed lock\<close>

definition merge_prior_handles ::
    "bootloader_pins \<Rightarrow> bootloader_pins option \<Rightarrow> string list \<Rightarrow> bootloader_pins" where
  "merge_prior_handles pins prior seen_live =
     (case prior of
        None \<Rightarrow> pins
      | Some p \<Rightarrow>
          fold (\<lambda>(i, url) q. if i \<in> set seen_live then q
                  else q\<lparr>pin_handles := bt_insert_new i url (pin_handles q)\<rparr>) (pin_handles p) pins)"

definition pins_with_prior ::
    "(bytes \<Rightarrow> wasm_lock option) \<Rightarrow> fs \<Rightarrow> path \<Rightarrow> bootloader_pins option \<Rightarrow> string \<Rightarrow> string list
     \<Rightarrow> bootloader_pins option" where
  "pins_with_prior de_lock fs lock_file pins version seen_live =
     (case pins of
        None \<Rightarrow> None
      | Some p \<Rightarrow>
          (let prior = (case read_file fs lock_file of
                 None \<Rightarrow> None
               | Some raw \<Rightarrow>
                   (case de_lock raw of
                      Some l \<Rightarrow> if wl_wa_version l = version then wl_bootloader l else None
                    | None \<Rightarrow> None))
           in Some (merge_prior_handles p prior seen_live)))"

datatype lock_update_error = LockNotRead | LockNotParsed

definition update_lock_bootloader ::
    "(bytes \<Rightarrow> wasm_lock option) \<Rightarrow> (wasm_lock \<Rightarrow> bytes) \<Rightarrow> fs \<Rightarrow> path \<Rightarrow> bootloader_pins \<Rightarrow> string
     \<Rightarrow> string list \<Rightarrow> lock_update_error + fs_op list" where
  "update_lock_bootloader de_lock ser_lock fs lock_file pins version seen_live =
     (case read_file fs lock_file of
        None \<Rightarrow> Inl LockNotRead
      | Some raw \<Rightarrow>
          (case de_lock raw of
             None \<Rightarrow> Inl LockNotParsed
           | Some lock \<Rightarrow>
               if wl_wa_version lock \<noteq> version then Inr []
               else (let merged = merge_prior_handles pins (wl_bootloader lock) seen_live
                     in if wl_bootloader lock = Some merged then Inr []
                        else Inr [WriteFile lock_file (ser_lock (lock\<lparr>wl_bootloader := Some merged\<rparr>))])))"

text \<open>The two places of \<open>run_update\<close> that write the WASM lock of an authoritative run.\<close>

definition write_wasm_lock ::
    "(bytes \<Rightarrow> wasm_lock option) \<Rightarrow> (wasm_lock \<Rightarrow> bytes) \<Rightarrow> (bytes \<Rightarrow> bytes) \<Rightarrow> fs \<Rightarrow> path \<Rightarrow> wasm_options
     \<Rightarrow> string \<Rightarrow> wasm_loaded \<Rightarrow> lock_update_error + fs_op list" where
  "write_wasm_lock de_lock ser_lock dg fs lock_file opts version res =
     (if ld_entries res = [] then
        (if want_wasm opts then
           (case ld_pins res of
              Some pins \<Rightarrow> update_lock_bootloader de_lock ser_lock fs lock_file pins version (ld_live res)
            | None \<Rightarrow> Inr [])
         else Inr [])
      else Inr [WriteFile lock_file (ser_lock (with_bootloader dg version (ld_entries res)
                  (pins_with_prior de_lock fs lock_file (ld_pins res) version (ld_live res))))])"

section \<open>The ordered maps\<close>

lemma bt_ok_extend [simp]: "bt_ok m \<Longrightarrow> bt_ok (extend_map m kvs)"
  by (simp add: extend_map_def bt_ok_fold_insert)

lemma map_of_extend: "map_of (extend_map m kvs) = map_of m ++ map_of (rev kvs)"
  by (simp add: extend_map_def map_of_fold_insert)

lemma bt_ok_distinct_snd: "bt_ok m \<Longrightarrow> map_of (rev m) = map_of m"
  using bt_ok_distinct [of m] by (metis distinct_rev map_of_inject_set rev_map set_rev)

lemma map_of_extend_bt: "bt_ok kvs \<Longrightarrow> map_of (extend_map m kvs) = map_of m ++ map_of kvs"
  by (simp add: map_of_extend bt_ok_distinct_snd)

lemma map_of_filter_bt:
  "bt_ok m \<Longrightarrow> map_of (filter P m) k = Some v \<longleftrightarrow> map_of m k = Some v \<and> P (k, v)"
  using bt_ok_distinct [of m] by (simp add: distinct_map_filter)

lemma bt_ok_fold_new: "bt_ok m \<Longrightarrow> bt_ok (fold (\<lambda>(i, url) out. bt_insert_new url i out) xs m)"
  by (rule fold_keeps) (auto split: prod.split)

lemma map_of_invert: "bt_ok m \<Longrightarrow> map_of (invert m) u = Some i \<Longrightarrow> map_of m i = Some u"
  using first_of_swapped [of m u i] by (simp add: invert_def fold_insert_new)

lemma map_of_handle_by_url: "bt_ok (by_id r) \<Longrightarrow> map_of (handle_by_url r) u = Some i \<Longrightarrow> map_of (by_id r) i = Some u"
  using map_of_invert [of "by_id r" u i] by (simp add: invert_def handle_by_url_def)

lemma bt_ok_invert [simp]: "bt_ok (invert m)" and bt_ok_handle_by_url [simp]: "bt_ok (handle_by_url r)"
  by (simp_all add: invert_def handle_by_url_def bt_ok_fold_new)

section \<open>A lock does not contradict itself\<close>

text \<open>
  What the handle map of a cache has to satisfy: no two URLs share a handle, and every URL is a payload
  the fetcher accepts.
\<close>

definition handles_sound :: "(string, string) btree \<Rightarrow> bool" where
  "handles_sound h \<longleftrightarrow> bt_ok h \<and> distinct (map snd h) \<and> list_all payload_ok (map fst h)"

lemma handles_sound_map:
  "handles_sound h \<longleftrightarrow> bt_ok h
     \<and> (\<forall>u i. map_of h u = Some i \<longrightarrow> payload_ok u \<and> (\<forall>v. map_of h v = Some i \<longrightarrow> v = u))"
proof (cases "bt_ok h")
  case True
  have mem: "map_of h u = Some i \<longleftrightarrow> (u, i) \<in> set h" for u i
    using bt_ok_distinct [OF True] by simp
  have "distinct (map snd h) \<longleftrightarrow> inj_on snd (set h)"
    using bt_ok_distinct [OF True] by (simp add: distinct_map)
  also have "\<dots> \<longleftrightarrow> (\<forall>u i v. (u, i) \<in> set h \<longrightarrow> (v, i) \<in> set h \<longrightarrow> v = u)"
    by (force simp: inj_on_def)
  finally show ?thesis using True by (auto simp: handles_sound_def mem list_all_iff)
qed (simp add: handles_sound_def)

lemma handles_soundD:
  assumes "handles_sound h"
  shows "bt_ok h" "map_of h u = Some i \<Longrightarrow> payload_ok u" "map_of h u = Some i \<Longrightarrow> map_of h v = Some i \<Longrightarrow> v = u"
  using assms handles_sound_map by blast+

text \<open>The facts about a resolution the reconciliation rests on.\<close>

definition resolution_of :: "discovered \<Rightarrow> wasm_resolution \<Rightarrow> bool" where
  "resolution_of d r \<longleftrightarrow> bt_ok (bx_data d) \<and> bt_ok (by_id r)
     \<and> fst ` set (bx_data d) \<subseteq> set (observed_ids r) \<and> fst ` set (by_id r) \<subseteq> set (observed_ids r)
     \<and> list_all (\<lambda>(i, u). payload_ok u) (by_id r)
     \<and> list_all (\<lambda>(i, u). payload_ok u \<longrightarrow> map_of (by_id r) i = Some u) (bx_data d)"

lemma resolution_of_resolve:
  assumes "bt_ok (bx_data d)"
  shows "resolution_of d (fst (resolve_wasm_with parse get w d opts))"
proof -
  let ?r = "fst (resolve_wasm_with parse get w d opts)"
  obtain m where s: "bt_ok m" "map_of (bx_data d) \<subseteq>\<^sub>m map_of m" "bt_ok (by_id ?r)"
    "map_of (by_id ?r) = (\<lambda>i. case map_of m i of Some u \<Rightarrow> if payload_ok u then Some u else None | None \<Rightarrow> None)"
    "set (observed_ids ?r) = fst ` set m"
    by (rule resolve_wasm_parts [OF assms refl])
  have d: "map_of m i = Some u" if "(i, u) \<in> set (bx_data d)" for i u
  proof -
    have "map_of (bx_data d) i = Some u" using that bt_ok_distinct [OF assms] by simp
    then show ?thesis using s(2) by (metis domI map_le_def)
  qed
  have b: "map_of m i = Some u \<and> payload_ok u" if "(i, u) \<in> set (by_id ?r)" for i u
  proof -
    have "map_of (by_id ?r) i = Some u" using that bt_ok_distinct [OF s(3)] by simp
    with fun_cong [OF s(4), of i] show ?thesis by (auto split: option.splits if_splits)
  qed
  have "map_of (by_id ?r) i = Some u" if "(i, u) \<in> set (bx_data d)" "payload_ok u" for i u
    using d [OF that(1)] that(2) fun_cong [OF s(4), of i] by simp
  moreover have "fst ` set (bx_data d) \<subseteq> set (observed_ids ?r)" unfolding s(5) using d map_of_SomeD by force
  moreover have "fst ` set (by_id ?r) \<subseteq> set (observed_ids ?r)" unfolding s(5) using b map_of_SomeD by force
  ultimately show ?thesis using assms s(3) b by (auto simp: resolution_of_def list_all_iff)
qed

text \<open>A binding that survives the reconciliation is live, or the cache's for a handle the run never saw.\<close>

lemma run_handles_origin:
  assumes r: "resolution_of d r" and c: "bt_ok cached" and h: "map_of (run_handles d r cached) u = Some i"
  shows "map_of (by_id r) i = Some u \<or> i \<notin> set (observed_ids r) \<and> map_of cached u = Some i"
proof -
  have ok: "bt_ok (bx_data d)" "bt_ok (by_id r)" using r by (simp_all add: resolution_of_def)
  let ?g = "extend_map (extend_map (invert (bx_data d)) cached) (handle_by_url r)"
  have "bt_ok ?g" by simp
  from map_of_filter_bt [OF this] h have g: "map_of ?g u = Some i"
    and keep: "case map_of (by_id r) i of Some v \<Rightarrow> v = u | None \<Rightarrow> i \<notin> set (observed_ids r)"
    by (auto simp: run_handles_def drop_stale_aliases_def)
  from g consider "map_of (handle_by_url r) u = Some i" | "map_of cached u = Some i" | "map_of (invert (bx_data d)) u = Some i"
    by (auto simp: map_of_extend_bt c map_add_Some_iff)
  then show ?thesis
  proof cases
    case 1
    then show ?thesis using map_of_handle_by_url [OF ok(2)] by blast
  next
    case 2
    with keep show ?thesis by (auto split: option.splits)
  next
    case 3
    then have "(i, u) \<in> set (bx_data d)" using map_of_invert [OF ok(1)] map_of_SomeD by fast
    then have "i \<in> set (observed_ids r)" using r by (force simp: resolution_of_def)
    with keep show ?thesis by (auto split: option.splits)
  qed
qed

lemma bt_ok_run_handles [simp]: "bt_ok cached \<Longrightarrow> bt_ok (run_handles d r cached)"
  by (simp add: run_handles_def drop_stale_aliases_def)

lemma by_id_ok:
  assumes "resolution_of d r" "map_of (by_id r) i = Some u"
  shows "payload_ok u" "i \<in> set (observed_ids r)"
proof -
  have m: "(i, u) \<in> set (by_id r)" by (rule map_of_SomeD) (rule assms(2))
  have "list_all (\<lambda>(i, u). payload_ok u) (by_id r)" "fst ` set (by_id r) \<subseteq> set (observed_ids r)"
    using assms(1) by (simp_all add: resolution_of_def)
  with m show "payload_ok u" "i \<in> set (observed_ids r)" by (auto simp: list_all_iff)
qed

lemma run_handles_sound:
  assumes r: "resolution_of d r" and c: "handles_sound cached"
  shows "handles_sound (run_handles d r cached)"
proof -
  note o = run_handles_origin [OF r handles_soundD(1) [OF c]]
  have "payload_ok u" if "map_of (run_handles d r cached) u = Some i" for u i
    using o [OF that] by_id_ok [OF r] handles_soundD(2) [OF c] by blast
  moreover have "v = u" if "map_of (run_handles d r cached) u = Some i" "map_of (run_handles d r cached) v = Some i" for u v i
  proof (cases "i \<in> set (observed_ids r)")
    case True
    with o [OF that(1)] o [OF that(2)] show ?thesis by simp
  next
    case False
    then have "map_of (by_id r) i = None" using by_id_ok(2) [OF r, of i] by (cases "map_of (by_id r) i") auto
    with o [OF that(1)] o [OF that(2)] show ?thesis using handles_soundD(3) [OF c] by simp
  qed
  ultimately show ?thesis using handles_soundD(1) [OF c] by (auto simp: handles_sound_map)
qed

lemma run_ids_lookup:
  assumes "bt_ok (bx_data d)" "bt_ok (by_id r)"
  shows "map_of (run_ids d r cached) i = (case (map_of (bx_data d) ++ map_of (by_id r)) i of Some u \<Rightarrow> Some u
      | None \<Rightarrow> if i \<in> set (observed_ids r) then None else map_of (map (\<lambda>(u, i). (i, u)) cached) i)"
    and "bt_ok (run_ids d r cached)"
proof -
  have eq: "fold (\<lambda>(url, i) ids. if i \<in> set (observed_ids r) then ids else bt_insert_new i url ids) cached m
      = fold (\<lambda>(url, i) ids. bt_insert_new i url ids) (filter (\<lambda>(u, i). i \<notin> set (observed_ids r)) cached) m" for m
    by (induction cached arbitrary: m) auto
  have sw: "map_of (map (\<lambda>(u, i). (i, u)) (filter (\<lambda>(u, i). i \<notin> set (observed_ids r)) cached)) i
      = (if i \<in> set (observed_ids r) then None else map_of (map (\<lambda>(u, i). (i, u)) cached) i)" for i
    by (induction cached) auto
  show "map_of (run_ids d r cached) i = (case (map_of (bx_data d) ++ map_of (by_id r)) i of Some u \<Rightarrow> Some u
      | None \<Rightarrow> if i \<in> set (observed_ids r) then None else map_of (map (\<lambda>(u, i). (i, u)) cached) i)"
    unfolding run_ids_def eq fold_insert_new sw map_of_extend_bt [OF assms(2)] ..
  show "bt_ok (run_ids d r cached)"
    unfolding run_ids_def eq by (rule bt_ok_fold_new) (simp add: assms)
qed

lemma swapped_lookup:
  assumes "handles_sound h" "map_of h u = Some i"
  shows "map_of (map (\<lambda>(u, i). (i, u)) h) i = Some u"
proof -
  have "distinct (map fst (map (\<lambda>(u, i). (i, u)) h))"
    using assms(1) by (simp add: handles_sound_def o_def split_def)
  moreover have "(i, u) \<in> set (map (\<lambda>(u, i). (i, u)) h)" using map_of_SomeD [OF assms(2)] by force
  ultimately show ?thesis by simp
qed

text \<open>The handle a payload is stamped with resolves, in the pins, to that payload.\<close>

lemma run_handles_pinned:
  assumes r: "resolution_of d r" and c: "handles_sound cached" and h: "map_of (run_handles d r cached) u = Some i"
  shows "map_of (pin_handles (pins_of r (run_ids d r cached))) i = Some u"
proof -
  have ok: "bt_ok (bx_data d)" "bt_ok (by_id r)" using r by (simp_all add: resolution_of_def)
  have "payload_ok u" using handles_soundD(2) [OF run_handles_sound [OF r c] h] .
  moreover have "map_of (run_ids d r cached) i = Some u"
  proof (cases "map_of (by_id r) i = Some u")
    case True
    then show ?thesis by (simp add: run_ids_lookup [OF ok])
  next
    case False
    with run_handles_origin [OF r handles_soundD(1) [OF c] h]
    have n: "i \<notin> set (observed_ids r)" "map_of cached u = Some i" by auto
    then have "map_of (bx_data d) i = None" "map_of (by_id r) i = None"
      using r by (auto simp: resolution_of_def map_of_eq_None_iff)
    then show ?thesis using n swapped_lookup [OF c n(2)] by (simp add: run_ids_lookup [OF ok] map_add_def)
  qed
  ultimately show ?thesis
    using map_of_filter_bt [OF run_ids_lookup(2) [OF ok]] by (simp add: pins_of_def payload_ok_def)
qed

section \<open>The payload set\<close>

lemma map_of_rev_by_url:
  assumes "\<And>b c. b \<in> set bs \<Longrightarrow> c \<in> set bs \<Longrightarrow> b_url b = b_url c \<Longrightarrow> b = c"
  shows "map_of (rev (by_url bs)) u = Some b \<longleftrightarrow> b \<in> set bs \<and> b_url b = u"
proof
  assume "map_of (rev (by_url bs)) u = Some b"
  then have "(u, b) \<in> set (rev (by_url bs))" by (rule map_of_SomeD)
  then show "b \<in> set bs \<and> b_url b = u" by (auto simp: by_url_def)
next
  assume b: "b \<in> set bs \<and> b_url b = u"
  then have "(u, b) \<in> set (rev (by_url bs))" by (force simp: by_url_def)
  then obtain c where c: "map_of (rev (by_url bs)) u = Some c" by (metis weak_map_of_SomeI)
  then have "(u, c) \<in> set (rev (by_url bs))" by (rule map_of_SomeD)
  then have "c \<in> set bs" "b_url c = u" by (auto simp: by_url_def)
  with assms b c show "map_of (rev (by_url bs)) u = Some b" by blast
qed

lemma bt_values:
  assumes "bt_ok m" "\<And>u b. map_of m u = Some b \<Longrightarrow> b_url b = u"
  shows "b \<in> set (map snd m) \<longleftrightarrow> map_of m (b_url b) = Some b" and "map b_url (map snd m) = map fst m"
proof -
  have mem: "map_of m u = Some b \<longleftrightarrow> (u, b) \<in> set m" for u b using bt_ok_distinct [OF assms(1)] by simp
  have key: "b_url (snd e) = fst e" if "e \<in> set m" for e
    using that assms(2) [of "fst e" "snd e"] by (simp add: mem)
  show "b \<in> set (map snd m) \<longleftrightarrow> map_of m (b_url b) = Some b"
  proof
    assume "b \<in> set (map snd m)"
    then obtain e where "e \<in> set m" "b = snd e" by auto
    with key [OF this(1)] show "map_of m (b_url b) = Some b" by (simp add: mem)
  next
    assume "map_of m (b_url b) = Some b"
    then show "b \<in> set (map snd m)" unfolding mem by force
  qed
  have "map (b_url \<circ> snd) m = map fst m" by (rule map_cong) (simp_all add: key)
  then show "map b_url (map snd m) = map fst m" by simp
qed

lemma merged_payloads_exact:
  assumes "distinct (map b_url salvaged)"
  shows "b \<in> set (merged_payloads answer resolved salvaged) \<longleftrightarrow> is_module b \<and>
      (b \<in> set salvaged \<or> b_url b \<in> set resolved \<and> b_url b \<notin> b_url ` set salvaged
         \<and> download_item (b_url b) (answer (b_url b)) = Inr b)"
    and "sorted_wrt (<) (map b_url (merged_payloads answer resolved salvaged))"
proof -
  define cached where "cached = bt_of (by_url salvaged)"
  define downloaded where "downloaded = filter is_module
      (bundles (sequential answer (filter (\<lambda>u. map_of cached u = None) resolved)))"
  define reused where "reused = filter is_module (map snd cached)"
  let ?m = "extend_map (bt_of (by_url reused)) (by_url downloaded)"
  have m: "merged_payloads answer resolved salvaged = map snd ?m"
    by (simp add: merged_payloads_def Let_def cached_def downloaded_def reused_def)
  have ok: "bt_ok cached" "bt_ok ?m" by (simp_all add: cached_def)
  have inj: "b = c" if "b \<in> set salvaged" "c \<in> set salvaged" "b_url b = b_url c" for b c
    using assms that by (auto simp: distinct_map dest: inj_onD)
  have c: "map_of cached u = Some b \<longleftrightarrow> b \<in> set salvaged \<and> b_url b = u" for u b
    unfolding cached_def map_of_bt_of by (rule map_of_rev_by_url) (rule inj)
  then have cn: "map_of cached u = None \<longleftrightarrow> u \<notin> b_url ` set salvaged" for u
    using not_None_eq [of "map_of cached u"] unfolding c by blast
  have re: "b \<in> set reused \<longleftrightarrow> is_module b \<and> b \<in> set salvaged" for b
    using bt_values(1) [OF ok(1), of b] c by (auto simp: reused_def)
  have dl: "b \<in> set downloaded \<longleftrightarrow> is_module b \<and> b_url b \<in> set resolved \<and> b_url b \<notin> b_url ` set salvaged
      \<and> download_item (b_url b) (answer (b_url b)) = Inr b" for b
  proof -
    have "Inr b \<in> (\<lambda>u. download_item u (answer u)) ` S \<longleftrightarrow>
        b_url b \<in> S \<and> download_item (b_url b) (answer (b_url b)) = Inr b" for S
    proof
      assume "Inr b \<in> (\<lambda>u. download_item u (answer u)) ` S"
      then obtain u where "u \<in> S" and u: "Inr b = download_item u (answer u)" by (rule imageE)
      with download_item_url(1) [OF u [symmetric]]
      show "b_url b \<in> S \<and> download_item (b_url b) (answer (b_url b)) = Inr b" by simp
    next
      assume "b_url b \<in> S \<and> download_item (b_url b) (answer (b_url b)) = Inr b"
      then show "Inr b \<in> (\<lambda>u. download_item u (answer u)) ` S"
        by (intro image_eqI [of _ _ "b_url b"]) simp_all
    qed
    note img = this [of "{u \<in> set resolved. u \<notin> b_url ` set salvaged}"]
    have "b \<in> set downloaded \<longleftrightarrow> is_module b
        \<and> Inr b \<in> (\<lambda>u. download_item u (answer u)) ` {u \<in> set resolved. u \<notin> b_url ` set salvaged}"
      by (simp add: downloaded_def sequential_def outcome_of_def set_succeeded cn conj_commute)
    then show ?thesis unfolding img mem_Collect_eq by argo
  qed
  have r: "map_of (bt_of (by_url reused)) u = Some b \<longleftrightarrow> b \<in> set reused \<and> b_url b = u" for u b
    unfolding map_of_bt_of by (rule map_of_rev_by_url) (simp add: inj re)
  have d: "map_of (rev (by_url downloaded)) u = Some b \<longleftrightarrow> b \<in> set downloaded \<and> b_url b = u" for u b
  proof (rule map_of_rev_by_url)
    fix b c assume "b \<in> set downloaded" "c \<in> set downloaded" "b_url b = b_url c"
    then have "(Inr b :: item) = Inr c" unfolding dl by metis
    then show "b = c" by simp
  qed
  have lk: "map_of ?m u = Some b \<longleftrightarrow> b_url b = u \<and> (b \<in> set reused \<or> b \<in> set downloaded)" for u b
  proof -
    have "b \<in> set reused \<and> b_url b = u \<longrightarrow> map_of (rev (by_url downloaded)) u = None"
    proof (rule impI, rule ccontr)
      assume b: "b \<in> set reused \<and> b_url b = u" and "map_of (rev (by_url downloaded)) u \<noteq> None"
      then obtain c where "c \<in> set downloaded" "b_url c = u" using d [of u] by blast
      then have "u \<notin> b_url ` set salvaged" by (simp add: dl)
      with b show False unfolding re by (metis image_eqI)
    qed
    then show ?thesis unfolding map_of_extend map_add_Some_iff r d by argo
  qed
  show "b \<in> set (merged_payloads answer resolved salvaged) \<longleftrightarrow> is_module b \<and>
      (b \<in> set salvaged \<or> b_url b \<in> set resolved \<and> b_url b \<notin> b_url ` set salvaged
         \<and> download_item (b_url b) (answer (b_url b)) = Inr b)"
  proof -
    have "b \<in> set (map snd ?m) \<longleftrightarrow> map_of ?m (b_url b) = Some b"
      by (rule bt_values(1) [OF ok(2)]) (simp only: lk)
    also have "\<dots> \<longleftrightarrow> b \<in> set reused \<or> b \<in> set downloaded" by (simp only: lk simp_thms)
    finally show ?thesis unfolding m re dl by argo
  qed
  have "map b_url (map snd ?m) = map fst ?m" by (rule bt_values(2) [OF ok(2)]) (simp only: lk)
  then show "sorted_wrt (<) (map b_url (merged_payloads answer resolved salvaged))"
    using ok(2) by (simp only: m)
qed

lemma with_lock_safe_total:
  obtains out where "with_lock_safe_file_names dg ps = Some out" "map b_url out = map b_url ps"
    "map b_bytes out = map b_bytes ps" "distinct (map file_name out)"
proof -
  obtain ns where "alloc_run (\<lambda>b. lock_safe_name dg (b_url b)) ps [] = Some ns" "length ns = length ps" "distinct ns"
    using lock_names.alloc_run_distinct [of dg ps "[]"] by blast
  with renamed_fields [OF this(2)] show ?thesis
    by (intro that [of "renamed ps ns"]) (simp_all add: with_lock_safe_file_names_def lock_safe_names_alloc)
qed

text \<open>What a run reads from the cache.\<close>

definition run_cache ::
    "(bytes \<Rightarrow> cache_manifest option) \<Rightarrow> (bytes \<Rightarrow> bytes) \<Rightarrow> fs \<Rightarrow> wasm_options \<Rightarrow> string option
     \<Rightarrow> bundle_rec list \<times> (string, string) btree" where
  "run_cache de dg fs opts remote_version =
     (case cache_key opts remote_version of
        Some (dir, v) \<Rightarrow> (fst (wasm_payloads de dg dir fs v), wasm_handles de dir fs v)
      | None \<Rightarrow> ([], []))"

lemma load_wasm_parts:
  assumes "load_wasm ser de dg parse get answer fs opts d remote_version w = (res, w')" and "want_wasm opts"
  obtains r cached payloads l where "res = Some l"
    and "r = fst (resolve_wasm_with parse get w d default_resolve_options)"
    and "cached = run_cache de dg fs opts remote_version"
    and "with_lock_safe_file_names dg (merged_payloads answer (urls r) (fst cached)) = Some payloads"
    and "ld_entries l = wasm_entries dg payloads (run_handles d r (snd cached))"
    and "ld_pins l = Some (pins_of r (run_ids d r (snd cached)))" and "ld_live l = observed_ids r"
    and "ld_out_ops l = maybe_save_wasm opts payloads"
    and "ld_cache_ops l = [] \<or> (\<exists>dir v. cache_key opts remote_version = Some (dir, v)
        \<and> store_wasm ser de dg dir fs v payloads (run_handles d r (snd cached)) = Inr (ld_cache_ops l))"
proof -
  obtain r w1 where r: "resolve_wasm_with parse get w d default_resolve_options = (r, w1)" by fastforce
  define cached where "cached = run_cache de dg fs opts remote_version"
  obtain payloads where p: "with_lock_safe_file_names dg (merged_payloads answer (urls r) (fst cached)) = Some payloads"
    by (rule with_lock_safe_total)
  define handles where "handles = run_handles d r (snd cached)"
  define pins where "pins = pins_of r (run_ids d r (snd cached))"
  define cache_ops where "cache_ops = (case cache_key opts remote_version of
      Some (dir, v) \<Rightarrow> (case store_wasm ser de dg dir fs v payloads handles of Inr ops \<Rightarrow> ops | Inl _ \<Rightarrow> [])
    | None \<Rightarrow> [])"
  define l where "l = \<lparr>ld_entries = wasm_entries dg payloads handles, ld_pins = Some pins, ld_live = observed_ids r,
    ld_cache_ops = if payloads = [] then [] else cache_ops, ld_out_ops = maybe_save_wasm opts payloads\<rparr>"
  have "res = Some l"
  proof (cases "cache_key opts remote_version")
    case None
    then have n: "cached = ([], [])" by (simp add: cached_def run_cache_def)
    show ?thesis using assms p [unfolded n]
      by (cases "payloads = []")
         (simp_all add: load_wasm_def Let_def r None n l_def handles_def pins_def wasm_entries_def cache_ops_def)
  next
    case (Some k)
    obtain dir v where k: "k = (dir, v)" by fastforce
    have n: "cached = (fst (wasm_payloads de dg dir fs v), wasm_handles de dir fs v)"
      using Some k by (simp add: cached_def run_cache_def)
    show ?thesis using assms p [unfolded n]
      by (cases "payloads = []")
         (simp_all add: load_wasm_def Let_def r Some k n l_def handles_def pins_def wasm_entries_def cache_ops_def)
  qed
  then show ?thesis
    by (rule that [OF _ _ cached_def p]) (auto simp: r l_def handles_def pins_def cache_ops_def
        split: option.splits sum.splits)
qed

lemma payload_keys:
  assumes "map b_url payloads = map b_url ps" "map b_bytes payloads = map b_bytes ps"
  shows "map (\<lambda>b. (b_url b, b_bytes b)) payloads = map (\<lambda>b. (b_url b, b_bytes b)) ps"
proof -
  have z: "map (\<lambda>b. (b_url b, b_bytes b)) bs = zip (map b_url bs) (map b_bytes bs)" for bs
    by (simp add: zip_map_map zip_same_conv_map)
  show ?thesis unfolding z [of payloads] z [of ps] assms ..
qed

lemma wasm_entries_map:
  "map (\<lambda>e. (w_url e, w_sha256 e, w_size e)) (wasm_entries dg payloads h)
     = map (\<lambda>(u, b). (u, sha256_hex dg b, length b)) (map (\<lambda>b. (b_url b, b_bytes b)) payloads)"
  "map w_url (wasm_entries dg payloads h) = map b_url payloads"
  "map w_file_name (wasm_entries dg payloads h) = map file_name payloads"
  by (simp_all add: wasm_entries_def)

text \<open>
  C25: the WASM set of a run only grows on what the cache holds.  A run always produces a set; its entries
  are, one per URL and under different names, exactly the modules salvaged from the cache of this
  version and the modules downloaded for the resolved URLs the cache does not have, each with the hash
  and size of its bytes; a body without the module header is never recorded.
\<close>

theorem wasm_set_exact:
  assumes "load_wasm ser de dg parse get answer fs opts d remote_version w = (res, w')" and "want_wasm opts"
    and "r = fst (resolve_wasm_with parse get w d default_resolve_options)"
    and "salvaged = fst (run_cache de dg fs opts remote_version)" and "distinct (map b_url salvaged)"
  shows "\<exists>l. res = Some l \<and> distinct (map w_url (ld_entries l)) \<and> distinct (map w_file_name (ld_entries l))
    \<and> (\<lambda>e. (w_url e, w_sha256 e, w_size e)) ` set (ld_entries l) =
        (\<lambda>b. (b_url b, sha256_hex dg (b_bytes b), length (b_bytes b))) ` {b. is_module b
          \<and> (b \<in> set salvaged \<or> b_url b \<in> set (urls r) \<and> b_url b \<notin> b_url ` set salvaged
              \<and> download_item (b_url b) (answer (b_url b)) = Inr b)}"
proof -
  obtain l payloads where l: "res = Some l"
    and p: "with_lock_safe_file_names dg (merged_payloads answer (urls r) salvaged) = Some payloads"
    and e: "ld_entries l = wasm_entries dg payloads (run_handles d r (snd (run_cache de dg fs opts remote_version)))"
    by (rule load_wasm_parts [OF assms(1,2)]) (simp add: assms(3,4))
  let ?ps = "merged_payloads answer (urls r) salvaged"
  have f: "map b_url payloads = map b_url ?ps" "map b_bytes payloads = map b_bytes ?ps" "distinct (map file_name payloads)"
    using with_lock_safe_total [of dg ?ps] p by (metis option.inject)+
  have "distinct (map b_url ?ps)" using merged_payloads_exact(2) [OF assms(5)] strict_sorted_iff by blast
  then have "distinct (map w_url (ld_entries l))" "distinct (map w_file_name (ld_entries l))"
    using f by (simp_all add: e wasm_entries_map)
  moreover have "map (\<lambda>e. (w_url e, w_sha256 e, w_size e)) (ld_entries l)
      = map (\<lambda>b. (b_url b, sha256_hex dg (b_bytes b), length (b_bytes b))) ?ps"
    by (simp only: e wasm_entries_map payload_keys [OF f(1,2)]) simp
  then have "(\<lambda>e. (w_url e, w_sha256 e, w_size e)) ` set (ld_entries l)
      = (\<lambda>b. (b_url b, sha256_hex dg (b_bytes b), length (b_bytes b))) ` set ?ps"
    by (simp only: set_map [symmetric])
  moreover have "set ?ps = {b. is_module b \<and> (b \<in> set salvaged \<or> b_url b \<in> set (urls r)
      \<and> b_url b \<notin> b_url ` set salvaged \<and> download_item (b_url b) (answer (b_url b)) = Inr b)}"
    using merged_payloads_exact(1) [OF assms(5)] by blast
  ultimately show ?thesis using l by simp
qed

definition sample_options_wasm :: wasm_options where
  "sample_options_wasm = \<lparr>want_wasm = True, wasm_cache_dir = None, wasm_out = Some [''o'']\<rparr>"

definition sample_answer :: "string \<Rightarrow> string + http_response" where
  "sample_answer u = Inr \<lparr>status = 200, body = WASM_HEADER @ ''x''\<rparr>"

definition sample_page :: discovered where
  "sample_page = sample_discovered\<lparr>bootloader := None\<rparr>"

abbreviation sample_resolved :: "wasm_resolution \<times> unit" where
  "sample_resolved \<equiv>
     resolve_wasm_with (\<lambda>_. None) (\<lambda>w url hs n. (Inl ''down'', w)) () sample_page default_resolve_options"

abbreviation sample_load :: "wasm_loaded option \<times> unit" where
  "sample_load \<equiv> load_wasm (\<lambda>_. []) (\<lambda>_. None) (\<lambda>_. ''d'') (\<lambda>_. None) (\<lambda>w url hs n. (Inl ''down'', w)) sample_answer
     (\<lambda>_. None) sample_options_wasm sample_page None ()"

lemma sample_urls: "urls (fst sample_resolved) = [''https://static.whatsapp.net/a.wasm'']"
  and sample_by_id: "by_id (fst sample_resolved) = [(''1'', ''https://static.whatsapp.net/a.wasm'')]"
proof -
  have "is_wasm_url ''https://static.whatsapp.net/a.wasm'' \<and> is_cdn_payload ''https://static.whatsapp.net/a.wasm''"
    "\<not> is_cdn_payload ''https://evil.test/b.wasm''" by code_simp+
  then show "urls (fst sample_resolved) = [''https://static.whatsapp.net/a.wasm'']"
    "by_id (fst sample_resolved) = [(''1'', ''https://static.whatsapp.net/a.wasm'')]"
    by (simp_all add: resolve_wasm_with_def sample_page_def sample_discovered_def ask_endpoint_def
        default_resolve_options_def Let_def keep_handle_def bs_of_def bs_insert_def bt_insert_def)
qed

lemma sample_cache_empty: "run_cache de dg fs sample_options_wasm v = ([], [])"
  by (simp add: run_cache_def cache_key_def sample_options_wasm_def)

lemma distinct_singleton_list: "distinct xs \<Longrightarrow> set xs = {x} \<Longrightarrow> xs = [x]"
proof (cases xs)
  case (Cons y ys)
  moreover assume "distinct xs" "set xs = {x}"
  ultimately show ?thesis by (cases ys) auto
qed simp

lemma sample_load_entries:
  "\<exists>l. fst sample_load = Some l \<and> map w_url (ld_entries l) = [''https://static.whatsapp.net/a.wasm'']"
proof -
  let ?u = "''https://static.whatsapp.net/a.wasm''"
  define b where "b = \<lparr>b_url = ?u, file_name = bundle_file_name ?u, b_bytes = WASM_HEADER @ ''x''\<rparr>"
  have i: "download_item ?u (sample_answer ?u) = Inr b" "is_module b" "b_url b = ?u"
    by (simp_all add: b_def sample_answer_def download_item_def fetch_bytes_def is_success_def is_module_def)
  then have m: "merged_payloads sample_answer [?u] [] = [b]"
    by (simp add: merged_payloads_def bt_of_def by_url_def sequential_def outcome_of_def extend_map_def bt_insert_def)
  have w: "want_wasm sample_options_wasm" by (simp add: sample_options_wasm_def)
  obtain r payloads l h where "fst sample_load = Some l" and e: "ld_entries l = wasm_entries (\<lambda>_. ''d'') payloads h"
    and p: "with_lock_safe_file_names (\<lambda>_. ''d'') [b] = Some payloads"
    by (rule load_wasm_parts [OF prod.collapse [symmetric, of sample_load] w])
       (simp only: sample_cache_empty fst_conv sample_urls m)
  moreover have "map b_url payloads = [?u]"
    using with_lock_safe_total [of "\<lambda>_. ''d''" "[b]"] p i(3) by (metis list.map option.inject)
  ultimately show ?thesis by (auto simp: wasm_entries_map)
qed

theorem wasm_set_exact_witness:
  "\<exists>l. fst sample_load = Some l
     \<and> map w_url (ld_entries l) = [''https://static.whatsapp.net/a.wasm'']"
proof -
  let ?u = "''https://static.whatsapp.net/a.wasm''"
  define b where "b = \<lparr>b_url = ?u, file_name = bundle_file_name ?u, b_bytes = WASM_HEADER @ ''x''\<rparr>"
  let ?c = "run_cache (\<lambda>_. None) (\<lambda>_. ''d'') (\<lambda>_. None) sample_options_wasm None"
  have d: "distinct (map b_url (fst ?c))" by (simp add: sample_cache_empty)
  have i: "download_item ?u (sample_answer ?u) = Inr b"
    by (simp add: b_def sample_answer_def download_item_def fetch_bytes_def is_success_def)
  have w: "want_wasm sample_options_wasm" by (simp add: sample_options_wasm_def)
  obtain l where l: "fst sample_load = Some l" "distinct (map w_url (ld_entries l))"
    and e: "(\<lambda>e. (w_url e, w_sha256 e, w_size e)) ` set (ld_entries l) =
        (\<lambda>b. (b_url b, sha256_hex (\<lambda>_. ''d'') (b_bytes b), length (b_bytes b))) ` {b. is_module b
          \<and> (b \<in> set (fst ?c) \<or> b_url b \<in> set (urls (fst sample_resolved)) \<and> b_url b \<notin> b_url ` set (fst ?c)
              \<and> download_item (b_url b) (sample_answer (b_url b)) = Inr b)}" (is "_ = _ ` ?S")
    using wasm_set_exact [OF prod.collapse [symmetric, of sample_load] w refl refl d] by blast
  have "?S = {b}" unfolding sample_cache_empty sample_urls using i
    by (auto simp: b_def is_module_def)
  then have "fst ` (\<lambda>e. (w_url e, w_sha256 e, w_size e)) ` set (ld_entries l) = {?u}"
    unfolding e by (simp add: b_def)
  then have "w_url ` set (ld_entries l) = {?u}" by (simp only: image_image fst_conv)
  then have "set (map w_url (ld_entries l)) = {?u}" by simp
  with l(2) have "map w_url (ld_entries l) = [?u]" by (rule distinct_singleton_list)
  with l(1) show ?thesis by (intro exI conjI)
qed

section \<open>The pins of the committed lock\<close>

lemma merge_prior_lookup:
  "map_of (pin_handles (merge_prior_handles pins prior live)) i =
     (case map_of (pin_handles pins) i of
        Some u \<Rightarrow> Some u
      | None \<Rightarrow> (case prior of
          None \<Rightarrow> None
        | Some p \<Rightarrow> if i \<in> set live then None else map_of (pin_handles p) i))"
proof (cases prior)
  case (Some p)
  have f: "map_of (pin_handles (fold (\<lambda>(i, url) q. if i \<in> set live then q
        else q\<lparr>pin_handles := bt_insert_new i url (pin_handles q)\<rparr>) xs q)) i =
      (case map_of (pin_handles q) i of Some u \<Rightarrow> Some u
       | None \<Rightarrow> if i \<in> set live then None else map_of xs i)" for xs q
    by (induction xs arbitrary: q) (auto simp: domIff split: option.splits if_splits)
  show ?thesis unfolding Some merge_prior_handles_def option.case f ..
qed (simp add: merge_prior_handles_def split: option.split)

text \<open>The pins a lock of this release already holds.\<close>

definition prior_pins :: "(bytes \<Rightarrow> wasm_lock option) \<Rightarrow> fs \<Rightarrow> path \<Rightarrow> string \<Rightarrow> bootloader_pins option" where
  "prior_pins de_lock fs lock_file version =
     (case Option.bind (read_file fs lock_file) de_lock of
        Some l \<Rightarrow> if wl_wa_version l = version then wl_bootloader l else None
      | None \<Rightarrow> None)"

lemma pins_with_prior_merge:
  "pins_with_prior de_lock fs lock_file (Some p) version live =
     Some (merge_prior_handles p (prior_pins de_lock fs lock_file version) live)"
  by (simp add: pins_with_prior_def prior_pins_def Let_def split: option.split)

text \<open>A lock in which every handle stamped on a payload is pinned to that payload's URL.\<close>

definition lock_coherent :: "wasm_lock \<Rightarrow> bool" where
  "lock_coherent l \<longleftrightarrow>
     list_all (\<lambda>e. case bx_id e of
         None \<Rightarrow> True
       | Some i \<Rightarrow> (case wl_bootloader l of
           Some p \<Rightarrow> map_of (pin_handles p) i = Some (w_url e)
         | None \<Rightarrow> False)) (wl_wasm l)"

lemma set_with_bootloader:
  "set (wl_wasm (with_bootloader dg v ws p)) = set ws" "wl_bootloader (with_bootloader dg v ws p) = p"
  "mset (wl_wasm (with_bootloader dg v ws p)) = mset ws"
  by (simp_all add: with_bootloader_def Let_def)

lemma lock_verifies: "verify_wasm_lock dg (with_bootloader dg v ws p) = Inr ()"
  by (simp add: verify_wasm_lock_def with_bootloader_def Let_def)

text \<open>Every stamp of a run is pinned by it.\<close>

lemma load_wasm_pinned:
  assumes "load_wasm ser de dg parse get answer fs opts d remote_version w = (Some l, w')" and "want_wasm opts"
    and "bt_ok (bx_data d)" and "handles_sound (snd (run_cache de dg fs opts remote_version))"
  shows "\<exists>pins. ld_pins l = Some pins \<and> (\<forall>e \<in> set (ld_entries l). \<forall>i. bx_id e = Some i \<longrightarrow>
    map_of (pin_handles pins) i = Some (w_url e))"
proof -
  obtain r payloads where r: "r = fst (resolve_wasm_with parse get w d default_resolve_options)"
    and e: "ld_entries l = wasm_entries dg payloads (run_handles d r (snd (run_cache de dg fs opts remote_version)))"
    and p: "ld_pins l = Some (pins_of r (run_ids d r (snd (run_cache de dg fs opts remote_version))))"
    by (rule load_wasm_parts [OF assms(1,2)]) simp
  have ok: "resolution_of d r" unfolding r by (rule resolution_of_resolve) (rule assms(3))
  have "map_of (pin_handles (pins_of r (run_ids d r (snd (run_cache de dg fs opts remote_version))))) i = Some (w_url x)"
    if "x \<in> set (ld_entries l)" "bx_id x = Some i" for x i
    using that run_handles_pinned [OF ok assms(4)] by (auto simp: e wasm_entries_def)
  with p show ?thesis by blast
qed

text \<open>
  C23: the lock an update writes does not contradict itself: it passes the reader's check, holds exactly
  the entries of the run, and every handle stamped on a payload is pinned to that payload's URL, though
  stamps and pins are computed from the page, the endpoint and the cache along different ways; and it
  forgets no handle the previous lock of the release pinned, unless this run saw the handle.
\<close>

theorem written_lock_coherent:
  assumes "load_wasm ser de dg parse get answer fs opts d remote_version w = (Some l, w')" and "want_wasm opts"
    and "bt_ok (bx_data d)" and "handles_sound (snd (run_cache de dg fs opts remote_version))"
    and "ld_entries l \<noteq> []"
    and "write_wasm_lock de_lock ser_lock dg fs1 lock_file opts version l = res"
  shows "\<exists>lock p. res = Inr [WriteFile lock_file (ser_lock lock)] \<and> lock_coherent lock
    \<and> verify_wasm_lock dg lock = Inr () \<and> mset (wl_wasm lock) = mset (ld_entries l)
    \<and> wl_bootloader lock = Some p
    \<and> (\<forall>q. prior_pins de_lock fs1 lock_file version = Some q \<longrightarrow>
        dom (map_of (pin_handles q)) - set (ld_live l) \<subseteq> dom (map_of (pin_handles p)))"
proof -
  obtain pins where pins: "ld_pins l = Some pins"
    and e: "\<And>x i. x \<in> set (ld_entries l) \<Longrightarrow> bx_id x = Some i \<Longrightarrow> map_of (pin_handles pins) i = Some (w_url x)"
    using load_wasm_pinned [OF assms(1-4)] by blast
  define p where "p = merge_prior_handles pins (prior_pins de_lock fs1 lock_file version) (ld_live l)"
  let ?lock = "with_bootloader dg version (ld_entries l) (Some p)"
  have "res = Inr [WriteFile lock_file (ser_lock ?lock)]"
    using assms(5,6) by (simp add: write_wasm_lock_def pins pins_with_prior_merge p_def)
  moreover have "map_of (pin_handles p) i = Some (w_url x)" if "x \<in> set (ld_entries l)" "bx_id x = Some i" for x i
    using e [OF that] by (simp add: p_def merge_prior_lookup)
  then have "lock_coherent ?lock"
    by (auto simp: lock_coherent_def list_all_iff set_with_bootloader split: option.split)
  moreover have "dom (map_of (pin_handles q)) - set (ld_live l) \<subseteq> dom (map_of (pin_handles p))"
    if "prior_pins de_lock fs1 lock_file version = Some q" for q
    by (auto simp: p_def that merge_prior_lookup split: option.split)
  ultimately show ?thesis using lock_verifies set_with_bootloader by metis
qed

theorem written_lock_coherent_witness:
  "\<exists>l lock. fst sample_load = Some l
     \<and> write_wasm_lock (\<lambda>_. None) (\<lambda>_. []) (\<lambda>_. ''d'') (\<lambda>_. None) [''l''] sample_options_wasm ''2'' l = Inr [WriteFile [''l''] []]
     \<and> lock_coherent lock \<and> mset (wl_wasm lock) = mset (ld_entries l) \<and> ld_entries l \<noteq> []"
proof -
  obtain l where l: "fst sample_load = Some l" "ld_entries l \<noteq> []" using sample_load_entries by force
  have s: "sample_load = (Some l, snd sample_load)" using l(1) by (metis prod.collapse)
  have h: "want_wasm sample_options_wasm" "bt_ok (bx_data sample_page)"
      "handles_sound (snd (run_cache (\<lambda>_. None) (\<lambda>_. ''d'') (\<lambda>_. None) sample_options_wasm None))"
    by (simp_all add: sample_options_wasm_def sample_page_def sample_discovered_def run_cache_def cache_key_def handles_sound_def)
  from written_lock_coherent [OF s h l(2) refl, of "\<lambda>_. None" "\<lambda>_. []" "\<lambda>_. None" "[''l'']" "''2''"] l
  show ?thesis by blast
qed

section \<open>The cache stays sound\<close>

lemma handles_sound_subset:
  assumes "handles_sound h" "bt_ok h'" "\<And>u i. map_of h' u = Some i \<Longrightarrow> map_of h u = Some i"
  shows "handles_sound h'"
  unfolding handles_sound_map using assms(2,3) handles_soundD(2,3) [OF assms(1)] by blast

lemma stored_handles_sound: "handles_sound h \<Longrightarrow> handles_sound (stored_handles ws h)"
  by (erule handles_sound_subset) (simp add: stored_handles_def, simp add: map_of_stored_handles split: if_splits)

lemma handles_sound_Nil [simp]: "handles_sound []"
  by (simp add: handles_sound_def)

text \<open>
  C24: the handle map of the cache keeps, over any sequence of runs, what the lock's coherence rests on:
  no handle is recorded for two URLs and every URL is a payload the fetcher accepts.  However the
  cache operations of a run end, completed, failed or interrupted, the map read afterwards for any
  version has the property if it had it before.
\<close>

theorem cache_handles_stay_sound:
  assumes "load_wasm ser de dg parse get answer fs opts d remote_version w = (Some l, w')" and "want_wasm opts"
    and "wasm_cache_dir opts = Some dir" and "bt_ok (bx_data d)"
    and "\<And>v. handles_sound (wasm_handles de dir fs v)"
    and "\<And>m ws h. read_manifest de dir fs = Some m \<Longrightarrow>
      de (ser (with_wasm dg ws h m) @ [CHR 0x0A]) = Some (with_wasm dg ws h m)"
    and "runs (ld_cache_ops l) fs ok fs'"
  shows "handles_sound (wasm_handles de dir fs' v)"
proof -
  obtain r payloads where r: "r = fst (resolve_wasm_with parse get w d default_resolve_options)"
    and ops: "ld_cache_ops l = [] \<or> (\<exists>dir v. cache_key opts remote_version = Some (dir, v)
        \<and> store_wasm ser de dg dir fs v payloads (run_handles d r (snd (run_cache de dg fs opts remote_version)))
          = Inr (ld_cache_ops l))"
    by (rule load_wasm_parts [OF assms(1,2)]) simp
  let ?h = "run_handles d r (snd (run_cache de dg fs opts remote_version))"
  have "handles_sound (snd (run_cache de dg fs opts remote_version))"
    using assms(3,5) by (auto simp: run_cache_def cache_key_def split: option.splits)
  then have h: "handles_sound ?h"
    unfolding r by (rule run_handles_sound [OF resolution_of_resolve [OF assms(4)]])
  from ops show ?thesis
  proof
    assume "ld_cache_ops l = []"
    with assms(7) have "fs' = fs" by (auto elim: runs_NilE)
    with assms(5) show ?thesis by simp
  next
    assume "\<exists>dir v. cache_key opts remote_version = Some (dir, v)
        \<and> store_wasm ser de dg dir fs v payloads ?h = Inr (ld_cache_ops l)"
    then obtain v' where "store_wasm ser de dg dir fs v' payloads ?h = Inr (ld_cache_ops l)"
      using assms(3) by (auto simp: cache_key_def split: option.splits)
    from store_wasm_Inr [OF this] obtain m where m: "read_manifest de dir fs = Some m"
      and o: "ld_cache_ops l = (write_set dg payloads (wasm_dir dir) @ write_manifest ser dir (with_wasm dg payloads ?h m))
         @ [Prune (wasm_dir dir) (\<lambda>n. n \<notin> set (map (\<lambda>b. cache_file_name dg (b_url b)) payloads))]"
      by metis
    have "read_manifest de dir fs' = Some m \<or> read_manifest de dir fs' = Some (with_wasm dg payloads ?h m)"
      using store_wasm_manifest [OF assms(7) [unfolded o]] m assms(6) [OF m]
      by (auto simp: read_manifest_def read_file_def)
    then show ?thesis
    proof
      assume "read_manifest de dir fs' = Some m"
      with m have "wasm_handles de dir fs' v = wasm_handles de dir fs v" by (simp add: wasm_handles_def)
      with assms(5) show ?thesis by simp
    next
      assume "read_manifest de dir fs' = Some (with_wasm dg payloads ?h m)"
      with stored_handles_sound [OF h] show ?thesis by (simp add: wasm_handles_def with_wasm_def)
    qed
  qed
qed

text \<open>A manifest can be printed and read back.\<close>

lemma manifest_codec: "\<exists>(ser :: cache_manifest \<Rightarrow> bytes) de. \<forall>m. de (ser m @ [CHR 0x0A]) = Some m"
proof -
  define tup where "tup e = (e_url e, e_file_name e, e_sha256 e, e_size e)" for e :: bundle_entry
  define key where "key m = (m_wa_version m, complete m, map tup (m_bundles m), map tup (m_wasm m), m_wasm_handles m)" for m :: cache_manifest
  have "inj tup" by (rule injI) (simp add: tup_def)
  then have "inj (map tup)" by simp
  then have "inj key" by (intro injI) (auto simp: key_def dest: injD intro!: cache_manifest.equality)
  then have "inj (\<lambda>m. dec (to_nat (key m)) @ [CHR 0x0A])" by (auto simp: inj_def)
  then have "inv (\<lambda>m. dec (to_nat (key m)) @ [CHR 0x0A]) (dec (to_nat (key m)) @ [CHR 0x0A]) = m" for m
    by (rule inv_f_f)
  then show ?thesis
    by (intro exI [of _ "\<lambda>m. dec (to_nat (key m))"] exI [of _ "\<lambda>b. Some (inv (\<lambda>m. dec (to_nat (key m)) @ [CHR 0x0A]) b)"]) simp
qed

theorem cache_handles_stay_sound_witness:
  "\<exists>ser de fs l. fst (load_wasm ser de (\<lambda>_. ''d'') (\<lambda>_. None) (\<lambda>w url hs n. (Inl ''down'', w)) sample_answer fs
       (sample_options_wasm\<lparr>wasm_cache_dir := Some [''c'']\<rparr>) sample_page (Some ''2.1'') ()) = Some l
     \<and> read_manifest de [''c''] fs = Some (new_manifest rev ''2.1'' [])
     \<and> handles_sound (wasm_handles de [''c''] (exec_ops (ld_cache_ops l) fs) ''2.1'')"
proof -
  obtain ser de where c: "\<And>m :: cache_manifest. de (ser m @ [CHR 0x0A]) = Some m" using manifest_codec by metis
  let ?m = "new_manifest rev ''2.1'' []" and ?o = "sample_options_wasm\<lparr>wasm_cache_dir := Some [''c'']\<rparr>"
  let ?fs = "(\<lambda>_. None)(manifest_path [''c''] := Some (File (ser ?m @ [CHR 0x0A]))) :: fs"
  let ?r = "load_wasm ser de (\<lambda>_. ''d'') (\<lambda>_. None) (\<lambda>w url hs n. (Inl ''down'', w)) sample_answer ?fs ?o sample_page
    (Some ''2.1'') ()"
  have m: "read_manifest de [''c''] ?fs = Some ?m" by (simp add: read_manifest_def read_file_def c)
  have h: "handles_sound (wasm_handles de [''c''] ?fs v)" for v
    unfolding wasm_handles_def m by (simp add: new_manifest_def)
  have o: "want_wasm ?o" "wasm_cache_dir ?o = Some [''c'']" "bt_ok (bx_data sample_page)"
    by (simp_all add: sample_options_wasm_def sample_page_def sample_discovered_def)
  obtain l where l: "fst ?r = Some l"
    by (rule load_wasm_parts [OF prod.collapse [symmetric, of ?r] o(1)])
  then have r: "?r = (Some l, snd ?r)" by (metis prod.collapse)
  from cache_handles_stay_sound [OF r o h c runs_exec] l m show ?thesis by blast
qed

section \<open>The output directory\<close>

text \<open>
  After a run with an output directory completes, the directory and the lock's entries agree: under
  every recorded name lie bytes with the recorded hash and size, and no other file with the extension
  \<open>.wasm\<close> is left, whatever was there before.
\<close>

theorem wasm_out_matches_lock:
  assumes "load_wasm ser de dg parse get answer fs opts d remote_version w = (Some l, w')" and "want_wasm opts"
    and "wasm_out opts = Some out" and "runs (ld_out_ops l) fs0 True fs'"
  shows "list_all (\<lambda>e. case read_file fs' (out @ [w_file_name e]) of
        Some b \<Rightarrow> sha256_hex dg b = w_sha256 e \<and> length b = w_size e | None \<Rightarrow> False) (ld_entries l)
    \<and> (path_extension n = Some ''wasm'' \<and> read_file fs' (out @ [n]) \<noteq> None \<longrightarrow> n \<in> w_file_name ` set (ld_entries l))"
proof -
  obtain h ps payloads where p: "with_lock_safe_file_names dg ps = Some payloads"
    and e: "ld_entries l = wasm_entries dg payloads h" and o: "ld_out_ops l = maybe_save_wasm opts payloads"
    by (rule load_wasm_parts [OF assms(1,2)]) blast
  let ?files = "map (\<lambda>b. (file_name b, b_bytes b)) payloads"
  have dist: "distinct (map fst ?files)"
    using with_lock_safe_total [of dg ps] p by (simp add: o_def) (metis option.inject)
  have r: "runs (CreateDirAll out # Sweep out (\<lambda>n. path_extension n = Some ''wasm'')
      # map (\<lambda>(p, b). WriteFile p b) (map (\<lambda>(n, b). (out @ [n], b)) ?files)) fs0 True fs'"
    using assms(4) unfolding o maybe_save_wasm_def assms(3) option.case .
  note ex = swept_writes_exact [OF r dist]
  have names: "fst ` set ?files = w_file_name ` set (ld_entries l)" by (simp add: e wasm_entries_def image_image)
  have "read_file fs' (out @ [file_name b]) = Some (b_bytes b)" if "b \<in> set payloads" for b
  proof -
    have m: "(file_name b, b_bytes b) \<in> set ?files" using that by simp
    then have "file_name b \<in> fst ` set ?files" by force
    then have "read_file fs' (out @ [file_name b]) = map_of ?files (file_name b)" by (intro ex disjI1)
    with m dist show ?thesis by simp
  qed
  then have "list_all (\<lambda>e. case read_file fs' (out @ [w_file_name e]) of
      Some b \<Rightarrow> sha256_hex dg b = w_sha256 e \<and> length b = w_size e | None \<Rightarrow> False) (ld_entries l)"
    by (simp add: e wasm_entries_def list_all_iff)
  moreover have "n \<in> w_file_name ` set (ld_entries l)"
    if "path_extension n = Some ''wasm''" "read_file fs' (out @ [n]) \<noteq> None"
  proof -
    have "read_file fs' (out @ [n]) = map_of ?files n" by (rule ex) (use that(1) in blast)
    with that(2) have "n \<in> fst ` set ?files" by (metis map_of_eq_None_iff)
    then show ?thesis by (simp only: names)
  qed
  ultimately show ?thesis by blast
qed

theorem wasm_out_matches_lock_witness:
  "\<exists>l. fst sample_load = Some l \<and> ld_entries l \<noteq> []
     \<and> list_all (\<lambda>e. case read_file (exec_ops (ld_out_ops l) (\<lambda>_. None)) [''o'', w_file_name e] of
        Some b \<Rightarrow> sha256_hex (\<lambda>_. ''d'') b = w_sha256 e \<and> length b = w_size e | None \<Rightarrow> False) (ld_entries l)"
proof -
  obtain l where l: "fst sample_load = Some l" "ld_entries l \<noteq> []" using sample_load_entries by force
  have s: "sample_load = (Some l, snd sample_load)" using l(1) by (metis prod.collapse)
  have h: "want_wasm sample_options_wasm" "wasm_out sample_options_wasm = Some [''o'']"
    by (simp_all add: sample_options_wasm_def)
  from conjunct1 [OF wasm_out_matches_lock [OF s h runs_exec, of "\<lambda>_. None"]] l show ?thesis by auto
qed

section \<open>A run without payloads\<close>

text \<open>
  C40: a run that resolved no payload rewrites at most the bootloader section of the lock: the payload set
  and its fingerprint stay, no pinned handle is forgotten unless the run saw it, and the lock stays
  coherent as long as the run bound no stamped handle to another URL.
\<close>

theorem update_lock_keeps_set:
  assumes "update_lock_bootloader de_lock ser_lock fs lock_file pins version live = Inr ops"
  shows "\<exists>raw lock. read_file fs lock_file = Some raw \<and> de_lock raw = Some lock
    \<and> (ops = [] \<or> (\<exists>p. ops = [WriteFile lock_file (ser_lock (lock\<lparr>wl_bootloader := Some p\<rparr>))]
        \<and> wl_wa_version lock = version \<and> verify_wasm_lock dg (lock\<lparr>wl_bootloader := Some p\<rparr>) = verify_wasm_lock dg lock
        \<and> (\<forall>q. wl_bootloader lock = Some q \<longrightarrow>
            dom (map_of (pin_handles q)) - set live \<subseteq> dom (map_of (pin_handles p)))
        \<and> (lock_coherent lock \<and> list_all (\<lambda>e. case bx_id e of
              None \<Rightarrow> True
            | Some i \<Rightarrow> map_of (pin_handles pins) i = Some (w_url e)
                \<or> map_of (pin_handles pins) i = None \<and> i \<notin> set live) (wl_wasm lock)
           \<longrightarrow> lock_coherent (lock\<lparr>wl_bootloader := Some p\<rparr>))))"
proof -
  obtain raw lock where l: "read_file fs lock_file = Some raw" "de_lock raw = Some lock"
    using assms by (auto simp: update_lock_bootloader_def split: option.splits)
  show ?thesis
  proof (cases "ops = []")
    case False
    define p where "p = merge_prior_handles pins (wl_bootloader lock) live"
    have ops: "ops = [WriteFile lock_file (ser_lock (lock\<lparr>wl_bootloader := Some p\<rparr>))]" "wl_wa_version lock = version"
      using assms False l by (auto simp: update_lock_bootloader_def Let_def p_def split: if_splits)
    have v: "verify_wasm_lock dg (lock\<lparr>wl_bootloader := Some p\<rparr>) = verify_wasm_lock dg lock"
      by (simp add: verify_wasm_lock_def Let_def)
    have k: "dom (map_of (pin_handles q)) - set live \<subseteq> dom (map_of (pin_handles p))" if "wl_bootloader lock = Some q" for q
      by (auto simp: p_def that merge_prior_lookup split: option.split)
    have c: "lock_coherent (lock\<lparr>wl_bootloader := Some p\<rparr>)"
      if c: "lock_coherent lock" and s: "list_all (\<lambda>e. case bx_id e of None \<Rightarrow> True
            | Some i \<Rightarrow> map_of (pin_handles pins) i = Some (w_url e)
                \<or> map_of (pin_handles pins) i = None \<and> i \<notin> set live) (wl_wasm lock)"
    proof -
      have "map_of (pin_handles p) i = Some (w_url e)" if e: "e \<in> set (wl_wasm lock)" "bx_id e = Some i" for e i
      proof -
        obtain q where "wl_bootloader lock = Some q" "map_of (pin_handles q) i = Some (w_url e)"
          using c e by (auto simp: lock_coherent_def list_all_iff split: option.splits)
        moreover have "map_of (pin_handles pins) i = Some (w_url e) \<or> map_of (pin_handles pins) i = None \<and> i \<notin> set live"
          using s e by (auto simp: list_all_iff split: option.splits)
        ultimately show ?thesis by (auto simp: p_def merge_prior_lookup)
      qed
      then show ?thesis by (auto simp: lock_coherent_def list_all_iff split: option.split)
    qed
    from l ops v k c show ?thesis by blast
  qed (use l in blast)
qed

definition old_lock :: "string \<Rightarrow> wasm_lock" where
  "old_lock url = \<lparr>wl_wa_version = ''2'', wasm_set_hash = [], wasm_count = 1,
     wl_bootloader = Some \<lparr>handles_from_page = 1, pin_handles = [(''1'', url)], pin_requests = 0,
       pin_failed_requests = 0, degradations = 0\<rparr>,
     wl_wasm = [\<lparr>bx_id = Some ''1'', w_file_name = ''o.wasm'', w_url = url, w_sha256 = [], w_size = 0\<rparr>]\<rparr>"

definition lock_fs :: fs where "lock_fs = (\<lambda>_. None)([''l''] := Some (File ''old''))"

theorem update_lock_keeps_set_witness:
  "\<exists>ops. update_lock_bootloader (\<lambda>_. Some (old_lock ''u'')) (\<lambda>_. ''new'') lock_fs [''l'']
       \<lparr>handles_from_page = 0, pin_handles = [(''2'', ''v'')], pin_requests = 2, pin_failed_requests = 2, degradations = 2\<rparr>
       ''2'' [''2''] = Inr ops \<and> ops = [WriteFile [''l''] ''new'']"
proof -
  let ?p = "\<lparr>handles_from_page = 0, pin_handles = [(''2'', ''v'')], pin_requests = 2, pin_failed_requests = 2, degradations = 2\<rparr>"
  obtain ops where o: "update_lock_bootloader (\<lambda>_. Some (old_lock ''u'')) (\<lambda>_. ''new'') lock_fs [''l''] ?p ''2'' [''2''] = Inr ops"
    and ne: "ops \<noteq> []"
    by (simp add: update_lock_bootloader_def lock_fs_def read_file_def old_lock_def merge_prior_handles_def bt_insert_new_def
        bt_insert_def)
  from update_lock_keeps_set [OF o, of "\<lambda>_. []"] ne o show ?thesis by auto
qed

text \<open>
  The proviso is needed: a run whose downloads all fail, over a page that binds handle \<open>1\<close> to another
  URL, rewrites the pins of a coherent lock and leaves the payload stamped with the old binding.
\<close>

lemma update_lock_contradiction:
  "\<exists>l lock. fst (load_wasm (\<lambda>_. []) (\<lambda>_. None) (\<lambda>_. ''d'') (\<lambda>_. None) (\<lambda>w url hs n. (Inl ''down'', w)) (\<lambda>_. Inl ''down'')
       (\<lambda>_. None) sample_options_wasm sample_page None ()) = Some l
     \<and> write_wasm_lock (\<lambda>_. Some (old_lock ''https://static.whatsapp.net/o.wasm'')) ser_lock dg lock_fs [''l'']
         sample_options_wasm ''2'' l = Inr [WriteFile [''l''] (ser_lock lock)]
     \<and> lock_coherent (old_lock ''https://static.whatsapp.net/o.wasm'') \<and> \<not> lock_coherent lock"
proof -
  let ?r = "load_wasm (\<lambda>_. []) (\<lambda>_. None) (\<lambda>_. ''d'') (\<lambda>_. None) (\<lambda>w url hs n. (Inl ''down'', w)) (\<lambda>_. Inl ''down'')
       (\<lambda>_. None) sample_options_wasm sample_page None ()"
  let ?u = "''https://static.whatsapp.net/o.wasm''" and ?v = "''https://static.whatsapp.net/a.wasm''"
  have w: "want_wasm sample_options_wasm" by (simp add: sample_options_wasm_def)
  have m: "merged_payloads (\<lambda>_. Inl ''down'') [?v] [] = []"
    by (simp add: merged_payloads_def bt_of_def by_url_def sequential_def outcome_of_def extend_map_def
        download_item_def fetch_bytes_def)
  obtain payloads l where l: "fst ?r = Some l" and e: "ld_entries l = wasm_entries (\<lambda>_. ''d'') payloads
        (run_handles sample_page (fst sample_resolved) [])"
    and p: "with_lock_safe_file_names (\<lambda>_. ''d'') [] = Some payloads"
    and q: "ld_pins l = Some (pins_of (fst sample_resolved) (run_ids sample_page (fst sample_resolved) []))"
    by (rule load_wasm_parts [OF prod.collapse [symmetric, of ?r] w])
       (simp only: sample_cache_empty fst_conv snd_conv sample_urls m)
  from p have "payloads = []" by (simp add: with_lock_safe_file_names_def)
  with e have e: "ld_entries l = []" by (simp add: wasm_entries_def)
  have v: "is_wasm_url ?v" "is_cdn_payload ?v" by code_simp+
  define pins where "pins = pins_of (fst sample_resolved) (run_ids sample_page (fst sample_resolved) [])"
  have b: "bt_ok (bx_data sample_page)" "bt_ok (by_id (fst sample_resolved))"
    unfolding sample_by_id by (simp_all add: sample_page_def sample_discovered_def)
  have "map_of (run_ids sample_page (fst sample_resolved) []) ''1'' = Some ?v"
    unfolding run_ids_lookup(1) [OF b] sample_by_id by simp
  then have pin: "map_of (pin_handles pins) ''1'' = Some ?v"
    using map_of_filter_bt [OF run_ids_lookup(2) [OF b]] v by (simp add: pins_def pins_of_def)
  define p where "p = merge_prior_handles pins (wl_bootloader (old_lock ?u)) (ld_live l)"
  have p1: "map_of (pin_handles p) ''1'' = Some ?v" by (simp add: p_def merge_prior_lookup pin)
  have neq: "?u \<noteq> ?v" by simp
  have old: "wl_bootloader (old_lock ?u) \<noteq> Some p" using p1 neq by (auto simp: old_lock_def)
  have c: "lock_coherent (old_lock ?u)" by (simp add: lock_coherent_def old_lock_def)
  have n: "\<not> lock_coherent ((old_lock ?u)\<lparr>wl_bootloader := Some p\<rparr>)"
    using p1 neq by (simp add: lock_coherent_def old_lock_def)
  have q': "ld_pins l = Some pins" using q by (simp only: pins_def)
  have f: "read_file lock_fs [''l''] = Some ''old''" by (simp add: lock_fs_def read_file_def)
  have vers: "wl_wa_version (old_lock ?u) = ''2''" by (simp add: old_lock_def)
  have "write_wasm_lock (\<lambda>_. Some (old_lock ?u)) ser_lock dg lock_fs [''l''] sample_options_wasm ''2'' l
      = Inr [WriteFile [''l''] (ser_lock ((old_lock ?u)\<lparr>wl_bootloader := Some p\<rparr>))]"
    using old by (simp add: write_wasm_lock_def e q' w update_lock_bootloader_def f vers Let_def p_def)
  with l c n show ?thesis by blast
qed

end
