(* ===== verification/MexLiteral.thy ===== *)
theory MexLiteral
  imports TextScan HttpPort UrlPolicy
begin

text \<open>
  The literal parser of \<open>crates/wa-mex/src/shape.rs\<close>: it reads the operation literal of a compiled
  GraphQL module out of minified JavaScript, resolving bare identifiers to the literals assigned to
  them elsewhere in the body.  Its loops have no bound, so every function takes fuel: \<open>Runs_on\<close> says
  that the fuel did not suffice, \<open>Panics\<close> that a slice was out of range.  The theorems say on which
  texts the parser returns, with how much fuel, and that there are texts on which no fuel suffices.
\<close>

section \<open>Values\<close>

datatype val =
    VStr string
  | VBool bool
  | VNull
  | VUndefined
  | VNum
  | VObj "(string \<times> val) list"
  | VArr "val list"
  | VRef string

fun val_get :: "val \<Rightarrow> string \<Rightarrow> val option" where
  "val_get (VObj props) key = map_of props key"
| "val_get _ key = None"

fun val_as_str :: "val \<Rightarrow> string option" where
  "val_as_str (VStr s) = Some s"
| "val_as_str _ = None"

fun is_truthy_bool :: "val \<Rightarrow> bool" where
  "is_truthy_bool (VBool b) = b"
| "is_truthy_bool _ = False"

datatype 'a outcome = Returns 'a | Panics | Runs_on

fun and_then :: "'a outcome \<Rightarrow> ('a \<Rightarrow> 'b outcome) \<Rightarrow> 'b outcome" where
  "and_then (Returns x) f = f x"
| "and_then Panics f = Panics"
| "and_then Runs_on f = Runs_on"

lemma and_then_Returns [simp]: "and_then r f = Returns y \<longleftrightarrow> (\<exists>x. r = Returns x \<and> f x = Returns y)"
  by (cases r) auto

lemma and_then_Panics: "and_then r f = Panics \<longleftrightarrow> r = Panics \<or> (\<exists>x. r = Returns x \<and> f x = Panics)"
  by (cases r) auto

section \<open>Lexical level\<close>

definition is_ident_byte :: "char \<Rightarrow> bool" where
  "is_ident_byte c \<longleftrightarrow> is_ascii_alphanumeric c \<or> c = CHR ''_'' \<or> c = CHR ''$''"

definition is_word_js :: "char \<Rightarrow> bool" where
  "is_word_js c \<longleftrightarrow> is_ascii_alphanumeric c \<or> c = CHR ''_''"

definition is_ascii_alphabetic :: "char \<Rightarrow> bool" where
  "is_ascii_alphabetic c \<longleftrightarrow> is_ascii_uppercase c \<or> is_ascii_lowercase c"

text \<open>\<open>while k < b.len() && p(b[k]) { k += 1 }\<close>\<close>

definition skip_while :: "(char \<Rightarrow> bool) \<Rightarrow> bytes \<Rightarrow> nat \<Rightarrow> nat" where
  "skip_while p b i = i + length (takeWhile p (drop i b))"

definition slice :: "bytes \<Rightarrow> nat \<Rightarrow> nat \<Rightarrow> bytes" where
  "slice b lo hi = take (hi - lo) (drop lo b)"

definition get_slice :: "bytes \<Rightarrow> nat \<Rightarrow> nat \<Rightarrow> bytes" where
  \<comment> \<open>\<open>b.get(lo..hi).unwrap_or(&[])\<close>\<close>
  "get_slice b lo hi = (if lo \<le> hi \<and> hi \<le> length b then slice b lo hi else [])"

text \<open>\<open>if i < b.len() && b[i] == b',' { i += 1 }\<close>\<close>

definition past_comma :: "bytes \<Rightarrow> nat \<Rightarrow> nat" where
  "past_comma b i = (if i < length b \<and> b ! i = CHR '','' then i + 1 else i)"

function find_assignment :: "bytes \<Rightarrow> string \<Rightarrow> nat \<Rightarrow> nat option" where
  "find_assignment b ident i =
     (if ident = [] \<or> length b \<le> i + length ident then None
      else if starts_with (drop i b) ident \<and> (i > 0 \<and> is_word_js (b ! (i - 1))) \<noteq> is_word_js (hd ident)
      then (let j = skip_ws b (i + length ident)
            in if j < length b \<and> b ! j = CHR ''='' \<and> \<not> (j + 1 < length b \<and> b ! (j + 1) \<in> {CHR ''='', CHR ''>''})
               then Some (skip_ws b (j + 1))
               else find_assignment b ident (i + 1))
      else find_assignment b ident (i + 1))"
  by pat_completeness auto
termination by (relation "measure (\<lambda>(b, ident, i). length b - i)") auto

declare find_assignment.simps [simp del]

definition quote_char :: "char \<Rightarrow> bool" where
  "quote_char c \<longleftrightarrow> c \<in> {CHR 0x22, CHR 0x27, CHR 0x60}"

text \<open>The key before a colon; a slice past the end panics.\<close>

definition parse_key :: "bytes \<Rightarrow> nat \<Rightarrow> (string option \<times> nat) outcome" where
  "parse_key b start =
     (let i = skip_ws b start
      in if length b \<le> i then Returns (None, i)
         else if b ! i = CHR 0x22 \<or> b ! i = CHR 0x27
         then (let k = skip_string_loop b (b ! i) (i + 1)
               in if length b < k then Panics
                  else Returns (Some (from_utf8_lossy (slice b (i + 1) k)), k + 1))
         else if b ! i = CHR ''['' then Returns (None, skip_expr b (i + 1) '']'' + 1)
         else (let k = skip_while is_ident_byte b i
               in if i < k then Returns (Some (from_utf8_lossy (slice b i k)), k) else Returns (None, k)))"

definition spread :: "(string \<times> val) list \<Rightarrow> (string \<times> val) list \<Rightarrow> (string \<times> val) list" where
  "spread props out = fold (\<lambda>(k, v) out. if k \<in> fst ` set out then out else out @ [(k, v)]) props out"

section \<open>The parser\<close>

type_synonym cache = "string \<rightharpoonup> val option"

definition VALUE_STOPS :: bytes where "VALUE_STOPS = '',}]):''"

definition num_byte :: "char \<Rightarrow> bool" where
  "num_byte c \<longleftrightarrow> is_ascii_digit c \<or> c \<in> set ''.eE+-''"

text \<open>After an identifier: white space, then perhaps a member or call chain.\<close>

definition member_chain :: "bytes \<Rightarrow> nat \<Rightarrow> nat option" where
  \<comment> \<open>the end of the chain, \<open>None\<close> when there is none\<close>
  "member_chain b k =
     (let j = skip_while is_ascii_whitespace b k
      in if j < length b \<and> b ! j \<in> {CHR ''.'', CHR ''('', CHR ''[''} then Some (skip_expr b j VALUE_STOPS) else None)"

definition keyword :: "string \<Rightarrow> val option" where
  "keyword ident =
     (if ident = ''true'' then Some (VBool True)
      else if ident = ''false'' then Some (VBool False)
      else if ident = ''null'' then Some VNull
      else if ident = ''undefined'' \<or> ident = ''void'' then Some VUndefined
      else None)"

text \<open>
  The bodies of the mutually recursive functions, over the functions they call: \<open>obj\<close>, \<open>arr\<close> and \<open>lp\<close>
  continue a loop, \<open>pv\<close> parses a value, \<open>tr\<close> resolves an identifier.
\<close>

type_synonym parse_result = "((val \<times> nat) \<times> cache) outcome"

definition value_body ::
    "(nat \<Rightarrow> (string \<times> val) list \<Rightarrow> cache \<Rightarrow> parse_result) \<Rightarrow> (nat \<Rightarrow> val list \<Rightarrow> cache \<Rightarrow> parse_result)
     \<Rightarrow> (string \<Rightarrow> cache \<Rightarrow> (val option \<times> cache) outcome) \<Rightarrow> bytes \<Rightarrow> nat \<Rightarrow> cache \<Rightarrow> parse_result" where
  "value_body obj arr tr b start tc =
     (let i = skip_ws b start
      in if length b \<le> i then Returns ((VNull, i), tc)
         else (let c = b ! i in
           if quote_char c then
             (case skip_string b i of
                None \<Rightarrow> Panics
              | Some fin \<Rightarrow> Returns ((VStr (from_utf8_lossy (get_slice b (i + 1) (fin - 1))), fin), tc))
           else if c = CHR ''{'' then obj (skip_ws b (i + 1)) [] tc
           else if c = CHR ''['' then arr (skip_ws b (i + 1)) [] tc
           else if c = CHR ''!'' \<and> i + 1 < length b \<and> b ! (i + 1) = CHR ''0'' then Returns ((VBool True, i + 2), tc)
           else if c = CHR ''!'' \<and> i + 1 < length b \<and> b ! (i + 1) = CHR ''1'' then Returns ((VBool False, i + 2), tc)
           else if is_ascii_digit c \<or> c = CHR ''.'' \<or> c = CHR ''-'' then
             Returns ((VNum, skip_while num_byte b (if c = CHR ''-'' then i + 1 else i)), tc)
           else if is_ascii_alphabetic c \<or> c = CHR ''_'' \<or> c = CHR ''$'' then
             (let k = skip_while is_ident_byte b i;
                  ident = from_utf8_lossy (slice b i k)
              in case member_chain b k of
                   Some j \<Rightarrow> Returns ((VRef (trim (from_utf8_lossy (slice b i j))), j), tc)
                 | None \<Rightarrow>
                     (case keyword ident of
                        Some v \<Rightarrow> Returns ((v, k), tc)
                      | None \<Rightarrow>
                          and_then (tr ident tc) (\<lambda>(t, tc1).
                            Returns ((case t of Some v \<Rightarrow> v | None \<Rightarrow> VRef ident, k), tc1))))
           else Returns ((VNull, skip_expr b i VALUE_STOPS), tc)))"

definition object_body ::
    "(nat \<Rightarrow> cache \<Rightarrow> parse_result) \<Rightarrow> (nat \<Rightarrow> (string \<times> val) list \<Rightarrow> cache \<Rightarrow> parse_result)
     \<Rightarrow> bytes \<Rightarrow> nat \<Rightarrow> (string \<times> val) list \<Rightarrow> cache \<Rightarrow> parse_result" where
  \<comment> \<open>one pass of the loop of \<open>parse_object\<close>, from its condition\<close>
  "object_body pv lp b i out tc =
     (let i1 = (if i < length b \<and> b ! i \<noteq> CHR ''}'' then skip_ws b i else i)
      in if length b \<le> i1 then Returns ((VObj out, i1), tc)
         else if b ! i1 = CHR ''}'' then Returns ((VObj out, i1 + 1), tc)
         else if starts_with (drop i1 b) ''...'' then
           and_then (pv (i1 + 3) tc) (\<lambda>((v, fin), tc1).
             lp (past_comma b (skip_ws b fin)) (case v of VObj props \<Rightarrow> spread props out | _ \<Rightarrow> out) tc1)
         else and_then (parse_key b i1) (\<lambda>(key, kend).
           (let i2 = skip_ws b kend
            in if i2 < length b \<and> b ! i2 = CHR ''('' then lp (past_comma b (skip_expr b i2 '',}'')) out tc
               else if length b \<le> i2 \<or> b ! i2 \<noteq> CHR '':'' then
                 lp (past_comma b i2) (case key of Some k \<Rightarrow> out @ [(k, VRef k)] | None \<Rightarrow> out) tc
               else and_then (pv (i2 + 1) tc) (\<lambda>((v, fin), tc1).
                 lp (past_comma b (skip_ws b fin)) (case key of Some k \<Rightarrow> out @ [(k, v)] | None \<Rightarrow> out) tc1))))"

definition array_body ::
    "(nat \<Rightarrow> cache \<Rightarrow> parse_result) \<Rightarrow> (nat \<Rightarrow> val list \<Rightarrow> cache \<Rightarrow> parse_result)
     \<Rightarrow> bytes \<Rightarrow> nat \<Rightarrow> val list \<Rightarrow> cache \<Rightarrow> parse_result" where
  "array_body pv lp b i out tc =
     (if length b \<le> i then Returns ((VArr out, i), tc)
      else if b ! i = CHR '']'' then Returns ((VArr out, i + 1), tc)
      else and_then (pv i tc) (\<lambda>((v, fin), tc1).
        lp (skip_ws b (past_comma b (skip_ws b fin))) (out @ [v]) tc1))"

definition trace_body ::
    "(cache \<Rightarrow> (val option \<times> cache) outcome) \<Rightarrow> string \<Rightarrow> cache \<Rightarrow> (val option \<times> cache) outcome" where
  "trace_body lp ident tc =
     (case tc ident of
        Some v \<Rightarrow> Returns (v, tc)
      | None \<Rightarrow>
          and_then (lp (tc(ident \<mapsto> None))) (\<lambda>(found, tc1). Returns (found, tc1(ident \<mapsto> found))))"

definition trace_loop_body ::
    "(nat \<Rightarrow> cache \<Rightarrow> parse_result) \<Rightarrow> (nat \<Rightarrow> val option \<Rightarrow> cache \<Rightarrow> (val option \<times> cache) outcome)
     \<Rightarrow> bytes \<Rightarrow> string \<Rightarrow> nat \<Rightarrow> val option \<Rightarrow> cache \<Rightarrow> (val option \<times> cache) outcome" where
  "trace_loop_body pv lp b ident search found tc =
     (case find_assignment b ident search of
        None \<Rightarrow> Returns (found, tc)
      | Some pos \<Rightarrow>
          (let after = skip_ws b pos
           in if after < length b \<and> (b ! after = CHR ''{'' \<or> b ! after = CHR ''['') then
                and_then (pv after tc) (\<lambda>((v, _), tc1).
                  lp (pos + 1) (if v = VNull \<or> v = VUndefined then found else Some v) tc1)
              else lp (pos + 1) found tc))"

text \<open>The five functions at one amount of fuel.\<close>

record parser =
  p_value :: "nat \<Rightarrow> cache \<Rightarrow> parse_result"
  p_object :: "nat \<Rightarrow> (string \<times> val) list \<Rightarrow> cache \<Rightarrow> parse_result"
  p_array :: "nat \<Rightarrow> val list \<Rightarrow> cache \<Rightarrow> parse_result"
  p_trace :: "string \<Rightarrow> cache \<Rightarrow> (val option \<times> cache) outcome"
  p_trace_loop :: "string \<Rightarrow> nat \<Rightarrow> val option \<Rightarrow> cache \<Rightarrow> (val option \<times> cache) outcome"

primrec parser_at :: "nat \<Rightarrow> bytes \<Rightarrow> parser" where
  "parser_at 0 b =
     \<lparr>p_value = \<lambda>_ _. Runs_on, p_object = \<lambda>_ _ _. Runs_on, p_array = \<lambda>_ _ _. Runs_on, p_trace = \<lambda>_ _. Runs_on,
      p_trace_loop = \<lambda>_ _ _ _. Runs_on\<rparr>"
| "parser_at (Suc n) b =
     (let p = parser_at n b
      in \<lparr>p_value = value_body (p_object p) (p_array p) (p_trace p) b,
          p_object = object_body (p_value p) (p_object p) b,
          p_array = array_body (p_value p) (p_array p) b,
          p_trace = \<lambda>ident. trace_body (p_trace_loop p ident 0 None) ident,
          p_trace_loop = \<lambda>ident. trace_loop_body (p_value p) (p_trace_loop p ident) b ident\<rparr>)"

definition parse_value :: "nat \<Rightarrow> bytes \<Rightarrow> nat \<Rightarrow> cache \<Rightarrow> parse_result" where
  "parse_value n b = p_value (parser_at n b)"
definition parse_object_loop :: "nat \<Rightarrow> bytes \<Rightarrow> nat \<Rightarrow> (string \<times> val) list \<Rightarrow> cache \<Rightarrow> parse_result" where
  "parse_object_loop n b = p_object (parser_at n b)"
definition parse_array_loop :: "nat \<Rightarrow> bytes \<Rightarrow> nat \<Rightarrow> val list \<Rightarrow> cache \<Rightarrow> parse_result" where
  "parse_array_loop n b = p_array (parser_at n b)"
definition trace_ident :: "nat \<Rightarrow> bytes \<Rightarrow> string \<Rightarrow> cache \<Rightarrow> (val option \<times> cache) outcome" where
  "trace_ident n b = p_trace (parser_at n b)"
definition trace_loop :: "nat \<Rightarrow> bytes \<Rightarrow> string \<Rightarrow> nat \<Rightarrow> val option \<Rightarrow> cache \<Rightarrow> (val option \<times> cache) outcome" where
  "trace_loop n b = p_trace_loop (parser_at n b)"

lemmas parser_defs = parse_value_def parse_object_loop_def parse_array_loop_def trace_ident_def trace_loop_def

lemma parser_unfold:
  "parse_value 0 b start tc = Runs_on"
  "parse_value (Suc n) b start tc =
     value_body (parse_object_loop n b) (parse_array_loop n b) (trace_ident n b) b start tc"
  "parse_object_loop 0 b i out tc = Runs_on"
  "parse_object_loop (Suc n) b i out tc = object_body (parse_value n b) (parse_object_loop n b) b i out tc"
  "parse_array_loop 0 b i vs tc = Runs_on"
  "parse_array_loop (Suc n) b i vs tc = array_body (parse_value n b) (parse_array_loop n b) b i vs tc"
  "trace_ident 0 b ident tc = Runs_on"
  "trace_ident (Suc n) b ident tc = trace_body (trace_loop n b ident 0 None) ident tc"
  "trace_loop 0 b ident search found tc = Runs_on"
  "trace_loop (Suc n) b ident search found tc =
     trace_loop_body (parse_value n b) (trace_loop n b ident) b ident search found tc"
  by (simp_all add: parser_defs Let_def)

definition parse_object :: "nat \<Rightarrow> bytes \<Rightarrow> nat \<Rightarrow> cache \<Rightarrow> parse_result" where
  "parse_object n b start tc = parse_object_loop n b (skip_ws b (start + 1)) [] tc"

section \<open>The operation literal\<close>

definition find_sub :: "bytes \<Rightarrow> bytes \<Rightarrow> nat \<Rightarrow> nat option" where
  "find_sub hay needle from =
     (if needle = [] \<or> length hay \<le> from then None
      else map_option (\<lambda>p. p + from) (str_find needle (drop from hay)))"

text \<open>The walk back from the marker to an open brace; \<open>i\<close> is one more than the index.\<close>

fun find_open :: "nat \<Rightarrow> bytes \<Rightarrow> nat \<Rightarrow> int \<Rightarrow> cache \<Rightarrow> val option outcome" where
  "find_open n b 0 depth tc = Returns None"
| "find_open n b (Suc i) depth tc =
     (let c = b ! i in
      if c = CHR ''}'' \<or> c = CHR '')'' \<or> c = CHR '']'' then find_open n b i (depth + 1) tc
      else if c = CHR ''{'' then
        (if depth = 0 then
           and_then (parse_object n b i tc) (\<lambda>((v, _), tc1).
             if Option.bind (val_get v ''kind'') val_as_str = Some ''Request'' then Returns (Some v)
             else find_open n b i 0 tc1)
         else find_open n b i (depth - 1) tc)
      else if (c = CHR ''('' \<or> c = CHR ''['') \<and> depth > 0 then find_open n b i (depth - 1) tc
      else find_open n b i depth tc)"

definition REQUEST_MARK :: bytes where "REQUEST_MARK = CHR 0x22 # ''Request'' @ [CHR 0x22]"

definition find_operation_literal :: "nat \<Rightarrow> bytes \<Rightarrow> val option outcome" where
  "find_operation_literal n b =
     (case find_sub b REQUEST_MARK 0 of
        None \<Rightarrow> Returns None
      | Some marker \<Rightarrow> find_open n b (marker + 1) 0 (\<lambda>_. None))"

section \<open>More fuel, same result\<close>

definition refines :: "'a outcome \<Rightarrow> 'a outcome \<Rightarrow> bool" where
  "refines r s \<longleftrightarrow> r = Runs_on \<or> r = s"

named_theorems refines_intros

lemma refines_refl [refines_intros]: "refines r r"
  by (simp add: refines_def)

lemma refines_trans: "refines r s \<Longrightarrow> refines s t \<Longrightarrow> refines r t"
  by (auto simp: refines_def)

lemma refines_Runs_on [refines_intros]: "refines Runs_on s"
  by (simp add: refines_def)

lemma refines_and_then [refines_intros]:
  "refines r s \<Longrightarrow> (\<And>x. refines (f x) (g x)) \<Longrightarrow> refines (and_then r f) (and_then s g)"
proof (cases "r = Runs_on")
  case False
  assume "refines r s" and fg: "\<And>x. refines (f x) (g x)"
  with False have "s = r" by (simp add: refines_def)
  with fg show ?thesis by (cases r) (simp_all add: refines_refl)
qed (simp add: refines_Runs_on)

lemma refines_if [refines_intros]:
  "(c \<Longrightarrow> refines r s) \<Longrightarrow> (\<not> c \<Longrightarrow> refines r' s') \<Longrightarrow> refines (if c then r else r') (if c then s else s')"
  by simp

lemma refines_option [refines_intros]:
  "refines r s \<Longrightarrow> (\<And>x. refines (f x) (g x)) \<Longrightarrow>
   refines (case x of None \<Rightarrow> r | Some y \<Rightarrow> f y) (case x of None \<Rightarrow> s | Some y \<Rightarrow> g y)"
  by (simp split: option.split)

lemma refines_prod [refines_intros]:
  "(\<And>x y. refines (f x y) (g x y)) \<Longrightarrow> refines (case p of (x, y) \<Rightarrow> f x y) (case p of (x, y) \<Rightarrow> g x y)"
  by (simp split: prod.split)

lemma refines_prod_app [refines_intros]:
  "(\<And>x y. refines (f x y z) (g x y z)) \<Longrightarrow> refines ((case p of (x, y) \<Rightarrow> f x y) z) ((case p of (x, y) \<Rightarrow> g x y) z)"
  by (simp split: prod.split)

lemma value_body_mono:
  assumes "\<And>i out tc. refines (obj i out tc) (obj' i out tc)" "\<And>i out tc. refines (arr i out tc) (arr' i out tc)"
    and "\<And>s tc. refines (tr s tc) (tr' s tc)"
  shows "refines (value_body obj arr tr b start tc) (value_body obj' arr' tr' b start tc)"
  unfolding value_body_def Let_def by (intro refines_intros assms)

lemma object_body_mono:
  assumes "\<And>i tc. refines (pv i tc) (pv' i tc)" "\<And>i out tc. refines (lp i out tc) (lp' i out tc)"
  shows "refines (object_body pv lp b i out tc) (object_body pv' lp' b i out tc)"
  unfolding object_body_def Let_def by (intro refines_intros assms)

lemma array_body_mono:
  assumes "\<And>i tc. refines (pv i tc) (pv' i tc)" "\<And>i out tc. refines (lp i out tc) (lp' i out tc)"
  shows "refines (array_body pv lp b i out tc) (array_body pv' lp' b i out tc)"
  unfolding array_body_def Let_def by (intro refines_intros assms)

lemma trace_body_mono:
  assumes "\<And>tc. refines (lp tc) (lp' tc)"
  shows "refines (trace_body lp ident tc) (trace_body lp' ident tc)"
  unfolding trace_body_def by (intro refines_intros assms)

lemma trace_loop_body_mono:
  assumes "\<And>i tc. refines (pv i tc) (pv' i tc)" "\<And>i v tc. refines (lp i v tc) (lp' i v tc)"
  shows "refines (trace_loop_body pv lp b ident i v tc) (trace_loop_body pv' lp' b ident i v tc)"
  unfolding trace_loop_body_def Let_def by (intro refines_intros assms)

lemma parser_Suc:
  "refines (parse_value n b start tc) (parse_value (Suc n) b start tc)
   \<and> refines (parse_object_loop n b i out tc) (parse_object_loop (Suc n) b i out tc)
   \<and> refines (parse_array_loop n b i vs tc) (parse_array_loop (Suc n) b i vs tc)
   \<and> refines (trace_ident n b ident tc) (trace_ident (Suc n) b ident tc)
   \<and> refines (trace_loop n b ident search found tc) (trace_loop (Suc n) b ident search found tc)"
proof (induction n arbitrary: start i out vs ident search found tc)
  case (Suc n)
  note IH = Suc [unfolded parser_unfold(2,4,6,8,10)]
  show ?case
    unfolding parser_unfold(2,4,6,8,10)
    by (intro conjI value_body_mono object_body_mono array_body_mono trace_body_mono trace_loop_body_mono)
       (use IH in blast)+
qed (simp add: parser_unfold refines_Runs_on)

lemma parser_mono:
  assumes "n \<le> m"
  shows "refines (parse_value n b start tc) (parse_value m b start tc)"
    "refines (parse_object_loop n b i out tc) (parse_object_loop m b i out tc)"
    "refines (parse_array_loop n b i vs tc) (parse_array_loop m b i vs tc)"
  using assms by (induction m rule: dec_induct) (blast intro: refines_refl refines_trans parser_Suc [THEN conjunct1]
      parser_Suc [THEN conjunct2, THEN conjunct1] parser_Suc [THEN conjunct2, THEN conjunct2, THEN conjunct1])+

section \<open>Bounds\<close>

lemma skip_ws_le: "skip_ws b i \<le> length b"
  by (simp add: skip_ws_def)

lemma skip_ws_ge: "i \<le> length b \<Longrightarrow> i \<le> skip_ws b i"
  using skip_ws_loop_ge [of i b] by (simp add: skip_ws_def)

lemmas skip_ws_bounds = skip_ws_le skip_ws_ge

lemma skip_expr_bounds: "i \<le> length b \<Longrightarrow> i \<le> skip_expr b i stops \<and> skip_expr b i stops \<le> length b"
  unfolding skip_expr_def by (rule skip_expr_loop_bounds)

lemma skip_while_bounds: "i \<le> length b \<Longrightarrow> i \<le> skip_while p b i \<and> skip_while p b i \<le> length b"
  using length_takeWhile_le [of p "drop i b"] by (auto simp: skip_while_def)

lemma past_comma_bounds: "i \<le> past_comma b i" "i \<le> length b \<Longrightarrow> past_comma b i \<le> length b"
  by (auto simp: past_comma_def)

lemma skip_string_bounds: "skip_string b i = Some j \<Longrightarrow> i < j \<and> j \<le> length b"
  using skip_string_progress [of i b] by (cases "i < length b") (auto simp: skip_string_def)

lemma member_chain_bounds: "k \<le> length b \<Longrightarrow> member_chain b k = Some j \<Longrightarrow> k \<le> j \<and> j \<le> length b"
  using skip_while_bounds [of k b is_ascii_whitespace] skip_expr_bounds [of "skip_while is_ascii_whitespace b k" b VALUE_STOPS]
  by (auto simp: member_chain_def Let_def split: if_splits)

lemma parse_key_end: "parse_key b i = Returns (key, e) \<Longrightarrow> i < length b \<Longrightarrow> i \<le> e"
  using skip_ws_le [of b i] skip_ws_ge [of i b] skip_string_loop_ge [of "skip_ws b i + 1" b "b ! skip_ws b i"]
    skip_expr_bounds [of "skip_ws b i + 1" b "'']''"] skip_while_bounds [of "skip_ws b i" b is_ident_byte]
  by (auto simp: parse_key_def Let_def split: if_splits)

definition in_bounds :: "bytes \<Rightarrow> nat \<Rightarrow> parse_result \<Rightarrow> bool" where
  "in_bounds b i r \<longleftrightarrow> (case r of Returns ((v, e), tc) \<Rightarrow> i \<le> e \<and> e \<le> length b | _ \<Rightarrow> True)"

named_theorems bounds_intros

lemma in_bounds_Returns [bounds_intros]: "i \<le> e \<Longrightarrow> e \<le> length b \<Longrightarrow> in_bounds b i (Returns ((v, e), tc))"
  by (simp add: in_bounds_def)

lemma in_bounds_le: "in_bounds b j r \<Longrightarrow> i \<le> j \<Longrightarrow> in_bounds b i r"
  by (auto simp: in_bounds_def split: outcome.splits)

lemma in_bounds_if [bounds_intros]:
  "(c \<Longrightarrow> in_bounds b i r) \<Longrightarrow> (\<not> c \<Longrightarrow> in_bounds b i s) \<Longrightarrow> in_bounds b i (if c then r else s)"
  by simp

lemma in_bounds_option [bounds_intros]:
  "(x = None \<Longrightarrow> in_bounds b i r) \<Longrightarrow> (\<And>y. x = Some y \<Longrightarrow> in_bounds b i (f y)) \<Longrightarrow>
   in_bounds b i (case x of None \<Rightarrow> r | Some y \<Rightarrow> f y)"
  by (cases x) simp_all

lemma in_bounds_fail [bounds_intros]: "in_bounds b i Panics" "in_bounds b i Runs_on"
  by (simp_all add: in_bounds_def)

lemma in_bounds_bind:
  "in_bounds b j r \<Longrightarrow> (\<And>v e tc. j \<le> e \<Longrightarrow> e \<le> length b \<Longrightarrow> in_bounds b i (f v e tc)) \<Longrightarrow>
   in_bounds b i (and_then r (\<lambda>((v, e), tc). f v e tc))"
  by (cases r) (auto simp: in_bounds_def)

lemma value_body_bounds:
  assumes "\<And>i out tc. i \<le> length b \<Longrightarrow> in_bounds b i (obj i out tc)" "\<And>i out tc. i \<le> length b \<Longrightarrow> in_bounds b i (arr i out tc)"
    and "start \<le> length b"
  shows "in_bounds b start (value_body obj arr tr b start tc)"
proof -
  define i where "i = skip_ws b start"
  define P where "P e \<longleftrightarrow> start \<le> e \<and> e \<le> length b" for e
  have i: "start \<le> i" "i \<le> length b" using skip_ws_bounds assms(3) by (auto simp: i_def)
  have ret: "in_bounds b start (Returns ((v, e), tc))" if "P e" for v e tc
    using that by (simp add: P_def in_bounds_def)
  have Pi: "P i" using i by (simp add: P_def)
  have Pk: "P (skip_while is_ident_byte b i)" using skip_while_bounds [OF i(2), of is_ident_byte] i by (simp add: P_def)
  have Pe: "P (skip_expr b i VALUE_STOPS)" using skip_expr_bounds [OF i(2), of VALUE_STOPS] i by (simp add: P_def)
  have Ps: "P e" if "skip_string b i = Some e" for e using skip_string_bounds [OF that] i by (simp add: P_def)
  have Pm: "P e" if "member_chain b (skip_while is_ident_byte b i) = Some e" for e
    using member_chain_bounds [OF _ that] Pk by (auto simp: P_def)
  have P2: "P (i + 2)" if "c \<and> i + 1 < length b \<and> d" for c d using that i by (simp add: P_def)
  have Pn: "P (skip_while num_byte b (if c then i + 1 else i))" if "\<not> length b \<le> i" for c
    using skip_while_bounds [of "if c then i + 1 else i" b num_byte] that i by (auto simp: P_def split: if_splits)
  have tr: "in_bounds b start (and_then r (\<lambda>(t, tc1). Returns ((g t, skip_while is_ident_byte b i), tc1)))"
    for r and g :: "val option \<Rightarrow> val"
    by (cases r) (auto simp: in_bounds_def Pk [unfolded P_def])
  have n: "start \<le> skip_ws b (i + 1)" if "\<not> length b \<le> i"
    using skip_ws_ge [of "i + 1" b] that i by auto
  have lp: "in_bounds b start (obj (skip_ws b (i + 1)) [] tc)" "in_bounds b start (arr (skip_ws b (i + 1)) [] tc)"
    if "\<not> length b \<le> i"
    by (rule in_bounds_le [OF assms(1) n [OF that]], rule skip_ws_le) (rule in_bounds_le [OF assms(2) n [OF that]], rule skip_ws_le)
  show ?thesis
    unfolding value_body_def Let_def i_def [symmetric]
    by (intro in_bounds_if in_bounds_option in_bounds_fail ret tr lp)
       (assumption | rule Pi Pk Pe | erule Ps Pm P2 Pn)+
qed

lemma object_body_bounds:
  assumes "\<And>i tc. i \<le> length b \<Longrightarrow> in_bounds b i (pv i tc)" "\<And>i out tc. i \<le> length b \<Longrightarrow> in_bounds b i (lp i out tc)"
    and "i \<le> length b"
  shows "in_bounds b i (object_body pv lp b i out tc)"
proof -
  define j where "j = (if i < length b \<and> b ! i \<noteq> CHR ''}'' then skip_ws b i else i)"
  have j: "i \<le> j" "j \<le> length b" using skip_ws_bounds assms(3) by (auto simp: j_def)
  have next_lp: "in_bounds b i (lp (past_comma b k) out tc)" if "i \<le> k" "k \<le> length b" for k out tc
    using assms(2) [of "past_comma b k" out tc] past_comma_bounds [of k b] that in_bounds_le by (meson order_trans)
  have step: "in_bounds b i (and_then (pv k tc) (\<lambda>((v, fin), tc1). lp (past_comma b (skip_ws b fin)) (g v) tc1))"
    if "i \<le> k" "k \<le> length b" for k g
  proof (rule in_bounds_bind [OF assms(1) [OF that(2)]])
    fix v e tc1 assume e: "k \<le> e" "e \<le> length b"
    have "i \<le> skip_ws b e" using that(1) e skip_ws_ge [OF e(2)] by linarith
    then show "in_bounds b i (lp (past_comma b (skip_ws b e)) (g v) tc1)" by (rule next_lp) (rule skip_ws_le)
  qed
  have dots: "j + 3 \<le> length b" if "starts_with (drop j b) ''...''"
  proof -
    from that obtain r where "drop j b = ''...'' @ r" unfolding starts_with_iff by blast
    from arg_cong [OF this, of length] show ?thesis unfolding length_drop by simp
  qed
  have key: "in_bounds b i (and_then (parse_key b j) (\<lambda>(key, kend). f key kend))"
    if lt: "j < length b" and f: "\<And>key kend. i \<le> skip_ws b kend \<Longrightarrow> in_bounds b i (f key kend)" for f
  proof (cases "parse_key b j")
    case (Returns r)
    obtain key kend where r: "r = (key, kend)" by fastforce
    have "j \<le> kend" using parse_key_end [of b j] Returns r lt by simp
    then have "i \<le> skip_ws b kend"
      using order_trans [OF j(1) order_trans [OF _ skip_ws_loop_ge [of kend b]]] assms(3) by (simp add: skip_ws_def)
    then show ?thesis by (simp add: Returns r f)
  qed (simp_all add: in_bounds_def)
  have expr: "i \<le> skip_expr b k s" "skip_expr b k s \<le> length b" if "i \<le> k" "k < length b" for k s
    using skip_expr_bounds [of k b s] that by auto
  show ?thesis
    unfolding object_body_def Let_def j_def [symmetric]
    by (intro in_bounds_if in_bounds_Returns key step next_lp) (use j dots expr skip_ws_le in \<open>auto simp: not_le Suc_leI\<close>)
qed

lemma array_body_bounds:
  assumes "\<And>i tc. i \<le> length b \<Longrightarrow> in_bounds b i (pv i tc)" "\<And>i out tc. i \<le> length b \<Longrightarrow> in_bounds b i (lp i out tc)"
    and "i \<le> length b"
  shows "in_bounds b i (array_body pv lp b i out tc)"
proof -
  have step: "in_bounds b i (lp (skip_ws b (past_comma b (skip_ws b e))) out tc)" if "i \<le> e" "e \<le> length b" for e out tc
  proof -
    have 1: "e \<le> skip_ws b e" "skip_ws b e \<le> length b" using skip_ws_bounds that by auto
    have 2: "skip_ws b e \<le> past_comma b (skip_ws b e)" "past_comma b (skip_ws b e) \<le> length b"
      using past_comma_bounds 1 by auto
    have 3: "past_comma b (skip_ws b e) \<le> skip_ws b (past_comma b (skip_ws b e))" using skip_ws_bounds(2) [OF 2(2)] .
    have "i \<le> skip_ws b (past_comma b (skip_ws b e))" using that(1) 1(1) 2(1) 3 by linarith
    then show ?thesis using assms(2) [OF skip_ws_bounds(1)] in_bounds_le by blast
  qed
  have "in_bounds b i (and_then (pv i tc) (\<lambda>((v, fin), tc1).
      lp (skip_ws b (past_comma b (skip_ws b fin))) (out @ [v]) tc1))"
    by (rule in_bounds_bind [OF assms(1) [OF assms(3)]]) (rule step)
  then show ?thesis using assms(3) by (auto simp: array_body_def in_bounds_def)
qed

lemma parser_bounds:
  "(start \<le> length b \<longrightarrow> in_bounds b start (parse_value n b start tc))
   \<and> (i \<le> length b \<longrightarrow> in_bounds b i (parse_object_loop n b i out tc))
   \<and> (i \<le> length b \<longrightarrow> in_bounds b i (parse_array_loop n b i vs tc))"
proof (induction n arbitrary: start i out vs tc)
  case (Suc n)
  then show ?case
    by (auto simp: parser_unfold intro!: value_body_bounds object_body_bounds array_body_bounds)
qed (simp add: parser_unfold in_bounds_def)

section \<open>Printed literals\<close>

text \<open>
  The literals without references, as a minifier writes them.  A key is an identifier; a string body
  has no quote and no backslash, because the parser does not undo escapes.
\<close>

primrec print_val :: "val \<Rightarrow> bytes" and print_props :: "(string \<times> val) list \<Rightarrow> bytes"
  and print_prop :: "string \<times> val \<Rightarrow> bytes" and print_items :: "val list \<Rightarrow> bytes" where
  "print_val (VStr s) = CHR 0x22 # s @ [CHR 0x22]"
| "print_val (VBool t) = (if t then ''!0'' else ''!1'')"
| "print_val VNull = ''null''"
| "print_val VUndefined = ''undefined''"
| "print_val VNum = ''0''"
| "print_val (VObj ps) = CHR ''{'' # print_props ps @ ''}''"
| "print_val (VArr vs) = CHR ''['' # print_items vs @ '']''"
| "print_val (VRef s) = s"
| "print_props [] = []"
| "print_props (p # ps) = print_prop p @ (if ps = [] then [] else CHR '','' # print_props ps)"
| "print_prop (k, v) = k @ CHR '':'' # print_val v"
| "print_items [] = []"
| "print_items (v # vs) = print_val v @ (if vs = [] then [] else CHR '','' # print_items vs)"

definition key_ok :: "string \<Rightarrow> bool" where
  "key_ok k \<longleftrightarrow> k \<noteq> [] \<and> list_all is_ident_byte k"

definition body_ok :: "string \<Rightarrow> bool" where
  "body_ok s \<longleftrightarrow> utf8_valid s \<and> list_all (\<lambda>c. c \<noteq> CHR 0x22 \<and> c \<noteq> BSLASH) s"

primrec plain_val :: "val \<Rightarrow> bool" and plain_props :: "(string \<times> val) list \<Rightarrow> bool"
  and plain_prop :: "string \<times> val \<Rightarrow> bool" and plain_items :: "val list \<Rightarrow> bool" where
  "plain_val (VStr s) = body_ok s"
| "plain_val (VBool t) = True"
| "plain_val VNull = True"
| "plain_val VUndefined = True"
| "plain_val VNum = True"
| "plain_val (VObj ps) = plain_props ps"
| "plain_val (VArr vs) = plain_items vs"
| "plain_val (VRef s) = False"
| "plain_props [] = True"
| "plain_props (p # ps) = (plain_prop p \<and> plain_props ps)"
| "plain_prop (k, v) = (key_ok k \<and> plain_val v)"
| "plain_items [] = True"
| "plain_items (v # vs) = (plain_val v \<and> plain_items vs)"

text \<open>What may follow a value: the end of the text or a byte that ends an expression.\<close>

definition value_end :: "bytes \<Rightarrow> bool" where
  "value_end post \<longleftrightarrow> post = [] \<or> hd post \<in> set '',}]);''"

lemma skip_ws_token: "\<not> is_ascii_whitespace c \<Longrightarrow> c \<noteq> CHR ''/'' \<Longrightarrow> skip_ws (pre @ c # rest) (length pre) = length pre"
  by (simp add: skip_ws_def skip_ws_loop_stays at_token_def nth_append)

lemma skip_ws_at_end: "skip_ws b (length b) = length b"
  by (simp add: skip_ws_def skip_ws_loop_stays at_token_def)

lemma skip_while_run:
  assumes "list_all p w" "post = [] \<or> \<not> p (hd post)"
  shows "skip_while p (pre @ w @ post) (length pre) = length pre + length w"
proof -
  have "takeWhile p (w @ post) = w @ takeWhile p post"
    using assms(1) by (auto simp: list_all_iff intro!: takeWhile_append2)
  moreover have "takeWhile p post = []" using assms(2) by (cases post) auto
  ultimately show ?thesis by (simp add: skip_while_def)
qed

lemma value_end_stops:
  assumes "value_end post"
  shows "post = [] \<or> \<not> is_ident_byte (hd post)" "post = [] \<or> \<not> num_byte (hd post)"
    "post = [] \<or> \<not> is_ascii_whitespace (hd post)"
proof -
  have "list_all (\<lambda>c. \<not> is_ident_byte c \<and> \<not> num_byte c \<and> \<not> is_ascii_whitespace c) '',}]);''" by code_simp
  then show "post = [] \<or> \<not> is_ident_byte (hd post)" "post = [] \<or> \<not> num_byte (hd post)"
    "post = [] \<or> \<not> is_ascii_whitespace (hd post)"
    using assms unfolding value_end_def list_all_iff by blast+
qed

lemma skip_ws_value_end: "value_end post \<Longrightarrow> skip_ws (pre @ post) (length pre) = length pre"
proof (cases post)
  case (Cons c rest)
  assume "value_end post"
  then have "\<not> is_ascii_whitespace c" "c \<noteq> CHR ''/''" using value_end_stops(3) [of post] by (auto simp: Cons value_end_def)
  then show ?thesis by (simp add: Cons skip_ws_token)
qed (use skip_ws_at_end [of pre] in simp)

lemma no_chain: "value_end post \<Longrightarrow> member_chain (pre @ post) (length pre) = None"
  using skip_while_run [of is_ascii_whitespace "[]" post pre] value_end_stops(3) [of post]
  by (cases post) (auto simp: member_chain_def value_end_def nth_append Let_def)

lemma skip_value_end: "value_end post \<Longrightarrow> skip_while is_ident_byte (pre @ w @ post) (length pre) = length pre + length w"
  if "list_all is_ident_byte w" for w
  by (rule skip_while_run [OF that value_end_stops(1)])

lemma ident_byte_first:
  assumes "is_ident_byte c"
  shows "\<not> is_ascii_whitespace c" "c \<noteq> CHR ''/''" "c \<noteq> CHR 0x22" "c \<noteq> CHR 0x27" "c \<noteq> CHR ''[''" "c \<noteq> CHR ''}''"
    "c \<noteq> CHR ''.''" "is_ascii c"
proof -
  have "c \<in> set (upper_letters @ lower_letters @ digit_chars @ ''_$'')"
    using assms
    by (auto simp: is_ident_byte_def is_ascii_alphanumeric_def is_ascii_uppercase_def is_ascii_lowercase_def is_ascii_digit_def)
  moreover have "list_all (\<lambda>c. \<not> is_ascii_whitespace c \<and> c \<noteq> CHR ''/'' \<and> c \<noteq> CHR 0x22 \<and> c \<noteq> CHR 0x27
      \<and> c \<noteq> CHR ''['' \<and> c \<noteq> CHR ''}'' \<and> c \<noteq> CHR ''.'' \<and> is_ascii c) (upper_letters @ lower_letters @ digit_chars @ ''_$'')"
    by code_simp
  ultimately show "\<not> is_ascii_whitespace c" "c \<noteq> CHR ''/''" "c \<noteq> CHR 0x22" "c \<noteq> CHR 0x27" "c \<noteq> CHR ''[''" "c \<noteq> CHR ''}''"
    "c \<noteq> CHR ''.''" "is_ascii c"
    unfolding list_all_iff by blast+
qed

lemma ident_lossy: "list_all is_ident_byte w \<Longrightarrow> from_utf8_lossy w = w"
  using ident_byte_first(8) by (intro from_utf8_lossy_ascii) (auto simp: list_all_iff)

lemma slice_middle: "slice (pre @ w @ post) (length pre) (length pre + length w) = w"
  by (simp add: slice_def)

lemma parse_key_printed:
  assumes "key_ok k"
  shows "parse_key (pre @ k @ CHR '':'' # rest) (length pre) = Returns (Some k, length pre + length k)"
proof -
  obtain c r where k: "k = c # r" and c: "is_ident_byte c" and all: "list_all is_ident_byte k"
    using assms by (cases k) (auto simp: key_ok_def)
  note n = ident_byte_first [OF c]
  have ws: "skip_ws (pre @ k @ CHR '':'' # rest) (length pre) = length pre" using n(1,2) by (simp add: k skip_ws_token)
  have at: "(pre @ k @ CHR '':'' # rest) ! length pre = c" "length pre < length (pre @ k @ CHR '':'' # rest)"
    by (simp_all add: k nth_append)
  have nc: "\<not> is_ident_byte CHR '':''" by code_simp
  have sk: "skip_while is_ident_byte (pre @ k @ CHR '':'' # rest) (length pre) = length pre + length k"
    using skip_while_run [OF all, of "CHR '':'' # rest" pre] nc by simp
  have "length pre < length pre + length k" by (simp add: k)
  then show ?thesis
    using n at all by (simp add: parse_key_def Let_def ws sk slice_middle ident_lossy)
qed

section \<open>Reading printed literals back\<close>

definition reads :: "val \<Rightarrow> bool" where
  "reads v \<longleftrightarrow> (\<forall>n pre post tc. plain_val v \<longrightarrow> length (print_val v) \<le> n \<longrightarrow> value_end post \<longrightarrow>
     parse_value n (pre @ print_val v @ post) (length pre) tc = Returns ((v, length pre + length (print_val v)), tc))"

lemma readsI:
  assumes "\<And>n pre post tc. plain_val v \<Longrightarrow> length (print_val v) \<le> Suc n \<Longrightarrow> value_end post \<Longrightarrow>
     value_body (parse_object_loop n (pre @ print_val v @ post)) (parse_array_loop n (pre @ print_val v @ post))
       (trace_ident n (pre @ print_val v @ post)) (pre @ print_val v @ post) (length pre) tc
     = Returns ((v, length pre + length (print_val v)), tc)"
    and "print_val v \<noteq> []"
  shows "reads v"
  unfolding reads_def
proof (intro allI impI)
  fix n pre post tc
  assume "plain_val v" "length (print_val v) \<le> n" "value_end post"
  moreover from this assms(2) obtain m where "n = Suc m" by (cases n) auto
  ultimately show "parse_value n (pre @ print_val v @ post) (length pre) tc
      = Returns ((v, length pre + length (print_val v)), tc)"
    using assms(1) [of m post pre tc] by (simp add: parser_unfold)
qed

lemma literal_body_ok: "list_all (\<lambda>c. c \<noteq> CHR 0x22 \<and> c \<noteq> BSLASH) s \<Longrightarrow> literal_body CHR 0x22 s"
  by (induction s) (auto intro: literal_body.intros)

lemma reads_str: "reads (VStr s)"
proof (rule readsI)
  fix n pre post tc
  let ?b = "pre @ print_val (VStr s) @ post"
  assume "plain_val (VStr s)"
  then have lit: "literal_body CHR 0x22 s" and u: "from_utf8_lossy s = s"
    by (auto simp: body_ok_def literal_body_ok)
  have b: "?b = pre @ CHR 0x22 # s @ CHR 0x22 # post" by simp
  have ws: "skip_ws ?b (length pre) = length pre"
    unfolding b by (rule skip_ws_token) (simp_all add: is_ascii_whitespace_def)
  have at: "?b ! length pre = CHR 0x22" "length pre < length ?b" by (simp_all add: nth_append)
  have ss: "skip_string ?b (length pre) = Some (length pre + length s + 2)"
    using skip_string_literal [OF lit, of pre post] by simp
  have sl: "get_slice ?b (length pre + 1) (length pre + length s + 2 - 1) = s"
    by (simp add: get_slice_def slice_def)
  show "value_body (parse_object_loop n ?b) (parse_array_loop n ?b) (trace_ident n ?b) ?b (length pre) tc
      = Returns ((VStr s, length pre + length (print_val (VStr s))), tc)"
    unfolding value_body_def ws Let_def at ss option.case sl u using at(2) by (simp add: quote_char_def)
qed simp

lemma reads_bool: "reads (VBool t)"
proof (rule readsI)
  fix n pre post tc
  let ?b = "pre @ print_val (VBool t) @ post"
  have b: "?b = pre @ CHR ''!'' # (if t then CHR ''0'' else CHR ''1'') # post" by simp
  have ws: "skip_ws ?b (length pre) = length pre"
    unfolding b by (rule skip_ws_token) (simp_all add: is_ascii_whitespace_def)
  have at: "?b ! length pre = CHR ''!''" "?b ! (length pre + 1) = (if t then CHR ''0'' else CHR ''1'')"
    "length pre + 1 < length ?b" by (simp_all add: nth_append)
  then show "value_body (parse_object_loop n ?b) (parse_array_loop n ?b) (trace_ident n ?b) ?b (length pre) tc
      = Returns ((VBool t, length pre + length (print_val (VBool t))), tc)"
    unfolding value_body_def ws Let_def at(1,2) by (simp add: quote_char_def)
qed simp

lemma reads_num: "reads VNum"
proof (rule readsI)
  fix n pre post tc
  let ?b = "pre @ print_val VNum @ post"
  assume ve: "value_end post"
  have ws: "skip_ws ?b (length pre) = length pre"
    using skip_ws_token [of "CHR ''0''" pre post] by (simp add: is_ascii_whitespace_def)
  have at: "?b ! length pre = CHR ''0''" "length pre < length ?b" by (simp_all add: nth_append)
  have d: "is_ascii_digit CHR ''0''" "num_byte CHR ''0''" by code_simp+
  have sk: "skip_while num_byte ?b (length pre) = length pre + 1"
    using skip_while_run [of num_byte "''0''" post pre] value_end_stops(2) [OF ve] d by simp
  show "value_body (parse_object_loop n ?b) (parse_array_loop n ?b) (trace_ident n ?b) ?b (length pre) tc
      = Returns ((VNum, length pre + length (print_val VNum)), tc)"
    unfolding value_body_def ws Let_def at using at(2) d sk by (simp add: quote_char_def)
qed simp

lemma reads_keyword:
  assumes "keyword w = Some v" "print_val v = w" "list_all is_ident_byte w" "w = c # r" "is_ascii_lowercase c"
  shows "reads v"
proof (rule readsI)
  fix n pre post tc
  let ?b = "pre @ print_val v @ post"
  assume ve: "value_end post"
  have c: "is_ident_byte c" using assms(3,4) by simp
  note nc = ident_byte_first [OF c]
  have ws: "skip_ws ?b (length pre) = length pre" using nc(1,2) by (simp add: assms(2,4) skip_ws_token)
  have at: "?b ! length pre = c" "length pre < length ?b" by (simp_all add: nth_append assms(2,4))
  have sk: "skip_while is_ident_byte ?b (length pre) = length pre + length w"
    using skip_while_run [OF assms(3) value_end_stops(1) [OF ve], of pre] by (simp add: assms(2))
  have mc: "member_chain ?b (length pre + length w) = None"
    using no_chain [OF ve, of "pre @ w"] by (simp add: assms(2))
  have id: "from_utf8_lossy (slice ?b (length pre) (length pre + length w)) = w"
    by (simp add: assms(2) slice_middle ident_lossy [OF assms(3)])
  have ne: "c \<notin> {CHR 0x22, CHR 0x27, CHR 0x60, CHR ''{'', CHR ''['', CHR ''!'', CHR ''-'', CHR ''.''}" "\<not> is_ascii_digit c"
  proof -
    have "c \<in> set lower_letters" using assms(5) by (simp add: is_ascii_lowercase_def)
    moreover have "list_all (\<lambda>c. c \<notin> {CHR 0x22, CHR 0x27, CHR 0x60, CHR ''{'', CHR ''['', CHR ''!'', CHR ''-'', CHR ''.''}
      \<and> \<not> is_ascii_digit c) lower_letters" by code_simp
    ultimately show "c \<notin> {CHR 0x22, CHR 0x27, CHR 0x60, CHR ''{'', CHR ''['', CHR ''!'', CHR ''-'', CHR ''.''}"
      "\<not> is_ascii_digit c" unfolding list_all_iff by blast+
  qed
  have al: "is_ascii_alphabetic c" "w \<noteq> []" using assms(4,5) by (simp_all add: is_ascii_alphabetic_def)
  show "value_body (parse_object_loop n ?b) (parse_array_loop n ?b) (trace_ident n ?b) ?b (length pre) tc
      = Returns ((v, length pre + length (print_val v)), tc)"
    unfolding value_body_def ws Let_def at sk mc id option.case assms(1) using at(2) ne al
    by (simp add: quote_char_def assms(2))
qed (simp add: assms(2,4))

lemma reads_null: "reads VNull"
proof (rule reads_keyword)
  show "keyword ''null'' = Some VNull" by code_simp
  show "list_all is_ident_byte ''null''" by code_simp
  show "is_ascii_lowercase CHR ''n''" by code_simp
qed simp_all

lemma reads_undefined: "reads VUndefined"
proof (rule reads_keyword)
  show "keyword ''undefined'' = Some VUndefined" by code_simp
  show "list_all is_ident_byte ''undefined''" by code_simp
  show "is_ascii_lowercase CHR ''u''" by code_simp
qed simp_all

lemma print_val_first:
  assumes "plain_val v" obtains c r where "print_val v = c # r" "\<not> is_ascii_whitespace c" "c \<noteq> CHR ''/''" "c \<noteq> CHR '']''"
proof (cases v)
  case (VBool t)
  with that show ?thesis by (cases t) (simp_all add: is_ascii_whitespace_def)
qed (use assms that in \<open>simp_all add: is_ascii_whitespace_def\<close>)

lemma past_comma_at: "past_comma (pre @ c # rest) (length pre) = (if c = CHR '','' then length pre + 1 else length pre)"
  by (simp add: past_comma_def nth_append)

lemma reads_value:
  assumes "reads v" "plain_val v" "length (print_val v) \<le> n" "value_end post" "b = pre @ print_val v @ post" "i = length pre"
  shows "parse_value n b i tc = Returns ((v, length pre + length (print_val v)), tc)"
  using assms by (simp add: reads_def)

lemma object_loop_printed:
  assumes "\<forall>p \<in> set ps. reads (snd p)" "plain_props ps" "length (print_props ps) < n"
  shows "parse_object_loop n (pre @ print_props ps @ CHR ''}'' # post) (length pre) out tc
    = Returns ((VObj (out @ ps), length pre + length (print_props ps) + 1), tc)"
  using assms
proof (induction ps arbitrary: pre out n)
  case Nil
  then obtain m where "n = Suc m" by (cases n) auto
  then show ?case by (simp add: parser_unfold object_body_def nth_append)
next
  case (Cons p ps)
  obtain k v where p: "p = (k, v)" by fastforce
  from Cons.prems obtain m where n: "n = Suc m" by (cases n) auto
  from Cons.prems have k: "key_ok k" and v: "plain_val v" "reads v" by (simp_all add: p)
  obtain c r where c: "k = c # r" "is_ident_byte c" using k by (cases k) (auto simp: key_ok_def)
  note nc = ident_byte_first [OF c(2)]
  define rest where "rest = (if ps = [] then [] else CHR '','' # print_props ps) @ CHR ''}'' # post"
  define b where "b = pre @ print_props (p # ps) @ CHR ''}'' # post"
  have b: "b = pre @ k @ CHR '':'' # print_val v @ rest" by (simp add: b_def p rest_def)
  have i1: "b ! length pre = c" "length pre < length b" "skip_ws b (length pre) = length pre"
    using nc(1,2) by (simp_all add: b c(1) nth_append skip_ws_token)
  have dots: "\<not> starts_with (drop (length pre) b) ''...''" using nc(7) by (simp add: b c(1) starts_with_def)
  have key: "parse_key b (length pre) = Returns (Some k, length pre + length k)"
    unfolding b by (rule parse_key_printed [OF k])
  have i2: "skip_ws b (length pre + length k) = length pre + length k" "b ! (length pre + length k) = CHR '':''"
      "length pre + length k < length b"
    using skip_ws_token [of "CHR '':''" "pre @ k" "print_val v @ rest"]
    by (simp_all add: b nth_append is_ascii_whitespace_def)
  have ve: "value_end rest" by (simp add: rest_def value_end_def)
  let ?fin = "length (pre @ k @ [CHR '':'']) + length (print_val v)"
  have val: "parse_value m b (length pre + length k + 1) tc = Returns ((v, ?fin), tc)"
    by (rule reads_value [OF v(2,1) _ ve]) (use Cons.prems(3) in \<open>simp_all add: n p b\<close>)
  define pre2 where "pre2 = pre @ k @ CHR '':'' # print_val v @ (if ps = [] then [] else '','')"
  have b2: "b = pre2 @ print_props ps @ CHR ''}'' # post" by (simp add: b pre2_def rest_def)
  have fin: "past_comma b (skip_ws b ?fin) = length pre2"
  proof -
    have "b = (pre @ k @ CHR '':'' # print_val v) @ rest" by (simp add: b)
    moreover have "?fin = length (pre @ k @ CHR '':'' # print_val v)" by simp
    ultimately have "skip_ws b ?fin = length (pre @ k @ CHR '':'' # print_val v)"
      using skip_ws_value_end [OF ve, of "pre @ k @ CHR '':'' # print_val v"] by (simp add: add.assoc)
    then show ?thesis
      using past_comma_at [of "pre @ k @ CHR '':'' # print_val v" "hd rest" "tl rest"]
      by (simp add: b pre2_def rest_def)
  qed
  have "length (print_props ps) < m" using Cons.prems(3) c(1) by (simp add: n p split: if_splits)
  then have IH: "parse_object_loop m b (length pre2) (out @ [p]) tc
      = Returns ((VObj (out @ p # ps), length pre2 + length (print_props ps) + 1), tc)"
    using Cons.IH [of m pre2 "out @ [p]"] Cons.prems by (simp add: b2)
  have "parse_object_loop n b (length pre) out tc = parse_object_loop m b (length pre2) (out @ [p]) tc"
    using nc(6) i1 dots i2
    by (simp add: n parser_unfold(4) object_body_def Let_def key val [simplified] fin [simplified] p)
  then show ?case unfolding b_def [symmetric] IH by (simp add: pre2_def p)
qed

lemma array_loop_printed:
  assumes "\<forall>v \<in> set vs. reads v" "plain_items vs" "length (print_items vs) < n"
  shows "parse_array_loop n (pre @ print_items vs @ CHR '']'' # post) (length pre) out tc
    = Returns ((VArr (out @ vs), length pre + length (print_items vs) + 1), tc)"
  using assms
proof (induction vs arbitrary: pre out n)
  case Nil
  then obtain m where "n = Suc m" by (cases n) auto
  then show ?case by (simp add: parser_unfold array_body_def nth_append)
next
  case (Cons v vs)
  from Cons.prems obtain m where n: "n = Suc m" by (cases n) auto
  from Cons.prems have v: "plain_val v" "reads v" by simp_all
  obtain c r where c: "print_val v = c # r" "\<not> is_ascii_whitespace c" "c \<noteq> CHR ''/''" "c \<noteq> CHR '']''"
    using v(1) by (rule print_val_first)
  define rest where "rest = (if vs = [] then [] else CHR '','' # print_items vs) @ CHR '']'' # post"
  define b where "b = pre @ print_items (v # vs) @ CHR '']'' # post"
  have b: "b = pre @ print_val v @ rest" by (simp add: b_def rest_def)
  have i1: "b ! length pre = c" "length pre < length b" by (simp_all add: b c(1) nth_append)
  have ve: "value_end rest" by (simp add: rest_def value_end_def)
  let ?fin = "length pre + length (print_val v)"
  have val: "parse_value m b (length pre) tc = Returns ((v, ?fin), tc)"
    by (rule reads_value [OF v(2,1) _ ve]) (use Cons.prems(3) c(1) in \<open>simp_all add: n b split: if_splits\<close>)
  define pre2 where "pre2 = pre @ print_val v @ (if vs = [] then [] else '','')"
  have b2: "b = pre2 @ print_items vs @ CHR '']'' # post" by (simp add: b pre2_def rest_def)
  have ws: "skip_ws b ?fin = ?fin" using skip_ws_value_end [OF ve, of "pre @ print_val v"] by (simp add: b)
  have pc: "past_comma b ?fin = length pre2"
    using past_comma_at [of "pre @ print_val v" "hd rest" "tl rest"] by (simp add: b pre2_def rest_def)
  have tok: "skip_ws b (length pre2) = length pre2"
  proof (cases vs)
    case Nil
    then show ?thesis using skip_ws_token [of "CHR '']''" pre2 post] by (simp add: b2 is_ascii_whitespace_def)
  next
    case vs: (Cons w ws)
    from Cons.prems have "plain_val w" by (simp add: vs)
    then obtain d r' where "print_val w = d # r'" "\<not> is_ascii_whitespace d" "d \<noteq> CHR ''/''" by (rule print_val_first)
    then show ?thesis by (simp add: b2 vs skip_ws_token)
  qed
  have "length (print_items vs) < m" using Cons.prems(3) c(1) by (simp add: n split: if_splits)
  then have IH: "parse_array_loop m b (length pre2) (out @ [v]) tc
      = Returns ((VArr (out @ v # vs), length pre2 + length (print_items vs) + 1), tc)"
    using Cons.IH [of m pre2 "out @ [v]"] Cons.prems by (simp add: b2)
  have "parse_array_loop n b (length pre) out tc = parse_array_loop m b (length pre2) (out @ [v]) tc"
    using i1 c(4) by (simp add: n parser_unfold(6) array_body_def val ws pc tok)
  then show ?case unfolding b_def [symmetric] IH by (simp add: pre2_def)
qed

lemma reads_obj:
  assumes "\<forall>p \<in> set ps. reads (snd p)"
  shows "reads (VObj ps)"
proof (rule readsI)
  fix n pre post tc
  let ?b = "pre @ print_val (VObj ps) @ post"
  assume pl: "plain_val (VObj ps)" and len: "length (print_val (VObj ps)) \<le> Suc n"
  have ws: "skip_ws ?b (length pre) = length pre"
    using skip_ws_token [of "CHR ''{''" pre "print_props ps @ ''}'' @ post"] by (simp add: is_ascii_whitespace_def)
  have at: "?b ! length pre = CHR ''{''" "length pre < length ?b" by (simp_all add: nth_append)
  have ws2: "skip_ws ?b (length pre + 1) = length pre + 1"
  proof (cases ps)
    case Nil
    then show ?thesis using skip_ws_token [of "CHR ''}''" "pre @ ''{''" post] by (simp add: is_ascii_whitespace_def)
  next
    case (Cons p qs)
    obtain k v where p: "p = (k, v)" by fastforce
    from pl obtain c r where c: "k = c # r" "is_ident_byte c" by (cases k) (auto simp: Cons p key_ok_def)
    then show ?thesis
      using skip_ws_token [of c "pre @ ''{''"] ident_byte_first(1,2) [OF c(2)] by (simp add: Cons p)
  qed
  have "parse_object_loop n ?b (length pre + 1) [] tc = Returns ((VObj ps, length pre + 1 + length (print_props ps) + 1), tc)"
    using object_loop_printed [OF assms, of n "pre @ ''{''" post "[]" tc] pl len by simp
  then show "value_body (parse_object_loop n ?b) (parse_array_loop n ?b) (trace_ident n ?b) ?b (length pre) tc
      = Returns ((VObj ps, length pre + length (print_val (VObj ps))), tc)"
    unfolding value_body_def ws Let_def at ws2 using at(2) by (simp add: quote_char_def)
qed simp

lemma reads_arr:
  assumes "\<forall>v \<in> set vs. reads v"
  shows "reads (VArr vs)"
proof (rule readsI)
  fix n pre post tc
  let ?b = "pre @ print_val (VArr vs) @ post"
  assume pl: "plain_val (VArr vs)" and len: "length (print_val (VArr vs)) \<le> Suc n"
  have ws: "skip_ws ?b (length pre) = length pre"
    using skip_ws_token [of "CHR ''[''" pre "print_items vs @ '']'' @ post"] by (simp add: is_ascii_whitespace_def)
  have at: "?b ! length pre = CHR ''[''" "length pre < length ?b" by (simp_all add: nth_append)
  have ws2: "skip_ws ?b (length pre + 1) = length pre + 1"
  proof (cases vs)
    case Nil
    then show ?thesis using skip_ws_token [of "CHR '']''" "pre @ ''[''" post] by (simp add: is_ascii_whitespace_def)
  next
    case (Cons v ws)
    from pl have "plain_val v" by (simp add: Cons)
    then obtain d r' where "print_val v = d # r'" "\<not> is_ascii_whitespace d" "d \<noteq> CHR ''/''" by (rule print_val_first)
    then show ?thesis using skip_ws_token [of d "pre @ ''[''"] by (simp add: Cons)
  qed
  have "parse_array_loop n ?b (length pre + 1) [] tc = Returns ((VArr vs, length pre + 1 + length (print_items vs) + 1), tc)"
    using array_loop_printed [OF assms, of n "pre @ ''[''" post "[]" tc] pl len by simp
  then show "value_body (parse_object_loop n ?b) (parse_array_loop n ?b) (trace_ident n ?b) ?b (length pre) tc
      = Returns ((VArr vs, length pre + length (print_val (VArr vs))), tc)"
    unfolding value_body_def ws Let_def at ws2 using at(2) by (simp add: quote_char_def)
qed simp

lemma reads_all: "reads v"
proof (induction v)
  case (VRef s)
  show ?case by (simp add: reads_def)
next
  case (VObj ps)
  have "\<forall>p \<in> set ps. reads (snd p)"
  proof
    fix p assume "p \<in> set ps"
    from VObj [OF this, of "snd p"] show "reads (snd p)" by (cases p) (simp add: prod_set_simps)
  qed
  then show ?case by (rule reads_obj)
next
  case (VArr vs)
  then show ?case by (blast intro: reads_arr)
qed (simp_all add: reads_str reads_bool reads_null reads_undefined reads_num)

section \<open>Where the parser panics, and where it does not return\<close>

definition open_ended :: "bytes \<Rightarrow> bool" where
  "open_ended b \<longleftrightarrow> b \<noteq> [] \<and> last b = BSLASH"

lemma skip_string_loop_le: "\<not> open_ended b \<Longrightarrow> i \<le> length b \<Longrightarrow> skip_string_loop b q i \<le> length b"
proof (induction b q i rule: skip_string_loop.induct)
  case (1 b q i)
  have "i + 1 < length b" if "i < length b" "b ! i = BSLASH"
  proof (rule ccontr)
    assume "\<not> i + 1 < length b"
    with that have "b \<noteq> []" "i = length b - 1" by auto
    with that 1(2) show False by (simp add: open_ended_def last_conv_nth)
  qed
  with 1 show ?case by (subst skip_string_loop.simps) auto
qed

lemma parse_key_no_panic: "\<not> open_ended b \<Longrightarrow> parse_key b i \<noteq> Panics"
  using skip_string_loop_le [of b "skip_ws b i + 1" "b ! skip_ws b i"]
  by (cases "length b \<le> skip_ws b i") (auto simp: parse_key_def Let_def not_le Suc_le_eq)

definition calm :: "'a outcome \<Rightarrow> bool" where
  "calm r \<longleftrightarrow> r \<noteq> Panics"

lemma calm_bind: "calm r \<Longrightarrow> (\<And>x. calm (f x)) \<Longrightarrow> calm (and_then r f)"
  by (cases r) (simp_all add: calm_def)

lemma calm_rules:
  "calm (Returns x)"
  "(c \<Longrightarrow> calm r) \<Longrightarrow> (\<not> c \<Longrightarrow> calm s) \<Longrightarrow> calm (if c then r else s)"
  "(o' = None \<Longrightarrow> calm r) \<Longrightarrow> (\<And>y. o' = Some y \<Longrightarrow> calm (f y)) \<Longrightarrow> calm (case o' of None \<Rightarrow> r | Some y \<Rightarrow> f y)"
  "(\<And>x y. calm (g x y)) \<Longrightarrow> calm (case p of (x, y) \<Rightarrow> g x y)"
  "(\<And>x y. calm (h x y z)) \<Longrightarrow> calm ((case p of (x, y) \<Rightarrow> h x y) z)"
  by (auto simp: calm_def split: option.split prod.split)

lemmas calm_intros = calm_bind calm_rules

lemma value_body_calm:
  assumes "\<And>i out tc. calm (obj i out tc)" "\<And>i out tc. calm (arr i out tc)" "\<And>s tc. calm (tr s tc)"
  shows "calm (value_body obj arr tr b start tc)"
proof -
  define i where "i = skip_ws b start"
  have ss: "calm r" if "skip_string b i = None" "\<not> length b \<le> i" for r :: parse_result
    using that by (simp add: skip_string_def)
  show ?thesis
    unfolding value_body_def Let_def i_def [symmetric] by (intro calm_intros assms) (rule ss)
qed

lemma object_body_calm:
  assumes "\<And>i tc. calm (pv i tc)" "\<And>i out tc. calm (lp i out tc)" "\<not> open_ended b"
  shows "calm (object_body pv lp b i out tc)"
proof -
  have key: "calm (parse_key b i)" for i using parse_key_no_panic [OF assms(3)] by (simp add: calm_def)
  show ?thesis unfolding object_body_def Let_def by (intro calm_intros assms key)
qed

lemma parser_calm:
  assumes "\<not> open_ended b"
  shows "calm (parse_value n b start tc) \<and> calm (parse_object_loop n b i out tc)
    \<and> calm (parse_array_loop n b i vs tc) \<and> calm (trace_ident n b ident tc)
    \<and> calm (trace_loop n b ident search found tc)"
proof (induction n arbitrary: start i out vs ident search found tc)
  case (Suc n)
  show ?case
    unfolding parser_unfold(2,4,6,8,10) array_body_def trace_body_def trace_loop_body_def Let_def
    by (intro conjI value_body_calm object_body_calm calm_intros assms) (use Suc in blast)+
qed (simp add: parser_unfold calm_def)

lemma parser_no_panic: "\<not> open_ended b \<Longrightarrow> parse_value n b i tc \<noteq> Panics" "\<not> open_ended b \<Longrightarrow> parse_object_loop n b i out tc \<noteq> Panics"
  using parser_calm unfolding calm_def by blast+

lemma find_open_no_panic: "\<not> open_ended b \<Longrightarrow> find_open n b i depth tc \<noteq> Panics"
proof (induction n b i depth tc rule: find_open.induct)
  case (2 n b i depth tc)
  then show ?case
    using parser_no_panic(2) [of b n] by (auto simp: Let_def and_then_Panics parse_object_def)
qed simp

text \<open>
  C28: The literal parser panics only on a text whose last byte is a backslash: on every other text, at
  every start inside it and with every amount of fuel, no slice is out of range, a parse that returns
  does so at an index between its start and the end of the text, and the search for the operation
  literal does not panic either.
\<close>

theorem literal_parser_safe:
  assumes "\<not> open_ended b" and "start \<le> length b"
  shows "parse_value n b start tc \<noteq> Panics
    \<and> (\<forall>v e tc'. parse_value n b start tc = Returns ((v, e), tc') \<longrightarrow> start \<le> e \<and> e \<le> length b)
    \<and> find_operation_literal n b \<noteq> Panics"
proof -
  have "in_bounds b start (parse_value n b start tc)" using parser_bounds assms(2) by blast
  moreover have "find_operation_literal n b \<noteq> Panics"
    using find_open_no_panic [OF assms(1)] by (simp add: find_operation_literal_def del: find_open.simps split: option.split)
  ultimately show ?thesis using parser_no_panic(1) [OF assms(1)] by (auto simp: in_bounds_def)
qed

theorem literal_parser_safe_witness:
  "parse_value 9 ''{a:1'' 0 (\<lambda>_. None) \<noteq> Panics \<and> find_operation_literal 9 ''{a:1'' \<noteq> Panics"
  using literal_parser_safe [of "''{a:1''" 0 9 "\<lambda>_. None"] by (simp add: open_ended_def)

lemma trailing_backslash_panics:
  "case parse_value 3 (CHR ''{'' # CHR 0x22 # [BSLASH]) 0 (\<lambda>_. None) of Panics \<Rightarrow> True | _ \<Rightarrow> False"
  by code_simp

text \<open>A pass of a loop that does not move.\<close>

lemma skip_ws_at: "i < length b \<Longrightarrow> \<not> is_ascii_whitespace (b ! i) \<Longrightarrow> b ! i \<noteq> CHR ''/'' \<Longrightarrow> skip_ws b i = i"
  by (simp add: skip_ws_def skip_ws_loop_stays at_token_def)

lemma value_at_stop:
  assumes "i < length b" "b ! i \<in> set '':})''"
  shows "parse_value (Suc n) b i tc = Returns ((VNull, i), tc)"
proof -
  have tok: "skip_ws b i = i" using assms by (intro skip_ws_at) (auto simp: is_ascii_whitespace_def)
  have "list_all (\<lambda>c. \<not> quote_char c \<and> c \<notin> quote_chars \<and> c \<noteq> CHR ''{'' \<and> c \<noteq> CHR ''['' \<and> c \<noteq> CHR ''!'' \<and> \<not> is_ascii_digit c
      \<and> c \<noteq> CHR ''.'' \<and> c \<noteq> CHR ''-'' \<and> c \<noteq> CHR ''_'' \<and> c \<noteq> CHR ''$'' \<and> \<not> is_ascii_alphabetic c \<and> stop_char VALUE_STOPS c) '':})''"
    by code_simp
  note c = this [unfolded list_all_iff, rule_format, OF assms(2)]
  have "skip_expr b i VALUE_STOPS = i"
    unfolding skip_expr_def using expr_step_stop [of VALUE_STOPS b i] c by (subst skip_expr_loop.simps) simp
  then show ?thesis using c assms(1) by (simp add: parser_unfold(2) value_body_def Let_def tok)
qed

lemma key_at_operator:
  assumes "i < length b" "b ! i \<in> set ''?;&|=+*<>)]''"
  shows "object_body pv lp b i out tc = lp i out tc"
proof -
  have "list_all (\<lambda>c. \<not> is_ascii_whitespace c \<and> c \<notin> {CHR ''/'', CHR ''}'', CHR ''.'', CHR 0x22, CHR 0x27, CHR ''['', CHR ''('', CHR '':'', CHR '',''}
      \<and> \<not> is_ident_byte c) ''?;&|=+*<>)]''"
    by code_simp
  note c = this [unfolded list_all_iff, rule_format, OF assms(2)]
  have tok: "skip_ws b i = i" using c assms(1) by (intro skip_ws_at) auto
  have dots: "\<not> starts_with (drop i b) ''...''"
    using c assms(1) by (simp add: starts_with_def Cons_nth_drop_Suc [symmetric])
  have "skip_while is_ident_byte b i = i"
    using c assms(1) by (simp add: skip_while_def Cons_nth_drop_Suc [symmetric])
  then have "parse_key b i = Returns (None, i)" using c assms(1) by (simp add: parse_key_def tok Let_def)
  then show ?thesis using c assms(1) dots by (simp add: object_body_def tok Let_def past_comma_def)
qed

lemma array_at_stop:
  assumes "i < length b" "b ! i \<in> set '':})''"
  shows "array_body (parse_value (Suc n) b) lp b i vs tc = lp i (vs @ [VNull]) tc"
proof -
  have tok: "skip_ws b i = i" using assms by (intro skip_ws_at) (auto simp: is_ascii_whitespace_def)
  have "b ! i \<noteq> CHR '']''" "past_comma b i = i" using assms(2) by (auto simp: past_comma_def)
  then show ?thesis using assms(1) by (simp add: array_body_def value_at_stop [OF assms] tok)
qed

text \<open>
  The loops of \<open>parse_array\<close> and \<open>parse_object\<close> have no progress guard: once a loop reads an element at
  a colon, a closing brace or a closing parenthesis in an array, or a key at an operator or a foreign
  closing bracket in an object, no amount of fuel makes it return, whatever was read before.
\<close>

theorem stuck_loops_run_on:
  assumes "i < length b"
  shows "(b ! i \<in> set '':})'' \<longrightarrow> parse_array_loop n b i vs tc = Runs_on)
    \<and> (b ! i \<in> set ''?;&|=+*<>)]'' \<longrightarrow> parse_object_loop n b i out tc = Runs_on)"
proof (induction n arbitrary: vs out)
  case (Suc n)
  have "parse_array_loop (Suc n) b i vs tc = Runs_on" if c: "b ! i \<in> set '':})''"
  proof (cases n)
    case 0
    then show ?thesis using assms c by (simp add: parser_unfold array_body_def) (use c in auto)
  next
    case (Suc m)
    with Suc.IH c show ?thesis by (simp only: parser_unfold(6) array_at_stop [OF assms c])
  qed
  moreover have "parse_object_loop (Suc n) b i out tc = Runs_on" if c: "b ! i \<in> set ''?;&|=+*<>)]''"
    using Suc.IH c by (simp only: parser_unfold(4) key_at_operator [OF assms c])
  ultimately show ?case by blast
qed (simp add: parser_unfold)

theorem stuck_loops_run_on_witness:
  "\<forall>n. parse_array_loop n ''[x?1:2]'' 4 [VNull] (\<lambda>_. None) = Runs_on
     \<and> parse_object_loop n ''{a:b?c:d}'' 4 [] (\<lambda>_. None) = Runs_on"
  using stuck_loops_run_on [of 4 "''[x?1:2]''" _ "[VNull]" "\<lambda>_. None"]
    stuck_loops_run_on [of 4 "''{a:b?c:d}''" _ _ "\<lambda>_. None" "[]"]
  by (simp add: numeral_eq_Suc)

text \<open>
  C27: Reading back: a literal without references - strings, booleans, \<open>null\<close>, \<open>undefined\<close>, numbers,
  objects and arrays nested in any way - printed as a minifier writes it is parsed to itself, wherever
  it stands and whatever precedes it, when the text ends or an expression ends after it; the parse ends
  right after the literal, leaves the cache alone, and needs no more fuel than the literal has bytes.
\<close>

theorem printed_literal_reads_back:
  assumes "plain_val v" and "value_end post" and "length (print_val v) \<le> n"
  shows "parse_value n (pre @ print_val v @ post) (length pre) tc
    = Returns ((v, length pre + length (print_val v)), tc)"
  using reads_all [of v] assms unfolding reads_def by blast

theorem printed_literal_reads_back_witness:
  "case parse_value 20 ''x={a:[!0,null],b:0};'' 2 (\<lambda>_. None) of
     Returns ((v, e), tc) \<Rightarrow> v = VObj [(''a'', VArr [VBool True, VNull]), (''b'', VNum)] \<and> e = 19 | _ \<Rightarrow> False"
proof -
  have "plain_val (VObj [(''a'', VArr [VBool True, VNull]), (''b'', VNum)])" by code_simp
  moreover have "value_end '';''" by code_simp
  ultimately show ?thesis
    using printed_literal_reads_back [of "VObj [(''a'', VArr [VBool True, VNull]), (''b'', VNum)]" "'';''" 20 "''x=''" "\<lambda>_. None"]
    by (simp add: numeral_2_eq_2)
qed

section \<open>Hoisted literals\<close>

text \<open>
  \<open>assigned b ident k s vs\<close>: from index \<open>s\<close> on, the body assigns the identifier \<open>k\<close> times, and the assigned
  expressions that are objects or arrays are the printed literals \<open>vs\<close>, in order.
\<close>

definition structured :: "val \<Rightarrow> bool" where
  "structured v \<longleftrightarrow> (case v of VObj _ \<Rightarrow> True | VArr _ \<Rightarrow> True | _ \<Rightarrow> False)"

inductive assigned :: "bytes \<Rightarrow> string \<Rightarrow> nat \<Rightarrow> nat \<Rightarrow> val list \<Rightarrow> bool" for b ident where
  no_more: "find_assignment b ident s = None \<Longrightarrow> assigned b ident 0 s []"
| literal: "find_assignment b ident s = Some (length pre) \<Longrightarrow> b = pre @ print_val v @ post \<Longrightarrow> plain_val v \<Longrightarrow>
    structured v \<Longrightarrow> value_end post \<Longrightarrow> assigned b ident k (length pre + 1) vs \<Longrightarrow> assigned b ident (Suc k) s (v # vs)"
| scalar: "find_assignment b ident s = Some p \<Longrightarrow> skip_ws b p = p \<Longrightarrow> p < length b \<Longrightarrow> b ! p \<noteq> CHR ''{'' \<Longrightarrow> b ! p \<noteq> CHR ''['' \<Longrightarrow>
    assigned b ident k (p + 1) vs \<Longrightarrow> assigned b ident (Suc k) s vs"

lemma structured_first:
  assumes "structured v" obtains c r where "print_val v = c # r" "c = CHR ''{'' \<or> c = CHR ''[''" "v \<noteq> VNull" "v \<noteq> VUndefined"
  using assms by (cases v) (simp_all add: structured_def)

lemma trace_loop_assigned:
  assumes "assigned b ident k s vs" "length b + k < n"
  shows "trace_loop n b ident s found tc = Returns (if vs = [] then found else Some (last vs), tc)"
  using assms
proof (induction k s vs arbitrary: n found rule: assigned.induct)
  case (no_more s)
  then obtain m where "n = Suc m" by (cases n) auto
  with no_more show ?case by (simp add: parser_unfold trace_loop_body_def)
next
  case (literal s pre v post k vs)
  then obtain m where n: "n = Suc m" by (cases n) auto
  obtain c r where c: "print_val v = c # r" "c = CHR ''{'' \<or> c = CHR ''[''" "v \<noteq> VNull" "v \<noteq> VUndefined"
    using literal.hyps(4) by (rule structured_first)
  have at: "b ! length pre = c" "length pre < length b" by (simp_all add: literal.hyps(2) c(1) nth_append)
  have ws: "skip_ws b (length pre) = length pre"
    using at c(2) by (intro skip_ws_at) (auto simp: is_ascii_whitespace_def)
  have val: "parse_value m b (length pre) tc = Returns ((v, length pre + length (print_val v)), tc)"
    by (rule reads_value [OF reads_all literal.hyps(3) _ literal.hyps(5,2) refl])
      (use literal.prems literal.hyps(2) in \<open>simp add: n\<close>)
  have "trace_loop n b ident s found tc = trace_loop m b ident (length pre + 1) (Some v) tc"
    using at c(2) by (simp add: n parser_unfold(10) trace_loop_body_def literal.hyps(1) ws val c(3,4))
  also have "\<dots> = Returns (if vs = [] then Some v else Some (last vs), tc)"
    using literal.IH [of m "Some v"] literal.prems by (simp add: n)
  finally show ?case by simp
next
  case (scalar s p k vs)
  then obtain m where n: "n = Suc m" by (cases n) auto
  have "trace_loop n b ident s found tc = trace_loop m b ident (p + 1) found tc"
    using scalar.hyps by (simp add: n parser_unfold(10) trace_loop_body_def)
  then show ?case using scalar.IH [of m found] scalar.prems by (simp add: n)
qed

text \<open>
  A hoisted variable stands for the last object or array literal assigned to it: when the body's
  assignments to an identifier are scalars and printed literals, the tracer resolves the identifier to
  the last literal, or to nothing when there is none, remembers the answer under that name, and needs
  no more fuel than the body has bytes and assignments, plus two.
\<close>

theorem hoisted_literal_resolves:
  assumes "assigned b ident k 0 vs" and "tc ident = None" and "length b + k + 2 \<le> n"
  shows "trace_ident n b ident tc
    = Returns (if vs = [] then None else Some (last vs),
               tc(ident \<mapsto> (if vs = [] then None else Some (last vs))))"
proof -
  obtain m where n: "n = Suc m" using assms(3) by (cases n) auto
  show ?thesis
    using trace_loop_assigned [OF assms(1), of m None "tc(ident \<mapsto> None)"] assms(2,3)
    by (simp add: n parser_unfold(8) trace_body_def)
qed

theorem hoisted_literal_resolves_witness:
  "case trace_ident 30 ''var e=[],e=[!0];f(e)'' ''e'' (\<lambda>_. None) of
     Returns (r, tc) \<Rightarrow> r = Some (VArr [VBool True]) | _ \<Rightarrow> False"
proof -
  let ?b = "''var e=[],e=[!0];f(e)''"
  have "assigned ?b ''e'' 2 0 [VArr [], VArr [VBool True]]"
    unfolding numeral_2_eq_2
  proof (rule assigned.literal [where pre = "''var e=''" and post = "'',e=[!0];f(e)''"])
    show "assigned ?b ''e'' (Suc 0) (length ''var e='' + 1) [VArr [VBool True]]"
    proof (rule assigned.literal [where pre = "''var e=[],e=''" and post = "'';f(e)''"])
      show "assigned ?b ''e'' 0 (length ''var e=[],e='' + 1) []"
        by (rule assigned.no_more) code_simp
    qed code_simp+
  qed code_simp+
  then show ?thesis
    using hoisted_literal_resolves [of ?b "''e''" 2 "[VArr [], VArr [VBool True]]" "\<lambda>_. None" 30] by simp
qed

section \<open>Finding the operation literal\<close>

inductive level :: "bytes \<Rightarrow> bool" where
  l_nil: "level []"
| l_byte: "c \<notin> set ''{}()[]'' \<Longrightarrow> level s \<Longrightarrow> level (c # s)"
| l_group: "l \<in> set ''{(['' \<Longrightarrow> r \<in> set ''})]'' \<Longrightarrow> level u \<Longrightarrow> level s \<Longrightarrow> level (l # u @ r # s)"

lemma find_open_step:
  assumes "b = pre @ c # rest" "c \<notin> set ''{}()[]''"
  shows "find_open n b (Suc (length pre)) d tc = find_open n b (length pre) d tc"
  using assms by (simp add: nth_append Let_def)

lemma find_open_level:
  assumes "level w" "0 \<le> d" "b = pre @ w @ post"
  shows "find_open n b (length pre + length w) d tc = find_open n b (length pre) d tc"
  using assms
proof (induction w arbitrary: pre post d rule: level.induct)
  case (l_byte c s)
  have "find_open n b (length pre + length (c # s)) d tc = find_open n b (length (pre @ [c])) d tc"
    using l_byte.IH [of d "pre @ [c]" post] l_byte.prems by simp
  also have "\<dots> = find_open n b (length pre) d tc"
    using find_open_step [of b pre c "s @ post"] l_byte.hyps(1) l_byte.prems by simp
  finally show ?case .
next
  case (l_group l r u s)
  have 1: "find_open n b (length pre + length (l # u @ r # s)) d tc = find_open n b (Suc (length (pre @ l # u))) d tc"
    using l_group.IH(2) [of d "pre @ l # u @ [r]" post] l_group.prems by (simp add: add.assoc)
  have "b ! length (pre @ l # u) = r" using l_group.prems(2) by (simp add: nth_append)
  then have 2: "find_open n b (Suc (length (pre @ l # u))) d tc = find_open n b (length (pre @ l # u)) (d + 1) tc"
    using l_group.hyps(2) by (auto simp: Let_def)
  have 3: "find_open n b (length (pre @ l # u)) (d + 1) tc = find_open n b (Suc (length pre)) (d + 1) tc"
    using l_group.IH(1) [of "d + 1" "pre @ [l]" "r # s @ post"] l_group.prems by simp
  have "b ! length pre = l" using l_group.prems(2) by (simp add: nth_append)
  then have 4: "find_open n b (Suc (length pre)) (d + 1) tc = find_open n b (length pre) d tc"
    using l_group.hyps(1) l_group.prems(1) by (auto simp: Let_def)
  show ?case by (simp only: 1 2 3 4)
qed simp

text \<open>
  The operation literal of a module is found: when the first \<open>"Request"\<close> of the text stands inside a
  printed object literal whose \<open>kind\<close> is \<open>Request\<close>, with balanced brackets between the object's open brace
  and that marker, the walk back from the marker stops at that brace, and the result is that object,
  whatever precedes it, with no more fuel than the literal has bytes.
\<close>

theorem operation_literal_found:
  assumes "b = pre @ print_val (VObj ps) @ post" and "plain_val (VObj ps)" and "value_end post"
    and "b = pre @ CHR ''{'' # w @ REQUEST_MARK @ rest" and "level w"
    and "find_sub b REQUEST_MARK 0 = Some (length pre + 1 + length w)"
    and "Option.bind (val_get (VObj ps) ''kind'') val_as_str = Some ''Request''"
    and "length (print_val (VObj ps)) \<le> n"
  shows "find_operation_literal n b = Returns (Some (VObj ps))"
proof -
  let ?m = "length pre + 1 + length w"
  have "find_operation_literal n b = find_open n b (Suc (length (pre @ CHR ''{'' # w))) 0 (\<lambda>_. None)"
    by (simp add: find_operation_literal_def assms(6) del: find_open.simps)
  also have "\<dots> = find_open n b (length (pre @ [CHR ''{'']) + length w) 0 (\<lambda>_. None)"
    using find_open_step [of b "pre @ CHR ''{'' # w" "CHR 0x22" "''Request'' @ CHR 0x22 # rest" n 0 "\<lambda>_. None"] assms(4)
    by (simp add: REQUEST_MARK_def del: find_open.simps)
  also have "\<dots> = find_open n b (Suc (length pre)) 0 (\<lambda>_. None)"
    using find_open_level [OF assms(5), of 0 b "pre @ [CHR ''{'']" "REQUEST_MARK @ rest"] assms(4) by simp
  finally have 1: "find_operation_literal n b = find_open n b (Suc (length pre)) 0 (\<lambda>_. None)" .
  have "b ! length pre = CHR ''{''" by (simp add: assms(4))
  moreover have "parse_object n b (length pre) (\<lambda>_. None) = Returns ((VObj ps, length pre + 1 + length (print_props ps) + 1), \<lambda>_. None)"
  proof -
    have b2: "b = (pre @ [CHR ''{'']) @ print_props ps @ CHR ''}'' # post" by (simp add: assms(1))
    have "skip_ws b (length pre + 1) = length pre + 1"
    proof (cases ps)
      case Nil
      then show ?thesis using skip_ws_token [of "CHR ''}''" "pre @ ''{''" post] by (simp add: b2 is_ascii_whitespace_def)
    next
      case (Cons p qs)
      obtain k v where p: "p = (k, v)" by fastforce
      from assms(2) obtain c r where c: "k = c # r" "is_ident_byte c" by (cases k) (auto simp: Cons p key_ok_def)
      then show ?thesis using skip_ws_token [of c "pre @ ''{''"] ident_byte_first(1,2) [OF c(2)] by (simp add: b2 Cons p)
    qed
    then show ?thesis
      using object_loop_printed [of ps n "pre @ [CHR ''{'']" post "[]" "\<lambda>_. None"] reads_all assms(2,8)
      by (simp add: parse_object_def b2)
  qed
  ultimately show ?thesis using assms(7) unfolding 1 by (simp del: val_get.simps)
qed

theorem operation_literal_found_witness:
  "case find_operation_literal 40 ''e={fragment:{},kind:\"Request\",name:null};'' of
     Returns r \<Rightarrow> r = Some (VObj [(''fragment'', VObj []), (''kind'', VStr ''Request''), (''name'', VNull)]) | _ \<Rightarrow> False"
proof -
  let ?ps = "[(''fragment'', VObj []), (''kind'', VStr ''Request''), (''name'', VNull)]"
  let ?b = "''e={fragment:{},kind:\"Request\",name:null};''"
  have "find_operation_literal 40 ?b = Returns (Some (VObj ?ps))"
  proof (rule operation_literal_found [where pre = "''e=''" and post = "'';''" and w = "''fragment:{},kind:''" and rest = "'',name:null};''"])
    show "level ''fragment:{},kind:''"
      by (intro level.l_byte level.l_nil level.l_group [of _ _ "[]" "'',kind:''", simplified]) simp_all
  qed code_simp+
  then show ?thesis by (simp only: outcome.case)
qed

end
