(* ===== verification/MexTypes.thy ===== *)
theory MexTypes
  imports MexLiteral
begin

text \<open>
  Type trees of the persisted GraphQL operations: \<open>TypeNode\<close> (\<open>crates/wa-ir/src/mex.rs\<close>), the response
  tree of a selection set, the merge of the trees of fragments, and the typing of leaves by field name
  (\<open>crates/wa-mex/src/shape.rs\<close>).  The theorems: the response tree holds exactly the field paths the
  selections select, and no leaf is left untyped.
\<close>

section \<open>Type trees\<close>

datatype typenode = TObject "(string \<times> typenode) list" | TArray "typenode list" | TLeaf string

definition UNKNOWN :: string where "UNKNOWN = ''unknown''"

lemma size_map_of: "map_of m k = Some n \<Longrightarrow> size n < size (TObject m)"
  by (induction m) (auto split: if_splits)

lemma size_snd_in: "(k, n) \<in> set m \<Longrightarrow> size n < size (TObject m)"
  by (induction m) auto

text \<open>\<open>merge_shape_node\<close> on two present nodes.\<close>

function merge_present :: "typenode \<Rightarrow> typenode \<Rightarrow> typenode" where
  "merge_present (TLeaf _) b = b"
| "merge_present (TObject a) (TLeaf _) = TObject a"
| "merge_present (TArray a) (TLeaf _) = TArray a"
| "merge_present (TArray a) (TArray b) =
     TArray [case b of [] \<Rightarrow> if a = [] then TLeaf UNKNOWN else last a
                     | y # _ \<Rightarrow> if a = [] then y else merge_present (last a) y]"
| "merge_present (TArray a) (TObject b) = TArray a"
| "merge_present (TObject a) (TArray b) = TArray b"
| "merge_present (TObject a) (TObject b) =
     TObject (fold (\<lambda>(k, v) out. bt_insert k (case map_of out k of Some e \<Rightarrow> merge_present e v | None \<Rightarrow> v) out) b a)"
  by pat_completeness auto
termination by (relation "measure (size \<circ> snd)") (auto dest: size_snd_in)

definition merge_shape_node :: "typenode option \<Rightarrow> typenode option \<Rightarrow> typenode" where
  "merge_shape_node a b =
     (case (a, b) of
        (None, Some y) \<Rightarrow> y
      | (Some x, None) \<Rightarrow> x
      | (None, None) \<Rightarrow> TLeaf UNKNOWN
      | (Some x, Some y) \<Rightarrow> merge_present x y)"

lemma merge_present_arrays:
  "merge_present (TArray a) (TArray b) =
   TArray [merge_shape_node (if a = [] then None else Some (last a)) (case b of [] \<Rightarrow> None | y # _ \<Rightarrow> Some y)]"
  by (simp add: merge_shape_node_def split: list.split)

text \<open>\<open>let merged = match fs.remove(&k) {..}; fs.insert(k, merged)\<close>\<close>

definition merge_into :: "string \<Rightarrow> typenode \<Rightarrow> (string, typenode) btree \<Rightarrow> (string, typenode) btree" where
  "merge_into k v fs =
     bt_insert k (case map_of fs k of Some e \<Rightarrow> merge_shape_node (Some e) (Some v) | None \<Rightarrow> v) fs"

lemma merge_present_objects:
  "merge_present (TObject a) (TObject b) = TObject (fold (\<lambda>(k, v). merge_into k v) b a)"
  unfolding merge_present.simps merge_into_def merge_shape_node_def by (simp cong: option.case_cong)

section \<open>The response tree\<close>

definition sel_str :: "val \<Rightarrow> string \<Rightarrow> string option" where
  "sel_str sel k = Option.bind (val_get sel k) val_as_str"

definition response_key :: "val \<Rightarrow> string option" where
  "response_key sel = (case sel_str sel ''alias'' of Some k \<Rightarrow> Some k | None \<Rightarrow> sel_str sel ''name'')"

definition sel_kind :: "val \<Rightarrow> string" where
  "sel_kind sel = (case sel_str sel ''kind'' of Some k \<Rightarrow> k | None \<Rightarrow> [])"

definition is_plural :: "val \<Rightarrow> bool" where
  "is_plural sel = (case val_get sel ''plural'' of Some v \<Rightarrow> is_truthy_bool v | None \<Rightarrow> False)"

definition is_obj :: "val \<Rightarrow> bool" where
  "is_obj v \<longleftrightarrow> (case v of VObj _ \<Rightarrow> True | _ \<Rightarrow> False)"

lemma val_get_size: "val_get v k = Some w \<Longrightarrow> size w < size v"
proof (cases v)
  case (VObj props)
  assume "val_get v k = Some w"
  then have "(k, w) \<in> set props" by (simp add: VObj map_of_SomeD)
  then show ?thesis unfolding VObj by (induction props) auto
qed simp_all

lemma val_item_size: "v \<in> set vs \<Longrightarrow> size v < size (VArr vs)"
  by (induction vs) auto

text \<open>One selection, over the shape of its own selections.\<close>

definition selection_step ::
    "(val \<Rightarrow> (string, typenode) btree) \<Rightarrow> val \<Rightarrow> (string, typenode) btree \<Rightarrow> (string, typenode) btree" where
  "selection_step sub sel fs =
     (if \<not> is_obj sel then fs
      else if sel_kind sel = ''ScalarField'' \<or> sel_kind sel = ''TypeDiscriminator'' then
        bt_insert_new (case response_key sel of Some k \<Rightarrow> k | None \<Rightarrow> ''__typename'') (TLeaf UNKNOWN) fs
      else if sel_kind sel = ''LinkedField'' then
        (case response_key sel of
           None \<Rightarrow> fs
         | Some key \<Rightarrow>
             (let nested = (case val_get sel ''selections'' of Some s \<Rightarrow> sub s | None \<Rightarrow> []);
                  value = (if is_plural sel then TArray [TObject nested] else TObject nested)
              in merge_into key value fs))
      else if sel_kind sel = ''InlineFragment'' \<or> sel_kind sel = ''Condition'' then
        (case val_get sel ''selections'' of
           None \<Rightarrow> fs
         | Some s \<Rightarrow> fold (\<lambda>(k, v). merge_into k v) (sub s) fs)
      else fs)"

lemma selection_step_cong [fundef_cong]:
  "sel = sel' \<Longrightarrow> (\<And>s. val_get sel' ''selections'' = Some s \<Longrightarrow> sub s = sub' s) \<Longrightarrow>
   selection_step sub sel = selection_step sub' sel'"
  by (rule ext) (simp add: selection_step_def Let_def split: option.split)

function shape_from_selections :: "val \<Rightarrow> (string, typenode) btree" where
  "shape_from_selections (VArr items) = fold (selection_step shape_from_selections) items []"
| "shape_from_selections (VObj ps) = []"
| "shape_from_selections (VStr s) = []"
| "shape_from_selections (VRef s) = []"
| "shape_from_selections (VBool t) = []"
| "shape_from_selections VNull = []"
| "shape_from_selections VUndefined = []"
| "shape_from_selections VNum = []"
  by pat_completeness auto
termination by (relation "measure size") (simp_all only: wf_measure in_measure, blast intro: less_trans [OF val_get_size val_item_size])

section \<open>The paths of a tree\<close>

text \<open>
  A path of field names, with what is known at its end: \<open>None\<close> that there is a field, \<open>Some False\<close> that
  it has fields of its own, \<open>Some True\<close> that it is a list of nodes with fields.
\<close>

type_synonym path = "string list \<times> bool option"

inductive has_path :: "typenode \<Rightarrow> string list \<Rightarrow> bool option \<Rightarrow> bool" where
  here: "has_path n [] None"
| single: "has_path (TObject m) [] (Some False)"
| plural: "has_path (TArray [TObject m]) [] (Some True)"
| in_object: "(k, n) \<in> set m \<Longrightarrow> has_path n p x \<Longrightarrow> has_path (TObject m) (k # p) x"
| in_array: "(k, n) \<in> set m \<Longrightarrow> has_path n p x \<Longrightarrow> has_path (TArray [TObject m]) (k # p) x"

inductive_simps has_path_simps:
  "has_path (TLeaf l) p x" "has_path (TObject m) p x" "has_path (TArray [TObject m]) p x"

definition paths :: "typenode \<Rightarrow> path set" where
  "paths n = {(p, x). has_path n p x}"

definition under :: "string \<Rightarrow> path set \<Rightarrow> path set" where
  "under k S = {(k # p, x) | p x. (p, x) \<in> S}"

definition field_paths :: "(string, typenode) btree \<Rightarrow> path set" where
  "field_paths m = (\<Union>(k, n) \<in> set m. under k (paths n))"

lemma paths_simps [simp]:
  "paths (TLeaf l) = {([], None)}"
  "paths (TObject m) = {([], None), ([], Some False)} \<union> field_paths m"
  "paths (TArray [TObject m]) = {([], None), ([], Some True)} \<union> field_paths m"
  by (auto simp: paths_def field_paths_def under_def has_path_simps)

inductive shape_ok :: "typenode \<Rightarrow> bool" where
  leaf: "shape_ok (TLeaf UNKNOWN)"
| object: "bt_ok m \<Longrightarrow> \<forall>(k, n) \<in> set m. shape_ok n \<Longrightarrow> shape_ok (TObject m)"
| array: "bt_ok m \<Longrightarrow> \<forall>(k, n) \<in> set m. shape_ok n \<Longrightarrow> shape_ok (TArray [TObject m])"

inductive_simps shape_ok_simps [simp]: "shape_ok (TLeaf l)" "shape_ok (TObject m)" "shape_ok (TArray ns)"

definition shapes_ok :: "(string, typenode) btree \<Rightarrow> bool" where
  "shapes_ok m \<longleftrightarrow> bt_ok m \<and> (\<forall>(k, n) \<in> set m. shape_ok n)"

definition one_kind :: "path set \<Rightarrow> bool" where
  "one_kind S \<longleftrightarrow> (\<forall>p. \<not> ((p, Some True) \<in> S \<and> (p, Some False) \<in> S))"

lemma one_kind_mono: "one_kind S \<Longrightarrow> T \<subseteq> S \<Longrightarrow> one_kind T"
  unfolding one_kind_def by blast

lemma one_kind_under: "one_kind S \<Longrightarrow> under k T \<subseteq> S \<Longrightarrow> one_kind T"
  unfolding one_kind_def under_def by blast

lemma under_Un: "under k (S \<union> T) = under k S \<union> under k T"
  by (auto simp: under_def)

lemma under_mono: "S \<subseteq> T \<Longrightarrow> under k S \<subseteq> under k T"
  by (auto simp: under_def)

lemma field_paths_at: "(k, n) \<in> set m \<Longrightarrow> under k (paths n) \<subseteq> field_paths m"
  by (auto simp: field_paths_def)

text \<open>What a merge must do to the paths: add none, and lose none when the kinds agree.\<close>

definition joins :: "path set \<Rightarrow> path set \<Rightarrow> path set \<Rightarrow> bool" where
  "joins R S T \<longleftrightarrow> R \<subseteq> S \<union> T \<and> (one_kind (S \<union> T) \<longrightarrow> R = S \<union> T)"

lemma bt_insert_fields:
  assumes "shapes_ok m" "shape_ok v"
  shows "shapes_ok (bt_insert k v m)" "field_paths (bt_insert k v m) = field_paths [p \<leftarrow> m. fst p \<noteq> k] \<union> under k (paths v)"
proof -
  have set: "set (bt_insert k v m) = insert (k, v) {p \<in> set m. fst p \<noteq> k}"
    by (auto simp: bt_insert_def)
  show "shapes_ok (bt_insert k v m)" using assms by (auto simp: shapes_ok_def set)
  show "field_paths (bt_insert k v m) = field_paths [p \<leftarrow> m. fst p \<noteq> k] \<union> under k (paths v)"
    by (auto simp: field_paths_def set)
qed

lemma field_paths_split:
  assumes "bt_ok m"
  shows "field_paths m = field_paths [p \<leftarrow> m. fst p \<noteq> k] \<union> (case map_of m k of None \<Rightarrow> {} | Some e \<Rightarrow> under k (paths e))"
proof -
  have d: "distinct (map fst m)" by (rule bt_ok_distinct [OF assms])
  show ?thesis
  proof (cases "map_of m k")
    case None
    then have "[p \<leftarrow> m. fst p \<noteq> k] = m" by (intro filter_True) (auto simp: map_of_eq_None_iff)
    then show ?thesis by (simp add: None)
  next
    case (Some e)
    have "set m = insert (k, e) {p \<in> set m. fst p \<noteq> k}"
      using eq_key_imp_eq_value [OF d] map_of_SomeD [OF Some] by auto
    then have "field_paths m = (\<Union>(k, n) \<in> insert (k, e) {p \<in> set m. fst p \<noteq> k}. under k (paths n))"
      unfolding field_paths_def by (rule arg_cong)
    then show ?thesis by (simp add: Some field_paths_def Un_commute)
  qed
qed

lemma merge_into_joins:
  assumes "shapes_ok m" "shape_ok v"
    and "\<And>e. map_of m k = Some e \<Longrightarrow> shape_ok e \<Longrightarrow>
      shape_ok (merge_present e v) \<and> joins (paths (merge_present e v)) (paths e) (paths v)"
  shows "shapes_ok (merge_into k v m) \<and> joins (field_paths (merge_into k v m)) (field_paths m) (under k (paths v))"
proof (cases "map_of m k")
  case None
  then have "merge_into k v m = bt_insert k v m" by (simp add: merge_into_def)
  then show ?thesis
    using bt_insert_fields [OF assms(1,2), of k] field_paths_split [of m k] assms(1) None
    by (simp add: shapes_ok_def joins_def)
next
  case (Some e)
  then have e: "(k, e) \<in> set m" by (rule map_of_SomeD)
  with assms(1) have eok: "shape_ok e" by (auto simp: shapes_ok_def)
  let ?r = "merge_present e v"
  from assms(3) [OF Some eok] have r: "shape_ok ?r" "paths ?r \<subseteq> paths e \<union> paths v"
      "one_kind (paths e \<union> paths v) \<Longrightarrow> paths ?r = paths e \<union> paths v"
    by (auto simp: joins_def)
  have eq: "merge_into k v m = bt_insert k ?r m" by (simp add: merge_into_def merge_shape_node_def Some)
  have fp: "field_paths (merge_into k v m) = field_paths [p \<leftarrow> m. fst p \<noteq> k] \<union> under k (paths ?r)"
    unfolding eq by (rule bt_insert_fields(2) [OF assms(1) r(1)])
  have m: "field_paths m = field_paths [p \<leftarrow> m. fst p \<noteq> k] \<union> under k (paths e)"
    using field_paths_split [of m k] assms(1) Some by (simp add: shapes_ok_def)
  have "field_paths (merge_into k v m) = field_paths m \<union> under k (paths v)"
    if ok: "one_kind (field_paths m \<union> under k (paths v))"
  proof -
    have "under k (paths e \<union> paths v) \<subseteq> field_paths m \<union> under k (paths v)" by (auto simp: m under_Un)
    from r(3) [OF one_kind_under [OF ok this]] show ?thesis by (auto simp: fp m under_Un)
  qed
  moreover have "field_paths (merge_into k v m) \<subseteq> field_paths m \<union> under k (paths v)"
    using under_mono [OF r(2), of k] by (auto simp: fp m under_Un)
  ultimately show ?thesis
    using bt_insert_fields(1) [OF assms(1) r(1), of k] by (simp add: eq joins_def)
qed

lemma merge_all_joins:
  assumes "shapes_ok m" "\<forall>(k, v) \<in> set ps. shape_ok v"
    and "\<And>k v e. (k, v) \<in> set ps \<Longrightarrow> shape_ok e \<Longrightarrow>
      shape_ok (merge_present e v) \<and> joins (paths (merge_present e v)) (paths e) (paths v)"
  shows "shapes_ok (fold (\<lambda>(k, v). merge_into k v) ps m)
    \<and> joins (field_paths (fold (\<lambda>(k, v). merge_into k v) ps m)) (field_paths m) (field_paths ps)"
  using assms
proof (induction ps arbitrary: m)
  case Nil
  then show ?case by (simp add: joins_def field_paths_def)
next
  case (Cons q ps)
  obtain k v where q: "q = (k, v)" by fastforce
  let ?m = "merge_into k v m"
  have 1: "shapes_ok ?m \<and> joins (field_paths ?m) (field_paths m) (under k (paths v))"
    using Cons.prems(2,3) by (intro merge_into_joins Cons.prems(1)) (auto simp: q)
  have 2: "shapes_ok (fold (\<lambda>(k, v). merge_into k v) ps ?m)
      \<and> joins (field_paths (fold (\<lambda>(k, v). merge_into k v) ps ?m)) (field_paths ?m) (field_paths ps)"
    using Cons.prems(2,3) 1 by (intro Cons.IH) (auto simp: q)
  have fq: "field_paths (q # ps) = under k (paths v) \<union> field_paths ps" by (simp add: field_paths_def q)
  show ?case
  proof
    show "shapes_ok (fold (\<lambda>(k, v). merge_into k v) (q # ps) m)" using 2 by (simp add: q)
    have "field_paths (fold (\<lambda>(k, v). merge_into k v) ps ?m) = field_paths m \<union> field_paths (q # ps)"
      if ok: "one_kind (field_paths m \<union> field_paths (q # ps))"
    proof -
      have e1: "field_paths ?m = field_paths m \<union> under k (paths v)"
        using 1 one_kind_mono [OF ok, of "field_paths m \<union> under k (paths v)"] by (auto simp: joins_def fq)
      then show ?thesis
        using 2 ok by (simp add: joins_def fq Un_assoc)
    qed
    moreover have "field_paths (fold (\<lambda>(k, v). merge_into k v) ps ?m) \<subseteq> field_paths m \<union> field_paths (q # ps)"
      using 1 2 unfolding joins_def fq by blast
    ultimately show "joins (field_paths (fold (\<lambda>(k, v). merge_into k v) (q # ps) m)) (field_paths m) (field_paths (q # ps))"
      by (simp add: joins_def q)
  qed
qed

lemma field_paths_nonempty: "([], x) \<notin> field_paths m"
  by (auto simp: field_paths_def under_def)

lemma joins_objects:
  "joins (paths (TObject r)) (paths (TObject m)) (paths (TObject m')) \<longleftrightarrow> joins (field_paths r) (field_paths m) (field_paths m')"
proof -
  let ?E = "{([], None), ([], Some False)}"
  have one: "one_kind (?E \<union> field_paths m \<union> (?E \<union> field_paths m')) \<longleftrightarrow> one_kind (field_paths m \<union> field_paths m')"
    using field_paths_nonempty by (auto simp: one_kind_def)
  have dj: "?E \<inter> field_paths n = {}" for n using field_paths_nonempty by auto
  have sub: "E \<union> A \<subseteq> E \<union> B \<union> (E \<union> C) \<longleftrightarrow> A \<subseteq> B \<union> C" if "E \<inter> A = {}" for A B C E :: "path set"
    using that by blast
  have eq: "E \<union> A = E \<union> B \<union> (E \<union> C) \<longleftrightarrow> A = B \<union> C" if "E \<inter> A = {}" "E \<inter> B = {}" "E \<inter> C = {}" for A B C E :: "path set"
    using that by blast
  show ?thesis
    unfolding joins_def paths_simps one sub [OF dj] eq [OF dj dj dj] ..
qed

lemma joins_lists:
  assumes "joins (paths (TObject r)) (paths (TObject m)) (paths (TObject m'))"
  shows "joins (paths (TArray [TObject r])) (paths (TArray [TObject m])) (paths (TArray [TObject m']))"
proof -
  have j: "joins (field_paths r) (field_paths m) (field_paths m')" using assms unfolding joins_objects .
  have "one_kind (field_paths m \<union> field_paths m')"
    if "one_kind (paths (TArray [TObject m]) \<union> paths (TArray [TObject m']))"
    by (rule one_kind_mono [OF that]) auto
  with j show ?thesis unfolding joins_def paths_simps by blast
qed

lemma merge_present_joins:
  assumes "shape_ok a" "shape_ok b"
  shows "shape_ok (merge_present a b) \<and> joins (paths (merge_present a b)) (paths a) (paths b)"
  using assms
proof (induction a b rule: merge_present.induct)
  case (1 l b)
  have "([], None) \<in> paths b" by (simp add: paths_def here)
  with 1 show ?case by (auto simp: joins_def)
next
  case (7 a b)
  then have ok: "shapes_ok a" "\<forall>(k, v) \<in> set b. shape_ok v" by (auto simp: shapes_ok_def)
  have "shapes_ok (fold (\<lambda>(k, v). merge_into k v) b a)
      \<and> joins (field_paths (fold (\<lambda>(k, v). merge_into k v) b a)) (field_paths a) (field_paths b)"
  proof (rule merge_all_joins [OF ok])
    show "shape_ok (merge_present e v) \<and> joins (paths (merge_present e v)) (paths e) (paths v)"
      if "(k, v) \<in> set b" "shape_ok e" for k v e
      by (rule 7(1) [OF that(1) refl, of "[(k, e)]"]) (use that ok(2) in auto)
  qed
  then show ?case unfolding merge_present_objects joins_objects by (simp add: shapes_ok_def)
next
  case (4 a b)
  then obtain m m' where ab: "a = [TObject m]" "b = [TObject m']" by auto
  define r where "r = fold (\<lambda>(k, v). merge_into k v) m' m"
  have "shape_ok (TObject r) \<and> joins (paths (TObject r)) (paths (TObject m)) (paths (TObject m'))"
    unfolding r_def merge_present_objects [symmetric]
    using 4(1) [of "TObject m'" "[]"] 4(2,3) by (simp add: ab)
  then have r: "shape_ok (TArray [TObject r])" and j: "joins (paths (TObject r)) (paths (TObject m)) (paths (TObject m'))"
    by simp_all
  have "merge_present (TArray a) (TArray b) = TArray [TObject r]"
    by (simp add: ab r_def merge_present_objects del: merge_present.simps(7))
  with r joins_lists [OF j] show ?case unfolding ab by simp
next
  case (5 a b)
  then obtain m where a: "a = [TObject m]" by auto
  have "\<not> one_kind (paths (TArray a) \<union> paths (TObject b))" by (auto simp: a one_kind_def)
  then show ?case using 5 by (simp add: joins_def, blast)
next
  case (6 a b)
  then obtain m where b: "b = [TObject m]" by auto
  have "\<not> one_kind (paths (TObject a) \<union> paths (TArray b))" by (auto simp: b one_kind_def)
  then show ?case using 6 by (simp add: joins_def, blast)
next
  case (3 a l)
  then obtain m where "a = [TObject m]" by auto
  with 3 show ?case by (auto simp: joins_def)
qed (auto simp: joins_def)

section \<open>What the selections select\<close>

text \<open>The field paths a selection list stands for: fragments and conditions are transparent.\<close>

inductive selected :: "val \<Rightarrow> string list \<Rightarrow> bool option \<Rightarrow> bool"
  and selects :: "val \<Rightarrow> string list \<Rightarrow> bool option \<Rightarrow> bool" where
  item: "sel \<in> set items \<Longrightarrow> is_obj sel \<Longrightarrow> selects sel p x \<Longrightarrow> selected (VArr items) p x"
| scalar_field: "sel_kind sel \<in> {''ScalarField'', ''TypeDiscriminator''} \<Longrightarrow>
    selects sel [case response_key sel of Some k \<Rightarrow> k | None \<Rightarrow> ''__typename''] None"
| linked_field: "sel_kind sel = ''LinkedField'' \<Longrightarrow> response_key sel = Some k \<Longrightarrow>
    x \<in> {None, Some (is_plural sel)} \<Longrightarrow> selects sel [k] x"
| linked_nested: "sel_kind sel = ''LinkedField'' \<Longrightarrow> response_key sel = Some k \<Longrightarrow>
    val_get sel ''selections'' = Some s \<Longrightarrow> selected s p x \<Longrightarrow> selects sel (k # p) x"
| fragment: "sel_kind sel \<in> {''InlineFragment'', ''Condition''} \<Longrightarrow>
    val_get sel ''selections'' = Some s \<Longrightarrow> selected s p x \<Longrightarrow> selects sel p x"

inductive_simps selected_simps [simp]:
  "selected (VArr items) p x" "selected (VObj ps) p x" "selected (VStr t) p x" "selected (VRef t) p x"
  "selected (VBool c) p x" "selected VNull p x" "selected VUndefined p x" "selected VNum p x"

definition selection_paths :: "val \<Rightarrow> path set" where
  "selection_paths v = {(p, x). selected v p x}"

definition one_selection :: "val \<Rightarrow> path set" where
  "one_selection sel = (if is_obj sel then {(p, x). selects sel p x} else {})"

lemma selection_paths_items: "selection_paths (VArr items) = (\<Union>sel \<in> set items. one_selection sel)"
  by (auto simp: selection_paths_def one_selection_def split: if_splits)

lemma selection_paths_none:
  "selection_paths (VObj ps) = {}" "selection_paths (VStr t) = {}" "selection_paths (VRef t) = {}"
  "selection_paths (VBool c) = {}" "selection_paths VNull = {}" "selection_paths VUndefined = {}" "selection_paths VNum = {}"
  by (simp_all add: selection_paths_def)

lemma selects_scalar:
  assumes "sel_kind sel = ''ScalarField'' \<or> sel_kind sel = ''TypeDiscriminator''"
  shows "selects sel p x \<longleftrightarrow> p = [case response_key sel of Some k \<Rightarrow> k | None \<Rightarrow> ''__typename''] \<and> x = None"
  using assms by (subst selects.simps) auto

lemma selects_linked:
  assumes "sel_kind sel = ''LinkedField''"
  shows "selects sel p x \<longleftrightarrow> (\<exists>k. response_key sel = Some k \<and>
    (p = [k] \<and> x \<in> {None, Some (is_plural sel)} \<or> (\<exists>s q. p = k # q \<and> val_get sel ''selections'' = Some s \<and> selected s q x)))"
  using assms by (subst selects.simps) auto

lemma selects_fragment:
  assumes "sel_kind sel = ''InlineFragment'' \<or> sel_kind sel = ''Condition''"
  shows "selects sel p x \<longleftrightarrow> (\<exists>s. val_get sel ''selections'' = Some s \<and> selected s p x)"
  using assms by (subst selects.simps) auto

lemma selects_other:
  assumes "sel_kind sel \<notin> {''ScalarField'', ''TypeDiscriminator'', ''LinkedField'', ''InlineFragment'', ''Condition''}"
  shows "\<not> selects sel p x"
  using assms by (subst selects.simps) auto

text \<open>A computed shape is faithful to the paths it stands for.\<close>

definition shapes :: "path set \<Rightarrow> (string, typenode) btree \<Rightarrow> bool" where
  "shapes S m \<longleftrightarrow> shapes_ok m \<and> field_paths m \<subseteq> S \<and> (one_kind S \<longrightarrow> field_paths m = S)"

lemma joins_widen: "joins R S T \<Longrightarrow> T \<subseteq> T' \<Longrightarrow> (one_kind T' \<Longrightarrow> T = T') \<Longrightarrow> joins R S T'"
proof -
  assume j: "joins R S T" and sub: "T \<subseteq> T'" and eq: "one_kind T' \<Longrightarrow> T = T'"
  have "R = S \<union> T'" if "one_kind (S \<union> T')"
  proof -
    have "T = T'" by (rule eq, rule one_kind_mono [OF that]) simp
    with j that show ?thesis by (simp add: joins_def)
  qed
  with j sub show ?thesis by (auto simp: joins_def)
qed

lemma merge_into_shapes:
  assumes "shapes_ok m" "shape_ok v"
  shows "shapes_ok (merge_into k v m) \<and> joins (field_paths (merge_into k v m)) (field_paths m) (under k (paths v))"
  by (rule merge_into_joins [OF assms merge_present_joins [OF _ assms(2)]])

lemma scalar_step:
  assumes "shapes_ok m"
  shows "shapes_ok (bt_insert_new k (TLeaf UNKNOWN) m)
    \<and> joins (field_paths (bt_insert_new k (TLeaf UNKNOWN) m)) (field_paths m) {([k], None)}"
proof (cases "map_of m k")
  case None
  then have "bt_insert_new k (TLeaf UNKNOWN) m = merge_into k (TLeaf UNKNOWN) m"
    by (simp add: bt_insert_new_def merge_into_def)
  then show ?thesis using merge_into_shapes [OF assms shape_ok.leaf, of k] by (simp add: under_def)
next
  case (Some e)
  have "under k (paths e) \<subseteq> field_paths m" by (rule field_paths_at [OF map_of_SomeD [OF Some]])
  moreover have "([], None) \<in> paths e" by (simp add: paths_def here)
  ultimately have "([k], None) \<in> field_paths m" by (auto simp: under_def)
  with assms show ?thesis by (auto simp: bt_insert_new_def Some joins_def)
qed

lemma linked_paths:
  assumes "shapes (case val_get sel ''selections'' of None \<Rightarrow> {} | Some s \<Rightarrow> selection_paths s) nested"
    and "is_obj sel" "sel_kind sel = ''LinkedField''" "response_key sel = Some k"
  defines "value \<equiv> (if is_plural sel then TArray [TObject nested] else TObject nested)"
  shows "shape_ok value" "under k (paths value) \<subseteq> one_selection sel" "one_kind (one_selection sel) \<Longrightarrow> under k (paths value) = one_selection sel"
proof -
  let ?S = "case val_get sel ''selections'' of None \<Rightarrow> {} | Some s \<Rightarrow> selection_paths s"
  have one: "one_selection sel = under k ({([], None), ([], Some (is_plural sel))} \<union> ?S)"
    using assms(2-4) selects_linked [OF assms(3)]
    by (auto simp: one_selection_def under_def selection_paths_def split: option.splits)
  have val: "paths value = {([], None), ([], Some (is_plural sel))} \<union> field_paths nested"
    by (simp add: value_def)
  show "shape_ok value" using assms(1) by (simp add: value_def shapes_def shapes_ok_def)
  show "under k (paths value) \<subseteq> one_selection sel"
    unfolding one val using assms(1) by (intro under_mono) (auto simp: shapes_def)
  assume "one_kind (one_selection sel)"
  then have "one_kind ({([], None), ([], Some (is_plural sel))} \<union> ?S)" unfolding one by (rule one_kind_under [where k = k]) simp
  then have "one_kind ?S" by (rule one_kind_mono) blast
  with assms(1) show "under k (paths value) = one_selection sel" unfolding one val by (simp add: shapes_def)
qed

lemma selection_step_joins:
  assumes "shapes_ok m" "\<And>s. val_get sel ''selections'' = Some s \<Longrightarrow> shapes (selection_paths s) (sub s)"
  shows "shapes_ok (selection_step sub sel m) \<and> joins (field_paths (selection_step sub sel m)) (field_paths m) (one_selection sel)"
proof -
  have none: ?thesis if "one_selection sel = {}" "selection_step sub sel m = m"
    using assms(1) that by (simp add: joins_def)
  consider "\<not> is_obj sel" | (scalar) "is_obj sel" "sel_kind sel = ''ScalarField'' \<or> sel_kind sel = ''TypeDiscriminator''"
    | (linked) "is_obj sel" "sel_kind sel = ''LinkedField''"
    | (frag) "is_obj sel" "sel_kind sel = ''InlineFragment'' \<or> sel_kind sel = ''Condition''"
    | (other) "is_obj sel" "sel_kind sel \<notin> {''ScalarField'', ''TypeDiscriminator'', ''LinkedField'', ''InlineFragment'', ''Condition''}"
    by fastforce
  then show ?thesis
  proof cases
    case 1
    then show ?thesis by (intro none) (simp_all add: one_selection_def selection_step_def)
  next
    case scalar
    have "selection_step sub sel m
        = bt_insert_new (case response_key sel of Some k \<Rightarrow> k | None \<Rightarrow> ''__typename'') (TLeaf UNKNOWN) m"
      using scalar unfolding selection_step_def by (simp only: if_True if_False not_True_eq_False)
    moreover have "one_selection sel = {([case response_key sel of Some k \<Rightarrow> k | None \<Rightarrow> ''__typename''], None)}"
      using scalar selects_scalar [OF scalar(2)] by (auto simp: one_selection_def)
    ultimately show ?thesis using scalar_step [OF assms(1)] by simp
  next
    case linked
    show ?thesis
    proof (cases "response_key sel")
      case None
      then show ?thesis
        using linked selects_linked [OF linked(2)]
        by (intro none) (simp_all add: one_selection_def selection_step_def)
    next
      case (Some k)
      define nested where "nested = (case val_get sel ''selections'' of Some s \<Rightarrow> sub s | None \<Rightarrow> [])"
      have "shapes (case val_get sel ''selections'' of None \<Rightarrow> {} | Some s \<Rightarrow> selection_paths s) nested"
      proof (cases "val_get sel ''selections''")
        case None
        then show ?thesis by (simp add: nested_def shapes_def shapes_ok_def field_paths_def)
      next
        case (Some s)
        with assms(2) [OF Some] show ?thesis by (simp add: nested_def)
      qed
      note v = linked_paths [OF this linked Some]
      have "selection_step sub sel m = merge_into k (if is_plural sel then TArray [TObject nested] else TObject nested) m"
        using linked by (simp add: selection_step_def Some nested_def)
      then show ?thesis using merge_into_shapes [OF assms(1) v(1), of k] joins_widen [OF _ v(2,3)] by simp
    qed
  next
    case frag
    show ?thesis
    proof (cases "val_get sel ''selections''")
      case None
      then show ?thesis
        using frag selects_fragment [OF frag(2)]
        by (intro none) (auto simp: one_selection_def selection_step_def)
    next
      case (Some s)
      from assms(2) [OF Some] have s: "shapes_ok (sub s)" "field_paths (sub s) \<subseteq> selection_paths s"
        "one_kind (selection_paths s) \<Longrightarrow> field_paths (sub s) = selection_paths s" by (simp_all add: shapes_def)
      have "one_selection sel = selection_paths s"
        using frag selects_fragment [OF frag(2)] by (auto simp: one_selection_def selection_paths_def Some)
      moreover have "selection_step sub sel m = fold (\<lambda>(k, v). merge_into k v) (sub s) m"
        using frag by (auto simp: selection_step_def Some)
      moreover have "shapes_ok (fold (\<lambda>(k, v). merge_into k v) (sub s) m)
          \<and> joins (field_paths (fold (\<lambda>(k, v). merge_into k v) (sub s) m)) (field_paths m) (field_paths (sub s))"
        using s(1) merge_present_joins by (intro merge_all_joins [OF assms(1)]) (auto simp: shapes_ok_def)
      ultimately show ?thesis using joins_widen [OF _ s(2,3)] by simp
    qed
  next
    case other
    then show ?thesis
      using selects_other [OF other(2)] by (intro none) (simp_all add: one_selection_def selection_step_def)
  qed
qed

lemma selections_fold:
  assumes "shapes_ok m" "\<And>sel s. sel \<in> set items \<Longrightarrow> val_get sel ''selections'' = Some s \<Longrightarrow> shapes (selection_paths s) (sub s)"
  shows "shapes_ok (fold (selection_step sub) items m)
    \<and> joins (field_paths (fold (selection_step sub) items m)) (field_paths m) (\<Union>sel \<in> set items. one_selection sel)"
  using assms
proof (induction items arbitrary: m)
  case Nil
  then show ?case by (simp add: joins_def)
next
  case (Cons sel items)
  let ?m = "selection_step sub sel m" and ?r = "fold (selection_step sub) items (selection_step sub sel m)"
  let ?U = "\<Union>sel \<in> set items. one_selection sel"
  have 1: "shapes_ok ?m" "joins (field_paths ?m) (field_paths m) (one_selection sel)"
    using selection_step_joins [OF Cons.prems(1), of sel sub] Cons.prems(2) by auto
  have 2: "shapes_ok ?r" "joins (field_paths ?r) (field_paths ?m) ?U"
    using Cons.IH [OF 1(1)] Cons.prems(2) by auto
  have "field_paths ?r = field_paths m \<union> (one_selection sel \<union> ?U)" if ok: "one_kind (field_paths m \<union> (one_selection sel \<union> ?U))"
  proof -
    have "one_kind (field_paths m \<union> one_selection sel)" by (rule one_kind_mono [OF ok]) blast
    with 1(2) have "field_paths ?m = field_paths m \<union> one_selection sel" by (simp add: joins_def)
    with 2(2) ok show ?thesis by (simp add: joins_def Un_assoc)
  qed
  moreover have "field_paths ?r \<subseteq> field_paths m \<union> (one_selection sel \<union> ?U)"
    using 1(2) 2(2) unfolding joins_def by blast
  ultimately show ?case using 2(1) by (simp add: joins_def)
qed

lemma shape_from_selections_shapes: "shapes (selection_paths v) (shape_from_selections v)"
proof (induction v rule: shape_from_selections.induct)
  case (1 items)
  have "shapes_ok []" "field_paths [] = {}" by (simp_all add: shapes_ok_def field_paths_def)
  with selections_fold [of "[]" items shape_from_selections] 1
  show ?case by (simp add: shapes_def joins_def selection_paths_items)
qed (simp_all add: shapes_def shapes_ok_def field_paths_def selection_paths_none)

section \<open>Typing the leaves\<close>

definition BOOL_PREFIX :: "string list" where
  "BOOL_PREFIX = [''is_'', ''has_'', ''can_'', ''should_'', ''allow_'', ''are_'', ''was_'', ''did_'', ''fetch_'', ''include_'',
    ''enable'', ''disable'']"

definition BOOL_SUFFIX :: "string list" where
  "BOOL_SUFFIX = [''_enabled'', ''_disabled'', ''_allowed'', ''_required'']"

definition NUM_SUFFIX :: "string list" where
  "NUM_SUFFIX = [''_count'', ''_time'', ''_timestamp'', ''_ts'', ''_at'', ''_secs'', ''_seconds'', ''_ms'', ''_index'', ''_size'',
    ''_width'', ''_height'', ''_duration'', ''_revision'', ''_version'', ''_number'']"

definition NUM_NAMES :: "string list" where
  "NUM_NAMES = [''count'', ''index'', ''size'', ''width'', ''height'', ''duration'', ''timestamp'', ''limit'', ''offset'', ''version'']"

definition infer_scalar :: "string \<Rightarrow> string" where
  "infer_scalar name =
     (if list_ex (starts_with name) BOOL_PREFIX \<or> list_ex (ends_with name) BOOL_SUFFIX \<or> name = ''enabled'' then ''boolean''
      else if list_ex (ends_with name) NUM_SUFFIX \<or> name \<in> set NUM_NAMES then ''number''
      else ''string'')"

definition is_id_list_name :: "string \<Rightarrow> bool" where
  "is_id_list_name name \<longleftrightarrow> ends_with name ''_ids'' \<or> ends_with name ''_jids''"

definition opaque_leaf :: "typenode \<Rightarrow> bool" where
  "opaque_leaf n \<longleftrightarrow> n = TLeaf UNKNOWN"

text \<open>\<open>type_field\<close>, over the typing of the node itself.\<close>

definition type_field_by :: "(typenode \<Rightarrow> typenode) \<Rightarrow> typenode \<Rightarrow> string \<Rightarrow> bool \<Rightarrow> typenode" where
  "type_field_by ty node key vars =
     (if vars \<and> opaque_leaf node \<and> is_id_list_name key then TArray [TLeaf ''string''] else ty node)"

lemma type_field_by_cong [fundef_cong]:
  "n = n' \<Longrightarrow> k = k' \<Longrightarrow> vars = vars' \<Longrightarrow> ty n' = ty' n' \<Longrightarrow> type_field_by ty n k vars = type_field_by ty' n' k' vars'"
  by (simp add: type_field_by_def)

function type_node :: "typenode \<Rightarrow> string \<Rightarrow> bool \<Rightarrow> typenode" where
  "type_node (TLeaf tag) key vars = (if tag = UNKNOWN then TLeaf (infer_scalar key) else TLeaf tag)"
| "type_node (TArray items) key vars = TArray (map (\<lambda>n. type_node n key vars) items)"
| "type_node (TObject m) key vars = TObject (map (\<lambda>(k, n). (k, type_field_by (\<lambda>n. type_node n k vars) n k vars)) m)"
  by pat_completeness auto
termination
proof (relation "measure (\<lambda>(n, k, vars). size n)", goal_cases)
  case (2 items key vars n)
  then show ?case by (induction items) auto
qed (auto dest: size_snd_in)

definition type_field :: "typenode \<Rightarrow> string \<Rightarrow> bool \<Rightarrow> typenode" where
  "type_field node key vars = type_field_by (\<lambda>n. type_node n key vars) node key vars"

definition type_tree :: "(string, typenode) btree \<Rightarrow> bool \<Rightarrow> (string, typenode) btree" where
  "type_tree m vars = map (\<lambda>(k, n). (k, type_field n k vars)) m"

definition response_from_module :: "nat \<Rightarrow> bytes \<Rightarrow> (string, typenode) btree outcome" where
  "response_from_module n b =
     and_then (find_operation_literal n b) (\<lambda>r. case r of
        None \<Rightarrow> Returns []
      | Some opn \<Rightarrow>
          Returns (type_tree (case Option.bind (val_get opn ''operation'') (\<lambda>x. val_get x ''selections'') of
                                None \<Rightarrow> [] | Some s \<Rightarrow> shape_from_selections s) False))"

text \<open>The tags of a tree.\<close>

inductive leaf_of :: "typenode \<Rightarrow> string \<Rightarrow> bool" where
  "leaf_of (TLeaf t) t"
| "n \<in> set ns \<Longrightarrow> leaf_of n t \<Longrightarrow> leaf_of (TArray ns) t"
| "(k, n) \<in> set m \<Longrightarrow> leaf_of n t \<Longrightarrow> leaf_of (TObject m) t"

inductive_simps leaf_of_simps [simp]: "leaf_of (TLeaf l) t" "leaf_of (TArray ns) t" "leaf_of (TObject m) t"

definition SCALARS :: "string list" where "SCALARS = [''boolean'', ''number'', ''string'']"

lemma infer_scalar_tag: "infer_scalar name \<in> set SCALARS"
  by (simp add: infer_scalar_def SCALARS_def)

lemma type_node_leaf:
  "leaf_of (type_node n key vars) t \<Longrightarrow> t \<in> set SCALARS \<or> t \<noteq> UNKNOWN \<and> leaf_of n t"
proof (induction n key vars rule: type_node.induct)
  case (1 tag key vars)
  then show ?case using infer_scalar_tag by (auto split: if_splits)
next
  case (2 items key vars)
  then show ?case by auto
next
  case (3 m key vars)
  from "3.prems" obtain k n where kn: "(k, n) \<in> set m" "leaf_of (type_field_by (\<lambda>n. type_node n k vars) n k vars) t" by auto
  show ?case
  proof (cases "vars \<and> opaque_leaf n \<and> is_id_list_name k")
    case True
    with kn(2) show ?thesis by (simp add: type_field_by_def SCALARS_def)
  next
    case False
    with kn(2) have "leaf_of (type_node n k vars) t" by (simp add: type_field_by_def)
    from "3.IH" [OF kn(1) refl this] kn(1) show ?thesis by auto
  qed
qed

lemma type_field_leaf: "leaf_of (type_field n key vars) t \<Longrightarrow> t \<in> set SCALARS \<or> t \<noteq> UNKNOWN \<and> leaf_of n t"
  using type_node_leaf [of n key vars t] by (auto simp: type_field_def type_field_by_def SCALARS_def split: if_splits)

lemma shape_ok_leaf: "leaf_of n t \<Longrightarrow> shape_ok n \<Longrightarrow> t = UNKNOWN"
  by (induction n t rule: leaf_of.induct) auto

lemma type_node_paths: "shape_ok n \<Longrightarrow> paths (type_node n key False) = paths n"
proof (induction n arbitrary: key rule: shape_ok.induct)
  case (object m)
  then show ?case by (fastforce simp: field_paths_def type_field_by_def)
next
  case (array m)
  then show ?case by (fastforce simp: field_paths_def type_field_by_def)
qed (simp add: UNKNOWN_def)

lemma type_tree_paths:
  assumes "shapes_ok m"
  shows "field_paths (type_tree m False) = field_paths m"
proof -
  have eq: "paths (type_field n k False) = paths n" if "(k, n) \<in> set m" for k n
    using that assms type_node_paths [of n k] by (auto simp: type_field_def type_field_by_def shapes_ok_def)
  have "field_paths (type_tree m False) = (\<Union>p \<in> set m. under (fst p) (paths (type_field (snd p) (fst p) False)))"
    by (simp add: field_paths_def type_tree_def case_prod_unfold)
  also have "\<dots> = (\<Union>p \<in> set m. under (fst p) (paths (snd p)))"
    by (intro SUP_cong refl) (simp add: eq)
  finally show ?thesis by (simp add: field_paths_def case_prod_unfold)
qed

lemma type_tree_keys: "map fst (type_tree m vars) = map fst m"
  by (induction m) (auto simp: type_tree_def)

text \<open>
  C22: The response tree is exact.  Whatever the selections of an operation - nested, aliased, spread over
  fragments and conditions that reintroduce the same fields - the typed tree has strictly sorted keys,
  names no field path the selections do not select, and, when no path is selected both as one node and
  as a list of nodes, names every one of them with the right plurality; every leaf is typed as boolean,
  number or string.
\<close>

theorem response_tree_exact:
  defines "tree v \<equiv> type_tree (shape_from_selections v) False"
  shows "bt_ok (tree v) \<and> field_paths (tree v) \<subseteq> selection_paths v
    \<and> (one_kind (selection_paths v) \<longrightarrow> field_paths (tree v) = selection_paths v)
    \<and> (\<forall>k n t. (k, n) \<in> set (tree v) \<longrightarrow> leaf_of n t \<longrightarrow> t \<in> set SCALARS)"
proof -
  note s = shape_from_selections_shapes [of v, unfolded shapes_def]
  then have ok: "shapes_ok (shape_from_selections v)" by blast
  have "t \<in> set SCALARS" if kn: "(k, n) \<in> set (tree v)" and l: "leaf_of n t" for k n t
  proof -
    from kn obtain n' where n': "(k, n') \<in> set (shape_from_selections v)" "n = type_field n' k False"
      by (auto simp: tree_def type_tree_def)
    from n'(1) ok have "shape_ok n'" by (auto simp: shapes_ok_def)
    with type_field_leaf [of n' k False t] l n'(2) shape_ok_leaf [of n' t] show ?thesis by blast
  qed
  with s ok show ?thesis
    unfolding tree_def type_tree_paths [OF ok] type_tree_keys by (simp add: shapes_ok_def)
qed

theorem response_tree_exact_witness:
  "type_tree (shape_from_selections (VArr
      [VObj [(''kind'', VStr ''LinkedField''), (''name'', VStr ''group''), (''selections'', VArr
         [VObj [(''kind'', VStr ''ScalarField''), (''alias'', VNull), (''name'', VStr ''is_open'')]])],
       VObj [(''kind'', VStr ''InlineFragment''), (''selections'', VArr
         [VObj [(''kind'', VStr ''LinkedField''), (''name'', VStr ''group''), (''selections'', VArr
           [VObj [(''kind'', VStr ''ScalarField''), (''name'', VStr ''size'')]])]])]])) False
   = [(''group'', TObject [(''is_open'', TLeaf ''boolean''), (''size'', TLeaf ''number'')])]
   \<and> bt_ok (type_tree (shape_from_selections (VArr [])) False)"
proof
  show "bt_ok (type_tree (shape_from_selections (VArr [])) False)" using response_tree_exact [of "VArr []"] by blast
qed code_simp

end
