(* ===== verification/MexPresence.thy ===== *)
theory MexPresence
  imports Prelude "HOL-Library.AList"
begin

text \<open>
  The value domain of \<open>crates/wa-mex/src/presence.rs\<close>: what an expression of a caller module is kept as,
  the lexical scopes with their branch logs, and the judgement whether a value can be \<open>undefined\<close>.  The
  judgement is proved sound against an evaluation of the values: what it calls defined is a key that
  \<open>JSON.stringify\<close> writes.
\<close>

section \<open>Values\<close>

datatype pvalue =
    Defined_v | MaybeUndefined_v | Unjudged_v | Dropped_v | Truthy_v | WriteOnly_v | Read_v | Given_v | Getter_v | Null_v
  | Ref_v string
  | Object_v "pprop list"
  | Array_v "pvalue list"
  | OrElse_v pvalue pvalue
  | Coalesce_v pvalue pvalue
  | AndThen_v pvalue pvalue
  | Either_v pvalue pvalue
  | Call_v "string option"
and pprop = Key_p string pvalue | Spread_p pvalue | Unreadable_p

datatype definedness_t = Is_defined | May_be_undefined | Is_unjudged

datatype variable_presence = Always | Conditional | Undetermined

fun presence_rank :: "variable_presence \<Rightarrow> nat" where
  "presence_rank Always = 0"
| "presence_rank Conditional = 1"
| "presence_rank Undetermined = 2"

instantiation variable_presence :: linorder
begin

definition "p \<le> q \<longleftrightarrow> presence_rank p \<le> presence_rank q" for p q :: variable_presence
definition "p < q \<longleftrightarrow> presence_rank p < presence_rank q" for p q :: variable_presence

instance
proof
  show "p = q" if "p \<le> q" "q \<le> p" for p q :: variable_presence
    using that by (cases p; cases q) (auto simp: less_eq_variable_presence_def)
qed (auto simp: less_eq_variable_presence_def less_variable_presence_def)

end

definition weaker :: "variable_presence \<Rightarrow> variable_presence \<Rightarrow> variable_presence" where
  "weaker p q = max p q"

fun presence_of :: "definedness_t \<Rightarrow> variable_presence" where
  "presence_of Is_defined = Always"
| "presence_of May_be_undefined = Conditional"
| "presence_of Is_unjudged = Undetermined"

instantiation definedness_t :: linorder
begin

definition "p \<le> q \<longleftrightarrow> presence_of p \<le> presence_of q" for p q :: definedness_t
definition "p < q \<longleftrightarrow> presence_of p < presence_of q" for p q :: definedness_t

instance
proof
  show "p = q" if "p \<le> q" "q \<le> p" for p q :: definedness_t
    using that by (cases p; cases q) (auto simp: less_eq_definedness_t_def)
qed (auto simp: less_eq_definedness_t_def less_definedness_t_def)

end

definition MAX_DEPTH :: nat where "MAX_DEPTH = 12"

text \<open>Joins of values: the arms of an \<open>Either\<close> are kept apart and never repeated.\<close>

fun contains_arm :: "pvalue \<Rightarrow> pvalue \<Rightarrow> bool" where
  "contains_arm (Either_v a b) arm = (Either_v a b = arm \<or> contains_arm a arm \<or> contains_arm b arm)"
| "contains_arm v arm = (v = arm)"

definition either :: "pvalue \<Rightarrow> pvalue \<Rightarrow> pvalue" where
  "either before after =
     (if contains_arm before after then before
      else if contains_arm after before then after
      else Either_v before after)"

fun arms :: "pvalue \<Rightarrow> pvalue set" where
  "arms (Either_v a b) = arms a \<union> arms b"
| "arms v = {v}"

lemma contains_arm_arms: "contains_arm v u \<Longrightarrow> arms u \<subseteq> arms v"
  by (induction v u rule: contains_arm.induct) auto

lemma arms_either [simp]: "arms (either a b) = arms a \<union> arms b"
  by (auto simp: either_def dest: contains_arm_arms)

section \<open>Scopes\<close>

text \<open>
  A frame is a \<open>HashMap<String, Value>\<close>: an association list whose order stands for the order in which
  the map is iterated, which Rust leaves open.
\<close>

type_synonym frame = "(string \<times> pvalue) list"

record branch_write =
  bw_frame :: nat
  bw_name :: string
  bw_before :: "pvalue option"

record arm_exit =
  ae_frame :: nat
  ae_name :: string
  ae_before :: "pvalue option"
  ae_after :: "pvalue option"

record scopes =
  sc_frames :: "frame list"
  sc_frame_hoisted :: "frame list"
  sc_is_function :: "bool list"
  sc_hoisted :: frame
  sc_rewritten :: frame
  sc_branches :: "branch_write list list"
  sc_watched :: "(nat \<times> string \<times> pvalue) list list"

datatype scope_kind = Current | Function_scope | Assignment

definition f_insert :: "string \<Rightarrow> pvalue \<Rightarrow> frame \<Rightarrow> frame" where
  "f_insert k v f = AList.update k v f"

definition f_remove :: "string \<Rightarrow> frame \<Rightarrow> frame" where
  "f_remove k f = AList.delete k f"

lemma map_of_f [simp]:
  "map_of (f_insert k v f) = (map_of f)(k \<mapsto> v)" "map_of (f_remove k f) = (map_of f)(k := None)"
  by (simp_all add: f_insert_def f_remove_def update_conv' delete_conv')

definition push_frame :: "frame \<Rightarrow> bool \<Rightarrow> scopes \<Rightarrow> scopes" where
  "push_frame hoisted is_function s =
     s\<lparr>sc_frames := sc_frames s @ [[]], sc_frame_hoisted := sc_frame_hoisted s @ [hoisted],
       sc_is_function := sc_is_function s @ [is_function]\<rparr>"

definition push_scope :: "frame \<Rightarrow> scopes \<Rightarrow> scopes" where
  "push_scope hoisted = push_frame hoisted True"

definition push_block :: "scopes \<Rightarrow> scopes" where
  "push_block = push_frame [] False"

definition pop_scope :: "scopes \<Rightarrow> scopes" where
  "pop_scope s = s\<lparr>sc_frames := butlast (sc_frames s), sc_frame_hoisted := butlast (sc_frame_hoisted s),
             sc_is_function := butlast (sc_is_function s)\<rparr>"

definition rposition :: "('a \<Rightarrow> bool) \<Rightarrow> 'a list \<Rightarrow> nat option" where
  "rposition p xs = (case [i \<leftarrow> [0..<length xs]. p (xs ! i)] of [] \<Rightarrow> None | is \<Rightarrow> Some (last is))"

definition function_frame :: "scopes \<Rightarrow> nat option" where
  "function_frame s = rposition (\<lambda>x. x) (sc_is_function s)"

definition assignment_frame :: "string \<Rightarrow> scopes \<Rightarrow> nat option" where
  "assignment_frame name s =
     (case rposition (\<lambda>f. map_of f name \<noteq> None) (sc_frames s) of
        Some i \<Rightarrow> Some i
      | None \<Rightarrow> function_frame s)"

text \<open>What a frame holds under a name: its binding, or what its function hoists.\<close>

definition held :: "scopes \<Rightarrow> nat \<Rightarrow> string \<Rightarrow> pvalue option" where
  "held s i name =
     (case map_of (sc_frames s ! i) name of
        Some v \<Rightarrow> Some v
      | None \<Rightarrow> map_of (sc_frame_hoisted s ! i) name)"

definition logs :: "nat \<Rightarrow> string \<Rightarrow> branch_write list \<Rightarrow> bool" where
  "logs i name log \<longleftrightarrow> list_ex (\<lambda>w. bw_frame w = i \<and> bw_name w = name) log"

definition log_write :: "nat \<Rightarrow> string \<Rightarrow> pvalue option \<Rightarrow> branch_write list list \<Rightarrow> branch_write list list" where
  \<comment> \<open>onto the innermost log, unless the name is there\<close>
  "log_write i name before bs =
     (if bs = [] \<or> logs i name (last bs) then bs
      else butlast bs @ [last bs @ [\<lparr>bw_frame = i, bw_name = name, bw_before = before\<rparr>]])"

definition write_frame :: "nat \<Rightarrow> string \<Rightarrow> pvalue \<Rightarrow> scopes \<Rightarrow> scopes" where
  "write_frame i name v s =
     (if length (sc_frames s) \<le> i then s
      else s\<lparr>sc_branches := log_write i name (held s i name) (sc_branches s),
             sc_watched := map (\<lambda>w. w @ [(i, name, v)]) (sc_watched s),
             sc_frames := (sc_frames s)[i := f_insert name v (sc_frames s ! i)]\<rparr>)"

definition bind_in :: "string \<Rightarrow> pvalue \<Rightarrow> scope_kind \<Rightarrow> scopes \<Rightarrow> scopes" where
  "bind_in name v kind s =
     (case (case kind of
              Function_scope \<Rightarrow> function_frame s
            | Assignment \<Rightarrow> assignment_frame name s
            | Current \<Rightarrow> if sc_frames s = [] then None else Some (length (sc_frames s) - 1)) of
        None \<Rightarrow> s
      | Some i \<Rightarrow> write_frame i name v s)"

definition carry_value :: "nat \<times> string \<times> pvalue \<Rightarrow> scopes \<Rightarrow> scopes" where
  "carry_value c s =
     (case c of (i, name, v) \<Rightarrow>
        if length (sc_frames s) \<le> i then s
        else write_frame i name (case held s i name of Some before \<Rightarrow> either before v | None \<Rightarrow> v) s)"

definition carry_values :: "(nat \<times> string \<times> pvalue) list \<Rightarrow> scopes \<Rightarrow> scopes" where
  "carry_values cs s = fold carry_value cs s"

definition carry :: "arm_exit list \<Rightarrow> scopes \<Rightarrow> scopes" where
  "carry exits = carry_values (List.map_filter (\<lambda>e. map_option (\<lambda>v. (ae_frame e, ae_name e, v)) (ae_after e)) exits)"

definition watch :: "scopes \<Rightarrow> scopes" where
  "watch s = s\<lparr>sc_watched := sc_watched s @ [[]]\<rparr>"

definition take_watched :: "scopes \<Rightarrow> (nat \<times> string \<times> pvalue) list \<times> scopes" where
  "take_watched s =
     (if sc_watched s = [] then ([], s)
      else (last (sc_watched s), s\<lparr>sc_watched := butlast (sc_watched s)\<rparr>))"

text \<open>Innermost scope outward; in a function, a name the module rewrites is what the rewrites leave.\<close>

definition bound_inside :: "scopes \<Rightarrow> string \<Rightarrow> bool" where
  "bound_inside s name =
     list_ex (\<lambda>(f, h). map_of f name \<noteq> None \<or> map_of h name \<noteq> None) (zip (tl (sc_frames s)) (tl (sc_frame_hoisted s)))"

fun find_innermost :: "(frame \<times> frame) list \<Rightarrow> string \<Rightarrow> pvalue option" where
  "find_innermost [] name = None"
| "find_innermost ((f, h) # fs) name =
     (case map_of f name of
        Some v \<Rightarrow> Some v
      | None \<Rightarrow> (case map_of h name of Some v \<Rightarrow> Some v | None \<Rightarrow> find_innermost fs name))"

definition lookup :: "scopes \<Rightarrow> string \<Rightarrow> pvalue option" where
  "lookup s name =
     (if length (sc_frames s) > 1 \<and> map_of (sc_rewritten s) name \<noteq> None \<and> \<not> bound_inside s name
      then map_of (sc_rewritten s) name
      else (case find_innermost (rev (zip (sc_frames s) (sc_frame_hoisted s))) name of
              Some v \<Rightarrow> Some v
            | None \<Rightarrow> map_of (sc_hoisted s) name))"

function alias_target :: "scopes \<Rightarrow> string \<Rightarrow> nat \<Rightarrow> string" where
  "alias_target s name depth =
     (if MAX_DEPTH \<le> depth then name
      else (case lookup s name of
              Some (Ref_v target) \<Rightarrow> alias_target s target (depth + 1)
            | _ \<Rightarrow> name))"
  by pat_completeness auto
termination by (relation "measure (\<lambda>(s, name, depth). MAX_DEPTH - depth)") auto

function resolve_ref :: "scopes \<Rightarrow> pvalue \<Rightarrow> nat \<Rightarrow> pvalue" where
  "resolve_ref s v depth =
     (case v of
        Ref_v name \<Rightarrow>
          (if depth < MAX_DEPTH then (case lookup s name of Some bound \<Rightarrow> resolve_ref s bound (depth + 1) | None \<Rightarrow> v) else v)
      | _ \<Rightarrow> v)"
  by pat_completeness auto
termination by (relation "measure (\<lambda>(s, v, depth). MAX_DEPTH - depth)") auto

declare alias_target.simps [simp del] resolve_ref.simps [simp del]

definition aliases_of :: "string \<Rightarrow> scopes \<Rightarrow> (nat \<times> string) list" where
  "aliases_of name s =
     concat (map (\<lambda>i. map (\<lambda>(alias, v). (i, alias)) [p \<leftarrow> sc_frames s ! i. snd p = Ref_v name]) [0..<length (sc_frames s)])"

definition detach_aliases :: "string \<Rightarrow> scopes \<Rightarrow> scopes" where
  "detach_aliases name s =
     (let current = (case lookup s name of Some v \<Rightarrow> v | None \<Rightarrow> MaybeUndefined_v)
      in fold (\<lambda>(i, alias). write_frame i alias current) (aliases_of name s) s)"

section \<open>Branches\<close>

definition enter_branch :: "scopes \<Rightarrow> scopes" where
  "enter_branch s = s\<lparr>sc_branches := sc_branches s @ [[]]\<rparr>"

definition set_frame :: "nat \<Rightarrow> (frame \<Rightarrow> frame) \<Rightarrow> scopes \<Rightarrow> scopes" where
  "set_frame i g s = s\<lparr>sc_frames := (sc_frames s)[i := g (sc_frames s ! i)]\<rparr>"

definition undo_write :: "branch_write \<Rightarrow> arm_exit list \<times> scopes \<Rightarrow> arm_exit list \<times> scopes" where
  "undo_write w = (\<lambda>(exits, s).
     if length (sc_frames s) \<le> bw_frame w then (exits, s)
     else (exits @ [\<lparr>ae_frame = bw_frame w, ae_name = bw_name w, ae_before = bw_before w,
                     ae_after = map_of (sc_frames s ! bw_frame w) (bw_name w)\<rparr>],
           set_frame (bw_frame w)
             (\<lambda>f. case bw_before w of
                    Some v \<Rightarrow> f_insert (bw_name w) v (f_remove (bw_name w) f)
                  | None \<Rightarrow> f_remove (bw_name w) f) s))"

definition take_branch :: "scopes \<Rightarrow> arm_exit list \<times> scopes" where
  "take_branch s =
     fold undo_write (if sc_branches s = [] then [] else last (sc_branches s))
       ([], s\<lparr>sc_branches := butlast (sc_branches s)\<rparr>)"

text \<open>The exits of all arms, one per frame and name, with the number of arms that wrote it.\<close>

fun merge_exit :: "arm_exit \<Rightarrow> (arm_exit \<times> nat) list \<Rightarrow> (arm_exit \<times> nat) list" where
  "merge_exit e [] = [(e, 1)]"
| "merge_exit e ((m, n) # ms) =
     (if ae_frame m = ae_frame e \<and> ae_name m = ae_name e
      then (m\<lparr>ae_after := (case (ae_after m, ae_after e) of
                             (Some a, Some b) \<Rightarrow> Some (either a b)
                           | (Some a, None) \<Rightarrow> Some a
                           | (None, b) \<Rightarrow> b)\<rparr>, n + 1) # ms
      else (m, n) # merge_exit e ms)"

definition apply_exit :: "bool \<Rightarrow> nat \<Rightarrow> arm_exit \<times> nat \<Rightarrow> scopes \<Rightarrow> scopes" where
  "apply_exit exhaustive arm_total x s =
     (case x of (e, written) \<Rightarrow>
        if length (sc_frames s) \<le> ae_frame e then s
        else (let before = (if exhaustive \<and> written = arm_total then None else ae_before e)
              in case ae_after e of
                   None \<Rightarrow> s
                 | Some after \<Rightarrow>
                     (let v = (case before of Some w \<Rightarrow> either w after | None \<Rightarrow> after)
                      in (set_frame (ae_frame e) (f_insert (ae_name e) v) s)
                         \<lparr>sc_branches := log_write (ae_frame e) (ae_name e) before (sc_branches s)\<rparr>)))"

definition join_all_arms :: "arm_exit list list \<Rightarrow> bool \<Rightarrow> scopes \<Rightarrow> scopes" where
  "join_all_arms as exhaustive s =
     fold (apply_exit exhaustive (length as)) (fold merge_exit (concat as) []) s"

definition join_arms :: "arm_exit list \<Rightarrow> arm_exit list \<Rightarrow> scopes \<Rightarrow> scopes" where
  "join_arms first second = join_all_arms [first, second] True"

definition leave_write :: "branch_write \<Rightarrow> scopes \<Rightarrow> scopes" where
  "leave_write w s =
     (if length (sc_frames s) \<le> bw_frame w then s
      else (case bw_before w of
              None \<Rightarrow> s
            | Some before \<Rightarrow>
                (let s1 = (case map_of (sc_frames s ! bw_frame w) (bw_name w) of
                             None \<Rightarrow> s
                           | Some after \<Rightarrow> set_frame (bw_frame w)
                               (\<lambda>f. f_insert (bw_name w) (either before after) (f_remove (bw_name w) f)) s)
                 in s1\<lparr>sc_branches := log_write (bw_frame w) (bw_name w) (Some before) (sc_branches s1)\<rparr>)))"

definition leave_branch :: "scopes \<Rightarrow> scopes" where
  "leave_branch s =
     (if sc_branches s = [] then s
      else fold leave_write (last (sc_branches s)) (s\<lparr>sc_branches := butlast (sc_branches s)\<rparr>))"

section \<open>Statements\<close>

text \<open>
  The control flow of a function body as the visitor walks it, over the writes it makes: \<open>If\<close> is an \<open>if\<close>
  without \<open>else\<close> whose arm falls through, \<open>If_out\<close> one whose arm leaves, \<open>If_else\<close> carries with each arm
  whether it leaves.
\<close>

datatype stmt =
    Skip
  | Write nat string pvalue
  | Seq stmt stmt
  | If stmt
  | If_out stmt
  | If_else bool stmt bool stmt

fun walk_stmt :: "stmt \<Rightarrow> scopes \<Rightarrow> scopes" where
  "walk_stmt Skip s = s"
| "walk_stmt (Write i name v) s = write_frame i name v s"
| "walk_stmt (Seq a b) s = walk_stmt b (walk_stmt a s)"
| "walk_stmt (If c) s = leave_branch (walk_stmt c (enter_branch s))"
| "walk_stmt (If_out c) s = snd (take_branch (walk_stmt c (enter_branch s)))"
| "walk_stmt (If_else returns a alt_returns b) s =
     (let (first, s1) = take_branch (walk_stmt a (enter_branch s));
          (second, s2) = take_branch (walk_stmt b (enter_branch s1))
      in case (returns, alt_returns) of
           (True, True) \<Rightarrow> s2
         | (True, False) \<Rightarrow> join_all_arms [second] True s2
         | (False, True) \<Rightarrow> join_all_arms [first] True s2
         | (False, False) \<Rightarrow> join_arms first second s2)"

text \<open>What a run of the statement can leave, when it completes.\<close>

type_synonym store = "nat \<Rightarrow> string \<Rightarrow> pvalue option"

fun runs :: "stmt \<Rightarrow> store \<Rightarrow> store set" where
  "runs Skip \<sigma> = {\<sigma>}"
| "runs (Write i name v) \<sigma> = {\<sigma>(i := (\<sigma> i)(name \<mapsto> v))}"
| "runs (Seq a b) \<sigma> = (\<Union>\<tau> \<in> runs a \<sigma>. runs b \<tau>)"
| "runs (If c) \<sigma> = {\<sigma>} \<union> runs c \<sigma>"
| "runs (If_out c) \<sigma> = {\<sigma>}"
| "runs (If_else returns a alt_returns b) \<sigma> =
     (if returns then {} else runs a \<sigma>) \<union> (if alt_returns then {} else runs b \<sigma>)"

fun no_else :: "stmt \<Rightarrow> bool" where
  "no_else (Seq a b) = (no_else a \<and> no_else b)"
| "no_else (If c) = no_else c"
| "no_else (If_out c) = no_else c"
| "no_else (If_else _ _ _ _) = False"
| "no_else _ = True"

fun else_outermost :: "stmt \<Rightarrow> bool" where
  "else_outermost (Seq a b) = (else_outermost a \<and> else_outermost b)"
| "else_outermost (If c) = no_else c"
| "else_outermost (If_out c) = no_else c"
| "else_outermost (If_else ra a rb b) = (no_else a \<and> no_else b \<and> \<not> (ra \<and> rb))"
| "else_outermost _ = True"

fun writes :: "stmt \<Rightarrow> (nat \<times> string) list" where
  "writes (Write i name v) = [(i, name)]"
| "writes (Seq a b) = writes a @ writes b"
| "writes (If c) = writes c"
| "writes (If_out c) = writes c"
| "writes (If_else _ a _ b) = writes a @ writes b"
| "writes Skip = []"

text \<open>The written names have a binding: their function hoists them, or they were bound before.\<close>

definition declared :: "(nat \<times> string) list \<Rightarrow> scopes \<Rightarrow> bool" where
  "declared ws s \<longleftrightarrow> (\<forall>(i, name) \<in> set ws. i < length (sc_frames s) \<and> held s i name \<noteq> None)"

definition scopes_ok :: "scopes \<Rightarrow> bool" where
  "scopes_ok s \<longleftrightarrow> length (sc_frame_hoisted s) = length (sc_frames s) \<and> length (sc_is_function s) = length (sc_frames s)"

section \<open>What the branch operations do to what is held\<close>

abbreviation bw_key :: "branch_write \<Rightarrow> nat \<times> string" where
  "bw_key w \<equiv> (bw_frame w, bw_name w)"

abbreviation ae_key :: "arm_exit \<Rightarrow> nat \<times> string" where
  "ae_key e \<equiv> (ae_frame e, ae_name e)"

definition held_at :: "scopes \<Rightarrow> nat \<times> string \<Rightarrow> pvalue option" where
  "held_at s k = held s (fst k) (snd k)"

text \<open>A fold of updates under distinct keys.\<close>

lemma fold_keyed:
  assumes "\<And>w t k. w \<in> set ws \<Longrightarrow> P t \<Longrightarrow> P (f w t)"
    and "\<And>w t k. w \<in> set ws \<Longrightarrow> P t \<Longrightarrow> look (f w t) k = (if k = key w then g w (look t k) else look t k)"
    and "distinct (map key ws)" "P t"
  shows "P (fold f ws t) \<and>
    look (fold f ws t) k = (case find (\<lambda>w. key w = k) ws of None \<Rightarrow> look t k | Some w \<Rightarrow> g w (look t k))"
  using assms
proof (induction ws arbitrary: t)
  case (Cons w ws)
  have P: "P (f w t)" using Cons.prems by simp
  have IH: "P (fold f ws (f w t)) \<and>
      look (fold f ws (f w t)) k = (case find (\<lambda>w. key w = k) ws of None \<Rightarrow> look (f w t) k | Some w' \<Rightarrow> g w' (look (f w t) k))"
    by (rule Cons.IH) (use Cons.prems P in auto)
  have lk: "look (f w t) k = (if k = key w then g w (look t k) else look t k)" using Cons.prems by simp
  have "find (\<lambda>w. key w = k) ws = None" if "key w = k"
    using Cons.prems(3) that by (simp add: find_None_iff image_iff) metis
  with IH lk show ?case by (auto split: option.split)
qed simp

lemma held_set_frame:
  "i < length (sc_frames s) \<Longrightarrow>
   held (set_frame i g s) j name =
     (if j = i then (case map_of (g (sc_frames s ! i)) name of Some v \<Rightarrow> Some v | None \<Rightarrow> map_of (sc_frame_hoisted s ! i) name)
      else held s j name)"
  by (auto simp: held_def set_frame_def split: option.split)

lemma set_frame_same [simp]:
  "length (sc_frames (set_frame i g s)) = length (sc_frames s)" "sc_frame_hoisted (set_frame i g s) = sc_frame_hoisted s"
  "sc_branches (set_frame i g s) = sc_branches s" "sc_is_function (set_frame i g s) = sc_is_function s"
  by (simp_all add: set_frame_def)

lemma held_branches [simp]: "held (s\<lparr>sc_branches := bs\<rparr>) i name = held s i name"
  by (simp add: held_def split: option.split)

definition same_shape :: "scopes \<Rightarrow> scopes \<Rightarrow> bool" where
  "same_shape s t \<longleftrightarrow> length (sc_frames t) = length (sc_frames s) \<and> sc_frame_hoisted t = sc_frame_hoisted s
     \<and> sc_is_function t = sc_is_function s"

lemma write_frame_held:
  assumes "i < length (sc_frames s)"
  shows "held_at (write_frame i name v s) k = (if k = (i, name) then Some v else held_at s k)"
    "same_shape s (write_frame i name v s)"
    "sc_branches (write_frame i name v s) = log_write i name (held s i name) (sc_branches s)"
    "map_of (sc_frames (write_frame i name v s) ! i) name = Some v"
    "j < length (sc_frames s) \<Longrightarrow> map_of (sc_frames s ! j) n \<noteq> None \<Longrightarrow> map_of (sc_frames (write_frame i name v s) ! j) n \<noteq> None"
  using assms
  by (auto simp: write_frame_def held_def held_at_def same_shape_def nth_list_update prod_eq_iff split: option.split)

text \<open>The log of an open branch: each name once, with what it held when the branch began.\<close>

definition bound_in :: "scopes \<Rightarrow> nat \<times> string \<Rightarrow> bool" where
  "bound_in s k \<longleftrightarrow> fst k < length (sc_frames s) \<and> map_of (sc_frames s ! fst k) (snd k) \<noteq> None"

definition branch_log :: "scopes \<Rightarrow> scopes \<Rightarrow> branch_write list \<Rightarrow> bool" where
  "branch_log s0 s log \<longleftrightarrow> same_shape s0 s \<and> distinct (map bw_key log)
     \<and> (\<forall>w \<in> set log. bound_in s (bw_key w) \<and> bw_before w = held_at s0 (bw_key w) \<and> held_at s0 (bw_key w) \<noteq> None)
     \<and> (\<forall>k. k \<notin> bw_key ` set log \<longrightarrow> held_at s k = held_at s0 k)
     \<and> (\<forall>k. bound_in s0 k \<longrightarrow> bound_in s k)"

lemma logs_iff: "logs i name log \<longleftrightarrow> (i, name) \<in> bw_key ` set log"
  by (auto simp: logs_def list_ex_iff)

lemma branch_log_write:
  assumes "branch_log s0 s log" "sc_branches s = bs @ [log]" "i < length (sc_frames s)" "held s0 i name \<noteq> None"
  shows "\<exists>log'. sc_branches (write_frame i name v s) = bs @ [log'] \<and> branch_log s0 (write_frame i name v s) log'"
proof -
  let ?t = "write_frame i name v s" and ?w = "\<lparr>bw_frame = i, bw_name = name, bw_before = held s i name\<rparr>"
  define log' where "log' = (if logs i name log then log else log @ [?w])"
  note wf = write_frame_held [OF assms(3)]
  have 1: "sc_branches ?t = bs @ [log']"
    unfolding wf(3) by (simp add: assms(2) log_write_def log'_def)
  have "held s i name = held s0 i name" if "\<not> logs i name log"
    using assms(1) that by (auto simp: branch_log_def logs_iff held_at_def)
  then have "branch_log s0 ?t log'"
    using assms(1,3,4) wf(1,2,4,5)
    by (auto simp: branch_log_def log'_def logs_iff bound_in_def held_at_def same_shape_def)
  with 1 show ?thesis by blast
qed

lemma bound_in_set_frame:
  assumes "bound_in s k" "i < length (sc_frames s)" "\<And>n. map_of f n \<noteq> None \<Longrightarrow> map_of (g f) n \<noteq> None" "f = sc_frames s ! i"
  shows "bound_in (set_frame i g s) k"
  using assms by (auto simp: bound_in_def set_frame_def nth_list_update)

lemma leave_write_step:
  assumes "bound_in s (bw_key w)" "bw_before w = Some before"
  shows "same_shape s (leave_write w s)" "bound_in s k \<Longrightarrow> bound_in (leave_write w s) k"
    "held_at (leave_write w s) k = (if k = bw_key w then map_option (either before) (held_at s k) else held_at s k)"
    "sc_branches (leave_write w s) = log_write (bw_frame w) (bw_name w) (Some before) (sc_branches s)"
proof -
  obtain after where a: "map_of (sc_frames s ! bw_frame w) (bw_name w) = Some after" "bw_frame w < length (sc_frames s)"
    using assms(1) by (auto simp: bound_in_def)
  let ?t = "set_frame (bw_frame w) (\<lambda>f. f_insert (bw_name w) (either before after) (f_remove (bw_name w) f)) s"
  have l: "leave_write w s = ?t\<lparr>sc_branches := log_write (bw_frame w) (bw_name w) (Some before) (sc_branches s)\<rparr>"
    using a by (simp add: leave_write_def assms(2))
  show "same_shape s (leave_write w s)" by (simp add: l same_shape_def)
  show "bound_in s k \<Longrightarrow> bound_in (leave_write w s) k"
    using bound_in_set_frame [of s k "bw_frame w" _ "\<lambda>f. f_insert (bw_name w) (either before after) (f_remove (bw_name w) f)"] a(2)
    by (simp add: l bound_in_def)
  show "held_at (leave_write w s) k = (if k = bw_key w then map_option (either before) (held_at s k) else held_at s k)"
    using a by (auto simp: l held_at_def held_set_frame prod_eq_iff) (auto simp: held_def split: option.split)
  show "sc_branches (leave_write w s) = log_write (bw_frame w) (bw_name w) (Some before) (sc_branches s)"
    by (simp add: l)
qed

lemma same_shape_trans: "same_shape r s \<Longrightarrow> same_shape s t \<Longrightarrow> same_shape r t"
  by (simp add: same_shape_def)

lemma leave_branch_held:
  assumes "branch_log s0 s log" "sc_branches s = bs @ [log]"
  shows "same_shape s0 (leave_branch s)"
    "bound_in s k \<Longrightarrow> bound_in (leave_branch s) k"
    "held_at (leave_branch s) k =
       (if k \<in> bw_key ` set log
        then (case (held_at s0 k, held_at s k) of (Some b, Some a) \<Rightarrow> Some (either b a) | _ \<Rightarrow> None) else held_at s k)"
    "sc_branches (leave_branch s) = fold (\<lambda>w. log_write (bw_frame w) (bw_name w) (bw_before w)) log bs"
proof -
  let ?s = "s\<lparr>sc_branches := bs\<rparr>"
  define P where "P t \<longleftrightarrow> same_shape s t \<and> (\<forall>k. bound_in s k \<longrightarrow> bound_in t k) \<and> (\<forall>w \<in> set log. bound_in t (bw_key w))" for t
  have log: "\<forall>w \<in> set log. \<exists>b. bw_before w = Some b \<and> held_at s0 (bw_key w) = Some b" "distinct (map bw_key log)"
    "same_shape s0 s" "\<forall>w \<in> set log. bound_in s (bw_key w)"
    using assms(1) by (auto simp: branch_log_def)
  have P0: "P ?s" using log(4) by (auto simp: P_def same_shape_def bound_in_def)
  have 1: "P (leave_write w t)" if "w \<in> set log" "P t" for w t
  proof -
    obtain b where "bw_before w = Some b" using log(1) \<open>w \<in> set log\<close> by blast
    from leave_write_step(1,2) [OF _ this, of t] that show ?thesis
      unfolding P_def by (blast intro: same_shape_trans)
  qed
  have 2: "held_at (leave_write w t) k
      = (if k = bw_key w then map_option (either (the (bw_before w))) (held_at t k) else held_at t k)"
    if "w \<in> set log" "P t" for w t k
  proof -
    obtain b where b: "bw_before w = Some b" using log(1) \<open>w \<in> set log\<close> by blast
    from leave_write_step(3) [OF _ b, of t k] that show ?thesis unfolding P_def by (simp add: b)
  qed
  have leave: "leave_branch s = fold leave_write log ?s" by (simp add: leave_branch_def assms(2))
  have f: "P (leave_branch s) \<and> held_at (leave_branch s) k =
      (case find (\<lambda>w. bw_key w = k) log of
         None \<Rightarrow> held_at ?s k | Some w \<Rightarrow> map_option (either (the (bw_before w))) (held_at ?s k))"
    unfolding leave by (rule fold_keyed [OF 1 2 log(2) P0])
  then show "same_shape s0 (leave_branch s)" using log(3) by (auto simp: P_def intro: same_shape_trans)
  show "bound_in s k \<Longrightarrow> bound_in (leave_branch s) k" using f unfolding P_def by blast
  have hs: "held_at ?s k = held_at s k" by (simp add: held_at_def)
  show "held_at (leave_branch s) k =
       (if k \<in> bw_key ` set log
        then (case (held_at s0 k, held_at s k) of (Some b, Some a) \<Rightarrow> Some (either b a) | _ \<Rightarrow> None) else held_at s k)"
  proof (cases "find (\<lambda>w. bw_key w = k) log")
    case None
    then have "k \<notin> bw_key ` set log" by (auto simp: find_None_iff)
    with f None hs show ?thesis by simp
  next
    case (Some w)
    then have w: "w \<in> set log" "bw_key w = k" by (auto simp: find_Some_iff)
    then have "k \<in> bw_key ` set log" by blast
    with f Some hs log(1) w show ?thesis by (auto split: option.split)
  qed
  have "sc_branches (fold leave_write ws t) = fold (\<lambda>w. log_write (bw_frame w) (bw_name w) (bw_before w)) ws (sc_branches t)"
    if "set ws \<subseteq> set log" "P t" for ws t
    using that
  proof (induction ws arbitrary: t)
    case (Cons w ws)
    then obtain b where b: "bw_before w = Some b" using log(1) by auto
    with leave_write_step(4) [OF _ b, of t] Cons.prems have "sc_branches (leave_write w t)
        = log_write (bw_frame w) (bw_name w) (bw_before w) (sc_branches t)" by (simp add: P_def)
    with Cons 1 show ?case by simp
  qed simp
  from this [of log ?s] P0 show "sc_branches (leave_branch s) = fold (\<lambda>w. log_write (bw_frame w) (bw_name w) (bw_before w)) log bs"
    by (simp add: leave)
qed

definition exit_of :: "scopes \<Rightarrow> branch_write \<Rightarrow> arm_exit" where
  "exit_of s w = \<lparr>ae_frame = bw_frame w, ae_name = bw_name w, ae_before = bw_before w, ae_after = held_at s (bw_key w)\<rparr>"

lemma undo_write_step:
  assumes "bound_in s (bw_key w)" "bw_before w = Some before"
  shows "undo_write w (es, s) = (es @ [exit_of s w], snd (undo_write w (es, s)))"
    "same_shape s (snd (undo_write w (es, s)))" "bound_in s k \<Longrightarrow> bound_in (snd (undo_write w (es, s))) k"
    "held_at (snd (undo_write w (es, s))) k = (if k = bw_key w then Some before else held_at s k)"
    "sc_branches (snd (undo_write w (es, s))) = sc_branches s"
proof -
  let ?t = "set_frame (bw_frame w) (\<lambda>f. f_insert (bw_name w) before (f_remove (bw_name w) f)) s"
  have i: "bw_frame w < length (sc_frames s)" "map_of (sc_frames s ! bw_frame w) (bw_name w) = held_at s (bw_key w)"
    using assms(1) by (auto simp: bound_in_def held_at_def held_def)
  have u: "undo_write w (es, s) = (es @ [exit_of s w], ?t)"
    using i by (simp add: undo_write_def exit_of_def assms(2))
  then show "undo_write w (es, s) = (es @ [exit_of s w], snd (undo_write w (es, s)))" by simp
  show "same_shape s (snd (undo_write w (es, s)))" by (simp add: u same_shape_def)
  show "bound_in s k \<Longrightarrow> bound_in (snd (undo_write w (es, s))) k"
    using bound_in_set_frame [of s k "bw_frame w" _ "\<lambda>f. f_insert (bw_name w) before (f_remove (bw_name w) f)"] i(1)
    by (simp add: u)
  show "held_at (snd (undo_write w (es, s))) k = (if k = bw_key w then Some before else held_at s k)"
    using i(1) by (auto simp: u held_at_def held_set_frame prod_eq_iff) (auto simp: held_def split: option.split)
  show "sc_branches (snd (undo_write w (es, s))) = sc_branches s" by (simp add: u)
qed

lemma take_branch_held:
  assumes "branch_log s0 s log" "sc_branches s = bs @ [log]"
  shows "fst (take_branch s) = map (exit_of s) log" "same_shape s0 (snd (take_branch s))"
    "held_at (snd (take_branch s)) k = held_at s0 k" "sc_branches (snd (take_branch s)) = bs"
    "bound_in s k \<Longrightarrow> bound_in (snd (take_branch s)) k"
proof -
  let ?s = "s\<lparr>sc_branches := bs\<rparr>"
  define P where "P x \<longleftrightarrow> same_shape s (snd x) \<and> sc_branches (snd x) = bs \<and> (\<forall>k. bound_in s k \<longrightarrow> bound_in (snd x) k)
      \<and> (\<forall>w \<in> set log. bound_in (snd x) (bw_key w))" for x :: "arm_exit list \<times> scopes"
  have log: "\<forall>w \<in> set log. \<exists>b. bw_before w = Some b \<and> held_at s0 (bw_key w) = Some b" "distinct (map bw_key log)"
    "same_shape s0 s" "\<forall>w \<in> set log. bound_in s (bw_key w)" "\<forall>k. k \<notin> bw_key ` set log \<longrightarrow> held_at s k = held_at s0 k"
    using assms(1) by (auto simp: branch_log_def)
  have P0: "P (es, ?s)" for es using log(4) by (auto simp: P_def same_shape_def bound_in_def)
  have step: "P (undo_write w x)" "undo_write w x = (fst x @ [exit_of (snd x) w], snd (undo_write w x))"
    "held_at (snd (undo_write w x)) k = (if k = bw_key w then bw_before w else held_at (snd x) k)"
    if wl: "w \<in> set log" and "P x" for w x k
  proof -
    obtain es t where x: "x = (es, t)" by fastforce
    obtain b where b: "bw_before w = Some b" using log(1) wl by blast
    have bt: "bound_in t (bw_key w)" using that by (auto simp: P_def x)
    note u = undo_write_step [OF bt b, where es = es]
    have "same_shape s (snd (undo_write w (es, t)))"
      using that(2) same_shape_trans [OF _ u(2)] unfolding P_def x snd_conv by blast
    moreover have "sc_branches (snd (undo_write w (es, t))) = bs" using that(2) unfolding P_def x snd_conv u(5) by blast
    ultimately show "P (undo_write w x)" using that(2) u(3) unfolding P_def x snd_conv by blast
    show "undo_write w x = (fst x @ [exit_of (snd x) w], snd (undo_write w x))" using u(1) by (simp add: x)
    show "held_at (snd (undo_write w x)) k = (if k = bw_key w then bw_before w else held_at (snd x) k)"
      using u(4) [of k] by (simp add: x b)
  qed
  have take: "take_branch s = fold undo_write log ([], ?s)" by (simp add: take_branch_def assms(2))
  have f: "P (take_branch s) \<and> held_at (snd (take_branch s)) k =
      (case find (\<lambda>w. bw_key w = k) log of None \<Rightarrow> held_at ?s k | Some w \<Rightarrow> bw_before w)"
    using fold_keyed [where look = "\<lambda>x. held_at (snd x)" and g = "\<lambda>w _. bw_before w" and t = "([], ?s)" and k = k,
        OF step(1,3) log(2) P0]
    unfolding take snd_conv .
  then show "same_shape s0 (snd (take_branch s))" "sc_branches (snd (take_branch s)) = bs"
    "bound_in s k \<Longrightarrow> bound_in (snd (take_branch s)) k"
    using same_shape_trans [OF log(3)] unfolding P_def by blast+
  have hs: "held_at ?s k = held_at s k" for k by (simp add: held_at_def)
  show "held_at (snd (take_branch s)) k = held_at s0 k"
  proof (cases "find (\<lambda>w. bw_key w = k) log")
    case None
    then have "k \<notin> bw_key ` set log" by (auto simp: find_None_iff)
    with f None hs log(5) show ?thesis by simp
  next
    case (Some w)
    then have w: "w \<in> set log" "bw_key w = k" by (auto simp: find_Some_iff)
    with f Some log(1) show ?thesis by auto
  qed
  have "fst (fold undo_write ws x) = fst x @ map (exit_of (snd x)) ws" if "set ws \<subseteq> set log" "distinct (map bw_key ws)" "P x" for ws x
    using that
  proof (induction ws arbitrary: x)
    case (Cons w ws)
    let ?x = "undo_write w x"
    have "exit_of (snd ?x) w' = exit_of (snd x) w'" if "w' \<in> set ws" for w'
    proof -
      have "bw_key w \<notin> bw_key ` set ws" using Cons.prems(2) by simp
      moreover have "bw_key w' \<in> bw_key ` set ws" using that by (rule imageI)
      ultimately have "bw_key w' \<noteq> bw_key w" by (intro notI) (simp only:)
      then show ?thesis using Cons.prems(1,3) step(3) [of w x "bw_key w'"] by (auto simp: exit_of_def)
    qed
    moreover have "fst (fold undo_write ws ?x) = fst ?x @ map (exit_of (snd ?x)) ws"
      using Cons step(1) by simp
    moreover have "fst ?x = fst x @ [exit_of (snd x) w]"
      by (rule arg_cong [OF step(2), of w x fst, simplified fst_conv]) (use Cons.prems in simp_all)
    ultimately show ?case by simp
  qed simp
  from this [of log "([], ?s)"] log(2) P0 have "fst (take_branch s) = map (exit_of ?s) log" by (simp add: take)
  then show "fst (take_branch s) = map (exit_of s) log" by (simp add: exit_of_def hs)
qed

text \<open>The exits of all arms under a name.\<close>

definition exit_at :: "nat \<times> string \<Rightarrow> arm_exit list \<Rightarrow> arm_exit option" where
  "exit_at k es = find (\<lambda>e. ae_key e = k) es"

definition merged_at :: "nat \<times> string \<Rightarrow> (arm_exit \<times> nat) list \<Rightarrow> (arm_exit \<times> nat) option" where
  "merged_at k ms = find (\<lambda>m. ae_key (fst m) = k) ms"

definition after_join :: "pvalue option \<Rightarrow> pvalue option \<Rightarrow> pvalue option" where
  "after_join x y = (case (x, y) of (Some a, Some b) \<Rightarrow> Some (either a b) | (Some a, None) \<Rightarrow> Some a | (None, b) \<Rightarrow> b)"

lemma merge_exit_at:
  "merged_at k (merge_exit e ms) =
     (if k = ae_key e
      then Some (case merged_at k ms of None \<Rightarrow> (e, 1) | Some (m, n) \<Rightarrow> (m\<lparr>ae_after := after_join (ae_after m) (ae_after e)\<rparr>, n + 1))
      else merged_at k ms)"
proof (induction ms)
  case (Cons p ms)
  obtain m n where p: "p = (m, n)" by fastforce
  from Cons show ?case unfolding p merged_at_def after_join_def by auto
qed (auto simp: merged_at_def)

lemma merge_exit_key_sets:
  "(\<lambda>m. ae_key (fst m)) ` set (merge_exit e ms) = insert (ae_key e) ((\<lambda>m. ae_key (fst m)) ` set ms)"
  by (induction e ms rule: merge_exit.induct) auto

lemma merge_exit_distinct:
  "distinct (map (\<lambda>m. ae_key (fst m)) ms) \<Longrightarrow> distinct (map (\<lambda>m. ae_key (fst m)) (merge_exit e ms))"
proof (induction e ms rule: merge_exit.induct)
  case (2 e m n ms)
  have "ae_key m \<notin> (\<lambda>m. ae_key (fst m)) ` set (merge_exit e ms)" if "ae_key m \<noteq> ae_key e"
    using 2(2) that by (auto simp: merge_exit_key_sets)
  with 2 show ?case by (cases "ae_key m = ae_key e") auto
qed simp

lemma merge_exits_at:
  assumes "distinct (map ae_key es)"
  shows "merged_at k (fold merge_exit es ms) =
     (case exit_at k es of
        None \<Rightarrow> merged_at k ms
      | Some e \<Rightarrow> Some (case merged_at k ms of None \<Rightarrow> (e, 1)
          | Some (m, n) \<Rightarrow> (m\<lparr>ae_after := after_join (ae_after m) (ae_after e)\<rparr>, n + 1)))"
  using assms
proof (induction es arbitrary: ms)
  case Nil
  then show ?case by (simp add: exit_at_def)
next
  case (Cons e es)
  show ?case
  proof (cases "k = ae_key e")
    case True
    then have "exit_at k es = None" using Cons.prems by (auto simp: exit_at_def find_None_iff image_iff)
    then show ?thesis using Cons True by (simp add: merge_exit_at exit_at_def)
  next
    case False
    then have e: "exit_at k (e # es) = exit_at k es" by (auto simp: exit_at_def)
    have m: "merged_at k (merge_exit e ms) = merged_at k ms" by (simp add: merge_exit_at False)
    show ?thesis using Cons.IH [of "merge_exit e ms"] Cons.prems unfolding e m by simp
  qed
qed

lemma merge_exits_distinct:
  "distinct (map (\<lambda>m. ae_key (fst m)) ms) \<Longrightarrow> distinct (map (\<lambda>m. ae_key (fst m)) (fold merge_exit es ms))"
  by (induction es arbitrary: ms) (simp_all add: merge_exit_distinct)

definition joined :: "bool \<Rightarrow> nat \<Rightarrow> arm_exit \<times> nat \<Rightarrow> pvalue option \<Rightarrow> pvalue option" where
  "joined exhaustive arm_total m h =
     (case ae_after (fst m) of
        None \<Rightarrow> h
      | Some after \<Rightarrow>
          Some (case (if exhaustive \<and> snd m = arm_total then None else ae_before (fst m)) of
                  Some w \<Rightarrow> either w after | None \<Rightarrow> after))"

lemma held_set_insert:
  "i < length (sc_frames s) \<Longrightarrow> held_at (set_frame i (f_insert n v) s) k = (if k = (i, n) then Some v else held_at s k)"
  by (cases k) (auto simp: held_at_def held_def set_frame_def nth_list_update split: option.split)

lemma apply_exit_step:
  assumes "ae_frame (fst m) < length (sc_frames s)"
  shows "same_shape s (apply_exit exhaustive arm_total m s)"
    "held_at (apply_exit exhaustive arm_total m s) k
     = (if k = ae_key (fst m) then joined exhaustive arm_total m (held_at s k) else held_at s k)"
    "sc_branches s = [] \<Longrightarrow> sc_branches (apply_exit exhaustive arm_total m s) = []"
proof -
  obtain e n where m: "m = (e, n)" by fastforce
  have i: "ae_frame e < length (sc_frames s)" using assms by (simp add: m)
  define before where "before = (if exhaustive \<and> n = arm_total then None else ae_before e)"
  show "same_shape s (apply_exit exhaustive arm_total m s)"
    "held_at (apply_exit exhaustive arm_total m s) k
     = (if k = ae_key (fst m) then joined exhaustive arm_total m (held_at s k) else held_at s k)"
    "sc_branches s = [] \<Longrightarrow> sc_branches (apply_exit exhaustive arm_total m s) = []"
  proof (atomize (full), cases "ae_after e")
    case None
    then have "apply_exit exhaustive arm_total m s = s" by (simp add: apply_exit_def m)
    then show "same_shape s (apply_exit exhaustive arm_total m s) \<and>
      held_at (apply_exit exhaustive arm_total m s) k
       = (if k = ae_key (fst m) then joined exhaustive arm_total m (held_at s k) else held_at s k) \<and>
      (sc_branches s = [] \<longrightarrow> sc_branches (apply_exit exhaustive arm_total m s) = [])"
      by (simp add: joined_def m None same_shape_def)
  next
    case (Some after)
    define v where "v = (case before of Some w \<Rightarrow> either w after | None \<Rightarrow> after)"
    let ?t = "set_frame (ae_frame e) (f_insert (ae_name e) v) s"
    have a: "apply_exit exhaustive arm_total m s
        = ?t\<lparr>sc_branches := log_write (ae_frame e) (ae_name e) before (sc_branches s)\<rparr>"
      using i by (simp add: apply_exit_def m Some v_def before_def Let_def)
    have j: "joined exhaustive arm_total m h = Some v" for h
      by (simp add: joined_def m Some v_def before_def)
    have h: "held_at ?t k = (if k = ae_key e then Some v else held_at s k)"
      by (rule held_set_insert [OF i])
    show "same_shape s (apply_exit exhaustive arm_total m s) \<and>
      held_at (apply_exit exhaustive arm_total m s) k
       = (if k = ae_key (fst m) then joined exhaustive arm_total m (held_at s k) else held_at s k) \<and>
      (sc_branches s = [] \<longrightarrow> sc_branches (apply_exit exhaustive arm_total m s) = [])"
      unfolding a j using h by (simp add: m same_shape_def log_write_def held_at_def)
  qed
qed

lemma join_all_arms_held:
  assumes "\<forall>e \<in> set (concat as). ae_frame e < length (sc_frames s)" "sc_branches s = []"
  shows "same_shape s (join_all_arms as exhaustive s)" "sc_branches (join_all_arms as exhaustive s) = []"
    "held_at (join_all_arms as exhaustive s) k =
      (case merged_at k (fold merge_exit (concat as) []) of
         None \<Rightarrow> held_at s k | Some m \<Rightarrow> joined exhaustive (length as) m (held_at s k))"
proof -
  let ?ms = "fold merge_exit (concat as) []"
  define P where "P t \<longleftrightarrow> same_shape s t \<and> sc_branches t = []" for t
  have keys: "(\<lambda>m. ae_key (fst m)) ` set (fold merge_exit es ms) = ae_key ` set es \<union> (\<lambda>m. ae_key (fst m)) ` set ms" for es ms
    by (induction es arbitrary: ms) (auto simp: merge_exit_key_sets)
  have fr: "ae_frame (fst m) < length (sc_frames t)" if "m \<in> set ?ms" "P t" for m t
  proof -
    have "ae_key (fst m) \<in> ae_key ` set (concat as)" using that(1) keys [of "concat as" "[]"] by auto
    with assms(1) that(2) show ?thesis by (auto simp: P_def same_shape_def)
  qed
  have 1: "P (apply_exit exhaustive (length as) m t)" if "m \<in> set ?ms" "P t" for m t
    using apply_exit_step(1,3) [OF fr [OF that]] that(2) unfolding P_def by (blast intro: same_shape_trans)
  have P0: "P s" using assms(2) by (simp add: P_def same_shape_def)
  have f: "P (join_all_arms as exhaustive s) \<and> held_at (join_all_arms as exhaustive s) k =
      (case find (\<lambda>m. ae_key (fst m) = k) ?ms of
         None \<Rightarrow> held_at s k | Some m \<Rightarrow> joined exhaustive (length as) m (held_at s k))"
    unfolding join_all_arms_def
  proof (rule fold_keyed [where P = P and look = held_at and key = "\<lambda>m. ae_key (fst m)" and g = "joined exhaustive (length as)"])
    show "held_at (apply_exit exhaustive (length as) m t) k
        = (if k = ae_key (fst m) then joined exhaustive (length as) m (held_at t k) else held_at t k)"
      if "m \<in> set ?ms" "P t" for m t k by (rule apply_exit_step(2) [OF fr [OF that]])
    show "distinct (map (\<lambda>m. ae_key (fst m)) ?ms)" by (rule merge_exits_distinct) simp
  qed (use 1 P0 in blast)+
  then show "same_shape s (join_all_arms as exhaustive s)" "sc_branches (join_all_arms as exhaustive s) = []"
    by (simp_all add: P_def)
  show "held_at (join_all_arms as exhaustive s) k =
      (case merged_at k ?ms of None \<Rightarrow> held_at s k | Some m \<Rightarrow> joined exhaustive (length as) m (held_at s k))"
    using f by (simp add: merged_at_def)
qed

section \<open>Walking statements\<close>

text \<open>The inner log joins the outer one when the inner branch ends.\<close>

lemma log_writes_onto:
  "\<exists>log'. fold (\<lambda>w. log_write (bw_frame w) (bw_name w) (bw_before w)) ws (bs @ [log]) = bs @ [log']
     \<and> bw_key ` set log' = bw_key ` set log \<union> bw_key ` set ws
     \<and> (distinct (map bw_key log) \<longrightarrow> distinct (map bw_key log'))
     \<and> (\<forall>w \<in> set log'. w \<in> set log \<or> bw_key w \<notin> bw_key ` set log \<and> (\<exists>v \<in> set ws. bw_key v = bw_key w \<and> bw_before v = bw_before w))"
proof (induction ws arbitrary: log)
  case Nil
  then show ?case by (intro exI [of _ log]) simp
next
  case (Cons w ws)
  show ?case
  proof (cases "logs (bw_frame w) (bw_name w) log")
    case True
    then have step: "log_write (bw_frame w) (bw_name w) (bw_before w) (bs @ [log]) = bs @ [log]" by (simp add: log_write_def)
    have kw: "bw_key w \<in> bw_key ` set log" using True by (simp add: logs_iff)
    from Cons.IH [of log] obtain log' where l:
      "fold (\<lambda>w. log_write (bw_frame w) (bw_name w) (bw_before w)) ws (bs @ [log]) = bs @ [log']"
      "bw_key ` set log' = bw_key ` set log \<union> bw_key ` set ws"
      "distinct (map bw_key log) \<longrightarrow> distinct (map bw_key log')"
      "\<forall>u \<in> set log'. u \<in> set log \<or> bw_key u \<notin> bw_key ` set log \<and> (\<exists>v \<in> set ws. bw_key v = bw_key u \<and> bw_before v = bw_before u)"
      by blast
    have "bw_key ` set log' = bw_key ` set log \<union> bw_key ` set (w # ws)"
      unfolding l(2) using kw by (simp add: insert_absorb)
    moreover have "u \<in> set log \<or> bw_key u \<notin> bw_key ` set log \<and> (\<exists>v \<in> set (w # ws). bw_key v = bw_key u \<and> bw_before v = bw_before u)"
      if "u \<in> set log'" for u
      using l(4) [rule_format, OF that] by (meson list.set_intros(2))
    ultimately show ?thesis using l(1,3) by (simp only: fold_simps step) blast
  next
    case False
    let ?w = "\<lparr>bw_frame = bw_frame w, bw_name = bw_name w, bw_before = bw_before w\<rparr>"
    from False have step: "log_write (bw_frame w) (bw_name w) (bw_before w) (bs @ [log]) = bs @ [log @ [?w]]" by (simp add: log_write_def)
    have nk: "bw_key w \<notin> bw_key ` set log" using False by (simp add: logs_iff)
    from Cons.IH [of "log @ [?w]"] obtain log' where l:
      "fold (\<lambda>w. log_write (bw_frame w) (bw_name w) (bw_before w)) ws (bs @ [log @ [?w]]) = bs @ [log']"
      "bw_key ` set log' = bw_key ` set (log @ [?w]) \<union> bw_key ` set ws"
      "distinct (map bw_key (log @ [?w])) \<longrightarrow> distinct (map bw_key log')"
      "\<forall>u \<in> set log'. u \<in> set (log @ [?w]) \<or> bw_key u \<notin> bw_key ` set (log @ [?w]) \<and> (\<exists>v \<in> set ws. bw_key v = bw_key u \<and> bw_before v = bw_before u)"
      by blast
    have "bw_key ` set log' = bw_key ` set log \<union> bw_key ` set (w # ws)" using l(2) by auto
    moreover have "distinct (map bw_key log) \<longrightarrow> distinct (map bw_key log')" using l(3) nk by simp
    moreover have "u \<in> set log \<or> bw_key u \<notin> bw_key ` set log \<and> (\<exists>v \<in> set (w # ws). bw_key v = bw_key u \<and> bw_before v = bw_before u)"
      if "u \<in> set log'" for u
      using l(4) [rule_format, OF that] nk by auto
    ultimately show ?thesis using l(1) by (simp only: fold_simps step) blast
  qed
qed

definition grows :: "scopes \<Rightarrow> scopes \<Rightarrow> bool" where
  "grows s t \<longleftrightarrow> same_shape s t \<and> (\<forall>k. bound_in s k \<longrightarrow> bound_in t k)"

lemma branch_log_enter: "branch_log s (enter_branch s) []" "sc_branches (enter_branch s) = sc_branches s @ [[]]"
  by (simp_all add: branch_log_def enter_branch_def same_shape_def held_at_def bound_in_def)

lemma held_at_enter: "held_at (enter_branch s) k = held_at s k"
  by (simp add: enter_branch_def held_at_def)

lemma branch_log_shape: "branch_log s0 s log \<Longrightarrow> same_shape s0 s"
  by (simp add: branch_log_def)

text \<open>A branch inside a branch, joined or discarded, keeps the log of the outer one.\<close>

lemma nested_leave:
  assumes "branch_log r0 s L" "sc_branches s = bs @ [L]"
    and "branch_log s t log" "sc_branches t = sc_branches s @ [log]"
  shows "\<exists>L'. sc_branches (leave_branch t) = bs @ [L'] \<and> branch_log r0 (leave_branch t) L'"
proof -
  note lb = leave_branch_held [OF assms(3,4)]
  obtain L' where L': "sc_branches (leave_branch t) = bs @ [L']" "bw_key ` set L' = bw_key ` set L \<union> bw_key ` set log"
    "distinct (map bw_key L) \<longrightarrow> distinct (map bw_key L')"
    "\<forall>w \<in> set L'. w \<in> set L \<or> bw_key w \<notin> bw_key ` set L \<and> (\<exists>v \<in> set log. bw_key v = bw_key w \<and> bw_before v = bw_before w)"
    using log_writes_onto [of log bs L] unfolding lb(4) assms(2) by blast
  have st: "\<forall>k. bound_in s k \<longrightarrow> bound_in t k" and tw: "\<forall>w \<in> set log. bound_in t (bw_key w) \<and> bw_before w = held_at s (bw_key w) \<and> held_at s (bw_key w) \<noteq> None"
    using assms(3) unfolding branch_log_def by blast+
  have rs: "\<forall>k. bound_in r0 k \<longrightarrow> bound_in s k" "same_shape r0 s" "\<forall>k. k \<notin> bw_key ` set L \<longrightarrow> held_at s k = held_at r0 k" "distinct (map bw_key L)"
    and rw: "\<forall>w \<in> set L. bound_in s (bw_key w) \<and> bw_before w = held_at r0 (bw_key w) \<and> held_at r0 (bw_key w) \<noteq> None"
    using assms(1) unfolding branch_log_def by blast+
  have "branch_log r0 (leave_branch t) L'"
    unfolding branch_log_def
  proof (intro conjI allI ballI impI)
    show "same_shape r0 (leave_branch t)" using rs(2) lb(1) by (rule same_shape_trans)
    show "distinct (map bw_key L')" using L'(3) rs(4) by blast
    fix k assume k: "k \<notin> bw_key ` set L'"
    then have "k \<notin> bw_key ` set log" "k \<notin> bw_key ` set L" unfolding L'(2) by blast+
    then show "held_at (leave_branch t) k = held_at r0 k"
      using lb(3) [of k] assms(3) rs(3) unfolding branch_log_def by simp
  next
    fix k assume "bound_in r0 k"
    then show "bound_in (leave_branch t) k" using rs(1) st lb(2) by blast
  next
    fix w assume w: "w \<in> set L'"
    consider "w \<in> set L" | v where "bw_key w \<notin> bw_key ` set L" "v \<in> set log" "bw_key v = bw_key w" "bw_before v = bw_before w"
      using L'(4) w by blast
    then have "bound_in s (bw_key w) \<or> bound_in t (bw_key w)" "bw_before w = held_at r0 (bw_key w)" "held_at r0 (bw_key w) \<noteq> None"
    proof (atomize (full), cases)
      case 1
      then show "(bound_in s (bw_key w) \<or> bound_in t (bw_key w)) \<and> bw_before w = held_at r0 (bw_key w) \<and> held_at r0 (bw_key w) \<noteq> None"
        using rw by blast
    next
      case 2
      then have "held_at s (bw_key w) = held_at r0 (bw_key w)" using rs(3) by blast
      with 2 tw show "(bound_in s (bw_key w) \<or> bound_in t (bw_key w)) \<and> bw_before w = held_at r0 (bw_key w) \<and> held_at r0 (bw_key w) \<noteq> None"
        by metis
    qed
    then show "bound_in (leave_branch t) (bw_key w)" "bw_before w = held_at r0 (bw_key w)" "held_at r0 (bw_key w) \<noteq> None"
      using st lb(2) by blast+
  qed
  with L'(1) show ?thesis by blast
qed

lemma nested_take:
  assumes "branch_log r0 s L" "sc_branches s = bs @ [L]"
    and "branch_log s t log" "sc_branches t = sc_branches s @ [log]"
  shows "sc_branches (snd (take_branch t)) = bs @ [L] \<and> branch_log r0 (snd (take_branch t)) L"
proof -
  note tb = take_branch_held [OF assms(3,4)]
  have st: "\<forall>k. bound_in s k \<longrightarrow> bound_in t k" using assms(3) unfolding branch_log_def by blast
  have rs: "\<forall>k. bound_in r0 k \<longrightarrow> bound_in s k" "same_shape r0 s" "\<forall>k. k \<notin> bw_key ` set L \<longrightarrow> held_at s k = held_at r0 k" "distinct (map bw_key L)"
    and rw: "\<forall>w \<in> set L. bound_in s (bw_key w) \<and> bw_before w = held_at r0 (bw_key w) \<and> held_at r0 (bw_key w) \<noteq> None"
    using assms(1) unfolding branch_log_def by blast+
  have "branch_log r0 (snd (take_branch t)) L"
    unfolding branch_log_def tb(3)
    using rs rw st tb(5) same_shape_trans [OF rs(2) tb(2)] by blast
  then show ?thesis by (simp add: tb(4) assms(2))
qed

text \<open>Inside an open branch.\<close>

lemma declared_later:
  assumes "branch_log r0 s L" "declared ws r0"
  shows "declared ws s"
proof -
  have "held_at s k \<noteq> None" if "held_at r0 k \<noteq> None" for k
  proof (cases "k \<in> bw_key ` set L")
    case True
    then have "bound_in s k" using assms(1) unfolding branch_log_def by blast
    then show ?thesis by (auto simp: bound_in_def held_at_def held_def split: option.split)
  next
    case False
    then have "held_at s k = held_at r0 k" using assms(1) unfolding branch_log_def by blast
    then show ?thesis using that by simp
  qed
  then show ?thesis
    using assms by (fastforce simp: declared_def held_at_def branch_log_def same_shape_def)
qed

lemma walk_logged:
  assumes "no_else c" "branch_log r0 s L" "sc_branches s = bs @ [L]" "declared (writes c) r0"
  shows "\<exists>L'. sc_branches (walk_stmt c s) = bs @ [L'] \<and> branch_log r0 (walk_stmt c s) L'"
  using assms
proof (induction c arbitrary: r0 s bs L)
  case (Write i name v)
  have "i < length (sc_frames s)" "held r0 i name \<noteq> None"
    using Write.prems(2,4) by (simp_all add: declared_def branch_log_def same_shape_def)
  with branch_log_write [OF Write.prems(2,3)] show ?case by simp
next
  case (Seq a b)
  have d: "declared (writes a) r0" "declared (writes b) r0" using Seq.prems(4) by (auto simp: declared_def)
  from Seq.IH(1) [OF _ Seq.prems(2,3) d(1)] Seq.prems(1) obtain L1 where
    "sc_branches (walk_stmt a s) = bs @ [L1]" "branch_log r0 (walk_stmt a s) L1" by auto
  with Seq.IH(2) [OF _ this(2,1) d(2)] Seq.prems(1) show ?case by simp
next
  case (If c)
  have "declared (writes c) s" using declared_later [OF If.prems(2)] If.prems(4) by simp
  from If.IH [OF _ branch_log_enter this] If.prems(1) obtain log where
    l: "sc_branches (walk_stmt c (enter_branch s)) = sc_branches s @ [log]" "branch_log s (walk_stmt c (enter_branch s)) log" by auto
  from nested_leave [OF If.prems(2,3) l(2,1)] show ?case by simp
next
  case (If_out c)
  have "declared (writes c) s" using declared_later [OF If_out.prems(2)] If_out.prems(4) by simp
  from If_out.IH [OF _ branch_log_enter this] If_out.prems(1) obtain log where
    l: "sc_branches (walk_stmt c (enter_branch s)) = sc_branches s @ [log]" "branch_log s (walk_stmt c (enter_branch s)) log" by auto
  from nested_take [OF If_out.prems(2,3) l(2,1)] show ?case by auto
qed auto

text \<open>What a statement adds to the values of a name, and whether the earlier ones survive it.\<close>

fun added :: "stmt \<Rightarrow> nat \<times> string \<Rightarrow> pvalue set" and survives :: "stmt \<Rightarrow> nat \<times> string \<Rightarrow> bool" where
  "added Skip k = {}"
| "added (Write i name v) k = (if k = (i, name) then arms v else {})"
| "added (Seq a b) k = added b k \<union> (if survives b k then added a k else {})"
| "added (If c) k = added c k"
| "added (If_out c) k = {}"
| "added (If_else ra a rb b) k = (if ra then {} else added a k) \<union> (if rb then {} else added b k)"
| "survives Skip k = True"
| "survives (Write i name v) k = (k \<noteq> (i, name))"
| "survives (Seq a b) k = (survives a k \<and> survives b k)"
| "survives (If c) k = True"
| "survives (If_out c) k = True"
| "survives (If_else ra a rb b) k = (\<not> ra \<and> survives a k \<or> \<not> rb \<and> survives b k)"

definition arms_of :: "pvalue option \<Rightarrow> pvalue set" where
  "arms_of x = (case x of None \<Rightarrow> {} | Some v \<Rightarrow> arms v)"

lemma arms_of_simps [simp]: "arms_of None = {}" "arms_of (Some v) = arms v"
  by (simp_all add: arms_of_def)

definition effect :: "stmt \<Rightarrow> nat \<times> string \<Rightarrow> pvalue set \<Rightarrow> pvalue set" where
  "effect c k S = added c k \<union> (if survives c k then S else {})"

lemma no_else_outermost: "no_else c \<Longrightarrow> else_outermost c"
  by (induction c) auto

lemma runs_effect:
  "else_outermost c \<Longrightarrow> runs c \<sigma> \<noteq> {} \<and> (\<Union>\<tau> \<in> runs c \<sigma>. arms_of (\<tau> (fst k) (snd k))) = effect c k (arms_of (\<sigma> (fst k) (snd k)))"
proof (induction c arbitrary: \<sigma>)
  case (Write i name v)
  show ?case by (cases k) (auto simp: effect_def)
next
  case (Seq a b)
  then have a: "runs a \<sigma> \<noteq> {}" "(\<Union>\<tau> \<in> runs a \<sigma>. arms_of (\<tau> (fst k) (snd k))) = effect a k (arms_of (\<sigma> (fst k) (snd k)))" for \<sigma>
    by simp_all
  from Seq have b: "runs b \<tau> \<noteq> {}" "(\<Union>\<rho> \<in> runs b \<tau>. arms_of (\<rho> (fst k) (snd k))) = effect b k (arms_of (\<tau> (fst k) (snd k)))" for \<tau>
    by simp_all
  have "(\<Union>\<rho> \<in> runs (Seq a b) \<sigma>. arms_of (\<rho> (fst k) (snd k))) = (\<Union>\<tau> \<in> runs a \<sigma>. effect b k (arms_of (\<tau> (fst k) (snd k))))"
    by (simp add: b(2) [symmetric])
  also have "\<dots> = effect b k (\<Union>\<tau> \<in> runs a \<sigma>. arms_of (\<tau> (fst k) (snd k)))"
    using a(1) by (auto simp: effect_def)
  finally show ?case using a b(1) by (auto simp: effect_def)
next
  case (If_else ra a rb b)
  then have "runs a \<sigma> \<noteq> {}" "(\<Union>\<tau> \<in> runs a \<sigma>. arms_of (\<tau> (fst k) (snd k))) = effect a k (arms_of (\<sigma> (fst k) (snd k)))"
    "runs b \<sigma> \<noteq> {}" "(\<Union>\<tau> \<in> runs b \<sigma>. arms_of (\<tau> (fst k) (snd k))) = effect b k (arms_of (\<sigma> (fst k) (snd k)))"
    and "\<not> (ra \<and> rb)"
    by (simp_all add: no_else_outermost)
  then show ?case by (cases ra; cases rb) (auto simp: effect_def)
qed (auto simp: effect_def no_else_outermost)

text \<open>An \<open>if\<close> without \<open>else\<close>, from the effect of its arm.\<close>

lemma if_held:
  assumes "no_else c" "declared (writes c) s"
  obtains log where "sc_branches (walk_stmt c (enter_branch s)) = sc_branches s @ [log]"
    "branch_log s (walk_stmt c (enter_branch s)) log"
  using walk_logged [OF assms(1) branch_log_enter assms(2)] by blast

lemma if_effect:
  assumes "no_else c" "declared (writes c) s"
    and "arms_of (held_at (walk_stmt c (enter_branch s)) k) = effect c k (arms_of (held_at s k))"
  shows "arms_of (held_at (walk_stmt (If c) s) k) = effect (If c) k (arms_of (held_at s k))"
proof -
  let ?t = "walk_stmt c (enter_branch s)"
  obtain log where l: "sc_branches ?t = sc_branches s @ [log]" "branch_log s ?t log"
    using assms(1,2) by (rule if_held)
  note h = leave_branch_held(3) [OF l(2,1), of k]
  show ?thesis
  proof (cases "k \<in> bw_key ` set log")
    case True
    then have "bound_in ?t k" "held_at s k \<noteq> None" using l(2) unfolding branch_log_def by blast+
    then obtain a b where "held_at ?t k = Some a" "held_at s k = Some b" by (auto simp: bound_in_def held_at_def held_def)
    with h True assms(3) show ?thesis by (auto simp: effect_def)
  next
    case False
    then have "held_at ?t k = held_at s k" using l(2) unfolding branch_log_def by blast
    with h False assms(3) show ?thesis by (auto simp: effect_def)
  qed
qed

lemma walk_effect_in:
  assumes "no_else c" "branch_log r0 s L" "sc_branches s = bs @ [L]" "declared (writes c) r0"
  shows "arms_of (held_at (walk_stmt c s) k) = effect c k (arms_of (held_at s k))"
  using assms
proof (induction c arbitrary: r0 s bs L)
  case Skip
  then show ?case by (simp add: effect_def)
next
  case (Write i name v)
  then have "i < length (sc_frames s)" by (simp add: declared_def branch_log_def same_shape_def)
  then show ?case by (simp add: write_frame_held(1) effect_def)
next
  case (Seq a b)
  have d: "declared (writes a) r0" "declared (writes b) r0" using Seq.prems(4) by (auto simp: declared_def)
  have n: "no_else a" "no_else b" using Seq.prems(1) by simp_all
  from walk_logged [OF n(1) Seq.prems(2,3) d(1)] obtain L1 where
    "sc_branches (walk_stmt a s) = bs @ [L1]" "branch_log r0 (walk_stmt a s) L1" by blast
  from Seq.IH(2) [OF n(2) this(2,1) d(2)] Seq.IH(1) [OF n(1) Seq.prems(2,3) d(1)]
  show ?case by (auto simp: effect_def)
next
  case (If c)
  have d: "declared (writes c) s" using declared_later [OF If.prems(2)] If.prems(4) by simp
  have n: "no_else c" using If.prems(1) by simp
  show ?case
    by (rule if_effect [OF n d]) (use If.IH [OF n branch_log_enter d] in \<open>simp add: held_at_enter\<close>)
next
  case (If_out c)
  have d: "declared (writes c) s" using declared_later [OF If_out.prems(2)] If_out.prems(4) by simp
  have "no_else c" using If_out.prems(1) by simp
  from walk_logged [OF this branch_log_enter d] obtain log where
    "sc_branches (walk_stmt c (enter_branch s)) = sc_branches s @ [log]" "branch_log s (walk_stmt c (enter_branch s)) log" by blast
  from take_branch_held(3) [OF this(2,1)] show ?case by (simp add: effect_def)
qed simp

text \<open>The two arms of an \<open>if\<close> with an \<open>else\<close>, at the straight-line level.\<close>

lemma exit_at_map: "exit_at k (map (exit_of t) log) = map_option (exit_of t) (find (\<lambda>w. bw_key w = k) log)"
  by (induction log) (auto simp: exit_at_def exit_of_def)

lemma find_key:
  assumes "distinct (map bw_key log)"
  shows "find (\<lambda>w. bw_key w = k) log = None \<longleftrightarrow> k \<notin> bw_key ` set log"
    "find (\<lambda>w. bw_key w = k) log = Some w \<Longrightarrow> w \<in> set log \<and> bw_key w = k"
  by (auto simp: find_None_iff find_Some_iff)

text \<open>One arm: the log it leaves, as its exits.\<close>

definition arm :: "scopes \<Rightarrow> scopes \<Rightarrow> arm_exit list \<Rightarrow> bool" where
  "arm s t es \<longleftrightarrow> distinct (map ae_key es) \<and> (\<forall>e \<in> set es. ae_frame e < length (sc_frames s))
     \<and> (\<forall>k. exit_at k es = None \<longrightarrow> held_at t k = held_at s k)
     \<and> (\<forall>k e. exit_at k es = Some e \<longrightarrow> ae_before e = held_at s k \<and> ae_after e = held_at t k \<and> held_at s k \<noteq> None \<and> held_at t k \<noteq> None)"

lemma arm_of_log:
  assumes "branch_log s t log"
  shows "arm s t (map (exit_of t) log)"
proof -
  have l: "same_shape s t" "distinct (map bw_key log)" "\<forall>k. k \<notin> bw_key ` set log \<longrightarrow> held_at t k = held_at s k"
    and w: "\<forall>w \<in> set log. bound_in t (bw_key w) \<and> bw_before w = held_at s (bw_key w) \<and> held_at s (bw_key w) \<noteq> None"
    using assms unfolding branch_log_def by blast+
  have keys: "map ae_key (map (exit_of t) log) = map bw_key log" by (simp add: exit_of_def)
  have fr: "ae_frame e < length (sc_frames s)" if "e \<in> set (map (exit_of t) log)" for e
    using that w l(1) by (auto simp: exit_of_def bound_in_def same_shape_def)
  have none: "held_at t k = held_at s k" if "exit_at k (map (exit_of t) log) = None" for k
  proof -
    have "k \<notin> bw_key ` set log" using that find_key(1) [OF l(2), of k] by (simp add: exit_at_map)
    then show ?thesis using l(3) by blast
  qed
  have some: "ae_before e = held_at s k \<and> ae_after e = held_at t k \<and> held_at s k \<noteq> None \<and> held_at t k \<noteq> None"
    if x: "exit_at k (map (exit_of t) log) = Some e" for k e
  proof -
    obtain u where "e = exit_of t u" "find (\<lambda>w. bw_key w = k) log = Some u" using x by (auto simp: exit_at_map)
    moreover from this find_key(2) [OF l(2)] have u: "u \<in> set log" "bw_key u = k" by blast+
    moreover have "held_at t k \<noteq> None" using w u by (auto simp: bound_in_def held_at_def held_def)
    ultimately show ?thesis using w by (auto simp: exit_of_def)
  qed
  show ?thesis unfolding arm_def keys using l(2) fr none some by blast
qed

lemma join_one_arm:
  assumes "arm s t es" "sc_branches s2 = []" "same_shape s s2" "\<forall>k. held_at s2 k = held_at s k"
  shows "held_at (join_all_arms [es] True s2) k = held_at t k" "same_shape s (join_all_arms [es] True s2)"
    "sc_branches (join_all_arms [es] True s2) = []"
proof -
  have d: "distinct (map ae_key es)" and fr: "\<forall>e \<in> set (concat [es]). ae_frame e < length (sc_frames s2)"
    using assms(1,3) by (auto simp: arm_def same_shape_def)
  note j = join_all_arms_held [OF fr assms(2), of True]
  show "same_shape s (join_all_arms [es] True s2)" "sc_branches (join_all_arms [es] True s2) = []"
    using same_shape_trans [OF assms(3) j(1)] j(2) by simp_all
  have m: "merged_at k (fold merge_exit (concat [es]) []) = map_option (\<lambda>e. (e, 1)) (exit_at k es)"
    using merge_exits_at [OF d, of k "[]"] by (simp add: merged_at_def split: option.split)
  show "held_at (join_all_arms [es] True s2) k = held_at t k"
  proof (cases "exit_at k es")
    case None
    then have "held_at t k = held_at s k" using assms(1) unfolding arm_def by blast
    moreover have "held_at s2 k = held_at s k" using assms(4) by blast
    ultimately show ?thesis using j(3) [of k, unfolded m] by (simp add: None)
  next
    case (Some e)
    then have "ae_after e = held_at t k" "held_at t k \<noteq> None" using assms(1) unfolding arm_def by blast+
    then show ?thesis using j(3) [of k, unfolded m] by (auto simp: Some joined_def)
  qed
qed

lemma join_two_arms:
  assumes "arm s t1 es1" "arm s t2 es2" "sc_branches s2 = []" "same_shape s s2" "\<forall>k. held_at s2 k = held_at s k"
  shows "arms_of (held_at (join_arms es1 es2 s2) k) = arms_of (held_at t1 k) \<union> arms_of (held_at t2 k)"
    "same_shape s (join_arms es1 es2 s2)" "sc_branches (join_arms es1 es2 s2) = []"
    "held_at s k \<noteq> None \<Longrightarrow> held_at (join_arms es1 es2 s2) k \<noteq> None"
proof -
  have d: "distinct (map ae_key es1)" "distinct (map ae_key es2)"
    and fr: "\<forall>e \<in> set (concat [es1, es2]). ae_frame e < length (sc_frames s2)"
    using assms(1,2,4) by (auto simp: arm_def same_shape_def)
  note j = join_all_arms_held [OF fr assms(3), of True, folded join_arms_def]
  show "same_shape s (join_arms es1 es2 s2)" "sc_branches (join_arms es1 es2 s2) = []"
    using same_shape_trans [OF assms(4) j(1)] j(2) by simp_all
  have m: "merged_at k (fold merge_exit (concat [es1, es2]) []) =
      (case (exit_at k es1, exit_at k es2) of
         (None, None) \<Rightarrow> None | (Some e, None) \<Rightarrow> Some (e, 1) | (None, Some e) \<Rightarrow> Some (e, 1)
       | (Some m, Some e) \<Rightarrow> Some (m\<lparr>ae_after := after_join (ae_after m) (ae_after e)\<rparr>, 2))"
    using merge_exits_at [OF d(1), of k "[]"] merge_exits_at [OF d(2), of k "fold merge_exit es1 []"]
    by (auto simp: merged_at_def split: option.split)
  have n: "exit_at k es1 = None \<Longrightarrow> held_at t1 k = held_at s k" "exit_at k es2 = None \<Longrightarrow> held_at t2 k = held_at s k"
    using assms(1,2) unfolding arm_def by blast+
  have e: "exit_at k es1 = Some e \<Longrightarrow> ae_before e = held_at s k \<and> ae_after e = held_at t1 k \<and> held_at s k \<noteq> None \<and> held_at t1 k \<noteq> None"
    "exit_at k es2 = Some e \<Longrightarrow> ae_before e = held_at s k \<and> ae_after e = held_at t2 k \<and> held_at s k \<noteq> None \<and> held_at t2 k \<noteq> None" for e
    using assms(1,2) unfolding arm_def by blast+
  have s2: "held_at s2 k = held_at s k" using assms(5) by blast
  have "arms_of (held_at (join_arms es1 es2 s2) k) = arms_of (held_at t1 k) \<union> arms_of (held_at t2 k)
      \<and> (held_at s k \<noteq> None \<longrightarrow> held_at (join_arms es1 es2 s2) k \<noteq> None)"
  proof (cases "exit_at k es1"; cases "exit_at k es2")
    assume "exit_at k es1 = None" "exit_at k es2 = None"
    then show ?thesis using j(3) [of k, unfolded m] n s2 by simp
  next
    fix e2 assume x: "exit_at k es1 = None" "exit_at k es2 = Some e2"
    then show ?thesis using j(3) [of k, unfolded m] n(1) e(2) [OF x(2)] by (auto simp: joined_def)
  next
    fix e1 assume x: "exit_at k es1 = Some e1" "exit_at k es2 = None"
    then show ?thesis using j(3) [of k, unfolded m] n(2) e(1) [OF x(1)] by (auto simp: joined_def)
  next
    fix e1 e2 assume x: "exit_at k es1 = Some e1" "exit_at k es2 = Some e2"
    then show ?thesis using j(3) [of k, unfolded m] e(1) [OF x(1)] e(2) [OF x(2)] by (auto simp: joined_def after_join_def)
  qed
  then show "arms_of (held_at (join_arms es1 es2 s2) k) = arms_of (held_at t1 k) \<union> arms_of (held_at t2 k)"
    "held_at s k \<noteq> None \<Longrightarrow> held_at (join_arms es1 es2 s2) k \<noteq> None" by blast+
qed

lemma walk_effect_top:
  assumes "else_outermost c" "sc_branches s = []" "declared (writes c) s"
  shows "sc_branches (walk_stmt c s) = [] \<and> same_shape s (walk_stmt c s)
    \<and> (\<forall>k. held_at s k \<noteq> None \<longrightarrow> held_at (walk_stmt c s) k \<noteq> None)
    \<and> (\<forall>k. arms_of (held_at (walk_stmt c s) k) = effect c k (arms_of (held_at s k)))"
  using assms
proof (induction c arbitrary: s)
  case Skip
  then show ?case by (simp add: effect_def same_shape_def)
next
  case (Write i name v)
  then have "i < length (sc_frames s)" by (simp add: declared_def)
  then show ?case using Write.prems(2) by (simp add: write_frame_held(1-3) effect_def log_write_def)
next
  case (Seq a b)
  let ?t = "walk_stmt a s"
  have d: "declared (writes a) s" "declared (writes b) s" using Seq.prems(3) by (auto simp: declared_def)
  have n: "else_outermost a" "else_outermost b" using Seq.prems(1) by simp_all
  note A = Seq.IH(1) [OF n(1) Seq.prems(2) d(1)]
  have held: "held_at s k \<noteq> None \<Longrightarrow> held_at ?t k \<noteq> None" and ea: "arms_of (held_at ?t k) = effect a k (arms_of (held_at s k))" for k
    using A by blast+
  have "declared (writes b) ?t"
    using d(2) held A by (fastforce simp: declared_def held_at_def same_shape_def)
  note B = Seq.IH(2) [OF n(2) conjunct1 [OF A] this]
  have eb: "arms_of (held_at (walk_stmt b ?t) k) = effect b k (arms_of (held_at ?t k))"
    and hb: "held_at ?t k \<noteq> None \<Longrightarrow> held_at (walk_stmt b ?t) k \<noteq> None" for k using B by blast+
  have "effect (Seq a b) k S = effect b k (effect a k S)" for k S by (auto simp: effect_def)
  with A B held hb ea eb show ?case by (auto intro: same_shape_trans)
next
  case (If c)
  have n: "no_else c" and d: "declared (writes c) s" using If.prems by simp_all
  let ?t = "walk_stmt c (enter_branch s)"
  obtain log where l: "sc_branches ?t = [] @ [log]" "branch_log s ?t log"
    using if_held [OF n d] If.prems(2) by auto
  note lb = leave_branch_held [OF l(2,1)]
  have br: "sc_branches (leave_branch ?t) = []"
    unfolding lb(4) by (induction log) (simp_all add: log_write_def)
  have ef: "arms_of (held_at (walk_stmt (If c) s) k) = effect (If c) k (arms_of (held_at s k))" for k
    by (rule if_effect [OF n d]) (simp add: walk_effect_in [OF n branch_log_enter d] held_at_enter)
  have "held_at (leave_branch ?t) k \<noteq> None" if "held_at s k \<noteq> None" for k
  proof (cases "k \<in> bw_key ` set log")
    case True
    then have "bound_in ?t k" using l(2) unfolding branch_log_def by blast
    then have "held_at ?t k \<noteq> None" by (auto simp: bound_in_def held_at_def held_def)
    with lb(3) [of k] True that show ?thesis by auto
  next
    case False
    then have "held_at ?t k = held_at s k" using l(2) unfolding branch_log_def by blast
    with lb(3) [of k] False that show ?thesis by simp
  qed
  with br lb(1) ef show ?case by simp
next
  case (If_out c)
  have n: "no_else c" and d: "declared (writes c) s" using If_out.prems by simp_all
  let ?t = "walk_stmt c (enter_branch s)"
  obtain log where l: "sc_branches ?t = [] @ [log]" "branch_log s ?t log"
    using if_held [OF n d] If_out.prems(2) by auto
  from take_branch_held(2,3,4) [OF l(2,1)] show ?case by (simp add: effect_def)
next
  case (If_else ra a rb b)
  have n: "no_else a" "no_else b" "\<not> (ra \<and> rb)" using If_else.prems(1) by simp_all
  have d: "declared (writes a) s" "declared (writes b) s" using If_else.prems(3) by (auto simp: declared_def)
  let ?t1 = "walk_stmt a (enter_branch s)"
  obtain log1 where l1: "sc_branches ?t1 = [] @ [log1]" "branch_log s ?t1 log1"
    using if_held [OF n(1) d(1)] If_else.prems(2) by auto
  define s1 where "s1 = snd (take_branch ?t1)"
  note k1 = take_branch_held [OF l1(2,1), folded s1_def]
  have d2: "declared (writes b) s1"
    using d(2) k1(2,3) by (fastforce simp: declared_def held_at_def same_shape_def)
  let ?t2 = "walk_stmt b (enter_branch s1)"
  obtain log2 where l2: "sc_branches ?t2 = [] @ [log2]" "branch_log s1 ?t2 log2"
    using if_held [OF n(2) d2] k1(4) by auto
  define s2 where "s2 = snd (take_branch ?t2)"
  note k2 = take_branch_held [OF l2(2,1), folded s2_def]
  have A1: "arm s ?t1 (fst (take_branch ?t1))" unfolding k1(1) by (rule arm_of_log [OF l1(2)])
  have "arm s1 ?t2 (fst (take_branch ?t2))" unfolding k2(1) by (rule arm_of_log [OF l2(2)])
  then have A2: "arm s ?t2 (fst (take_branch ?t2))" using k1(2,3) by (simp add: arm_def same_shape_def)
  have s2: "sc_branches s2 = []" "same_shape s s2" "\<forall>k. held_at s2 k = held_at s k"
    using k1(2,3) k2(2,3,4) by (auto intro: same_shape_trans)
  have e1: "arms_of (held_at ?t1 k) = effect a k (arms_of (held_at s k))" for k
    by (simp add: walk_effect_in [OF n(1) branch_log_enter d(1)] held_at_enter)
  have e2: "arms_of (held_at ?t2 k) = effect b k (arms_of (held_at s k))" for k
    by (simp add: walk_effect_in [OF n(2) branch_log_enter d2] held_at_enter k1(3))
  have held: "held_at t k \<noteq> None" if "arm s t es" "held_at s k \<noteq> None" for t es k
    using that unfolding arm_def by (cases "exit_at k es") (metis, blast)
  have walk: "walk_stmt (If_else ra a rb b) s =
      (if ra then join_all_arms [fst (take_branch ?t2)] True s2
       else if rb then join_all_arms [fst (take_branch ?t1)] True s2
       else join_arms (fst (take_branch ?t1)) (fst (take_branch ?t2)) s2)"
    using n(3) by (cases ra; cases rb) (simp_all add: case_prod_unfold s1_def s2_def Let_def)
  consider "ra" "\<not> rb" | "\<not> ra" "rb" | "\<not> ra" "\<not> rb" using n(3) by blast
  then show ?case
  proof cases
    case 1
    show ?thesis
      using join_one_arm [OF A2 s2] held [OF A2] e2 1 unfolding walk by (simp add: effect_def)
  next
    case 2
    show ?thesis
      using join_one_arm [OF A1 s2] held [OF A1] e1 2 unfolding walk by (simp add: effect_def)
  next
    case 3
    show ?thesis
      using join_two_arms [OF A1 A2 s2] e1 e2 3 unfolding walk by (auto simp: effect_def)
  qed
qed

text \<open>
  C15: The branch logs join exactly, as long as no \<open>else\<close> stands inside an arm.  Walked at the straight-line
  level of a function over names its frames hold, a body of writes, of \<open>if\<close>s without \<open>else\<close> nested in any
  way, and of outermost \<open>if\<close>/\<open>else\<close>s with at most one arm that returns and no further \<open>else\<close> in either arm
  (\<open>else_outermost\<close>) leaves every name at exactly the values the runs that complete can leave it at - the
  earlier value survives where a run goes around the write, an arm that returns contributes nothing, and
  both arms of an \<open>else\<close> replace it - and the scopes come back with no branch open.  For an \<open>else\<close> inside an
  arm, an \<open>else if\<close> chain included, this fails: \<open>nested_else_forgets\<close> and \<open>nested_else_runs\<close> below are a
  body that loses a value.
\<close>

theorem branches_join_exactly:
  assumes "else_outermost c" and "sc_branches s = []" and "declared (writes c) s"
  shows "arms_of (held (walk_stmt c s) i name) = (\<Union>\<tau> \<in> runs c (held s). arms_of (\<tau> i name))
    \<and> sc_branches (walk_stmt c s) = []"
  using walk_effect_top [OF assms] runs_effect [OF assms(1), of "held s" "(i, name)"]
  by (simp add: held_at_def)

definition one_frame :: "frame \<Rightarrow> scopes" where
  "one_frame hoisted =
     \<lparr>sc_frames = [[]], sc_frame_hoisted = [hoisted], sc_is_function = [True], sc_hoisted = [], sc_rewritten = [],
      sc_branches = [], sc_watched = []\<rparr>"

theorem branches_join_exactly_witness:
  "arms_of (held (walk_stmt (Seq (If (Write 0 ''x'' Truthy_v)) (If_else True (Write 0 ''y'' Read_v) False (Write 0 ''y'' Null_v)))
      (one_frame [(''x'', MaybeUndefined_v), (''y'', MaybeUndefined_v)])) 0 ''x'') = {MaybeUndefined_v, Truthy_v}"
proof -
  let ?c = "Seq (If (Write 0 ''x'' Truthy_v)) (If_else True (Write 0 ''y'' Read_v) False (Write 0 ''y'' Null_v))"
  let ?s = "one_frame [(''x'', MaybeUndefined_v), (''y'', MaybeUndefined_v)]"
  have "else_outermost ?c" "sc_branches ?s = []" by (simp_all add: one_frame_def)
  moreover have "declared (writes ?c) ?s" by (simp add: declared_def one_frame_def held_def)
  ultimately have "arms_of (held (walk_stmt ?c ?s) 0 ''x'') = (\<Union>\<tau> \<in> runs ?c (held ?s). arms_of (\<tau> 0 ''x''))"
    using branches_join_exactly by blast
  also have "\<dots> = {MaybeUndefined_v, Truthy_v}" by (auto simp: one_frame_def held_def)
  finally show ?thesis .
qed

text \<open>
  The condition on \<open>else\<close> is needed.  Inside a branch, an \<open>if\<close>/\<open>else\<close> that writes a name in both arms hands
  the outer log the value from before as \<open>None\<close>, and the join around the outer branch is lost:
  \<open>var x; if (p) { if (q) x = !0; else x = !0 }\<close> leaves \<open>x\<close> at \<open>!0\<close> alone, although \<open>p\<close> may be false.
\<close>

lemma nested_else_forgets:
  "let c = If (If_else False (Write 0 ''x'' Truthy_v) False (Write 0 ''x'' Truthy_v));
       s = one_frame [(''x'', MaybeUndefined_v)]
   in held (walk_stmt c s) 0 ''x'' = Some Truthy_v \<and> lookup (walk_stmt c s) ''x'' = Some Truthy_v"
  by code_simp

lemma nested_else_runs:
  "MaybeUndefined_v \<in> (\<Union>\<tau> \<in> runs (If (If_else False (Write 0 ''x'' Truthy_v) False (Write 0 ''x'' Truthy_v)))
       (held (one_frame [(''x'', MaybeUndefined_v)])). arms_of (\<tau> 0 ''x''))"
  by (simp add: one_frame_def held_def)

end
