(* ===== verification/MexSites.thy ===== *)
theory MexSites
  imports MexTypes MexPresence
begin

text \<open>
  The presence tree of an operation's variables (\<open>VariablePresenceNode\<close> of \<open>wa-ir/src/mex.rs\<close>): how two
  call sites' trees merge and how verdicts are withdrawn (\<open>presence.rs\<close>), how the tree is aligned with
  the typed shape and tallied (\<open>extract.rs\<close> of \<open>wa-mex\<close>), and the parity check of \<open>scripts/lint-ir.py\<close>
  every published document has to pass.
\<close>

section \<open>Nodes\<close>

datatype pnode =
  Pnode (pn_presence: variable_presence) (pn_fields: "(string \<times> pnode) list") (pn_items: "pnode option")

type_synonym site_tree = "(string, pnode) btree"

definition pn_leaf :: "variable_presence \<Rightarrow> pnode" where
  "pn_leaf p = Pnode p [] None"

lemma pnode_list_size: "(k, c) \<in> set fs \<Longrightarrow> size c < size_list (size_prod (\<lambda>_. 0) size) fs"
  for k :: string and c :: pnode
proof (induction fs)
  case (Cons f fs)
  then show ?case by (cases "f = (k, c)") auto
qed simp

lemma pnode_child_size: "(k, c) \<in> set fs \<Longrightarrow> size c < size (Pnode p fs it)"
  using pnode_list_size [of k c fs] by simp

lemma pnode_child_size': "(k, c) \<in> set fs \<Longrightarrow> 2 * size c < Suc (2 * size_list (size_prod (\<lambda>_. 0) size) fs + n)"
  for k :: string and c :: pnode
  using pnode_list_size [of k c fs] by simp

lemma pnode_item_size: "size c < size (Pnode p fs (Some c))"
  by simp

fun weaken :: "variable_presence \<Rightarrow> pnode \<Rightarrow> pnode" where
  "weaken q (Pnode p fs it) = Pnode (weaker p q) fs it"

lemma weaken_node_simps [simp]:
  "size (weaken q n) = size n"
  "pn_presence (weaken q n) = weaker (pn_presence n) q" "pn_fields (weaken q n) = pn_fields n" "pn_items (weaken q n) = pn_items n"
  by (cases n; simp)+

function withdraw :: "pnode \<Rightarrow> pnode"
  and withdraw_children :: "pnode \<Rightarrow> pnode" where
  "withdraw node = withdraw_children (weaken Undetermined node)"
| "withdraw_children (Pnode p fs it) =
     Pnode p (map (\<lambda>(k, child). (k, withdraw child)) fs) (map_option withdraw_children it)"
  by pat_completeness auto
termination
  by (relation "measure (case_sum (\<lambda>n. 2 * size n + 1) (\<lambda>n. 2 * size n))")
    (simp, auto intro: pnode_child_size')

declare withdraw.simps [simp del]

lemma weaker_simps [simp]:
  "weaker Always q = q" "weaker p Always = p" "weaker p p = p" "weaker Undetermined q = Undetermined" "weaker p Undetermined = Undetermined"
  "weaker p q = Always \<longleftrightarrow> p = Always \<and> q = Always"
  by (cases p; cases q; simp add: weaker_def max_def less_eq_variable_presence_def)+

lemma withdraw_children_sel [simp]:
  "pn_presence (withdraw_children n) = pn_presence n"
  "pn_fields (withdraw_children n) = map (\<lambda>(k, c). (k, withdraw c)) (pn_fields n)"
  "pn_items (withdraw_children n) = map_option withdraw_children (pn_items n)"
  by (cases n; simp)+

lemma withdraw_sel [simp]:
  "pn_presence (withdraw n) = Undetermined"
  "pn_fields (withdraw n) = map (\<lambda>(k, c). (k, withdraw c)) (pn_fields n)"
  "pn_items (withdraw n) = map_option withdraw_children (pn_items n)"
  by (simp_all add: withdraw.simps)

section \<open>Merging two call sites\<close>

definition soften_key :: "string \<Rightarrow> site_tree \<Rightarrow> site_tree" where
  \<comment> \<open>\<open>if let Some(node) = fields.get_mut(&k) { node.presence = weaker(Conditional) }\<close>\<close>
  "soften_key k fs = map (\<lambda>(k', n). (k', if k' = k then weaken Conditional n else n)) fs"

function merge_nodes :: "pnode \<Rightarrow> pnode \<Rightarrow> pnode" where
  "merge_nodes (Pnode p fs it) (Pnode q gs jt) =
     (let only_in_b = [k \<leftarrow> map fst gs. k \<notin> fst ` set fs];
          only_in_a = [k \<leftarrow> map fst fs. k \<notin> fst ` set gs];
          fields = fold (\<lambda>(k, v) out. bt_insert k (case map_of out k of Some e \<Rightarrow> merge_nodes e v | None \<Rightarrow> v) out) gs fs
      in Pnode (weaker p q) (fold soften_key (only_in_a @ only_in_b) fields)
           (case (it, jt) of
              (Some x, Some y) \<Rightarrow> Some (merge_nodes x y)
            | (Some x, None) \<Rightarrow> Some (withdraw_children x)
            | (None, Some y) \<Rightarrow> Some (withdraw_children y)
            | (None, None) \<Rightarrow> None))"
  by pat_completeness auto
termination by (relation "measure (size \<circ> snd)") (auto dest: pnode_child_size)

declare merge_nodes.simps [simp del]

definition merge_step :: "string \<Rightarrow> site_tree \<times> site_tree \<times> site_tree \<Rightarrow> site_tree \<times> site_tree \<times> site_tree" where
  "merge_step key = (\<lambda>(a, b, out).
     (case (map_of a key, map_of b key) of
        (Some l, Some r) \<Rightarrow> (bt_remove key a, bt_remove key b, bt_insert key (merge_nodes l r) out)
      | (Some n, None) \<Rightarrow> (bt_remove key a, b, bt_insert key (weaken Conditional n) out)
      | (None, Some n) \<Rightarrow> (a, bt_remove key b, bt_insert key (weaken Conditional n) out)
      | (None, None) \<Rightarrow> (a, b, out)))"

definition merge_sites :: "site_tree \<Rightarrow> site_tree \<Rightarrow> site_tree" where
  "merge_sites a b = snd (snd (fold merge_step (map fst a @ map fst b) (a, b, [])))"

section \<open>The shape of a presence tree\<close>

text \<open>Keys are sorted at every level, and a list element carries no verdict of its own.\<close>

inductive node_ok :: "pnode \<Rightarrow> bool" where
  "bt_ok fs \<Longrightarrow> \<forall>(k, c) \<in> set fs. node_ok c \<Longrightarrow> \<forall>x. it = Some x \<longrightarrow> node_ok x \<and> pn_presence x = Always \<Longrightarrow>
   node_ok (Pnode p fs it)"

inductive_simps node_ok_simps [simp]: "node_ok (Pnode p fs it)"

definition tree_ok :: "site_tree \<Rightarrow> bool" where
  "tree_ok t \<longleftrightarrow> node_ok (Pnode Always t None)"

lemma tree_ok_simps: "tree_ok t \<longleftrightarrow> bt_ok t \<and> (\<forall>(k, c) \<in> set t. node_ok c)"
  by (simp add: tree_ok_def)

lemma tree_okD: "tree_ok t \<Longrightarrow> map_of t k = Some c \<Longrightarrow> node_ok c"
  by (auto simp: tree_ok_simps dest: map_of_SomeD)

lemma tree_ok_insert: "tree_ok t \<Longrightarrow> node_ok n \<Longrightarrow> tree_ok (bt_insert k n t)"
  by (auto simp: tree_ok_simps bt_insert_def sorted_wrt_append sorted_wrt_filter_ok)

lemma tree_ok_Nil [simp]: "tree_ok []"
  by (simp add: tree_ok_simps)

lemma node_ok_leaf [simp]: "node_ok (pn_leaf p)"
  by (simp add: pn_leaf_def)

lemma node_ok_weaken [simp]: "node_ok (weaken q n) = node_ok n"
  by (cases n) simp

lemma node_ok_withdraw: "node_ok n \<Longrightarrow> node_ok (withdraw n)" "node_ok n \<Longrightarrow> node_ok (withdraw_children n)"
proof (induction n and n rule: withdraw_withdraw_children.induct)
  case (2 p fs it)
  then show ?case by (force simp: comp_def case_prod_unfold)
qed (simp add: withdraw.simps)

lemma tree_ok_map:
  assumes "tree_ok t" "\<And>n. node_ok n \<Longrightarrow> node_ok (f n)"
  shows "tree_ok (map (\<lambda>(k, n). (k, f n)) t)"
  using assms by (auto simp: tree_ok_simps comp_def case_prod_unfold)

lemma map_of_map_value: "map_of (map (\<lambda>(k, n). (k, f k n)) t) x = map_option (f x) (map_of t x)"
  by (induction t) auto

lemma map_of_soften [simp]:
  "map_of (soften_key k fs) x = (if x = k then map_option (weaken Conditional) (map_of fs x) else map_of fs x)"
  by (induction fs) (auto simp: soften_key_def)

lemma keys_soften [simp]: "map fst (soften_key k fs) = map fst fs" "fst ` set (soften_key k fs) = fst ` set fs"
  by (force simp: soften_key_def)+

lemma tree_ok_soften: "tree_ok fs \<Longrightarrow> tree_ok (soften_key k fs)"
  by (auto simp: tree_ok_simps soften_key_def comp_def case_prod_unfold)

lemma weaken_twice [simp]: "weaken q (weaken q n) = weaken q n"
  by (cases n; cases q) (auto simp: weaker_def max_def)

lemma map_of_fold_soften:
  "map_of (fold soften_key ks fs) x = (if x \<in> set ks then map_option (weaken Conditional) (map_of fs x) else map_of fs x)"
  by (induction ks arbitrary: fs) (auto simp: option.map_comp comp_def)

lemma map_of_fold_merge:
  assumes "distinct (map fst gs)"
  shows "map_of (fold (\<lambda>(k, v) out. bt_insert k (case map_of out k of Some e \<Rightarrow> f e v | None \<Rightarrow> v) out) gs fs) x
    = (case map_of gs x of None \<Rightarrow> map_of fs x | Some v \<Rightarrow> Some (case map_of fs x of Some e \<Rightarrow> f e v | None \<Rightarrow> v))"
  using assms
proof (induction gs arbitrary: fs)
  case (Cons g gs)
  obtain k v where g: "g = (k, v)" by fastforce
  with Cons.prems have "map_of gs k = None" by (auto simp: map_of_eq_None_iff)
  with Cons g show ?case by (auto split: option.split)
qed simp

definition merged :: "pnode option \<Rightarrow> pnode option \<Rightarrow> pnode option" where
  "merged x y =
     (case (x, y) of
        (Some l, Some r) \<Rightarrow> Some (merge_nodes l r)
      | (Some n, None) \<Rightarrow> Some (weaken Conditional n)
      | (None, Some n) \<Rightarrow> Some (weaken Conditional n)
      | (None, None) \<Rightarrow> None)"

lemma map_of_merge_nodes:
  assumes "node_ok b"
  shows "map_of (pn_fields (merge_nodes a b)) k = merged (map_of (pn_fields a) k) (map_of (pn_fields b) k)"
proof -
  obtain p fs it q gs jt where ab: "a = Pnode p fs it" "b = Pnode q gs jt" by (cases a; cases b)
  then have d: "distinct (map fst gs)" using assms bt_ok_distinct by auto
  have "k \<in> fst ` set fs \<longleftrightarrow> map_of fs k \<noteq> None" "k \<in> fst ` set gs \<longleftrightarrow> map_of gs k \<noteq> None"
    by (simp_all add: map_of_eq_None_iff)
  then show ?thesis
    by (auto simp: ab merge_nodes.simps Let_def map_of_fold_soften map_of_fold_merge [OF d] merged_def split: option.splits)
qed

lemma merge_nodes_sel [simp]:
  "pn_presence (merge_nodes a b) = weaker (pn_presence a) (pn_presence b)"
  "pn_items (merge_nodes a b) =
     (case (pn_items a, pn_items b) of
        (Some x, Some y) \<Rightarrow> Some (merge_nodes x y)
      | (Some x, None) \<Rightarrow> Some (withdraw_children x)
      | (None, Some y) \<Rightarrow> Some (withdraw_children y)
      | (None, None) \<Rightarrow> None)"
  by (cases a; cases b; simp add: merge_nodes.simps Let_def)+

lemma tree_ok_fold_soften: "tree_ok fs \<Longrightarrow> tree_ok (fold soften_key ks fs)"
  by (induction ks arbitrary: fs) (simp_all add: tree_ok_soften)

lemma tree_ok_fold_merge:
  assumes "tree_ok fs" "\<And>k v. (k, v) \<in> set gs \<Longrightarrow> node_ok v" "\<And>e k v. (k, v) \<in> set gs \<Longrightarrow> node_ok e \<Longrightarrow> node_ok (f e v)"
  shows "tree_ok (fold (\<lambda>(k, v) out. bt_insert k (case map_of out k of Some e \<Rightarrow> f e v | None \<Rightarrow> v) out) gs fs)"
  using assms
proof (induction gs arbitrary: fs)
  case (Cons g gs)
  obtain k v where g: "g = (k, v)" by fastforce
  have "node_ok (case map_of fs k of Some e \<Rightarrow> f e v | None \<Rightarrow> v)"
    using Cons.prems(2) [of k v] Cons.prems(3) [of k v] tree_okD [OF Cons.prems(1), of k] by (auto simp: g split: option.split)
  with Cons.prems(1) have "tree_ok (bt_insert k (case map_of fs k of Some e \<Rightarrow> f e v | None \<Rightarrow> v) fs)" by (rule tree_ok_insert)
  moreover have "\<And>k v. (k, v) \<in> set gs \<Longrightarrow> node_ok v" "\<And>e k v. (k, v) \<in> set gs \<Longrightarrow> node_ok e \<Longrightarrow> node_ok (f e v)"
    using Cons.prems(2,3) by (meson list.set_intros(2))+
  ultimately show ?case using Cons.IH by (simp add: g)
qed simp

lemma node_ok_iff: "node_ok n \<longleftrightarrow> tree_ok (pn_fields n) \<and> (\<forall>x. pn_items n = Some x \<longrightarrow> node_ok x \<and> pn_presence x = Always)"
  by (cases n) (auto simp: tree_ok_simps)

lemma node_ok_merge: "node_ok a \<Longrightarrow> node_ok b \<Longrightarrow> node_ok (merge_nodes a b)"
proof (induction a b rule: merge_nodes.induct)
  case (1 p fs it q gs jt)
  have "tree_ok (fold (\<lambda>(k, v) out. bt_insert k (case map_of out k of Some e \<Rightarrow> merge_nodes e v | None \<Rightarrow> v) out) gs fs)"
  proof (rule tree_ok_fold_merge)
    show "tree_ok fs" using "1.prems"(1) by (simp add: tree_ok_simps)
    fix k v assume kv: "(k, v) \<in> set gs"
    then show v: "node_ok v" using "1.prems"(2) by auto
    show "node_ok (merge_nodes e v)" if e: "node_ok e" for e
    proof -
      have "map_of [(k, e)] k = Some e" by simp
      from "1.IH"(1) [OF refl refl kv refl this e v] show ?thesis .
    qed
  qed
  then have "tree_ok (pn_fields (merge_nodes (Pnode p fs it) (Pnode q gs jt)))"
    by (simp add: merge_nodes.simps Let_def tree_ok_fold_soften)
  moreover have "node_ok x \<and> pn_presence x = Always" if "pn_items (merge_nodes (Pnode p fs it) (Pnode q gs jt)) = Some x" for x
    using that "1.prems" "1.IH"(2) by (auto split: option.splits intro: node_ok_withdraw)
  ultimately show ?case by (intro iffD2 [OF node_ok_iff]) blast
qed


lemma merge_step_maps:
  "map_of (fst (merge_step x (a, b, out))) = (map_of a)(x := None)"
  "map_of (fst (snd (merge_step x (a, b, out)))) = (map_of b)(x := None)"
  "map_of (snd (snd (merge_step x (a, b, out))))
   = (case merged (map_of a x) (map_of b x) of None \<Rightarrow> map_of out | Some n \<Rightarrow> (map_of out)(x \<mapsto> n))"
  by (cases "map_of a x"; cases "map_of b x"; simp add: merge_step_def merged_def fun_upd_idem)+

lemma fold_merge_step:
  assumes "fold merge_step ks (a, b, out) = (a', b', out')"
  shows "map_of out' k = (if k \<in> set ks \<and> merged (map_of a k) (map_of b k) \<noteq> None then merged (map_of a k) (map_of b k) else map_of out k)"
  using assms
proof (induction ks arbitrary: a b out)
  case (Cons x ks)
  obtain a1 b1 out1 where st: "merge_step x (a, b, out) = (a1, b1, out1)" by (metis prod_cases3)
  have "map_of a1 = (map_of a)(x := None)" "map_of b1 = (map_of b)(x := None)"
    "map_of out1 = (case merged (map_of a x) (map_of b x) of None \<Rightarrow> map_of out | Some n \<Rightarrow> (map_of out)(x \<mapsto> n))"
    using merge_step_maps [of x a b out] by (simp_all add: st)
  with Cons.IH [of a1 b1 out1] Cons.prems st show ?case
    by (cases "merged (map_of a x) (map_of b x)") (auto simp: merged_def)
qed simp

lemma map_of_merge_sites: "map_of (merge_sites a b) k = merged (map_of a k) (map_of b k)"
proof -
  obtain a' b' out where f: "fold merge_step (map fst a @ map fst b) (a, b, []) = (a', b', out)" by (metis prod_cases3)
  have "merged (map_of a k) (map_of b k) = None" if "k \<notin> set (map fst a @ map fst b)"
    using that by (simp add: merged_def map_of_eq_None_iff [THEN iffD2])
  then show ?thesis using fold_merge_step [OF f, of k] by (simp only: merge_sites_def f snd_conv) (cases "k \<in> set (map fst a @ map fst b)"; simp)
qed

lemma fold_merge_step_ok:
  "tree_ok a \<Longrightarrow> tree_ok b \<Longrightarrow> tree_ok out \<Longrightarrow> tree_ok (snd (snd (fold merge_step ks (a, b, out))))"
proof (induction ks arbitrary: a b out)
  case (Cons x ks)
  have r: "tree_ok (bt_remove x t)" if "tree_ok t" for t
    using that by (auto simp: tree_ok_simps bt_remove_def sorted_wrt_filter_ok)
  obtain a1 b1 out1 where st: "merge_step x (a, b, out) = (a1, b1, out1)" by (metis prod_cases3)
  then have "tree_ok a1 \<and> tree_ok b1 \<and> tree_ok out1"
    using Cons.prems by (auto simp: merge_step_def r intro!: tree_ok_insert node_ok_merge split: option.splits dest: tree_okD)
  with Cons.IH st show ?case by simp
qed simp

lemma tree_ok_merge_sites: "tree_ok a \<Longrightarrow> tree_ok b \<Longrightarrow> tree_ok (merge_sites a b)"
  unfolding merge_sites_def by (rule fold_merge_step_ok) simp_all

section \<open>What a merged tree claims\<close>

text \<open>
  A key is claimed along a path when every verdict down to it says \<open>Always\<close>: whatever the call sites
  send, the parents are there and so is the key.
\<close>

datatype pstep = Field string | Item

fun claimed :: "pnode \<Rightarrow> pstep list \<Rightarrow> bool" where
  "claimed n [] \<longleftrightarrow> pn_presence n = Always"
| "claimed n (Field k # path) \<longleftrightarrow> pn_presence n = Always \<and> (case map_of (pn_fields n) k of None \<Rightarrow> False | Some c \<Rightarrow> claimed c path)"
| "claimed n (Item # path) \<longleftrightarrow> pn_presence n = Always \<and> (case pn_items n of None \<Rightarrow> False | Some c \<Rightarrow> claimed c path)"

definition claims :: "site_tree \<Rightarrow> pstep list \<Rightarrow> bool" where
  "claims t path = claimed (Pnode Always t None) path"

lemma claimed_presence: "claimed n path \<Longrightarrow> pn_presence n = Always"
  by (cases "(n, path)" rule: claimed.cases) auto

lemma claimed_withdraw: "Field k \<in> set path \<Longrightarrow> \<not> claimed (withdraw_children n) path"
proof (induction path arbitrary: n)
  case (Cons st path)
  show ?case
  proof (cases st)
    case (Field j)
    then show ?thesis
      using claimed_presence [of "withdraw _" path] by (auto simp: map_of_map_value split: option.splits)
  next
    case Item
    with Cons show ?thesis by (auto split: option.splits)
  qed
qed simp

lemma merge_claimed:
  "node_ok b \<Longrightarrow> path = [] \<or> (\<exists>k. last path = Field k) \<Longrightarrow>
   claimed (merge_nodes a b) path \<longleftrightarrow> claimed a path \<and> claimed b path"
proof (induction path arbitrary: a b)
  case (Cons st path)
  have p: "path = [] \<or> (\<exists>k. last path = Field k)" using Cons.prems(2) by (auto split: if_splits)
  show ?case
  proof (cases st)
    case (Field k)
    have soft: "\<not> claimed (weaken Conditional n) path" for n
      using claimed_presence [of "weaken Conditional n" path] by auto
    have "node_ok r" if "map_of (pn_fields b) k = Some r" for r
      using Cons.prems(1) that tree_okD node_ok_iff by blast
    with Cons.IH [OF _ p] soft show ?thesis
      by (auto simp: Field map_of_merge_nodes [OF Cons.prems(1)] merged_def split: option.splits)
  next
    case Item
    with Cons.prems(2) obtain k where k: "path \<noteq> []" "last path = Field k" by (auto split: if_splits)
    then have "Field k \<in> set path" by (metis last_in_set)
    then have wd: "\<not> claimed (withdraw_children n) path" for n by (rule claimed_withdraw)
    have "node_ok r" if "pn_items b = Some r" for r using Cons.prems(1) that node_ok_iff by blast
    with Cons.IH [OF _ p] wd show ?thesis by (auto simp: Item split: option.splits)
  qed
qed simp

lemma merge_sites_claims:
  assumes "tree_ok b" "path \<noteq> [] \<Longrightarrow> \<exists>k. last path = Field k"
  shows "claims (merge_sites a b) path \<longleftrightarrow> claims a path \<and> claims b path"
proof -
  let ?r = "\<lambda>t. Pnode Always t None"
  have ok: "node_ok (?r b)" using assms(1) by (simp add: tree_ok_def)
  have "map_of (pn_fields (merge_nodes (?r a) (?r b))) = map_of (merge_sites a b)"
    by (rule ext) (simp add: map_of_merge_nodes [OF ok] map_of_merge_sites)
  then have "claimed (?r (merge_sites a b)) path = claimed (merge_nodes (?r a) (?r b)) path"
    by (cases path rule: list.exhaust; cases "hd path") simp_all
  then show ?thesis using merge_claimed [OF ok] assms(2) by (auto simp: claims_def)
qed

section \<open>Aligning with the typed shape\<close>

definition is_leaf :: "typenode \<Rightarrow> bool" where
  "is_leaf n \<longleftrightarrow> (case n of TLeaf _ \<Rightarrow> True | _ \<Rightarrow> False)"

lemma typenode_child_size: "(k, c) \<in> set m \<Longrightarrow> 2 * size c < Suc (2 * size_list (size_prod (\<lambda>_. 0) size) m)"
  for k :: string and c :: typenode
  using size_snd_in [of k c m] by simp

function align_node :: "typenode \<Rightarrow> pnode \<Rightarrow> pnode"
  and align_with_shape :: "(string \<times> typenode) list \<Rightarrow> site_tree \<Rightarrow> site_tree" where
  "align_node (TObject fs) n = Pnode (pn_presence n) (align_with_shape fs (pn_fields n)) None"
| "align_node (TArray items) n =
     (case items of
        element # _ \<Rightarrow>
          if is_leaf element then Pnode (pn_presence n) [] None
          else Pnode (pn_presence n) [] (Some (align_node element (case pn_items n of Some x \<Rightarrow> x | None \<Rightarrow> pn_leaf Always)))
      | [] \<Rightarrow> Pnode (pn_presence n) [] None)"
| "align_node (TLeaf t) n = Pnode (pn_presence n) [] None"
| "align_with_shape shape presence =
     fold (\<lambda>(key, node) out.
         bt_insert key (align_node node (case map_of out key of Some e \<Rightarrow> e | None \<Rightarrow> pn_leaf Undetermined)) out)
       shape [p \<leftarrow> presence. fst p \<in> fst ` set shape]"
  by pat_completeness auto
termination
  by (relation "measure (case_sum (\<lambda>(n, _). 2 * size n) (\<lambda>(m, _). Suc (2 * size_list (size_prod (\<lambda>_. 0) size) m)))")
    (auto dest: typenode_child_size)

section \<open>Tallies\<close>

record presence_counts =
  presence_always :: nat
  presence_conditional :: nat
  presence_undetermined :: nat

definition count_one :: "variable_presence \<Rightarrow> presence_counts \<Rightarrow> presence_counts" where
  "count_one p c =
     (case p of
        Always \<Rightarrow> c\<lparr>presence_always := presence_always c + 1\<rparr>
      | Conditional \<Rightarrow> c\<lparr>presence_conditional := presence_conditional c + 1\<rparr>
      | Undetermined \<Rightarrow> c\<lparr>presence_undetermined := presence_undetermined c + 1\<rparr>)"

function count_keys_under :: "pnode \<Rightarrow> presence_counts \<Rightarrow> presence_counts"
  and count_presence :: "site_tree \<Rightarrow> presence_counts \<Rightarrow> presence_counts" where
  "count_keys_under (Pnode p fs it) c =
     (let c1 = count_presence fs c in case it of Some x \<Rightarrow> count_keys_under x c1 | None \<Rightarrow> c1)"
| "count_presence t c = fold (\<lambda>(k, n) c. count_keys_under n (count_one (pn_presence n) c)) t c"
  by pat_completeness auto
termination
  by (relation "measure (case_sum (\<lambda>(n, _). 2 * size n) (\<lambda>(t, _). 2 * size_list (size_prod (\<lambda>_. 0) size) t + 1))")
    (auto dest: pnode_list_size)

fun all_always :: "pnode \<Rightarrow> bool" where
  "all_always (Pnode p fs it) \<longleftrightarrow>
     p = Always \<and> list_all (\<lambda>(k, c). all_always c) fs \<and> (case it of None \<Rightarrow> True | Some x \<Rightarrow> all_always x)"

section \<open>The parity check of the linter\<close>

text \<open>
  \<open>_check_presence_level\<close> over a document as the serializer writes it - an empty \<open>fields\<close> and an absent
  \<open>items\<close> are left out.  \<open>None\<close> is a reported error, \<open>Some\<close> the count of undetermined verdicts.
\<close>

definition add_opt :: "nat option \<Rightarrow> nat option \<Rightarrow> nat option" where
  "add_opt a b = Option.bind a (\<lambda>x. map_option ((+) x) b)"

function check_node :: "typenode \<Rightarrow> pnode \<Rightarrow> nat option"
  and check_presence_level :: "(string \<times> typenode) list \<Rightarrow> site_tree \<Rightarrow> nat option" where
  "check_node typed n =
     add_opt (Some (if pn_presence n = Undetermined then 1 else 0))
       (add_opt
         (case typed of
            TObject fs \<Rightarrow> check_presence_level fs (pn_fields n)
          | _ \<Rightarrow> if pn_fields n = [] then Some 0 else None)
         (case typed of
            TArray (element # _) \<Rightarrow>
              if is_leaf element then (if pn_items n = None then Some 0 else None)
              else (case pn_items n of
                      None \<Rightarrow> None
                    | Some item \<Rightarrow> if pn_presence item = Always then check_node element item else None)
          | _ \<Rightarrow> if pn_items n = None then Some 0 else None))"
| "check_presence_level shape presence =
     (if fst ` set shape \<noteq> fst ` set presence then None
      else foldr (\<lambda>(key, typed). add_opt (case map_of presence key of None \<Rightarrow> None | Some n \<Rightarrow> check_node typed n)) shape (Some 0))"
  by pat_completeness auto
termination
  by (relation "measure (case_sum (\<lambda>(n, _). 2 * size n) (\<lambda>(m, _). Suc (2 * size_list (size_prod (\<lambda>_. 0) size) m)))")
    (auto dest: typenode_child_size)

declare align_with_shape.simps [simp del] count_presence.simps [simp del] check_node.simps [simp del]
  check_presence_level.simps [simp del]

section \<open>What a published tree satisfies\<close>

inductive typed_ok :: "typenode \<Rightarrow> bool" where
  "typed_ok (TLeaf t)"
| "bt_ok m \<Longrightarrow> \<forall>(k, n) \<in> set m. typed_ok n \<Longrightarrow> typed_ok (TObject m)"
| "\<forall>n \<in> set items. typed_ok n \<Longrightarrow> typed_ok (TArray items)"

inductive_simps typed_ok_simps [simp]: "typed_ok (TLeaf t)" "typed_ok (TObject m)" "typed_ok (TArray items)"

definition or_leaf :: "variable_presence \<Rightarrow> pnode option \<Rightarrow> pnode" where
  "or_leaf p x = (case x of Some n \<Rightarrow> n | None \<Rightarrow> pn_leaf p)"

lemma map_of_fold_align:
  assumes "distinct (map fst shape)"
  shows "map_of (fold (\<lambda>(key, node) out. bt_insert key (f node (map_of out key)) out) shape t) k
    = (case map_of shape k of Some node \<Rightarrow> Some (f node (map_of t k)) | None \<Rightarrow> map_of t k)"
  using assms
proof (induction shape arbitrary: t)
  case (Cons g gs)
  obtain x v where g: "g = (x, v)" by fastforce
  with Cons.prems have "map_of gs x = None" by (auto simp: map_of_eq_None_iff)
  with Cons g show ?case by (auto split: option.split)
qed simp

lemma align_list:
  assumes "bt_ok shape" "bt_ok t"
  shows "align_with_shape shape t = map (\<lambda>(k, node). (k, align_node node (or_leaf Undetermined (map_of t k)))) shape"
proof (rule bt_ok_unique)
  let ?t = "[p \<leftarrow> t. fst p \<in> fst ` set shape]"
  have f: "align_with_shape shape t
    = fold (\<lambda>(key, node) out. bt_insert key (align_node node (or_leaf Undetermined (map_of out key))) out) shape ?t"
    by (simp add: align_with_shape.simps or_leaf_def)
  have "bt_ok ?t" using assms(2) by (rule sorted_wrt_filter_ok)
  then show "bt_ok (align_with_shape shape t)"
    unfolding f by (rule fold_keeps) (auto simp: bt_ok_insert)
  show "bt_ok (map (\<lambda>(k, node). (k, align_node node (or_leaf Undetermined (map_of t k)))) shape)"
    using assms(1) by (simp add: comp_def case_prod_unfold)
  show "map_of (align_with_shape shape t)
    = map_of (map (\<lambda>(k, node). (k, align_node node (or_leaf Undetermined (map_of t k)))) shape)"
  proof (rule ext)
    fix k
    have "map_of ?t k = (if k \<in> fst ` set shape then map_of t k else None)"
      by (induction t) auto
    moreover have "map_of shape k = None \<longleftrightarrow> k \<notin> fst ` set shape" by (simp add: map_of_eq_None_iff)
    ultimately show "map_of (align_with_shape shape t) k
      = map_of (map (\<lambda>(k, node). (k, align_node node (or_leaf Undetermined (map_of t k)))) shape) k"
      unfolding f map_of_map_value
      by (subst map_of_fold_align [OF bt_ok_distinct [OF assms(1)]]) (auto split: option.split)
  qed
qed

text \<open>The undetermined verdicts under a node, and the claims an alignment keeps.\<close>

fun undetermined_under :: "pnode \<Rightarrow> nat" where
  "undetermined_under (Pnode p fs it) =
     sum_list (map (\<lambda>(k, n). of_bool (pn_presence n = Undetermined) + undetermined_under n) fs)
     + (case it of None \<Rightarrow> 0 | Some x \<Rightarrow> undetermined_under x)"

fun doubted_under :: "pnode \<Rightarrow> nat" where
  "doubted_under (Pnode p fs it) =
     sum_list (map (\<lambda>(k, n). of_bool (pn_presence n \<noteq> Always) + doubted_under n) fs)
     + (case it of None \<Rightarrow> 0 | Some x \<Rightarrow> doubted_under x)"

lemma count_one_sel [simp]:
  "presence_undetermined (count_one p c) = presence_undetermined c + of_bool (p = Undetermined)"
  "presence_conditional (count_one p c) = presence_conditional c + of_bool (p = Conditional)"
  by (cases p; simp add: count_one_def)+

lemma fold_adds:
  assumes "\<And>x c. x \<in> set xs \<Longrightarrow> m (f x c) = m c + (g x :: nat)"
  shows "m (fold f xs c) = m c + sum_list (map g xs)"
  using assms by (induction xs arbitrary: c) auto

lemma count_keys_under_sums:
  "presence_undetermined (count_keys_under n c) = presence_undetermined c + undetermined_under n"
  "presence_conditional (count_keys_under n c) + presence_undetermined (count_keys_under n c)
   = presence_conditional c + presence_undetermined c + doubted_under n"
proof (induction n arbitrary: c)
  case (Pnode p fs it)
  have f: "presence_undetermined (count_presence fs c) = presence_undetermined c
      + sum_list (map (\<lambda>(k, n). of_bool (pn_presence n = Undetermined) + undetermined_under n) fs)" for c
    unfolding count_presence.simps
    by (rule fold_adds [where m = presence_undetermined]) (auto simp: Pnode.IH(1))
  have g: "presence_conditional (count_presence fs c) + presence_undetermined (count_presence fs c)
      = presence_conditional c + presence_undetermined c
      + sum_list (map (\<lambda>(k, n). of_bool (pn_presence n \<noteq> Always) + doubted_under n) fs)" for c
    unfolding count_presence.simps
  proof (rule fold_adds [where m = "\<lambda>c. presence_conditional c + presence_undetermined c"])
    fix x c assume x: "x \<in> set fs"
    obtain k n where kn: "x = (k, n)" by fastforce
    show "presence_conditional ((case x of (k, n) \<Rightarrow> \<lambda>c. count_keys_under n (count_one (pn_presence n) c)) c)
        + presence_undetermined ((case x of (k, n) \<Rightarrow> \<lambda>c. count_keys_under n (count_one (pn_presence n) c)) c)
      = presence_conditional c + presence_undetermined c
        + (case x of (k, n) \<Rightarrow> of_bool (pn_presence n \<noteq> Always) + doubted_under n)"
      using Pnode.IH(2) [of x n] x by (cases "pn_presence n") (simp_all add: kn)
  qed
  {
    case 1
    show ?case using Pnode.IH(3) by (cases it) (simp_all add: f)
  next
    case 2
    show ?case using Pnode.IH(4) g by (cases it) simp_all
  }
qed


definition no_counts :: presence_counts where
  "no_counts = \<lparr>presence_always = 0, presence_conditional = 0, presence_undetermined = 0\<rparr>"

lemma count_presence_sums:
  "presence_undetermined (count_presence t no_counts) = undetermined_under (Pnode Always t None)"
  "presence_conditional (count_presence t no_counts) + presence_undetermined (count_presence t no_counts)
   = doubted_under (Pnode Always t None)"
  using count_keys_under_sums [of "Pnode Always t None" no_counts] by (simp_all add: no_counts_def)

lemma all_always_iff: "node_ok n \<Longrightarrow> all_always n \<longleftrightarrow> pn_presence n = Always \<and> doubted_under n = 0"
proof (induction n)
  case (Pnode p fs it)
  have "all_always x \<longleftrightarrow> doubted_under x = 0" if "it = Some x" for x
    using Pnode.IH(2) Pnode.prems that by auto
  moreover have "all_always c \<longleftrightarrow> pn_presence c = Always \<and> doubted_under c = 0" if "(k, c) \<in> set fs" for k c
    using Pnode.IH(1) [OF that, of c] Pnode.prems that by auto
  ultimately show ?case by (cases it) (auto simp: list_all_iff sum_list_eq_0_iff)
qed

lemma foldr_add_opt:
  assumes "\<And>k ty. (k, ty) \<in> set xs \<Longrightarrow> f k ty = Some (g k ty)"
  shows "foldr (\<lambda>(k, ty). add_opt (f k ty)) xs (Some 0) = Some (sum_list (map (\<lambda>(k, ty). g k ty) xs))"
  using assms by (induction xs) (auto simp: add_opt_def)

lemma aligned_level_checks:
  assumes "bt_ok shape" "tree_ok t"
    and "\<And>k ty n. (k, ty) \<in> set shape \<Longrightarrow> node_ok n \<Longrightarrow>
      check_node ty (align_node ty n) = Some (of_bool (pn_presence n = Undetermined) + undetermined_under (align_node ty n))"
    and "\<And>ty n. pn_presence (align_node ty n) = pn_presence n"
  shows "check_presence_level shape (align_with_shape shape t) = Some (undetermined_under (Pnode Always (align_with_shape shape t) None))"
proof -
  let ?n = "\<lambda>k ty. align_node ty (or_leaf Undetermined (map_of t k))"
  have al: "align_with_shape shape t = map (\<lambda>(k, ty). (k, ?n k ty)) shape"
    using align_list [OF assms(1)] assms(2) by (simp add: tree_ok_simps)
  have "(case map_of (align_with_shape shape t) k of None \<Rightarrow> None | Some n \<Rightarrow> check_node ty n)
      = Some (of_bool (pn_presence (?n k ty) = Undetermined) + undetermined_under (?n k ty))" if "(k, ty) \<in> set shape" for k ty
  proof -
    have "map_of shape k = Some ty" using that bt_ok_distinct [OF assms(1)] by simp
    moreover have "node_ok (or_leaf Undetermined (map_of t k))"
      using tree_okD [OF assms(2)] by (auto simp: or_leaf_def split: option.split)
    ultimately show ?thesis using assms(3) [OF that] by (simp add: al map_of_map_value assms(4))
  qed
  from foldr_add_opt [where f = "\<lambda>k ty. case map_of (align_with_shape shape t) k of None \<Rightarrow> None | Some n \<Rightarrow> check_node ty n", OF this]
  have "foldr (\<lambda>(k, ty). add_opt (case map_of (align_with_shape shape t) k of None \<Rightarrow> None | Some n \<Rightarrow> check_node ty n)) shape (Some 0)
    = Some (sum_list (map (\<lambda>(k, ty). of_bool (pn_presence (?n k ty) = Undetermined) + undetermined_under (?n k ty)) shape))" .
  moreover have "fst ` set (align_with_shape shape t) = fst ` set shape" by (force simp: al)
  ultimately show ?thesis
    by (simp add: check_presence_level.simps al comp_def case_prod_unfold)
qed

lemma align_node_presence [simp]: "pn_presence (align_node ty n) = pn_presence n"
  by (cases ty) (simp_all split: list.split)

lemma aligned_node_checks:
  "typed_ok ty \<Longrightarrow> node_ok n \<Longrightarrow>
   check_node ty (align_node ty n) = Some (of_bool (pn_presence n = Undetermined) + undetermined_under (align_node ty n))"
proof (induction ty arbitrary: n)
  case (TObject fs)
  have "check_presence_level fs (align_with_shape fs (pn_fields n))
    = Some (undetermined_under (Pnode Always (align_with_shape fs (pn_fields n)) None))"
    using TObject by (intro aligned_level_checks) (auto simp: node_ok_iff [of n])
  then show ?case by (simp add: check_node.simps [of "TObject fs"] add_opt_def)
next
  case (TArray items)
  show ?case
  proof (cases items)
    case Nil
    then show ?thesis by (simp add: check_node.simps [of "TArray []"] add_opt_def)
  next
    case (Cons el rest)
    let ?x = "or_leaf Always (pn_items n)"
    have x: "node_ok ?x" "pn_presence ?x = Always"
      using TArray.prems(2) by (auto simp: or_leaf_def node_ok_iff [of n] pn_leaf_def split: option.split)
    have "check_node el (align_node el ?x) = Some (undetermined_under (align_node el ?x))"
      using TArray.IH [of el ?x] TArray.prems(1) x by (simp add: Cons)
    then show ?thesis
      using x(2) by (simp add: Cons check_node.simps [of "TArray (el # rest)"] add_opt_def or_leaf_def)
  qed
next
  case (TLeaf t)
  then show ?case by (simp add: check_node.simps [of "TLeaf t"] add_opt_def)
qed

lemma align_claims_node:
  "typed_ok ty \<Longrightarrow> node_ok n \<Longrightarrow> path = [] \<or> (\<exists>k. last path = Field k) \<Longrightarrow> claimed (align_node ty n) path \<Longrightarrow> claimed n path"
proof (induction path arbitrary: ty n)
  case (Cons st path)
  have p: "path = [] \<or> (\<exists>k. last path = Field k)" using Cons.prems(3) by (auto split: if_splits)
  note ok = Cons.prems(2) [unfolded node_ok_iff [of n]]
  show ?case
  proof (cases st)
    case (Field k)
    with Cons.prems(4) obtain fs where ty: "ty = TObject fs" by (cases ty) (auto split: list.splits if_splits)
    with Cons.prems(1) have fs: "bt_ok fs" "\<And>k t. (k, t) \<in> set fs \<Longrightarrow> typed_ok t" by auto
    have t: "tree_ok (pn_fields n)" "bt_ok (pn_fields n)" using ok by (auto simp: tree_ok_simps)
    from Cons.prems(4) obtain t where "map_of fs k = Some t" "claimed (align_node t (or_leaf Undetermined (map_of (pn_fields n) k))) path"
      by (auto simp: Field ty align_list [OF fs(1) t(2)] map_of_map_value split: option.splits)
    moreover have "node_ok (or_leaf Undetermined (map_of (pn_fields n) k))"
      using tree_okD [OF t(1)] by (auto simp: or_leaf_def split: option.split)
    ultimately have "claimed (or_leaf Undetermined (map_of (pn_fields n) k)) path"
      using Cons.IH p fs(2) by (meson map_of_SomeD)
    then show ?thesis
      using Cons.prems(4) claimed_presence [of "pn_leaf Undetermined" path]
      by (auto simp: Field or_leaf_def pn_leaf_def ty split: option.splits)
  next
    case Item
    with Cons.prems(3) have ne: "path \<noteq> []" "\<exists>k. last path = Field k" by (auto split: if_splits)
    from Cons.prems(4) obtain el rest where ty: "ty = TArray (el # rest)" "\<not> is_leaf el"
      "claimed (align_node el (or_leaf Always (pn_items n))) path"
      by (cases ty) (auto simp: Item or_leaf_def split: list.splits if_splits)
    have "node_ok (or_leaf Always (pn_items n))" using ok by (auto simp: or_leaf_def split: option.split)
    from Cons.IH [OF _ this p ty(3)] Cons.prems(1) have "claimed (or_leaf Always (pn_items n)) path" by (simp add: ty(1))
    moreover have "\<not> claimed (pn_leaf Always) path"
      using ne(1) by (cases path rule: list.exhaust; cases "hd path") (auto simp: pn_leaf_def)
    ultimately show ?thesis
      using Cons.prems(4) by (auto simp: Item or_leaf_def ty split: option.splits)
  qed
qed (simp add: claimed_presence)

lemma align_node_ok: "typed_ok ty \<Longrightarrow> node_ok n \<Longrightarrow> node_ok (align_node ty n)"
proof (induction ty arbitrary: n)
  case (TObject fs)
  note t = TObject.prems(2) [unfolded node_ok_iff [of n]]
  have "node_ok (align_node x (or_leaf Undetermined (map_of (pn_fields n) k)))" if "(k, x) \<in> set fs" for k x
  proof -
    have "node_ok (or_leaf Undetermined (map_of (pn_fields n) k))"
      using tree_okD [of "pn_fields n"] t by (auto simp: or_leaf_def split: option.split)
    then show ?thesis using TObject.IH [OF that, of x] TObject.prems(1) that by auto
  qed
  moreover have fs: "bt_ok fs" "bt_ok (pn_fields n)" using TObject.prems(1) t by (auto simp: tree_ok_simps)
  ultimately have "tree_ok (align_with_shape fs (pn_fields n))"
    unfolding align_list [OF fs] tree_ok_simps by (auto simp: comp_def case_prod_unfold)
  then show ?case by (simp add: tree_ok_simps)
next
  case (TArray items)
  then have "node_ok (or_leaf Always (pn_items n)) \<and> pn_presence (or_leaf Always (pn_items n)) = Always"
    by (auto simp: or_leaf_def node_ok_iff [of n] pn_leaf_def split: option.split)
  with TArray show ?case by (auto simp: or_leaf_def split: list.split)
qed simp

text \<open>
  C18: Publishing.  Aligned with the typed shape, a presence tree whose list elements carry no verdict of
  their own passes the linter's parity check at every level; the undetermined verdicts the linter counts
  are those the extractor counted; an operation counts as fully determined exactly when no verdict below
  it is tallied as conditional or undetermined; and alignment claims no key the tree did not claim.
\<close>

theorem aligned_tree_passes_lint:
  fixes shape tree
  defines "aligned \<equiv> align_with_shape shape tree"
  assumes "typed_ok (TObject shape)" and "tree_ok tree"
  shows "check_presence_level shape aligned = Some (presence_undetermined (count_presence aligned no_counts))
    \<and> (list_all (all_always \<circ> snd) aligned \<longleftrightarrow>
         presence_conditional (count_presence aligned no_counts) + presence_undetermined (count_presence aligned no_counts) = 0)
    \<and> (\<forall>path k. claims aligned (path @ [Field k]) \<longrightarrow> claims tree (path @ [Field k]))"
proof (intro conjI allI impI)
  have shape: "bt_ok shape" "\<And>k ty. (k, ty) \<in> set shape \<Longrightarrow> typed_ok ty" using assms(2) by auto
  show "check_presence_level shape aligned = Some (presence_undetermined (count_presence aligned no_counts))"
    unfolding count_presence_sums aligned_def
    by (rule aligned_level_checks [OF shape(1) assms(3)]) (simp_all add: aligned_node_checks shape(2))
  have al: "Pnode Always aligned None = align_node (TObject shape) (Pnode Always tree None)" by (simp add: aligned_def)
  have ok: "node_ok (Pnode Always tree None)" using assms(3) by (simp add: tree_ok_def)
  have "node_ok (Pnode Always aligned None)" unfolding al by (rule align_node_ok [OF assms(2) ok])
  from all_always_iff [OF this] show "list_all (all_always \<circ> snd) aligned \<longleftrightarrow>
      presence_conditional (count_presence aligned no_counts) + presence_undetermined (count_presence aligned no_counts) = 0"
    unfolding count_presence_sums(2) by (simp add: comp_def case_prod_unfold)
  fix path k
  assume "claims aligned (path @ [Field k])"
  then show "claims tree (path @ [Field k])"
    unfolding claims_def al by (rule align_claims_node [OF assms(2) ok, rotated]) simp
qed

theorem aligned_tree_passes_lint_witness:
  "let shape = [(''ids'', TArray [TObject [(''a'', TLeaf ''string'')]]), (''on'', TLeaf ''boolean'')];
       tree = [(''ids'', Pnode Always [] (Some (Pnode Always [(''a'', pn_leaf Always), (''b'', pn_leaf Conditional)] None)))]
   in check_presence_level shape (align_with_shape shape tree) = Some 1 \<and> \<not> claims (align_with_shape shape tree) [Field ''on'']"
proof -
  let ?shape = "[(''ids'', TArray [TObject [(''a'', TLeaf ''string'')]]), (''on'', TLeaf ''boolean'')]"
  let ?tree = "[(''ids'', Pnode Always [] (Some (Pnode Always [(''a'', pn_leaf Always), (''b'', pn_leaf Conditional)] None)))]"
  have "bt_ok ?shape" "bt_ok (pn_fields (Pnode Always [(''a'', pn_leaf Always), (''b'', pn_leaf Conditional)] None))"
    by code_simp+
  then have "typed_ok (TObject ?shape)" "tree_ok ?tree" by (simp_all add: tree_ok_simps)
  note t = aligned_tree_passes_lint [OF this]
  have c: "presence_undetermined (count_presence (align_with_shape ?shape ?tree) no_counts) = 1" by code_simp
  have n: "\<not> claims ?tree [Field ''on'']" by code_simp
  from t c have 1: "check_presence_level ?shape (align_with_shape ?shape ?tree) = Some 1" by simp
  from t n have 2: "\<not> claims (align_with_shape ?shape ?tree) [Field ''on'']" by (metis append_Nil)
  from 1 2 show ?thesis unfolding Let_def by (rule conjI)
qed

end
