(* ===== verification/MexDefined.thy ===== *)
theory MexDefined
  imports MexPresence
begin

text \<open>
  The judgements of \<open>crates/wa-mex/src/presence.rs\<close> on a value: whether it can be \<open>undefined\<close>, whether the
  key holding it reaches the wire, whether it can be called, where a handle comes from.  They are proved
  sound against the values an evaluation can give.
\<close>

section \<open>The judgements\<close>

function definedness :: "scopes \<Rightarrow> pvalue \<Rightarrow> nat \<Rightarrow> definedness_t" where
  "definedness s v depth =
     (if MAX_DEPTH \<le> depth then Is_unjudged
      else (case v of
          Defined_v \<Rightarrow> Is_defined | Truthy_v \<Rightarrow> Is_defined | Null_v \<Rightarrow> Is_defined
        | Object_v _ \<Rightarrow> Is_defined | Array_v _ \<Rightarrow> Is_defined
        | MaybeUndefined_v \<Rightarrow> May_be_undefined | Read_v \<Rightarrow> May_be_undefined | Given_v \<Rightarrow> May_be_undefined
        | Dropped_v \<Rightarrow> May_be_undefined | WriteOnly_v \<Rightarrow> May_be_undefined
        | Unjudged_v \<Rightarrow> Is_unjudged | Call_v _ \<Rightarrow> Is_unjudged | Getter_v \<Rightarrow> Is_unjudged
        | OrElse_v lhs rhs \<Rightarrow>
            (case resolve_ref s lhs 0 of
               Truthy_v \<Rightarrow> definedness s lhs (depth + 1)
             | Object_v _ \<Rightarrow> definedness s lhs (depth + 1)
             | Array_v _ \<Rightarrow> definedness s lhs (depth + 1)
             | Dropped_v \<Rightarrow> May_be_undefined
             | Either_v a b \<Rightarrow> max (definedness s (OrElse_v a rhs) (depth + 1)) (definedness s (OrElse_v b rhs) (depth + 1))
             | _ \<Rightarrow> definedness s rhs (depth + 1))
        | Coalesce_v lhs rhs \<Rightarrow>
            (case resolve_ref s lhs 0 of
               Defined_v \<Rightarrow> definedness s lhs (depth + 1)
             | Truthy_v \<Rightarrow> definedness s lhs (depth + 1)
             | Object_v _ \<Rightarrow> definedness s lhs (depth + 1)
             | Array_v _ \<Rightarrow> definedness s lhs (depth + 1)
             | Dropped_v \<Rightarrow> May_be_undefined
             | Either_v a b \<Rightarrow> max (definedness s (Coalesce_v a rhs) (depth + 1)) (definedness s (Coalesce_v b rhs) (depth + 1))
             | _ \<Rightarrow> definedness s rhs (depth + 1))
        | AndThen_v lhs rhs \<Rightarrow>
            (case resolve_ref s lhs 0 of
               Dropped_v \<Rightarrow> definedness s rhs (depth + 1)
             | Null_v \<Rightarrow> Is_defined
             | _ \<Rightarrow> max (definedness s lhs (depth + 1)) (definedness s rhs (depth + 1)))
        | Either_v a b \<Rightarrow> max (definedness s a (depth + 1)) (definedness s b (depth + 1))
        | Ref_v name \<Rightarrow>
            (case lookup s name of
               Some bound \<Rightarrow> definedness s bound (depth + 1)
             | None \<Rightarrow> if name = ''NaN'' \<or> name = ''Infinity'' then Is_defined else May_be_undefined)))"
  by pat_completeness auto
termination by (relation "measure (\<lambda>(s, v, depth). MAX_DEPTH - depth)") auto

function may_be_undefined :: "scopes \<Rightarrow> pvalue \<Rightarrow> nat \<Rightarrow> bool" where
  "may_be_undefined s v depth =
     (if MAX_DEPTH \<le> depth then True
      else (case v of
          Defined_v \<Rightarrow> False | Truthy_v \<Rightarrow> False | Null_v \<Rightarrow> False | Object_v _ \<Rightarrow> False | Array_v _ \<Rightarrow> False
        | Dropped_v \<Rightarrow> False
        | MaybeUndefined_v \<Rightarrow> True | Read_v \<Rightarrow> True | Given_v \<Rightarrow> True | WriteOnly_v \<Rightarrow> True | Unjudged_v \<Rightarrow> True
        | Call_v _ \<Rightarrow> True | Getter_v \<Rightarrow> True
        | OrElse_v lhs rhs \<Rightarrow>
            (case resolve_ref s lhs 0 of
               Truthy_v \<Rightarrow> False | Object_v _ \<Rightarrow> False | Array_v _ \<Rightarrow> False | Dropped_v \<Rightarrow> False
             | _ \<Rightarrow> may_be_undefined s rhs (depth + 1))
        | Coalesce_v lhs rhs \<Rightarrow>
            (case resolve_ref s lhs 0 of
               Defined_v \<Rightarrow> False | Truthy_v \<Rightarrow> False | Object_v _ \<Rightarrow> False | Array_v _ \<Rightarrow> False | Dropped_v \<Rightarrow> False
             | _ \<Rightarrow> may_be_undefined s rhs (depth + 1))
        | AndThen_v lhs rhs \<Rightarrow>
            (case resolve_ref s lhs 0 of
               Null_v \<Rightarrow> False
             | _ \<Rightarrow> may_be_undefined s lhs (depth + 1) \<or> may_be_undefined s rhs (depth + 1))
        | Either_v lhs rhs \<Rightarrow> may_be_undefined s lhs (depth + 1) \<or> may_be_undefined s rhs (depth + 1)
        | Ref_v name \<Rightarrow>
            (case lookup s name of
               Some bound \<Rightarrow> may_be_undefined s bound (depth + 1)
             | None \<Rightarrow> name \<noteq> ''NaN'' \<and> name \<noteq> ''Infinity'')))"
  by pat_completeness auto
termination by (relation "measure (\<lambda>(s, v, depth). MAX_DEPTH - depth)") auto

function may_be_called :: "scopes \<Rightarrow> pvalue \<Rightarrow> nat \<Rightarrow> bool" where
  "may_be_called s v depth =
     (if MAX_DEPTH \<le> depth then True
      else (case resolve_ref s v 0 of
          Defined_v \<Rightarrow> False | Truthy_v \<Rightarrow> False | Null_v \<Rightarrow> False | Object_v _ \<Rightarrow> False | Array_v _ \<Rightarrow> False
        | Either_v a b \<Rightarrow> may_be_called s a (depth + 1) \<or> may_be_called s b (depth + 1)
        | OrElse_v a b \<Rightarrow> may_be_called s a (depth + 1) \<or> may_be_called s b (depth + 1)
        | Coalesce_v a b \<Rightarrow> may_be_called s a (depth + 1) \<or> may_be_called s b (depth + 1)
        | AndThen_v a b \<Rightarrow> may_be_called s a (depth + 1) \<or> may_be_called s b (depth + 1)
        | _ \<Rightarrow> True))"
  by pat_completeness auto
termination by (relation "measure (\<lambda>(s, v, depth). MAX_DEPTH - depth)") auto

declare definedness.simps [simp del] may_be_undefined.simps [simp del] may_be_called.simps [simp del]

section \<open>Where a handle comes from\<close>

function supplied_from_outside_at :: "scopes \<Rightarrow> pvalue \<Rightarrow> nat \<Rightarrow> bool" where
  "supplied_from_outside_at s v depth =
     (if MAX_DEPTH \<le> depth then True
      else (case resolve_ref s v 0 of
          Given_v \<Rightarrow> True | Read_v \<Rightarrow> True | Call_v _ \<Rightarrow> True
        | OrElse_v a b \<Rightarrow> supplied_from_outside_at s a (depth + 1) \<or> supplied_from_outside_at s b (depth + 1)
        | Coalesce_v a b \<Rightarrow> supplied_from_outside_at s a (depth + 1) \<or> supplied_from_outside_at s b (depth + 1)
        | AndThen_v a b \<Rightarrow> supplied_from_outside_at s a (depth + 1) \<or> supplied_from_outside_at s b (depth + 1)
        | Either_v a b \<Rightarrow> supplied_from_outside_at s a (depth + 1) \<or> supplied_from_outside_at s b (depth + 1)
        | _ \<Rightarrow> False))"
  by pat_completeness auto
termination by (relation "measure (\<lambda>(s, v, depth). MAX_DEPTH - depth)") auto

definition supplied_from_outside :: "scopes \<Rightarrow> pvalue \<Rightarrow> bool" where
  "supplied_from_outside s v = supplied_from_outside_at s v 0"

text \<open>The three module questions recurse alike; \<open>call\<close> judges a call, \<open>both\<close> combines two sides.\<close>

function names_module :: "(string option \<Rightarrow> bool) \<Rightarrow> (bool \<Rightarrow> bool \<Rightarrow> bool) \<Rightarrow> scopes \<Rightarrow> pvalue \<Rightarrow> nat \<Rightarrow> bool" where
  "names_module call both s v depth =
     (if MAX_DEPTH \<le> depth then False
      else (case v of
          Call_v name \<Rightarrow> call name
        | Either_v a b \<Rightarrow> both (names_module call both s a (depth + 1)) (names_module call both s b (depth + 1))
        | OrElse_v a b \<Rightarrow> both (names_module call both s a (depth + 1)) (names_module call both s b (depth + 1))
        | Coalesce_v a b \<Rightarrow> both (names_module call both s a (depth + 1)) (names_module call both s b (depth + 1))
        | AndThen_v _ rhs \<Rightarrow> names_module call both s rhs (depth + 1)
        | Ref_v name \<Rightarrow> (case lookup s name of Some bound \<Rightarrow> names_module call both s bound (depth + 1) | None \<Rightarrow> False)
        | _ \<Rightarrow> False))"
  by pat_completeness auto
termination by (relation "measure (\<lambda>(call, both, s, v, depth). MAX_DEPTH - depth)") auto

definition every_branch_names_a_module :: "scopes \<Rightarrow> pvalue \<Rightarrow> nat \<Rightarrow> bool" where
  "every_branch_names_a_module =
     names_module (\<lambda>name. case name of Some n \<Rightarrow> ends_with n ''.graphql'' | None \<Rightarrow> False) (\<and>)"

definition references_module :: "string \<Rightarrow> scopes \<Rightarrow> pvalue \<Rightarrow> nat \<Rightarrow> bool" where
  "references_module m = names_module (\<lambda>name. name = Some m) (\<and>)"

definition may_reference_module :: "string \<Rightarrow> scopes \<Rightarrow> pvalue \<Rightarrow> nat \<Rightarrow> bool" where
  "may_reference_module m = names_module (\<lambda>name. name = Some m) (\<or>)"

declare supplied_from_outside_at.simps [simp del] names_module.simps [simp del]

section \<open>Reading and writing recovered objects\<close>

function settle :: "scopes \<Rightarrow> pvalue \<Rightarrow> nat \<Rightarrow> pvalue" where
  "settle s v depth =
     (if MAX_DEPTH \<le> depth then v
      else (case v of
          Ref_v name \<Rightarrow> (case lookup s name of Some bound \<Rightarrow> settle s bound (depth + 1) | None \<Rightarrow> v)
        | Object_v props \<Rightarrow>
            Object_v (map (\<lambda>p. case p of
                Key_p k w \<Rightarrow> Key_p k (settle s w (depth + 1))
              | Spread_p w \<Rightarrow> Spread_p (settle s w (depth + 1))
              | Unreadable_p \<Rightarrow> Unreadable_p) props)
        | Array_v items \<Rightarrow> Array_v (map (\<lambda>w. settle s w (depth + 1)) items)
        | OrElse_v a b \<Rightarrow> OrElse_v (settle s a (depth + 1)) (settle s b (depth + 1))
        | Coalesce_v a b \<Rightarrow> Coalesce_v (settle s a (depth + 1)) (settle s b (depth + 1))
        | AndThen_v a b \<Rightarrow> AndThen_v (settle s a (depth + 1)) (settle s b (depth + 1))
        | Either_v a b \<Rightarrow> Either_v (settle s a (depth + 1)) (settle s b (depth + 1))
        | other \<Rightarrow> other))"
  by pat_completeness auto
termination by (relation "measure (\<lambda>(s, v, depth). MAX_DEPTH - depth)") auto

declare settle.simps [simp del]

definition readable_property :: "scopes \<Rightarrow> pvalue \<Rightarrow> string \<Rightarrow> pvalue option" where
  "readable_property s source key =
     (case resolve_ref s source 0 of
        Object_v props \<Rightarrow>
          (if list_all (\<lambda>p. case p of Key_p _ _ \<Rightarrow> True | _ \<Rightarrow> False) props
           then fold (\<lambda>p found. case p of Key_p k v \<Rightarrow> if k = key then Some v else found | _ \<Rightarrow> found) props None
           else None)
      | _ \<Rightarrow> None)"

definition prop_at :: "string \<Rightarrow> pprop \<Rightarrow> pvalue option" where
  "prop_at key p = (case p of Key_p k v \<Rightarrow> if k = key then Some v else None | _ \<Rightarrow> None)"

fun find_map :: "('a \<Rightarrow> 'b option) \<Rightarrow> 'a list \<Rightarrow> 'b option" where
  "find_map f [] = None"
| "find_map f (x # xs) = (case f x of Some y \<Rightarrow> Some y | None \<Rightarrow> find_map f xs)"

function key_value :: "scopes \<Rightarrow> pvalue \<Rightarrow> string list \<Rightarrow> nat \<Rightarrow> pvalue option" where
  "key_value s v path depth =
     (if MAX_DEPTH \<le> depth then None
      else (case resolve_ref s v 0 of
          Object_v props \<Rightarrow>
            (case path of
               [] \<Rightarrow> None
             | key # rest \<Rightarrow>
                 (case find_map (prop_at key) (rev props) of
                    None \<Rightarrow> None
                  | Some nested \<Rightarrow> if rest = [] then Some nested else key_value s nested rest (depth + 1)))
        | _ \<Rightarrow> None))"
  by pat_completeness auto
termination by (relation "measure (\<lambda>(s, v, path, depth). MAX_DEPTH - depth)") auto

text \<open>\<open>for prop in props\<close> with \<open>?\<close> in the body: \<open>None\<close> as soon as one write fails.\<close>

fun map_all :: "('a \<Rightarrow> 'b option) \<Rightarrow> 'a list \<Rightarrow> 'b list option" where
  "map_all f [] = Some []"
| "map_all f (x # xs) = (case f x of None \<Rightarrow> None | Some y \<Rightarrow> map_option (Cons y) (map_all f xs))"

lemma map_all_cong [fundef_cong]: "xs = ys \<Longrightarrow> (\<And>x. x \<in> set ys \<Longrightarrow> f x = g x) \<Longrightarrow> map_all f xs = map_all g ys"
  by (induction xs arbitrary: ys) (auto split: option.split)

function write_key :: "scopes \<Rightarrow> pvalue \<Rightarrow> string list \<Rightarrow> pvalue \<Rightarrow> nat \<Rightarrow> pvalue option" where
  "write_key s v path written depth =
     (if MAX_DEPTH \<le> depth then None
      else (case resolve_ref s v 0 of
          Object_v props \<Rightarrow>
            (case path of
               [] \<Rightarrow> None
             | key # rest \<Rightarrow>
                 (case map_all (\<lambda>p. case p of
                      Key_p k nested \<Rightarrow>
                        (if k = key
                         then map_option (Key_p k) (if rest = [] then Some written else write_key s nested rest written (depth + 1))
                         else Some p)
                    | _ \<Rightarrow> Some p) props of
                    None \<Rightarrow> None
                  | Some out \<Rightarrow>
                      (if list_ex (\<lambda>p. prop_at key p \<noteq> None) props then Some (Object_v out)
                       else if rest \<noteq> [] then None
                       else Some (Object_v (out @ [Key_p key written])))))
        | _ \<Rightarrow> None))"
  by pat_completeness auto
termination by (relation "measure (\<lambda>(s, v, path, written, depth). MAX_DEPTH - depth)") auto

declare key_value.simps [simp del] write_key.simps [simp del]

definition carried :: "pvalue \<Rightarrow> pvalue" where
  "carried before =
     (case before of
        OrElse_v _ _ \<Rightarrow> MaybeUndefined_v | Coalesce_v _ _ \<Rightarrow> MaybeUndefined_v | AndThen_v _ _ \<Rightarrow> MaybeUndefined_v
      | Either_v _ _ \<Rightarrow> MaybeUndefined_v | other \<Rightarrow> other)"

section \<open>What a value evaluates to\<close>

text \<open>
  The JavaScript values, as far as \<open>||\<close>, \<open>??\<close>, \<open>&&\<close> and \<open>JSON.stringify\<close> tell them apart.
\<close>

datatype jsv = J_undefined | J_null | J_falsy | J_truthy | J_object | J_function

definition js_truthy :: "jsv \<Rightarrow> bool" where "js_truthy x \<longleftrightarrow> x = J_truthy \<or> x = J_object \<or> x = J_function"
definition js_nullish :: "jsv \<Rightarrow> bool" where "js_nullish x \<longleftrightarrow> x = J_undefined \<or> x = J_null"

text \<open>A key holding the value is written by \<open>JSON.stringify\<close>.\<close>

definition on_wire :: "jsv \<Rightarrow> bool" where "on_wire x \<longleftrightarrow> x \<noteq> J_undefined \<and> x \<noteq> J_function"

definition unknown_value :: "pvalue \<Rightarrow> bool" where
  "unknown_value v \<longleftrightarrow>
     (case v of MaybeUndefined_v \<Rightarrow> True | Unjudged_v \<Rightarrow> True | Read_v \<Rightarrow> True | Given_v \<Rightarrow> True | Getter_v \<Rightarrow> True
      | Call_v _ \<Rightarrow> True | _ \<Rightarrow> False)"

text \<open>
  The values an evaluation can give.  A value the pass knows nothing of may be anything; \<open>ext\<close> says whether
  that includes a function (a callback handed in with the options, a call that returns one) or what comes
  from outside the literal is data only.  The judgements are proved for both.
\<close>

inductive evals :: "bool \<Rightarrow> scopes \<Rightarrow> pvalue \<Rightarrow> jsv \<Rightarrow> bool" for ext s where
  e_defined: "x \<in> {J_falsy, J_truthy, J_object} \<Longrightarrow> evals ext s Defined_v x"
| e_unknown: "unknown_value v \<Longrightarrow> ext \<or> x \<noteq> J_function \<Longrightarrow> evals ext s v x"
| e_dropped: "evals ext s Dropped_v J_function"
| e_truthy: "evals ext s Truthy_v J_truthy"
| e_write_only: "evals ext s WriteOnly_v J_undefined"
| e_null: "evals ext s Null_v J_null"
| e_object: "evals ext s (Object_v ps) J_object"
| e_array: "evals ext s (Array_v vs) J_object"
| e_bound: "lookup s name = Some v \<Longrightarrow> evals ext s v x \<Longrightarrow> evals ext s (Ref_v name) x"
| e_number: "lookup s name = None \<Longrightarrow> name \<in> {''NaN'', ''Infinity''} \<Longrightarrow> x \<in> {J_falsy, J_truthy} \<Longrightarrow> evals ext s (Ref_v name) x"
| e_free: "lookup s name = None \<Longrightarrow> name \<notin> {''NaN'', ''Infinity''} \<Longrightarrow> ext \<or> x \<noteq> J_function \<Longrightarrow> evals ext s (Ref_v name) x"
| e_or_left: "evals ext s a x \<Longrightarrow> js_truthy x \<Longrightarrow> evals ext s (OrElse_v a b) x"
| e_or_right: "evals ext s a y \<Longrightarrow> \<not> js_truthy y \<Longrightarrow> evals ext s b x \<Longrightarrow> evals ext s (OrElse_v a b) x"
| e_coalesce_left: "evals ext s a x \<Longrightarrow> \<not> js_nullish x \<Longrightarrow> evals ext s (Coalesce_v a b) x"
| e_coalesce_right: "evals ext s a y \<Longrightarrow> js_nullish y \<Longrightarrow> evals ext s b x \<Longrightarrow> evals ext s (Coalesce_v a b) x"
| e_and_left: "evals ext s a x \<Longrightarrow> \<not> js_truthy x \<Longrightarrow> evals ext s (AndThen_v a b) x"
| e_and_right: "evals ext s a y \<Longrightarrow> js_truthy y \<Longrightarrow> evals ext s b x \<Longrightarrow> evals ext s (AndThen_v a b) x"
| e_either_left: "evals ext s a x \<Longrightarrow> evals ext s (Either_v a b) x"
| e_either_right: "evals ext s b x \<Longrightarrow> evals ext s (Either_v a b) x"

inductive_simps evals_simps:
  "evals ext s Defined_v x" "evals ext s MaybeUndefined_v x" "evals ext s Unjudged_v x" "evals ext s Dropped_v x" "evals ext s Truthy_v x"
  "evals ext s WriteOnly_v x" "evals ext s Read_v x" "evals ext s Given_v x" "evals ext s Getter_v x" "evals ext s Null_v x"
  "evals ext s (Object_v ps) x" "evals ext s (Array_v vs) x" "evals ext s (Call_v m) x" "evals ext s (OrElse_v a b) x"
  "evals ext s (Coalesce_v a b) x" "evals ext s (AndThen_v a b) x" "evals ext s (Either_v a b) x"

inductive_cases ref_cases: "evals ext s (Ref_v name) x"

lemma ref_bound: "evals ext s (Ref_v name) x \<Longrightarrow> lookup s name = Some v \<Longrightarrow> evals ext s v x"
  by (auto simp: unknown_value_def elim: ref_cases)

lemma ref_free: "evals ext s (Ref_v name) x \<Longrightarrow> lookup s name = None \<Longrightarrow>
   (x = J_function \<longrightarrow> ext \<and> name \<notin> {''NaN'', ''Infinity''}) \<and> (name \<in> {''NaN'', ''Infinity''} \<longrightarrow> x \<in> {J_falsy, J_truthy})"
  by (auto simp: unknown_value_def elim: ref_cases)

lemmas evals_eqs = evals_simps [unfolded unknown_value_def, simplified]

lemmas value_simps = evals_eqs js_truthy_def js_nullish_def on_wire_def

lemma evals_resolve: "evals ext s v x \<Longrightarrow> evals ext s (resolve_ref s v depth) x"
proof (induction s v depth rule: resolve_ref.induct)
  case (1 s v depth)
  show ?case
  proof (cases "\<exists>name bound. v = Ref_v name \<and> depth < MAX_DEPTH \<and> lookup s name = Some bound")
    case True
    then obtain name bound where v: "v = Ref_v name" "depth < MAX_DEPTH" "lookup s name = Some bound" by blast
    from "1.prems" v have "evals ext s bound x" using ref_bound by blast
    from "1.IH" [OF v(1,2,3) this] show ?thesis using v by (subst resolve_ref.simps) simp
  next
    case False
    then have "resolve_ref s v depth = v" by (subst resolve_ref.simps) (auto split: pvalue.split option.split)
    with "1.prems" show ?thesis by simp
  qed
qed

text \<open>
  Whether a function can come out of the value: what the left sides of \<open>||\<close> and \<open>??\<close> are asked, which the
  judgement looks at only when they are, through their bindings, themselves a function.
\<close>

function yields_function :: "bool \<Rightarrow> scopes \<Rightarrow> pvalue \<Rightarrow> nat \<Rightarrow> bool" where
  "yields_function ext s v depth =
     (if MAX_DEPTH \<le> depth then True
      else (case resolve_ref s v 0 of
          Dropped_v \<Rightarrow> True
        | Ref_v name \<Rightarrow> lookup s name \<noteq> None \<or> ext \<and> name \<noteq> ''NaN'' \<and> name \<noteq> ''Infinity''
        | MaybeUndefined_v \<Rightarrow> ext | Unjudged_v \<Rightarrow> ext | Read_v \<Rightarrow> ext | Given_v \<Rightarrow> ext | Getter_v \<Rightarrow> ext | Call_v _ \<Rightarrow> ext
        | Either_v a b \<Rightarrow> yields_function ext s a (depth + 1) \<or> yields_function ext s b (depth + 1)
        | OrElse_v a b \<Rightarrow> yields_function ext s a (depth + 1) \<or> yields_function ext s b (depth + 1)
        | Coalesce_v a b \<Rightarrow> yields_function ext s a (depth + 1) \<or> yields_function ext s b (depth + 1)
        | AndThen_v a b \<Rightarrow> yields_function ext s a (depth + 1) \<or> yields_function ext s b (depth + 1)
        | _ \<Rightarrow> False))"
  by pat_completeness auto
termination by (relation "measure (\<lambda>(ext, s, v, depth). MAX_DEPTH - depth)") auto

declare yields_function.simps [simp del]

lemma no_function:
  assumes "\<not> yields_function ext s v depth" "evals ext s v x"
  shows "x \<noteq> J_function"
  using assms
proof (induction ext s v depth arbitrary: x rule: yields_function.induct)
  case (1 ext s v depth)
  have d: "\<not> MAX_DEPTH \<le> depth" using "1.prems"(1) by (subst (asm) yields_function.simps) (simp split: if_splits)
  note n = "1.prems"(1) [unfolded yields_function.simps [of ext s v depth]]
  note r = evals_resolve [OF "1.prems"(2), of 0]
  show ?case
    using n r d "1.IH" by (cases "resolve_ref s v 0") (auto simp: value_simps dest: ref_free)
qed

lemma may_be_called_sound:
  assumes "\<not> may_be_called s v depth" "evals ext s v x"
  shows "x \<noteq> J_function"
  using assms
proof (induction s v depth arbitrary: x rule: may_be_called.induct)
  case (1 s v depth)
  have d: "\<not> MAX_DEPTH \<le> depth" using "1.prems"(1) by (subst (asm) may_be_called.simps) (simp split: if_splits)
  note n = "1.prems"(1) [unfolded may_be_called.simps [of s v depth]]
  note r = evals_resolve [OF "1.prems"(2), of 0]
  show ?case
    using n r d "1.IH" by (cases "resolve_ref s v 0") (auto simp: value_simps)
qed

text \<open>The left sides the judgement passes over without judging, along its own recursion.\<close>

function lefts_quiet :: "bool \<Rightarrow> scopes \<Rightarrow> pvalue \<Rightarrow> nat \<Rightarrow> bool" where
  "lefts_quiet ext s v depth =
     (if MAX_DEPTH \<le> depth then True
      else (case v of
          OrElse_v lhs rhs \<Rightarrow>
            (case resolve_ref s lhs 0 of
               Either_v a b \<Rightarrow> lefts_quiet ext s (OrElse_v a rhs) (depth + 1) \<and> lefts_quiet ext s (OrElse_v b rhs) (depth + 1)
             | Dropped_v \<Rightarrow> True
             | _ \<Rightarrow> \<not> yields_function ext s lhs 0 \<and> lefts_quiet ext s lhs (depth + 1) \<and> lefts_quiet ext s rhs (depth + 1))
        | Coalesce_v lhs rhs \<Rightarrow>
            (case resolve_ref s lhs 0 of
               Either_v a b \<Rightarrow> lefts_quiet ext s (Coalesce_v a rhs) (depth + 1) \<and> lefts_quiet ext s (Coalesce_v b rhs) (depth + 1)
             | Dropped_v \<Rightarrow> True
             | _ \<Rightarrow> \<not> yields_function ext s lhs 0 \<and> lefts_quiet ext s lhs (depth + 1) \<and> lefts_quiet ext s rhs (depth + 1))
        | AndThen_v lhs rhs \<Rightarrow> lefts_quiet ext s lhs (depth + 1) \<and> lefts_quiet ext s rhs (depth + 1)
        | Either_v a b \<Rightarrow> lefts_quiet ext s a (depth + 1) \<and> lefts_quiet ext s b (depth + 1)
        | Ref_v name \<Rightarrow> (case lookup s name of Some bound \<Rightarrow> lefts_quiet ext s bound (depth + 1) | None \<Rightarrow> True)
        | _ \<Rightarrow> True))"
  by pat_completeness auto
termination by (relation "measure (\<lambda>(ext, s, v, depth). MAX_DEPTH - depth)") auto

declare lefts_quiet.simps [simp del]

lemma max_defined: "max p q = Is_defined \<longleftrightarrow> p = Is_defined \<and> q = Is_defined"
  by (cases p; cases q) (simp_all add: max_def less_eq_definedness_t_def less_eq_variable_presence_def)

lemma definedness_deep: "definedness s v depth = Is_defined \<Longrightarrow> \<not> MAX_DEPTH \<le> depth"
  by (subst (asm) definedness.simps) (simp split: if_splits)

lemma definedness_sound:
  assumes "definedness s v depth = Is_defined" "lefts_quiet ext s v depth" "evals ext s v x"
  shows "on_wire x"
  using assms
proof (induction "MAX_DEPTH - depth" arbitrary: v depth x rule: less_induct)
  case less
  have d: "\<not> MAX_DEPTH \<le> depth" by (rule definedness_deep [OF less.prems(1)])
  have IH: "on_wire y" if "definedness s w (depth + 1) = Is_defined" "lefts_quiet ext s w (depth + 1)" "evals ext s w y" for w y
    by (rule less.hyps [OF _ that]) (use d in simp)
  note df = less.prems(1) [unfolded definedness.simps [of s v depth]]
  note lq = less.prems(2) [unfolded lefts_quiet.simps [of ext s v depth]]
  show ?case
  proof (cases v)
    case (OrElse_v a b)
    have left: "evals ext s a y \<Longrightarrow> js_truthy y \<Longrightarrow> on_wire y" if "\<not> yields_function ext s a 0" for y
      using no_function [OF that, of y] by (auto simp: on_wire_def js_truthy_def)
    have e: "evals ext s a x \<and> js_truthy x \<or> (\<exists>y. evals ext s a y \<and> \<not> js_truthy y \<and> evals ext s b x)"
      using less.prems(3) by (simp add: OrElse_v evals_eqs)
    note r = evals_resolve [where s = s and v = a and depth = 0 and ext = ext]
    show ?thesis
    proof (cases "resolve_ref s a 0")
      case (Either_v c d)
      have ed: "evals ext s a y \<Longrightarrow> evals ext s c y \<or> evals ext s d y" for y using r [of y] by (simp add: Either_v evals_eqs)
      have "evals ext s (OrElse_v c b) x \<or> evals ext s (OrElse_v d b) x"
        using e ed unfolding evals_eqs by blast
      then show ?thesis using df lq d IH by (auto simp: OrElse_v Either_v max_defined)
    next
      case Truthy_v
      then show ?thesis using df lq d e IH r by (auto simp: OrElse_v evals_eqs js_truthy_def)
    next
      case (Object_v ps)
      then show ?thesis using df lq d e IH r by (auto simp: OrElse_v evals_eqs js_truthy_def)
    next
      case (Array_v vs)
      then show ?thesis using df lq d e IH r by (auto simp: OrElse_v evals_eqs js_truthy_def)
    qed (use df lq d e IH left in \<open>auto simp: OrElse_v\<close>)
  next
    case (Coalesce_v a b)
    have left: "evals ext s a y \<Longrightarrow> \<not> js_nullish y \<Longrightarrow> on_wire y" if "\<not> yields_function ext s a 0" for y
      using no_function [OF that, of y] by (auto simp: on_wire_def js_nullish_def)
    have e: "evals ext s a x \<and> \<not> js_nullish x \<or> (\<exists>y. evals ext s a y \<and> js_nullish y \<and> evals ext s b x)"
      using less.prems(3) by (simp add: Coalesce_v evals_eqs)
    note r = evals_resolve [where s = s and v = a and depth = 0 and ext = ext]
    show ?thesis
    proof (cases "resolve_ref s a 0")
      case (Either_v c d)
      have ed: "evals ext s a y \<Longrightarrow> evals ext s c y \<or> evals ext s d y" for y using r [of y] by (simp add: Either_v evals_eqs)
      have "evals ext s (Coalesce_v c b) x \<or> evals ext s (Coalesce_v d b) x"
        using e ed unfolding evals_eqs by blast
      then show ?thesis using df lq d IH by (auto simp: Coalesce_v Either_v max_defined)
    next
      case Defined_v
      then show ?thesis using df lq d e IH r by (auto simp: Coalesce_v evals_eqs js_nullish_def)
    next
      case Truthy_v
      then show ?thesis using df lq d e IH r by (auto simp: Coalesce_v evals_eqs js_nullish_def)
    next
      case (Object_v ps)
      then show ?thesis using df lq d e IH r by (auto simp: Coalesce_v evals_eqs js_nullish_def)
    next
      case (Array_v vs)
      then show ?thesis using df lq d e IH r by (auto simp: Coalesce_v evals_eqs js_nullish_def)
    qed (use df lq d e IH left in \<open>auto simp: Coalesce_v\<close>)
  next
    case (AndThen_v a b)
    have e: "evals ext s a x \<and> \<not> js_truthy x \<or> (\<exists>y. evals ext s a y \<and> js_truthy y \<and> evals ext s b x)"
      using less.prems(3) by (simp add: AndThen_v evals_eqs)
    note r = evals_resolve [where s = s and v = a and depth = 0 and ext = ext]
    consider "resolve_ref s a 0 = Dropped_v" | "resolve_ref s a 0 = Null_v" | "resolve_ref s a 0 \<noteq> Dropped_v" "resolve_ref s a 0 \<noteq> Null_v" by blast
    then show ?thesis
    proof cases
      case 1
      then show ?thesis using df lq d e IH r by (auto simp: AndThen_v evals_eqs js_truthy_def)
    next
      case 2
      then show ?thesis using e r by (auto simp: evals_eqs js_truthy_def on_wire_def)
    next
      case 3
      then have "definedness s a (depth + 1) = Is_defined" "definedness s b (depth + 1) = Is_defined"
        using df d by (auto simp: AndThen_v max_defined split: pvalue.splits)
      then show ?thesis using e IH lq d by (auto simp: AndThen_v)
    qed
  next
    case (Ref_v name)
    show ?thesis
    proof (cases "lookup s name")
      case None
      then show ?thesis using df d ref_free [of ext s name x] less.prems(3) by (auto simp: Ref_v on_wire_def split: if_splits)
    next
      case (Some w)
      then show ?thesis using df lq d IH [of w x] ref_bound [of ext s name x w] less.prems(3) by (simp add: Ref_v)
    qed
  next
    case (Either_v a b)
    then show ?thesis using df lq d IH less.prems(3) by (auto simp: max_defined evals_eqs)
  qed (use df d less.prems(3) in \<open>auto simp: value_simps\<close>)
qed

lemma definedness_not_undefined:
  assumes "definedness s v depth = Is_defined" "evals ext s v x"
  shows "x \<noteq> J_undefined"
  using assms
proof (induction "MAX_DEPTH - depth" arbitrary: v depth x rule: less_induct)
  case less
  have d: "\<not> MAX_DEPTH \<le> depth" by (rule definedness_deep [OF less.prems(1)])
  have IH: "y \<noteq> J_undefined" if "definedness s w (depth + 1) = Is_defined" "evals ext s w y" for w y
    by (rule less.hyps [OF _ that]) (use d in simp)
  note df = less.prems(1) [unfolded definedness.simps [of s v depth]]
  show ?case
  proof (cases v)
    case (OrElse_v a b)
    have e: "evals ext s a x \<and> js_truthy x \<or> (\<exists>y. evals ext s a y \<and> \<not> js_truthy y \<and> evals ext s b x)"
      using less.prems(2) by (simp add: OrElse_v evals_eqs)
    note r = evals_resolve [where s = s and v = a and depth = 0 and ext = ext]
    show ?thesis
    proof (cases "resolve_ref s a 0")
      case (Either_v c d)
      have "evals ext s (OrElse_v c b) x \<or> evals ext s (OrElse_v d b) x"
        using e r unfolding Either_v evals_eqs by blast
      then show ?thesis using df d IH by (auto simp: OrElse_v Either_v max_defined)
    qed (use df d e r IH in \<open>auto simp: OrElse_v evals_eqs js_truthy_def\<close>)
  next
    case (Coalesce_v a b)
    have e: "evals ext s a x \<and> \<not> js_nullish x \<or> (\<exists>y. evals ext s a y \<and> js_nullish y \<and> evals ext s b x)"
      using less.prems(2) by (simp add: Coalesce_v evals_eqs)
    note r = evals_resolve [where s = s and v = a and depth = 0 and ext = ext]
    show ?thesis
    proof (cases "resolve_ref s a 0")
      case (Either_v c d)
      have "evals ext s (Coalesce_v c b) x \<or> evals ext s (Coalesce_v d b) x"
        using e r unfolding Either_v evals_eqs by blast
      then show ?thesis using df d IH by (auto simp: Coalesce_v Either_v max_defined)
    qed (use df d e r IH in \<open>auto simp: Coalesce_v evals_eqs js_nullish_def\<close>)
  next
    case (AndThen_v a b)
    have e: "evals ext s a x \<and> \<not> js_truthy x \<or> (\<exists>y. evals ext s a y \<and> js_truthy y \<and> evals ext s b x)"
      using less.prems(2) by (simp add: AndThen_v evals_eqs)
    note r = evals_resolve [where s = s and v = a and depth = 0 and ext = ext]
    show ?thesis
      by (cases "resolve_ref s a 0") (use df d e r IH in \<open>auto simp: AndThen_v evals_eqs js_truthy_def max_defined\<close>)
  next
    case (Ref_v name)
    show ?thesis
    proof (cases "lookup s name")
      case None
      then show ?thesis using df d ref_free [of ext s name x] less.prems(2) by (auto simp: Ref_v split: if_splits)
    next
      case (Some w)
      then show ?thesis using df d IH [of w x] ref_bound [of ext s name x w] less.prems(2) by (simp add: Ref_v)
    qed
  next
    case (Either_v a b)
    then show ?thesis using df d IH less.prems(2) by (auto simp: max_defined evals_eqs)
  qed (use df d less.prems(2) in \<open>auto simp: evals_eqs\<close>)
qed

lemma may_be_undefined_sound:
  assumes "\<not> may_be_undefined s v depth" "evals ext s v x"
  shows "x \<noteq> J_undefined"
  using assms
proof (induction "MAX_DEPTH - depth" arbitrary: v depth x rule: less_induct)
  case less
  have d: "\<not> MAX_DEPTH \<le> depth" using less.prems(1) by (subst (asm) may_be_undefined.simps) (simp split: if_splits)
  have IH: "y \<noteq> J_undefined" if "\<not> may_be_undefined s w (depth + 1)" "evals ext s w y" for w y
    by (rule less.hyps [OF _ that]) (use d in simp)
  note n = less.prems(1) [unfolded may_be_undefined.simps [of s v depth]]
  have IH': "may_be_undefined s w (Suc depth)" if "evals ext s w J_undefined" for w using IH [of w J_undefined] that by auto
  note r = evals_resolve [where s = s and x = J_null and depth = 0]
  show ?case
  proof (cases v)
    case (Ref_v name)
    show ?thesis
    proof (cases "lookup s name")
      case None
      then show ?thesis using n d ref_free [of ext s name x] less.prems(2) by (auto simp: Ref_v)
    next
      case (Some w)
      then show ?thesis using n d IH [of w x] ref_bound [of ext s name x w] less.prems(2) by (simp add: Ref_v)
    qed
  next
    case (OrElse_v a b)
    have "js_truthy x \<or> (\<exists>y. evals ext s a y \<and> \<not> js_truthy y \<and> evals ext s b x)"
      using less.prems(2) by (auto simp: OrElse_v evals_eqs)
    then show ?thesis
      using n d IH [of b x] evals_resolve [where s = s and v = a and depth = 0]
      by (cases "resolve_ref s a 0") (auto simp: OrElse_v evals_eqs js_truthy_def)
  next
    case (Coalesce_v a b)
    have "\<not> js_nullish x \<or> (\<exists>y. evals ext s a y \<and> js_nullish y \<and> evals ext s b x)"
      using less.prems(2) by (auto simp: Coalesce_v evals_eqs)
    then show ?thesis
      using n d IH [of b x] evals_resolve [where s = s and v = a and depth = 0]
      by (cases "resolve_ref s a 0") (auto simp: Coalesce_v evals_eqs js_nullish_def)
  next
    case (AndThen_v a b)
    have e: "evals ext s a x \<and> \<not> js_truthy x \<or> (\<exists>y. evals ext s a y \<and> js_truthy y \<and> evals ext s b x)"
      using less.prems(2) by (simp add: AndThen_v evals_eqs)
    show ?thesis
    proof (cases "resolve_ref s a 0 = Null_v")
      case True
      then show ?thesis
        using e evals_resolve [where s = s and v = a and depth = 0] by (auto simp: evals_eqs js_truthy_def)
    next
      case False
      then have "\<not> may_be_undefined s a (depth + 1)" "\<not> may_be_undefined s b (depth + 1)"
        using n d by (auto simp: AndThen_v split: pvalue.splits)
      then show ?thesis using e IH by blast
    qed
  next
    case (Either_v a b)
    then show ?thesis using n d IH less.prems(2) by (auto simp: evals_eqs)
  qed (use n d less.prems(2) in \<open>auto simp: value_simps\<close>)
qed

text \<open>
  C21: The judgements on a value are sound, through bindings, \<open>||\<close>, \<open>??\<close>, \<open>&&\<close> and ternaries nested in any
  way, and whether or not what comes from outside the literal may be a function (\<open>ext\<close>).  A value judged
  always present never evaluates to \<open>undefined\<close>; provided no function can come out of a left operand of
  \<open>||\<close> or \<open>??\<close> in it (\<open>lefts_quiet\<close>), it evaluates to no function either, so \<open>JSON.stringify\<close> writes its key.
  A value judged not possibly \<open>undefined\<close> is never \<open>undefined\<close>, and one judged not callable is never a
  function.  The proviso is needed (\<open>hidden_function\<close>, \<open>given_function\<close>): the judgement takes a left operand
  it does not see as a function to be none.
\<close>

theorem judgements_sound:
  assumes "evals ext s v x"
  shows "(presence_of (definedness s v 0) = Always \<longrightarrow> x \<noteq> J_undefined \<and> (lefts_quiet ext s v 0 \<longrightarrow> on_wire x))
    \<and> (\<not> may_be_undefined s v 0 \<longrightarrow> x \<noteq> J_undefined)
    \<and> (\<not> may_be_called s v 0 \<longrightarrow> x \<noteq> J_function)"
proof -
  have "definedness s v 0 = Is_defined" if "presence_of (definedness s v 0) = Always"
    using that by (cases "definedness s v 0") simp_all
  then show ?thesis
    using definedness_sound [OF _ _ assms] definedness_not_undefined [OF _ assms] may_be_undefined_sound [OF _ assms]
      may_be_called_sound [OF _ assms] by blast
qed

theorem judgements_sound_witness:
  "(let s = one_frame [(''x'', OrElse_v Given_v Truthy_v)]
    in presence_of (definedness s (Ref_v ''x'') 0) = Always \<and> lefts_quiet False s (Ref_v ''x'') 0) \<and> on_wire J_truthy"
proof -
  let ?s = "one_frame [(''x'', OrElse_v Given_v Truthy_v)]"
  have 1: "presence_of (definedness ?s (Ref_v ''x'') 0) = Always" "lefts_quiet False ?s (Ref_v ''x'') 0" by code_simp+
  have "lookup ?s ''x'' = Some (OrElse_v Given_v Truthy_v)" by code_simp
  moreover have "evals False ?s (OrElse_v Given_v Truthy_v) J_truthy" by (auto simp: value_simps)
  ultimately have "evals False ?s (Ref_v ''x'') J_truthy" by (rule evals.e_bound)
  from judgements_sound [OF this] 1 show ?thesis by simp
qed

text \<open>
  \<open>(t && function () {}) || !0\<close> is judged always present, and is the function - a key \<open>JSON.stringify\<close>
  drops - whenever \<open>t\<close> is truthy; so is \<open>t || !0\<close> when the \<open>t\<close> handed in is itself a function.
\<close>

lemma hidden_function:
  "presence_of (definedness s (OrElse_v (AndThen_v Given_v Dropped_v) Truthy_v) 0) = Always
   \<and> evals ext s (OrElse_v (AndThen_v Given_v Dropped_v) Truthy_v) J_function \<and> \<not> on_wire J_function"
proof -
  have "evals ext s Given_v J_truthy" by (simp add: evals_eqs)
  then have "evals ext s (AndThen_v Given_v Dropped_v) J_function"
    by (rule evals.e_and_right) (simp_all add: js_truthy_def evals.e_dropped)
  then have "evals ext s (OrElse_v (AndThen_v Given_v Dropped_v) Truthy_v) J_function"
    by (rule evals.e_or_left) (simp add: js_truthy_def)
  then show ?thesis by (simp add: definedness.simps resolve_ref.simps MAX_DEPTH_def on_wire_def)
qed

lemma given_function:
  "presence_of (definedness s (OrElse_v Given_v Truthy_v) 0) = Always
   \<and> evals True s (OrElse_v Given_v Truthy_v) J_function \<and> \<not> on_wire J_function"
proof -
  have "evals True s (OrElse_v Given_v Truthy_v) J_function"
    by (rule evals.e_or_left) (simp_all add: evals_eqs js_truthy_def)
  then show ?thesis by (simp add: definedness.simps resolve_ref.simps MAX_DEPTH_def on_wire_def)
qed

section \<open>A written key reads back\<close>

lemma find_map_append: "find_map f (xs @ ys) = (case find_map f xs of Some y \<Rightarrow> Some y | None \<Rightarrow> find_map f ys)"
  by (induction xs) (auto split: option.split)

lemma written_props_read:
  assumes "map_all (\<lambda>p. case p of Key_p k n \<Rightarrow> (if k = key then map_option (Key_p k) (g n) else Some p) | _ \<Rightarrow> Some p) props = Some out"
    and "\<And>n n'. g n = Some n' \<Longrightarrow> P n'" and "list_ex (\<lambda>p. prop_at key p \<noteq> None) props"
  shows "\<exists>n. find_map (prop_at key) (rev out) = Some n \<and> P n"
  using assms(1,3)
proof (induction props arbitrary: out)
  case (Cons p props)
  from Cons.prems(1) obtain q qs where q: "out = q # qs"
    "(case p of Key_p k n \<Rightarrow> (if k = key then map_option (Key_p k) (g n) else Some p) | _ \<Rightarrow> Some p) = Some q"
    "map_all (\<lambda>p. case p of Key_p k n \<Rightarrow> (if k = key then map_option (Key_p k) (g n) else Some p) | _ \<Rightarrow> Some p) props = Some qs"
    by (auto split: option.splits)
  show ?case
  proof (cases "list_ex (\<lambda>p. prop_at key p \<noteq> None) props")
    case True
    from Cons.IH [OF q(3) this] show ?thesis by (auto simp: q(1) find_map_append)
  next
    case False
    then have p: "prop_at key p \<noteq> None" using Cons.prems(2) by simp
    then obtain n where n: "p = Key_p key n" by (cases p) (auto simp: prop_at_def split: if_splits)
    from q(2) obtain n' where n': "g n = Some n'" "q = Key_p key n'" by (auto simp: n)
    from assms(2) [OF n'(1)] have P: "P n'" .
    have "find_map (prop_at key) (rev qs) = None" using q(3) False
    proof (induction props arbitrary: qs)
      case (Cons r rs)
      from Cons.prems(2) have r: "prop_at key r = None" "\<not> list_ex (\<lambda>p. prop_at key p \<noteq> None) rs" by simp_all
      then have rr: "(case r of Key_p k n \<Rightarrow> (if k = key then map_option (Key_p k) (g n) else Some r) | _ \<Rightarrow> Some r) = Some r"
        by (cases r) (auto simp: prop_at_def split: if_splits)
      from Cons.prems(1) obtain us where "qs = r # us"
        "map_all (\<lambda>p. case p of Key_p k n \<Rightarrow> (if k = key then map_option (Key_p k) (g n) else Some p) | _ \<Rightarrow> Some p) rs = Some us"
        unfolding map_all.simps rr by (auto split: option.splits)
      with Cons.IH [OF this(2) r(2)] r(1) show ?case by (simp add: find_map_append)
    qed simp
    moreover have "find_map (prop_at key) [q] = Some n'" by (simp add: n'(2) prop_at_def)
    ultimately show ?thesis using P by (simp add: q(1) find_map_append)
  qed
qed simp

lemma resolve_object: "resolve_ref s (Object_v ps) depth = Object_v ps"
  by (subst resolve_ref.simps) simp

lemma write_key_reads:
  "write_key s v path w depth = Some v' \<Longrightarrow> key_value s v' path depth = Some w"
proof (induction path arbitrary: v v' depth)
  case Nil
  then show ?case by (subst (asm) write_key.simps) (auto split: if_splits pvalue.splits)
next
  case (Cons key rest)
  define g where "g n = (if rest = [] then Some w else write_key s n rest w (depth + 1))" for n
  have d: "\<not> MAX_DEPTH \<le> depth" using Cons.prems by (subst (asm) write_key.simps) (simp split: if_splits)
  obtain props where r: "resolve_ref s v 0 = Object_v props"
    using Cons.prems by (subst (asm) write_key.simps) (auto split: if_splits pvalue.splits)
  let ?f = "\<lambda>p. case p of Key_p k n \<Rightarrow> (if k = key then map_option (Key_p k) (if rest = [] then Some w
                      else write_key s n rest w (depth + 1)) else Some p) | _ \<Rightarrow> Some p"
  obtain out where out: "map_all ?f props = Some out"
    using Cons.prems by (subst (asm) write_key.simps) (auto simp: r split: if_splits option.splits)
  have v': "if list_ex (\<lambda>p. prop_at key p \<noteq> None) props then v' = Object_v out
     else rest = [] \<and> v' = Object_v (out @ [Key_p key w])"
    using Cons.prems by (subst (asm) write_key.simps) (simp add: r out d split: if_splits)
  have o2: "map_all (\<lambda>p. case p of Key_p k n \<Rightarrow> (if k = key then map_option (Key_p k) (g n) else Some p) | _ \<Rightarrow> Some p) props = Some out"
    using out unfolding g_def .
  let ?P = "\<lambda>n. (if rest = [] then n = w else key_value s n rest (depth + 1) = Some w)"
  show ?case
  proof (cases "list_ex (\<lambda>p. prop_at key p \<noteq> None) props")
    case True
    have "\<exists>n. find_map (prop_at key) (rev out) = Some n \<and> ?P n"
      by (rule written_props_read [OF o2 _ True]) (auto simp: g_def Cons.IH split: if_splits)
    then show ?thesis using v' True d by (subst key_value.simps) (auto simp: resolve_object split: if_splits)
  next
    case False
    then show ?thesis using v' False d by (subst key_value.simps) (simp add: resolve_object prop_at_def)
  qed
qed

text \<open>
  A key written into a recovered object reads back: when \<open>write_key\<close> accepts a path, reading the
  same path of the object it returns gives the written value, also where the literal wrote the key
  several times or reaches the path through bindings.
\<close>

theorem written_key_reads_back:
  assumes "write_key s v path w 0 = Some v'"
  shows "key_value s v' path 0 = Some w"
  using assms by (rule write_key_reads)

theorem written_key_reads_back_witness:
  "let s = one_frame [(''v'', Object_v [Key_p ''in'' (Object_v [Key_p ''a'' Null_v])])]
   in write_key s (Ref_v ''v'') [''in'', ''b''] Truthy_v 0
      = Some (Object_v [Key_p ''in'' (Object_v [Key_p ''a'' Null_v, Key_p ''b'' Truthy_v])])
    \<and> key_value s (Object_v [Key_p ''in'' (Object_v [Key_p ''a'' Null_v, Key_p ''b'' Truthy_v])]) [''in'', ''b''] 0 = Some Truthy_v"
proof -
  let ?s = "one_frame [(''v'', Object_v [Key_p ''in'' (Object_v [Key_p ''a'' Null_v])])]"
  have "write_key ?s (Ref_v ''v'') [''in'', ''b''] Truthy_v 0
      = Some (Object_v [Key_p ''in'' (Object_v [Key_p ''a'' Null_v, Key_p ''b'' Truthy_v])])" by code_simp
  from this written_key_reads_back [OF this] show ?thesis unfolding Let_def by (rule conjI)
qed

end
