(* ===== verification/MexClassify.thy ===== *)
theory MexClassify
  imports MexSites MexDefined
begin

text \<open>
  One call site's variables object (\<open>wa-mex/src/presence.rs\<close>): the verdict on every key of an object,
  its nested objects and list elements, and the paths whose keys are not fully known.  The classification
  follows bindings without a bound where a ternary meets itself, so it is fuelled: \<open>None\<close> is a recursion
  that has not ended.  Every key called always present is shown to be on the wire in every evaluation of
  the object.
\<close>

section \<open>Records of the classification\<close>

record opaque =
  op_path :: "pstep list"
  op_written :: "string list"

definition opaque_here :: opaque where
  "opaque_here = \<lparr>op_path = [], op_written = []\<rparr>"

definition under_step :: "pstep \<Rightarrow> opaque \<Rightarrow> opaque" where
  "under_step st r = r\<lparr>op_path := st # op_path r\<rparr>"

record presence_diagnostics =
  operations_without_call_site :: nat
  unreadable_call_arguments :: nat
  unreadable_spreads :: nat
  unreadable_keys :: nat
  ambiguous_call_sites :: nat

type_synonym object_result = "((site_tree \<times> opaque list) \<times> presence_diagnostics) option"
type_synonym value_result = "((pnode \<times> opaque list) \<times> presence_diagnostics) option"

primrec foldm :: "('a \<Rightarrow> 's \<Rightarrow> 's option) \<Rightarrow> 'a list \<Rightarrow> 's \<Rightarrow> 's option" where
  "foldm f [] st = Some st"
| "foldm f (x # xs) st = (case f x st of None \<Rightarrow> None | Some st' \<Rightarrow> foldm f xs st')"

section \<open>Getters and spreads\<close>

definition getter_step ::
    "nat \<times> pprop \<Rightarrow> (string \<times> nat) list \<times> (string \<times> bool) list \<times> string list
      \<Rightarrow> (string \<times> nat) list \<times> (string \<times> bool) list \<times> string list" where
  "getter_step = (\<lambda>(index, prop) (first, standing, order).
     (case prop of
        Key_p key v \<Rightarrow>
          (let (first', order') = (if map_of first key = None then ((key, index) # first, order @ [key]) else (first, order))
           in (first', (key, v = Getter_v) # standing, order'))
      | _ \<Rightarrow> (first, standing, order)))"

definition standing_getters :: "pprop list \<Rightarrow> nat list" where
  "standing_getters props =
     (let (first, standing, order) = fold getter_step (enumerate 0 props) ([], [], [])
      in map (\<lambda>key. the (map_of first key)) [key \<leftarrow> order. map_of standing key = Some True])"

definition carries :: "scopes \<Rightarrow> pvalue \<Rightarrow> bool" where
  "carries s v \<longleftrightarrow> (case resolve_ref s v 0 of Object_v ps \<Rightarrow> ps \<noteq> [] | _ \<Rightarrow> False)"

definition spread_source :: "scopes \<Rightarrow> pvalue \<Rightarrow> pvalue \<times> bool" where
  "spread_source s v =
     (case resolve_ref s v 0 of
        AndThen_v _ rhs \<Rightarrow> (rhs, True)
      | Either_v a b \<Rightarrow>
          (case (carries s a, carries s b) of
             (True, False) \<Rightarrow> (a, True)
           | (False, True) \<Rightarrow> (b, True)
           | _ \<Rightarrow> (v, True))
      | other \<Rightarrow> (other, False))"

section \<open>Classifying an object\<close>

record object_state =
  os_out :: site_tree
  os_opaque :: "opaque list"
  os_runs :: bool            \<comment> \<open>\<open>serializing_runs_code\<close>\<close>
  os_already :: "string list"  \<comment> \<open>\<open>already_written\<close>\<close>
  os_diag :: presence_diagnostics

definition hide_keys :: "object_state \<Rightarrow> object_state" where
  "hide_keys st =
     st\<lparr>os_opaque := os_opaque st @ [opaque_here], os_out := map (\<lambda>(k, n). (k, withdraw n)) (os_out st)\<rparr>"

definition serialized_by_hook :: "scopes \<Rightarrow> nat \<Rightarrow> pprop \<Rightarrow> bool" where
  "serialized_by_hook s depth p = (case p of Key_p key v \<Rightarrow> key = ''toJSON'' \<and> may_be_called s v depth | _ \<Rightarrow> False)"

definition spread_key :: "bool \<Rightarrow> string list \<Rightarrow> variable_presence \<Rightarrow> string \<times> pnode \<Rightarrow> site_tree \<Rightarrow> site_tree" where
  "spread_key code_runs already floor = (\<lambda>(k, node).
     (let node' = weaken floor node
      in bt_insert k (if code_runs \<and> k \<notin> set already then withdraw node' else node')))"

definition prop_step ::
    "(pprop list \<Rightarrow> presence_diagnostics \<Rightarrow> nat \<Rightarrow> object_result)
      \<Rightarrow> (pvalue \<Rightarrow> presence_diagnostics \<Rightarrow> nat \<Rightarrow> variable_presence \<Rightarrow> value_result)
      \<Rightarrow> scopes \<Rightarrow> nat list \<Rightarrow> nat \<Rightarrow> nat \<times> pprop \<Rightarrow> object_state \<Rightarrow> object_state option" where
  "prop_step obj val s standing depth = (\<lambda>(index, prop) st0.
     (let st = (if \<not> os_runs st0 \<and> index \<in> set standing
                then st0\<lparr>os_runs := True, os_already := map fst (os_out st0)\<rparr> else st0)
      in case prop of
           Unreadable_p \<Rightarrow>
             Some (hide_keys (st\<lparr>os_diag := (os_diag st)\<lparr>unreadable_keys := unreadable_keys (os_diag st) + 1\<rparr>\<rparr>))
         | Key_p key v \<Rightarrow>
             if key = ''toJSON'' \<and> may_be_called s v depth then Some (hide_keys st)
             else if v = Getter_v
             then Some (st\<lparr>os_opaque := os_opaque st @ [opaque_here],
                           os_out := bt_insert key (pn_leaf Undetermined) (os_out st)\<rparr>)
             else (case val v (os_diag st) depth Always of
                     None \<Rightarrow> None
                   | Some ((node, nested), diag) \<Rightarrow>
                       Some (st\<lparr>os_opaque := os_opaque st @ map (under_step (Field key)) nested,
                                os_out := bt_insert key
                                  (if os_runs st \<and> key \<notin> set (os_already st) then withdraw node else node) (os_out st),
                                os_diag := diag\<rparr>))
         | Spread_p v \<Rightarrow>
             (let (source, gated) = spread_source s v
              in if source = Ref_v ''undefined'' \<and> lookup s ''undefined'' = None then Some st
                 else (case resolve_ref s source 0 of
                         Object_v props \<Rightarrow>
                           (case obj props (os_diag st) (depth + 1) of
                              None \<Rightarrow> None
                            | Some ((nested, nested_opaque), diag) \<Rightarrow>
                                Some (st\<lparr>os_opaque := os_opaque st @ nested_opaque,
                                         os_out := fold (spread_key (os_runs st) (os_already st)
                                                          (if gated then Conditional else Always)) nested (os_out st),
                                         os_diag := diag\<rparr>))
                       | _ \<Rightarrow>
                           Some (hide_keys (st\<lparr>os_diag := (os_diag st)\<lparr>unreadable_spreads := unreadable_spreads (os_diag st) + 1\<rparr>\<rparr>))))))"

definition finish_object :: "scopes \<Rightarrow> nat \<Rightarrow> pprop list \<Rightarrow> object_state \<Rightarrow> (site_tree \<times> opaque list) \<times> presence_diagnostics" where
  "finish_object s depth props st =
     (let whole = list_ex (serialized_by_hook s depth) props;
          out = (if whole then map (\<lambda>(k, n). (k, withdraw n)) (os_out st) else os_out st)
      in ((out, map (\<lambda>r. if op_path r = [] \<and> \<not> whole then r\<lparr>op_written := map fst out\<rparr> else r) (os_opaque st)), os_diag st))"

definition element_step ::
    "(pprop list \<Rightarrow> presence_diagnostics \<Rightarrow> nat \<Rightarrow> object_result) \<Rightarrow> scopes \<Rightarrow> nat \<Rightarrow> pvalue
      \<Rightarrow> site_tree option \<times> bool \<times> opaque list \<times> presence_diagnostics
      \<Rightarrow> (site_tree option \<times> bool \<times> opaque list \<times> presence_diagnostics) option" where
  "element_step obj s depth element = (\<lambda>(tree, unreadable, opaque, diag).
     (case (case resolve_ref s element 0 of Object_v props \<Rightarrow> Some props | Null_v \<Rightarrow> Some [] | _ \<Rightarrow> None) of
        None \<Rightarrow> Some (tree, True, opaque, diag)
      | Some props \<Rightarrow>
          (case obj props diag (depth + 1) of
             None \<Rightarrow> None
           | Some ((here, nested), diag') \<Rightarrow>
               Some (Some (case tree of Some acc \<Rightarrow> merge_sites acc here | None \<Rightarrow> here), unreadable,
                     opaque @ map (under_step Item) nested, diag'))))"

definition classify_object_body ::
    "(pprop list \<Rightarrow> presence_diagnostics \<Rightarrow> nat \<Rightarrow> object_result)
      \<Rightarrow> (pvalue \<Rightarrow> presence_diagnostics \<Rightarrow> nat \<Rightarrow> variable_presence \<Rightarrow> value_result)
      \<Rightarrow> scopes \<Rightarrow> pprop list \<Rightarrow> presence_diagnostics \<Rightarrow> nat \<Rightarrow> object_result" where
  "classify_object_body obj val s props diag depth =
     (if MAX_DEPTH \<le> depth
      then Some (([], [opaque_here]), diag\<lparr>unreadable_spreads := unreadable_spreads diag + 1\<rparr>)
      else map_option (finish_object s depth props)
        (foldm (prop_step obj val s (standing_getters props) depth) (enumerate 0 props)
          \<lparr>os_out = [], os_opaque = [], os_runs = False, os_already = [], os_diag = diag\<rparr>))"

definition array_node :: "variable_presence \<Rightarrow> site_tree option \<Rightarrow> bool \<Rightarrow> pnode" where
  "array_node presence tree unreadable =
     (case tree of
        None \<Rightarrow> pn_leaf presence
      | Some fs \<Rightarrow>
          (let item = Pnode Always fs None
           in Pnode presence [] (Some (if unreadable then withdraw_children item else item))))"

definition classify_value_body ::
    "(pprop list \<Rightarrow> presence_diagnostics \<Rightarrow> nat \<Rightarrow> object_result)
      \<Rightarrow> (pvalue \<Rightarrow> presence_diagnostics \<Rightarrow> nat \<Rightarrow> variable_presence \<Rightarrow> value_result)
      \<Rightarrow> scopes \<Rightarrow> pvalue \<Rightarrow> presence_diagnostics \<Rightarrow> nat \<Rightarrow> variable_presence \<Rightarrow> value_result" where
  "classify_value_body obj val s v diag depth floor =
     (let presence = weaker (presence_of (definedness s v 0)) floor
      in if MAX_DEPTH \<le> depth then Some ((pn_leaf presence, []), diag)
         else (case resolve_ref s v 0 of
             Object_v props \<Rightarrow>
               (case obj props diag (depth + 1) of
                  None \<Rightarrow> None
                | Some ((tree, nested), diag') \<Rightarrow>
                    (let node = Pnode presence tree None
                     in Some ((if list_ex (serialized_by_hook s depth) props then withdraw node else node, nested), diag')))
           | Array_v items \<Rightarrow>
               (case foldm (element_step obj s depth) items (None, False, [], diag) of
                  None \<Rightarrow> None
                | Some (tree, unreadable, opaque, diag') \<Rightarrow> Some ((array_node presence tree unreadable, opaque), diag'))
           | Either_v a b \<Rightarrow>
               (case val a diag depth floor of
                  None \<Rightarrow> None
                | Some ((left, left_opaque), diag1) \<Rightarrow>
                    (case val b diag1 depth floor of
                       None \<Rightarrow> None
                     | Some ((right, right_opaque), diag2) \<Rightarrow>
                         (let node = merge_nodes left right
                          in Some ((Pnode presence (pn_fields node) (pn_items node), left_opaque @ right_opaque), diag2))))
           | _ \<Rightarrow> Some ((pn_leaf presence, []), diag)))"

record classifier =
  cl_object :: "pprop list \<Rightarrow> presence_diagnostics \<Rightarrow> nat \<Rightarrow> object_result"
  cl_value :: "pvalue \<Rightarrow> presence_diagnostics \<Rightarrow> nat \<Rightarrow> variable_presence \<Rightarrow> value_result"

primrec classifier_at :: "nat \<Rightarrow> scopes \<Rightarrow> classifier" where
  "classifier_at 0 s = \<lparr>cl_object = \<lambda>_ _ _. None, cl_value = \<lambda>_ _ _ _. None\<rparr>"
| "classifier_at (Suc n) s =
     (let c = classifier_at n s
      in \<lparr>cl_object = classify_object_body (cl_object c) (cl_value c) s, cl_value = classify_value_body (cl_object c) (cl_value c) s\<rparr>)"

definition classify_object_reporting :: "nat \<Rightarrow> scopes \<Rightarrow> pprop list \<Rightarrow> presence_diagnostics \<Rightarrow> nat \<Rightarrow> object_result" where
  "classify_object_reporting n s = cl_object (classifier_at n s)"

definition classify_value_reporting ::
    "nat \<Rightarrow> scopes \<Rightarrow> pvalue \<Rightarrow> presence_diagnostics \<Rightarrow> nat \<Rightarrow> variable_presence \<Rightarrow> value_result" where
  "classify_value_reporting n s = cl_value (classifier_at n s)"

lemma classifier_unfold:
  "classify_object_reporting 0 s props diag depth = None"
  "classify_value_reporting 0 s v diag depth floor = None"
  "classify_object_reporting (Suc n) s = classify_object_body (classify_object_reporting n s) (classify_value_reporting n s) s"
  "classify_value_reporting (Suc n) s = classify_value_body (classify_object_reporting n s) (classify_value_reporting n s) s"
  by (simp_all add: classify_object_reporting_def classify_value_reporting_def Let_def)

definition no_diag :: presence_diagnostics where
  "no_diag = \<lparr>operations_without_call_site = 0, unreadable_call_arguments = 0, unreadable_spreads = 0, unreadable_keys = 0,
     ambiguous_call_sites = 0\<rparr>"

section \<open>More fuel\<close>

definition ext_object :: "(pprop list \<Rightarrow> presence_diagnostics \<Rightarrow> nat \<Rightarrow> object_result) \<Rightarrow> (pprop list \<Rightarrow> presence_diagnostics \<Rightarrow> nat \<Rightarrow> object_result) \<Rightarrow> bool" where
  "ext_object f g \<longleftrightarrow> (\<forall>ps d k r. f ps d k = Some r \<longrightarrow> g ps d k = Some r)"

definition ext_value ::
    "(pvalue \<Rightarrow> presence_diagnostics \<Rightarrow> nat \<Rightarrow> variable_presence \<Rightarrow> value_result)
      \<Rightarrow> (pvalue \<Rightarrow> presence_diagnostics \<Rightarrow> nat \<Rightarrow> variable_presence \<Rightarrow> value_result) \<Rightarrow> bool" where
  "ext_value f g \<longleftrightarrow> (\<forall>v d k p r. f v d k p = Some r \<longrightarrow> g v d k p = Some r)"

lemma foldm_mono:
  assumes "\<And>x st r. x \<in> set xs \<Longrightarrow> f x st = Some r \<Longrightarrow> g x st = Some r" "foldm f xs st = Some r"
  shows "foldm g xs st = Some r"
  using assms
proof (induction xs arbitrary: st)
  case (Cons x xs)
  then obtain st' where "f x st = Some st'" "foldm f xs st' = Some r" by (auto split: option.splits)
  with Cons show ?case by simp
qed simp

lemma foldm_total: "(\<And>x st. x \<in> set xs \<Longrightarrow> f x st \<noteq> None) \<Longrightarrow> foldm f xs st \<noteq> None"
  by (induction xs arbitrary: st) (auto split: option.split)

lemma foldm_invariant:
  assumes "foldm f xs st = Some r" "P st" "\<And>x st st'. x \<in> set xs \<Longrightarrow> P st \<Longrightarrow> f x st = Some st' \<Longrightarrow> P st'"
  shows "P r"
  using assms
proof (induction xs arbitrary: st)
  case (Cons x xs)
  then obtain st' where st': "f x st = Some st'" "foldm f xs st' = Some r" by (auto split: option.splits)
  from Cons.prems(3) [OF _ Cons.prems(2) st'(1)] have "P st'" by simp
  with Cons.IH [OF st'(2)] Cons.prems(3) show ?case by (meson list.set_intros(2))
qed simp

text \<open>The steps by the property they read, with the state the getter guard leaves.\<close>

definition guard_getter :: "nat list \<Rightarrow> nat \<Rightarrow> object_state \<Rightarrow> object_state" where
  "guard_getter standing index st0 =
     (if \<not> os_runs st0 \<and> index \<in> set standing then st0\<lparr>os_runs := True, os_already := map fst (os_out st0)\<rparr> else st0)"

lemma guard_getter_sel [simp]:
  "os_out (guard_getter standing i st) = os_out st" "os_opaque (guard_getter standing i st) = os_opaque st"
  "os_diag (guard_getter standing i st) = os_diag st"
  by (simp_all add: guard_getter_def)

lemma prop_step_key:
  "prop_step obj val s standing depth (i, Key_p key v) st0 =
     (let st = guard_getter standing i st0
      in if serialized_by_hook s depth (Key_p key v) then Some (hide_keys st)
         else if v = Getter_v
         then Some (st\<lparr>os_opaque := os_opaque st @ [opaque_here], os_out := bt_insert key (pn_leaf Undetermined) (os_out st)\<rparr>)
         else map_option (\<lambda>((node, nested), diag).
             st\<lparr>os_opaque := os_opaque st @ map (under_step (Field key)) nested,
                os_out := bt_insert key (if os_runs st \<and> key \<notin> set (os_already st) then withdraw node else node) (os_out st),
                os_diag := diag\<rparr>) (val v (os_diag st) depth Always))"
  unfolding prop_step_def guard_getter_def serialized_by_hook_def by (simp add: Let_def split: option.split)

lemma prop_step_unreadable:
  "prop_step obj val s standing depth (i, Unreadable_p) st0 =
     (let st = guard_getter standing i st0
      in Some (hide_keys (st\<lparr>os_diag := (os_diag st)\<lparr>unreadable_keys := unreadable_keys (os_diag st) + 1\<rparr>\<rparr>)))"
  unfolding prop_step_def guard_getter_def by (simp add: Let_def)

definition spreads_nothing :: "scopes \<Rightarrow> pvalue \<Rightarrow> bool" where
  "spreads_nothing s v \<longleftrightarrow> v = Ref_v ''undefined'' \<and> lookup s ''undefined'' = None"

definition spread_object :: "scopes \<Rightarrow> pvalue \<Rightarrow> pprop list option" where
  "spread_object s v = (case resolve_ref s (fst (spread_source s v)) 0 of Object_v props \<Rightarrow> Some props | _ \<Rightarrow> None)"

lemma prop_step_spread:
  "prop_step obj val s standing depth (i, Spread_p v) st0 =
     (let st = guard_getter standing i st0
      in if spreads_nothing s (fst (spread_source s v)) then Some st
         else (case spread_object s v of
                 Some props \<Rightarrow>
                   map_option (\<lambda>((nested, nested_opaque), diag).
                       st\<lparr>os_opaque := os_opaque st @ nested_opaque,
                          os_out := fold (spread_key (os_runs st) (os_already st)
                                           (if snd (spread_source s v) then Conditional else Always)) nested (os_out st),
                          os_diag := diag\<rparr>) (obj props (os_diag st) (depth + 1))
               | None \<Rightarrow> Some (hide_keys (st\<lparr>os_diag := (os_diag st)\<lparr>unreadable_spreads := unreadable_spreads (os_diag st) + 1\<rparr>\<rparr>))))"
  unfolding prop_step_def guard_getter_def spreads_nothing_def spread_object_def
  by (simp add: Let_def case_prod_unfold split: option.split pvalue.split)

lemmas prop_steps = prop_step_key prop_step_unreadable prop_step_spread

lemma prop_step_mono:
  assumes "ext_object obj obj'" "ext_value val val'" "prop_step obj val s standing depth ip st = Some r"
  shows "prop_step obj' val' s standing depth ip st = Some r"
proof -
  obtain i p where ip: "ip = (i, p)" by fastforce
  show ?thesis
    using assms by (cases p) (auto simp: ip prop_steps Let_def ext_object_def ext_value_def split: if_splits option.splits)
qed

lemma element_step_mono:
  "ext_object obj obj' \<Longrightarrow> element_step obj s depth element st = Some r \<Longrightarrow> element_step obj' s depth element st = Some r"
  by (cases st) (auto simp: element_step_def ext_object_def split: option.splits pvalue.splits)

lemma object_body_Some:
  assumes "classify_object_body obj val s props diag depth = Some r" "\<not> MAX_DEPTH \<le> depth"
  obtains st where "r = finish_object s depth props st"
    "foldm (prop_step obj val s (standing_getters props) depth) (enumerate 0 props)
      \<lparr>os_out = [], os_opaque = [], os_runs = False, os_already = [], os_diag = diag\<rparr> = Some st"
  using assms by (auto simp: classify_object_body_def)

lemma classify_object_body_mono:
  assumes "ext_object obj obj'" "ext_value val val'" "classify_object_body obj val s props diag depth = Some r"
  shows "classify_object_body obj' val' s props diag depth = Some r"
proof (cases "MAX_DEPTH \<le> depth")
  case False
  from object_body_Some [OF assms(3) False] obtain st where st: "r = finish_object s depth props st"
    "foldm (prop_step obj val s (standing_getters props) depth) (enumerate 0 props)
      \<lparr>os_out = [], os_opaque = [], os_runs = False, os_already = [], os_diag = diag\<rparr> = Some st" .
  from foldm_mono [OF prop_step_mono [OF assms(1,2)] st(2)] st(1) False show ?thesis
    by (simp add: classify_object_body_def)
qed (use assms(3) in \<open>simp add: classify_object_body_def\<close>)

lemma classify_value_body_mono:
  assumes "ext_object obj obj'" "ext_value val val'" "classify_value_body obj val s v diag depth floor = Some r"
  shows "classify_value_body obj' val' s v diag depth floor = Some r"
proof (cases "MAX_DEPTH \<le> depth")
  case True
  then show ?thesis using assms(3) by (simp add: classify_value_body_def)
next
  case False
  note r = assms(3) [unfolded classify_value_body_def, simplified False Let_def if_False]
  show ?thesis
  proof (cases "resolve_ref s v 0")
    case (Object_v props)
    then show ?thesis
      using r False assms(1) by (auto simp: classify_value_body_def ext_object_def Let_def split: option.splits)
  next
    case (Array_v items)
    with r obtain st where st: "foldm (element_step obj s depth) items (None, False, [], diag) = Some st"
      by (auto split: option.splits)
    from foldm_mono [OF element_step_mono [OF assms(1)] this]
    have "foldm (element_step obj' s depth) items (None, False, [], diag) = Some st" .
    then show ?thesis using r False st Array_v by (simp add: classify_value_body_def Let_def)
  next
    case (Either_v a b)
    with r obtain l lo d1 rr ro d2 where "val a diag depth floor = Some ((l, lo), d1)" "val b d1 depth floor = Some ((rr, ro), d2)"
      by (auto split: option.splits)
    moreover from this have "val' a diag depth floor = Some ((l, lo), d1)" "val' b d1 depth floor = Some ((rr, ro), d2)"
      using assms(2) by (simp_all add: ext_value_def)
    ultimately show ?thesis using r False Either_v by (simp add: classify_value_body_def Let_def)
  qed (use r False in \<open>simp_all add: classify_value_body_def Let_def\<close>)
qed

lemma classify_Suc:
  "ext_object (classify_object_reporting n s) (classify_object_reporting (Suc n) s)
   \<and> ext_value (classify_value_reporting n s) (classify_value_reporting (Suc n) s)"
proof (induction n)
  case 0
  then show ?case by (simp add: ext_object_def ext_value_def classifier_unfold(1,2))
next
  case (Suc n)
  from classify_object_body_mono [OF Suc [THEN conjunct1] Suc [THEN conjunct2]]
    classify_value_body_mono [OF Suc [THEN conjunct1] Suc [THEN conjunct2]]
  show ?case unfolding ext_object_def ext_value_def classifier_unfold(3,4) by blast
qed

lemma classify_more:
  assumes "n \<le> m"
  shows "classify_object_reporting n s props diag depth = Some r \<Longrightarrow> classify_object_reporting m s props diag depth = Some r"
    and "classify_value_reporting n s v diag depth floor = Some r' \<Longrightarrow> classify_value_reporting m s v diag depth floor = Some r'"
proof -
  have "ext_object (classify_object_reporting n s) (classify_object_reporting m s)
     \<and> ext_value (classify_value_reporting n s) (classify_value_reporting m s)"
    using assms
  proof (induction m rule: dec_induct)
    case (step m)
    then show ?case using classify_Suc [of m s] unfolding ext_object_def ext_value_def by blast
  qed (simp add: ext_object_def ext_value_def)
  then show "classify_object_reporting n s props diag depth = Some r \<Longrightarrow> classify_object_reporting m s props diag depth = Some r"
    and "classify_value_reporting n s v diag depth floor = Some r' \<Longrightarrow> classify_value_reporting m s v diag depth floor = Some r'"
    unfolding ext_object_def ext_value_def by blast+
qed

section \<open>When the classification ends\<close>

text \<open>
  The recursion ends when no binding reaches itself through the arms of ternaries: some rank falls from
  every name to the names among the arms of what it is bound to.
\<close>

fun arm_refs :: "pvalue \<Rightarrow> string set" where
  "arm_refs (Ref_v name) = {name}"
| "arm_refs (Either_v a b) = arm_refs a \<union> arm_refs b"
| "arm_refs _ = {}"

definition arms_ranked :: "(string \<Rightarrow> nat) \<Rightarrow> scopes \<Rightarrow> bool" where
  "arms_ranked rank s \<longleftrightarrow> (\<forall>x v y. lookup s x = Some v \<longrightarrow> y \<in> arm_refs v \<longrightarrow> rank y < rank x)"

fun arm_rank :: "(string \<Rightarrow> nat) \<Rightarrow> pvalue \<Rightarrow> nat" where
  "arm_rank rank (Ref_v name) = Suc (rank name)"
| "arm_rank rank (Either_v a b) = max (arm_rank rank a) (arm_rank rank b)"
| "arm_rank rank _ = 0"

lemma arm_rank_le: "(\<And>y. y \<in> arm_refs v \<Longrightarrow> rank y < n) \<Longrightarrow> arm_rank rank v \<le> n"
  by (induction v) (auto simp: Suc_le_eq)

lemma arm_rank_bound: "arms_ranked rank s \<Longrightarrow> lookup s x = Some v \<Longrightarrow> arm_rank rank v \<le> rank x"
  unfolding arms_ranked_def by (blast intro: arm_rank_le)

lemma arm_rank_resolve:
  "arms_ranked rank s \<Longrightarrow> resolve_ref s v depth = v \<or> arm_rank rank (resolve_ref s v depth) < arm_rank rank v"
proof (induction s v depth rule: resolve_ref.induct)
  case (1 s v depth)
  show ?case
  proof (cases "\<exists>name bound. v = Ref_v name \<and> depth < MAX_DEPTH \<and> lookup s name = Some bound")
    case True
    then obtain name bound where v: "v = Ref_v name" "depth < MAX_DEPTH" "lookup s name = Some bound" by blast
    from "1.IH" [OF v(1,2,3) "1.prems"] arm_rank_bound [OF "1.prems" v(3)] show ?thesis
      using v by (subst (2) resolve_ref.simps, subst resolve_ref.simps) auto
  next
    case False
    then have "resolve_ref s v depth = v" by (subst resolve_ref.simps) (auto split: pvalue.split option.split)
    then show ?thesis by simp
  qed
qed

lemma uniform_fuel:
  fixes P :: "nat \<Rightarrow> 'a \<Rightarrow> bool"
  assumes "\<And>x. x \<in> set xs \<Longrightarrow> \<exists>n. P n x" "\<And>n m x. P n x \<Longrightarrow> n \<le> m \<Longrightarrow> P m x"
  shows "\<exists>n. \<forall>x \<in> set xs. P n x"
  using assms(1)
proof (induction xs)
  case (Cons x xs)
  then obtain n m where "P n x" "\<forall>x \<in> set xs. P m x" by (meson list.set_intros)
  then have "\<forall>y \<in> set (x # xs). P (max n m) y" using assms(2) by (auto intro: assms(2) max.cobounded1 max.cobounded2)
  then show ?case by blast
qed simp

definition object_ends :: "scopes \<Rightarrow> nat \<Rightarrow> nat \<Rightarrow> pprop list \<Rightarrow> bool" where
  "object_ends s depth n props \<longleftrightarrow> (\<forall>diag. classify_object_reporting n s props diag depth \<noteq> None)"

definition value_ends :: "scopes \<Rightarrow> nat \<Rightarrow> nat \<Rightarrow> pvalue \<Rightarrow> bool" where
  "value_ends s depth n v \<longleftrightarrow> (\<forall>diag floor. classify_value_reporting n s v diag depth floor \<noteq> None)"

lemma ends_more:
  "object_ends s depth n props \<Longrightarrow> n \<le> m \<Longrightarrow> object_ends s depth m props"
  "value_ends s depth n v \<Longrightarrow> n \<le> m \<Longrightarrow> value_ends s depth m v"
proof -
  assume a: "object_ends s depth n props" "n \<le> m"
  show "object_ends s depth m props"
    unfolding object_ends_def
  proof
    fix diag
    obtain r where "classify_object_reporting n s props diag depth = Some r"
      using a(1) unfolding object_ends_def by (cases "classify_object_reporting n s props diag depth") blast+
    then show "classify_object_reporting m s props diag depth \<noteq> None" using classify_more(1) [OF a(2)] by (metis option.discI)
  qed
next
  assume a: "value_ends s depth n v" "n \<le> m"
  show "value_ends s depth m v"
    unfolding value_ends_def
  proof (intro allI)
    fix diag floor
    obtain r where "classify_value_reporting n s v diag depth floor = Some r"
      using a(1) unfolding value_ends_def by (cases "classify_value_reporting n s v diag depth floor") blast+
    then show "classify_value_reporting m s v diag depth floor \<noteq> None" using classify_more(2) [OF a(2)] by (metis option.discI)
  qed
qed

lemma values_end:
  assumes ranked: "arms_ranked rank s" and objects: "\<And>props. \<exists>n. object_ends s (depth + 1) n props" and d: "\<not> MAX_DEPTH \<le> depth"
  shows "\<exists>n. value_ends s depth n v"
proof (induction v rule: wf_induct_rule [OF wf_measures [of "[arm_rank rank, size]"]])
  case (1 v)
  have body: "value_ends s depth (Suc n) v"
    if "\<And>diag floor. classify_value_body (classify_object_reporting n s) (classify_value_reporting n s) s v diag depth floor \<noteq> None" for n
    using that by (simp add: value_ends_def classifier_unfold(4))
  show ?case
  proof (cases "resolve_ref s v 0")
    case (Object_v props)
    from objects obtain n where "object_ends s (depth + 1) n props" by blast
    then have "value_ends s depth (Suc n) v"
      by (intro body) (auto simp: classify_value_body_def d Object_v object_ends_def Let_def split: option.split)
    then show ?thesis by blast
  next
    case (Array_v items)
    have "\<exists>n. \<forall>props \<in> set ([] # concat (map (\<lambda>v. case resolve_ref s v 0 of Object_v ps \<Rightarrow> [ps] | _ \<Rightarrow> []) items)). object_ends s (depth + 1) n props"
      by (rule uniform_fuel) (use objects ends_more(1) in blast)+
    then obtain n where n: "object_ends s (depth + 1) n []"
      "\<And>v ps. v \<in> set items \<Longrightarrow> resolve_ref s v 0 = Object_v ps \<Longrightarrow> object_ends s (depth + 1) n ps"
      by (force split: pvalue.splits)
    have "element_step (classify_object_reporting n s) s depth v st \<noteq> None" if "v \<in> set items" for v st
      using n(1) n(2) [OF that]
      by (cases st; cases "resolve_ref s v 0") (auto simp: element_step_def object_ends_def split: option.split)
    from foldm_total [of items, OF this] have "value_ends s depth (Suc n) v"
      by (intro body) (auto simp: classify_value_body_def d Array_v Let_def split: option.split)
    then show ?thesis by blast
  next
    case (Either_v a b)
    have "(a, v) \<in> measures [arm_rank rank, size]" "(b, v) \<in> measures [arm_rank rank, size]"
      using arm_rank_resolve [OF ranked, of v 0] unfolding Either_v by (auto simp: less_Suc_eq_le max_def split: if_splits)
    with 1 obtain n m where "value_ends s depth n a" "value_ends s depth m b" by blast
    then have "value_ends s depth (max n m) a" "value_ends s depth (max n m) b"
      by (auto intro: ends_more(2) max.cobounded1 max.cobounded2)
    note e = this [unfolded value_ends_def, rule_format]
    have "value_ends s depth (Suc (max n m)) v"
    proof (rule body)
      fix diag floor
      obtain l lo d1 where l: "classify_value_reporting (max n m) s a diag depth floor = Some ((l, lo), d1)"
        using e(1) [of diag floor] by (cases "classify_value_reporting (max n m) s a diag depth floor") auto
      show "classify_value_body (classify_object_reporting (max n m) s) (classify_value_reporting (max n m) s) s v diag depth floor \<noteq> None"
        using e(2) [of d1 floor] d
        by (cases "classify_value_reporting (max n m) s b d1 depth floor") (auto simp: classify_value_body_def Either_v Let_def l)
    qed
    then show ?thesis by blast
  qed (use body [of 0] in \<open>auto simp: classify_value_body_def d Let_def\<close>)
qed

lemma objects_end:
  assumes "arms_ranked rank s"
  shows "\<exists>n. object_ends s depth n props"
proof (induction "MAX_DEPTH - depth" arbitrary: depth props rule: less_induct)
  case less
  show ?case
  proof (cases "MAX_DEPTH \<le> depth")
    case True
    then have "object_ends s depth (Suc 0) props" by (simp add: object_ends_def classifier_unfold(3) classify_object_body_def)
    then show ?thesis by blast
  next
    case False
    have objects: "\<exists>n. object_ends s (depth + 1) n ps" for ps
      by (rule less.hyps) (use False in simp)
    have "\<exists>n. value_ends s depth n v" for v
      by (rule values_end [OF assms _ False]) (rule objects)
    then have "\<exists>n. (case p of Key_p k v \<Rightarrow> value_ends s depth n v
        | Spread_p v \<Rightarrow> (case spread_object s v of None \<Rightarrow> True | Some ps \<Rightarrow> object_ends s (depth + 1) n ps) | Unreadable_p \<Rightarrow> True)" for p
    proof (cases p)
      case (Spread_p v)
      then show ?thesis using objects by (cases "spread_object s v") simp_all
    qed (use \<open>\<And>v. \<exists>n. value_ends s depth n v\<close> in simp_all)
    then have "\<exists>n. \<forall>p \<in> set props. (case p of Key_p k v \<Rightarrow> value_ends s depth n v
        | Spread_p v \<Rightarrow> (case spread_object s v of None \<Rightarrow> True | Some ps \<Rightarrow> object_ends s (depth + 1) n ps) | Unreadable_p \<Rightarrow> True)"
      by (intro uniform_fuel) (auto split: pprop.splits option.splits intro: ends_more)
    then obtain n where n: "\<And>p. p \<in> set props \<Longrightarrow> (case p of Key_p k v \<Rightarrow> value_ends s depth n v
        | Spread_p v \<Rightarrow> (case spread_object s v of None \<Rightarrow> True | Some ps \<Rightarrow> object_ends s (depth + 1) n ps) | Unreadable_p \<Rightarrow> True)"
      by blast
    have "prop_step (classify_object_reporting n s) (classify_value_reporting n s) s standing depth ip st \<noteq> None"
      if "ip \<in> set (enumerate 0 props)" for standing ip st
    proof -
      obtain i p where ip: "ip = (i, p)" by fastforce
      with that have "p \<in> set props" by (auto simp: enumerate_eq_zip dest: set_zip_rightD)
      from n [OF this] show ?thesis
        by (cases p) (auto simp: ip prop_steps Let_def value_ends_def object_ends_def split: option.split)
    qed
    from foldm_total [OF this] have "object_ends s depth (Suc n) props"
      using False by (auto simp: object_ends_def classifier_unfold(3) classify_object_body_def)
    then show ?thesis by blast
  qed
qed

text \<open>
  C20: The classification of a call site ends, whatever the object, when no binding reaches itself through
  the arms of ternaries: past some fuel every run gives one and the same result.  Where a name is bound
  to a ternary with itself as an arm - \<open>v = t ? {...} : v\<close> - the value is never classified.
\<close>

theorem classification_ends:
  assumes "arms_ranked rank s"
  shows "\<exists>n r. \<forall>m \<ge> n. classify_object_reporting m s props diag depth = Some r"
proof -
  from objects_end [OF assms] obtain n where "object_ends s depth n props" by blast
  then obtain r where "classify_object_reporting n s props diag depth = Some r"
    unfolding object_ends_def by (cases "classify_object_reporting n s props diag depth") blast+
  then show ?thesis using classify_more(1) by blast
qed

theorem classification_ends_witness:
  "\<exists>n r. \<forall>m \<ge> n. classify_object_reporting m (one_frame [(''v'', Either_v (Ref_v ''u'') Null_v), (''u'', Object_v [])])
     [Key_p ''a'' (Ref_v ''v'')] no_diag 0 = Some r"
proof -
  let ?s = "one_frame [(''v'', Either_v (Ref_v ''u'') Null_v), (''u'', Object_v [])]"
  have "lookup ?s x = (if x = ''v'' then Some (Either_v (Ref_v ''u'') Null_v) else if x = ''u'' then Some (Object_v []) else None)" for x
    by (simp add: lookup_def one_frame_def bound_inside_def)
  then have "arms_ranked (\<lambda>x. if x = ''v'' then 1 else 0) ?s" by (auto simp: arms_ranked_def split: if_splits)
  from classification_ends [OF this] show ?thesis .
qed

lemma self_arm_never_ends:
  assumes "resolve_ref s v 0 = Either_v a v" "depth < MAX_DEPTH"
  shows "classify_value_reporting n s v diag depth floor = None"
proof (induction n arbitrary: diag)
  case (Suc n)
  then show ?case
    using assms by (auto simp: classifier_unfold(4) classify_value_body_def Let_def split: option.split)
qed (simp add: classifier_unfold)

lemma self_ternary_never_ends:
  "classify_object_reporting n (one_frame [(''v'', Either_v (Object_v []) (Ref_v ''v''))]) [Key_p ''input'' (Ref_v ''v'')] no_diag 0 = None"
proof (cases n)
  case (Suc m)
  have "resolve_ref (one_frame [(''v'', Either_v (Object_v []) (Ref_v ''v''))]) (Ref_v ''v'') 0 = Either_v (Object_v []) (Ref_v ''v'')"
    by code_simp
  from self_arm_never_ends [OF this] show ?thesis
    by (simp add: Suc classifier_unfold(3) classify_object_body_def enumerate_eq_zip upt_conv_Cons prop_step_key serialized_by_hook_def MAX_DEPTH_def Let_def)
qed (simp add: classifier_unfold)

section \<open>The trees of a call site are well formed\<close>

lemma hide_keys_sel [simp]:
  "os_out (hide_keys st) = map (\<lambda>(k, n). (k, withdraw n)) (os_out st)" "os_runs (hide_keys st) = os_runs st"
  by (simp_all add: hide_keys_def)

lemma tree_ok_withdraw: "tree_ok t \<Longrightarrow> tree_ok (map (\<lambda>(k, n). (k, withdraw n)) t)"
  by (rule tree_ok_map) (auto intro: node_ok_withdraw)

lemma tree_ok_spread: "tree_ok nested \<Longrightarrow> tree_ok t \<Longrightarrow> tree_ok (fold (spread_key code_runs already floor) nested t)"
proof -
  assume n: "tree_ok nested" and t: "tree_ok t"
  have "tree_ok (fold (spread_key code_runs already floor) xs t)" if "set xs \<subseteq> set nested" for xs
    using t that
  proof (induction xs arbitrary: t)
    case (Cons x xs)
    obtain k c where x: "x = (k, c)" by fastforce
    with Cons.prems(2) n have "node_ok c" by (auto simp: tree_ok_simps)
    then have "tree_ok (spread_key code_runs already floor x t)"
      using Cons.prems(1) by (auto simp: spread_key_def x Let_def intro!: tree_ok_insert node_ok_withdraw)
    with Cons show ?case by simp
  qed simp
  then show ?thesis by blast
qed

definition good_object :: "(pprop list \<Rightarrow> presence_diagnostics \<Rightarrow> nat \<Rightarrow> object_result) \<Rightarrow> bool" where
  "good_object obj \<longleftrightarrow> (\<forall>ps d k t oq d'. obj ps d k = Some ((t, oq), d') \<longrightarrow> tree_ok t)"

definition good_value :: "(pvalue \<Rightarrow> presence_diagnostics \<Rightarrow> nat \<Rightarrow> variable_presence \<Rightarrow> value_result) \<Rightarrow> bool" where
  "good_value val \<longleftrightarrow> (\<forall>v d k p n oq d'. val v d k p = Some ((n, oq), d') \<longrightarrow> node_ok n)"

lemma good_objectD: "good_object obj \<Longrightarrow> obj ps d k = Some ((t, oq), d') \<Longrightarrow> tree_ok t"
  unfolding good_object_def by blast

lemma good_valueD: "good_value val \<Longrightarrow> val v d k p = Some ((n, oq), d') \<Longrightarrow> node_ok n"
  unfolding good_value_def by blast

lemma prop_step_ok:
  assumes "good_object obj" "good_value val" "prop_step obj val s standing depth ip st = Some st'" "tree_ok (os_out st)"
  shows "tree_ok (os_out st')"
proof -
  obtain i p where ip: "ip = (i, p)" by fastforce
  show ?thesis
  proof (cases p)
    case (Key_p key v)
    show ?thesis
      using assms
      by (auto simp: ip Key_p prop_step_key Let_def tree_ok_withdraw split: if_splits
          intro!: tree_ok_insert node_ok_withdraw dest: good_valueD)
  next
    case (Spread_p v)
    show ?thesis
      using assms
      by (auto simp: ip Spread_p prop_step_spread Let_def tree_ok_withdraw split: if_splits option.splits
          intro!: tree_ok_spread dest: good_objectD)
  next
    case Unreadable_p
    show ?thesis using assms by (auto simp: ip Unreadable_p prop_step_unreadable Let_def tree_ok_withdraw)
  qed
qed

lemma object_body_ok:
  assumes "good_object obj" "good_value val"
  shows "good_object (classify_object_body obj val s)"
  unfolding good_object_def
proof (intro allI impI)
  fix ps d k t oq d'
  assume r: "classify_object_body obj val s ps d k = Some ((t, oq), d')"
  show "tree_ok t"
  proof (cases "MAX_DEPTH \<le> k")
    case False
    from object_body_Some [OF r False] obtain st where st: "((t, oq), d') = finish_object s k ps st"
      "foldm (prop_step obj val s (standing_getters ps) k) (enumerate 0 ps)
        \<lparr>os_out = [], os_opaque = [], os_runs = False, os_already = [], os_diag = d\<rparr> = Some st" .
    have "tree_ok (os_out st)"
      by (rule foldm_invariant [where P = "\<lambda>st. tree_ok (os_out st)", OF st(2)]) (use prop_step_ok [OF assms] in auto)
    then show ?thesis using st(1) by (auto simp: finish_object_def Let_def tree_ok_withdraw split: if_splits)
  qed (use r in \<open>simp add: classify_object_body_def\<close>)
qed

lemma array_node_ok: "(\<And>fs. tree = Some fs \<Longrightarrow> tree_ok fs) \<Longrightarrow> node_ok (array_node p tree unreadable)"
  by (cases tree) (auto simp: array_node_def Let_def tree_ok_def node_ok_withdraw simp del: withdraw_children.simps)

lemma value_body_ok:
  assumes "good_object obj" "good_value val"
  shows "good_value (classify_value_body obj val s)"
  unfolding good_value_def
proof (intro allI impI)
  fix v d k p n oq d'
  assume r: "classify_value_body obj val s v d k p = Some ((n, oq), d')"
  show "node_ok n"
  proof (cases "MAX_DEPTH \<le> k")
    case True
    then show ?thesis using r by (auto simp: classify_value_body_def Let_def)
  next
    case False
    note r = r [unfolded classify_value_body_def, simplified False Let_def if_False]
    show ?thesis
    proof (cases "resolve_ref s v 0")
      case (Object_v props)
      then obtain t where o: "obj props d (k + 1) = Some ((t, oq), d')" and t: "n = Pnode (weaker (presence_of (definedness s v 0)) p) t None \<or>
          n = withdraw (Pnode (weaker (presence_of (definedness s v 0)) p) t None)"
        using r by (simp split: option.splits prod.splits if_splits)
      from good_objectD [OF assms(1) o] have ok: "tree_ok t" .
      then have "node_ok (Pnode (weaker (presence_of (definedness s v 0)) p) t None)" by (simp add: tree_ok_simps)
      then show ?thesis using t node_ok_withdraw(1) by blast
    next
      case (Array_v items)
      then obtain tree u oq' d1 where st: "foldm (element_step obj s k) items (None, False, [], d) = Some (tree, u, oq', d1)"
        "n = array_node (weaker (presence_of (definedness s v 0)) p) tree u"
        using r by (auto split: option.splits)
      have "\<forall>fs. fst (tree, u, oq', d1) = Some fs \<longrightarrow> tree_ok fs"
      proof (rule foldm_invariant [where P = "\<lambda>st. \<forall>fs. fst st = Some fs \<longrightarrow> tree_ok fs", OF st(1)])
        fix x st st'
        assume "\<forall>fs. fst st = Some fs \<longrightarrow> tree_ok fs" "element_step obj s k x st = Some st'"
        then show "\<forall>fs. fst st' = Some fs \<longrightarrow> tree_ok fs"
          using assms(1)
          by (cases st) (auto simp: element_step_def split: option.splits intro!: tree_ok_merge_sites dest: good_objectD)
      qed simp
      then show ?thesis unfolding st(2) by (intro array_node_ok) simp
    next
      case (Either_v a b)
      then obtain l lo d1 rr ro d2 where e: "val a d k p = Some ((l, lo), d1)" "val b d1 k p = Some ((rr, ro), d2)"
        "n = Pnode (weaker (presence_of (definedness s v 0)) p) (pn_fields (merge_nodes l rr)) (pn_items (merge_nodes l rr))"
        using r by (auto simp: Let_def simp del: merge_nodes_sel split: option.splits)
      with assms(2) have "node_ok (merge_nodes l rr)" by (blast intro: node_ok_merge dest: good_valueD)
      then show ?thesis unfolding e(3) node_ok_iff [of "merge_nodes l rr"] by (auto simp: tree_ok_simps simp del: merge_nodes_sel)
    qed (use r in auto)
  qed
qed

lemma classify_ok: "good_object (classify_object_reporting n s) \<and> good_value (classify_value_reporting n s)"
proof (induction n)
  case 0
  then show ?case by (simp add: good_object_def good_value_def classifier_unfold(1,2))
next
  case (Suc n)
  then show ?case unfolding classifier_unfold(3,4) by (blast intro: object_body_ok value_body_ok)
qed

lemma classified_tree_ok: "classify_object_reporting n s props diag depth = Some ((t, oq), d) \<Longrightarrow> tree_ok t"
  using classify_ok good_objectD by blast

section \<open>Building an object\<close>

text \<open>
  What evaluating an object literal leaves under each key.  A computed key may be any key, a spread of
  something unknown copies anything, a spread of a falsy value nothing.
\<close>

definition other_source :: "pvalue \<Rightarrow> bool" where
  "other_source v \<longleftrightarrow>
     (case v of Object_v _ \<Rightarrow> False | Ref_v _ \<Rightarrow> False | Null_v \<Rightarrow> False | AndThen_v _ _ \<Rightarrow> False | Either_v _ _ \<Rightarrow> False | _ \<Rightarrow> True)"

inductive builds :: "bool \<Rightarrow> scopes \<Rightarrow> pprop list \<Rightarrow> (string \<rightharpoonup> jsv) \<Rightarrow> (string \<rightharpoonup> jsv) \<Rightarrow> bool"
  and copies :: "bool \<Rightarrow> scopes \<Rightarrow> pvalue \<Rightarrow> (string \<rightharpoonup> jsv) \<Rightarrow> bool" for ext s where
  b_nil: "builds ext s [] m m"
| b_key: "evals ext s v x \<Longrightarrow> builds ext s ps (m(k \<mapsto> x)) m' \<Longrightarrow> builds ext s (Key_p k v # ps) m m'"
| b_unreadable: "builds ext s ps (m(k \<mapsto> x)) m' \<Longrightarrow> builds ext s (Unreadable_p # ps) m m'"
| b_spread: "copies ext s v e \<Longrightarrow> builds ext s ps (m ++ e) m' \<Longrightarrow> builds ext s (Spread_p v # ps) m m'"
| c_object: "builds ext s ps Map.empty e \<Longrightarrow> copies ext s (Object_v ps) e"
| c_bound: "lookup s name = Some v \<Longrightarrow> copies ext s v e \<Longrightarrow> copies ext s (Ref_v name) e"
| c_undefined: "lookup s ''undefined'' = None \<Longrightarrow> copies ext s (Ref_v ''undefined'') Map.empty"
| c_free: "lookup s name = None \<Longrightarrow> name \<noteq> ''undefined'' \<Longrightarrow> copies ext s (Ref_v name) e"
| c_null: "copies ext s Null_v Map.empty"
| c_and_left: "copies ext s (AndThen_v a b) Map.empty"
| c_and_right: "copies ext s b e \<Longrightarrow> copies ext s (AndThen_v a b) e"
| c_either_left: "copies ext s a e \<Longrightarrow> copies ext s (Either_v a b) e"
| c_either_right: "copies ext s b e \<Longrightarrow> copies ext s (Either_v a b) e"
| c_other: "other_source v \<Longrightarrow> copies ext s v e"

inductive_cases builds_cases:
  "builds ext s [] m m'" "builds ext s (Key_p k v # ps) m m'" "builds ext s (Unreadable_p # ps) m m'" "builds ext s (Spread_p v # ps) m m'"
inductive_cases copies_cases:
  "copies ext s (Object_v ps) e" "copies ext s (Ref_v name) e" "copies ext s Null_v e" "copies ext s (AndThen_v a b) e" "copies ext s (Either_v a b) e"

lemma other_sources [simp]:
  "\<not> other_source (Object_v ps)" "\<not> other_source (Ref_v name)" "\<not> other_source Null_v" "\<not> other_source (AndThen_v a b)"
  "\<not> other_source (Either_v a b)"
  by (simp_all add: other_source_def)

lemma copies_resolve: "copies ext s v e \<Longrightarrow> copies ext s (resolve_ref s v depth) e"
proof (induction s v depth rule: resolve_ref.induct)
  case (1 s v depth)
  show ?case
  proof (cases "\<exists>name bound. v = Ref_v name \<and> depth < MAX_DEPTH \<and> lookup s name = Some bound")
    case True
    then obtain name bound where v: "v = Ref_v name" "depth < MAX_DEPTH" "lookup s name = Some bound" by blast
    from "1.prems" v have "copies ext s bound e" by (auto elim: copies_cases)
    from "1.IH" [OF v(1,2,3) this] show ?thesis using v by (subst resolve_ref.simps) simp
  next
    case False
    then have "resolve_ref s v depth = v" by (subst resolve_ref.simps) (auto split: pvalue.split option.split)
    with "1.prems" show ?thesis by simp
  qed
qed

lemma copies_object: "copies ext s v e \<Longrightarrow> resolve_ref s v depth = Object_v ps \<Longrightarrow> builds ext s ps Map.empty e"
  using copies_resolve [of ext s v e depth] by (auto elim: copies_cases)

text \<open>
  What the soundness of a site asks of it: no accessors, no function hidden in a left operand, and
  spreads whose objects are read whole - a spread of an object with unknown keys of its own, or of a
  ternary with an unreadable arm, may overwrite a key without the classification noticing.
\<close>

definition empty_source :: "scopes \<Rightarrow> pvalue \<Rightarrow> bool" where
  "empty_source s v \<longleftrightarrow> resolve_ref s v 0 = Object_v [] \<or> resolve_ref s v 0 = Null_v"

definition quiet_arms :: "scopes \<Rightarrow> pvalue \<Rightarrow> bool" where
  "quiet_arms s v \<longleftrightarrow>
     (case resolve_ref s v 0 of
        Either_v a b \<Rightarrow> (carries s a \<longrightarrow> empty_source s b) \<and> (carries s b \<longrightarrow> empty_source s a)
      | _ \<Rightarrow> True)"

function plain_object :: "bool \<Rightarrow> scopes \<Rightarrow> bool \<Rightarrow> pprop list \<Rightarrow> nat \<Rightarrow> bool" where
  "plain_object ext s whole props depth =
     (if MAX_DEPTH \<le> depth then \<not> whole
      else list_all (\<lambda>p. case p of
          Key_p k v \<Rightarrow> v \<noteq> Getter_v \<and> lefts_quiet ext s v 0 \<and> \<not> (whole \<and> serialized_by_hook s depth p)
        | Unreadable_p \<Rightarrow> \<not> whole
        | Spread_p v \<Rightarrow>
            spreads_nothing s (fst (spread_source s v))
            \<or> (case spread_object s v of
                 Some inner_props \<Rightarrow> quiet_arms s v \<and> plain_object ext s True inner_props (depth + 1)
               | None \<Rightarrow> \<not> whole)) props)"
  by pat_completeness auto
termination by (relation "measure (\<lambda>(ext, s, whole, props, depth). MAX_DEPTH - depth)") auto

declare plain_object.simps [simp del]

definition plain_prop :: "bool \<Rightarrow> scopes \<Rightarrow> bool \<Rightarrow> nat \<Rightarrow> pprop \<Rightarrow> bool" where
  "plain_prop ext s whole depth p \<longleftrightarrow>
     (case p of
        Key_p k v \<Rightarrow> v \<noteq> Getter_v \<and> lefts_quiet ext s v 0 \<and> \<not> (whole \<and> serialized_by_hook s depth p)
      | Unreadable_p \<Rightarrow> \<not> whole
      | Spread_p v \<Rightarrow>
          spreads_nothing s (fst (spread_source s v))
          \<or> (case spread_object s v of
               Some inner_props \<Rightarrow> quiet_arms s v \<and> plain_object ext s True inner_props (depth + 1)
             | None \<Rightarrow> \<not> whole))"

lemma plain_object_props:
  "\<not> MAX_DEPTH \<le> depth \<Longrightarrow> plain_object ext s whole props depth \<longleftrightarrow> list_all (plain_prop ext s whole depth) props"
  unfolding plain_object.simps [of ext s whole props] by (simp add: plain_prop_def [abs_def])

lemma carries_object: "carries s v \<Longrightarrow> resolve_ref s v 0 \<noteq> Ref_v name"
  by (auto simp: carries_def)

lemma resolve_unbound: "lookup s name = None \<Longrightarrow> resolve_ref s (Ref_v name) depth = Ref_v name"
  by (subst resolve_ref.simps) simp

lemma copies_nothing:
  assumes "copies ext s v e" "spreads_nothing s (fst (spread_source s v))"
  shows "e = Map.empty"
proof -
  have u: "w = Map.empty" if "copies ext s (Ref_v ''undefined'') w" for w
    using that assms(2) by (auto simp: spreads_nothing_def elim: copies_cases)
  have n: "lookup s ''undefined'' = None" "fst (spread_source s v) = Ref_v ''undefined''"
    using assms(2) by (auto simp: spreads_nothing_def)
  have e: "copies ext s (resolve_ref s v 0) e" by (rule copies_resolve [OF assms(1)])
  show ?thesis
  proof (cases "resolve_ref s v 0")
    case (AndThen_v a b)
    with n(2) e u show ?thesis by (auto simp: spread_source_def elim: copies_cases)
  next
    case (Either_v a b)
    have "\<not> carries s (Ref_v ''undefined'')" using carries_object resolve_unbound [OF n(1)] by metis
    moreover have "v \<noteq> Ref_v ''undefined''" using Either_v resolve_unbound [OF n(1)] by auto
    ultimately show ?thesis using n(2) by (auto simp: spread_source_def Either_v split: bool.splits)
  qed (use n(2) e u in \<open>auto simp: spread_source_def\<close>)
qed

lemma copies_empty: "copies ext s (Object_v []) e \<Longrightarrow> e = Map.empty" "copies ext s Null_v e \<Longrightarrow> e = Map.empty"
  by (auto elim!: copies_cases(1,3) builds_cases(1))

lemma copies_spread:
  assumes "copies ext s v e" "spread_object s v = Some ps" "quiet_arms s v"
  shows "builds ext s ps Map.empty e \<or> snd (spread_source s v) \<and> e = Map.empty"
proof -
  have src: "resolve_ref s (fst (spread_source s v)) 0 = Object_v ps"
    using assms(2) by (auto simp: spread_object_def split: pvalue.splits)
  have e: "copies ext s (resolve_ref s v 0) e" by (rule copies_resolve [OF assms(1)])
  have em: "f = Map.empty" if "copies ext s w f" "empty_source s w" for w f
    using copies_resolve [OF that(1), of 0] that(2) copies_empty by (auto simp: empty_source_def)
  show ?thesis
  proof (cases "resolve_ref s v 0")
    case (AndThen_v a b)
    then show ?thesis using e src copies_object [of ext s b e 0] by (auto simp: spread_source_def elim: copies_cases)
  next
    case (Either_v a b)
    have arm: "copies ext s a e \<or> copies ext s b e" using e Either_v by (auto elim: copies_cases)
    have q: "carries s a \<Longrightarrow> empty_source s b" "carries s b \<Longrightarrow> empty_source s a" using assms(3) by (auto simp: quiet_arms_def Either_v)
    consider "carries s a" "\<not> carries s b" | "\<not> carries s a" "carries s b"
      using src Either_v by (auto simp: spread_source_def split: bool.splits)
    then show ?thesis
    proof cases
      case 1
      then have "spread_source s v = (a, True)" by (simp add: spread_source_def Either_v)
      then show ?thesis using arm q(1) 1 em src copies_object [of ext s a e 0] by auto
    next
      case 2
      then have "spread_source s v = (b, True)" by (simp add: spread_source_def Either_v)
      then show ?thesis using arm q(2) 2 em src copies_object [of ext s b e 0] by auto
    qed
  qed (use e src copies_object [of ext s "resolve_ref s v 0" e 0] in \<open>auto simp: spread_source_def\<close>)
qed

section \<open>Keys called always present are sent\<close>

definition sent :: "site_tree \<Rightarrow> (string \<rightharpoonup> jsv) \<Rightarrow> bool" where
  "sent t m \<longleftrightarrow> (\<forall>k n. map_of t k = Some n \<longrightarrow> pn_presence n = Always \<longrightarrow> (\<exists>x. m k = Some x \<and> on_wire x))"

definition covers :: "bool \<Rightarrow> site_tree \<Rightarrow> (string \<rightharpoonup> jsv) \<Rightarrow> bool" where
  "covers whole t m \<longleftrightarrow> (whole \<longrightarrow> dom m \<subseteq> dom (map_of t))"

definition sound_object :: "bool \<Rightarrow> scopes \<Rightarrow> (pprop list \<Rightarrow> presence_diagnostics \<Rightarrow> nat \<Rightarrow> object_result) \<Rightarrow> bool" where
  "sound_object ext s obj \<longleftrightarrow>
     (\<forall>ps d k t oq d' whole m. obj ps d k = Some ((t, oq), d') \<longrightarrow> plain_object ext s whole ps k \<longrightarrow> builds ext s ps Map.empty m \<longrightarrow>
        sent t m \<and> covers whole t m)"

definition sound_value :: "scopes \<Rightarrow> (pvalue \<Rightarrow> presence_diagnostics \<Rightarrow> nat \<Rightarrow> variable_presence \<Rightarrow> value_result) \<Rightarrow> bool" where
  "sound_value s val \<longleftrightarrow>
     (\<forall>v d k n oq d'. val v d k Always = Some ((n, oq), d') \<longrightarrow> pn_presence n = Always \<longrightarrow> definedness s v 0 = Is_defined)"

lemma presence_of_Always: "presence_of p = Always \<longleftrightarrow> p = Is_defined"
  by (cases p) simp_all

lemma value_body_sound: "sound_value s (classify_value_body obj val s)"
  unfolding sound_value_def
proof (intro allI impI)
  fix v d k n oq d'
  assume r: "classify_value_body obj val s v d k Always = Some ((n, oq), d')" and n: "pn_presence n = Always"
  from r have "pn_presence n = presence_of (definedness s v 0) \<or> pn_presence n = Undetermined"
    by (auto simp: classify_value_body_def Let_def array_node_def pn_leaf_def split: if_splits option.splits pvalue.splits)
  with n show "definedness s v 0 = Is_defined" using presence_of_Always [of "definedness s v 0"] by auto
qed

lemma sent_hidden: "sent (map (\<lambda>(k, n). (k, withdraw n)) t) m"
  by (auto simp: sent_def map_of_map_value)

lemma covers_hidden [simp]: "covers whole (map (\<lambda>(k, n). (k, withdraw n)) t) m = covers whole t m"
  by (simp add: covers_def dom_def map_of_map_value)

lemma sent_insert:
  "sent t m \<Longrightarrow> (pn_presence n = Always \<Longrightarrow> on_wire x) \<Longrightarrow> sent (bt_insert k n t) (m(k \<mapsto> x))"
  by (auto simp: sent_def)

lemma covers_insert: "covers whole t m \<Longrightarrow> covers whole (bt_insert k n t) (m(k \<mapsto> x))"
  by (auto simp: covers_def)

lemma map_of_spread:
  assumes "distinct (map fst nested)"
  shows "map_of (fold (spread_key r already floor) nested t) k =
    (case map_of nested k of
       None \<Rightarrow> map_of t k
     | Some n \<Rightarrow> Some (if r \<and> k \<notin> set already then withdraw (weaken floor n) else weaken floor n))"
  using assms
proof (induction nested arbitrary: t)
  case (Cons g gs)
  obtain x v where g: "g = (x, v)" by fastforce
  with Cons.prems have "map_of gs x = None" by (auto simp: map_of_eq_None_iff)
  with Cons g show ?case by (auto simp: spread_key_def Let_def split: option.split)
qed simp

lemma sent_spread:
  assumes "sent t m" "tree_ok nested" and e: "sent nested e \<and> covers True nested e \<or> floor \<noteq> Always \<and> e = Map.empty"
  shows "sent (fold (spread_key r already floor) nested t) (m ++ e)"
  unfolding sent_def
proof (intro allI impI)
  fix k n
  have d: "distinct (map fst nested)" using assms(2) by (intro bt_ok_distinct) (simp add: tree_ok_simps)
  assume n: "map_of (fold (spread_key r already floor) nested t) k = Some n" "pn_presence n = Always"
  show "\<exists>x. (m ++ e) k = Some x \<and> on_wire x"
  proof (cases "map_of nested k")
    case None
    then have "e k = None" using e by (auto simp: covers_def dom_def)
    moreover have "map_of t k = Some n" using n(1) None by (simp add: map_of_spread [OF d])
    ultimately show ?thesis using assms(1) n(2) by (simp add: sent_def map_add_def)
  next
    case (Some c)
    then have "pn_presence c = Always \<and> floor = Always" using n by (auto simp: map_of_spread [OF d] split: if_splits)
    with e Some obtain x where "e k = Some x" "on_wire x" unfolding sent_def by blast
    then show ?thesis by (simp add: map_add_def)
  qed
qed

lemma covers_spread:
  assumes "covers whole t m" "tree_ok nested" "covers True nested e \<or> e = Map.empty"
  shows "covers whole (fold (spread_key r already floor) nested t) (m ++ e)"
proof -
  have d: "distinct (map fst nested)" using assms(2) by (intro bt_ok_distinct) (simp add: tree_ok_simps)
  have "dom (map_of (fold (spread_key r already floor) nested t)) = dom (map_of nested) \<union> dom (map_of t)"
    by (auto simp: map_of_spread [OF d] dom_def split: option.splits)
  then show ?thesis using assms(1,3) by (auto simp: covers_def)
qed

lemma prop_step_sound:
  assumes "sound_object ext s obj" "good_object obj" "sound_value s val"
    and "prop_step obj val s standing depth (i, p) st = Some st'" "plain_prop ext s whole depth p"
    and "builds ext s (p # ps) m m'" "sent (os_out st) m" "covers whole (os_out st) m"
  shows "\<exists>m1. builds ext s ps m1 m' \<and> sent (os_out st') m1 \<and> covers whole (os_out st') m1"
proof (cases p)
  case (Key_p k v)
  with assms(6) obtain x where x: "evals ext s v x" "builds ext s ps (m(k \<mapsto> x)) m'" by (auto elim: builds_cases)
  note st = assms(4) [unfolded Key_p prop_step_key Let_def]
  show ?thesis
  proof (cases "serialized_by_hook s depth (Key_p k v)")
    case True
    with assms(5) have "\<not> whole" by (simp add: plain_prop_def Key_p)
    with True st x(2) show ?thesis by (auto simp: sent_hidden covers_def)
  next
    case False
    with assms(5) Key_p st obtain n nested d where v: "val v (os_diag st) depth Always = Some ((n, nested), d)"
      "os_out st' = bt_insert k (if os_runs (guard_getter standing i st) \<and> k \<notin> set (os_already (guard_getter standing i st)) then withdraw n else n) (os_out st)"
      by (auto simp: plain_prop_def)
    have "on_wire x" if "pn_presence n = Always"
    proof -
      have "definedness s v 0 = Is_defined" using assms(3) v(1) that unfolding sound_value_def by blast
      moreover have "lefts_quiet ext s v 0" using assms(5) by (simp add: plain_prop_def Key_p)
      ultimately show ?thesis using x(1) by (rule definedness_sound)
    qed
    then have "sent (os_out st') (m(k \<mapsto> x))" "covers whole (os_out st') (m(k \<mapsto> x))"
      unfolding v(2) using assms(7,8) by (auto intro!: sent_insert covers_insert)
    with x(2) show ?thesis by blast
  qed
next
  case Unreadable_p
  with assms(6) obtain k x where x: "builds ext s ps (m(k \<mapsto> x)) m'" by (auto elim: builds_cases)
  have "\<not> whole" using assms(5) by (simp add: plain_prop_def Unreadable_p)
  with assms(4) x show ?thesis by (auto simp: Unreadable_p prop_step_unreadable Let_def sent_hidden covers_def)
next
  case (Spread_p v)
  with assms(6) obtain e where e: "copies ext s v e" "builds ext s ps (m ++ e) m'" by (auto elim: builds_cases)
  note st = assms(4) [unfolded Spread_p prop_step_spread Let_def]
  show ?thesis
  proof (cases "spreads_nothing s (fst (spread_source s v))")
    case True
    with st copies_nothing [OF e(1)] e(2) assms(7,8) show ?thesis by auto
  next
    case False
    note plain = assms(5) [unfolded plain_prop_def Spread_p pprop.case]
    show ?thesis
    proof (cases "spread_object s v")
      case None
      with plain False have "\<not> whole" by auto
      with None False st e(2) show ?thesis by (auto simp: sent_hidden covers_def)
    next
      case (Some inner_props)
      with plain False have q: "quiet_arms s v" "plain_object ext s True inner_props (depth + 1)" by auto
      let ?floor = "if snd (spread_source s v) then Conditional else Always"
      from Some False st obtain nested oq d where o: "obj inner_props (os_diag st) (depth + 1) = Some ((nested, oq), d)"
        "os_out st' = fold (spread_key (os_runs (guard_getter standing i st)) (os_already (guard_getter standing i st)) ?floor) nested (os_out st)"
        by (auto split: if_splits)
      have ok: "tree_ok nested" by (rule good_objectD [OF assms(2) o(1)])
      have "sent nested e \<and> covers True nested e \<or> ?floor \<noteq> Always \<and> e = Map.empty"
        using copies_spread [OF e(1) Some q(1)] assms(1) o(1) q(2) unfolding sound_object_def by (metis variable_presence.distinct(1))
      then have "sent (os_out st') (m ++ e)" "covers whole (os_out st') (m ++ e)"
        unfolding o(2) using sent_spread [OF assms(7) ok] covers_spread [OF assms(8) ok] by blast+
      with e(2) show ?thesis by blast
    qed
  qed
qed

lemma props_sound:
  assumes "sound_object ext s obj" "good_object obj" "sound_value s val"
  shows "foldm (prop_step obj val s standing depth) ips st = Some st' \<Longrightarrow> list_all (plain_prop ext s whole depth) (map snd ips) \<Longrightarrow>
    builds ext s (map snd ips) m m' \<Longrightarrow> sent (os_out st) m \<Longrightarrow> covers whole (os_out st) m \<Longrightarrow>
    sent (os_out st') m' \<and> covers whole (os_out st') m'"
proof (induction ips arbitrary: st m)
  case Nil
  then show ?case by (auto elim: builds_cases)
next
  case (Cons ip ips)
  obtain i p where ip: "ip = (i, p)" by fastforce
  from Cons.prems(1) obtain st1 where st1: "prop_step obj val s standing depth (i, p) st = Some st1"
    "foldm (prop_step obj val s standing depth) ips st1 = Some st'"
    by (auto simp: ip split: option.splits)
  have pl: "plain_prop ext s whole depth p" "list_all (plain_prop ext s whole depth) (map snd ips)" using Cons.prems(2) by (simp_all add: ip)
  have "builds ext s (p # map snd ips) m m'" using Cons.prems(3) by (simp add: ip)
  from prop_step_sound [OF assms st1(1) pl(1) this Cons.prems(4,5)]
  obtain m1 where "builds ext s (map snd ips) m1 m'" "sent (os_out st1) m1" "covers whole (os_out st1) m1" by blast
  from Cons.IH [OF st1(2) pl(2) this] show ?case .
qed

lemma object_body_sound:
  assumes "sound_object ext s obj" "good_object obj" "sound_value s val"
  shows "sound_object ext s (classify_object_body obj val s)"
  unfolding sound_object_def
proof (intro allI impI)
  fix ps d k t oq d' whole m
  assume r: "classify_object_body obj val s ps d k = Some ((t, oq), d')" and plain: "plain_object ext s whole ps k"
    and b: "builds ext s ps Map.empty m"
  show "sent t m \<and> covers whole t m"
  proof (cases "MAX_DEPTH \<le> k")
    case True
    then show ?thesis
      using r plain by (auto simp: classify_object_body_def plain_object.simps [of ext s whole ps] sent_def covers_def)
  next
    case False
    from object_body_Some [OF r False] obtain st where st: "((t, oq), d') = finish_object s k ps st"
      "foldm (prop_step obj val s (standing_getters ps) k) (enumerate 0 ps)
        \<lparr>os_out = [], os_opaque = [], os_runs = False, os_already = [], os_diag = d\<rparr> = Some st" .
    have "list_all (plain_prop ext s whole k) (map snd (enumerate 0 ps))" "builds ext s (map snd (enumerate 0 ps)) Map.empty m"
      using plain b plain_object_props [OF False] by simp_all
    from props_sound [OF assms st(2) this] have "sent (os_out st) m \<and> covers whole (os_out st) m"
      by (simp add: sent_def covers_def)
    then show ?thesis
      using st(1) by (auto simp: finish_object_def Let_def sent_hidden split: if_splits)
  qed
qed

lemma classify_sound: "sound_object ext s (classify_object_reporting n s) \<and> sound_value s (classify_value_reporting n s)"
proof (induction n)
  case 0
  then show ?case by (simp add: sound_object_def sound_value_def classifier_unfold(1,2))
next
  case (Suc n)
  then show ?case
    unfolding classifier_unfold(3,4) using classify_ok by (blast intro: object_body_sound value_body_sound)
qed

lemma hook_withdraws:
  assumes "classify_object_reporting n s props diag depth = Some ((t, oq), d)" "map_of t k = Some node" "pn_presence node = Always"
  shows "\<not> list_ex (serialized_by_hook s depth) props"
proof (cases n)
  case 0
  then show ?thesis using assms(1) by (simp add: classifier_unfold)
next
  case (Suc m)
  have d: "\<not> MAX_DEPTH \<le> depth" using assms by (auto simp: Suc classifier_unfold(3) classify_object_body_def)
  from object_body_Some [OF assms(1) [unfolded Suc classifier_unfold(3)] d] obtain st where
    st: "((t, oq), d) = finish_object s depth props st" .
  show ?thesis
  proof
    assume "list_ex (serialized_by_hook s depth) props"
    with st have "t = map (\<lambda>(k, n). (k, withdraw n)) (os_out st)" by (simp add: finish_object_def Let_def)
    with assms(2,3) show False by (auto simp: map_of_map_value)
  qed
qed



text \<open>
  The conditions on spreads are needed.  \<open>var base = {...opts}\<close> copied after \<open>x\<close> leaves \<open>x\<close> called always
  present, although \<open>opts\<close> may hold \<open>x: undefined\<close>; so does a spread of \<open>t ? {b: 1} : opts\<close>, of which only
  the arm that carries keys is read, and a spread of an object with a \<open>toJSON\<close> hook.
\<close>

lemma hidden_spread_not_withdrawn:
  "let s = one_frame [(''base'', Object_v [Spread_p Read_v])]; props = [Key_p ''x'' Truthy_v, Spread_p (Ref_v ''base'')]
   in map_option (fst \<circ> fst) (classify_object_reporting 9 s props no_diag 0) = Some [(''x'', pn_leaf Always)]
    \<and> builds ext s props Map.empty [''x'' \<mapsto> J_undefined]"
proof -
  let ?s = "one_frame [(''base'', Object_v [Spread_p Read_v])]"
  have "lookup ?s ''base'' = Some (Object_v [Spread_p Read_v])" by code_simp
  moreover have "copies ext ?s Read_v [''x'' \<mapsto> J_undefined]" by (rule c_other) (simp add: other_source_def)
  then have "builds ext ?s [Spread_p Read_v] Map.empty [''x'' \<mapsto> J_undefined]" by (rule b_spread) (simp add: b_nil)
  ultimately have "copies ext ?s (Ref_v ''base'') [''x'' \<mapsto> J_undefined]" by (blast intro: c_bound c_object)
  then have "builds ext ?s [Spread_p (Ref_v ''base'')] (Map.empty(''x'' \<mapsto> J_truthy)) [''x'' \<mapsto> J_undefined]"
    by (rule b_spread) (simp add: b_nil)
  then have "builds ext ?s [Key_p ''x'' Truthy_v, Spread_p (Ref_v ''base'')] Map.empty [''x'' \<mapsto> J_undefined]"
    by (rule b_key [OF evals.e_truthy])
  moreover have "map_option (fst \<circ> fst) (classify_object_reporting 9 ?s [Key_p ''x'' Truthy_v, Spread_p (Ref_v ''base'')] no_diag 0)
      = Some [(''x'', pn_leaf Always)]"
    by code_simp
  ultimately show ?thesis unfolding Let_def by blast
qed

lemma unread_arm_not_withdrawn:
  "let s = one_frame []; props = [Key_p ''a'' Truthy_v, Spread_p (Either_v (Object_v [Key_p ''b'' Truthy_v]) Read_v)]
   in map_option (fst \<circ> fst) (classify_object_reporting 9 s props no_diag 0) = Some [(''a'', pn_leaf Always), (''b'', pn_leaf Conditional)]
    \<and> builds ext s props Map.empty [''a'' \<mapsto> J_undefined]"
proof -
  let ?s = "one_frame []"
  let ?v = "Either_v (Object_v [Key_p ''b'' Truthy_v]) Read_v"
  have "copies ext ?s Read_v [''a'' \<mapsto> J_undefined]" by (rule c_other) (simp add: other_source_def)
  then have "copies ext ?s ?v [''a'' \<mapsto> J_undefined]" by (rule c_either_right)
  then have "builds ext ?s [Spread_p ?v] (Map.empty(''a'' \<mapsto> J_truthy)) [''a'' \<mapsto> J_undefined]" by (rule b_spread) (simp add: b_nil)
  then have "builds ext ?s [Key_p ''a'' Truthy_v, Spread_p ?v] Map.empty [''a'' \<mapsto> J_undefined]" by (rule b_key [OF evals.e_truthy])
  moreover have "map_option (fst \<circ> fst) (classify_object_reporting 9 ?s [Key_p ''a'' Truthy_v, Spread_p ?v] no_diag 0)
      = Some [(''a'', pn_leaf Always), (''b'', pn_leaf Conditional)]"
    by code_simp
  ultimately show ?thesis unfolding Let_def by blast
qed

lemma spread_hook_not_withdrawn:
  "map_option (fst \<circ> fst) (classify_object_reporting 9 (one_frame [])
     [Spread_p (Object_v [Key_p ''toJSON'' Dropped_v]), Key_p ''a'' Truthy_v] no_diag 0) = Some [(''a'', pn_leaf Always)]"
  by code_simp

end
