(* ===== verification/MexPublish.thy ===== *)
theory MexPublish
  imports MexClassify
begin

text \<open>
  From the recovered call sites of an operation to the published presence of its variables
  (\<open>variables_presence\<close> of \<open>wa-mex/src/presence.rs\<close>, \<open>align_with_shape\<close> of \<open>extract.rs\<close>).  What the visitor
  collects from each caller is an argument.
\<close>

record collected =
  col_sites :: "site_tree list"
  col_unreadable :: nat
  col_opaque :: "opaque list"

definition fold_site :: "site_tree \<Rightarrow> site_tree option \<Rightarrow> site_tree option" where
  "fold_site site acc = Some (case acc of Some t \<Rightarrow> merge_sites t site | None \<Rightarrow> site)"

definition fold_callers :: "collected list \<Rightarrow> site_tree option" where
  "fold_callers callers = fold (\<lambda>c acc. fold fold_site (col_sites c) acc) callers None"

text \<open>The keys under an object nothing could enumerate, reached along the recorded path.\<close>

definition withdraw_unwritten :: "string list \<Rightarrow> pnode \<Rightarrow> pnode" where
  "withdraw_unwritten written n =
     Pnode (pn_presence n) (map (\<lambda>(k, c). (k, if k \<in> set written then c else withdraw c)) (pn_fields n))
       (map_option withdraw_children (pn_items n))"

fun withdraw_at :: "pstep list \<Rightarrow> string list \<Rightarrow> pnode \<Rightarrow> pnode" where
  "withdraw_at [] written n = withdraw_unwritten written n"
| "withdraw_at (Field key # path) written n =
     Pnode (pn_presence n) (map (\<lambda>(k, c). (k, if k = key then withdraw_at path written c else c)) (pn_fields n)) (pn_items n)"
| "withdraw_at (Item # path) written n =
     Pnode (pn_presence n) (pn_fields n) (map_option (withdraw_at path written) (pn_items n))"

definition withdraw_record :: "opaque \<Rightarrow> site_tree \<Rightarrow> site_tree" where
  "withdraw_record r t =
     (case op_path r of
        Field key # path \<Rightarrow> map (\<lambda>(k, c). (k, if k = key then withdraw_at path (op_written r) c else c)) t
      | _ \<Rightarrow> t)"

definition publish_name :: "opaque list \<Rightarrow> nat \<Rightarrow> string \<Rightarrow> site_tree \<times> site_tree \<Rightarrow> site_tree \<times> site_tree" where
  "publish_name opaque_paths unreadable name = (\<lambda>(merged, out).
     (let here = [r \<leftarrow> opaque_paths. op_path r = []];
          opaque_keys = concat (map op_written here);
          node = (case map_of merged name of
                    Some n \<Rightarrow> n
                  | None \<Rightarrow> pn_leaf (if here \<noteq> [] \<and> name \<notin> set opaque_keys then Undetermined else Conditional))
      in (bt_remove name merged, bt_insert name (if unreadable > 0 then withdraw node else node) out)))"

definition variables_presence ::
    "collected list \<Rightarrow> string list \<Rightarrow> presence_diagnostics \<Rightarrow> site_tree \<times> presence_diagnostics" where
  "variables_presence callers names diag =
     (let merged = fold_callers callers;
          unreadable = sum_list (map col_unreadable callers);
          opaque_paths = concat (map col_opaque callers)
      in if names = []
         then (let written = (case merged of Some t \<Rightarrow> t | None \<Rightarrow> [])
               in (if unreadable > 0 then map (\<lambda>(k, n). (k, withdraw n)) written else written, diag))
         else (case merged of
                 None \<Rightarrow>
                   (bt_of (map (\<lambda>name. (name, pn_leaf Undetermined)) names),
                    if unreadable = 0
                    then diag\<lparr>operations_without_call_site := operations_without_call_site diag + 1\<rparr> else diag)
               | Some t \<Rightarrow>
                   (snd (fold (publish_name opaque_paths unreadable) names (fold withdraw_record opaque_paths t, [])), diag)))"

section \<open>Withdrawing claims nothing new\<close>

lemma claimed_withdraw_children: "claimed (withdraw_children n) path \<Longrightarrow> claimed n path"
proof (induction path arbitrary: n)
  case (Cons st path)
  show ?case
  proof (cases st)
    case (Field k)
    with Cons.prems show ?thesis using claimed_withdraw [of k "st # path" n] by simp
  next
    case Item
    with Cons show ?thesis by (auto split: option.splits)
  qed
qed simp

lemma withdraw_not_claimed: "\<not> claimed (withdraw n) path"
  using claimed_presence [of "withdraw n" path] by auto

lemma claimed_withdraw_unwritten: "claimed (withdraw_unwritten written n) path \<Longrightarrow> claimed n path"
  by (cases path rule: list.exhaust; cases "hd path")
    (auto simp: withdraw_unwritten_def map_of_map_value withdraw_not_claimed split: option.splits if_splits
      dest: claimed_withdraw_children)

lemma claimed_withdraw_at: "claimed (withdraw_at at_path written n) path \<Longrightarrow> claimed n path"
proof (induction at_path arbitrary: n path)
  case Nil
  then show ?case using claimed_withdraw_unwritten by simp
next
  case (Cons st at_path)
  then show ?case
    by (cases st; cases path rule: list.exhaust; cases "hd path")
      (auto simp: map_of_map_value split: option.splits if_splits)
qed

lemma withdraw_at_presence [simp]: "pn_presence (withdraw_at at_path written n) = pn_presence n"
  by (cases "(at_path, written, n)" rule: withdraw_at.cases) (simp_all add: withdraw_unwritten_def)

lemma withdraw_record_top: "map_option pn_presence (map_of (withdraw_record r t) k) = map_option pn_presence (map_of t k)"
  by (cases "map_of t k") (auto simp: withdraw_record_def map_of_map_value split: list.split pstep.split)

lemma claims_Field: "claims t (Field k # path) \<longleftrightarrow> (case map_of t k of None \<Rightarrow> False | Some c \<Rightarrow> claimed c path)"
  by (simp add: claims_def)

lemma withdraw_record_claims: "claims (withdraw_record r t) (Field k # path) \<Longrightarrow> claims t (Field k # path)"
  by (auto simp: claims_Field withdraw_record_def map_of_map_value split: list.splits pstep.splits option.splits if_splits
      dest: claimed_withdraw_at)

lemma withdraw_records_claims: "claims (fold withdraw_record rs t) (Field k # path) \<Longrightarrow> claims t (Field k # path)"
  by (induction rs arbitrary: t) (auto dest: withdraw_record_claims)

lemma withdraw_records_top: "map_option pn_presence (map_of (fold withdraw_record rs t) k) = map_option pn_presence (map_of t k)"
  by (induction rs arbitrary: t) (simp_all add: withdraw_record_top)

lemma node_ok_withdraw_at: "node_ok n \<Longrightarrow> node_ok (withdraw_at at_path written n)"
proof (induction at_path written n rule: withdraw_at.induct)
  case (1 written n)
  then show ?case
    by (cases n) (auto simp: withdraw_unwritten_def comp_def case_prod_unfold intro: node_ok_withdraw)
next
  case (2 key path written n)
  then show ?case by (cases n) (auto simp: comp_def case_prod_unfold)
next
  case (3 path written n)
  then show ?case by (cases n) auto
qed

lemma tree_ok_withdraw_record: "tree_ok t \<Longrightarrow> tree_ok (withdraw_record r t)"
  by (auto simp: withdraw_record_def tree_ok_simps comp_def case_prod_unfold split: list.split pstep.split
      intro: node_ok_withdraw_at)

lemma tree_ok_withdraw_records: "tree_ok t \<Longrightarrow> tree_ok (fold withdraw_record rs t)"
  by (induction rs arbitrary: t) (simp_all add: tree_ok_withdraw_record)

section \<open>The sites folded\<close>

definition all_sites :: "collected list \<Rightarrow> site_tree list" where
  "all_sites callers = concat (map col_sites callers)"

lemma fold_callers_sites: "fold_callers callers = fold fold_site (all_sites callers) None"
proof -
  have "fold (\<lambda>c acc. fold fold_site (col_sites c) acc) callers acc = fold fold_site (all_sites callers) acc" for acc
    by (induction callers arbitrary: acc) (simp_all add: all_sites_def)
  then show ?thesis by (simp add: fold_callers_def)
qed

lemma fold_sites_exact:
  assumes "\<forall>t \<in> set sites. tree_ok t" "\<forall>t. acc = Some t \<longrightarrow> tree_ok t" "fold fold_site sites acc = Some r"
  shows "tree_ok r \<and> (\<forall>path k. last path = Field k \<longrightarrow>
    claims r path \<longleftrightarrow> (\<forall>t. acc = Some t \<longrightarrow> claims t path) \<and> (\<forall>t \<in> set sites. claims t path))"
  using assms
proof (induction sites arbitrary: acc)
  case (Cons t ts)
  let ?acc = "fold_site t acc"
  have t: "tree_ok t" using Cons.prems(1) by simp
  have acc: "tree_ok u \<and> (\<forall>path k. last path = Field k \<longrightarrow> claims u path \<longleftrightarrow> (\<forall>t. acc = Some t \<longrightarrow> claims t path) \<and> claims t path)"
    if "?acc = Some u" for u
    using that t Cons.prems(2) by (cases acc) (auto simp: fold_site_def tree_ok_merge_sites merge_sites_claims)
  obtain u where u: "?acc = Some u" by (simp add: fold_site_def)
  from Cons.IH [of ?acc] Cons.prems acc u show ?case by auto
qed auto

lemma fold_callers_None: "fold_callers callers = None \<longleftrightarrow> all_sites callers = []"
proof -
  have "fold fold_site sites (Some t) \<noteq> None" for sites t
    by (induction sites arbitrary: t) (simp_all add: fold_site_def)
  then show ?thesis by (cases "all_sites callers") (auto simp: fold_callers_sites fold_site_def)
qed

section \<open>The published verdicts\<close>

lemma publish_names:
  assumes "distinct names"
  shows "map_of (snd (fold (publish_name oq unreadable) names (t, out))) k =
    (if k \<in> set names then map_of (snd (publish_name oq unreadable k (t, []))) k else map_of out k)"
  using assms
proof (induction names arbitrary: t out)
  case (Cons name names)
  have step: "publish_name oq unreadable name (t, out)
      = (bt_remove name t, bt_insert name (the (map_of (snd (publish_name oq unreadable name (t, []))) name)) out)"
    by (simp add: publish_name_def Let_def)
  have one: "map_of (snd (publish_name oq unreadable name (t, []))) name \<noteq> None" by (simp add: publish_name_def Let_def)
  have other: "map_of (snd (publish_name oq unreadable k (bt_remove name t, []))) k = map_of (snd (publish_name oq unreadable k (t, []))) k"
    if "k \<noteq> name"
    using that by (simp add: publish_name_def Let_def)
  show ?case
    using Cons.IH [of "bt_remove name t" "bt_insert name (the (map_of (snd (publish_name oq unreadable name (t, []))) name)) out"]
      Cons.prems one other by (auto simp: step simp del: fun_upd_apply) (auto simp: step)
qed simp

lemma published_name:
  "map_of (snd (publish_name oq unreadable name (t, []))) name = Some n \<Longrightarrow> claimed n path \<Longrightarrow>
   unreadable = 0 \<and> claims t (Field name # path)"
  by (cases "map_of t name")
    (auto simp: publish_name_def Let_def claims_Field withdraw_not_claimed pn_leaf_def dest: claimed_presence split: if_splits)

lemma published_name_top:
  assumes "unreadable = 0" "map_of t name = Some n"
  shows "map_of (snd (publish_name oq unreadable name (t, []))) name = Some n"
  using assms by (simp add: publish_name_def)

lemma undetermined_leaves:
  "map_of (bt_of (map (\<lambda>name. (name, c)) names)) k = (if k \<in> set names then Some c else None)"
proof -
  have "map_of (map (\<lambda>name. (name, c)) xs) k = (if k \<in> set xs then Some c else None)" for xs
    by (induction xs) auto
  from this [of "rev names"] show ?thesis by (simp add: map_of_bt_of rev_map)
qed

lemma tree_ok_leaves: "tree_ok (bt_of (map (\<lambda>name. (name, pn_leaf p)) names))"
proof -
  have "tree_ok (fold (\<lambda>(k, v). bt_insert k v) (map (\<lambda>name. (name, pn_leaf p)) names) t)" if "tree_ok t" for t
    using that by (induction names arbitrary: t) (simp_all add: tree_ok_insert)
  then show ?thesis by (simp add: bt_of_def)
qed

lemma presence_claims:
  assumes sites: "\<forall>t \<in> set (all_sites callers). tree_ok t" and "distinct names"
    and c: "claims (fst (variables_presence callers names diag)) (Field name # path)" and p: "path = [] \<or> (\<exists>k. last path = Field k)"
  shows "all_sites callers \<noteq> [] \<and> sum_list (map col_unreadable callers) = 0
    \<and> (\<forall>t \<in> set (all_sites callers). claims t (Field name # path))"
proof -
  let ?u = "sum_list (map col_unreadable callers)"
  let ?oq = "concat (map col_opaque callers)"
  have last: "\<exists>k. last (Field name # path) = Field k" using p by auto
  show ?thesis
  proof (cases "fold_callers callers")
    case None
    show ?thesis
    proof (cases "names = []")
      case True
      with c None show ?thesis by (auto simp: variables_presence_def Let_def claims_Field split: if_splits)
    next
      case False
      with c None show ?thesis
        by (auto simp: variables_presence_def Let_def claims_Field undetermined_leaves pn_leaf_def split: if_splits dest: claimed_presence)
    qed
  next
    case (Some t)
    have t: "\<And>path k. last path = Field k \<Longrightarrow> claims t path \<longleftrightarrow> (\<forall>t \<in> set (all_sites callers). claims t path)"
      using fold_sites_exact [OF sites, of None t] Some by (simp add: fold_callers_sites)
    have "?u = 0 \<and> claims t (Field name # path)"
    proof (cases "names = []")
      case True
      with c Some show ?thesis
        by (auto simp: variables_presence_def Let_def claims_Field map_of_map_value withdraw_not_claimed split: option.splits if_splits)
    next
      case False
      with c Some obtain n where n: "map_of (snd (fold (publish_name ?oq ?u) names (fold withdraw_record ?oq t, []))) name = Some n"
        "claimed n path"
        by (auto simp: variables_presence_def Let_def claims_Field split: option.splits)
      then have "name \<in> set names" "map_of (snd (publish_name ?oq ?u name (fold withdraw_record ?oq t, []))) name = Some n"
        by (auto simp: publish_names [OF assms(2)] split: if_splits)
      from published_name [OF this(2) n(2)] show ?thesis using withdraw_records_claims by blast
    qed
    moreover have "all_sites callers \<noteq> []" using Some fold_callers_None [of callers] by auto
    ultimately show ?thesis using t last by blast
  qed
qed

lemma presence_keys:
  assumes "names \<noteq> []"
  shows "dom (map_of (fst (variables_presence callers names diag))) = set names"
proof -
  have "dom (map_of (snd (fold (publish_name oq u) names (t, out)))) = set names \<union> dom (map_of out)" for oq u t out names
    by (induction names arbitrary: t out) (auto simp: publish_name_def Let_def)
  then show ?thesis
    using assms by (cases "fold_callers callers") (auto simp: variables_presence_def Let_def undetermined_leaves dom_def split: if_splits)
qed

lemma presence_tree_ok:
  assumes "\<forall>t \<in> set (all_sites callers). tree_ok t"
  shows "tree_ok (fst (variables_presence callers names diag))"
proof -
  have pub: "tree_ok (snd (fold (publish_name oq u) names (t, out)))" if "tree_ok t" "tree_ok out" for oq u t out names
    using that
  proof (induction names arbitrary: t out)
    case (Cons name names)
    have "tree_ok (bt_remove name t)" using Cons.prems(1) by (auto simp: tree_ok_simps bt_remove_def sorted_wrt_filter_ok)
    moreover have "tree_ok (snd (publish_name oq u name (t, out)))"
      using Cons.prems by (auto simp: publish_name_def Let_def intro!: tree_ok_insert node_ok_withdraw split: option.split dest: tree_okD)
    ultimately show ?case using Cons.IH by (simp add: publish_name_def Let_def)
  qed simp
  show ?thesis
  proof (cases "fold_callers callers")
    case None
    then show ?thesis by (simp add: variables_presence_def Let_def tree_ok_leaves tree_ok_withdraw)
  next
    case (Some t)
    with fold_sites_exact [OF assms, of None t] have "tree_ok t" by (simp add: fold_callers_sites)
    then show ?thesis
      using Some pub tree_ok_withdraw_records by (simp add: variables_presence_def Let_def tree_ok_withdraw)
  qed
qed

text \<open>
  C16: Every recovered site has to agree.  The published tree answers for exactly the declared names; a
  name is published as always present exactly when there is a site, no matched call was unreadable and
  every site of every caller says so; and a nested key claimed along a path is claimed along it by every
  site.
\<close>

theorem published_presence_exact:
  fixes callers names diag
  defines "tree \<equiv> fst (variables_presence callers names diag)"
  assumes "\<forall>t \<in> set (all_sites callers). tree_ok t" and "distinct names" and "names \<noteq> []"
  shows "dom (map_of tree) = set names
    \<and> (\<forall>name \<in> set names. claims tree [Field name] \<longleftrightarrow>
          all_sites callers \<noteq> [] \<and> sum_list (map col_unreadable callers) = 0 \<and> (\<forall>t \<in> set (all_sites callers). claims t [Field name]))
    \<and> (\<forall>name path k. claims tree (Field name # path @ [Field k]) \<longrightarrow>
          (\<forall>t \<in> set (all_sites callers). claims t (Field name # path @ [Field k])))"
proof (intro conjI ballI allI impI iffI)
  show "dom (map_of tree) = set names" unfolding tree_def by (rule presence_keys [OF assms(4)])
next
  fix name assume "claims tree [Field name]"
  from presence_claims [OF assms(2,3) this [unfolded tree_def]]
  show "all_sites callers \<noteq> []" "sum_list (map col_unreadable callers) = 0" "\<And>t. t \<in> set (all_sites callers) \<Longrightarrow> claims t [Field name]"
    by blast+
next
  fix name assume name: "name \<in> set names"
    and a: "all_sites callers \<noteq> [] \<and> sum_list (map col_unreadable callers) = 0 \<and> (\<forall>t \<in> set (all_sites callers). claims t [Field name])"
  let ?oq = "concat (map col_opaque callers)"
  from a obtain t where t: "fold_callers callers = Some t" using fold_callers_None [of callers] by (cases "fold_callers callers") auto
  have "claims t [Field name]" using fold_sites_exact [OF assms(2), of None t] t a by (simp add: fold_callers_sites)
  then obtain n where "map_of t name = Some n" "pn_presence n = Always" by (auto simp: claims_Field split: option.splits)
  then obtain n' where n': "map_of (fold withdraw_record ?oq t) name = Some n'" "pn_presence n' = Always"
    using withdraw_records_top [of ?oq t name] by auto
  have "map_of tree name = Some n'"
    using published_name_top [OF a [THEN conjunct2, THEN conjunct1] n'(1), of ?oq] name
    by (simp add: tree_def variables_presence_def Let_def t assms(4) publish_names [OF assms(3)] del: sum_list_eq_0_iff)
  then show "claims tree [Field name]" using n'(2) by (simp add: claims_Field)
next
  fix name path k t
  assume "claims tree (Field name # path @ [Field k])" "t \<in> set (all_sites callers)"
  then show "claims t (Field name # path @ [Field k])"
    using presence_claims [OF assms(2,3)] unfolding tree_def by (metis last_snoc)
qed

theorem published_presence_exact_witness:
  "let tree = fst (variables_presence
        [\<lparr>col_sites = [[(''a'', pn_leaf Always)], [(''a'', pn_leaf Always), (''b'', pn_leaf Always)]], col_unreadable = 0, col_opaque = []\<rparr>]
        [''a'', ''b''] no_diag)
   in dom (map_of tree) = {''a'', ''b''} \<and> claims tree [Field ''a'']"
proof -
  let ?cs = "[\<lparr>col_sites = [[(''a'', pn_leaf Always)], [(''a'', pn_leaf Always), (''b'', pn_leaf Always)]], col_unreadable = 0, col_opaque = []\<rparr>]"
  let ?tree = "fst (variables_presence ?cs [''a'', ''b''] no_diag)"
  have "bt_ok [(''a'', pn_leaf Always), (''b'', pn_leaf Always)]" by code_simp
  then have "\<forall>t \<in> set (all_sites ?cs). tree_ok t" by (simp add: all_sites_def tree_ok_simps)
  note e = published_presence_exact [OF this, of "[''a'', ''b'']" no_diag]
  have "distinct [''a'', ''b'']" by simp
  from e [OF this] have 1: "dom (map_of ?tree) = {''a'', ''b''}" by simp
  have "claims ?tree [Field ''a'']"
    using e [OF \<open>distinct [''a'', ''b'']\<close>] by (simp add: all_sites_def claims_def pn_leaf_def)
  with 1 show ?thesis unfolding Let_def by (rule conjI)
qed



end
