(* ===== verification/ProtoText.thy ===== *)
theory ProtoText
  imports FieldTypes
begin

text \<open>
  The protobuf document of \<open>crates/wa-ir/src/proto.rs\<close> and its printing,
  \<open>crates/wa-proto/src/stringify.rs\<close>.  A field id is an \<open>i64\<close> that is only printed, so it is an
  integer here.  \<open>stringify_determines_file\<close> shows that the text tells its files apart: two documents
  with the same text have the same version and the same entities in the order of their names.  The
  lines of a text are read back without their indentation; the tokens they spell are a prefix code.
\<close>

section \<open>The document\<close>

record proto_field =
  prf_name :: string
  prf_id :: int
  prf_type :: string
  prf_flags :: "string list"
  prf_packed :: bool
  prf_default :: "string option"

record proto_oneof =
  po_name :: string
  po_fields :: "proto_field list"

record proto_enum_value =
  pev_name :: string
  pev_id :: int

record proto_enum =
  pe_name :: string
  pe_values :: "proto_enum_value list"

datatype proto_member = MField proto_field | MOneOf proto_oneof

datatype proto_message =
  ProtoMessage (pm_name: string) (pm_members: "proto_member list") (pm_nested: "proto_entity list")
and proto_entity = EMessage proto_message | EEnum proto_enum

record proto_file =
  pfile_version :: string
  pfile_entities :: "proto_entity list"

fun entity_name :: "proto_entity \<Rightarrow> string" where
  "entity_name (EMessage m) = pm_name m"
| "entity_name (EEnum e) = pe_name e"

section \<open>Printing\<close>

definition INDENT :: string where "INDENT = ''  ''"

abbreviation NL :: char where "NL \<equiv> CHR 0x0A"

text \<open>The lines that have content, one level deeper; a blank line stays blank.\<close>

definition indent_lines :: "string list \<Rightarrow> string list" where
  "indent_lines ls = map (\<lambda>l. if l = [] then l else INDENT @ l) ls"

text \<open>The escapes of a quoted default; every other byte, of a non-ASCII character too, is kept.\<close>

definition is_ascii_control :: "char \<Rightarrow> bool" where
  "is_ascii_control c \<longleftrightarrow> of_char c < (0x20::nat) \<or> of_char c = (0x7F::nat)"

definition octal3 :: "char \<Rightarrow> string" where
  "octal3 c = (let n = of_char c :: nat in
     [digit_chars ! (n div 64), digit_chars ! (n div 8 mod 8), digit_chars ! (n mod 8)])"

definition escape_char :: "char \<Rightarrow> string" where
  "escape_char c =
     (if c = CHR 0x5C then [CHR 0x5C, CHR 0x5C]
      else if c = CHR 0x22 then [CHR 0x5C, CHR 0x22]
      else if c = CHR 0x0A then CHR 0x5C # ''n''
      else if c = CHR 0x0D then CHR 0x5C # ''r''
      else if c = CHR 0x09 then CHR 0x5C # ''t''
      else if is_ascii_control c then CHR 0x5C # octal3 c
      else [c])"

definition escape_default :: "string \<Rightarrow> string" where
  "escape_default d = concat (map escape_char d)"

definition default_option :: "string \<Rightarrow> string \<Rightarrow> string" where
  "default_option ty d =
     (if ty = ''string'' \<or> ty = ''bytes''
      then ''default = '' @ [CHR 0x22] @ escape_default d @ [CHR 0x22]
      else ''default = '' @ d)"

definition field_options :: "proto_field \<Rightarrow> string list" where
  "field_options f =
     (if prf_packed f then [''packed = true''] else [])
     @ (case prf_default f of None \<Rightarrow> [] | Some d \<Rightarrow> [default_option (prf_type f) d])"

definition field_line :: "proto_field \<Rightarrow> string" where
  "field_line f =
     (let flags = join_with '' '' (prf_flags f);
          sep = if prf_flags f = [] then [] else '' '';
          opts = field_options f;
          options = if opts = [] then [] else '' ['' @ join_with '', '' opts @ '']''
      in flags @ sep @ prf_type f @ '' '' @ prf_name f @ '' = '' @ show_int (prf_id f) @ options @ '';'')"

fun member_lines :: "proto_member \<Rightarrow> string list" where
  "member_lines (MField f) = [field_line f]"
| "member_lines (MOneOf x) =
     [''oneof '' @ po_name x @ '' {''] @ map (\<lambda>f. INDENT @ field_line f) (po_fields x) @ [''}'']"

definition enum_lines :: "proto_enum \<Rightarrow> string list" where
  "enum_lines e =
     [''enum '' @ pe_name e @ '' {'']
     @ map (\<lambda>v. INDENT @ pev_name v @ '' = '' @ show_int (pev_id v) @ '';'') (pe_values e) @ [''}'']"

text \<open>\<open>while out.last().is_some_and(String::is_empty) { out.pop(); }\<close>\<close>

definition pop_blanks :: "string list \<Rightarrow> string list" where
  "pop_blanks out = rev (dropWhile (\<lambda>l. l = []) (rev out))"

fun entity_lines :: "proto_entity \<Rightarrow> string list"
  and message_lines :: "proto_message \<Rightarrow> string list" where
  "entity_lines (EEnum e) = enum_lines e"
| "entity_lines (EMessage m) = message_lines m"
| "message_lines (ProtoMessage n ms ns) =
     (if ms = [] \<and> ns = [] then [''message '' @ n @ '' {}'', []]
      else pop_blanks
             ([''message '' @ n @ '' {'']
              @ concat (map (\<lambda>x. indent_lines (member_lines x)) ms)
              @ concat (map (\<lambda>x. indent_lines (entity_lines x)) ns))
           @ [''}'', []])"

definition HEADER :: string where
  "HEADER = ''syntax = '' @ [CHR 0x22] @ ''proto2'' @ [CHR 0x22] @ '';'' @ [NL]
            @ ''package whatsapp;'' @ [NL, NL] @ ''/// WhatsApp Version: ''"

definition stringify :: "proto_file \<Rightarrow> string" where
  "stringify file =
     (let entities = sort_key entity_name (pfile_entities file);
          body = join_with [NL] (map (\<lambda>e. join_with [NL] (entity_lines e)) entities)
      in HEADER @ pfile_version file @ [NL, NL] @ body)"

section \<open>The documents whose text can be read\<close>

text \<open>
  What the extraction produces: labels are the three words of the language, names hold no blank, no
  \<open>=\<close> and no newline, a type may hold blanks (\<open>map<K, V>\<close>) but does not begin with a label.
\<close>

definition LABELS :: "string list" where
  "LABELS = [''optional'', ''required'', ''repeated'']"

definition plain_word :: "string \<Rightarrow> bool" where
  "plain_word s \<longleftrightarrow> s \<noteq> [] \<and> CHR '' '' \<notin> set s \<and> CHR ''='' \<notin> set s \<and> NL \<notin> set s"

definition type_ok :: "string \<Rightarrow> bool" where
  "type_ok t \<longleftrightarrow> t \<noteq> [] \<and> hd t \<noteq> CHR '' '' \<and> CHR ''='' \<notin> set t \<and> NL \<notin> set t
     \<and> list_all (\<lambda>l. \<not> starts_with t (l @ '' '')) LABELS"

definition field_ok :: "proto_field \<Rightarrow> bool" where
  "field_ok f \<longleftrightarrow> plain_word (prf_name f) \<and> type_ok (prf_type f)
     \<and> list_all (\<lambda>l. l \<in> set LABELS) (prf_flags f)
     \<and> (case prf_default f of None \<Rightarrow> True
          | Some d \<Rightarrow> prf_type f \<in> {''string'', ''bytes''} \<or> NL \<notin> set d)"

fun member_ok :: "proto_member \<Rightarrow> bool" where
  "member_ok (MField f) = field_ok f"
| "member_ok (MOneOf x) = (NL \<notin> set (po_name x) \<and> list_all field_ok (po_fields x))"

fun message_ok :: "proto_message \<Rightarrow> bool"
  and entity_ok :: "proto_entity \<Rightarrow> bool" where
  "message_ok (ProtoMessage n ms ns) =
     (NL \<notin> set n \<and> list_all member_ok ms \<and> list_all entity_ok ns)"
| "entity_ok (EMessage m) = message_ok m"
| "entity_ok (EEnum e) = (NL \<notin> set (pe_name e) \<and> list_all (\<lambda>v. plain_word (pev_name v)) (pe_values e))"

definition file_ok :: "proto_file \<Rightarrow> bool" where
  "file_ok file \<longleftrightarrow> NL \<notin> set (pfile_version file) \<and> list_all entity_ok (pfile_entities file)"

section \<open>Tokens\<close>

datatype proto_token =
  TMessage string | TEmpty string | TEnum string | TOneOf string
| TField proto_field | TValue proto_enum_value | TClose

fun token_text :: "proto_token \<Rightarrow> string" where
  "token_text (TMessage n) = ''message '' @ n @ '' {''"
| "token_text (TEmpty n) = ''message '' @ n @ '' {}''"
| "token_text (TEnum n) = ''enum '' @ n @ '' {''"
| "token_text (TOneOf n) = ''oneof '' @ n @ '' {''"
| "token_text (TField f) = field_line f"
| "token_text (TValue v) = pev_name v @ '' = '' @ show_int (pev_id v) @ '';''"
| "token_text TClose = ''}''"

fun token_ok :: "proto_token \<Rightarrow> bool" where
  "token_ok (TMessage n) = (NL \<notin> set n)"
| "token_ok (TEmpty n) = (NL \<notin> set n)"
| "token_ok (TEnum n) = (NL \<notin> set n)"
| "token_ok (TOneOf n) = (NL \<notin> set n)"
| "token_ok (TField f) = field_ok f"
| "token_ok (TValue v) = plain_word (pev_name v)"
| "token_ok TClose = True"

fun member_tokens :: "proto_member \<Rightarrow> proto_token list" where
  "member_tokens (MField f) = [TField f]"
| "member_tokens (MOneOf x) = TOneOf (po_name x) # map TField (po_fields x) @ [TClose]"

fun message_tokens :: "proto_message \<Rightarrow> proto_token list"
  and entity_tokens :: "proto_entity \<Rightarrow> proto_token list" where
  "message_tokens (ProtoMessage n ms ns) =
     (if ms = [] \<and> ns = [] then [TEmpty n]
      else TMessage n # concat (map member_tokens ms) @ concat (map entity_tokens ns) @ [TClose])"
| "entity_tokens (EMessage m) = message_tokens m"
| "entity_tokens (EEnum e) = TEnum (pe_name e) # map TValue (pe_values e) @ [TClose]"

section \<open>The parts of a field line\<close>

lemma octal3_inj: "octal3 c = octal3 d \<Longrightarrow> c = d"
proof -
  assume eq: "octal3 c = octal3 d"
  let ?m = "of_char c :: nat" and ?n = "of_char d :: nat"
  have lt: "?m div 64 < 10" "?n div 64 < 10" using of_char_lt_256 [of c] of_char_lt_256 [of d] by linarith+
  have lt2: "k mod 8 < 10" for k :: nat
    using mod_less_divisor [of 8 k] by linarith
  have dig: "a < 10 \<Longrightarrow> b < 10 \<Longrightarrow> digit_chars ! a = digit_chars ! b \<Longrightarrow> a = b" for a b
    by (metis digit_val_nth)
  from eq have "digit_chars ! (?m div 64) = digit_chars ! (?n div 64)"
    "digit_chars ! (?m div 8 mod 8) = digit_chars ! (?n div 8 mod 8)"
    "digit_chars ! (?m mod 8) = digit_chars ! (?n mod 8)"
    by (simp_all add: octal3_def Let_def)
  then have "?m div 64 = ?n div 64" "?m div 8 mod 8 = ?n div 8 mod 8" "?m mod 8 = ?n mod 8"
    using dig lt lt2 by blast+
  moreover have "k = 64 * (k div 64) + 8 * (k div 8 mod 8) + k mod 8" for k :: nat
  proof -
    have "k div 64 = k div 8 div 8" using div_mult2_eq [of k 8 8] by simp
    moreover have "k = 8 * (k div 8) + k mod 8" by simp
    moreover have "k div 8 = 8 * (k div 8 div 8) + k div 8 mod 8" by simp
    ultimately show ?thesis by linarith
  qed
  ultimately have "?m = ?n" by metis
  then show "c = d" by simp
qed

lemma octal3_first: "is_ascii_control c \<Longrightarrow> \<exists>x y z. octal3 c = [x, y, z] \<and> (x = CHR ''0'' \<or> x = CHR ''1'')"
proof -
  assume "is_ascii_control c"
  then have "of_char c div 64 = (0::nat) \<or> of_char c div 64 = (1::nat)"
    by (auto simp: is_ascii_control_def)
  then show ?thesis by (auto simp: octal3_def Let_def digit_chars_def)
qed


text \<open>The escapes are a prefix code over the bytes.\<close>

lemma escape_char_plain: "escape_char c = [c] \<or> (\<exists>x. escape_char c = CHR 0x5C # x)"
  by (simp add: escape_char_def)

lemma escape_char_split:
  assumes "escape_char c @ x = escape_char d @ y"
  shows "c = d \<and> x = y"
proof -
  have cases: "u \<in> {CHR 0x5C, CHR 0x22, CHR 0x0A, CHR 0x0D, CHR 0x09} \<or>
       u \<notin> {CHR 0x5C, CHR 0x22, CHR 0x0A, CHR 0x0D, CHR 0x09} \<and> is_ascii_control u \<and>
          (\<exists>a b e. octal3 u = [a, b, e] \<and> (a = CHR ''0'' \<or> a = CHR ''1''))
     \<or> u \<notin> {CHR 0x5C, CHR 0x22, CHR 0x0A, CHR 0x0D, CHR 0x09} \<and> \<not> is_ascii_control u" for u
    using octal3_first by blast
  have "c = d" using cases [of c] cases [of d] assms octal3_inj [of c d]
    by (elim disjE conjE exE insertE emptyE; simp add: escape_char_def)
  with assms show ?thesis by simp
qed

lemma escape_default_inj: "escape_default c = escape_default d \<Longrightarrow> c = d"
proof (induction c arbitrary: d)
  case Nil
  have "escape_char u \<noteq> []" for u by (simp add: escape_char_def)
  with Nil show ?case by (cases d) (auto simp: escape_default_def)
next
  case (Cons u c)
  have ne: "escape_char u \<noteq> []" by (simp add: escape_char_def)
  with Cons.prems obtain w d' where d: "d = w # d'" by (cases d) (auto simp: escape_default_def)
  with Cons.prems have "escape_char u @ escape_default c = escape_char w @ escape_default d'"
    by (simp add: escape_default_def)
  from escape_char_split [OF this] Cons.IH d show ?case by simp
qed

lemma digit_nth_char: "n < 10 \<Longrightarrow> is_ascii_digit (digit_chars ! n)"
  by (simp add: is_ascii_digit_def digit_nth_mem)

lemma octal3_digits: "c \<in> set (octal3 u) \<Longrightarrow> is_ascii_digit c"
proof -
  assume c: "c \<in> set (octal3 u)"
  have "of_char u div 64 < (10::nat)" using of_char_lt_256 [of u] by linarith
  moreover have "k mod 8 < 10" for k :: nat using mod_less_divisor [of 8 k] by linarith
  ultimately show ?thesis using c digit_nth_char by (auto simp: octal3_def Let_def)
qed

lemma escape_default_no_newline: "NL \<notin> set (escape_default d)"
proof -
  have "NL \<notin> set (escape_char u)" for u
    using octal3_digits [of NL u] by (auto simp: escape_char_def is_ascii_digit_def digit_chars_def)
  then show ?thesis by (auto simp: escape_default_def)
qed

text \<open>The labels, all of one length, followed by the type.\<close>

definition label_prefix :: "string list \<Rightarrow> string" where
  "label_prefix fs = concat (map (\<lambda>f. f @ '' '') fs)"

lemma join_labels: "join_with '' '' fs @ (if fs = [] then [] else '' '') = label_prefix fs"
  by (induction fs rule: induct_list012) (simp_all add: label_prefix_def)

lemma label_length: "l \<in> set LABELS \<Longrightarrow> length l = 8"
  by (auto simp: LABELS_def)

lemma label_prefix_split:
  assumes "label_prefix fs @ t = label_prefix gs @ u"
    and "list_all (\<lambda>l. l \<in> set LABELS) fs" "list_all (\<lambda>l. l \<in> set LABELS) gs"
    and "type_ok t" "type_ok u"
  shows "fs = gs \<and> t = u"
  using assms
proof (induction fs arbitrary: gs)
  case Nil
  show ?case
  proof (cases gs)
    case (Cons g gs')
    with Nil.prems have "t = (g @ '' '') @ label_prefix gs' @ u" "g \<in> set LABELS"
      by (simp_all add: label_prefix_def)
    then have "starts_with t (g @ '' '')" by (metis starts_with_append)
    with \<open>g \<in> set LABELS\<close> Nil.prems show ?thesis by (auto simp: type_ok_def list_all_iff)
  qed (use Nil in \<open>simp add: label_prefix_def\<close>)
next
  case (Cons f fs)
  show ?case
  proof (cases gs)
    case Nil
    with Cons.prems have "u = (f @ '' '') @ label_prefix fs @ t" "f \<in> set LABELS"
      by (simp_all add: label_prefix_def)
    then have "starts_with u (f @ '' '')" by (metis starts_with_append)
    with \<open>f \<in> set LABELS\<close> Cons.prems show ?thesis by (auto simp: type_ok_def list_all_iff)
  next
    case (Cons g gs')
    with Cons.prems have eq: "f @ '' '' @ label_prefix fs @ t = g @ '' '' @ label_prefix gs' @ u"
      by (simp add: label_prefix_def)
    from Cons Cons.prems have "length f = length g" using label_length by auto
    with eq have "f = g" "label_prefix fs @ t = label_prefix gs' @ u" by simp_all
    with Cons.IH [of gs'] Cons Cons.prems show ?thesis by simp
  qed
qed


text \<open>The number, which ends at the first byte that is no digit and no sign.\<close>

definition number_byte :: "char \<Rightarrow> bool" where
  "number_byte c \<longleftrightarrow> is_ascii_digit c \<or> c = CHR ''-''"

lemma show_int_bytes: "c \<in> set (show_int n) \<Longrightarrow> number_byte c"
  by (auto simp: show_int_def number_byte_def dest: dec_digits split: if_splits)

lemma show_int_inj: "show_int m = show_int n \<Longrightarrow> m = n"
proof -
  assume eq: "show_int m = show_int n"
  have minus: "dec k \<noteq> CHR ''-'' # x" for k x
  proof -
    have "CHR ''-'' \<notin> set (dec k)" by (rule dec_no) (simp add: is_ascii_digit_def digit_chars_def)
    then show ?thesis by auto
  qed
  show "m = n"
    using eq minus [of "nat m"] minus [of "nat n"] minus [THEN not_sym, of _ "nat n"] minus [THEN not_sym, of _ "nat m"]
    by (auto simp: show_int_def split: if_splits)
qed

lemma number_split:
  assumes "show_int m @ x = show_int n @ y" "x \<noteq> []" "\<not> number_byte (hd x)" "y \<noteq> []" "\<not> number_byte (hd y)"
  shows "m = n \<and> x = y"
proof -
  have "takeWhile number_byte (show_int k @ z) = show_int k" if "z \<noteq> []" "\<not> number_byte (hd z)" for k z
    using that takeWhile_append2 [of "show_int k" number_byte z] show_int_bytes [of _ k]
    by (cases z) auto
  then have "show_int m = show_int n" using assms by metis
  with assms show ?thesis using show_int_inj by auto
qed

lemma default_option_inj: "default_option ty c = default_option ty d \<Longrightarrow> c = d"
  by (auto simp: default_option_def escape_default_inj split: if_splits)

definition option_tail :: "string \<Rightarrow> bool \<Rightarrow> string option \<Rightarrow> string" where
  "option_tail ty packed d =
     (case d of None \<Rightarrow> if packed then '' [packed = true];'' else '';''
      | Some v \<Rightarrow> if packed then '' [packed = true, '' @ default_option ty v @ ''];''
                  else '' ['' @ default_option ty v @ ''];'')"

lemma option_tail_inj: "option_tail ty p c = option_tail ty q d \<Longrightarrow> p = q \<and> c = d"
proof -
  have head: "\<exists>r. default_option ty v = CHR ''d'' # r" for v by (simp add: default_option_def)
  assume "option_tail ty p c = option_tail ty q d"
  then show ?thesis
    using head [of "the c"] head [of "the d"]
    by (cases c; cases d; cases p; cases q) (auto simp: option_tail_def dest: default_option_inj)
qed

lemma option_tail_head: "option_tail ty p d \<noteq> []" "\<not> number_byte (hd (option_tail ty p d))"
  by (auto simp: option_tail_def number_byte_def is_ascii_digit_def digit_chars_def split: option.split)

text \<open>A field line is its labels, its type, its name, its number and its options.\<close>

lemma field_line_parts:
  "field_line f = (label_prefix (prf_flags f) @ prf_type f @ '' '' @ prf_name f @ '' '')
     @ ''= '' @ show_int (prf_id f) @ option_tail (prf_type f) (prf_packed f) (prf_default f)"
  unfolding field_line_def Let_def
  using join_labels [of "prf_flags f", symmetric]
  by (simp add: field_options_def option_tail_def split: option.split)

lemma label_prefix_bytes:
  assumes "list_all (\<lambda>l. l \<in> set LABELS) fs"
  shows "CHR ''='' \<notin> set (label_prefix fs)" "NL \<notin> set (label_prefix fs)"
  using assms by (induction fs) (auto simp: label_prefix_def LABELS_def)

lemma upto_equals:
  assumes "x @ CHR ''='' # r = y @ CHR ''='' # s" "CHR ''='' \<notin> set x" "CHR ''='' \<notin> set y"
  shows "x = y \<and> r = s"
proof -
  have "takeWhile (\<lambda>c. c \<noteq> CHR ''='') (z @ CHR ''='' # t) = z" if "CHR ''='' \<notin> set z" for z t
    using that by (induction z) auto
  then have "x = y" using assms by metis
  with assms show ?thesis by simp
qed

lemma last_word_split:
  assumes "x @ CHR '' '' # n = y @ CHR '' '' # k" "CHR '' '' \<notin> set n" "CHR '' '' \<notin> set k"
  shows "x = y \<and> n = k"
proof -
  have "rsplit_first (\<lambda>c. c = CHR '' '') (x @ CHR '' '' # n) = n"
    using assms by (intro rsplit_first_append_sep) auto
  moreover have "rsplit_first (\<lambda>c. c = CHR '' '') (y @ CHR '' '' # k) = k"
    using assms by (intro rsplit_first_append_sep) auto
  ultimately have "n = k" using assms(1) by simp
  with assms show ?thesis by simp
qed

lemma field_line_inj:
  assumes "field_line f = field_line g" "field_ok f" "field_ok g"
  shows "f = g"
proof -
  let ?h = "\<lambda>f. label_prefix (prf_flags f) @ prf_type f"
  let ?n = "\<lambda>f. '' '' @ show_int (prf_id f) @ option_tail (prf_type f) (prf_packed f) (prf_default f)"
  have eq: "(?h f @ '' '' @ prf_name f @ '' '') @ CHR ''='' # ?n f
      = (?h g @ '' '' @ prf_name g @ '' '') @ CHR ''='' # ?n g"
    using assms(1) unfolding field_line_parts by simp
  have free: "CHR ''='' \<notin> set (?h k @ '' '' @ prf_name k @ '' '')" if "field_ok k" for k
    using that label_prefix_bytes [of "prf_flags k"]
    by (auto simp: field_ok_def type_ok_def plain_word_def)
  from upto_equals [OF eq free [OF assms(2)] free [OF assms(3)]]
  have head: "?h f @ CHR '' '' # prf_name f = ?h g @ CHR '' '' # prf_name g"
    and tail: "show_int (prf_id f) @ option_tail (prf_type f) (prf_packed f) (prf_default f)
      = show_int (prf_id g) @ option_tail (prf_type g) (prf_packed g) (prf_default g)" by simp_all
  from last_word_split [OF head] assms have name: "prf_name f = prf_name g" "?h f = ?h g"
    by (simp_all add: field_ok_def plain_word_def)
  from label_prefix_split [OF name(2)] assms have type: "prf_flags f = prf_flags g" "prf_type f = prf_type g"
    by (simp_all add: field_ok_def)
  from number_split [OF tail] option_tail_head
  have "prf_id f = prf_id g" "option_tail (prf_type f) (prf_packed f) (prf_default f)
      = option_tail (prf_type g) (prf_packed g) (prf_default g)" by blast+
  with type name option_tail_inj [of "prf_type f" "prf_packed f" "prf_default f"]
  show ?thesis by simp
qed


section \<open>Tokens are told apart by their text\<close>

lemma token_last:
  "last (token_text t) = (case t of TField _ \<Rightarrow> CHR '';'' | TValue _ \<Rightarrow> CHR '';''
     | TClose \<Rightarrow> CHR ''}'' | TEmpty _ \<Rightarrow> CHR ''}'' | _ \<Rightarrow> CHR ''{'')"
  by (cases t) (simp_all add: field_line_def Let_def)

text \<open>Before its number a value is one word, a field at least two.\<close>

lemma value_not_field:
  assumes "token_text (TValue v) = field_line f" "plain_word (pev_name v)" "field_ok f"
  shows False
proof -
  let ?h = "label_prefix (prf_flags f) @ prf_type f"
  have eq: "(pev_name v @ '' '') @ CHR ''='' # '' '' @ show_int (pev_id v) @ '';''
      = (?h @ '' '' @ prf_name f @ '' '') @ CHR ''='' # '' '' @ show_int (prf_id f)
          @ option_tail (prf_type f) (prf_packed f) (prf_default f)"
    using assms(1) unfolding field_line_parts by simp
  have "CHR ''='' \<notin> set (pev_name v @ '' '')" "CHR ''='' \<notin> set (?h @ '' '' @ prf_name f @ '' '')"
    using assms label_prefix_bytes [of "prf_flags f"]
    by (auto simp: field_ok_def type_ok_def plain_word_def)
  from upto_equals [OF eq this] have "pev_name v = ?h @ '' '' @ prf_name f" by simp
  then have "CHR '' '' \<in> set (pev_name v)" by simp
  with assms(2) show False by (simp add: plain_word_def)
qed

lemma value_text_inj:
  assumes "token_text (TValue v) = token_text (TValue w)" "plain_word (pev_name v)" "plain_word (pev_name w)"
  shows "v = w"
proof -
  have eq: "(pev_name v @ '' '') @ CHR ''='' # '' '' @ show_int (pev_id v) @ '';''
      = (pev_name w @ '' '') @ CHR ''='' # '' '' @ show_int (pev_id w) @ '';''"
    using assms(1) by simp
  have "CHR ''='' \<notin> set (pev_name v @ '' '')" "CHR ''='' \<notin> set (pev_name w @ '' '')"
    using assms(2,3) by (simp_all add: plain_word_def)
  from upto_equals [OF eq this] have "pev_name v = pev_name w"
    "show_int (pev_id v) @ '';'' = show_int (pev_id w) @ '';''" by simp_all
  then show ?thesis using show_int_inj [of "pev_id v" "pev_id w"] by simp
qed

lemma token_text_inj:
  assumes "token_text t = token_text u" "token_ok t" "token_ok u"
  shows "t = u"
proof -
  have l: "last (token_text t) = last (token_text u)" using assms(1) by simp
  show ?thesis
  proof (cases t)
    case (TField f)
    with l have "(\<exists>g. u = TField g) \<or> (\<exists>v. u = TValue v)"
      unfolding token_last by (cases u) simp_all
    then show ?thesis
    proof (elim disjE exE)
      fix g assume "u = TField g"
      with TField assms field_line_inj [of f g] show ?thesis by simp
    next
      fix v assume "u = TValue v"
      with TField assms value_not_field [of v f] show ?thesis by simp
    qed
  next
    case (TValue w)
    with l have "(\<exists>g. u = TField g) \<or> (\<exists>v. u = TValue v)"
      unfolding token_last by (cases u) simp_all
    then show ?thesis
    proof (elim disjE exE)
      fix g assume "u = TField g"
      with TValue assms value_not_field [of w g] show ?thesis by simp
    next
      fix v assume "u = TValue v"
      with TValue assms value_text_inj [of w v] show ?thesis by simp
    qed
  next
    case (TMessage n)
    with l have "(\<exists>n. u = TMessage n) \<or> (\<exists>n. u = TEnum n) \<or> (\<exists>n. u = TOneOf n)"
      unfolding token_last by (cases u) simp_all
    with TMessage assms(1) show ?thesis by auto
  next
    case (TEnum n)
    with l have "(\<exists>n. u = TMessage n) \<or> (\<exists>n. u = TEnum n) \<or> (\<exists>n. u = TOneOf n)"
      unfolding token_last by (cases u) simp_all
    with TEnum assms(1) show ?thesis by auto
  next
    case (TOneOf n)
    with l have "(\<exists>n. u = TMessage n) \<or> (\<exists>n. u = TEnum n) \<or> (\<exists>n. u = TOneOf n)"
      unfolding token_last by (cases u) simp_all
    with TOneOf assms(1) show ?thesis by auto
  next
    case (TEmpty n)
    with l have "(\<exists>n. u = TEmpty n) \<or> u = TClose" unfolding token_last by (cases u) simp_all
    with TEmpty assms(1) show ?thesis by auto
  next
    case TClose
    with l have "(\<exists>n. u = TEmpty n) \<or> u = TClose" unfolding token_last by (cases u) simp_all
    with TClose assms(1) show ?thesis by auto
  qed
qed

lemma tokens_inj:
  assumes "map token_text ts = map token_text us" "list_all token_ok ts" "list_all token_ok us"
  shows "ts = us"
  using assms
proof (induction ts arbitrary: us)
  case (Cons t ts)
  then obtain u us' where us: "us = u # us'" by (cases us) simp_all
  with Cons.prems token_text_inj [of t u] have "t = u" by simp
  moreover have "ts = us'" using Cons.prems us by (intro Cons.IH) simp_all
  ultimately show ?case using us by simp
qed simp

text \<open>No text of a token is blank, begins with a blank or spans two lines.\<close>

lemma field_line_hd: "field_ok f \<Longrightarrow> field_line f \<noteq> [] \<and> hd (field_line f) \<noteq> CHR '' ''"
proof -
  assume ok: "field_ok f"
  show ?thesis
  proof (cases "prf_flags f")
    case Nil
    with ok show ?thesis
      by (auto simp: field_line_parts label_prefix_def field_ok_def type_ok_def)
  next
    case (Cons l ls)
    with ok have "l \<in> set LABELS" by (simp add: field_ok_def)
    with Cons show ?thesis by (auto simp: field_line_parts label_prefix_def LABELS_def)
  qed
qed

lemma token_text_hd: "token_ok t \<Longrightarrow> token_text t \<noteq> [] \<and> hd (token_text t) \<noteq> CHR '' ''"
  using field_line_hd hd_in_set by (cases t) (fastforce simp: plain_word_def hd_append)+

lemma show_int_no_newline: "NL \<notin> set (show_int n)"
  using show_int_bytes [of NL n] by (auto simp: number_byte_def is_ascii_digit_def digit_chars_def)

lemma field_line_no_newline: "field_ok f \<Longrightarrow> NL \<notin> set (field_line f)"
  using label_prefix_bytes [of "prf_flags f"] show_int_no_newline escape_default_no_newline
  by (auto simp: field_line_parts field_ok_def type_ok_def plain_word_def option_tail_def
      default_option_def split: option.splits)

lemma token_text_no_newline: "token_ok t \<Longrightarrow> NL \<notin> set (token_text t)"
  using field_line_no_newline show_int_no_newline by (cases t) (auto simp: plain_word_def)


section \<open>The tokens of a text\<close>

text \<open>The lines with content, without their indentation.\<close>

definition trimmed :: "string list \<Rightarrow> string list" where
  "trimmed ls = [l \<leftarrow> map (dropWhile (\<lambda>c. c = CHR '' '')) ls. l \<noteq> []]"

lemma trimmed_append [simp]: "trimmed (a @ b) = trimmed a @ trimmed b"
  by (simp add: trimmed_def)

lemma trimmed_Nil [simp]: "trimmed [] = []" "trimmed ([] # ls) = trimmed ls"
  by (simp_all add: trimmed_def)

lemma trimmed_concat: "trimmed (concat lss) = concat (map trimmed lss)"
  by (induction lss) simp_all

lemma indent_dropWhile: "dropWhile (\<lambda>c. c = CHR '' '') (INDENT @ l) = dropWhile (\<lambda>c. c = CHR '' '') l"
  by (simp add: INDENT_def)

lemma trimmed_indent [simp]: "trimmed (indent_lines ls) = trimmed ls"
proof -
  have "dropWhile (\<lambda>c. c = CHR '' '') (if l = [] then l else INDENT @ l) = dropWhile (\<lambda>c. c = CHR '' '') l"
    for l by (cases l) (simp_all only: if_True if_False indent_dropWhile list.distinct simp_thms)
  then show ?thesis by (simp only: trimmed_def indent_lines_def map_map comp_def)
qed

lemma trimmed_pop [simp]: "trimmed (pop_blanks ls) = trimmed ls"
proof -
  have "trimmed (rev (dropWhile (\<lambda>l. l = []) xs)) = trimmed (rev xs)" for xs
    by (induction xs) simp_all
  from this [of "rev ls"] show ?thesis by (simp add: pop_blanks_def)
qed

lemma trimmed_indented: "trimmed ((INDENT @ l) # ls) = trimmed (l # ls)"
  by (simp only: trimmed_def list.map indent_dropWhile)

lemma trimmed_token: "token_ok t \<Longrightarrow> trimmed (token_text t # ls) = token_text t # trimmed ls"
  using token_text_hd [of t] by (cases "token_text t") (auto simp: trimmed_def)

lemma trimmed_tokens: "list_all token_ok ts \<Longrightarrow> trimmed (map token_text ts) = map token_text ts"
  by (induction ts) (simp_all add: trimmed_token)

lemma trimmed_tokens_indented:
  "list_all token_ok ts \<Longrightarrow> trimmed (map (\<lambda>t. INDENT @ token_text t) ts) = map token_text ts"
  by (induction ts) (simp_all add: trimmed_indented trimmed_token)

lemma member_tokens_ok: "member_ok m \<Longrightarrow> list_all token_ok (member_tokens m)"
  by (cases m) (auto simp: list_all_iff)

lemma entity_tokens_ok:
  "message_ok m \<Longrightarrow> list_all token_ok (message_tokens m)"
  "entity_ok e \<Longrightarrow> list_all token_ok (entity_tokens e)"
proof (induction m and e rule: message_tokens_entity_tokens.induct)
  case (1 n ms ns)
  then have "list_all token_ok (concat (map member_tokens ms))"
    "list_all token_ok (concat (map entity_tokens ns))"
    using member_tokens_ok by (fastforce simp: list_all_iff)+
  with 1 show ?case by (auto simp: list_all_iff)
qed (auto simp: list_all_iff)

lemma trimmed_member: "member_ok m \<Longrightarrow> trimmed (member_lines m) = map token_text (member_tokens m)"
proof (cases m)
  case (MField f)
  moreover assume "member_ok m"
  ultimately show ?thesis using trimmed_token [of "TField f" "[]"] by simp
next
  case (MOneOf x)
  assume ok: "member_ok m"
  have "member_lines m = token_text (TOneOf (po_name x))
      # map (\<lambda>t. INDENT @ token_text t) (map TField (po_fields x)) @ [token_text TClose]"
    by (simp add: MOneOf comp_def)
  also have "trimmed \<dots> = map token_text (member_tokens m)"
    using ok MOneOf trimmed_tokens_indented [of "map TField (po_fields x)"]
    by (subst trimmed_token) (simp_all add: list_all_iff trimmed_token [of TClose "[]", simplified] comp_def)
  finally show ?thesis .
qed

lemma trimmed_enum:
  "entity_ok (EEnum e) \<Longrightarrow> trimmed (enum_lines e) = map token_text (entity_tokens (EEnum e))"
proof -
  assume ok: "entity_ok (EEnum e)"
  have "enum_lines e = token_text (TEnum (pe_name e))
      # map (\<lambda>t. INDENT @ token_text t) (map TValue (pe_values e)) @ [token_text TClose]"
    by (simp add: enum_lines_def comp_def)
  also have "trimmed \<dots> = map token_text (entity_tokens (EEnum e))"
    using ok trimmed_tokens_indented [of "map TValue (pe_values e)"]
    by (subst trimmed_token) (simp_all add: list_all_iff trimmed_token [of TClose "[]", simplified] comp_def)
  finally show ?thesis .
qed

lemma trimmed_entity:
  "message_ok m \<Longrightarrow> trimmed (message_lines m) = map token_text (message_tokens m)"
  "entity_ok e \<Longrightarrow> trimmed (entity_lines e) = map token_text (entity_tokens e)"
proof (induction m and e rule: message_tokens_entity_tokens.induct)
  case (1 n ms ns)
  have head: "token_ok (TMessage n)" "token_ok (TEmpty n)" using "1.prems" by simp_all
  show ?case
  proof (cases "ms = [] \<and> ns = []")
    case True
    then show ?thesis using trimmed_token [OF head(2), of "[[]]"] by simp
  next
    case False
    have "trimmed (concat (map (\<lambda>x. indent_lines (member_lines x)) ms)) = map token_text (concat (map member_tokens ms))"
      using "1.prems" trimmed_member
      by (simp add: trimmed_concat map_concat comp_def list_all_iff cong: map_cong)
    moreover have "trimmed (concat (map (\<lambda>x. indent_lines (entity_lines x)) ns)) = map token_text (concat (map entity_tokens ns))"
      using 1 False by (simp add: trimmed_concat map_concat comp_def list_all_iff cong: map_cong)
    moreover have "trimmed [''}'', []] = [''}'']" by (simp add: trimmed_def)
    ultimately show ?thesis
      using False trimmed_token [OF head(1), simplified] by (simp add: if_not_P)
  qed
next
  case (3 e)
  then show ?case using trimmed_enum by simp
qed simp


section \<open>Tokens are a prefix code\<close>

text \<open>
  A sequence of items, each a prefix code that begins in \<open>S\<close>, before a text that does not begin in
  \<open>S\<close>: the items and the rest are determined.
\<close>

lemma items_split:
  assumes "concat (map c xs) @ r = concat (map c ys) @ r'"
    and "\<And>x y r r'. x \<in> set xs \<Longrightarrow> c x @ r = c y @ r' \<Longrightarrow> x = y \<and> r = r'"
    and "\<And>x. c x \<noteq> [] \<and> hd (c x) \<in> S"
    and "r = [] \<or> hd r \<notin> S" "r' = [] \<or> hd r' \<notin> S"
  shows "xs = ys \<and> r = r'"
  using assms(1,2)
proof (induction xs arbitrary: ys)
  case Nil
  show ?case
  proof (cases ys)
    case (Cons y ys')
    with Nil have "r = c y @ concat (map c ys') @ r'" by simp
    with assms(3) [of y] assms(4) show ?thesis by auto
  qed (use Nil in simp)
next
  case (Cons x xs)
  show ?case
  proof (cases ys)
    case Nil
    with Cons.prems have "r' = c x @ concat (map c xs) @ r" by simp
    with assms(3) [of x] assms(5) show ?thesis by auto
  next
    case (Cons y ys')
    with Cons.prems(1) have "c x @ (concat (map c xs) @ r) = c y @ (concat (map c ys') @ r')" by simp
    from Cons.prems(2) [OF _ this] have xy: "x = y" and rest: "concat (map c xs) @ r = concat (map c ys') @ r'"
      by simp_all
    have "xs = ys' \<and> r = r'"
    proof (rule Cons.IH [OF rest])
      fix u v s s' assume "u \<in> set xs" "c u @ s = c v @ s'"
      then show "u = v \<and> s = s'" by (intro Cons.prems(2)) simp_all
    qed
    with xy Cons show ?thesis by simp
  qed
qed

lemma single_items_split:
  assumes "map f xs @ r = map f ys @ r'" "inj f" "\<And>x. f x \<in> S"
    and "r = [] \<or> hd r \<notin> S" "r' = [] \<or> hd r' \<notin> S"
  shows "xs = ys \<and> r = r'"
proof -
  have "concat (map (\<lambda>x. [f x]) zs) = map f zs" for zs by (induction zs) simp_all
  then have "concat (map (\<lambda>x. [f x]) xs) @ r = concat (map (\<lambda>x. [f x]) ys) @ r'" using assms(1) by simp
  then show ?thesis
    using assms(2-) by (intro items_split [where S = S and c = "\<lambda>x. [f x]"]) (auto dest: injD)
qed

lemma member_tokens_split:
  assumes "member_tokens m @ r = member_tokens k @ r'"
  shows "m = k \<and> r = r'"
proof (cases m; cases k)
  fix x y assume "m = MOneOf x" "k = MOneOf y"
  with assms have "po_name x = po_name y"
    and "map TField (po_fields x) @ TClose # r = map TField (po_fields y) @ TClose # r'" by simp_all
  from single_items_split [OF this(2), of "range TField"] this(1) \<open>m = MOneOf x\<close> \<open>k = MOneOf y\<close>
  show ?thesis by (auto simp: inj_def image_iff)
qed (use assms in auto)

definition member_start :: "proto_token set" where
  "member_start = range TField \<union> range TOneOf"

definition entity_start :: "proto_token set" where
  "entity_start = range TMessage \<union> range TEmpty \<union> range TEnum"

lemma member_tokens_start: "member_tokens m \<noteq> [] \<and> hd (member_tokens m) \<in> member_start"
  by (cases m) (auto simp: member_start_def)

lemma entity_tokens_start: "entity_tokens e \<noteq> [] \<and> hd (entity_tokens e) \<in> entity_start"
proof (cases e)
  case (EMessage m)
  then show ?thesis by (cases m) (auto simp: entity_start_def)
qed (auto simp: entity_start_def)

lemma concat_start:
  assumes "\<And>x. c x \<noteq> [] \<and> hd (c x) \<in> S"
  shows "hd (concat (map c xs) @ y # r) \<in> insert y S"
  using assms by (cases xs) (auto simp: hd_append)

lemma entity_tokens_split:
  "message_tokens m @ r = message_tokens k @ r' \<Longrightarrow> m = k \<and> r = r'"
  "entity_tokens e @ r = entity_tokens g @ r' \<Longrightarrow> e = g \<and> r = r'"
proof (induction m and e arbitrary: k r r' and g r r' rule: message_tokens_entity_tokens.induct)
  case (1 n ms ns)
  obtain n' ms' ns' where k: "k = ProtoMessage n' ms' ns'" by (cases k)
  show ?case
  proof (cases "ms = [] \<and> ns = []")
    case True
    with "1.prems" k show ?thesis by (auto split: if_splits)
  next
    case False
    with "1.prems" k have f': "\<not> (ms' = [] \<and> ns' = [])" by (auto split: if_splits)
    let ?t = "\<lambda>ns r. concat (map entity_tokens ns) @ TClose # r"
    from "1.prems" k False f' have n: "n = n'"
      and eq: "concat (map member_tokens ms) @ ?t ns r = concat (map member_tokens ms') @ ?t ns' r'"
      by (simp_all add: if_not_P)
    have start: "hd (?t xs z) \<notin> member_start" for xs z
    proof -
      have "hd (?t xs z) \<in> insert TClose entity_start"
        by (rule concat_start [OF entity_tokens_start])
      then show ?thesis by (auto simp: member_start_def entity_start_def)
    qed
    from items_split [where S = member_start, OF eq member_tokens_split member_tokens_start] start
    have ms: "ms = ms'" and eq2: "?t ns r = ?t ns' r'" by blast+
    have "ns = ns' \<and> TClose # r = TClose # r'"
    proof (rule items_split [where S = entity_start, OF eq2 _ entity_tokens_start])
      fix x y s s' assume "x \<in> set ns" "entity_tokens x @ s = entity_tokens y @ s'"
      then show "x = y \<and> s = s'" using "1.IH" [OF False] by blast
    qed (auto simp: entity_start_def)
    with n ms k show ?thesis by simp
  qed
next
  case (2 m)
  show ?case
  proof (cases g)
    case (EMessage k)
    with 2 show ?thesis by auto
  next
    case (EEnum x)
    with "2.prems" show ?thesis by (cases m) (auto split: if_splits)
  qed
next
  case (3 e)
  show ?case
  proof (cases g)
    case (EMessage k)
    with 3 show ?thesis by (cases k) (auto split: if_splits)
  next
    case (EEnum x)
    with 3 have n: "pe_name e = pe_name x"
      and eq: "map TValue (pe_values e) @ TClose # r = map TValue (pe_values x) @ TClose # r'" by simp_all
    from single_items_split [OF eq, of "range TValue"] have "pe_values e = pe_values x" "r = r'"
      by (auto simp: inj_def)
    with n EEnum show ?thesis by simp
  qed
qed

lemma entities_tokens_inj:
  "concat (map entity_tokens es) = concat (map entity_tokens gs) \<Longrightarrow> es = gs"
  using items_split [of entity_tokens es "[]" gs "[]" entity_start] entity_tokens_split(2) entity_tokens_start
  by simp


section \<open>The text determines the document\<close>

lemma lines_no_newline:
  "\<forall>l \<in> set (trimmed ls). NL \<notin> set l \<Longrightarrow> \<forall>l \<in> set ls. NL \<notin> set l"
proof
  fix l assume all: "\<forall>l \<in> set (trimmed ls). NL \<notin> set l" and l: "l \<in> set ls"
  show "NL \<notin> set l"
  proof
    assume nl: "NL \<in> set l"
    let ?d = "dropWhile (\<lambda>c. c = CHR '' '') l"
    have "NL \<in> set (takeWhile (\<lambda>c. c = CHR '' '') l @ ?d)"
      using nl by (simp only: takeWhile_dropWhile_id)
    then have "NL \<in> set (takeWhile (\<lambda>c. c = CHR '' '') l) \<or> NL \<in> set ?d" by (simp only: set_append Un_iff)
    moreover have "NL \<notin> set (takeWhile (\<lambda>c. c = CHR '' '') l)" by (auto dest: set_takeWhileD)
    ultimately have "NL \<in> set ?d" by blast
    from l have "?d \<in> set (map (dropWhile (\<lambda>c. c = CHR '' '')) ls)" by (simp only: set_map image_eqI)
    moreover from \<open>NL \<in> set ?d\<close> have "?d \<noteq> []" by (metis empty_iff empty_set)
    ultimately have "?d \<in> set (trimmed ls)" by (simp only: trimmed_def set_filter mem_Collect_eq simp_thms)
    with all \<open>NL \<in> set ?d\<close> show False by blast
  qed
qed

lemma entity_lines_no_newline: "entity_ok e \<Longrightarrow> \<forall>l \<in> set (entity_lines e). NL \<notin> set l"
proof (rule lines_no_newline)
  assume ok: "entity_ok e"
  show "\<forall>l \<in> set (trimmed (entity_lines e)). NL \<notin> set l"
    unfolding trimmed_entity(2) [OF ok]
    using entity_tokens_ok(2) [OF ok] token_text_no_newline by (auto simp: list_all_iff)
qed

lemma entity_lines_nonempty: "entity_lines e \<noteq> []"
proof (cases e)
  case (EMessage m)
  then show ?thesis by (cases m) simp
qed (simp add: enum_lines_def)

lemma join_with_concat:
  "\<forall>ls \<in> set lss. ls \<noteq> [] \<Longrightarrow> join_with d (map (join_with d) lss) = join_with d (concat lss)"
proof (induction lss rule: induct_list012)
  case (3 ls ls' lss)
  have join: "join_with d (xs @ ys) = join_with d xs @ d @ join_with d ys" if "xs \<noteq> []" "ys \<noteq> []" for xs ys
    using that
  proof (induction xs rule: induct_list012)
    case (2 x)
    then show ?case by (cases ys) simp_all
  qed simp_all
  with 3 show ?case by (simp add: join [of ls "ls' @ concat lss"])
qed simp_all

lemma body_tokens:
  assumes "list_all entity_ok es"
  shows "trimmed (split_on (\<lambda>c. c = NL) (join_with [NL] (map (\<lambda>e. join_with [NL] (entity_lines e)) es)))
         = map token_text (concat (map entity_tokens es))"
proof (cases "es = []")
  case False
  let ?ls = "concat (map entity_lines es)"
  have ne: "?ls \<noteq> []" using False entity_lines_nonempty by (cases es) simp_all
  have "join_with [NL] (map (\<lambda>e. join_with [NL] (entity_lines e)) es) = join_with [NL] ?ls"
    using join_with_concat [of "map entity_lines es" "[NL]"] entity_lines_nonempty by (simp add: comp_def)
  moreover have "split_on (\<lambda>c. c = NL) (join_with [NL] ?ls) = ?ls"
    using assms entity_lines_no_newline by (intro split_on_join_with [OF ne]) (auto simp: list_all_iff)
  moreover have "trimmed ?ls = map token_text (concat (map entity_tokens es))"
    using assms trimmed_entity(2)
    by (simp add: trimmed_concat map_concat comp_def list_all_iff cong: map_cong)
  ultimately show ?thesis by simp
qed (simp add: trimmed_def)

lemma version_split:
  assumes "v @ NL # x = w @ NL # y" "NL \<notin> set v" "NL \<notin> set w"
  shows "v = w \<and> x = y"
proof -
  have "takeWhile (\<lambda>c. c \<noteq> NL) (z @ NL # t) = z" if "NL \<notin> set z" for z t
    using that by (induction z) auto
  then have "v = w" using assms by metis
  with assms show ?thesis by simp
qed

text \<open>
  C11: The printed text determines the document: two protobuf documents with the same text carry the
  same version and, in the order of their names, the same entities -- every message, nested message,
  \<open>oneof\<close>, field with its labels, type, number, packing and default (escapes included), and enum value.
\<close>

theorem stringify_determines_file:
  assumes "file_ok f" "file_ok g" "stringify f = stringify g"
  shows "pfile_version f = pfile_version g
       \<and> sort_key entity_name (pfile_entities f) = sort_key entity_name (pfile_entities g)"
proof -
  let ?es = "\<lambda>f. sort_key entity_name (pfile_entities f)"
  let ?b = "\<lambda>f. join_with [NL] (map (\<lambda>e. join_with [NL] (entity_lines e)) (?es f))"
  have ok: "list_all entity_ok (?es f)" "list_all entity_ok (?es g)"
    using assms(1,2) by (simp_all add: file_ok_def list_all_iff)
  have "pfile_version f @ NL # NL # ?b f = pfile_version g @ NL # NL # ?b g"
    using assms(3) unfolding stringify_def Let_def by (simp only: append.assoc append_Cons append_Nil same_append_eq)
  from version_split [OF this] assms(1,2) have v: "pfile_version f = pfile_version g" and b: "?b f = ?b g"
    by (simp_all add: file_ok_def)
  have "map token_text (concat (map entity_tokens (?es f))) = map token_text (concat (map entity_tokens (?es g)))"
    using body_tokens [OF ok(1)] body_tokens [OF ok(2)] b by simp
  moreover have "list_all token_ok (concat (map entity_tokens (?es f)))"
    "list_all token_ok (concat (map entity_tokens (?es g)))"
    using ok entity_tokens_ok(2) by (fastforce simp: list_all_iff)+
  ultimately have "concat (map entity_tokens (?es f)) = concat (map entity_tokens (?es g))"
    by (rule tokens_inj)
  then have "?es f = ?es g" by (rule entities_tokens_inj)
  with v show ?thesis ..
qed

definition sample_identity :: proto_entity where
  "sample_identity = EMessage (ProtoMessage ''Outer''
     [MField \<lparr>prf_name = ''path'', prf_id = 5, prf_type = ''string'', prf_flags = [''optional''],
        prf_packed = False, prf_default = Some [CHR ''a'', CHR 0x22, CHR 0x5C, CHR 0x0A, CHR 0x07]\<rparr>,
      MOneOf \<lparr>po_name = ''body'', po_fields =
        [\<lparr>prf_name = ''labels'', prf_id = -3, prf_type = ''map<string, string>'', prf_flags = [],
           prf_packed = False, prf_default = None\<rparr>]\<rparr>]
     [EMessage (ProtoMessage ''Empty'' [] [])])"

definition sample_kind :: proto_entity where
  "sample_kind = EEnum \<lparr>pe_name = ''Kind'', pe_values = [\<lparr>pev_name = ''E2EE'', pev_id = 0\<rparr>]\<rparr>"

abbreviation sample_file :: "proto_entity list \<Rightarrow> proto_file" where
  "sample_file es \<equiv> \<lparr>pfile_version = ''2.3000.1'', pfile_entities = es\<rparr>"

lemma stringify_determines_file_witness:
  "sort_key entity_name (pfile_entities (sample_file [sample_identity, sample_kind]))
     = sort_key entity_name (pfile_entities (sample_file [sample_kind, sample_identity]))"
proof -
  have "file_ok (sample_file [sample_identity, sample_kind])" by code_simp
  moreover have "file_ok (sample_file [sample_kind, sample_identity])" by code_simp
  moreover have "stringify (sample_file [sample_identity, sample_kind])
      = stringify (sample_file [sample_kind, sample_identity])" by code_simp
  ultimately show ?thesis using stringify_determines_file by blast
qed

end
