(* ===== verification/ProtoValid.thy ===== *)
theory ProtoValid
  imports ProtoText UrlPolicy
begin

text \<open>
  The pass that makes an extracted document acceptable to \<open>protoc\<close>, \<open>make_protoc_valid\<close> of
  \<open>crates/wa-proto/src/extract.rs\<close>: duplicates of a top-level name are dropped, and of the top-level
  enums that share a value name all but one move into a message that mentions them.  The derived
  \<open>Debug\<close> text that breaks ties is a parameter.  A \<open>HashMap\<close> is kept as an ordered association list: the
  code iterates over one only where the order of the visits does not show in the result.
\<close>

section \<open>Mentioned types\<close>

text \<open>The trailing segment of a dotted path, trimmed.\<close>

definition ref_base :: "string \<Rightarrow> string" where
  "ref_base t = rsplit_first (\<lambda>c. c = CHR ''.'') (trim t)"

text \<open>\<open>strip_prefix("map<").and_then(|s| s.strip_suffix('>'))\<close>\<close>

definition map_inner :: "string \<Rightarrow> string option" where
  "map_inner t = (case strip_prefix t ''map<'' of None \<Rightarrow> None
     | Some s \<Rightarrow> if ends_with s ''>'' then Some (butlast s) else None)"

definition type_ref_bases :: "string \<Rightarrow> string list" where
  "type_ref_bases t = (case map_inner t of
     Some i \<Rightarrow> map ref_base (split_on (\<lambda>c. c = CHR '','') i)
   | None \<Rightarrow> [ref_base t])"

fun member_fields :: "proto_member \<Rightarrow> proto_field list" where
  "member_fields (MField f) = [f]"
| "member_fields (MOneOf x) = po_fields x"

fun collect_refs :: "proto_message \<Rightarrow> string list \<Rightarrow> string list"
  and collect_nested :: "proto_entity \<Rightarrow> string list \<Rightarrow> string list" where
  "collect_refs (ProtoMessage n ms ns) out =
     fold collect_nested ns
       (fold (\<lambda>m. fold (\<lambda>f. fold bs_insert (type_ref_bases (prf_type f))) (member_fields m)) ms out)"
| "collect_nested (EMessage m) out = collect_refs m out"
| "collect_nested (EEnum e) out = out"

text \<open>What a map to sets holds at a key, and \<open>entry(k).or_default().insert(x)\<close>.\<close>

definition set_at :: "('k, 'x list) btree \<Rightarrow> 'k \<Rightarrow> 'x list" where
  "set_at m k = opt_list (map_of m k)"

definition add_to :: "'k::linorder \<Rightarrow> 'x::linorder \<Rightarrow> ('k, 'x list) btree \<Rightarrow> ('k, 'x list) btree" where
  "add_to k x m = bt_insert k (bs_insert x (set_at m k)) m"

definition ref_step :: "proto_entity \<Rightarrow> (string, string list) btree \<Rightarrow> (string, string list) btree" where
  "ref_step e m = (case e of
     EMessage g \<Rightarrow> fold (\<lambda>r. add_to r (pm_name g)) (collect_refs g []) m
   | EEnum _ \<Rightarrow> m)"

definition referencers :: "proto_entity list \<Rightarrow> (string, string list) btree" where
  "referencers es = fold ref_step es []"

section \<open>Duplicates\<close>

definition dedup_step :: "proto_entity list \<Rightarrow> proto_entity \<Rightarrow> proto_entity list" where
  "dedup_step out e =
     (if out = [] \<or> entity_name (last out) \<noteq> entity_name e then out @ [e] else out)"

definition dedup_top_level :: "(proto_entity \<Rightarrow> string) \<Rightarrow> proto_entity list \<Rightarrow> proto_entity list" where
  "dedup_top_level dbg es =
     foldl dedup_step [] (sort_key (\<lambda>e. (entity_name e, dbg e)) es)"

section \<open>Clashing enums\<close>

definition owner_step :: "proto_entity \<Rightarrow> (string, string list) btree \<Rightarrow> (string, string list) btree" where
  "owner_step e m = (case e of
     EEnum x \<Rightarrow> fold (\<lambda>v. add_to (pev_name v) (pe_name x)) (pe_values x) m
   | EMessage _ \<Rightarrow> m)"

definition value_owners :: "proto_entity list \<Rightarrow> (string, string list) btree" where
  "value_owners es = fold owner_step es []"

definition clash_step :: "string list \<Rightarrow> (string, string list) btree \<Rightarrow> (string, string list) btree" where
  "clash_step s m = fold (\<lambda>a. fold (\<lambda>b. add_to a b) [b \<leftarrow> s. b \<noteq> a]) s m"

definition clashes :: "proto_entity list \<Rightarrow> (string, string list) btree" where
  "clashes es = fold clash_step [s \<leftarrow> map snd (value_owners es). 1 < length s] []"

text \<open>
  The walk of one component.  The stack's top is the head of the list; the sets \<open>visited\<close> and \<open>cluster\<close> (\<open>comp\<close> in the code)
  grow together.
\<close>

definition adj_nodes :: "(string, string list) btree \<Rightarrow> string set" where
  "adj_nodes adj = (\<Union>p \<in> set adj. set (snd p))"

lemma set_at_nodes: "set (set_at adj n) \<subseteq> adj_nodes adj"
  by (cases "map_of adj n") (force simp: set_at_def adj_nodes_def dest: map_of_SomeD)+

function component_walk ::
  "(string, string list) btree \<Rightarrow> string list \<Rightarrow> string list \<Rightarrow> string list \<Rightarrow> string list \<times> string list" where
  "component_walk adj [] visited cluster = (visited, cluster)"
| "component_walk adj (n # stack) visited cluster =
     (if n \<in> set visited then component_walk adj stack visited cluster
      else let visited' = bs_insert n visited
           in component_walk adj (rev [m \<leftarrow> set_at adj n. m \<notin> set visited'] @ stack)
                visited' (bs_insert n cluster))"
  by pat_completeness auto

termination
proof (relation "inv_image (finite_psubset <*lex*> measure length)
        (\<lambda>(adj, stack, visited, cluster). ((adj_nodes adj \<union> set stack) - set visited, stack))")
  fix adj and n :: string and stack visited cluster :: "string list"
  have fin: "finite (adj_nodes adj)" by (simp add: adj_nodes_def)
  show "((adj, stack, visited, cluster), (adj, n # stack, visited, cluster))
      \<in> inv_image (finite_psubset <*lex*> measure length)
        (\<lambda>(adj, stack, visited, cluster). ((adj_nodes adj \<union> set stack) - set visited, stack))"
    if "n \<in> set visited"
  proof -
    from that have "(adj_nodes adj \<union> set (n # stack)) - set visited = (adj_nodes adj \<union> set stack) - set visited"
      by auto
    then show ?thesis by simp
  qed
  fix visited' assume "n \<notin> set visited" "visited' = bs_insert n visited"
  then have "(adj_nodes adj \<union> set (rev [m \<leftarrow> set_at adj n. m \<notin> set visited'] @ stack)) - set visited'
      \<subset> (adj_nodes adj \<union> set (n # stack)) - set visited"
    using set_at_nodes [of adj n] by auto
  with fin show "((adj, rev [m \<leftarrow> set_at adj n. m \<notin> set visited'] @ stack, visited', bs_insert n cluster),
        (adj, n # stack, visited, cluster))
      \<in> inv_image (finite_psubset <*lex*> measure length)
        (\<lambda>(adj, stack, visited, cluster). ((adj_nodes adj \<union> set stack) - set visited, stack))"
    by (simp add: finite_psubset_def)
qed (simp add: wf_lex_prod)


abbreviation ref_hosts :: "(string, string list) btree \<Rightarrow> string \<Rightarrow> string list" where
  "ref_hosts \<equiv> set_at"

abbreviation ref_count :: "(string, string list) btree \<Rightarrow> string \<Rightarrow> nat" where
  "ref_count refs n \<equiv> length (ref_hosts refs n)"

text \<open>\<open>max_by\<close>: the most referencers, then the smallest name; \<open>None\<close> is the panic of \<open>expect\<close>.\<close>

definition outranks :: "(string, string list) btree \<Rightarrow> string \<Rightarrow> string \<Rightarrow> bool" where
  "outranks refs a b \<longleftrightarrow> ref_count refs a > ref_count refs b
     \<or> ref_count refs a = ref_count refs b \<and> a < b"

definition keeper_of :: "(string, string list) btree \<Rightarrow> string list \<Rightarrow> string option" where
  "keeper_of refs cluster = (case cluster of [] \<Rightarrow> None
     | n # ns \<Rightarrow> Some (foldl (\<lambda>best x. if outranks refs best x then best else x) n ns))"

record relocation_plan =
  rp_visited :: "string list"
  rp_decisions :: "(string \<times> string) list"
  rp_prefix_only :: "string list"

definition schedule :: "(string, string list) btree \<Rightarrow> string \<Rightarrow> relocation_plan \<Rightarrow> relocation_plan" where
  "schedule refs en p = (case ref_hosts refs en of
     host # _ \<Rightarrow> p\<lparr>rp_decisions := rp_decisions p @ [(en, host)]\<rparr>
   | [] \<Rightarrow> p\<lparr>rp_prefix_only := rp_prefix_only p @ [en]\<rparr>)"

definition plan_step ::
  "(string, string list) btree \<Rightarrow> (string, string list) btree \<Rightarrow> string \<Rightarrow> relocation_plan option \<Rightarrow> relocation_plan option" where
  "plan_step adj refs start st = (case st of None \<Rightarrow> None | Some p \<Rightarrow>
     if start \<in> set (rp_visited p) then Some p
     else let (visited, cluster) = component_walk adj [start] (rp_visited p) []
          in case keeper_of refs cluster of None \<Rightarrow> None
             | Some keeper \<Rightarrow>
                 Some (fold (schedule refs) [e \<leftarrow> cluster. e \<noteq> keeper] (p\<lparr>rp_visited := visited\<rparr>)))"

definition relocation ::
  "(string, string list) btree \<Rightarrow> (string, string list) btree \<Rightarrow> relocation_plan option" where
  "relocation adj refs =
     fold (plan_step adj refs) (map fst adj)
       (Some \<lparr>rp_visited = [], rp_decisions = [], rp_prefix_only = []\<rparr>)"

section \<open>Moving the enums\<close>

definition is_taken :: "string list \<Rightarrow> proto_entity \<Rightarrow> bool" where
  "is_taken relocated e = (case e of EEnum x \<Rightarrow> pe_name x \<in> set relocated | EMessage _ \<Rightarrow> False)"

definition taken_of :: "string list \<Rightarrow> proto_entity list \<Rightarrow> (string, proto_entity) btree" where
  "taken_of relocated es =
     fold (\<lambda>e m. if is_taken relocated e then bt_insert (entity_name e) e m else m) es []"

definition prefix_values :: "string list \<Rightarrow> proto_entity \<Rightarrow> proto_entity" where
  "prefix_values names e = (case e of
     EEnum x \<Rightarrow> if pe_name x \<in> set names
       then EEnum (x\<lparr>pe_values := map (\<lambda>v. v\<lparr>pev_name := pe_name x @ ''_'' @ pev_name v\<rparr>) (pe_values x)\<rparr>)
       else EEnum x
   | EMessage m \<Rightarrow> EMessage m)"

definition rewrite_type :: "(string, string) btree \<Rightarrow> string \<Rightarrow> string" where
  "rewrite_type q t = (case map_of q t of Some r \<Rightarrow> r
     | None \<Rightarrow> (case map_inner t of None \<Rightarrow> t
        | Some i \<Rightarrow> ''map<'' @ join_with '', ''
            (map (\<lambda>p. case map_of q (trim p) of Some r \<Rightarrow> r | None \<Rightarrow> trim p)
                 (split_on (\<lambda>c. c = CHR '','') i)) @ ''>''))"

definition rewrite_field :: "(string, string) btree \<Rightarrow> proto_field \<Rightarrow> proto_field" where
  "rewrite_field q f = f\<lparr>prf_type := rewrite_type q (prf_type f)\<rparr>"

fun rewrite_member :: "(string, string) btree \<Rightarrow> proto_member \<Rightarrow> proto_member" where
  "rewrite_member q (MField f) = MField (rewrite_field q f)"
| "rewrite_member q (MOneOf x) = MOneOf (x\<lparr>po_fields := map (rewrite_field q) (po_fields x)\<rparr>)"

fun rewrite_refs :: "(string, string) btree \<Rightarrow> proto_message \<Rightarrow> proto_message"
  and rewrite_nested :: "(string, string) btree \<Rightarrow> proto_entity \<Rightarrow> proto_entity" where
  "rewrite_refs q (ProtoMessage n ms ns) =
     ProtoMessage n (map (rewrite_member q) ms) (map (rewrite_nested q) ns)"
| "rewrite_nested q (EMessage m) = EMessage (rewrite_refs q m)"
| "rewrite_nested q (EEnum e) = EEnum e"

text \<open>The qualified names of the moved enums that several messages mention.\<close>

definition qualified_names ::
  "(string, string list) btree \<Rightarrow> (string \<times> string) list \<Rightarrow> (string, string) btree" where
  "qualified_names refs ds = bt_of [(en, host @ ''.'' @ en). (en, host) \<leftarrow> ds, 1 < ref_count refs en]"

text \<open>The moved enums by host; \<open>taken.remove(en)\<close> takes each at most once.\<close>

definition host_step ::
  "string \<times> string \<Rightarrow> (string, proto_entity) btree \<times> (string, proto_entity list) btree
   \<Rightarrow> (string, proto_entity) btree \<times> (string, proto_entity list) btree" where
  "host_step d st = (case (d, st) of ((en, host), (taken, hosts)) \<Rightarrow>
     (case map_of taken en of None \<Rightarrow> (taken, hosts)
      | Some ent \<Rightarrow> (bt_remove en taken,
          bt_insert host (set_at hosts host @ [ent]) hosts)))"

definition by_host ::
  "(string \<times> string) list \<Rightarrow> (string, proto_entity) btree \<Rightarrow> (string, proto_entity list) btree" where
  "by_host ds taken = snd (fold host_step ds (taken, []))"

definition extend_nested :: "proto_entity list \<Rightarrow> proto_message \<Rightarrow> proto_message" where
  "extend_nested adds m = (case m of ProtoMessage n ms ns \<Rightarrow> ProtoMessage n ms (ns @ sort_key entity_name adds))"

fun nest_enums ::
  "proto_entity list \<Rightarrow> (string, proto_entity list) btree \<Rightarrow> proto_entity list \<times> (string, proto_entity list) btree" where
  "nest_enums [] hosts = ([], hosts)"
| "nest_enums (EEnum x # es) hosts = (let (out, left) = nest_enums es hosts in (EEnum x # out, left))"
| "nest_enums (EMessage m # es) hosts =
     (case map_of hosts (pm_name m) of
        None \<Rightarrow> (let (out, left) = nest_enums es hosts in (EMessage m # out, left))
      | Some adds \<Rightarrow> (let (out, left) = nest_enums es (bt_remove (pm_name m) hosts)
                      in (EMessage (extend_nested adds m) # out, left)))"

definition apply_plan ::
  "(string, string list) btree \<Rightarrow> relocation_plan \<Rightarrow> proto_entity list \<Rightarrow> proto_entity list" where
  "apply_plan refs p es =
     (let ds = rp_decisions p;
          relocated = map fst ds;
          taken = taken_of relocated es;
          kept = [e \<leftarrow> es. \<not> is_taken relocated e];
          prefixed = map (prefix_values (rp_prefix_only p)) kept;
          q = qualified_names refs ds;
          rewritten = (if q = [] then prefixed else map (rewrite_nested q) prefixed);
          (out, left) = nest_enums rewritten (by_host ds taken)
      in out @ concat (map snd left))"

definition relocate_colliding_enums :: "proto_entity list \<Rightarrow> proto_entity list option" where
  "relocate_colliding_enums es =
     (let adj = clashes es
      in if adj = [] then Some es
         else let refs = referencers es
              in map_option (\<lambda>p. apply_plan refs p es) (relocation adj refs))"

definition make_protoc_valid :: "(proto_entity \<Rightarrow> string) \<Rightarrow> proto_entity list \<Rightarrow> proto_entity list option" where
  "make_protoc_valid dbg es = relocate_colliding_enums (dedup_top_level dbg es)"


section \<open>One entity per name\<close>

abbreviation dedup_sorted :: "proto_entity list \<Rightarrow> proto_entity list" where
  "dedup_sorted \<equiv> foldl dedup_step []"

lemma dedup_sorted_last:
  "ys \<noteq> [] \<Longrightarrow> dedup_sorted ys \<noteq> [] \<and> entity_name (last (dedup_sorted ys)) = entity_name (last ys)"
  by (induction ys rule: rev_induct) (auto simp: dedup_step_def)

lemma dedup_sorted_snoc:
  "dedup_sorted (ys @ [y]) =
     (if dedup_sorted ys = [] \<or> entity_name (last (dedup_sorted ys)) \<noteq> entity_name y
      then dedup_sorted ys @ [y] else dedup_sorted ys)"
  by (simp add: dedup_step_def)

lemma dedup_sorted_names: "entity_name ` set (dedup_sorted ys) = entity_name ` set ys"
proof (induction ys rule: rev_induct)
  case (snoc y ys)
  show ?case
  proof (cases "dedup_sorted ys = [] \<or> entity_name (last (dedup_sorted ys)) \<noteq> entity_name y")
    case True
    then have "dedup_sorted (ys @ [y]) = dedup_sorted ys @ [y]" unfolding dedup_sorted_snoc by (rule if_P)
    with snoc show ?thesis by simp
  next
    case False
    then have d: "dedup_sorted (ys @ [y]) = dedup_sorted ys" unfolding dedup_sorted_snoc by (rule if_not_P)
    from False have "entity_name y \<in> entity_name ` set (dedup_sorted ys)"
      using last_in_set by (metis image_eqI)
    with d snoc show ?thesis by (metis (no_types) image_insert insert_absorb list.simps(15) rotate1.simps(2) set_rotate1)
  qed
qed simp

lemma strict_le_last: "sorted_wrt (<) (xs :: string list) \<Longrightarrow> x \<in> set xs \<Longrightarrow> x \<le> last xs"
  by (induction xs rule: rev_induct) (auto simp: sorted_wrt_append)

lemma dedup_sorted_increasing:
  "sorted (map entity_name ys) \<Longrightarrow> sorted_wrt (<) (map entity_name (dedup_sorted ys))"
proof (induction ys rule: rev_induct)
  case (snoc y ys)
  let ?d = "dedup_sorted ys"
  from snoc.prems have s: "sorted (map entity_name ys)" and le: "\<forall>e \<in> set ys. entity_name e \<le> entity_name y"
    by (simp_all add: sorted_append)
  note IH = snoc.IH [OF s]
  show ?case
  proof (cases "?d = [] \<or> entity_name (last ?d) \<noteq> entity_name y")
    case True
    then have d: "dedup_sorted (ys @ [y]) = ?d @ [y]" unfolding dedup_sorted_snoc by (rule if_P)
    have "entity_name e < entity_name y" if e: "e \<in> set ?d" for e
    proof -
      have below: "entity_name g \<le> entity_name y" if "g \<in> set ?d" for g
      proof -
        have "entity_name g \<in> entity_name ` set ys" using that dedup_sorted_names by blast
        with le show ?thesis by auto
      qed
      have ne: "?d \<noteq> []" using e by auto
      have "entity_name e \<in> set (map entity_name ?d)" using e by simp
      from strict_le_last [OF IH this] have "entity_name e \<le> entity_name (last ?d)"
        using ne by (simp add: last_map)
      moreover have "entity_name (last ?d) < entity_name y"
        using True ne below [OF last_in_set [OF ne]] by (simp add: order.strict_iff_order)
      ultimately show ?thesis by (rule order.strict_trans1)
    qed
    with IH show ?thesis unfolding d by (simp add: sorted_wrt_append)
  next
    case False
    then have "dedup_sorted (ys @ [y]) = ?d" unfolding dedup_sorted_snoc by (rule if_not_P)
    with IH show ?thesis by simp
  qed
qed simp

text \<open>The survivor is the first of its name, hence the least.\<close>

lemma dedup_sorted_least:
  assumes "sorted (map f ys)" "sorted (map entity_name ys)" "e \<in> set (dedup_sorted ys)"
  shows "e \<in> set ys \<and> (\<forall>g \<in> set ys. entity_name g = entity_name e \<longrightarrow> f e \<le> f g)"
  using assms
proof (induction ys rule: rev_induct)
  case (snoc y ys)
  let ?d = "dedup_sorted ys"
  from snoc.prems(1,2) have s: "sorted (map f ys)" "sorted (map entity_name ys)"
    and le: "\<forall>g \<in> set ys. f g \<le> f y" "\<forall>g \<in> set ys. entity_name g \<le> entity_name y"
    by (simp_all add: sorted_append)
  show ?case
  proof (cases "e \<in> set ?d")
    case True
    with snoc.IH [OF s] le show ?thesis by auto
  next
    case False
    have new: "?d = [] \<or> entity_name (last ?d) \<noteq> entity_name y"
    proof (rule ccontr)
      assume "\<not> ?thesis"
      then have "dedup_sorted (ys @ [y]) = ?d" unfolding dedup_sorted_snoc by (rule if_not_P)
      with False snoc.prems(3) show False by simp
    qed
    then have "dedup_sorted (ys @ [y]) = ?d @ [y]" unfolding dedup_sorted_snoc by (rule if_P)
    with False snoc.prems(3) have "e = y" by simp
    have "entity_name g \<noteq> entity_name y" if g: "g \<in> set ys" for g
    proof
      assume eq: "entity_name g = entity_name y"
      have in_d: "entity_name g \<in> set (map entity_name ?d)"
        using g dedup_sorted_names by (metis image_eqI list.set_map)
      then have ne: "?d \<noteq> []" by auto
      from strict_le_last [OF dedup_sorted_increasing [OF s(2)] in_d]
      have "entity_name y \<le> entity_name (last ?d)" using ne eq by (simp add: last_map)
      moreover have "entity_name (last ?d) \<in> entity_name ` set ys"
        using last_in_set [OF ne] dedup_sorted_names by blast
      ultimately have "entity_name (last ?d) = entity_name y" using le(2) by fastforce
      with new ne show False by simp
    qed
    with \<open>e = y\<close> show ?thesis by auto
  qed
qed simp


lemma sorted_names_of_key:
  "sorted (map entity_name (sort_key (\<lambda>e. (entity_name e, dbg e)) es))"
proof -
  have "sorted (map (\<lambda>e. (entity_name e, dbg e)) (sort_key (\<lambda>e. (entity_name e, dbg e)) es))" by simp
  then have "sorted_wrt (\<lambda>x y. (entity_name x, dbg x) \<le> (entity_name y, dbg y)) (sort_key (\<lambda>e. (entity_name e, dbg e)) es)"
    by (simp only: sorted_wrt_map)
  then have "sorted_wrt (\<lambda>x y. entity_name x \<le> entity_name y) (sort_key (\<lambda>e. (entity_name e, dbg e)) es)"
    by (rule sorted_wrt_mono_rel [rotated]) (auto simp: less_eq_prod_def)
  then show ?thesis by (simp only: sorted_wrt_map)
qed

lemma dedup_increasing: "sorted_wrt (<) (map entity_name (dedup_top_level dbg es))"
  unfolding dedup_top_level_def by (rule dedup_sorted_increasing [OF sorted_names_of_key])

lemma dedup_names: "entity_name ` set (dedup_top_level dbg es) = entity_name ` set es"
  unfolding dedup_top_level_def by (simp add: dedup_sorted_names)

lemma dedup_least:
  assumes "e \<in> set (dedup_top_level dbg es)"
  shows "e \<in> set es" and "g \<in> set es \<Longrightarrow> entity_name g = entity_name e \<Longrightarrow> dbg e \<le> dbg g"
  using dedup_sorted_least [OF _ sorted_names_of_key, of "\<lambda>e. (entity_name e, dbg e)" dbg es e] assms
  by (auto simp: dedup_top_level_def less_eq_prod_def)

lemma dedup_set_unique:
  assumes "inj_on dbg (set es)" "set es = set gs"
  shows "dedup_top_level dbg es = dedup_top_level dbg gs"
proof -
  have sub: "set (dedup_top_level dbg xs) \<subseteq> set (dedup_top_level dbg ys)" if "set xs = set ys" "set xs = set es" for xs ys
  proof
    fix e assume e: "e \<in> set (dedup_top_level dbg xs)"
    then have "entity_name e \<in> entity_name ` set (dedup_top_level dbg ys)"
      using that(1) dedup_names by (metis image_eqI)
    then obtain g where g: "g \<in> set (dedup_top_level dbg ys)" "entity_name e = entity_name g" by blast
    have "dbg e \<le> dbg g" using dedup_least(2) [OF e] dedup_least(1) [OF g(1)] g(2) that by simp
    moreover have "dbg g \<le> dbg e" using dedup_least(2) [OF g(1)] dedup_least(1) [OF e] g(2) that by simp
    moreover have "e \<in> set es" "g \<in> set es" using dedup_least(1) [OF e] dedup_least(1) [OF g(1)] that by simp_all
    ultimately have "e = g" using assms(1) by (simp add: inj_on_eq_iff)
    with g show "e \<in> set (dedup_top_level dbg ys)" by simp
  qed
  have seteq: "set (dedup_top_level dbg es) = set (dedup_top_level dbg gs)"
    using sub assms(2) by blast
  let ?D = "dedup_top_level dbg"
  have inj: "inj_on entity_name (set (?D es) \<union> set (?D gs))"
    using dedup_increasing [of dbg es] seteq by (simp add: distinct_map strict_sorted_iff)
  have "map entity_name (?D es) = map entity_name (?D gs)"
    by (rule bs_ok_unique [OF dedup_increasing dedup_increasing]) (simp add: seteq)
  with inj show ?thesis by (simp add: inj_on_map_eq_map)
qed

text \<open>
  The order in which the modules are visited does not matter: from the same set of entities,
  listed in any order and with any repetition, the pass makes the same document, as long as \<open>Debug\<close>
  tells entities apart.
\<close>

theorem valid_document_deterministic:
  assumes "inj_on dbg (set es)" "set es = set gs"
  shows "make_protoc_valid dbg es = make_protoc_valid dbg gs"
  by (simp add: make_protoc_valid_def dedup_set_unique [OF assms])

definition sample_ref :: "string \<Rightarrow> string \<Rightarrow> proto_member" where
  "sample_ref n t = MField \<lparr>prf_name = n, prf_id = 1, prf_type = t, prf_flags = [''optional''],
     prf_packed = False, prf_default = None\<rparr>"

definition sample_enum :: "string \<Rightarrow> string list \<Rightarrow> proto_entity" where
  "sample_enum n vs = EEnum \<lparr>pe_name = n, pe_values = map (\<lambda>v. \<lparr>pev_name = v, pev_id = 0\<rparr>) vs\<rparr>"

lemma valid_document_deterministic_witness:
  "make_protoc_valid entity_name [sample_enum ''A'' [''X''], sample_enum ''B'' [''X'']]
     = make_protoc_valid entity_name [sample_enum ''B'' [''X''], sample_enum ''A'' [''X''], sample_enum ''B'' [''X'']]"
  by (rule valid_document_deterministic) (auto simp: sample_enum_def inj_on_def)


section \<open>The clash graph\<close>

lemma set_at_add_to_list:
  "set_at (add_to k x m) k' = (if k' = k then bs_insert x (set_at m k) else set_at m k')"
  by (simp add: set_at_def add_to_def)

lemma set_at_add_to:
  "set (set_at (add_to k x m) k') = (if k' = k then insert x (set (set_at m k)) else set (set_at m k'))"
  unfolding set_at_add_to_list by (cases "k' = k") (simp_all only: if_True if_False set_bs_insert simp_thms)

lemma add_to_ok: "bt_ok m \<Longrightarrow> bt_ok (add_to k x m)"
  by (simp add: add_to_def)

lemma set_at_Nil [simp]: "set_at [] k = []"
  by (simp add: set_at_def)

definition filled :: "('k::linorder, 'x::linorder list) btree \<Rightarrow> bool" where
  \<comment> \<open>ordered keys, ordered sets, no empty one\<close>
  "filled m \<longleftrightarrow> bt_ok m \<and> (\<forall>(k, s) \<in> set m. s \<noteq> [] \<and> bs_ok s)"

lemma filled_Nil [simp]: "filled []"
  by (simp add: filled_def)

lemma filled_set_at: "filled m \<Longrightarrow> bs_ok (set_at m k)"
  by (auto simp: filled_def set_at_def split: option.split dest: map_of_SomeD)

lemma filled_add_to: "filled m \<Longrightarrow> filled (add_to k x m)"
proof -
  assume m: "filled m"
  have "bs_insert x (set_at m k) \<noteq> []" by (simp add: bs_insert_def)
  with m filled_set_at [OF m, of k] show ?thesis
    by (auto simp: filled_def add_to_def bt_insert_def sorted_wrt_append sorted_wrt_filter_ok)
qed

lemma filled_key: "filled m \<Longrightarrow> k \<in> fst ` set m \<longleftrightarrow> set_at m k \<noteq> []"
proof
  assume m: "filled m" and "k \<in> fst ` set m"
  then obtain s where s: "(k, s) \<in> set m" by auto
  with m have "map_of m k = Some s" by (simp add: filled_def bt_ok_distinct)
  with m s show "set_at m k \<noteq> []" by (auto simp: filled_def set_at_def)
next
  assume "set_at m k \<noteq> []"
  then show "k \<in> fst ` set m" by (force simp: set_at_def split: option.splits dest: map_of_SomeD)
qed

lemma filled_fold:
  assumes "filled m" "\<And>x m. filled m \<Longrightarrow> filled (f x m)"
  shows "filled (fold f xs m)"
  by (rule fold_keeps [where P = filled]) (fact assms)+

lemma set_at_fold_add:
  "set (set_at (fold (\<lambda>x. add_to (f x) (g x)) xs m) k) = set (set_at m k) \<union> g ` {x \<in> set xs. f x = k}"
  by (induction xs arbitrary: m) (auto simp: set_at_add_to)

lemma value_owners_filled: "filled (value_owners es)"
  unfolding value_owners_def
  by (rule filled_fold) (auto simp: owner_step_def filled_fold filled_add_to split: proto_entity.split)

lemma owner_step_simps [simp]:
  "owner_step (EMessage g) m = m"
  "owner_step (EEnum x) m = fold (\<lambda>v. add_to (pev_name v) (pe_name x)) (pe_values x) m"
  by (simp_all add: owner_step_def)

lemma set_at_value_owners:
  "x \<in> set (set_at (value_owners es) v)
   \<longleftrightarrow> (\<exists>e. EEnum e \<in> set es \<and> pe_name e = x \<and> v \<in> pev_name ` set (pe_values e))"
proof -
  have "x \<in> set (set_at (fold owner_step es m) v) \<longleftrightarrow> x \<in> set (set_at m v)
      \<or> (\<exists>e. EEnum e \<in> set es \<and> pe_name e = x \<and> v \<in> pev_name ` set (pe_values e))" for m
  proof (induction es arbitrary: m)
    case (Cons e es)
    show ?case
    proof (cases e)
      case (EEnum y)
      have "x \<in> set (set_at (owner_step e m) v)
          \<longleftrightarrow> x \<in> set (set_at m v) \<or> pe_name y = x \<and> v \<in> pev_name ` set (pe_values y)"
        using EEnum by (auto simp: set_at_fold_add)
      then show ?thesis using EEnum by (auto simp: Cons.IH simp del: owner_step_simps)
    qed (simp add: Cons.IH)
  qed simp
  from this [of "[]"] show ?thesis by (simp add: value_owners_def)
qed

lemma clash_step_filled: "filled m \<Longrightarrow> filled (clash_step s m)"
  unfolding clash_step_def by (intro filled_fold filled_add_to)

lemma clashes_filled: "filled (clashes es)"
  unfolding clashes_def by (intro filled_fold clash_step_filled) simp

lemma set_at_clash_step:
  "b \<in> set (set_at (clash_step s m) a) \<longleftrightarrow> b \<in> set (set_at m a) \<or> a \<in> set s \<and> b \<in> set s \<and> a \<noteq> b"
proof -
  have "b \<in> set (set_at (fold (\<lambda>a. fold (\<lambda>b. add_to a b) [b \<leftarrow> s. b \<noteq> a]) xs m) a)
      \<longleftrightarrow> b \<in> set (set_at m a) \<or> a \<in> set xs \<and> b \<in> set s \<and> a \<noteq> b" for xs
    by (induction xs arbitrary: m)
       (auto simp: set_at_fold_add [where f = "\<lambda>_. c" and g = "\<lambda>b. b" for c, simplified])
  then show ?thesis by (simp add: clash_step_def)
qed

lemma set_at_clashes:
  "b \<in> set (set_at (clashes es) a)
   \<longleftrightarrow> a \<noteq> b \<and> (\<exists>v. a \<in> set (set_at (value_owners es) v) \<and> b \<in> set (set_at (value_owners es) v))"
proof -
  let ?m = "value_owners es"
  have "b \<in> set (set_at (fold clash_step ss m) a) \<longleftrightarrow> b \<in> set (set_at m a)
      \<or> (\<exists>s \<in> set ss. a \<in> set s \<and> b \<in> set s \<and> a \<noteq> b)" for ss m
    by (induction ss arbitrary: m) (auto simp: set_at_clash_step)
  then have "b \<in> set (set_at (clashes es) a)
      \<longleftrightarrow> (\<exists>s \<in> snd ` set ?m. 1 < length s \<and> a \<in> set s \<and> b \<in> set s \<and> a \<noteq> b)"
    by (auto simp: clashes_def)
  also have "\<dots> \<longleftrightarrow> (\<exists>s \<in> snd ` set ?m. a \<in> set s \<and> b \<in> set s \<and> a \<noteq> b)"
  proof -
    have "1 < length s" if "a \<in> set s" "b \<in> set s" "a \<noteq> b" for s
      using that by (cases s; cases "tl s") auto
    then show ?thesis by blast
  qed
  also have "\<dots> \<longleftrightarrow> a \<noteq> b \<and> (\<exists>v. a \<in> set (set_at ?m v) \<and> b \<in> set (set_at ?m v))"
  proof -
    have "(\<exists>v. set_at ?m v = s) \<longleftrightarrow> s \<in> snd ` set ?m" if "s \<noteq> []" for s
    proof
      assume "s \<in> snd ` set ?m"
      then obtain v where "(v, s) \<in> set ?m" by auto
      then have "map_of ?m v = Some s" using value_owners_filled [of es] by (simp add: filled_def bt_ok_distinct)
      then show "\<exists>v. set_at ?m v = s" by (intro exI [of _ v]) (simp add: set_at_def)
    qed (use that in \<open>force simp: set_at_def split: option.splits dest: map_of_SomeD\<close>)
    then show ?thesis by (metis empty_iff empty_set)
  qed
  finally show ?thesis .
qed

lemma clashes_sym: "b \<in> set (set_at (clashes es) a) \<longleftrightarrow> a \<in> set (set_at (clashes es) b)"
  by (auto simp: set_at_clashes)

lemma clashes_key: "a \<in> fst ` set (clashes es) \<longleftrightarrow> set_at (clashes es) a \<noteq> []"
  by (rule filled_key [OF clashes_filled])


section \<open>The walk of a component\<close>

text \<open>
  The walk visits a set \<open>W\<close> of new nodes: everything on the stack is visited at the end, and so is
  every neighbour of a node of \<open>W\<close>.
\<close>

lemma component_walk_visits:
  "component_walk adj stack visited cluster = (visited', cluster') \<Longrightarrow> bs_ok cluster \<Longrightarrow>
   \<exists>W. set visited' = set visited \<union> W \<and> set cluster' = set cluster \<union> W \<and> bs_ok cluster'
     \<and> W \<inter> set visited = {} \<and> set stack \<subseteq> set visited' \<and> W \<subseteq> set stack \<union> adj_nodes adj
     \<and> (\<forall>n \<in> W. set (set_at adj n) \<subseteq> set visited')"
proof (induction adj stack visited cluster arbitrary: visited' cluster' rule: component_walk.induct)
  case (1 adj visited cluster)
  then show ?case by (intro exI [of _ "{}"]) simp
next
  case (2 adj n stack visited cluster)
  show ?case
  proof (cases "n \<in> set visited")
    case True
    with "2.prems" have "component_walk adj stack visited cluster = (visited', cluster')" by simp
    from "2.IH"(1) [OF True this "2.prems"(2)] obtain W where
      W: "set visited' = set visited \<union> W" "set cluster' = set cluster \<union> W" "bs_ok cluster'"
        "W \<inter> set visited = {}" "set stack \<subseteq> set visited'" "W \<subseteq> set stack \<union> adj_nodes adj"
        "\<forall>n \<in> W. set (set_at adj n) \<subseteq> set visited'" by blast
    have "set (n # stack) \<subseteq> set visited'" using True W(1,5) by simp
    moreover have "W \<subseteq> set (n # stack) \<union> adj_nodes adj" using W(6) by auto
    ultimately show ?thesis using W(1-4,7) by (intro exI [of _ W]) (intro conjI)
  next
    case False
    let ?v = "bs_insert n visited"
    let ?s = "rev [m \<leftarrow> set_at adj n. m \<notin> set ?v] @ stack"
    from False "2.prems"(1) have walk: "component_walk adj ?s ?v (bs_insert n cluster) = (visited', cluster')"
      by (simp add: Let_def)
    have ok: "bs_ok (bs_insert n cluster)" using "2.prems"(2) by (rule bs_ok_insert)
    from "2.IH"(2) [OF False refl walk ok] obtain W where
      W: "set visited' = set ?v \<union> W" "set cluster' = set (bs_insert n cluster) \<union> W" "bs_ok cluster'"
        "W \<inter> set ?v = {}" "set ?s \<subseteq> set visited'" "W \<subseteq> set ?s \<union> adj_nodes adj"
        "\<forall>n \<in> W. set (set_at adj n) \<subseteq> set visited'"
      by (elim exE conjE) (rule that)
    have "set (set_at adj n) \<subseteq> set visited'" using W(1,5) by auto
    moreover have "insert n W \<subseteq> set (n # stack) \<union> adj_nodes adj"
      using W(6) set_at_nodes [of adj n] by auto
    moreover have "set visited' = set visited \<union> insert n W" "set cluster' = set cluster \<union> insert n W"
      using W(1,2) by simp_all
    moreover have "insert n W \<inter> set visited = {}" using W(4) False by simp
    moreover have "set (n # stack) \<subseteq> set visited'" using W(1,5) by simp
    ultimately show ?thesis using W(3,7) by (intro exI [of _ "insert n W"]) (simp only: ball_simps simp_thms)
  qed
qed

lemma keeper_of_mem: "keeper_of refs cluster = Some k \<Longrightarrow> k \<in> set cluster"
proof -
  have "foldl (\<lambda>best x. if outranks refs best x then best else x) n ns \<in> insert n (set ns)" for n ns
    by (induction ns arbitrary: n) auto
  then show "keeper_of refs cluster = Some k \<Longrightarrow> k \<in> set cluster"
    by (auto simp: keeper_of_def split: list.splits)
qed

lemma keeper_of_Some: "cluster \<noteq> [] \<Longrightarrow> \<exists>k. keeper_of refs cluster = Some k"
  by (auto simp: keeper_of_def split: list.split)

section \<open>The plan\<close>

definition moved :: "relocation_plan \<Rightarrow> string set" where
  "moved p = fst ` set (rp_decisions p) \<union> set (rp_prefix_only p)"

lemma fold_schedule:
  "rp_decisions (fold (schedule refs) ns p)
     = rp_decisions p @ map (\<lambda>n. (n, hd (ref_hosts refs n))) [n \<leftarrow> ns. ref_hosts refs n \<noteq> []]"
  "rp_prefix_only (fold (schedule refs) ns p) = rp_prefix_only p @ [n \<leftarrow> ns. ref_hosts refs n = []]"
  "rp_visited (fold (schedule refs) ns p) = rp_visited p"
  by (induction ns arbitrary: p) (auto simp: schedule_def split: list.split)

lemma moved_schedule: "moved (fold (schedule refs) ns p) = moved p \<union> set ns"
  unfolding moved_def fold_schedule by (auto simp: image_Un image_image)

definition plan_ok ::
  "(string, string list) btree \<Rightarrow> (string, string list) btree \<Rightarrow> relocation_plan \<Rightarrow> bool" where
  "plan_ok adj refs p \<longleftrightarrow>
     set (rp_visited p) \<subseteq> fst ` set adj \<and> moved p \<subseteq> set (rp_visited p)
     \<and> (\<forall>a \<in> set (rp_visited p). set (set_at adj a) \<subseteq> set (rp_visited p))
     \<and> (\<forall>a \<in> set (rp_visited p). \<forall>b \<in> set (set_at adj a). a \<in> moved p \<or> b \<in> moved p)
     \<and> distinct (map fst (rp_decisions p))
     \<and> (\<forall>(en, host) \<in> set (rp_decisions p). ref_hosts refs en \<noteq> [] \<and> host = hd (ref_hosts refs en))
     \<and> (\<forall>en \<in> set (rp_prefix_only p). ref_hosts refs en = [])"


lemma plan_step_ok:
  assumes sym: "\<And>a b. b \<in> set (set_at adj a) \<longleftrightarrow> a \<in> set (set_at adj b)"
    and irr: "\<And>a. a \<notin> set (set_at adj a)" and nodes: "adj_nodes adj \<subseteq> fst ` set adj"
    and start: "start \<in> fst ` set adj" and p: "plan_ok adj refs p"
  shows "\<exists>q. plan_step adj refs start (Some p) = Some q \<and> plan_ok adj refs q
     \<and> start \<in> set (rp_visited q) \<and> set (rp_visited p) \<subseteq> set (rp_visited q)"
proof (cases "start \<in> set (rp_visited p)")
  case True
  then show ?thesis using p by (simp add: plan_step_def)
next
  case False
  obtain visited cluster where walk: "component_walk adj [start] (rp_visited p) [] = (visited, cluster)"
    by (cases "component_walk adj [start] (rp_visited p) []") simp
  from component_walk_visits [OF walk] obtain W where
    W: "set visited = set (rp_visited p) \<union> W" "set cluster = W" "bs_ok cluster"
      "W \<inter> set (rp_visited p) = {}" "start \<in> set visited" "W \<subseteq> insert start (adj_nodes adj)"
      "\<forall>n \<in> W. set (set_at adj n) \<subseteq> set visited" by auto
  have "cluster \<noteq> []" using W(1,2,5) False by auto
  then obtain k where k: "keeper_of refs cluster = Some k" using keeper_of_Some by blast
  let ?rest = "[e \<leftarrow> cluster. e \<noteq> k]"
  let ?q = "fold (schedule refs) ?rest (p\<lparr>rp_visited := visited\<rparr>)"
  have step: "plan_step adj refs start (Some p) = Some ?q"
    using False by (simp add: plan_step_def walk k del: component_walk.simps)
  have mv: "moved ?q = moved p \<union> (W - {k})"
    unfolding moved_schedule using W(2) by (auto simp: moved_def)
  have closed: "set (set_at adj a) \<subseteq> set (rp_visited p)" if "a \<in> set (rp_visited p)" for a
    using p that by (auto simp: plan_ok_def)
  have apart: "b \<in> W" if "a \<in> W" "b \<in> set (set_at adj a)" for a b
    using that W closed sym [of b a] by blast
  have split: "a \<in> moved ?q \<or> b \<in> moved ?q" if "a \<in> set visited" "b \<in> set (set_at adj a)" for a b
  proof (cases "a \<in> W")
    case True
    with that apart irr have "b \<in> W" "a \<noteq> b" by blast+
    with True show ?thesis unfolding mv by blast
  next
    case False
    then have "a \<in> set (rp_visited p)" using that(1) W(1) by blast
    then have "a \<in> moved p \<or> b \<in> moved p" using p that(2) unfolding plan_ok_def by blast
    then show ?thesis unfolding mv by blast
  qed
  have dist: "distinct (map fst (rp_decisions ?q))"
  proof -
    have "map fst (map (\<lambda>n. (n, hd (ref_hosts refs n))) xs) = xs" for xs by (simp add: comp_def)
    moreover have "distinct cluster" using W(3) by (simp add: strict_sorted_iff)
    moreover have "fst ` set (rp_decisions p) \<inter> W = {}"
      using p W(4) by (auto simp: plan_ok_def moved_def)
    ultimately show ?thesis using p W(2) unfolding fold_schedule by (auto simp: plan_ok_def)
  qed
  have "plan_ok adj refs ?q"
    unfolding plan_ok_def
  proof (intro conjI)
    show "set (rp_visited ?q) \<subseteq> fst ` set adj"
      using p start nodes W(1,6) by (auto simp: plan_ok_def fold_schedule)
    show "moved ?q \<subseteq> set (rp_visited ?q)"
      unfolding mv using p W(1) by (auto simp: plan_ok_def fold_schedule)
    show "\<forall>a \<in> set (rp_visited ?q). set (set_at adj a) \<subseteq> set (rp_visited ?q)"
      using closed W(1,7) by (fastforce simp: fold_schedule)
    show "\<forall>a \<in> set (rp_visited ?q). \<forall>b \<in> set (set_at adj a). a \<in> moved ?q \<or> b \<in> moved ?q"
      using split by (simp add: fold_schedule)
    show "distinct (map fst (rp_decisions ?q))" by (rule dist)
    show "\<forall>(en, host) \<in> set (rp_decisions ?q). ref_hosts refs en \<noteq> [] \<and> host = hd (ref_hosts refs en)"
      using p unfolding fold_schedule plan_ok_def by auto
    show "\<forall>en \<in> set (rp_prefix_only ?q). ref_hosts refs en = []"
      using p unfolding fold_schedule plan_ok_def by auto
  qed
  with step W(1,5) show ?thesis by (auto simp: fold_schedule)
qed

lemma relocation_ok:
  assumes sym: "\<And>a b. b \<in> set (set_at adj a) \<longleftrightarrow> a \<in> set (set_at adj b)"
    and irr: "\<And>a. a \<notin> set (set_at adj a)" and nodes: "adj_nodes adj \<subseteq> fst ` set adj"
  shows "\<exists>p. relocation adj refs = Some p \<and> plan_ok adj refs p \<and> fst ` set adj \<subseteq> set (rp_visited p)"
proof -
  have "\<exists>q. fold (plan_step adj refs) xs (Some p) = Some q \<and> plan_ok adj refs q
      \<and> set xs \<union> set (rp_visited p) \<subseteq> set (rp_visited q)"
    if "set xs \<subseteq> fst ` set adj" "plan_ok adj refs p" for xs p
    using that
  proof (induction xs arbitrary: p)
    case (Cons x xs)
    then obtain q where q: "plan_step adj refs x (Some p) = Some q" "plan_ok adj refs q"
        "x \<in> set (rp_visited q)" "set (rp_visited p) \<subseteq> set (rp_visited q)"
      using plan_step_ok [OF sym irr nodes, of x refs p] by auto
    from Cons.IH [OF _ q(2)] Cons.prems(1) obtain r where
      "fold (plan_step adj refs) xs (Some q) = Some r" "plan_ok adj refs r"
      "set xs \<union> set (rp_visited q) \<subseteq> set (rp_visited r)" by auto
    with q show ?case by (intro exI [of _ r]) auto
  qed simp
  moreover have "plan_ok adj refs \<lparr>rp_visited = [], rp_decisions = [], rp_prefix_only = []\<rparr>"
    by (simp add: plan_ok_def moved_def)
  ultimately show ?thesis unfolding relocation_def by (metis Un_subset_iff image_set order_refl)
qed

lemma clash_nodes: "adj_nodes (clashes es) \<subseteq> fst ` set (clashes es)"
proof
  fix b assume "b \<in> adj_nodes (clashes es)"
  then obtain a s where s: "(a, s) \<in> set (clashes es)" "b \<in> set s" by (auto simp: adj_nodes_def)
  then have "map_of (clashes es) a = Some s" using clashes_filled [of es] by (simp add: filled_def bt_ok_distinct)
  with s have "b \<in> set (set_at (clashes es) a)" by (simp add: set_at_def)
  then have "a \<in> set (set_at (clashes es) b)" by (simp only: clashes_sym)
  then have "set_at (clashes es) b \<noteq> []" by auto
  then show "b \<in> fst ` set (clashes es)" by (simp add: clashes_key)
qed

lemma clash_relocation:
  "\<exists>p. relocation (clashes es) refs = Some p \<and> plan_ok (clashes es) refs p
     \<and> fst ` set (clashes es) \<subseteq> set (rp_visited p)"
  by (rule relocation_ok [OF clashes_sym _ clash_nodes]) (simp add: set_at_clashes)


section \<open>Carrying out the plan\<close>

fun message_names :: "proto_entity list \<Rightarrow> string list" where
  "message_names [] = []"
| "message_names (EMessage m # es) = pm_name m # message_names es"
| "message_names (EEnum x # es) = message_names es"

lemma message_names_iff: "n \<in> set (message_names es) \<longleftrightarrow> (\<exists>m. EMessage m \<in> set es \<and> pm_name m = n)"
  by (induction es rule: message_names.induct) auto

lemma ref_step_simps [simp]:
  "ref_step (EMessage g) m = fold (\<lambda>r. add_to r (pm_name g)) (collect_refs g []) m"
  "ref_step (EEnum x) m = m"
  by (simp_all add: ref_step_def)

lemma set_at_referencers:
  "h \<in> set (ref_hosts (referencers es) r)
   \<longleftrightarrow> (\<exists>m. EMessage m \<in> set es \<and> pm_name m = h \<and> r \<in> set (collect_refs m []))"
proof -
  have "h \<in> set (set_at (fold ref_step es m) r) \<longleftrightarrow> h \<in> set (set_at m r)
      \<or> (\<exists>g. EMessage g \<in> set es \<and> pm_name g = h \<and> r \<in> set (collect_refs g []))" for m
  proof (induction es arbitrary: m)
    case (Cons e es)
    show ?case
    proof (cases e)
      case (EMessage g)
      have "h \<in> set (set_at (ref_step e m) r)
          \<longleftrightarrow> h \<in> set (set_at m r) \<or> pm_name g = h \<and> r \<in> set (collect_refs g [])"
        using EMessage set_at_fold_add [where f = "\<lambda>r. r" and g = "\<lambda>_. pm_name g"] by auto
      then show ?thesis using EMessage by (auto simp: Cons.IH simp del: ref_step_simps)
    qed (simp add: Cons.IH)
  qed simp
  from this [of "[]"] show ?thesis by (simp add: referencers_def)
qed

lemma hosts_are_messages: "set (ref_hosts (referencers es) r) \<subseteq> set (message_names es)"
  by (auto simp: set_at_referencers message_names_iff)

text \<open>What a message becomes under a table of additions.\<close>

definition extended :: "(string, proto_entity list) btree \<Rightarrow> proto_message \<Rightarrow> proto_message" where
  "extended hosts m = (case map_of hosts (pm_name m) of None \<Rightarrow> m | Some adds \<Rightarrow> extend_nested adds m)"

lemma extend_nested_parts [simp]:
  "pm_name (extend_nested adds m) = pm_name m"
  "pm_members (extend_nested adds m) = pm_members m"
  "pm_nested (extend_nested adds m) = pm_nested m @ sort_key entity_name adds"
  by (simp_all add: extend_nested_def split: proto_message.split)

lemma pm_name_extended [simp]: "pm_name (extended hosts m) = pm_name m"
  by (simp add: extended_def split: option.split)

fun with_enums :: "(string, proto_entity list) btree \<Rightarrow> proto_entity \<Rightarrow> proto_entity" where
  "with_enums hosts (EMessage m) = EMessage (extended hosts m)"
| "with_enums hosts (EEnum x) = EEnum x"

lemma entity_name_with_enums [simp]: "entity_name (with_enums hosts e) = entity_name e"
  by (cases e) simp_all

lemma fst_nest_enums:
  "fst (nest_enums (EEnum x # es) hosts) = EEnum x # fst (nest_enums es hosts)"
  "fst (nest_enums (EMessage m # es) hosts) = EMessage (extended hosts m) #
     fst (nest_enums es (if map_of hosts (pm_name m) = None then hosts else bt_remove (pm_name m) hosts))"
  by (auto simp: split_beta extended_def split: option.split)

lemma nest_enums_out:
  assumes "distinct (message_names es)"
  shows "fst (nest_enums es hosts) = map (with_enums hosts) es"
proof -
  have "fst (nest_enums es h) = map (with_enums hosts) es"
    if "distinct (message_names es)" "\<forall>n \<in> set (message_names es). map_of h n = map_of hosts n" for h
    using that
  proof (induction es arbitrary: h rule: message_names.induct)
    case (2 m es)
    let ?h = "if map_of h (pm_name m) = None then h else bt_remove (pm_name m) h"
    from 2 have "\<forall>n \<in> set (message_names es). map_of ?h n = map_of hosts n" by auto
    with 2 have "fst (nest_enums es ?h) = map (with_enums hosts) es" by simp
    moreover have "extended h m = extended hosts m" using 2 by (simp add: extended_def)
    ultimately show ?case by (simp only: fst_nest_enums list.map with_enums.simps)
  next
    case (3 x es)
    then show ?case by (simp only: fst_nest_enums list.map with_enums.simps message_names.simps)
  qed simp
  from this [OF assms, of hosts] show ?thesis by simp
qed

lemma nest_enums_left:
  "map_of (snd (nest_enums es hosts)) n = (if n \<in> set (message_names es) then None else map_of hosts n)"
proof (induction es arbitrary: hosts rule: message_names.induct)
  case (2 m es)
  then show ?case by (cases "map_of hosts (pm_name m)") (auto simp: split_beta)
qed (auto simp: split_beta)


lemma bt_ok_nest_left: "bt_ok hosts \<Longrightarrow> bt_ok (snd (nest_enums es hosts))"
  by (induction es hosts rule: nest_enums.induct) (auto simp: split_beta split: option.split)

text \<open>The table of additions holds the taken enum of every decision.\<close>

lemma map_of_host_step:
  "host_step (en, host) (taken, hosts) = (case map_of taken en of None \<Rightarrow> (taken, hosts)
     | Some ent \<Rightarrow> (bt_remove en taken, bt_insert host (set_at hosts host @ [ent]) hosts))"
  by (simp add: host_step_def)

lemma by_host_member:
  assumes "distinct (map fst ds)"
  shows "ent \<in> set (set_at (by_host ds taken) h) \<longleftrightarrow> (\<exists>en. (en, h) \<in> set ds \<and> map_of taken en = Some ent)"
    and "fst ` set (by_host ds taken) \<subseteq> snd ` set ds" and "bt_ok (by_host ds taken)"
proof -
  have step: "(ent \<in> set (set_at (snd (fold host_step ds (t, hosts))) h)
        \<longleftrightarrow> ent \<in> set (set_at hosts h) \<or> (\<exists>en. (en, h) \<in> set ds \<and> map_of taken en = Some ent))
      \<and> fst ` set (snd (fold host_step ds (t, hosts))) \<subseteq> fst ` set hosts \<union> snd ` set ds
      \<and> bt_ok (snd (fold host_step ds (t, hosts)))"
    if "distinct (map fst ds)" "\<forall>en \<in> fst ` set ds. map_of t en = map_of taken en" "bt_ok hosts" for t hosts
    using that
  proof (induction ds arbitrary: t hosts)
    case (Cons d ds)
    obtain en host where d: "d = (en, host)" by (cases d)
    show ?case
    proof (cases "map_of t en")
      case None
      have f: "fold host_step (d # ds) (t, hosts) = fold host_step ds (t, hosts)"
        using None d by (simp add: map_of_host_step)
      have "map_of taken en = None" using Cons.prems(2) None d by simp
      moreover have "(ent \<in> set (set_at (snd (fold host_step ds (t, hosts))) h)
          \<longleftrightarrow> ent \<in> set (set_at hosts h) \<or> (\<exists>en. (en, h) \<in> set ds \<and> map_of taken en = Some ent))
        \<and> fst ` set (snd (fold host_step ds (t, hosts))) \<subseteq> fst ` set hosts \<union> snd ` set ds
        \<and> bt_ok (snd (fold host_step ds (t, hosts)))"
        using Cons.IH [of t hosts] Cons.prems by simp
      ultimately show ?thesis unfolding f using d by auto
    next
      case (Some x)
      let ?t = "bt_remove en t" and ?h = "bt_insert host (set_at hosts host @ [x]) hosts"
      have f: "fold host_step (d # ds) (t, hosts) = fold host_step ds (?t, ?h)"
        using Some d by (simp add: map_of_host_step)
      have "\<forall>en' \<in> fst ` set ds. map_of ?t en' = map_of taken en'" using Cons.prems d by force
      moreover have "bt_ok ?h" using Cons.prems(3) by (rule bt_ok_insert)
      ultimately have IH: "(ent \<in> set (set_at (snd (fold host_step ds (?t, ?h))) h)
          \<longleftrightarrow> ent \<in> set (set_at ?h h) \<or> (\<exists>en. (en, h) \<in> set ds \<and> map_of taken en = Some ent))
        \<and> fst ` set (snd (fold host_step ds (?t, ?h))) \<subseteq> fst ` set ?h \<union> snd ` set ds
        \<and> bt_ok (snd (fold host_step ds (?t, ?h)))"
        using Cons.IH [of ?t ?h] Cons.prems(1) by simp
      have tk: "map_of taken en = Some x" using Cons.prems(2) Some d by simp
      have at: "set_at ?h h = (if h = host then set_at hosts host @ [x] else set_at hosts h)"
        by (simp add: set_at_def)
      have keys: "fst ` set ?h \<subseteq> insert host (fst ` set hosts)" by (auto simp: bt_insert_def)
      let ?F = "snd (fold host_step ds (?t, ?h))"
      have "ent \<in> set (set_at ?F h)
          \<longleftrightarrow> ent \<in> set (set_at hosts h) \<or> (\<exists>en. (en, h) \<in> set (d # ds) \<and> map_of taken en = Some ent)"
        using IH [THEN conjunct1] tk d unfolding at by (auto split: if_splits)
      moreover have "fst ` set ?F \<subseteq> fst ` set hosts \<union> snd ` set (d # ds)"
      proof -
        have "fst ` set ?h \<union> snd ` set ds \<subseteq> fst ` set hosts \<union> snd ` set (d # ds)"
        proof -
          have "snd ` set (d # ds) = insert host (snd ` set ds)" using d by simp
          with keys show ?thesis by blast
        qed
        with IH show ?thesis by blast
      qed
      ultimately show ?thesis unfolding f using IH by blast
    qed
  qed simp
  from step [OF assms, of taken "[]"]
  show "ent \<in> set (set_at (by_host ds taken) h) \<longleftrightarrow> (\<exists>en. (en, h) \<in> set ds \<and> map_of taken en = Some ent)"
    and "fst ` set (by_host ds taken) \<subseteq> snd ` set ds" and "bt_ok (by_host ds taken)"
    by (simp_all add: by_host_def)
qed

lemma map_of_taken:
  assumes "distinct (map entity_name es)"
  shows "map_of (taken_of rel es) n = Some e \<longleftrightarrow> e \<in> set es \<and> is_taken rel e \<and> entity_name e = n"
proof -
  have "map_of (fold (\<lambda>e m. if is_taken rel e then bt_insert (entity_name e) e m else m) es m) n = Some e
      \<longleftrightarrow> e \<in> set es \<and> is_taken rel e \<and> entity_name e = n
        \<or> map_of m n = Some e \<and> n \<notin> entity_name ` {g \<in> set es. is_taken rel g}" for m
    using assms
  proof (induction es arbitrary: m)
    case (Cons g es)
    then have IH: "\<And>m. map_of (fold (\<lambda>e m. if is_taken rel e then bt_insert (entity_name e) e m else m) es m) n = Some e
      \<longleftrightarrow> e \<in> set es \<and> is_taken rel e \<and> entity_name e = n
        \<or> map_of m n = Some e \<and> n \<notin> entity_name ` {g \<in> set es. is_taken rel g}" by simp
    have fresh: "entity_name g \<notin> entity_name ` set es" using Cons.prems by simp
    show ?case
    proof (cases "is_taken rel g")
      case True
      then have "map_of (fold (\<lambda>e m. if is_taken rel e then bt_insert (entity_name e) e m else m) (g # es) m) n = Some e
          \<longleftrightarrow> e \<in> set es \<and> is_taken rel e \<and> entity_name e = n
            \<or> (if entity_name g = n then g = e else map_of m n = Some e) \<and> n \<notin> entity_name ` {g \<in> set es. is_taken rel g}"
        by (simp add: IH)
      with True fresh show ?thesis by auto
    next
      case False
      then show ?thesis by (auto simp: IH)
    qed
  qed simp
  from this [of "[]"] show ?thesis by (simp add: taken_of_def)
qed


section \<open>The document after the pass\<close>

abbreviation additions :: "relocation_plan \<Rightarrow> proto_entity list \<Rightarrow> (string, proto_entity list) btree" where
  "additions p es \<equiv> by_host (rp_decisions p) (taken_of (map fst (rp_decisions p)) es)"

definition revised :: "(string, string list) btree \<Rightarrow> relocation_plan \<Rightarrow> proto_entity \<Rightarrow> proto_entity" where
  "revised refs p e = (let q = qualified_names refs (rp_decisions p);
     e' = prefix_values (rp_prefix_only p) e in if q = [] then e' else rewrite_nested q e')"

lemma pm_name_rewrite [simp]: "pm_name (rewrite_refs q m) = pm_name m"
  by (cases m) simp

lemma rewrite_name: "entity_name (rewrite_nested q e) = entity_name e"
  by (cases e) simp_all

lemma revised_name [simp]: "entity_name (revised refs p e) = entity_name e"
  by (cases e) (simp_all add: revised_def Let_def rewrite_name prefix_values_def)

lemma revised_kinds:
  "(\<exists>m'. revised refs p (EMessage m) = EMessage m' \<and> pm_name m' = pm_name m)"
  "(\<exists>x'. revised refs p (EEnum x) = EEnum x' \<and> pe_name x' = pe_name x)"
proof -
  show "\<exists>m'. revised refs p (EMessage m) = EMessage m' \<and> pm_name m' = pm_name m"
    using revised_name [of refs p "EMessage m"] by (auto simp: revised_def prefix_values_def Let_def)
  show "\<exists>x'. revised refs p (EEnum x) = EEnum x' \<and> pe_name x' = pe_name x"
    using revised_name [of refs p "EEnum x"] by (auto simp: revised_def prefix_values_def Let_def)
qed

lemma message_names_revised: "message_names (map (revised refs p) es) = message_names es"
proof (induction es rule: message_names.induct)
  case (2 m es)
  then show ?case using revised_kinds(1) [of refs p m] by auto
next
  case (3 x es)
  then show ?case using revised_kinds(2) [of refs p x] by auto
qed simp

lemma message_names_filter:
  "set (message_names [e \<leftarrow> es. \<not> is_taken rel e]) = set (message_names es)"
  by (auto simp: message_names_iff is_taken_def)

lemma distinct_message_names: "distinct (map entity_name es) \<Longrightarrow> distinct (message_names es)"
proof (induction es rule: message_names.induct)
  case (2 m es)
  have "set (message_names es) \<subseteq> entity_name ` set es" by (force simp: message_names_iff)
  with 2 show ?case by auto
qed auto

lemma apply_plan_out:
  assumes "distinct (map entity_name es)" "plan_ok adj (referencers es) p"
  shows "apply_plan (referencers es) p es
       = map (\<lambda>e. with_enums (additions p es) (revised (referencers es) p e))
           [e \<leftarrow> es. \<not> is_taken (map fst (rp_decisions p)) e]"
proof -
  let ?refs = "referencers es" and ?rel = "map fst (rp_decisions p)" and ?A = "additions p es"
  let ?kept = "[e \<leftarrow> es. \<not> is_taken ?rel e]"
  let ?rev = "map (revised ?refs p) ?kept"
  let ?q = "qualified_names ?refs (rp_decisions p)"
  have rev: "(if ?q = [] then map (prefix_values (rp_prefix_only p)) ?kept
      else map (rewrite_nested ?q) (map (prefix_values (rp_prefix_only p)) ?kept)) = ?rev"
    by (simp add: revised_def Let_def comp_def)
  have dist: "distinct (map fst (rp_decisions p))" using assms(2) by (simp add: plan_ok_def)
  have names: "set (message_names ?rev) = set (message_names es)"
    by (simp only: message_names_revised message_names_filter)
  have "distinct (message_names ?rev)"
    using assms(1) by (simp add: message_names_revised distinct_message_names distinct_map_filter)
  then have out: "fst (nest_enums ?rev ?A) = map (with_enums ?A) ?rev" by (rule nest_enums_out)
  have "fst ` set ?A \<subseteq> set (message_names es)"
  proof -
    have "host \<in> set (message_names es)" if "(en, host) \<in> set (rp_decisions p)" for en host
    proof -
      from assms(2) that have "ref_hosts ?refs en \<noteq> []" "host = hd (ref_hosts ?refs en)"
        by (auto simp: plan_ok_def)
      then show ?thesis using hosts_are_messages [of es en] by (metis hd_in_set subsetD)
    qed
    then have "snd ` set (rp_decisions p) \<subseteq> set (message_names es)" by auto
    with by_host_member(2) [OF dist] show ?thesis by blast
  qed
  then have "map_of (snd (nest_enums ?rev ?A)) n = None" for n
    by (auto simp: nest_enums_left names map_of_eq_None_iff)
  then have left: "snd (nest_enums ?rev ?A) = []"
    by (metis map_of_eq_empty_iff ext)
  show ?thesis
    unfolding apply_plan_def Let_def rev
    using out left by (cases "nest_enums ?rev ?A") (simp add: comp_def)
qed


lemma relocate_result:
  assumes "distinct (map entity_name es)" "clashes es \<noteq> []"
  obtains p where "relocate_colliding_enums es =
      Some (map (\<lambda>e. with_enums (additions p es) (revised (referencers es) p e))
              [e \<leftarrow> es. \<not> is_taken (map fst (rp_decisions p)) e])"
    and "plan_ok (clashes es) (referencers es) p" and "fst ` set (clashes es) \<subseteq> set (rp_visited p)"
proof -
  from clash_relocation [of es "referencers es"] obtain p where
    p: "relocation (clashes es) (referencers es) = Some p" "plan_ok (clashes es) (referencers es) p"
      "fst ` set (clashes es) \<subseteq> set (rp_visited p)" by blast
  have "relocate_colliding_enums es = Some (apply_plan (referencers es) p es)"
    using assms(2) p(1) by (simp add: relocate_colliding_enums_def Let_def)
  with apply_plan_out [OF assms(1) p(2)] p(2,3) that show ?thesis by simp
qed

lemma dedup_distinct: "distinct (map entity_name (dedup_top_level dbg es))"
  using dedup_increasing [of dbg es] by (simp add: strict_sorted_iff)

text \<open>A top-level enum of the result is an unmoved one, its values prefixed where nobody mentions it.\<close>

lemma revised_enum:
  "revised refs p (EEnum x) = prefix_values (rp_prefix_only p) (EEnum x)"
  by (simp add: revised_def Let_def prefix_values_def)

lemma out_enum_iff:
  "EEnum y \<in> set (map (\<lambda>e. with_enums A (revised refs p e)) es)
   \<longleftrightarrow> (\<exists>x. EEnum x \<in> set es \<and> EEnum y = prefix_values (rp_prefix_only p) (EEnum x))"
proof
  assume "EEnum y \<in> set (map (\<lambda>e. with_enums A (revised refs p e)) es)"
  then obtain e where e: "e \<in> set es" "EEnum y = with_enums A (revised refs p e)" by auto
  show "\<exists>x. EEnum x \<in> set es \<and> EEnum y = prefix_values (rp_prefix_only p) (EEnum x)"
  proof (cases e)
    case (EMessage m)
    with e(2) revised_kinds(1) [of refs p m] show ?thesis by auto
  next
    case (EEnum x)
    with e revised_kinds(2) [of refs p x] show ?thesis by (auto simp: revised_enum)
  qed
next
  assume "\<exists>x. EEnum x \<in> set es \<and> EEnum y = prefix_values (rp_prefix_only p) (EEnum x)"
  then obtain x where x: "EEnum x \<in> set es" "EEnum y = prefix_values (rp_prefix_only p) (EEnum x)" by blast
  then have "EEnum y = with_enums A (revised refs p (EEnum x))" by (simp add: revised_enum flip: x(2))
  with x(1) show "EEnum y \<in> set (map (\<lambda>e. with_enums A (revised refs p e)) es)" by auto
qed

definition top_enums :: "proto_entity list \<Rightarrow> proto_enum list" where
  "top_enums es = concat (map (\<lambda>e. case e of EEnum x \<Rightarrow> [x] | EMessage _ \<Rightarrow> []) es)"

lemma top_enums_iff: "x \<in> set (top_enums es) \<longleftrightarrow> EEnum x \<in> set es"
  by (force simp: top_enums_def split: proto_entity.splits)

definition value_names :: "proto_enum \<Rightarrow> string set" where
  "value_names x = pev_name ` set (pe_values x)"

definition clash_free :: "proto_entity list \<Rightarrow> bool" where
  \<comment> \<open>no two enums at package scope declare the same value name\<close>
  "clash_free es \<longleftrightarrow> (\<forall>x \<in> set (top_enums es). \<forall>y \<in> set (top_enums es).
     x = y \<or> value_names x \<inter> value_names y = {})"

definition homeless :: "proto_entity list \<Rightarrow> proto_enum \<Rightarrow> bool" where
  \<comment> \<open>clashes with another top-level enum, and no top-level message mentions it\<close>
  "homeless es x \<longleftrightarrow> pe_name x \<in> set (map fst (clashes es)) \<and> ref_hosts (referencers es) (pe_name x) = []"

definition prefixed_names :: "proto_enum \<Rightarrow> string set" where
  "prefixed_names x = (\<lambda>v. pe_name x @ ''_'' @ v) ` value_names x"

definition prefixes_fresh :: "proto_entity list \<Rightarrow> bool" where
  \<comment> \<open>a homeless enum's prefixed values are no other enum's values, prefixed or not\<close>
  "prefixes_fresh es \<longleftrightarrow>
     list_all (\<lambda>x. homeless es x \<longrightarrow>
       list_all (\<lambda>y. x = y \<or> prefixed_names x \<inter> (value_names y \<union> (if homeless es y then prefixed_names y else {})) = {})
         (top_enums es)) (top_enums es)"

lemma prefixes_freshD:
  assumes "prefixes_fresh es" "EEnum x \<in> set es" "EEnum y \<in> set es" "x \<noteq> y" "homeless es x"
  shows "prefixed_names x \<inter> value_names y = {}" and "homeless es y \<Longrightarrow> prefixed_names x \<inter> prefixed_names y = {}"
proof -
  have f: "prefixed_names x \<inter> (value_names y \<union> (if homeless es y then prefixed_names y else {})) = {}"
    using assms unfolding prefixes_fresh_def list_all_iff top_enums_iff [symmetric] by blast
  then show "prefixed_names x \<inter> value_names y = {}" by blast
  show "prefixed_names x \<inter> prefixed_names y = {}" if "homeless es y" using f that by auto
qed

lemma prefix_values_enum:
  assumes "EEnum y = prefix_values ns (EEnum x)"
  shows "pe_name y = pe_name x" and "pe_name x \<notin> set ns \<Longrightarrow> y = x"
    and "pe_name x \<in> set ns \<Longrightarrow> value_names y = prefixed_names x"
  using assms by (auto simp: prefix_values_def value_names_def prefixed_names_def image_image split: if_splits)

lemma clash_of:
  assumes "EEnum x \<in> set es" "EEnum y \<in> set es" "pe_name x \<noteq> pe_name y" "v \<in> value_names x" "v \<in> value_names y"
  shows "pe_name y \<in> set (set_at (clashes es) (pe_name x))" and "pe_name x \<in> fst ` set (clashes es)"
proof -
  show c: "pe_name y \<in> set (set_at (clashes es) (pe_name x))"
    using assms by (auto simp: set_at_clashes set_at_value_owners value_names_def)
  from c have "set_at (clashes es) (pe_name x) \<noteq> []" by auto
  then show "pe_name x \<in> fst ` set (clashes es)" by (simp add: clashes_key)
qed

lemma distinct_named: "distinct (map entity_name es) \<Longrightarrow> e \<in> set es \<Longrightarrow> g \<in> set es \<Longrightarrow> entity_name e = entity_name g \<Longrightarrow> e = g"
  by (simp add: distinct_map inj_on_def)

text \<open>
  C9: After the pass the package scope is free of clashes.  The pass ends without a panic in a document
  whose top-level names are distinct and in which no two top-level enums declare the same value name:
  of the enums that share one, all but one are moved into a message that mentions them, and those no
  message mentions get their values prefixed.  The new names are not looked at again, so they have to be
  fresh (\<open>prefixes_fresh\<close>): no \<open>Enum_VALUE\<close> of such a homeless enum is already a value of another enum, or
  such a new name of one.  Where messages mention every clashing enum there is nothing to be fresh.
  \<open>prefixed_clash\<close> below shows that the proviso is needed.
\<close>

theorem package_scope_clear:
  assumes "prefixes_fresh (dedup_top_level dbg es)"
  shows "\<exists>out. make_protoc_valid dbg es = Some out \<and> clash_free out \<and> distinct (map entity_name out)"
proof (cases "clashes (dedup_top_level dbg es) = []")
  case True
  let ?D = "dedup_top_level dbg es"
  have "clash_free ?D"
    unfolding clash_free_def
  proof (intro ballI)
    fix x y assume "x \<in> set (top_enums ?D)" "y \<in> set (top_enums ?D)"
    then have xy: "EEnum x \<in> set ?D" "EEnum y \<in> set ?D" by (simp_all add: top_enums_iff)
    show "x = y \<or> value_names x \<inter> value_names y = {}"
    proof (cases "pe_name x = pe_name y")
      case True
      with distinct_named [OF dedup_distinct xy] show ?thesis by simp
    next
      case False
      with clash_of(2) [OF xy] True show ?thesis by auto
    qed
  qed
  with True show ?thesis
    by (simp add: make_protoc_valid_def relocate_colliding_enums_def Let_def dedup_distinct)
next
  case False
  let ?D = "dedup_top_level dbg es" and ?refs = "referencers (dedup_top_level dbg es)"
  obtain p where p: "relocate_colliding_enums ?D =
      Some (map (\<lambda>e. with_enums (additions p ?D) (revised ?refs p e))
              [e \<leftarrow> ?D. \<not> is_taken (map fst (rp_decisions p)) e])"
    and ok: "plan_ok (clashes ?D) ?refs p" and all: "fst ` set (clashes ?D) \<subseteq> set (rp_visited p)"
    using relocate_result [OF dedup_distinct False] .
  let ?kept = "[e \<leftarrow> ?D. \<not> is_taken (map fst (rp_decisions p)) e]"
  let ?out = "map (\<lambda>e. with_enums (additions p ?D) (revised ?refs p e)) ?kept"
  have lone: "homeless ?D x" if "pe_name x \<in> set (rp_prefix_only p)" for x
    using ok that unfolding plan_ok_def moved_def homeless_def set_map by blast
  have apart: "value_names x \<inter> value_names y = {}"
    if "EEnum x \<in> set ?D" "EEnum y \<in> set ?D" "pe_name x \<noteq> pe_name y" "pe_name x \<notin> moved p" "pe_name y \<notin> moved p" for x y
    using clash_of [OF that(1-3)] that(4,5) ok all unfolding plan_ok_def by blast
  have "clash_free ?out"
    unfolding clash_free_def
  proof (intro ballI)
    fix x' y' assume "x' \<in> set (top_enums ?out)" "y' \<in> set (top_enums ?out)"
    then obtain x y where k: "EEnum x \<in> set ?kept" "EEnum y \<in> set ?kept"
      and x: "EEnum x' = prefix_values (rp_prefix_only p) (EEnum x)" and y: "EEnum y' = prefix_values (rp_prefix_only p) (EEnum y)"
      unfolding top_enums_iff out_enum_iff by blast
    then have xy: "EEnum x \<in> set ?D" "EEnum y \<in> set ?D" by simp_all
    note made = x y
    note x = prefix_values_enum [OF x] and y = prefix_values_enum [OF y]
    show "x' = y' \<or> value_names x' \<inter> value_names y' = {}"
    proof (cases "pe_name x = pe_name y")
      case True
      with distinct_named [OF dedup_distinct xy] have "x = y" by simp
      then have "EEnum x' = EEnum y'" using made by (simp only:)
      then show ?thesis by simp
    next
      case False
      then have ne: "x \<noteq> y" "y \<noteq> x" by auto
      note f = prefixes_freshD [OF assms xy ne(1)] and g = prefixes_freshD [OF assms xy(2,1) ne(2)]
      consider (old) "pe_name x \<notin> set (rp_prefix_only p)" "pe_name y \<notin> set (rp_prefix_only p)"
        | (left) "pe_name x \<in> set (rp_prefix_only p)" "pe_name y \<notin> set (rp_prefix_only p)"
        | (right) "pe_name x \<notin> set (rp_prefix_only p)" "pe_name y \<in> set (rp_prefix_only p)"
        | (both) "pe_name x \<in> set (rp_prefix_only p)" "pe_name y \<in> set (rp_prefix_only p)" by blast
      then have "value_names x' \<inter> value_names y' = {}"
      proof cases
        case old
        then have "pe_name x \<notin> moved p" "pe_name y \<notin> moved p" using k by (auto simp: moved_def is_taken_def)
        from apart [OF xy False this] show ?thesis using x(2) y(2) old by simp
      next
        case left
        with x(3) y(2) f(1) [OF lone] show ?thesis by simp
      next
        case right
        with x(2) y(3) g(1) [OF lone] show ?thesis by (simp add: Int_commute)
      next
        case both
        with x(3) y(3) f(2) [OF lone lone] show ?thesis by simp
      qed
      then show ?thesis ..
    qed
  qed
  moreover have "distinct (map entity_name ?out)"
  proof -
    have "distinct (map entity_name ?kept)" by (rule distinct_map_filter [OF dedup_distinct])
    moreover have "map entity_name ?out = map entity_name ?kept" by (simp add: comp_def)
    ultimately show ?thesis by (simp only:)
  qed
  ultimately show ?thesis using p by (auto simp: make_protoc_valid_def)
qed


definition sample_clash :: "proto_entity list" where
  "sample_clash =
     [sample_enum ''A'' [''X''], sample_enum ''B'' [''Y'', ''X''],
      EMessage (ProtoMessage ''M'' [sample_ref ''a'' ''A''] []),
      EMessage (ProtoMessage ''N'' [sample_ref ''a'' ''A'', sample_ref ''b'' ''map<string, B>''] [])]"

definition sample_homeless :: "proto_entity list" where
  "sample_homeless = sample_clash @ [sample_enum ''C'' [''X''], sample_enum ''D'' [''X'', ''Z'']]"

lemma package_scope_clear_witness:
  "(\<exists>out. make_protoc_valid entity_name sample_homeless = Some out \<and> clash_free out \<and> distinct (map entity_name out))
   \<and> \<not> clash_free sample_homeless"
proof
  show "\<exists>out. make_protoc_valid entity_name sample_homeless = Some out \<and> clash_free out \<and> distinct (map entity_name out)"
    by (rule package_scope_clear) code_simp
  show "\<not> clash_free sample_homeless" by code_simp
qed

text \<open>
  The scope inside a message is not looked at: of three enums that clash, two can move into the one
  message that mentions them all, where they clash again.
\<close>

lemma same_host_clash:
  "make_protoc_valid entity_name
     [sample_enum ''A'' [''X''], sample_enum ''B'' [''X''], sample_enum ''C'' [''X''],
      EMessage (ProtoMessage ''M'' [sample_ref ''a'' ''A'', sample_ref ''b'' ''B'', sample_ref ''c'' ''C''] [])]
   = Some [sample_enum ''A'' [''X''],
      EMessage (ProtoMessage ''M'' [sample_ref ''a'' ''A'', sample_ref ''b'' ''B'', sample_ref ''c'' ''C'']
        [sample_enum ''B'' [''X''], sample_enum ''C'' [''X'']])]"
  by code_simp

text \<open>
  Nor is a prefixed value looked at again: the new name of an enum that nobody mentions can be the name
  of another's value.
\<close>

lemma prefixed_clash:
  "map_option clash_free (make_protoc_valid entity_name
     [sample_enum ''A'' [''X''], sample_enum ''B'' [''X''], sample_enum ''C'' [''B_X'']]) = Some False"
  by code_simp

section \<open>Where a moved enum is found\<close>

lemma moved_enum_home:
  assumes "distinct (map entity_name es)" "plan_ok adj (referencers es) p"
    and "EEnum x \<in> set es" "is_taken (map fst (rp_decisions p)) (EEnum x)"
  shows "\<exists>host m. (pe_name x, host) \<in> set (rp_decisions p) \<and> EMessage m \<in> set es \<and> pm_name m = host
     \<and> EEnum x \<in> set (set_at (additions p es) host)"
proof -
  from assms(4) obtain host where d: "(pe_name x, host) \<in> set (rp_decisions p)"
    by (auto simp: is_taken_def)
  with assms(2) have "ref_hosts (referencers es) (pe_name x) \<noteq> []"
    "host = hd (ref_hosts (referencers es) (pe_name x))" by (auto simp: plan_ok_def)
  then have "host \<in> set (message_names es)" using hosts_are_messages [of es "pe_name x"] by (metis hd_in_set subsetD)
  then obtain m where m: "EMessage m \<in> set es" "pm_name m = host" by (auto simp: message_names_iff)
  have dist: "distinct (map fst (rp_decisions p))" using assms(2) by (simp add: plan_ok_def)
  have "map_of (taken_of (map fst (rp_decisions p)) es) (pe_name x) = Some (EEnum x)"
    using map_of_taken [OF assms(1)] assms(3,4) by simp
  with by_host_member(1) [OF dist] d have "EEnum x \<in> set (set_at (additions p es) host)" by blast
  with d m show ?thesis by blast
qed

lemma extended_nested: "set (pm_nested (extended hosts m)) = set (pm_nested m) \<union> set (set_at hosts (pm_name m))"
  by (simp add: extended_def set_at_def split: option.split)

text \<open>
  C14: No declaration is lost: an enum of the deduplicated document is still at package scope, unchanged
  or -- when no message mentions it -- with its values prefixed, or it is nested, unchanged, in a
  message that mentions it.
\<close>

theorem moved_enums_keep_a_home:
  assumes "make_protoc_valid dbg es = Some out" "EEnum x \<in> set (dedup_top_level dbg es)"
  shows "EEnum x \<in> set out
    \<or> prefix_values [pe_name x] (EEnum x) \<in> set out \<and> ref_hosts (referencers (dedup_top_level dbg es)) (pe_name x) = []
    \<or> (\<exists>m. EMessage m \<in> set out \<and> EEnum x \<in> set (pm_nested m)
          \<and> pm_name m \<in> set (ref_hosts (referencers (dedup_top_level dbg es)) (pe_name x)))"
proof (cases "clashes (dedup_top_level dbg es) = []")
  case True
  with assms show ?thesis by (simp add: make_protoc_valid_def relocate_colliding_enums_def)
next
  case False
  let ?D = "dedup_top_level dbg es" and ?refs = "referencers (dedup_top_level dbg es)"
  obtain p where p: "relocate_colliding_enums ?D =
      Some (map (\<lambda>e. with_enums (additions p ?D) (revised ?refs p e))
              [e \<leftarrow> ?D. \<not> is_taken (map fst (rp_decisions p)) e])"
    and ok: "plan_ok (clashes ?D) ?refs p"
    using relocate_result [OF dedup_distinct False] .
  let ?A = "additions p ?D" and ?kept = "[e \<leftarrow> ?D. \<not> is_taken (map fst (rp_decisions p)) e]"
  have out: "out = map (\<lambda>e. with_enums ?A (revised ?refs p e)) ?kept"
    using assms(1) p by (simp add: make_protoc_valid_def)
  show ?thesis
  proof (cases "is_taken (map fst (rp_decisions p)) (EEnum x)")
    case True
    from moved_enum_home [OF dedup_distinct ok assms(2) True] obtain m where
      m: "(pe_name x, pm_name m) \<in> set (rp_decisions p)" "EMessage m \<in> set ?D"
        "EEnum x \<in> set (set_at ?A (pm_name m))" by blast
    obtain m' where m': "revised ?refs p (EMessage m) = EMessage m'" "pm_name m' = pm_name m"
      using revised_kinds(1) by blast
    have kept: "EMessage m \<in> set ?kept" using m(2) by (simp add: is_taken_def)
    have "with_enums ?A (revised ?refs p (EMessage m)) \<in> set out"
      unfolding out set_map by (rule imageI [OF kept])
    then have "EMessage (extended ?A m') \<in> set out" by (simp only: m' with_enums.simps)
    moreover have "EEnum x \<in> set (pm_nested (extended ?A m'))" using m(3) m'(2) by (simp add: extended_nested)
    moreover have "pm_name (extended ?A m') \<in> set (ref_hosts ?refs (pe_name x))"
      using ok m(1) m'(2) by (auto simp: plan_ok_def)
    ultimately show ?thesis by blast
  next
    case False
    then have kept: "EEnum x \<in> set ?kept" using assms(2) by simp
    obtain y where y: "EEnum y = prefix_values (rp_prefix_only p) (EEnum x)"
      by (cases "pe_name x \<in> set (rp_prefix_only p)") (auto simp: prefix_values_def)
    have "EEnum y \<in> set out" unfolding out out_enum_iff using kept y by blast
    moreover have "prefix_values (rp_prefix_only p) (EEnum x)
        = (if pe_name x \<in> set (rp_prefix_only p) then prefix_values [pe_name x] (EEnum x) else EEnum x)"
      by (simp add: prefix_values_def)
    moreover have "ref_hosts ?refs (pe_name x) = []" if "pe_name x \<in> set (rp_prefix_only p)"
      using ok that by (simp add: plan_ok_def)
    ultimately show ?thesis using y by (auto split: if_splits)
  qed
qed

definition sample_moved :: proto_enum where
  "sample_moved = \<lparr>pe_name = ''B'', pe_values = [\<lparr>pev_name = ''Y'', pev_id = 0\<rparr>, \<lparr>pev_name = ''X'', pev_id = 0\<rparr>]\<rparr>"

abbreviation sample_host :: proto_message where
  "sample_host \<equiv> ProtoMessage ''N'' [sample_ref ''a'' ''A'', sample_ref ''b'' ''map<string, B>''] [EEnum sample_moved]"

abbreviation sample_cleared :: "proto_entity list" where
  "sample_cleared \<equiv> [sample_enum ''A'' [''X''], EMessage (ProtoMessage ''M'' [sample_ref ''a'' ''A''] []), EMessage sample_host]"

lemma moved_enums_keep_a_home_witness:
  "make_protoc_valid entity_name sample_clash = Some sample_cleared
   \<and> (EEnum sample_moved \<in> set sample_cleared
     \<or> prefix_values [''B''] (EEnum sample_moved) \<in> set sample_cleared
         \<and> ref_hosts (referencers (dedup_top_level entity_name sample_clash)) ''B'' = []
     \<or> (\<exists>m. EMessage m \<in> set sample_cleared \<and> EEnum sample_moved \<in> set (pm_nested m)
          \<and> pm_name m \<in> set (ref_hosts (referencers (dedup_top_level entity_name sample_clash)) ''B'')))"
proof -
  have o: "make_protoc_valid entity_name sample_clash = Some sample_cleared" by code_simp
  have b: "EEnum sample_moved \<in> set (dedup_top_level entity_name sample_clash)" by code_simp
  have n: "pe_name sample_moved = ''B''" by (simp add: sample_moved_def)
  show ?thesis using o moved_enums_keep_a_home [OF o b] unfolding n by blast
qed

section \<open>Trimming\<close>

text \<open>The characters of a text: every one but the first begins with a byte that continues nothing.\<close>

definition char_chunk :: "string \<Rightarrow> bool" where
  "char_chunk u \<longleftrightarrow> u \<noteq> [] \<and> list_all is_cont (tl u)"

definition char_chunks :: "string list \<Rightarrow> bool" where
  "char_chunks cs \<longleftrightarrow> list_all char_chunk cs \<and> list_all (\<lambda>u. \<not> is_cont (hd u)) (tl cs)"

lemma utf8_char_chunk: "list_all char_chunk (utf8_chars s)"
  by (induction s rule: utf8_chars.induct) (auto simp: char_chunk_def list_all_iff dest: set_takeWhileD)

lemma utf8_chunk_heads:
  "s = [] \<or> \<not> is_cont (hd s) \<Longrightarrow> list_all (\<lambda>u. \<not> is_cont (hd u)) (utf8_chars s)"
proof (induction s rule: utf8_chars.induct)
  case (2 c s)
  have "dropWhile is_cont s = [] \<or> \<not> is_cont (hd (dropWhile is_cont s))"
    using hd_dropWhile by blast
  from "2.IH" [OF this] "2.prems" show ?case by simp
qed simp

lemma char_chunks_utf8: "char_chunks (utf8_chars s)"
proof (cases s)
  case (Cons c t)
  have "dropWhile is_cont t = [] \<or> \<not> is_cont (hd (dropWhile is_cont t))"
    using hd_dropWhile by blast
  from utf8_chunk_heads [OF this] utf8_char_chunk [of s] Cons show ?thesis by (simp add: char_chunks_def)
qed (simp add: char_chunks_def)

lemma utf8_chars_of_chunks: "char_chunks cs \<Longrightarrow> utf8_chars (concat cs) = cs"
proof (induction cs)
  case (Cons u cs)
  then have parts: "char_chunk u" "list_all char_chunk cs" "list_all (\<lambda>u. \<not> is_cont (hd u)) cs"
    by (simp_all add: char_chunks_def)
  obtain c k where u: "u = c # k" using parts(1) by (cases u) (simp_all add: char_chunk_def)
  with parts(1) have k: "\<And>x. x \<in> set k \<Longrightarrow> is_cont x" by (simp add: char_chunk_def list_all_iff)
  have "concat cs = [] \<or> \<not> is_cont (hd (concat cs))"
  proof (cases cs)
    case (Cons v vs)
    with parts(2,3) show ?thesis by (cases v) (simp_all add: char_chunk_def)
  qed simp
  moreover have "takeWhile P z = [] \<and> dropWhile P z = z" if "z = [] \<or> \<not> P (hd z)" for P and z :: string
    using that by (cases z) simp_all
  ultimately have rest: "takeWhile is_cont (concat cs) = []" "dropWhile is_cont (concat cs) = concat cs"
    by blast+
  have "char_chunks cs" using parts by (cases cs) (simp_all add: char_chunks_def)
  with Cons.IH have IH: "utf8_chars (concat cs) = cs" .
  have "takeWhile is_cont (k @ concat cs) = k" "dropWhile is_cont (k @ concat cs) = concat cs"
    using takeWhile_append2 [of k is_cont "concat cs"] dropWhile_append2 [of k is_cont "concat cs"] k rest
    by simp_all
  with u IH show ?case by simp
qed simp

lemma char_chunks_part: "char_chunks (a @ b @ c) \<Longrightarrow> char_chunks b"
  by (cases a; cases b) (auto simp: char_chunks_def list_all_iff)

definition trim_chunks :: "string list \<Rightarrow> string list" where
  "trim_chunks cs = rev (dropWhile unicode_space (rev (dropWhile unicode_space cs)))"

lemma trim_chunks_idem: "trim_chunks (trim_chunks cs) = trim_chunks cs"
proof -
  let ?d = "dropWhile unicode_space cs"
  have "dropWhile unicode_space (trim_chunks cs) = trim_chunks cs"
  proof (cases "trim_chunks cs")
    case (Cons u us)
    obtain ws where "?d = trim_chunks cs @ ws"
      unfolding trim_chunks_def by (metis rev_append rev_rev_ident takeWhile_dropWhile_id)
    with Cons have "hd ?d = u" "?d \<noteq> []" by simp_all
    then have "\<not> unicode_space u" using hd_dropWhile by metis
    with Cons show ?thesis by simp
  qed simp
  then show ?thesis by (simp add: trim_chunks_def [of "trim_chunks cs"]) (simp add: trim_chunks_def)
qed

lemma trim_chunks_part: "\<exists>a b. cs = a @ trim_chunks cs @ b"
proof -
  have "cs = takeWhile unicode_space cs @ dropWhile unicode_space cs" by simp
  moreover have "\<exists>b. dropWhile unicode_space cs = trim_chunks cs @ b"
    unfolding trim_chunks_def by (metis rev_append rev_rev_ident takeWhile_dropWhile_id)
  ultimately show ?thesis by metis
qed

lemma trim_by_chunks: "trim s = concat (trim_chunks (utf8_chars s))"
  by (simp add: trim_def trim_chunks_def)

lemma utf8_chars_trim: "utf8_chars (trim s) = trim_chunks (utf8_chars s)"
proof -
  obtain a b where "utf8_chars s = a @ trim_chunks (utf8_chars s) @ b" using trim_chunks_part by blast
  then have "char_chunks (trim_chunks (utf8_chars s))" using char_chunks_utf8 [of s] char_chunks_part by metis
  then show ?thesis by (simp add: trim_by_chunks utf8_chars_of_chunks)
qed

lemma trim_idem: "trim (trim s) = trim s"
  by (simp add: trim_by_chunks [of "trim s"] utf8_chars_trim trim_chunks_idem) (simp add: trim_by_chunks)

text \<open>A blank in front is trimmed away, or it is part of the result.\<close>

lemma dropWhile_snoc: "\<not> P u \<Longrightarrow> dropWhile P (xs @ [u]) = dropWhile P xs @ [u]"
  by (induction xs) auto

lemma trim_chunks_first: "\<not> unicode_space u \<Longrightarrow> \<exists>b. trim_chunks (u # us) = u # b"
  by (simp add: trim_chunks_def dropWhile_snoc)

lemma trim_blank:
  assumes "CHR '' '' \<notin> set (trim (CHR '' '' # s))"
  shows "trim s = trim (CHR '' '' # s)"
proof (cases "takeWhile is_cont s = []")
  case True
  then have "dropWhile is_cont s = s" by (cases s) (auto split: if_splits)
  then have "utf8_chars (CHR '' '' # s) = '' '' # utf8_chars s" using True by simp
  moreover have "unicode_space '' ''" by (simp add: unicode_space_def)
  ultimately show ?thesis by (simp add: trim_by_chunks trim_chunks_def)
next
  case False
  let ?u = "CHR '' '' # takeWhile is_cont s"
  have "\<not> unicode_space ?u" using False by (simp add: unicode_space_def)
  from trim_chunks_first [OF this] obtain b where "trim_chunks (utf8_chars (CHR '' '' # s)) = ?u # b"
    by (metis utf8_chars.simps(2))
  then have "CHR '' '' \<in> set (trim (CHR '' '' # s))" by (simp add: trim_by_chunks)
  with assms show ?thesis by contradiction
qed

definition ident_char :: "char \<Rightarrow> bool" where
  "ident_char c \<longleftrightarrow> is_ascii_alphanumeric c \<or> c = CHR ''_'' \<or> c = CHR ''$''"

definition ident_name :: "string \<Rightarrow> bool" where
  "ident_name n \<longleftrightarrow> n \<noteq> [] \<and> list_all ident_char n"

lemma ident_char_cases: "ident_char c \<Longrightarrow> c \<in> set (digit_chars @ upper_letters @ lower_letters @ ''_$'')"
  by (auto simp: ident_char_def is_ascii_alphanumeric_def is_ascii_digit_def is_ascii_uppercase_def
      is_ascii_lowercase_def)

lemma path_char_plain:
  assumes "ident_char c \<or> c = CHR ''.''"
  shows "is_ascii c \<and> \<not> unicode_space [c] \<and> c \<noteq> CHR '' '' \<and> c \<noteq> CHR '','' \<and> c \<noteq> CHR ''<''"
proof -
  have "list_all (\<lambda>c. is_ascii c \<and> \<not> unicode_space [c] \<and> c \<noteq> CHR '' '' \<and> c \<noteq> CHR '','' \<and> c \<noteq> CHR ''<'')
      (digit_chars @ upper_letters @ lower_letters @ ''_$.'')" by code_simp
  with assms ident_char_cases [of c] show ?thesis by (auto simp: list_all_iff)
qed

lemma ident_char_no_dot: "ident_char c \<Longrightarrow> c \<noteq> CHR ''.''"
  by (auto dest!: ident_char_cases simp: digit_chars_def upper_letters_def lower_letters_def)

lemma trim_path:
  assumes "\<forall>c \<in> set r. ident_char c \<or> c = CHR ''.''"
  shows "trim r = r"
proof -
  have chars: "utf8_chars r = map (\<lambda>c. [c]) r" using assms path_char_plain by (intro utf8_chars_ascii) blast
  have "dropWhile unicode_space (map (\<lambda>c. [c]) xs) = map (\<lambda>c. [c]) xs" if "set xs \<subseteq> set r" for xs
    using that assms path_char_plain by (cases xs) auto
  from this [of r] this [of "rev r"] show ?thesis by (simp add: trim_def chars rev_map)
qed


section \<open>Mentions\<close>

text \<open>The type names a field spells: its type, or both sides of its map.\<close>

definition type_mentions :: "string \<Rightarrow> string list" where
  "type_mentions t = (case map_inner t of
     Some i \<Rightarrow> map trim (split_on (\<lambda>c. c = CHR '','') i) | None \<Rightarrow> [t])"

fun message_fields :: "proto_message \<Rightarrow> proto_field list"
  and nested_fields :: "proto_entity \<Rightarrow> proto_field list" where
  "message_fields (ProtoMessage n ms ns) = concat (map member_fields ms) @ concat (map nested_fields ns)"
| "nested_fields (EMessage m) = message_fields m"
| "nested_fields (EEnum e) = []"

definition message_mentions :: "proto_message \<Rightarrow> string list" where
  "message_mentions m = concat (map (\<lambda>f. type_mentions (prf_type f)) (message_fields m))"

lemma rsplit_no_dot: "ident_name n \<Longrightarrow> rsplit_first (\<lambda>c. c = CHR ''.'') n = n"
  using ident_char_no_dot by (intro rsplit_first_no_sep) (auto simp: ident_name_def list_all_iff)

lemma trim_ident: "ident_name n \<Longrightarrow> trim n = n"
  by (rule trim_path) (auto simp: ident_name_def list_all_iff)

lemma mention_is_ref:
  assumes "n \<in> set (type_mentions t)" "ident_name n"
  shows "n \<in> set (type_ref_bases t)"
proof (cases "map_inner t")
  case None
  with assms show ?thesis
    by (simp add: type_mentions_def type_ref_bases_def ref_base_def trim_ident rsplit_no_dot)
next
  case (Some i)
  with assms(1) obtain p where p: "p \<in> set (split_on (\<lambda>c. c = CHR '','') i)" "n = trim p"
    by (auto simp: type_mentions_def)
  then have "ref_base p = n" using assms(2) by (simp add: ref_base_def rsplit_no_dot)
  with p Some show ?thesis by (force simp: type_ref_bases_def)
qed

lemma set_fold_inserts: "set (fold bs_insert xs out) = set xs \<union> set out"
  by (induction xs arbitrary: out) auto

lemma set_collect_fields:
  "set (fold (\<lambda>f. fold bs_insert (type_ref_bases (prf_type f))) fs out)
     = set out \<union> (\<Union>f \<in> set fs. set (type_ref_bases (prf_type f)))"
  by (induction fs arbitrary: out) (auto simp: set_fold_inserts)

lemma set_collect_members:
  "set (fold (\<lambda>m. fold (\<lambda>f. fold bs_insert (type_ref_bases (prf_type f))) (member_fields m)) ms out)
     = set out \<union> (\<Union>f \<in> set (concat (map member_fields ms)). set (type_ref_bases (prf_type f)))"
  by (induction ms arbitrary: out) (auto simp: set_collect_fields)

lemma set_collect_refs:
  "set (collect_refs m out) = set out \<union> (\<Union>f \<in> set (message_fields m). set (type_ref_bases (prf_type f)))"
  "set (collect_nested e out) = set out \<union> (\<Union>f \<in> set (nested_fields e). set (type_ref_bases (prf_type f)))"
proof (induction m out and e out rule: collect_refs_collect_nested.induct)
  case (1 n ms ns out)
  have "set (fold collect_nested xs acc)
      = set acc \<union> (\<Union>f \<in> set (concat (map nested_fields xs)). set (type_ref_bases (prf_type f)))"
    if "set xs \<subseteq> set ns" for xs acc
    using that by (induction xs arbitrary: acc) (auto simp: "1.IH")
  from this [of ns] show ?case by (auto simp: set_collect_members)
qed simp_all

lemma mention_host:
  assumes "EMessage m \<in> set es" "n \<in> set (message_mentions m)" "ident_name n"
  shows "pm_name m \<in> set (ref_hosts (referencers es) n)"
proof -
  from assms(2) obtain f where "f \<in> set (message_fields m)" "n \<in> set (type_mentions (prf_type f))"
    by (auto simp: message_mentions_def)
  then have "n \<in> set (collect_refs m [])" using mention_is_ref [OF _ assms(3)] by (auto simp: set_collect_refs)
  with assms(1) show ?thesis by (auto simp: set_at_referencers)
qed

text \<open>Rewriting a type: what is spelled afterwards is a qualified name, or was spelled before and is kept.\<close>

lemma map_inner_of: "map_inner (''map<'' @ i @ ''>'') = Some i"
  by (simp add: map_inner_def strip_prefix_def starts_with_def ends_with_def butlast_append)

lemma map_inner_plain: "CHR ''<'' \<notin> set t \<Longrightarrow> map_inner t = None"
  by (auto simp: map_inner_def strip_prefix_Some split: option.split)

lemma split_piece_bytes: "\<forall>x \<in> set (split_on P s). \<forall>c \<in> set x. \<not> P c"
  by (induction s) (auto split: list.splits)

lemma split_joined:
  assumes "ps \<noteq> []" "\<forall>p \<in> set ps. CHR '','' \<notin> set p" "x \<in> set (split_on (\<lambda>c. c = CHR '','') (join_with '', '' ps))"
  shows "\<exists>p \<in> set ps. x = p \<or> x = CHR '' '' # p"
  using assms
proof (induction ps rule: induct_list012)
  case (2 p)
  then have "\<forall>c \<in> set p. c \<noteq> CHR '',''" by auto
  with 2 show ?case using split_on_no_sep [of p "\<lambda>c. c = CHR '',''"] by simp
next
  case (3 p p' ps)
  have tail: "split_on (\<lambda>c. c = CHR '','') (CHR '' '' # s)
      = (CHR '' '' # hd (split_on (\<lambda>c. c = CHR '','') s)) # tl (split_on (\<lambda>c. c = CHR '','') s)" for s
    using split_on_nonempty [of "\<lambda>c. c = CHR '',''" s] by (simp split: list.split)
  let ?s = "join_with '', '' (p' # ps)"
  have "split_on (\<lambda>c. c = CHR '','') (join_with '', '' (p # p' # ps))
      = p # split_on (\<lambda>c. c = CHR '','') (CHR '' '' # ?s)"
    using "3.prems"(2) split_on_append_sep [of p "\<lambda>c. c = CHR '',''" "CHR '',''" "CHR '' '' # ?s"] by auto
  with "3.prems"(3) have x: "x = p \<or> x = CHR '' '' # hd (split_on (\<lambda>c. c = CHR '','') ?s)
      \<or> x \<in> set (tl (split_on (\<lambda>c. c = CHR '','') ?s))"
    unfolding tail by simp
  have hd_s: "hd (split_on (\<lambda>c. c = CHR '','') ?s) = p'"
  proof (cases ps)
    case Nil
    moreover have "\<forall>c \<in> set p'. c \<noteq> CHR '',''" using "3.prems"(2) by auto
    ultimately show ?thesis using split_on_no_sep [of p' "\<lambda>c. c = CHR '',''"] by simp
  next
    case (Cons q qs)
    have "\<forall>c \<in> set p'. c \<noteq> CHR '',''" using "3.prems"(2) by auto
    then show ?thesis using Cons
      split_on_append_sep [of p' "\<lambda>c. c = CHR '',''" "CHR '',''" "CHR '' '' # join_with '', '' ps"] by simp
  qed
  from x show ?case
  proof (elim disjE)
    assume "x \<in> set (tl (split_on (\<lambda>c. c = CHR '','') ?s))"
    then have "x \<in> set (split_on (\<lambda>c. c = CHR '','') ?s)"
      using split_on_nonempty by (metis list.set_sel(2))
    with "3.IH"(2) "3.prems"(2) show ?thesis by auto
  qed (use hd_s in auto)
qed simp

definition qualifying :: "(string, string) btree \<Rightarrow> bool" where
  \<comment> \<open>every replacement is a dotted path\<close>
  "qualifying q \<longleftrightarrow> (\<forall>r \<in> ran (map_of q). CHR ''.'' \<in> set r \<and> (\<forall>c \<in> set r. ident_char c \<or> c = CHR ''.''))"

lemma rewrite_mentions:
  assumes "qualifying q" "ident_name n" "n \<in> set (type_mentions (rewrite_type q t))"
  shows "n \<in> set (type_mentions t) \<and> map_of q n = None"
proof -
  have no_dot: "CHR ''.'' \<notin> set n" using assms(2) ident_char_no_dot by (auto simp: ident_name_def list_all_iff)
  have no_blank: "CHR '' '' \<notin> set n" using assms(2) path_char_plain by (auto simp: ident_name_def list_all_iff)
  have path: "CHR ''.'' \<in> set r \<and> trim r = r \<and> CHR '','' \<notin> set r \<and> CHR ''<'' \<notin> set r"
    if "map_of q k = Some r" for k r
  proof -
    from assms(1) that have r: "CHR ''.'' \<in> set r" "\<forall>c \<in> set r. ident_char c \<or> c = CHR ''.''"
      by (auto simp: qualifying_def ran_def)
    with trim_path path_char_plain show ?thesis by blast
  qed
  show ?thesis
  proof (cases "map_of q t")
    case (Some r)
    with path [OF this] assms(3) no_dot show ?thesis
      by (auto simp: rewrite_type_def type_mentions_def map_inner_plain)
  next
    case None
    show ?thesis
    proof (cases "map_inner t")
      case None
      with \<open>map_of q t = None\<close> assms(3) show ?thesis by (simp add: rewrite_type_def type_mentions_def)
    next
      case (Some i)
      let ?new = "\<lambda>p. case map_of q (trim p) of Some r \<Rightarrow> r | None \<Rightarrow> trim p"
      let ?ps = "split_on (\<lambda>c. c = CHR '','') i"
      have new: "rewrite_type q t = ''map<'' @ join_with '', '' (map ?new ?ps) @ ''>''"
        using None Some by (simp add: rewrite_type_def)
      have "n \<in> trim ` set (split_on (\<lambda>c. c = CHR '','') (join_with '', '' (map ?new ?ps)))"
        using assms(3) unfolding new type_mentions_def map_inner_of by simp
      then obtain x where x: "x \<in> set (split_on (\<lambda>c. c = CHR '','') (join_with '', '' (map ?new ?ps)))" "n = trim x"
        by blast
      have "CHR '','' \<notin> set (?new p)" if p: "p \<in> set ?ps" for p
      proof -
        have "set (trim p) \<subseteq> set p"
          using trim_chunks_part [of "utf8_chars p"] concat_utf8_chars [of p]
          by (metis concat_append le_supI1 set_append sup_ge1 sup_ge2 trim_by_chunks order_trans)
        moreover have "CHR '','' \<notin> set p" using p split_piece_bytes [of "\<lambda>c. c = CHR '',''" i] by auto
        ultimately show ?thesis using path [of "trim p"] by (auto split: option.split)
      qed
      then obtain p where p: "p \<in> set ?ps" "x = ?new p \<or> x = CHR '' '' # ?new p"
        using split_joined [OF _ _ x(1)] by auto
      then have n: "n = trim (?new p)" using x(2) no_blank trim_blank by auto
      have "map_of q (trim p) = None"
      proof (rule ccontr)
        assume "map_of q (trim p) \<noteq> None"
        then obtain r where "map_of q (trim p) = Some r" by blast
        with path [OF this] n no_dot show False by simp
      qed
      with n have "n = trim p" "map_of q n = None" by (simp_all add: trim_idem)
      with p(1) Some show ?thesis by (simp add: type_mentions_def)
    qed
  qed
qed


text \<open>The fields of a message are rewritten one by one; the enums it takes in have none.\<close>

lemma member_fields_rewrite: "member_fields (rewrite_member q m) = map (rewrite_field q) (member_fields m)"
  by (cases m) simp_all

lemma message_fields_rewrite:
  "message_fields (rewrite_refs q m) = map (rewrite_field q) (message_fields m)"
  "nested_fields (rewrite_nested q e) = map (rewrite_field q) (nested_fields e)"
proof (induction m and e rule: message_fields_nested_fields.induct)
  case (1 n ms ns)
  have "map (nested_fields \<circ> rewrite_nested q) ns = map (\<lambda>e. map (rewrite_field q) (nested_fields e)) ns"
    using 1 by simp
  then show ?case by (simp add: map_concat comp_def member_fields_rewrite cong: map_cong)
qed simp_all

lemma mentions_rewrite:
  assumes "qualifying q" "ident_name n" "n \<in> set (message_mentions (rewrite_refs q m))"
  shows "n \<in> set (message_mentions m) \<and> map_of q n = None"
  using assms(3) rewrite_mentions [OF assms(1,2)]
  by (auto simp: message_mentions_def message_fields_rewrite rewrite_field_def)

lemma fields_of_enums: "\<forall>e \<in> set es. \<exists>x. e = EEnum x \<Longrightarrow> concat (map nested_fields es) = []"
  by (induction es) auto

lemma message_fields_extended:
  assumes "\<forall>e \<in> set (set_at A (pm_name m)). \<exists>x. e = EEnum x"
  shows "message_fields (extended A m) = message_fields m"
proof (cases "map_of A (pm_name m)")
  case (Some adds)
  with assms have "\<forall>e \<in> set (sort_key entity_name adds). \<exists>x. e = EEnum x" by (simp add: set_at_def)
  with Some show ?thesis
    by (cases m) (simp add: extended_def extend_nested_def fields_of_enums)
qed (simp add: extended_def)

lemma additions_enums:
  assumes "distinct (map entity_name es)" "distinct (map fst (rp_decisions p))"
    and "e \<in> set (set_at (additions p es) h)"
  shows "\<exists>x. e = EEnum x"
proof -
  from assms(3) by_host_member(1) [OF assms(2)] obtain en where
    "map_of (taken_of (map fst (rp_decisions p)) es) en = Some e" by blast
  then have "is_taken (map fst (rp_decisions p)) e" using map_of_taken [OF assms(1)] by simp
  then show ?thesis by (cases e) (simp_all add: is_taken_def)
qed

lemma clash_key_enum: "a \<in> fst ` set (clashes es) \<Longrightarrow> \<exists>e. EEnum e \<in> set es \<and> pe_name e = a"
proof -
  assume "a \<in> fst ` set (clashes es)"
  then obtain b where "b \<in> set (set_at (clashes es) a)"
    by (cases "set_at (clashes es) a") (auto simp: clashes_key)
  then show ?thesis by (auto simp: set_at_clashes set_at_value_owners)
qed

lemma qualified_entries:
  "set [(en, host @ ''.'' @ en). (en, host) \<leftarrow> ds, 1 < ref_count refs en]
     = {(en, host @ ''.'' @ en) | en host. (en, host) \<in> set ds \<and> 1 < ref_count refs en}"
  by (induction ds) auto

lemma qualified_Some:
  assumes "map_of (qualified_names refs ds) k = Some r"
  shows "\<exists>host. (k, host) \<in> set ds \<and> r = host @ ''.'' @ k"
proof -
  have "(k, r) \<in> set (rev [(en, host @ ''.'' @ en). (en, host) \<leftarrow> ds, 1 < ref_count refs en])"
    using assms unfolding qualified_names_def map_of_bt_of by (rule map_of_SomeD)
  then show ?thesis unfolding set_rev qualified_entries by blast
qed

lemma qualified_None:
  assumes "map_of (qualified_names refs ds) k = None" "(k, host) \<in> set ds"
  shows "ref_count refs k \<le> 1"
proof (rule ccontr)
  assume "\<not> ?thesis"
  with assms(2) have mem: "(k, host @ ''.'' @ k) \<in> set (rev [(en, host @ ''.'' @ en). (en, host) \<leftarrow> ds, 1 < ref_count refs en])"
    unfolding set_rev qualified_entries by auto
  have "k \<in> fst ` set (rev [(en, host @ ''.'' @ en). (en, host) \<leftarrow> ds, 1 < ref_count refs en])"
    using imageI [OF mem, of fst] by (simp only: fst_conv)
  with assms(1) show False unfolding qualified_names_def map_of_bt_of map_of_eq_None_iff by blast
qed

lemma plan_qualifying:
  assumes "plan_ok (clashes es) (referencers es) p" "\<forall>e \<in> set es. ident_name (entity_name e)"
  shows "qualifying (qualified_names (referencers es) (rp_decisions p))"
  unfolding qualifying_def
proof
  fix r assume "r \<in> ran (map_of (qualified_names (referencers es) (rp_decisions p)))"
  then obtain en where "map_of (qualified_names (referencers es) (rp_decisions p)) en = Some r"
    by (auto simp: ran_def)
  from qualified_Some [OF this] obtain host where d: "(en, host) \<in> set (rp_decisions p)" "r = host @ ''.'' @ en"
    by blast
  have "en \<in> fst ` set (rp_decisions p)" using d(1) by (metis fst_conv image_eqI)
  then have "en \<in> fst ` set (clashes es)"
    using assms(1) unfolding plan_ok_def moved_def by blast
  then obtain x where "EEnum x \<in> set es" "pe_name x = en" using clash_key_enum by blast
  with assms(2) have en: "ident_name en" by force
  have "ref_hosts (referencers es) en \<noteq> [] \<and> host = hd (ref_hosts (referencers es) en)"
    using assms(1) d(1) unfolding plan_ok_def by blast
  then have "host \<in> set (message_names es)" using hosts_are_messages [of es en] by (metis hd_in_set subsetD)
  then obtain m where "EMessage m \<in> set es" "pm_name m = host" by (auto simp: message_names_iff)
  with assms(2) have "ident_name host" by force
  with en d(2) show "CHR ''.'' \<in> set r \<and> (\<forall>c \<in> set r. ident_char c \<or> c = CHR ''.'')"
    by (auto simp: ident_name_def list_all_iff)
qed


text \<open>
  C10: Every bare mention still resolves: where a message of the result spells, in any field of its
  subtree or in a side of a map, the bare name of an enum of the deduplicated document, that name is
  still declared at package scope or the enum is nested in this very message; elsewhere the mentions of
  a moved enum are qualified by its new home.
\<close>

theorem bare_mentions_resolve:
  assumes "make_protoc_valid dbg es = Some out"
    and "\<forall>e \<in> set (dedup_top_level dbg es). ident_name (entity_name e)"
    and "EEnum x \<in> set (dedup_top_level dbg es)" "EMessage m \<in> set out"
    and "pe_name x \<in> set (message_mentions m)"
  shows "pe_name x \<in> entity_name ` set out \<or> EEnum x \<in> set (pm_nested m)"
proof (cases "clashes (dedup_top_level dbg es) = []")
  case True
  with assms(1,3) show ?thesis by (force simp: make_protoc_valid_def relocate_colliding_enums_def)
next
  case False
  let ?D = "dedup_top_level dbg es" and ?refs = "referencers (dedup_top_level dbg es)"
  obtain p where p: "relocate_colliding_enums ?D =
      Some (map (\<lambda>e. with_enums (additions p ?D) (revised ?refs p e))
              [e \<leftarrow> ?D. \<not> is_taken (map fst (rp_decisions p)) e])"
    and ok: "plan_ok (clashes ?D) ?refs p"
    using relocate_result [OF dedup_distinct False] .
  let ?A = "additions p ?D" and ?kept = "[e \<leftarrow> ?D. \<not> is_taken (map fst (rp_decisions p)) e]"
  let ?q = "qualified_names ?refs (rp_decisions p)"
  have out: "out = map (\<lambda>e. with_enums ?A (revised ?refs p e)) ?kept"
    using assms(1) p by (simp add: make_protoc_valid_def)
  have ident: "ident_name (pe_name x)" using assms(2,3) by force
  show ?thesis
  proof (cases "is_taken (map fst (rp_decisions p)) (EEnum x)")
    case False
    then have "EEnum x \<in> set ?kept" using assms(3) by simp
    then have "with_enums ?A (revised ?refs p (EEnum x)) \<in> set out"
      unfolding out set_map by (rule imageI)
    then have "entity_name (with_enums ?A (revised ?refs p (EEnum x))) \<in> entity_name ` set out"
      by (rule imageI)
    then show ?thesis by simp
  next
    case True
    from moved_enum_home [OF dedup_distinct ok assms(3) True] obtain host where
      host: "(pe_name x, host) \<in> set (rp_decisions p)" "EEnum x \<in> set (set_at ?A host)" by blast
    obtain e where e: "e \<in> set ?D" "EMessage m = with_enums ?A (revised ?refs p e)"
      using assms(4) unfolding out by auto
    have "\<exists>m0. e = EMessage m0"
    proof (rule proto_entity.exhaust [of e])
      fix y assume "e = EEnum y"
      with e(2) revised_kinds(2) [of ?refs p y] show ?thesis by auto
    qed blast
    then obtain m0 where m0: "e = EMessage m0" by blast
    obtain m' where m': "revised ?refs p e = EMessage m'" "m = extended ?A m'"
      using e(2) m0 revised_kinds(1) [of ?refs p m0] by auto
    have dist: "distinct (map fst (rp_decisions p))" using ok by (simp add: plan_ok_def)
    have "message_fields m = message_fields m'"
      unfolding m'(2) by (rule message_fields_extended) (use additions_enums [OF dedup_distinct dist] in blast)
    then have in_m': "pe_name x \<in> set (message_mentions m')" using assms(5) by (simp add: message_mentions_def)
    have name: "pm_name m = pm_name m0"
      using m' m0 revised_kinds(1) [of ?refs p m0] by auto
    have before: "pe_name x \<in> set (message_mentions m0) \<and> map_of ?q (pe_name x) = None"
    proof (cases "?q = []")
      case True
      then have "m' = m0" using m'(1) m0 by (simp add: revised_def prefix_values_def)
      with in_m' True show ?thesis by simp
    next
      case False
      then have "m' = rewrite_refs ?q m0" using m'(1) m0 by (simp add: revised_def prefix_values_def Let_def)
      with in_m' mentions_rewrite [OF plan_qualifying [OF ok assms(2)] ident] show ?thesis by simp
    qed
    have "pm_name m0 \<in> set (ref_hosts ?refs (pe_name x))"
      using mention_host [OF _ _ ident] e(1) m0 before by blast
    moreover have "ref_count ?refs (pe_name x) \<le> 1"
      by (rule qualified_None [OF conjunct2 [OF before] host(1)])
    moreover have "host = hd (ref_hosts ?refs (pe_name x))"
      using ok host(1) unfolding plan_ok_def by blast
    ultimately have "host = pm_name m0" by (cases "ref_hosts ?refs (pe_name x)") auto
    then have "EEnum x \<in> set (set_at ?A (pm_name m'))"
      using host(2) name m'(2) by simp
    then show ?thesis unfolding m'(2) by (simp add: extended_nested)
  qed
qed

lemma bare_mentions_resolve_witness:
  "make_protoc_valid entity_name sample_clash = Some sample_cleared
   \<and> pe_name sample_moved \<in> set (message_mentions sample_host)
   \<and> (pe_name sample_moved \<in> entity_name ` set sample_cleared \<or> EEnum sample_moved \<in> set (pm_nested sample_host))"
proof -
  have o: "make_protoc_valid entity_name sample_clash = Some sample_cleared" by code_simp
  have i: "\<forall>e \<in> set (dedup_top_level entity_name sample_clash). ident_name (entity_name e)" by code_simp
  have b: "EEnum sample_moved \<in> set (dedup_top_level entity_name sample_clash)" by code_simp
  have n: "EMessage sample_host \<in> set sample_cleared" by simp
  have m: "pe_name sample_moved \<in> set (message_mentions sample_host)" by code_simp
  show ?thesis using o m bare_mentions_resolve [OF o i b n m] by blast
qed

end
