(* ===== verification/ProtoResolve.thy ===== *)
theory ProtoResolve
  imports ProtoValid ContractDiff
begin

text \<open>
  From what the visitors of a module collect to the protobuf document, \<open>extract_proto_from_modules\<close> of
  \<open>crates/wa-proto/src/extract.rs\<close>: the splice of the \<open>oneof\<close> groups, the identifiers with their
  aliases, members and defaults, the \<open>$\<close>-nesting, the resolution of type references, and the passes of
  \<open>ProtoValid\<close>.  The collected descriptors (\<open>ModuleInfo\<close> as the visitors leave it) are the input; the
  walk of the JavaScript tree is not modelled.  A \<open>HashMap\<close> is an ordered association list that is
  visited in an order the parameter \<open>order\<close> chooses.  The recursion of \<open>build_entity\<close> has fuel, and
  \<open>extraction_ends\<close> shows that the length of the longest identifier is enough.
\<close>

section \<open>Names\<close>

definition NESTING_SEP :: char where "NESTING_SEP = CHR ''$''"
definition SPEC_SUFFIX :: string where "SPEC_SUFFIX = ''Spec''"
definition TYPE_MAP :: string where "TYPE_MAP = ''map''"
definition TYPE_SUFFIX :: string where "TYPE_SUFFIX = ''Type''"
definition FLAG_PACKED :: string where "FLAG_PACKED = ''packed''"
definition FLAG_OPTIONAL :: string where "FLAG_OPTIONAL = ''optional''"
definition FLAG_REPEATED :: string where "FLAG_REPEATED = ''repeated''"
definition INTERNAL_ENUM_MODULE :: string where "INTERNAL_ENUM_MODULE = ''$InternalEnum''"

definition spec_rename :: "string \<Rightarrow> string" where
  "spec_rename n = (if ends_with n SPEC_SUFFIX then take (length n - length SPEC_SUFFIX) n else n)"

definition unnest :: "string \<Rightarrow> string" where
  "unnest n = rsplit_first (\<lambda>c. c = NESTING_SEP) n"

text \<open>What precedes the last separator (\<open>rfind\<close>).\<close>

definition get_nesting :: "string \<Rightarrow> string" where
  "get_nesting n = (if NESTING_SEP \<in> set n then take (length n - length (unnest n) - 1) n else [])"

section \<open>Descriptors\<close>

datatype type_desc =
  DScalar string | DMap type_desc type_desc | DIdentAlias string
| DMemberRef (elem1_is_enum: bool) (ref_obj: "string option") (ref_prop: string) | DUnresolved

record field_desc =
  fd_name :: string
  fd_id :: int
  fd_ty :: type_desc
  fd_flags :: "string list"

datatype member_desc = DField field_desc | DOneOf string "field_desc list"

record proto_ident =
  idt_name :: string
  idt_alias :: "string option"
  idt_enum_values :: "proto_enum_value list option"
  idt_members :: "member_desc list option"
  idt_defaults :: "(string, string) btree"

record module_info =
  mi_cross_refs :: "(string \<times> string) list"
  mi_identifiers :: "(string, proto_ident) btree"
  mi_specs :: "(string \<times> member_desc list) list"
  mi_defaults :: "(string \<times> (string, string) btree) list"
  mi_enum_aliases :: "(string, proto_enum_value list) btree"
  mi_alias_matches :: "(string \<times> string) list"
  mi_ident_order :: "string list"

record nesting_entry =
  ne_indentation :: string
  ne_members :: "string list"

section \<open>The \<open>oneof\<close> groups\<close>

text \<open>Every field in a slot of its own; a group takes the fields it names out of their slots.\<close>

definition index_by_name :: "field_desc list \<Rightarrow> (string, nat) btree" where
  "index_by_name fs = fold (\<lambda>i. bt_insert_new (fd_name (fs ! i)) i) [0..<length fs] []"

fun take_group ::
  "(string, nat) btree \<Rightarrow> string list \<Rightarrow> field_desc option list \<Rightarrow> field_desc list \<times> field_desc option list" where
  "take_group by_name [] slots = ([], slots)"
| "take_group by_name (n # ns) slots =
     (case map_of by_name n of
        None \<Rightarrow> take_group by_name ns slots
      | Some i \<Rightarrow> (case slots ! i of
            None \<Rightarrow> take_group by_name ns slots
          | Some f \<Rightarrow> (let (fs, slots') = take_group by_name ns (slots[i := None]) in (f # fs, slots'))))"

fun take_groups ::
  "(string, nat) btree \<Rightarrow> (string \<times> string list) list \<Rightarrow> field_desc option list
   \<Rightarrow> member_desc list \<times> field_desc option list" where
  "take_groups by_name [] slots = ([], slots)"
| "take_groups by_name ((name, ns) # gs) slots =
     (let (fs, slots') = take_group by_name ns slots;
          (ms, slots'') = take_groups by_name gs slots'
      in (DOneOf name fs # ms, slots''))"

definition splice_oneofs :: "field_desc list \<Rightarrow> (string \<times> string list) list \<Rightarrow> member_desc list" where
  "splice_oneofs fs oneofs =
     (let (groups, slots) = take_groups (index_by_name fs) oneofs (map Some fs)
      in map DField (concat (map (\<lambda>s. case s of None \<Rightarrow> [] | Some f \<Rightarrow> [f]) slots)) @ groups)"

fun desc_fields :: "member_desc \<Rightarrow> field_desc list" where
  "desc_fields (DField f) = [f]"
| "desc_fields (DOneOf n fs) = fs"

section \<open>Resolving types\<close>

type_synonym modules = "(string, module_info) btree"
type_synonym nestings = "(string, nesting_entry) btree"

text \<open>The entries of a map, in the order it is visited in.\<close>

definition visit :: "(string list \<Rightarrow> string list) \<Rightarrow> (string, 'v) btree \<Rightarrow> (string \<times> 'v) list" where
  "visit order m = concat (map (\<lambda>k. case map_of m k of None \<Rightarrow> [] | Some v \<Rightarrow> [(k, v)]) (order (map fst m)))"

definition find_alias :: "(string list \<Rightarrow> string list) \<Rightarrow> (string, proto_ident) btree \<Rightarrow> string \<Rightarrow> (string \<times> proto_ident) option" where
  "find_alias order ids alias = find (\<lambda>(k, v). idt_alias v = Some alias) (visit order ids)"

fun resolve_type :: "(string list \<Rightarrow> string list) \<Rightarrow> module_info \<Rightarrow> modules \<Rightarrow> type_desc \<Rightarrow> string" where
  "resolve_type order info mods (DScalar s) = s"
| "resolve_type order info mods (DMap k v) =
     ''map<'' @ resolve_type order info mods k @ '', '' @ resolve_type order info mods v @ ''>''"
| "resolve_type order info mods (DIdentAlias alias) =
     (case find_alias order (mi_identifiers info) alias of Some (k, v) \<Rightarrow> idt_name v | None \<Rightarrow> alias)"
| "resolve_type order info mods (DMemberRef is_enum obj prop) =
     (if is_enum \<and> str_contains prop TYPE_SUFFIX \<or> str_contains prop SPEC_SUFFIX then spec_rename prop
      else let key = spec_rename prop
           in case find (\<lambda>(alias, _). Some alias = obj) (mi_cross_refs info) of
                Some (_, m) \<Rightarrow>
                  if m \<noteq> INTERNAL_ENUM_MODULE
                     \<and> (case map_of mods m of Some i \<Rightarrow> map_of (mi_identifiers i) key \<noteq> None | None \<Rightarrow> False)
                  then key else key
              | None \<Rightarrow> key)"
| "resolve_type order info mods DUnresolved = ''/*unresolved*/''"

definition qualify_type :: "string \<Rightarrow> string option \<Rightarrow> nestings \<Rightarrow> string" where
  "qualify_type t parent nest =
     (let base = unnest t
      in case map_of nest t of
           Some e \<Rightarrow> if ne_indentation e \<noteq> [] \<and> Some (ne_indentation e) \<noteq> parent
             then replace_char NESTING_SEP ''.'' (ne_indentation e) @ ''.'' @ base else base
         | None \<Rightarrow> base)"

definition build_field ::
  "(string list \<Rightarrow> string list) \<Rightarrow> field_desc \<Rightarrow> string option \<Rightarrow> bool \<Rightarrow> (string, string) btree
   \<Rightarrow> module_info \<Rightarrow> modules \<Rightarrow> nestings \<Rightarrow> proto_field" where
  "build_field order f parent message_member defaults info mods nest =
     (let type_name = qualify_type (resolve_type order info mods (fd_ty f)) parent nest;
          packed = list_ex (\<lambda>l. l = FLAG_PACKED) (fd_flags f);
          kept = [l \<leftarrow> fd_flags f. l \<noteq> FLAG_PACKED];
          flags = (if message_member \<and> kept = [] \<and> \<not> str_contains type_name TYPE_MAP
                   then [FLAG_OPTIONAL] else kept);
          default = (if message_member \<and> \<not> list_ex (\<lambda>l. l = FLAG_REPEATED) flags
                        \<and> \<not> str_contains type_name TYPE_MAP
                     then map_of defaults (fd_name f) else None)
      in \<lparr>prf_name = fd_name f, prf_id = fd_id f, prf_type = type_name, prf_flags = flags,
          prf_packed = packed, prf_default = default\<rparr>)"

fun resolve_member ::
  "(string list \<Rightarrow> string list) \<Rightarrow> string \<Rightarrow> (string, string) btree \<Rightarrow> module_info \<Rightarrow> modules \<Rightarrow> nestings
   \<Rightarrow> member_desc \<Rightarrow> proto_member" where
  "resolve_member order parent defaults info mods nest (DOneOf n fs) =
     MOneOf \<lparr>po_name = n, po_fields = map (\<lambda>f. build_field order f None False [] info mods nest) fs\<rparr>"
| "resolve_member order parent defaults info mods nest (DField f) =
     MField (build_field order f (Some parent) True defaults info mods nest)"


text \<open>
  An entity with its nested ones; the outer \<open>None\<close> is the end of the fuel, the inner one an identifier
  that is neither a message nor an enum.
\<close>

definition child_display :: "string \<Rightarrow> string \<Rightarrow> string" where
  "child_display parent child = (case strip_prefix child (parent @ ''$'') of Some d \<Rightarrow> d | None \<Rightarrow> unnest child)"

definition nested_idents :: "module_info \<Rightarrow> nestings \<Rightarrow> proto_ident \<Rightarrow> (proto_ident \<times> string) list" where
  "nested_idents info nest idt = (case map_of nest (idt_name idt) of
     None \<Rightarrow> []
   | Some e \<Rightarrow> concat (map (\<lambda>key. case map_of (mi_identifiers info) key of
         None \<Rightarrow> [] | Some child \<Rightarrow> [(child, child_display (idt_name idt) key)]) (ne_members e)))"

primrec build_entity ::
  "nat \<Rightarrow> (string list \<Rightarrow> string list) \<Rightarrow> module_info \<Rightarrow> modules \<Rightarrow> nestings \<Rightarrow> proto_ident \<Rightarrow> string
   \<Rightarrow> proto_entity option option" where
  "build_entity 0 order info mods nest idt display = None"
| "build_entity (Suc n) order info mods nest idt display =
     (case idt_members idt of
        Some ms \<Rightarrow>
          map_option (\<lambda>rs. Some (EMessage (ProtoMessage display
              (map (resolve_member order (idt_name idt) (idt_defaults idt) info mods nest) ms)
              (concat (map (\<lambda>r. case r of None \<Rightarrow> [] | Some e \<Rightarrow> [e]) rs)))))
            (those (map (\<lambda>(child, d). build_entity n order info mods nest child d) (nested_idents info nest idt)))
      | None \<Rightarrow> Some (map_option (\<lambda>vs. EEnum \<lparr>pe_name = display, pe_values = vs\<rparr>) (idt_enum_values idt)))"

section \<open>The passes over the modules\<close>

definition blank_ident :: "string \<Rightarrow> proto_ident" where
  "blank_ident key = \<lparr>idt_name = key, idt_alias = None, idt_enum_values = None, idt_members = None, idt_defaults = []\<rparr>"

definition nesting_of :: "nestings \<Rightarrow> string \<Rightarrow> nesting_entry" where
  "nesting_of nest k = (case map_of nest k of Some e \<Rightarrow> e | None \<Rightarrow> \<lparr>ne_indentation = [], ne_members = []\<rparr>)"

definition declare_nesting :: "string \<Rightarrow> nestings \<Rightarrow> nestings" where
  "declare_nesting key nest =
     (let up = get_nesting key;
          nest' = bt_insert key ((nesting_of nest key)\<lparr>ne_indentation := up\<rparr>) nest
      in if up = [] then nest'
         else bt_insert up ((nesting_of nest' up)\<lparr>ne_members := bs_insert key (ne_members (nesting_of nest' up))\<rparr>) nest')"

text \<open>The identifiers in reverse: the first declaration wins.\<close>

definition declare_idents :: "module_info \<Rightarrow> module_info" where
  "declare_idents info = info\<lparr>mi_identifiers :=
     fold (\<lambda>key. bt_insert_new key (blank_ident key)) (rev (mi_ident_order info)) (mi_identifiers info)\<rparr>"

definition build_nestings :: "module_info list \<Rightarrow> nestings" where
  "build_nestings infos = fold (\<lambda>info. fold declare_nesting (rev (mi_ident_order info))) infos []"

definition match_alias :: "(string, proto_enum_value list) btree \<Rightarrow> string \<times> string \<Rightarrow> (string, proto_ident) btree \<Rightarrow> (string, proto_ident) btree" where
  "match_alias enums p ids = (case p of (key, alias) \<Rightarrow>
     (case map_of ids key of None \<Rightarrow> ids
      | Some i \<Rightarrow> bt_insert key (i\<lparr>idt_alias := Some alias, idt_enum_values := map_of enums alias\<rparr>) ids))"

definition match_aliases :: "module_info \<Rightarrow> module_info" where
  "match_aliases info = info\<lparr>mi_alias_matches := [], mi_enum_aliases := [],
     mi_identifiers := fold (match_alias (mi_enum_aliases info)) (mi_alias_matches info) (mi_identifiers info)\<rparr>"

definition update_by_alias ::
  "(string list \<Rightarrow> string list) \<Rightarrow> ('v \<Rightarrow> proto_ident \<Rightarrow> proto_ident) \<Rightarrow> string \<times> 'v \<Rightarrow> (string, proto_ident) btree \<Rightarrow> (string, proto_ident) btree" where
  "update_by_alias order f p ids = (case p of (alias, v) \<Rightarrow>
     (case find_alias order ids alias of None \<Rightarrow> ids | Some (k, i) \<Rightarrow> bt_insert k (f v i) ids))"

definition attach_members :: "(string list \<Rightarrow> string list) \<Rightarrow> module_info \<Rightarrow> module_info" where
  "attach_members order info = info\<lparr>mi_specs := [], mi_identifiers :=
     fold (update_by_alias order (\<lambda>ms i. i\<lparr>idt_members := Some ms\<rparr>)) (mi_specs info) (mi_identifiers info)\<rparr>"

definition attach_defaults :: "(string list \<Rightarrow> string list) \<Rightarrow> module_info \<Rightarrow> module_info" where
  "attach_defaults order info = info\<lparr>mi_defaults := [], mi_identifiers :=
     fold (update_by_alias order (\<lambda>ds i. i\<lparr>idt_defaults := ds\<rparr>)) (mi_defaults info) (mi_identifiers info)\<rparr>"

definition top_level_entities ::
  "nat \<Rightarrow> (string list \<Rightarrow> string list) \<Rightarrow> modules \<Rightarrow> nestings \<Rightarrow> proto_entity list option" where
  "top_level_entities fuel order mods nest =
     map_option (\<lambda>rs. concat (map (\<lambda>r. case r of None \<Rightarrow> [] | Some e \<Rightarrow> [e]) rs))
       (those (concat (map (\<lambda>(_, info). map (\<lambda>(_, i). build_entity fuel order info mods nest i (idt_name i))
           [(k, i) \<leftarrow> visit order (mi_identifiers info).
              case map_of nest (idt_name i) of Some e \<Rightarrow> ne_indentation e = [] | None \<Rightarrow> True])
         (visit order mods))))"

text \<open>The scanned modules, a later one of a name in the place of an earlier one.\<close>

definition extracted_entities ::
  "nat \<Rightarrow> (string list \<Rightarrow> string list) \<Rightarrow> (string \<times> module_info) list \<Rightarrow> proto_entity list option" where
  "extracted_entities fuel order scans =
     (let mods = bt_of scans;
          nest = build_nestings (map snd (visit order mods));
          mods = map (\<lambda>(k, i). (k, attach_defaults order (attach_members order (match_aliases (declare_idents i))))) mods
      in top_level_entities fuel order mods nest)"

definition extract_proto ::
  "nat \<Rightarrow> (string list \<Rightarrow> string list) \<Rightarrow> (proto_entity \<Rightarrow> string) \<Rightarrow> (string \<times> module_info) list \<Rightarrow> string
   \<Rightarrow> proto_file option" where
  "extract_proto fuel order dbg scans version =
     (case extracted_entities fuel order scans of None \<Rightarrow> None
      | Some es \<Rightarrow> map_option (\<lambda>out. \<lparr>pfile_version = version, pfile_entities = out\<rparr>) (make_protoc_valid dbg es))"

section \<open>The splice keeps the fields\<close>

definition open_slots :: "field_desc option list \<Rightarrow> field_desc list" where
  "open_slots slots = concat (map (\<lambda>s. case s of None \<Rightarrow> [] | Some f \<Rightarrow> [f]) slots)"

lemma open_slots_take: "i < length slots \<Longrightarrow> slots ! i = Some f \<Longrightarrow>
  add_mset f (mset (open_slots (slots[i := None]))) = mset (open_slots slots)"
proof (induction slots arbitrary: i)
  case (Cons s slots)
  then show ?case by (cases i; cases s) (auto simp: open_slots_def)
qed simp

lemma take_group_mset:
  assumes "\<forall>i \<in> ran (map_of by_name). i < length slots" "take_group by_name ns slots = (fs, slots')"
  shows "mset fs + mset (open_slots slots') = mset (open_slots slots) \<and> length slots' = length slots"
  using assms
proof (induction ns arbitrary: slots fs slots')
  case (Cons n ns)
  show ?case
  proof (cases "map_of by_name n")
    case None
    with Cons.prems Cons.IH [of slots fs slots'] show ?thesis by simp
  next
    case at: (Some i)
    then have i: "i < length slots" using Cons.prems(1) by (auto simp: ran_def)
    show ?thesis
    proof (cases "slots ! i")
      case None
      with at Cons.prems Cons.IH [of slots fs slots'] show ?thesis by simp
    next
      case (Some f)
      obtain gs s where g: "take_group by_name ns (slots[i := None]) = (gs, s)" by fastforce
      with Some at Cons.prems(2) have fs: "fs = f # gs" "slots' = s" by simp_all
      have "mset gs + mset (open_slots s) = mset (open_slots (slots[i := None])) \<and> length s = length slots"
        using Cons.IH [OF _ g] Cons.prems(1) by simp
      with fs open_slots_take [OF i Some] show ?thesis by simp
    qed
  qed
qed simp

lemma take_groups_mset:
  assumes "\<forall>i \<in> ran (map_of by_name). i < length slots" "take_groups by_name gs slots = (ms, slots')"
  shows "mset (concat (map desc_fields ms)) + mset (open_slots slots') = mset (open_slots slots)"
  using assms
proof (induction gs arbitrary: slots ms slots')
  case (Cons g gs)
  obtain name ns where gn: "g = (name, ns)" by (cases g)
  obtain fs s1 where t: "take_group by_name ns slots = (fs, s1)" by fastforce
  obtain ms' s2 where r: "take_groups by_name gs s1 = (ms', s2)" by fastforce
  from Cons.prems(2) gn t r have "ms = DOneOf name fs # ms'" "slots' = s2" by simp_all
  with take_group_mset [OF Cons.prems(1) t] Cons.IH [OF _ r] Cons.prems(1) show ?case
    by (simp add: ac_simps)
qed simp

lemma index_by_name_lt: "\<forall>i \<in> ran (map_of (index_by_name fs)). i < length fs"
  unfolding index_by_name_def
proof (rule fold_invariant [where Q = "\<lambda>i. i < length fs" and P = "\<lambda>m. \<forall>i \<in> ran (map_of m). i < length fs"])
  fix x and m :: "(string, nat) btree" assume "x < length fs" "\<forall>i \<in> ran (map_of m). i < length fs"
  then show "\<forall>i \<in> ran (map_of (bt_insert_new (fd_name (fs ! x)) x m)). i < length fs"
    by (auto simp: ran_def split: if_splits)
qed simp_all

text \<open>
  C29: The splice neither loses nor duplicates a field: whatever groups the \<open>__oneofs__\<close> constraint
  lists, with names repeated, shared between groups or unknown, the members hold exactly the parsed
  fields, each once, in a group or on its own.
\<close>

theorem splice_keeps_fields:
  "mset (concat (map desc_fields (splice_oneofs fs oneofs))) = mset fs"
proof -
  obtain groups slots where t: "take_groups (index_by_name fs) oneofs (map Some fs) = (groups, slots)" by fastforce
  have "mset (concat (map desc_fields groups)) + mset (open_slots slots) = mset (open_slots (map Some fs))"
    by (rule take_groups_mset [OF _ t]) (simp add: index_by_name_lt)
  moreover have "open_slots (map Some fs) = fs" by (induction fs) (simp_all add: open_slots_def)
  moreover have "concat (map desc_fields (map DField xs)) = xs" for xs by (induction xs) simp_all
  ultimately show ?thesis by (simp add: splice_oneofs_def t ac_simps flip: open_slots_def)
qed


section \<open>The extraction ends\<close>

text \<open>A key's nesting is a strictly shorter prefix.\<close>

lemma unnest_parts:
  assumes "NESTING_SEP \<in> set n"
  shows "n = get_nesting n @ NESTING_SEP # unnest n" and "NESTING_SEP \<notin> set (unnest n)"
proof -
  obtain r where r: "n = r @ unnest n" "r = [] \<or> last r = NESTING_SEP"
    using rsplit_first_suffix [of n "\<lambda>c. c = NESTING_SEP"] by (auto simp: unnest_def)
  show no: "NESTING_SEP \<notin> set (unnest n)"
    using rsplit_first_no_sepD [of NESTING_SEP "\<lambda>c. c = NESTING_SEP" n] by (auto simp: unnest_def)
  have "r \<noteq> []" using assms r(1) no by auto
  then obtain q where q: "r = q @ [NESTING_SEP]" using r(2) by (metis append_butlast_last_id)
  with r(1) have "n = q @ NESTING_SEP # unnest n" by simp
  moreover have "get_nesting n = q"
  proof -
    have "take (length (q @ NESTING_SEP # u) - length u - 1) (q @ NESTING_SEP # u) = q" for u by simp
    from this [of "unnest n"] \<open>n = q @ NESTING_SEP # unnest n\<close> have "take (length n - length (unnest n) - 1) n = q"
      by metis
    with assms show ?thesis by (simp only: get_nesting_def if_True)
  qed
  ultimately show "n = get_nesting n @ NESTING_SEP # unnest n" by simp
qed

lemma get_nesting_shorter: "get_nesting n \<noteq> [] \<Longrightarrow> length (get_nesting n) < length n"
proof -
  assume "get_nesting n \<noteq> []"
  then have "NESTING_SEP \<in> set n" by (auto simp: get_nesting_def split: if_splits)
  from arg_cong [OF unnest_parts(1) [OF this], of length]
  have "length n = length (get_nesting n) + Suc (length (unnest n))" by (simp only: length_append list.size(4) add_Suc_right add_0_right One_nat_def plus_nat.simps)
  then show ?thesis by linarith
qed

definition nestings_ok :: "nestings \<Rightarrow> bool" where
  "nestings_ok nest \<longleftrightarrow> (\<forall>k e. map_of nest k = Some e \<longrightarrow>
     (ne_indentation e = [] \<or> ne_indentation e = get_nesting k)
     \<and> (\<forall>c \<in> set (ne_members e). get_nesting c = k \<and> k \<noteq> []))"

lemma nestings_ok_of:
  "nestings_ok nest \<Longrightarrow> ne_indentation (nesting_of nest k) = [] \<or> ne_indentation (nesting_of nest k) = get_nesting k"
  "nestings_ok nest \<Longrightarrow> c \<in> set (ne_members (nesting_of nest k)) \<Longrightarrow> get_nesting c = k \<and> k \<noteq> []"
  by (cases "map_of nest k"; simp add: nestings_ok_def nesting_of_def)+

lemma nestings_ok_insert:
  assumes "nestings_ok nest" "ne_indentation e = [] \<or> ne_indentation e = get_nesting k"
    and "\<forall>c \<in> set (ne_members e). get_nesting c = k \<and> k \<noteq> []"
  shows "nestings_ok (bt_insert k e nest)"
  using assms by (simp add: nestings_ok_def)

lemma declare_nesting_ok: "nestings_ok nest \<Longrightarrow> nestings_ok (declare_nesting key nest)"
proof -
  assume ok: "nestings_ok nest"
  let ?n = "bt_insert key ((nesting_of nest key)\<lparr>ne_indentation := get_nesting key\<rparr>) nest"
  have ok1: "nestings_ok ?n"
    by (rule nestings_ok_insert [OF ok]) (use nestings_ok_of(2) [OF ok] in simp_all)
  have "nestings_ok (bt_insert (get_nesting key)
      ((nesting_of ?n (get_nesting key))\<lparr>ne_members := bs_insert key (ne_members (nesting_of ?n (get_nesting key)))\<rparr>) ?n)"
    if "get_nesting key \<noteq> []"
    by (rule nestings_ok_insert [OF ok1]) (use that nestings_ok_of [OF ok1] in auto)
  moreover have "nestings_ok (declare_nesting key nest)" if "get_nesting key = []"
    using ok1 that by (simp only: declare_nesting_def Let_def if_True simp_thms)
  ultimately show ?thesis by (cases "get_nesting key = []") (simp_all only: declare_nesting_def Let_def if_True if_False simp_thms)
qed

lemma build_nestings_ok: "nestings_ok (build_nestings infos)"
  unfolding build_nestings_def
  by (intro fold_keeps [where P = nestings_ok] declare_nesting_ok) (simp add: nestings_ok_def)

text \<open>An identifier is filed under its own name, one of the names scanned.\<close>

definition idents_ok :: "string set \<Rightarrow> (string, proto_ident) btree \<Rightarrow> bool" where
  "idents_ok names ids \<longleftrightarrow> (\<forall>k i. map_of ids k = Some i \<longrightarrow> idt_name i = k \<and> k \<in> names)"

lemma idents_ok_insert: "idents_ok N ids \<Longrightarrow> idt_name i = k \<Longrightarrow> k \<in> N \<Longrightarrow> idents_ok N (bt_insert k i ids)"
  by (simp add: idents_ok_def)

lemma visit_member: "(k, v) \<in> set (visit order m) \<Longrightarrow> map_of m k = Some v"
  by (auto simp: visit_def split: option.splits)

lemma find_alias_at: "find_alias order ids a = Some (k, i) \<Longrightarrow> map_of ids k = Some i"
proof -
  assume "find_alias order ids a = Some (k, i)"
  then obtain j where "j < length (visit order ids)" "(k, i) = visit order ids ! j"
    unfolding find_alias_def find_Some_iff by blast
  then show ?thesis using nth_mem [of j "visit order ids"] by (intro visit_member [of _ _ order]) simp
qed

lemma declare_idents_ok:
  assumes "idents_ok N (mi_identifiers info)" "set (mi_ident_order info) \<subseteq> N"
  shows "idents_ok N (mi_identifiers (declare_idents info))"
proof -
  have "idents_ok N (fold (\<lambda>key. bt_insert_new key (blank_ident key)) (rev (mi_ident_order info)) (mi_identifiers info))"
  proof (rule fold_invariant [where Q = "\<lambda>x. x \<in> N" and P = "idents_ok N"])
    fix x and ids :: "(string, proto_ident) btree" assume "x \<in> N" "idents_ok N ids"
    then show "idents_ok N (bt_insert_new x (blank_ident x) ids)"
      by (auto simp: idents_ok_def blank_ident_def split: if_splits)
  qed (use assms in auto)
  then show ?thesis by (simp add: declare_idents_def)
qed

lemma match_alias_ok: "idents_ok N ids \<Longrightarrow> idents_ok N (match_alias enums p ids)"
  by (auto simp: match_alias_def idents_ok_def split: prod.split option.split)

lemma match_aliases_ok: "idents_ok N (mi_identifiers info) \<Longrightarrow> idents_ok N (mi_identifiers (match_aliases info))"
  unfolding match_aliases_def by (simp, intro fold_keeps [where P = "idents_ok N"] match_alias_ok)

lemma update_by_alias_ok:
  assumes "idents_ok N ids" "\<And>v i. idt_name (f v i) = idt_name i"
  shows "idents_ok N (update_by_alias order f p ids)"
proof -
  obtain a v where p: "p = (a, v)" by (cases p)
  show ?thesis
  proof (cases "find_alias order ids a")
    case (Some ki)
    then obtain k i where ki: "ki = (k, i)" "map_of ids k = Some i" by (cases ki) (auto dest: find_alias_at)
    with assms(1) have "idt_name i = k" "k \<in> N" by (auto simp: idents_ok_def)
    then have "idents_ok N (bt_insert k (f v i) ids)" using assms by (intro idents_ok_insert) simp_all
    with Some p ki show ?thesis by (simp add: update_by_alias_def)
  qed (use assms p in \<open>simp add: update_by_alias_def\<close>)
qed

lemma attach_ok:
  assumes "idents_ok N (mi_identifiers info)"
  shows "idents_ok N (mi_identifiers (attach_members order info))"
    and "idents_ok N (mi_identifiers (attach_defaults order info))"
  using assms unfolding attach_members_def attach_defaults_def
  by (simp_all, (intro fold_keeps [where P = "idents_ok N"] update_by_alias_ok; simp)+)


lemma those_Some: "(\<And>x. x \<in> set xs \<Longrightarrow> x \<noteq> None) \<Longrightarrow> \<exists>ys. those xs = Some ys"
  by (induction xs) (auto split: option.split)

lemma nested_idents_longer:
  assumes "nestings_ok nest" "idents_ok N (mi_identifiers info)" "(c, d) \<in> set (nested_idents info nest idt)"
  shows "length (idt_name idt) < length (idt_name c) \<and> idt_name c \<in> N"
proof -
  from assms(3) obtain e where e: "map_of nest (idt_name idt) = Some e"
    by (cases "map_of nest (idt_name idt)") (simp_all add: nested_idents_def)
  with assms(3) obtain key where key: "key \<in> set (ne_members e)" "map_of (mi_identifiers info) key = Some c"
    by (auto simp: nested_idents_def split: option.splits)
  have "get_nesting key = idt_name idt" "idt_name idt \<noteq> []"
    using assms(1) e key(1) unfolding nestings_ok_def by blast+
  moreover have "idt_name c = key" "key \<in> N" using assms(2) key(2) by (auto simp: idents_ok_def)
  ultimately show ?thesis using get_nesting_shorter [of key] by simp
qed

lemma build_entity_ends:
  assumes "nestings_ok nest" "idents_ok N (mi_identifiers info)" "\<forall>n \<in> N. length n \<le> L"
    and "idt_name idt \<in> N" "L < length (idt_name idt) + fuel"
  shows "build_entity fuel order info mods nest idt display \<noteq> None"
  using assms(4,5)
proof (induction fuel arbitrary: idt display)
  case 0
  with assms(3) show ?case by force
next
  case (Suc n)
  have "x \<noteq> None"
    if x: "x \<in> set (map (\<lambda>(child, d). build_entity n order info mods nest child d) (nested_idents info nest idt))" for x
  proof -
    from x obtain c d where cd: "(c, d) \<in> set (nested_idents info nest idt)" "x = build_entity n order info mods nest c d"
      by auto
    from nested_idents_longer [OF assms(1,2) cd(1)] Suc.prems(2) have "idt_name c \<in> N" "L < length (idt_name c) + n"
      by linarith+
    from Suc.IH [OF this] cd(2) show ?thesis by simp
  qed
  then have "\<exists>ys. those (map (\<lambda>(child, d). build_entity n order info mods nest child d) (nested_idents info nest idt)) = Some ys"
    by (rule those_Some)
  then show ?case by (auto split: option.split)
qed

lemma make_protoc_valid_total: "\<exists>out. make_protoc_valid dbg es = Some out \<and> distinct (map entity_name out)"
proof (cases "clashes (dedup_top_level dbg es) = []")
  case True
  then show ?thesis by (simp add: make_protoc_valid_def relocate_colliding_enums_def dedup_distinct)
next
  case False
  obtain p where p: "relocate_colliding_enums (dedup_top_level dbg es) =
      Some (map (\<lambda>e. with_enums (additions p (dedup_top_level dbg es)) (revised (referencers (dedup_top_level dbg es)) p e))
              [e \<leftarrow> dedup_top_level dbg es. \<not> is_taken (map fst (rp_decisions p)) e])"
    using relocate_result [OF dedup_distinct False] .
  have "distinct (map entity_name [e \<leftarrow> dedup_top_level dbg es. \<not> is_taken (map fst (rp_decisions p)) e])"
    by (rule distinct_map_filter [OF dedup_distinct])
  with p show ?thesis by (simp add: make_protoc_valid_def comp_def)
qed

abbreviation completed :: "(string list \<Rightarrow> string list) \<Rightarrow> module_info \<Rightarrow> module_info" where
  "completed order i \<equiv> attach_defaults order (attach_members order (match_aliases (declare_idents i)))"

lemma completed_idents:
  assumes "mi_identifiers info = []" "set (mi_ident_order info) \<subseteq> N"
  shows "idents_ok N (mi_identifiers (completed order info))"
proof -
  have "idents_ok N (mi_identifiers info)" using assms(1) by (simp add: idents_ok_def)
  then show ?thesis by (intro attach_ok match_aliases_ok declare_idents_ok assms(2))
qed

lemma top_level_ends:
  assumes "nestings_ok nest"
    and "\<And>k info. map_of mods k = Some info \<Longrightarrow> idents_ok {n. length n < fuel} (mi_identifiers info)"
  shows "\<exists>es. top_level_entities fuel order mods nest = Some es"
proof -
  have "x \<noteq> None" if x: "x \<in> set (concat (map (\<lambda>(_, info). map (\<lambda>(_, i). build_entity fuel order info mods nest i (idt_name i))
      [(k, i) \<leftarrow> visit order (mi_identifiers info).
         case map_of nest (idt_name i) of Some e \<Rightarrow> ne_indentation e = [] | None \<Rightarrow> True]) (visit order mods)))" for x
  proof -
    from x obtain m info k i where at: "(m, info) \<in> set (visit order mods)" "(k, i) \<in> set (visit order (mi_identifiers info))"
      and x': "x = build_entity fuel order info mods nest i (idt_name i)" by auto
    from assms(2) [OF visit_member [OF at(1)]] have ids: "idents_ok {n. length n < fuel} (mi_identifiers info)" .
    with visit_member [OF at(2)] have "length (idt_name i) < fuel" by (auto simp: idents_ok_def)
    then show ?thesis unfolding x'
      by (intro build_entity_ends [OF assms(1) ids, where L = "fuel - 1"]) auto
  qed
  then have "\<exists>ys. those (concat (map (\<lambda>(_, info). map (\<lambda>(_, i). build_entity fuel order info mods nest i (idt_name i))
      [(k, i) \<leftarrow> visit order (mi_identifiers info).
         case map_of nest (idt_name i) of Some e \<Rightarrow> ne_indentation e = [] | None \<Rightarrow> True]) (visit order mods))) = Some ys"
    by (rule those_Some)
  then show ?thesis unfolding top_level_entities_def by (elim exE) (simp only: option.map option.inject ex_simps simp_thms)
qed

text \<open>
  C13: The extraction ends and never panics: with more fuel than the longest scanned identifier has
  bytes, whatever the visitors collected -- nested names without their parents, aliases shared or
  missing, references to nothing -- and in whatever order the maps are visited, it returns a document of
  the given version whose top-level names are distinct.
\<close>

theorem extraction_ends:
  assumes "\<forall>(name, info) \<in> set scans. mi_identifiers info = []
             \<and> (\<forall>key \<in> set (mi_ident_order info). length key < fuel)"
  shows "\<exists>file. extract_proto fuel order dbg scans version = Some file \<and> pfile_version file = version
           \<and> distinct (map entity_name (pfile_entities file))"
proof -
  let ?mods = "map (\<lambda>(k, i). (k, completed order i)) (bt_of scans)"
  let ?nest = "build_nestings (map snd (visit order (bt_of scans)))"
  have "\<exists>es. top_level_entities fuel order ?mods ?nest = Some es"
  proof (rule top_level_ends [OF build_nestings_ok])
    fix k info assume "map_of ?mods k = Some info"
    then obtain i where i: "map_of (bt_of scans) k = Some i" "info = completed order i"
      by (auto simp: map_of_map)
    then have "(k, i) \<in> set scans" by (auto simp: map_of_bt_of dest: map_of_SomeD)
    with assms have "mi_identifiers i = []" "set (mi_ident_order i) \<subseteq> {n. length n < fuel}" by auto
    then show "idents_ok {n. length n < fuel} (mi_identifiers info)" unfolding i(2) by (rule completed_idents)
  qed
  then obtain es where "top_level_entities fuel order ?mods ?nest = Some es" by blast
  moreover obtain out where "make_protoc_valid dbg es = Some out" "distinct (map entity_name out)"
    using make_protoc_valid_total by blast
  ultimately show ?thesis by (simp add: extract_proto_def extracted_entities_def Let_def)
qed


text \<open>A module with a message, an enum it refers to and a nested message.\<close>

definition sample_field_desc :: "string \<Rightarrow> type_desc \<Rightarrow> string list \<Rightarrow> field_desc" where
  "sample_field_desc n t fl = \<lparr>fd_name = n, fd_id = 1, fd_ty = t, fd_flags = fl\<rparr>"

definition sample_info :: module_info where
  "sample_info = \<lparr>mi_cross_refs = [], mi_identifiers = [],
     mi_specs = [(''u'', splice_oneofs
         [sample_field_desc ''kind'' (DIdentAlias ''s'') [], sample_field_desc ''inner'' (DIdentAlias ''c'') [],
          sample_field_desc ''ids'' (DScalar ''uint32'') [''packed'', ''repeated''],
          sample_field_desc ''lbl'' (DScalar ''string'') []] [(''body'', [''lbl''])]),
       (''c'', [DField (sample_field_desc ''x'' (DMemberRef False None ''OuterSpec'') [])])],
     mi_defaults = [(''u'', [(''kind'', ''A''), (''lbl'', ''x'')])],
     mi_enum_aliases = [(''s'', [\<lparr>pev_name = ''A'', pev_id = 0\<rparr>])],
     mi_alias_matches = [(''TestEnum'', ''s''), (''Outer'', ''u''), (''Outer$Inner'', ''c'')],
     mi_ident_order = [''TestEnum'', ''Outer'', ''Outer$Inner'']\<rparr>"

lemma extraction_ends_witness:
  "\<exists>file. extract_proto 20 id entity_name [(''Test.pb'', sample_info)] ''2.3000.1'' = Some file
     \<and> pfile_version file = ''2.3000.1'' \<and> distinct (map entity_name (pfile_entities file))"
  by (rule extraction_ends) (simp add: sample_info_def)

definition shown_field :: "string \<Rightarrow> string \<Rightarrow> string list \<Rightarrow> bool \<Rightarrow> string option \<Rightarrow> proto_field" where
  "shown_field n t fl p d = \<lparr>prf_name = n, prf_id = 1, prf_type = t, prf_flags = fl, prf_packed = p, prf_default = d\<rparr>"

lemma extract_sample:
  "extract_proto 20 id entity_name [(''Test.pb'', sample_info)] ''1'' = Some \<lparr>pfile_version = ''1'', pfile_entities =
     [EMessage (ProtoMessage ''Outer''
        [MField (shown_field ''kind'' ''TestEnum'' [''optional''] False (Some ''A'')),
         MField (shown_field ''inner'' ''Inner'' [''optional''] False None),
         MField (shown_field ''ids'' ''uint32'' [''repeated''] True None),
         MOneOf \<lparr>po_name = ''body'', po_fields = [shown_field ''lbl'' ''string'' [] False None]\<rparr>]
        [EMessage (ProtoMessage ''Inner'' [MField (shown_field ''x'' ''Outer'' [''optional''] False None)] [])]),
      EEnum \<lparr>pe_name = ''TestEnum'', pe_values = [\<lparr>pev_name = ''A'', pev_id = 0\<rparr>]\<rparr>]\<rparr>"
  by code_simp

section \<open>Labels, defaults and paths\<close>

text \<open>
  A default is written for a singular field only, never in a group.  A member gets a label unless the
  text of its type contains \<open>map\<close>: a message type with these letters in its name is left without one.
\<close>

lemma default_singular:
  "prf_default (build_field order f parent mm ds info mods nest) \<noteq> None \<Longrightarrow>
     mm \<and> FLAG_REPEATED \<notin> set (prf_flags (build_field order f parent mm ds info mods nest))"
  by (auto simp: build_field_def Let_def list_ex_iff split: if_splits)

lemma member_labelled:
  assumes "prf_flags (build_field order f parent True ds info mods nest) = []"
  shows "str_contains (prf_type (build_field order f parent True ds info mods nest)) TYPE_MAP"
  using assms by (auto simp: build_field_def Let_def split: if_splits)

lemma message_named_map_unlabelled:
  "prf_flags (build_field id (sample_field_desc ''icon'' (DMemberRef False None ''BitmapSpec'') []) (Some ''M'') True []
     sample_info [] []) = []"
  by code_simp

text \<open>A nested type is written as its path, except inside the message it is nested in.\<close>

lemma replace_sep: "NESTING_SEP \<notin> set s \<Longrightarrow> replace_char NESTING_SEP ''.'' s = s"
  by (induction s) (auto simp: replace_char_def)

lemma qualified_path:
  assumes "map_of nest t = Some e" "ne_indentation e = get_nesting t"
  shows "qualify_type t parent nest
    = (if get_nesting t = [] \<or> parent = Some (get_nesting t) then unnest t else replace_char NESTING_SEP ''.'' t)"
proof (cases "get_nesting t = []")
  case False
  then have "NESTING_SEP \<in> set t" by (auto simp: get_nesting_def split: if_splits)
  note parts = unnest_parts [OF this]
  have "replace_char NESTING_SEP ''.'' t
      = replace_char NESTING_SEP ''.'' (get_nesting t @ NESTING_SEP # unnest t)" using parts(1) by simp
  also have "\<dots> = replace_char NESTING_SEP ''.'' (get_nesting t) @ ''.'' @ replace_char NESTING_SEP ''.'' (unnest t)"
    by (simp add: replace_char_def)
  also have "\<dots> = replace_char NESTING_SEP ''.'' (get_nesting t) @ ''.'' @ unnest t"
    using replace_sep [OF parts(2)] by simp
  finally show ?thesis using assms False by (auto simp: qualify_type_def Let_def)
qed (use assms in \<open>simp add: qualify_type_def Let_def\<close>)

end
