(* ===== verification/ProtoOrder.thy ===== *)
theory ProtoOrder
  imports ProtoResolve
begin

text \<open>
  The document does not depend on the order in which the maps of the extraction are visited
  (\<open>crates/wa-proto/src/extract.rs\<close> goes through several \<open>HashMap\<close>s): with aliases that stand for one
  export each, the nesting table, the identifiers and the set of entities are the same for every order.
\<close>

section \<open>The order of the visits does not matter\<close>

definition visits_all :: "(string list \<Rightarrow> string list) \<Rightarrow> bool" where
  "visits_all order \<longleftrightarrow> (\<forall>ks. set (order ks) = set ks)"

lemma visit_set: "visits_all order \<Longrightarrow> (k, v) \<in> set (visit order m) \<longleftrightarrow> map_of m k = Some v"
proof
  assume all: "visits_all order" and "map_of m k = Some v"
  then have "k \<in> set (order (map fst m))"
    using map_of_SomeD [of m k v] by (force simp: visits_all_def)
  with \<open>map_of m k = Some v\<close> show "(k, v) \<in> set (visit order m)" by (force simp: visit_def)
qed (rule visit_member)

text \<open>No two identifiers of a module share an alias.\<close>

definition unshared :: "(string, proto_ident) btree \<Rightarrow> bool" where
  "unshared ids \<longleftrightarrow> (\<forall>k i k' i'. map_of ids k = Some i \<longrightarrow> map_of ids k' = Some i' \<longrightarrow>
     idt_alias i \<noteq> None \<longrightarrow> idt_alias i = idt_alias i' \<longrightarrow> k = k')"

lemma find_hit: "find P xs = Some x \<Longrightarrow> P x"
  by (induction xs) (auto split: if_splits)

lemma find_miss: "x \<in> set xs \<Longrightarrow> P x \<Longrightarrow> find P xs \<noteq> None"
  by (induction xs) auto

lemma find_alias_has: "find_alias order ids a = Some (k, i) \<Longrightarrow> idt_alias i = Some a"
  unfolding find_alias_def by (drule find_hit) simp

lemma find_alias_iff:
  assumes "visits_all order" "unshared ids"
  shows "find_alias order ids a = Some (k, i) \<longleftrightarrow> map_of ids k = Some i \<and> idt_alias i = Some a"
proof
  assume f: "find_alias order ids a = Some (k, i)"
  from find_alias_has [OF f] find_alias_at [OF f] show "map_of ids k = Some i \<and> idt_alias i = Some a" by simp
next
  assume i: "map_of ids k = Some i \<and> idt_alias i = Some a"
  have "(k, i) \<in> set (visit order ids)" by (rule iffD2 [OF visit_set [OF assms(1)] conjunct1 [OF i]])
  then have "find_alias order ids a \<noteq> None"
    unfolding find_alias_def by (rule find_miss) (use i in simp)
  then obtain x where "find_alias order ids a = Some x" by blast
  then obtain k' i' where f: "find_alias order ids a = Some (k', i')" by (cases x) simp
  have i': "map_of ids k' = Some i'" "idt_alias i' = Some a"
    using find_alias_at [OF f] find_alias_has [OF f] by simp_all
  have "k' = k" using assms(2) i i' unfolding unshared_def by (elim allE [of _ k] allE [of _ i] allE [of _ k'] allE [of _ i']) simp
  with f i i' show "find_alias order ids a = Some (k, i)" by simp
qed

lemma find_alias_order:
  assumes "visits_all o1" "visits_all o2" "unshared ids"
  shows "find_alias o1 ids a = find_alias o2 ids a"
proof (rule option.expand)
  show "(find_alias o1 ids a = None) = (find_alias o2 ids a = None)"
    using find_alias_iff [OF assms(1,3), of a] find_alias_iff [OF assms(2,3), of a]
    by (metis not_Some_eq surj_pair)
  fix x y assume "find_alias o1 ids a \<noteq> None" "find_alias o2 ids a \<noteq> None"
  then show "the (find_alias o1 ids a) = the (find_alias o2 ids a)"
    using find_alias_iff [OF assms(1,3), of a] find_alias_iff [OF assms(2,3), of a]
    by (metis option.sel not_Some_eq surj_pair)
qed

lemma update_by_alias_unshared:
  assumes "unshared ids" "\<And>v i. idt_alias (f v i) = idt_alias i"
  shows "unshared (update_by_alias order f p ids)"
proof -
  obtain a v where p: "p = (a, v)" by (cases p)
  show ?thesis
  proof (cases "find_alias order ids a")
    case None
    with assms p show ?thesis by (simp add: update_by_alias_def)
  next
    case (Some ki)
    then obtain k i where ki: "ki = (k, i)" "map_of ids k = Some i" by (cases ki) (auto dest: find_alias_at)
    have "unshared (bt_insert k (f v i) ids)"
      using assms ki(2) unfolding unshared_def by (simp add: assms(2)) metis
    with Some p ki show ?thesis by (simp add: update_by_alias_def)
  qed
qed

lemma fold_update_order:
  assumes "visits_all o1" "visits_all o2" "\<And>v i. idt_alias (f v i) = idt_alias i" "unshared ids"
  shows "fold (update_by_alias o1 f) ps ids = fold (update_by_alias o2 f) ps ids"
    and "unshared (fold (update_by_alias o1 f) ps ids)"
proof -
  have eq: "update_by_alias o1 f p ids = update_by_alias o2 f p ids" if "unshared ids" for p ids
    unfolding update_by_alias_def using find_alias_order [OF assms(1,2) that] by simp
  have keep: "unshared (update_by_alias o1 f p ids)" if "unshared ids" for p ids
    by (rule update_by_alias_unshared [OF that assms(3)])
  have "fold (update_by_alias o1 f) ps ids = fold (update_by_alias o2 f) ps ids
      \<and> unshared (fold (update_by_alias o1 f) ps ids)"
    using assms(4)
  proof (induction ps arbitrary: ids)
    case (Cons p ps)
    have "fold (update_by_alias o1 f) (p # ps) ids = fold (update_by_alias o1 f) ps (update_by_alias o1 f p ids)"
      "fold (update_by_alias o2 f) (p # ps) ids = fold (update_by_alias o2 f) ps (update_by_alias o1 f p ids)"
      by (simp_all add: eq [OF Cons.prems])
    note step = this
    show ?case unfolding step by (rule Cons.IH [OF keep [OF Cons.prems, of p]])
  qed simp
  then show "fold (update_by_alias o1 f) ps ids = fold (update_by_alias o2 f) ps ids"
    and "unshared (fold (update_by_alias o1 f) ps ids)" by blast+
qed

text \<open>Aliases assigned to one export each leave no alias shared.\<close>

lemma match_aliases_unshared:
  assumes "\<forall>k i. map_of ids k = Some i \<longrightarrow> idt_alias i = None" "distinct (map snd ps)"
  shows "unshared (fold (match_alias enums) ps ids)"
proof -
  have "unshared (fold (match_alias enums) ps ids)"
    if "unshared ids" "distinct (map snd ps)"
      "\<forall>k i a. map_of ids k = Some i \<longrightarrow> idt_alias i = Some a \<longrightarrow> a \<notin> snd ` set ps" for ids
    using that
  proof (induction ps arbitrary: ids)
    case (Cons p ps)
    obtain key a where p: "p = (key, a)" by (cases p)
    show ?case
    proof (cases "map_of ids key")
      case None
      have eq: "match_alias enums p ids = ids" using p None by (simp add: match_alias_def)
      have "unshared (fold (match_alias enums) ps ids)" by (rule Cons.IH) (use Cons.prems in auto)
      then show ?thesis by (simp only: fold.simps comp_apply eq)
    next
      case (Some i)
      let ?ids = "bt_insert key (i\<lparr>idt_alias := Some a, idt_enum_values := map_of enums a\<rparr>) ids"
      have eq: "match_alias enums p ids = ?ids" using p Some by (simp add: match_alias_def)
      have fresh: "idt_alias j \<noteq> Some a" if "map_of ids k = Some j" for k j
        using Cons.prems(3) that p by auto
      have "unshared ?ids"
        unfolding unshared_def
      proof (intro allI impI)
        fix k j k' j'
        assume a: "map_of ?ids k = Some j" "map_of ?ids k' = Some j'" "idt_alias j \<noteq> None" "idt_alias j = idt_alias j'"
        show "k = k'"
        proof (cases "k = key \<or> k' = key")
          case True
          with a fresh show ?thesis by (auto split: if_splits)
        next
          case False
          with a have "map_of ids k = Some j" "map_of ids k' = Some j'" by simp_all
          with Cons.prems(1) a(3,4) show ?thesis unfolding unshared_def by blast
        qed
      qed
      moreover have "\<forall>k j b. map_of ?ids k = Some j \<longrightarrow> idt_alias j = Some b \<longrightarrow> b \<notin> snd ` set ps"
        using Cons.prems(2,3) p by auto
      ultimately have "unshared (fold (match_alias enums) ps ?ids)" using Cons.prems(2) by (intro Cons.IH) simp_all
      then show ?thesis by (simp only: fold.simps comp_apply eq)
    qed
  qed simp
  moreover have "unshared ids" using assms(1) by (auto simp: unshared_def)
  ultimately show ?thesis using assms by auto
qed

lemma declared_no_alias:
  assumes "mi_identifiers info = []"
  shows "\<forall>k i. map_of (mi_identifiers (declare_idents info)) k = Some i \<longrightarrow> idt_alias i = None"
proof -
  have "\<forall>k i. map_of (fold (\<lambda>key. bt_insert_new key (blank_ident key)) xs []) k = Some i \<longrightarrow> idt_alias i = None" for xs
    by (rule fold_keeps [where P = "\<lambda>ids. \<forall>k i. map_of ids k = Some i \<longrightarrow> idt_alias i = None"])
       (simp_all add: blank_ident_def)
  then show ?thesis using assms by (simp add: declare_idents_def)
qed

lemma completed_order:
  assumes "visits_all o1" "visits_all o2" "mi_identifiers info = []" "distinct (map snd (mi_alias_matches info))"
  shows "completed o1 info = completed o2 info" and "unshared (mi_identifiers (completed o1 info))"
proof -
  let ?i = "match_aliases (declare_idents info)"
  have u: "unshared (mi_identifiers ?i)"
    using match_aliases_unshared [OF declared_no_alias [OF assms(3)], of "mi_alias_matches (declare_idents info)"] assms(4)
    by (simp add: match_aliases_def declare_idents_def)
  have m: "attach_members o1 j = attach_members o2 j" "unshared (mi_identifiers (attach_members o1 j))"
    if "unshared (mi_identifiers j)" for j
  proof -
    let ?f = "\<lambda>ms i. i\<lparr>idt_members := Some ms\<rparr>"
    have al: "idt_alias (?f v i) = idt_alias i" for v and i :: proto_ident by simp
    note o = fold_update_order [where f = ?f and ps = "mi_specs j", OF assms(1,2) al that]
    show "attach_members o1 j = attach_members o2 j" unfolding attach_members_def o(1) ..
    show "unshared (mi_identifiers (attach_members o1 j))" using o(2) by (simp add: attach_members_def)
  qed
  have d: "attach_defaults o1 j = attach_defaults o2 j" "unshared (mi_identifiers (attach_defaults o1 j))"
    if "unshared (mi_identifiers j)" for j
  proof -
    let ?f = "\<lambda>ds i. i\<lparr>idt_defaults := ds\<rparr>"
    have al: "idt_alias (?f v i) = idt_alias i" for v and i :: proto_ident by simp
    note o = fold_update_order [where f = ?f and ps = "mi_defaults j", OF assms(1,2) al that]
    show "attach_defaults o1 j = attach_defaults o2 j" unfolding attach_defaults_def o(1) ..
    show "unshared (mi_identifiers (attach_defaults o1 j))" using o(2) by (simp add: attach_defaults_def)
  qed
  show "completed o1 info = completed o2 info"
  proof -
    have "completed o1 info = attach_defaults o2 (attach_members o1 ?i)" by (rule d(1) [OF m(2) [OF u]])
    also have "\<dots> = completed o2 info" unfolding m(1) [OF u] ..
    finally show ?thesis .
  qed
  show "unshared (mi_identifiers (completed o1 info))" by (rule d(2) [OF m(2) [OF u]])
qed


section \<open>The nesting table\<close>

text \<open>The table of the keys \<open>S\<close>: the declared keys and their parents, each parent with its children.\<close>

definition table_of :: "string set \<Rightarrow> nestings \<Rightarrow> bool" where
  "table_of S nest \<longleftrightarrow> bt_ok nest
     \<and> (\<forall>k. map_of nest k = None \<longleftrightarrow> k \<notin> S \<and> (k = [] \<or> k \<notin> get_nesting ` S))
     \<and> (\<forall>k e. map_of nest k = Some e \<longrightarrow>
          ne_indentation e = (if k \<in> S then get_nesting k else [])
          \<and> bs_ok (ne_members e) \<and> set (ne_members e) = {c \<in> S. get_nesting c = k \<and> k \<noteq> []})"

lemma nesting_of_table:
  assumes "table_of S nest"
  shows "ne_indentation (nesting_of nest k) = (if k \<in> S then get_nesting k else [])"
    and "bs_ok (ne_members (nesting_of nest k))"
    and "set (ne_members (nesting_of nest k)) = {c \<in> S. get_nesting c = k \<and> k \<noteq> []}"
proof -
  have "ne_indentation (nesting_of nest k) = (if k \<in> S then get_nesting k else [])
      \<and> bs_ok (ne_members (nesting_of nest k))
      \<and> set (ne_members (nesting_of nest k)) = {c \<in> S. get_nesting c = k \<and> k \<noteq> []}"
  proof (cases "map_of nest k")
    case None
    with assms have "k \<notin> S" "k = [] \<or> k \<notin> get_nesting ` S" by (auto simp: table_of_def)
    with None show ?thesis by (auto simp: nesting_of_def)
  next
    case (Some e)
    with assms show ?thesis unfolding nesting_of_def table_of_def by simp
  qed
  then show "ne_indentation (nesting_of nest k) = (if k \<in> S then get_nesting k else [])"
    and "bs_ok (ne_members (nesting_of nest k))"
    and "set (ne_members (nesting_of nest k)) = {c \<in> S. get_nesting c = k \<and> k \<noteq> []}" by blast+
qed

lemma get_nesting_neq: "get_nesting k = k \<longleftrightarrow> k = []"
proof
  assume "get_nesting k = k"
  then show "k = []" using get_nesting_shorter [of k] by (cases "k = []") simp_all
qed (simp add: get_nesting_def)

lemma declare_nesting_table:
  assumes "table_of S nest"
  shows "table_of (insert key S) (declare_nesting key nest)"
proof -
  note t = nesting_of_table [OF assms]
  have ok: "bt_ok nest" using assms by (simp add: table_of_def)
  let ?up = "get_nesting key"
  let ?e = "(nesting_of nest key)\<lparr>ne_indentation := ?up\<rparr>"
  let ?n = "bt_insert key ?e nest"
  show ?thesis
  proof (cases "?up = []")
    case True
    then have d: "declare_nesting key nest = ?n" by (simp add: declare_nesting_def Let_def)
    show ?thesis
      unfolding d table_of_def
    proof (intro conjI allI impI)
      show "bt_ok ?n" using ok by simp
      fix k
      show "map_of ?n k = None \<longleftrightarrow> k \<notin> insert key S \<and> (k = [] \<or> k \<notin> get_nesting ` insert key S)"
        using assms True by (auto simp: table_of_def)
      fix e assume e: "map_of ?n k = Some e"
      have "ne_indentation e = (if k \<in> insert key S then get_nesting k else [])
          \<and> bs_ok (ne_members e) \<and> set (ne_members e) = {c \<in> insert key S. get_nesting c = k \<and> k \<noteq> []}"
      proof (cases "k = key")
        case k: True
        with e True have "e = ?e" by simp
        with k True t(2,3) [of key] show ?thesis by auto
      next
        case False
        with e have "map_of nest k = Some e" by simp
        with assms have "ne_indentation e = (if k \<in> S then get_nesting k else [])" "bs_ok (ne_members e)"
          "set (ne_members e) = {c \<in> S. get_nesting c = k \<and> k \<noteq> []}" by (simp_all add: table_of_def)
        with False True show ?thesis by auto
      qed
      then show "ne_indentation e = (if k \<in> insert key S then get_nesting k else [])" "bs_ok (ne_members e)"
        "set (ne_members e) = {c \<in> insert key S. get_nesting c = k \<and> k \<noteq> []}" by simp_all
    qed
  next
    case False
    then have ne: "?up \<noteq> key" using get_nesting_neq [of key] by auto
    let ?f = "(nesting_of ?n ?up)\<lparr>ne_members := bs_insert key (ne_members (nesting_of ?n ?up))\<rparr>"
    let ?m = "bt_insert ?up ?f ?n"
    have d: "declare_nesting key nest = ?m" using False by (simp add: declare_nesting_def Let_def)
    have nn: "nesting_of ?n ?up = nesting_of nest ?up" using ne by (simp add: nesting_of_def)
    show ?thesis
      unfolding d table_of_def
    proof (intro conjI allI impI)
      show "bt_ok ?m" using ok by simp
      fix k
      show "map_of ?m k = None \<longleftrightarrow> k \<notin> insert key S \<and> (k = [] \<or> k \<notin> get_nesting ` insert key S)"
        using assms False by (auto simp: table_of_def)
      fix e assume e: "map_of ?m k = Some e"
      have "ne_indentation e = (if k \<in> insert key S then get_nesting k else [])
          \<and> bs_ok (ne_members e) \<and> set (ne_members e) = {c \<in> insert key S. get_nesting c = k \<and> k \<noteq> []}"
      proof (cases "k = ?up")
        case k: True
        with e have ef: "e = (nesting_of nest ?up)\<lparr>ne_members := bs_insert key (ne_members (nesting_of nest ?up))\<rparr>"
          by (simp add: nn)
        have "bs_ok (ne_members e)" unfolding ef using t(2) [of ?up] by simp
        moreover have "set (ne_members e) = insert key {c \<in> S. get_nesting c = ?up \<and> ?up \<noteq> []}"
          unfolding ef using t(3) [of ?up] by simp
        moreover have "ne_indentation e = (if ?up \<in> S then get_nesting ?up else [])"
          unfolding ef using t(1) [of ?up] by simp
        moreover have "{c \<in> insert key S. get_nesting c = ?up \<and> ?up \<noteq> []}
            = insert key {c \<in> S. get_nesting c = ?up \<and> ?up \<noteq> []}" using False by blast
        moreover have "?up \<in> insert key S \<longleftrightarrow> ?up \<in> S" using ne by simp
        ultimately show ?thesis unfolding k by (simp only: simp_thms)
      next
        case up: False
        show ?thesis
        proof (cases "k = key")
          case k: True
          with e up have "e = ?e" by simp
          then have parts: "ne_indentation e = get_nesting key" "ne_members e = ne_members (nesting_of nest key)"
            by simp_all
          have "{c \<in> insert key S. get_nesting c = key \<and> key \<noteq> []} = {c \<in> S. get_nesting c = key \<and> key \<noteq> []}"
            using ne by blast
          with t(2,3) [of key] show ?thesis unfolding k parts by (simp only: insertI1 if_True simp_thms)
        next
          case k: False
          with e up have "map_of nest k = Some e" by simp
          with assms have "ne_indentation e = (if k \<in> S then get_nesting k else [])" "bs_ok (ne_members e)"
            "set (ne_members e) = {c \<in> S. get_nesting c = k \<and> k \<noteq> []}" by (simp_all add: table_of_def)
          moreover have "{c \<in> insert key S. get_nesting c = k \<and> k \<noteq> []} = {c \<in> S. get_nesting c = k \<and> k \<noteq> []}"
            using up by blast
          moreover have "k \<in> insert key S \<longleftrightarrow> k \<in> S" using k by simp
          ultimately show ?thesis by (simp only: simp_thms)
        qed
      qed
      then show "ne_indentation e = (if k \<in> insert key S then get_nesting k else [])" "bs_ok (ne_members e)"
        "set (ne_members e) = {c \<in> insert key S. get_nesting c = k \<and> k \<noteq> []}" by simp_all
    qed
  qed
qed

lemma fold_declare_table: "table_of S nest \<Longrightarrow> table_of (set ks \<union> S) (fold declare_nesting ks nest)"
proof (induction ks arbitrary: S nest)
  case (Cons k ks)
  from Cons.IH [OF declare_nesting_table [OF Cons.prems, of k]] show ?case by simp
qed simp

lemma build_nestings_table:
  "table_of (\<Union>i \<in> set infos. set (mi_ident_order i)) (build_nestings infos)"
proof -
  have "table_of ((\<Union>i \<in> set infos. set (mi_ident_order i)) \<union> S)
      (fold (\<lambda>info. fold declare_nesting (rev (mi_ident_order info))) infos nest)" if "table_of S nest" for S nest
    using that
  proof (induction infos arbitrary: S nest)
    case (Cons i infos)
    from Cons.IH [OF fold_declare_table [OF Cons.prems, of "rev (mi_ident_order i)"]]
    show ?case by (simp add: Un_ac)
  qed simp
  moreover have "table_of {} []" by (simp add: table_of_def)
  ultimately have "table_of ((\<Union>i \<in> set infos. set (mi_ident_order i)) \<union> {})
      (fold (\<lambda>info. fold declare_nesting (rev (mi_ident_order info))) infos [])" by blast
  then show ?thesis by (simp add: build_nestings_def)
qed

lemma table_unique:
  assumes "table_of S a" "table_of S b"
  shows "a = b"
proof (rule bt_ok_unique)
  show "bt_ok a" "bt_ok b" using assms by (simp_all add: table_of_def)
  show "map_of a = map_of b"
  proof
    fix k
    have dom: "map_of a k = None \<longleftrightarrow> map_of b k = None" using assms by (simp add: table_of_def)
    show "map_of a k = map_of b k"
    proof (cases "map_of a k")
      case (Some e)
      then obtain g where g: "map_of b k = Some g" using dom by auto
      have "ne_indentation e = ne_indentation g" "bs_ok (ne_members e)" "bs_ok (ne_members g)"
        "set (ne_members e) = set (ne_members g)"
        using assms Some g by (simp_all add: table_of_def)
      then have "e = g" by (simp add: bs_ok_unique)
      with Some g show ?thesis by simp
    qed (use dom in simp)
  qed
qed


section \<open>The entities\<close>

lemma resolve_type_order:
  assumes "visits_all o1" "visits_all o2" "unshared (mi_identifiers info)"
  shows "resolve_type o1 info mods t = resolve_type o2 info mods t"
  by (induction t) (simp_all add: find_alias_order [OF assms])

lemma resolve_member_order:
  assumes "visits_all o1" "visits_all o2" "unshared (mi_identifiers info)"
  shows "resolve_member o1 parent ds info mods nest m = resolve_member o2 parent ds info mods nest m"
proof -
  have "build_field o1 f p mm d info mods nest = build_field o2 f p mm d info mods nest" for f p mm d
    unfolding build_field_def resolve_type_order [OF assms] ..
  then show ?thesis by (cases m) simp_all
qed

lemma build_entity_order:
  assumes "visits_all o1" "visits_all o2" "unshared (mi_identifiers info)"
  shows "build_entity n o1 info mods nest i d = build_entity n o2 info mods nest i d"
proof (induction n arbitrary: i d)
  case (Suc n)
  have rm: "resolve_member o1 p ds info mods nest = resolve_member o2 p ds info mods nest" for p ds
    using resolve_member_order [OF assms] by blast
  have be: "build_entity n o1 info mods nest = build_entity n o2 info mods nest"
    using Suc.IH by blast
  show ?case unfolding build_entity.simps rm be ..
qed simp

lemma those_set: "those xs = Some ys \<Longrightarrow> set xs = Some ` set ys"
proof (induction xs arbitrary: ys)
  case (Cons x xs)
  then obtain y zs where "x = Some y" "those xs = Some zs" "ys = y # zs" by (auto split: option.splits)
  with Cons.IH [of zs] show ?case by simp
qed simp

lemma those_None: "those xs = None \<longleftrightarrow> None \<in> set xs"
  by (induction xs) (auto split: option.split)

text \<open>The results for every order are the same set.\<close>

definition entity_results ::
  "nat \<Rightarrow> (string list \<Rightarrow> string list) \<Rightarrow> modules \<Rightarrow> nestings \<Rightarrow> proto_entity option option set" where
  "entity_results fuel order mods nest =
     {build_entity fuel order info mods nest i (idt_name i) | m info k i.
        map_of mods m = Some info \<and> map_of (mi_identifiers info) k = Some i
        \<and> (case map_of nest (idt_name i) of Some e \<Rightarrow> ne_indentation e = [] | None \<Rightarrow> True)}"

lemma top_level_results:
  assumes "visits_all order"
  shows "set (concat (map (\<lambda>(_, info). map (\<lambda>(_, i). build_entity fuel order info mods nest i (idt_name i))
           [(k, i) \<leftarrow> visit order (mi_identifiers info).
              case map_of nest (idt_name i) of Some e \<Rightarrow> ne_indentation e = [] | None \<Rightarrow> True])
         (visit order mods))) = entity_results fuel order mods nest" (is "set (concat (map ?f _)) = _")
proof (rule set_eqI)
  fix x
  have "x \<in> set (concat (map ?f (visit order mods))) \<longleftrightarrow>
      (\<exists>m info. (m, info) \<in> set (visit order mods) \<and> x \<in> set (?f (m, info)))"
  proof -
    have pairs: "(\<exists>p \<in> A. P p) \<longleftrightarrow> (\<exists>a b. (a, b) \<in> A \<and> P (a, b))" for A and P :: "'x \<times> 'y \<Rightarrow> bool" by auto
    have "x \<in> set (concat (map g ps)) \<longleftrightarrow> (\<exists>p \<in> set ps. x \<in> set (g p))"
      for g :: "string \<times> module_info \<Rightarrow> proto_entity option option list" and ps by simp
    then show ?thesis unfolding pairs .
  qed
  also have "\<dots> \<longleftrightarrow> (\<exists>m info. map_of mods m = Some info \<and> x \<in> set (?f (m, info)))"
    unfolding visit_set [OF assms] ..
  also have "\<dots> \<longleftrightarrow> x \<in> entity_results fuel order mods nest"
  proof -
    have "x \<in> set (?f (m, info)) \<longleftrightarrow> (\<exists>k i. (k, i) \<in> set (visit order (mi_identifiers info))
        \<and> (case map_of nest (idt_name i) of Some e \<Rightarrow> ne_indentation e = [] | None \<Rightarrow> True)
        \<and> x = build_entity fuel order info mods nest i (idt_name i))" for m info
      by (force simp: image_iff)
    then show ?thesis unfolding visit_set [OF assms] entity_results_def by blast
  qed
  finally show "x \<in> set (concat (map ?f (visit order mods))) \<longleftrightarrow> x \<in> entity_results fuel order mods nest" .
qed

lemma entity_results_order:
  assumes "visits_all o1" "visits_all o2" "\<And>m info. map_of mods m = Some info \<Longrightarrow> unshared (mi_identifiers info)"
  shows "entity_results fuel o1 mods nest = entity_results fuel o2 mods nest"
proof -
  have sub: "entity_results fuel a mods nest \<subseteq> entity_results fuel b mods nest"
    if "visits_all a" "visits_all b" for a b
  proof
    fix x assume "x \<in> entity_results fuel a mods nest"
    then obtain m info k i where at: "map_of mods m = Some info" "map_of (mi_identifiers info) k = Some i"
        "case map_of nest (idt_name i) of Some e \<Rightarrow> ne_indentation e = [] | None \<Rightarrow> True"
      and x: "x = build_entity fuel a info mods nest i (idt_name i)"
      unfolding entity_results_def by blast
    have "x = build_entity fuel b info mods nest i (idt_name i)"
      unfolding x by (rule build_entity_order [OF that assms(3) [OF at(1)]])
    with at show "x \<in> entity_results fuel b mods nest" unfolding entity_results_def by blast
  qed
  show ?thesis using sub [OF assms(1,2)] sub [OF assms(2,1)] by (rule subset_antisym)
qed

lemma top_level_set:
  assumes "visits_all order" "top_level_entities fuel order mods nest = Some es"
  shows "set es = {e. Some (Some e) \<in> entity_results fuel order mods nest}"
proof -
  let ?L = "concat (map (\<lambda>(_, info). map (\<lambda>(_, i). build_entity fuel order info mods nest i (idt_name i))
           [(k, i) \<leftarrow> visit order (mi_identifiers info).
              case map_of nest (idt_name i) of Some e \<Rightarrow> ne_indentation e = [] | None \<Rightarrow> True])
         (visit order mods))"
  from assms(2) obtain rs where rs: "those ?L = Some rs"
    "es = concat (map (\<lambda>r. case r of None \<Rightarrow> [] | Some e \<Rightarrow> [e]) rs)"
    unfolding top_level_entities_def by (simp only: map_option_eq_Some) blast
  have "e \<in> set es \<longleftrightarrow> Some e \<in> set rs" for e
    unfolding rs(2) by (induction rs) (auto split: option.splits)
  moreover have "Some e \<in> set rs \<longleftrightarrow> Some (Some e) \<in> set ?L" for e
    unfolding those_set [OF rs(1)] by blast
  ultimately show ?thesis unfolding top_level_results [OF assms(1)] by blast
qed

lemma top_level_None:
  assumes "visits_all order"
  shows "top_level_entities fuel order mods nest = None \<longleftrightarrow> None \<in> entity_results fuel order mods nest"
  unfolding top_level_entities_def top_level_results [OF assms, symmetric] by (simp only: option.map_disc_iff those_None)

lemma extracted_order:
  assumes o: "visits_all o1" "visits_all o2"
    and scans: "\<forall>(name, info) \<in> set scans. mi_identifiers info = [] \<and> distinct (map snd (mi_alias_matches info))"
  shows "extracted_entities fuel o1 scans = None \<longleftrightarrow> extracted_entities fuel o2 scans = None"
    and "extracted_entities fuel o1 scans = Some es \<Longrightarrow> extracted_entities fuel o2 scans = Some gs \<Longrightarrow> set es = set gs"
proof -
  let ?m = "\<lambda>order. map (\<lambda>(k, i). (k, completed order i)) (bt_of scans)"
  let ?n = "\<lambda>order. build_nestings (map snd (visit order (bt_of scans)))"
  have scan: "mi_identifiers i = [] \<and> distinct (map snd (mi_alias_matches i))" if "map_of (bt_of scans) k = Some i" for k i
    using that scans map_of_SomeD [of "rev scans" k i] by (auto simp: map_of_bt_of)
  have entry: "map_of (bt_of scans) k = Some i" if "(k, i) \<in> set (bt_of scans)" for k i
    using that bt_ok_distinct [OF bt_ok_bt_of, of scans] by simp
  have mods: "?m o1 = ?m o2"
  proof (rule map_cong [OF refl])
    fix p assume mem: "p \<in> set (bt_of scans)"
    obtain k i where p: "p = (k, i)" by (cases p)
    note sc = scan [OF entry [OF mem [unfolded p]]]
    show "(case p of (k, i) \<Rightarrow> (k, completed o1 i)) = (case p of (k, i) \<Rightarrow> (k, completed o2 i))"
      unfolding p prod.case completed_order(1) [OF o conjunct1 [OF sc] conjunct2 [OF sc]] ..
  qed
  have infos: "set (map snd (visit o1 (bt_of scans))) = set (map snd (visit o2 (bt_of scans)))"
  proof -
    have "set (visit o1 (bt_of scans)) = set (visit o2 (bt_of scans))"
      by (rule set_eqI, rename_tac p, case_tac p) (simp only: visit_set [OF o(1)] visit_set [OF o(2)])
    then show ?thesis by simp
  qed
  have nest: "?n o1 = ?n o2"
    using build_nestings_table [of "map snd (visit o1 (bt_of scans))"]
      build_nestings_table [of "map snd (visit o2 (bt_of scans))"]
    unfolding infos by (rule table_unique)
  have un: "unshared (mi_identifiers info)" if "map_of (?m o2) k = Some info" for k info
  proof -
    from that obtain i where i: "map_of (bt_of scans) k = Some i" "info = completed o2 i"
      by (auto simp: map_of_map)
    with scan [OF i(1)] completed_order(2) [OF o(2) o(2)] show ?thesis by simp
  qed
  have e1: "extracted_entities fuel o1 scans = top_level_entities fuel o1 (?m o2) (?n o2)"
    unfolding extracted_entities_def Let_def mods nest ..
  have e2: "extracted_entities fuel o2 scans = top_level_entities fuel o2 (?m o2) (?n o2)"
    unfolding extracted_entities_def Let_def ..
  have r: "entity_results fuel o1 (?m o2) nest = entity_results fuel o2 (?m o2) nest" for nest
    by (rule entity_results_order [OF o]) (rule un)
  show "extracted_entities fuel o1 scans = None \<longleftrightarrow> extracted_entities fuel o2 scans = None"
    unfolding e1 e2 top_level_None [OF o(1)] top_level_None [OF o(2)] r ..
  show "set es = set gs" if "extracted_entities fuel o1 scans = Some es" "extracted_entities fuel o2 scans = Some gs"
    using that top_level_set [OF o(1)] top_level_set [OF o(2)] r unfolding e1 e2 by simp
qed

text \<open>
  C12: The document does not depend on the order in which the hash maps of the extraction are visited:
  when every alias of a module is exported under one name and \<open>Debug\<close> tells the extracted entities
  apart, any two orders give the same document.
\<close>

theorem extraction_order_free:
  assumes "visits_all o1" "visits_all o2"
    and "\<forall>(name, info) \<in> set scans. mi_identifiers info = [] \<and> distinct (map snd (mi_alias_matches info))"
    and "extracted_entities fuel o1 scans = Some es" "inj_on dbg (set es)"
  shows "extract_proto fuel o1 dbg scans version = extract_proto fuel o2 dbg scans version"
proof -
  obtain gs where gs: "extracted_entities fuel o2 scans = Some gs"
    using extracted_order(1) [OF assms(1-3), of fuel] assms(4) by auto
  have "set es = set gs" by (rule extracted_order(2) [OF assms(1-4) gs])
  then have "dedup_top_level dbg es = dedup_top_level dbg gs" by (rule dedup_set_unique [OF assms(5)])
  then show ?thesis unfolding extract_proto_def assms(4) gs make_protoc_valid_def by simp
qed

lemma extraction_order_free_witness:
  "extract_proto 20 id entity_name [(''Test.pb'', sample_info)] ''1''
     = extract_proto 20 rev entity_name [(''Test.pb'', sample_info)] ''1''"
proof -
  let ?names = "[''Outer'', ''TestEnum'']"
  have "map_option (map entity_name) (extracted_entities 20 id [(''Test.pb'', sample_info)]) = Some ?names" by code_simp
  then obtain es where es: "extracted_entities 20 id [(''Test.pb'', sample_info)] = Some es" "map entity_name es = ?names"
    by (auto simp: map_option_eq_Some)
  have "distinct (map entity_name es)" unfolding es(2) by simp
  then have "inj_on entity_name (set es)" by (simp add: distinct_map)
  then show ?thesis
    by (intro extraction_order_free [OF _ _ _ es(1)]) (simp_all add: visits_all_def sample_info_def)
qed

end
