(* ===== verification/Spec2Isabelle.thy ===== *)
theory Spec2Isabelle
  imports Discover Bootloader Btarchive Download Cache Lock Archive Restore Capture ContractReport
    OutcomeGate WasmSet MexTypes MexPublish ProtoOrder
begin

text \<open>
  A verification development for whatspec, the Rust workspace that turns a build of the WhatsApp web
  client into machine-readable protocol documents.

  The program is a pipeline.  \<open>wa-fetch\<close> finds the JavaScript and WASM bundles of a build from its
  entry page, resolves deferred payloads through the site's bootloader endpoint, downloads them in
  parallel and keeps them in a cache keyed by version.  \<open>wa-store\<close> pins a build in lockfiles and
  restores it later from archives published on GitHub, verifying every byte against the locks;
  historical captures are restored the same way.  The scanners walk the JavaScript with a third-party
  parser and produce the intermediate representation of \<open>wa-ir\<close>.  \<open>wa-codegen\<close> renders that as Rust.
  The driver \<open>whatspec\<close> sequences all this and compares the documents of two builds.

  Theories, in the order of the pipeline:

  \<^item> \<open>Prelude\<close>: byte strings, decimal and hexadecimal text, \<open>BTreeMap\<close> and \<open>BTreeSet\<close> as strictly sorted
    lists, stable sorting, results as sums.  \<open>FreshNames\<close>: the loop that numbers a name until it is
    free, with the contracts (locales) \<open>name_supply\<close> and \<open>name_allocator\<close>.  \<open>FileSystem\<close>: directories
    and files as a map, file operations, and every state a crash or failure can leave between them.
  \<^item> \<open>TextScan\<close> (\<open>wa-text\<close>): the byte scanners over JavaScript source and the content hash.
  \<^item> \<open>UrlPolicy\<close>, \<open>HttpPort\<close>, \<open>Json\<close>, \<open>Discover\<close>, \<open>Bootloader\<close>, \<open>Btarchive\<close>, \<open>Download\<close>, \<open>Cache\<close>
    (\<open>wa-fetch\<close>: \<open>util.rs\<close>, \<open>http.rs\<close>, \<open>discover.rs\<close>, \<open>bootloader.rs\<close>, \<open>btarchive.rs\<close>, \<open>download.rs\<close>,
    \<open>cache.rs\<close>).  The download is a step relation over a shared cursor, the threads and the results,
    so that every interleaving is a run; the cache operations are lists of file operations.
  \<^item> \<open>Lock\<close>, \<open>Archive\<close>, \<open>Restore\<close>, \<open>Capture\<close> (\<open>wa-store\<close>: \<open>lock.rs\<close>, \<open>archive.rs\<close>, \<open>restore.rs\<close>,
    \<open>capture.rs\<close>).
  \<^item> \<open>IqIr\<close>, \<open>Wap\<close> (\<open>wa-ir\<close>: \<open>iq.rs\<close>, \<open>wap.rs\<close>): the response half of the intermediate representation
    and the classification of accessor spellings.
  \<^item> \<open>Naming\<close>, \<open>FieldTypes\<close>, \<open>UnionShape\<close>, \<open>Outcomes\<close>, \<open>OutcomeGate\<close> (\<open>wa-codegen\<close>: \<open>naming.rs\<close>,
    \<open>fields.rs\<close>, \<open>union.rs\<close>, \<open>spec.rs\<close>): the decisions of the code generator, that is, what
    identifiers, types, range tests and unions it chooses and which outcome unions it admits.
    \<open>ResponseNode\<close> is the specification those gates are measured by: the nodes, and what the parsers that
    \<open>emit.rs\<close> writes ask of one for the reads of a field.
  \<^item> \<open>ContractDiff\<close>, \<open>ContractReport\<close> (\<open>whatspec/src/contract_diff.rs\<close>): the difference of two
    documents and the reviewed report of two verified snapshots.
  \<^item> \<open>WasmNames\<close>, \<open>WasmSet\<close> (\<open>whatspec/src/main.rs\<close>): the WASM half of an update, from the payloads a run
    collects to the names, handles and pins its lock records and the files it writes.
  \<^item> \<open>MexLiteral\<close>, \<open>MexTypes\<close> (\<open>wa-mex/src/shape.rs\<close>, \<open>wa-ir/src/mex.rs\<close>): the parser that reads an
    operation literal out of a module body, following identifiers, and the type tree of its selections.
  \<^item> \<open>MexPresence\<close>, \<open>MexDefined\<close> (\<open>wa-mex/src/presence.rs\<close>): the value terms and scopes behind the
    presence of a variable, with the branch logs that join the arms of statements, and the judgements
    on values: whether one can be \<open>undefined\<close>, called, or named by a module.
  \<^item> \<open>MexSites\<close>, \<open>MexClassify\<close>, \<open>MexPublish\<close> (\<open>presence.rs\<close>, \<open>wa-mex/src/extract.rs\<close>, \<open>scripts/lint-ir.py\<close>): the
    presence tree of an operation, the classification of one call site, the merging of all sites into
    the published tree, and the linter's parity check of that tree against the typed shape.
  \<^item> \<open>ProtoText\<close>, \<open>ProtoValid\<close>, \<open>ProtoResolve\<close>, \<open>ProtoOrder\<close> (\<open>wa-proto/src/stringify.rs\<close>, \<open>extract.rs\<close>,
    \<open>wa-ir/src/proto.rs\<close>): the protobuf document and its text, the pass that keeps one entity per name and
    moves clashing enums into messages, the way from the descriptors the visitors collect to the
    document, and its independence of the order in which hash maps are visited.

  Conventions.  A Rust \<open>String\<close> is the list of its UTF-8 bytes.  A struct is a record, an enum a
  datatype, a \<open>Result\<close> a sum with the error on the left, an \<open>unwrap\<close> or \<open>panic\<close> that the model has to
  show unreachable an outer option.  A world that answers requests is threaded as a state \<open>'w\<close> with a
  client function, so a theorem about a restore holds for every behaviour of the network.  Unsigned
  sizes are \<open>nat\<close> where the code only compares and adds far below the width, an integer of the
  intermediate representation is an \<open>int\<close> with its width stated where it matters (\<open>representable\<close>,
  \<open>i64_min\<close>, \<open>i64_max\<close>).  There is no fuel
  outside the literal parser, the site classification and the nesting of protobuf entities, which the
  code does not bound: loops are structural, recursive with a measure, or
  \<open>first_free\<close>, whose termination the locale \<open>name_supply\<close> proves from the injectivity of the candidates.

  What the groups of lemmas show.  Fetching: no host outside the policy is ever asked or followed, a
  resolution binds handles to listed CDN payloads only, and every schedule of the download threads
  ends in the outcome of the sequential loop.  Storage: however a store or restore is cut short, the
  cache is as it was, a miss, or a hit with exactly the bytes asked for; a lock's fingerprint pins the
  multiset of contents; the GitHub token leaves for GitHub only.  Reports: a difference is empty
  exactly when two documents have one contract, its pointers lead to the values it shows, and the
  report's ids sign its entries.  Code generation: identifiers are usable in Rust 2024 (but for \<open>_\<close> and two
  words the keyword table lacks) and distinct, the emitted range test is the declared range, flattening
  keeps every read, the arms of a classified union can be told apart, the interval sweep over error codes
  is exact, and in an admitted outcome union a variant that accepts a node accepts one no earlier variant
  does; for tag cascades and outcomes these two hold where the reads of the variants are comparable, and
  unions that are not, with an arm never reached, are shown.  The
  WASM set: a run's lock pins every handle it stamps, its names are usable and distinct, its cached
  handles stay sound.  Operations: a printed literal reads back, the response tree names the selected
  paths, a walked body of branches without an \<open>else\<close> inside an arm leaves a name at the values its runs can
  leave it at, and a value judged present is on the wire unless a function comes out of a left operand of
  \<open>||\<close> or \<open>??\<close>; what is published as always present is sent by every recovered site whose object is plain
  (\<open>plain_object\<close>: read whole, without accessors).  Each of these provisos has a lemma beside it showing what
  goes wrong without it.
  Protobuf: the printed text determines the document; after the validity pass the package scope is free
  of clashes if the prefixed names of enums no message mentions are fresh, no enum is lost and every bare mention of one still resolves; the extraction ends, and its
  document depends on no visiting order.

  Parameters, with what is assumed of them: the SHA-256 digest (a function; injective on the inputs
  at hand where a theorem says so), \<open>serde_json\<close> (parsing after printing), the xz and gzip decoders and the entry reader of the \<open>tar\<close> crate,
  the HTTP client, the derived \<open>Debug\<close> text of a protobuf entity, the order in which a \<open>HashMap\<close> is visited
  (\<open>ProtoResolve\<close>), and \<open>parser_is_valid\<close> of \<open>spec.rs\<close>, which searches emitted Rust text: theorems on
  unions and outcomes hold whatever it answers.

  Fuel.  \<open>MexLiteral\<close> counts calls of the literal parser: its loops can stand still on text the code does
  not expect (\<open>stuck_loops_run_on\<close>), so \<open>Runs_on\<close> is a result of its own, more fuel never changes another
  result, and a printed literal needs no more fuel than it has bytes.  \<open>MexClassify\<close> counts calls of the
  site classification: \<open>classification_ends\<close> gives the fuel for scopes without a binding that reaches
  itself through a ternary, \<open>self_ternary_never_ends\<close> shows that no fuel is enough for one that does.
  \<open>ProtoResolve\<close> counts the nesting depth: a nested identifier is longer than its parent's, so fuel above
  the length of the longest one is enough (\<open>extraction_ends\<close>).

  Not modelled: the visitors of the scanners (\<open>wa-scan\<close>, \<open>wa-notif\<close>, \<open>wa-wam\<close>, \<open>wa-appstate\<close>, \<open>wa-enums\<close>,
  \<open>wa-abprops\<close>, \<open>wa-tokens\<close>, \<open>wa-oxc\<close>, \<open>wa-transform\<close>, the call-site walk of \<open>wa-mex\<close>, the collectors of \<open>wa-proto\<close>), whose
  every judgement reads the syntax trees of the third-party parser oxc; \<open>wa-wasm\<close>, which reads modules
  through wasmparser; the rendering of Rust, JSON and text; the native HTTP adapter.
\<close>

end
